(* ===== verification/Prelude.thy ===== *)
theory Prelude
  imports Main "HOL-Library.Word" "HOL-Library.Char_ord" "HOL-Library.List_Lexorder"
    "HOL-Library.Multiset"
begin

text \<open>
  Shared vocabulary of the development. Go strings are byte sequences compared bytewise, so they are
  \<^typ>\<open>string\<close> with the lexicographic order of \<open>List_Lexorder\<close> over
  \<open>Char_ord\<close>; \<open>[]byte\<close> is a list of 8-bit words; \<open>uint32\<close> and \<open>uint64\<close> are words of that
  width. A Go function that returns an error is a function into \<open>error + 'a\<close> with
  \<^const>\<open>Inl\<close> for the error. Go's \<open>sort.Strings\<close> is \<^const>\<open>sort\<close>; \<open>sort.Slice\<close> by a key is
  \<^const>\<open>sort_key\<close>.
\<close>

type_synonym byte = "8 word"
type_synonym u32 = "32 word"
type_synonym u64 = "64 word"

named_theorems go_simps \<open>unfolding rules for the executable models\<close>
named_theorems inv_intros \<open>preservation lemmas of component invariants\<close>

section \<open>Lists\<close>

text \<open>Go's \<open>raw[lo:hi]\<close>.\<close>

definition go_slice :: "'a list \<Rightarrow> nat \<Rightarrow> nat \<Rightarrow> 'a list" where
  "go_slice xs lo hi = take (hi - lo) (drop lo xs)"

lemma length_go_slice [simp]: "length (go_slice xs lo hi) = min (hi - lo) (length xs - lo)"
  by (simp add: go_slice_def)

lemma go_slice_self [simp]: "go_slice xs i i = []"
  by (simp add: go_slice_def)

lemma go_slice_full [simp]: "go_slice xs i (length xs) = drop i xs"
  by (simp add: go_slice_def)

lemma drop_go_slice [simp]: "drop k (go_slice xs lo hi) = go_slice xs (lo + k) hi"
  by (simp add: go_slice_def drop_take add.commute)

lemma go_slice_Cons: "lo < hi \<Longrightarrow> hi \<le> length xs \<Longrightarrow> go_slice xs lo hi = xs ! lo # go_slice xs (Suc lo) hi"
proof -
  assume a: "lo < hi" "hi \<le> length xs"
  then have "drop lo xs = xs ! lo # drop (Suc lo) xs"
    by (simp add: Cons_nth_drop_Suc)
  moreover from a have "hi - lo = Suc (hi - Suc lo)" by simp
  ultimately show ?thesis by (simp add: go_slice_def)
qed

lemma go_slice_append:
  assumes "lo \<le> mid" and "mid \<le> hi"
  shows "go_slice xs lo mid @ go_slice xs mid hi = go_slice xs lo hi"
proof -
  have "hi - lo = (mid - lo) + (hi - mid)" using assms by simp
  then have "go_slice xs lo hi = take (mid - lo) (drop lo xs) @ take (hi - mid) (drop (mid - lo) (drop lo xs))"
    by (simp only: go_slice_def take_add)
  also have "drop (mid - lo) (drop lo xs) = drop mid xs" using assms by simp
  finally show ?thesis by (simp add: go_slice_def)
qed

lemma sorted_sort_strings [simp]: "sorted (sort (xs :: string list))"
  by simp

end
