(* ===== verification/Utf8.thy ===== *)
theory Utf8
  imports Prelude
begin

text \<open>
  The part of Go's \<open>unicode/utf8\<close> that the position packages use: \<open>DecodeRune\<close> returns the first
  code point of a byte slice with its width, \<open>(RuneError, 0)\<close> for the empty slice and
  \<open>(RuneError, 1)\<close> for an invalid encoding (overlong forms, surrogates, values past U+10FFFF and
  truncated sequences included); \<open>Valid\<close> says that the whole slice decodes.
\<close>

definition RuneError :: nat where
  "RuneError = 65533"

definition is_cont :: "byte \<Rightarrow> bool" where
  "is_cont b \<longleftrightarrow> 128 \<le> unat b \<and> unat b \<le> 191"

fun DecodeRune :: "byte list \<Rightarrow> nat \<times> nat" where
  "DecodeRune [] = (RuneError, 0)"
| "DecodeRune (b0 # p) =
    (let n0 = unat b0 in
     if n0 < 128 then (n0, 1)
     else if n0 < 194 \<or> 244 < n0 then (RuneError, 1)
     else case p of
       [] \<Rightarrow> (RuneError, 1)
     | b1 # q \<Rightarrow>
        (let n1 = unat b1;
             lo = (if n0 = 224 then 160 else if n0 = 240 then 144 else 128);
             hi = (if n0 = 237 then 159 else if n0 = 244 then 143 else 191)
         in if n1 < lo \<or> hi < n1 then (RuneError, 1)
            else if n0 < 224 then ((n0 mod 32) * 64 + n1 mod 64, 2)
            else case q of
              [] \<Rightarrow> (RuneError, 1)
            | b2 # r \<Rightarrow>
               (if \<not> is_cont b2 then (RuneError, 1)
                else if n0 < 240 then
                  ((n0 mod 16) * 4096 + (n1 mod 64) * 64 + unat b2 mod 64, 3)
                else case r of
                  [] \<Rightarrow> (RuneError, 1)
                | b3 # _ \<Rightarrow>
                   (if \<not> is_cont b3 then (RuneError, 1)
                    else ((n0 mod 8) * 262144 + (n1 mod 64) * 4096 + (unat b2 mod 64) * 64
                           + unat b3 mod 64, 4)))))"

text \<open>An encoding error at the head of a non-empty slice, as callers test it.\<close>

definition bad_rune :: "byte list \<Rightarrow> bool" where
  "bad_rune p \<longleftrightarrow> DecodeRune p = (RuneError, 1)"

lemma DecodeRune_size_pos [simp]: "0 < snd (DecodeRune (b # p))"
  by (auto simp: Let_def split: list.splits)

lemma DecodeRune_size_nz [simp]: "snd (DecodeRune (b # p)) \<noteq> 0"
  using DecodeRune_size_pos [of b p] by (simp del: DecodeRune.simps DecodeRune_size_pos)

lemma DecodeRune_size_le: "snd (DecodeRune p) \<le> length p"
  by (cases p) (auto simp: Let_def split: list.splits)

lemma DecodeRune_size_le4: "snd (DecodeRune p) \<le> 4"
  by (cases p) (auto simp: Let_def split: list.splits)

function Valid :: "byte list \<Rightarrow> bool" where
  "Valid [] = True"
| "Valid (b # p) =
    (\<not> bad_rune (b # p) \<and> Valid (drop (snd (DecodeRune (b # p))) (b # p)))"
  by pat_completeness auto
termination
proof (relation "measure length")
  fix b :: byte and p
  have "0 < snd (DecodeRune (b # p))" by (rule DecodeRune_size_pos)
  then show "(drop (snd (DecodeRune (b # p))) (b # p), b # p) \<in> measure length"
    by (simp only: in_measure length_drop list.size)
qed simp

declare DecodeRune.simps(2) [simp del] Valid.simps(2) [simp del]

section \<open>What one decoding step looks at\<close>

text \<open>
  A decoding step depends on the bytes it consumes only, so a step that succeeds inside a longer
  slice succeeds inside every prefix that still holds those bytes, and conversely.
\<close>

lemma DecodeRune_ascii: "unat b < 128 \<Longrightarrow> DecodeRune (b # p) = (unat b, 1)"
  by (simp add: DecodeRune.simps)

lemma DecodeRune_size1:
  "\<not> bad_rune (b # p) \<Longrightarrow> snd (DecodeRune (b # p)) = 1 \<Longrightarrow> unat b < 128"
  by (auto simp: bad_rune_def DecodeRune.simps Let_def split: list.splits if_splits)

lemma DecodeRune_high_bytes:
  assumes "\<not> bad_rune (b # p)" and "128 \<le> unat b"
    and "x \<in> set (take (snd (DecodeRune (b # p))) (b # p))"
  shows "128 \<le> unat x"
  using assms
  by (auto simp: bad_rune_def DecodeRune.simps Let_def is_cont_def split: list.splits if_splits)

lemma DecodeRune_append:
  assumes "p \<noteq> []" and "\<not> bad_rune p"
  shows "DecodeRune (p @ q) = DecodeRune p"
proof -
  obtain b0 p1 where p: "p = b0 # p1" using assms(1) by (cases p) auto
  show ?thesis
  proof (cases p1)
    case Nil
    with assms p show ?thesis
      by (simp add: bad_rune_def DecodeRune.simps Let_def split: if_splits)
  next
    case p1: (Cons b1 p2)
    show ?thesis
    proof (cases p2)
      case Nil
      with assms p p1 show ?thesis
        by (simp add: bad_rune_def DecodeRune.simps Let_def split: if_splits)
    next
      case p2: (Cons b2 p3)
      from assms p p1 p2 show ?thesis
        by (cases p3; simp add: bad_rune_def DecodeRune.simps Let_def split: if_splits)
    qed
  qed
qed

lemma DecodeRune_prefix:
  assumes "p \<noteq> []" and "\<not> bad_rune (p @ q)" and "snd (DecodeRune (p @ q)) \<le> length p"
  shows "DecodeRune p = DecodeRune (p @ q)"
proof (cases "bad_rune p")
  case False
  with assms(1) show ?thesis by (simp add: DecodeRune_append)
next
  case True
  obtain b0 p1 where p: "p = b0 # p1" using assms(1) by (cases p) auto
  show ?thesis
  proof (cases p1)
    case Nil
    with assms p have "unat b0 < 128"
      using DecodeRune_size1 [of b0 q] DecodeRune_size_pos [of b0 q] by fastforce
    with p show ?thesis by (simp add: DecodeRune_ascii)
  next
    case p1: (Cons b1 p2)
    show ?thesis
    proof (cases p2)
      case Nil
      with assms True p p1 show ?thesis
        by (cases q; simp add: bad_rune_def DecodeRune.simps Let_def split: if_splits list.splits)
    next
      case p2: (Cons b2 p3)
      from assms True p p1 p2 show ?thesis
        by (cases p3; cases q; simp add: bad_rune_def DecodeRune.simps Let_def split: if_splits)
    qed
  qed
qed

lemma DecodeRune_take:
  assumes "p \<noteq> []" and "\<not> bad_rune p" and "snd (DecodeRune p) \<le> k"
  shows "DecodeRune (take k p) = DecodeRune p"
proof -
  obtain b r where "p = b # r" using assms(1) by (cases p) auto
  then have k: "0 < k" using assms(3) by (metis DecodeRune_size_pos less_le_trans)
  have "snd (DecodeRune p) \<le> length (take k p)"
    using assms(3) DecodeRune_size_le [of p] by simp
  then show ?thesis
    using DecodeRune_prefix [of "take k p" "drop k p"] assms k by simp
qed

lemma DecodeRune_bmp: "65535 < fst (DecodeRune p) \<Longrightarrow> snd (DecodeRune p) = 4"
proof -
  have m: "x mod 64 \<le> 63" "x mod 32 \<le> 31" "x mod 16 \<le> 15" for x :: nat
    by (simp_all add: less_Suc_eq_le [symmetric])
  have "a mod 16 * 4096 + b mod 64 * 64 + c mod 64 \<le> 65535" for a b c :: nat
    using m(3) [of a] m(1) [of b] m(1) [of c] by linarith
  moreover have "a mod 32 * 64 + b mod 64 \<le> 65535" for a b :: nat
    using m(2) [of a] m(1) [of b] by linarith
  ultimately show "65535 < fst (DecodeRune p) \<Longrightarrow> ?thesis"
    by (cases p)
       (auto simp: DecodeRune.simps Let_def RuneError_def not_less [symmetric]
          split: list.splits if_splits)
qed

section \<open>Valid slices\<close>

lemma Valid_Cons_iff:
  "p \<noteq> [] \<Longrightarrow> Valid p \<longleftrightarrow> \<not> bad_rune p \<and> Valid (drop (snd (DecodeRune p)) p)"
  by (cases p) (simp_all add: Valid.simps)

lemma Valid_not_bad: "Valid p \<Longrightarrow> p \<noteq> [] \<Longrightarrow> \<not> bad_rune p"
  by (simp add: Valid_Cons_iff)

lemma Valid_step: "Valid p \<Longrightarrow> p \<noteq> [] \<Longrightarrow> Valid (drop (snd (DecodeRune p)) p)"
  by (simp add: Valid_Cons_iff)

lemma Valid_ascii_tl: "Valid (b # p) \<Longrightarrow> unat b < 128 \<Longrightarrow> Valid p"
  by (drule Valid_step) (simp_all add: DecodeRune_ascii)

text \<open>Induction over the code points of a valid slice.\<close>

lemma Valid_induct [consumes 1, case_names Nil rune]:
  assumes "Valid p"
    and "P []"
    and "\<And>p. p \<noteq> [] \<Longrightarrow> \<not> bad_rune p \<Longrightarrow> Valid p \<Longrightarrow> Valid (drop (snd (DecodeRune p)) p)
      \<Longrightarrow> P (drop (snd (DecodeRune p)) p) \<Longrightarrow> P p"
  shows "P p"
  using assms(1)
proof (induction p rule: Valid.induct)
  case 1
  show ?case by (rule assms(2))
next
  case (2 b p)
  then have v: "\<not> bad_rune (b # p)" "Valid (drop (snd (DecodeRune (b # p))) (b # p))"
    by (simp_all add: Valid.simps)
  show ?case
    by (rule assms(3) [OF _ v(1) "2.prems" v(2) "2.IH" [OF v(2)]]) simp
qed

end
