(* ===== verification/Source_Position.thy ===== *)
theory Source_Position
  imports Utf8
begin

text \<open>
  Package \<open>internal/sourceposition\<close>: conversion between LSP positions (line, character in the
  code units of the negotiated encoding) and byte offsets. A position is a pair of \<open>uint32\<close>; unit
  and line counters wrap as \<open>uint32\<close> do. The loops of the Go code walk an index over \<open>raw\<close>; each
  is a recursion over the bytes that remain, \<open>raw[i:]\<close>, with the index kept as an argument.
\<close>

record Position =
  Line :: u32
  Character :: u32

record Range =
  Start :: Position
  End :: Position

datatype pos_error =
    ErrCharacterOutOfLine u32
  | ErrInvalidUTF8
  | ErrInvertedRange
  | ErrLineOutOfDocument u32
  | ErrMidCodeUnit "u32 option"
  | ErrUnsupportedEncoding string
  | AtStart pos_error
  | AtEnd pos_error
  | IndexPanic

definition CR :: byte where "CR = 13"
definition LF :: byte where "LF = 10"

definition Supported :: "string \<Rightarrow> bool" where
  "Supported encoding \<longleftrightarrow>
     encoding = ''utf-8'' \<or> encoding = ''utf-16'' \<or> encoding = ''utf-32''"

section \<open>Line bounds\<close>

text \<open>The scan for the end of the line, \<open>for end < len(raw) && raw[end] != CR && raw[end] != LF\<close>.\<close>

fun line_end :: "byte list \<Rightarrow> nat \<Rightarrow> nat" where
  "line_end [] e = e"
| "line_end (b # bs) e = (if b \<noteq> CR \<and> b \<noteq> LF then line_end bs (Suc e) else e)"

function lineBounds_loop ::
  "u32 \<Rightarrow> byte list \<Rightarrow> nat \<Rightarrow> u32 \<Rightarrow> nat \<Rightarrow> pos_error + (nat \<times> nat)" where
  "lineBounds_loop target rest i line start =
    (if line = target then Inr (start, line_end rest i)
     else case rest of
       [] \<Rightarrow> Inl (ErrLineOutOfDocument target)
     | b # bs \<Rightarrow>
        (if b = CR then
           (case bs of
              c # cs \<Rightarrow>
                (if c = LF then lineBounds_loop target cs (i + 2) (line + 1) (i + 2)
                 else lineBounds_loop target bs (i + 1) (line + 1) (i + 1))
            | [] \<Rightarrow> lineBounds_loop target bs (i + 1) (line + 1) (i + 1))
         else if b = LF then lineBounds_loop target bs (i + 1) (line + 1) (i + 1)
         else
           (let sz = snd (DecodeRune rest) in
            if sz = 0 then Inl (ErrLineOutOfDocument target)
            else lineBounds_loop target (drop sz rest) (i + sz) line start)))"
  by pat_completeness auto
termination
  by (relation "measure (\<lambda>(target, rest, i, line, start). length rest)") auto

declare lineBounds_loop.simps [simp del]

definition lineBounds :: "byte list \<Rightarrow> u32 \<Rightarrow> pos_error + (nat \<times> nat)" where
  "lineBounds raw target = lineBounds_loop target raw 0 0 0"

section \<open>Offset of a position\<close>

definition offset_width :: "string \<Rightarrow> nat \<Rightarrow> nat \<Rightarrow> u32" where
  "offset_width encoding r sz =
     (if encoding = ''utf-8'' then of_nat sz
      else if encoding = ''utf-16'' then (if r > 65535 then 2 else 1)
      else 1)"

function offset_loop :: "string \<Rightarrow> u32 \<Rightarrow> byte list \<Rightarrow> nat \<Rightarrow> u32 \<Rightarrow> pos_error + nat" where
  "offset_loop encoding ch [] off units =
     (if units = ch then Inr off else Inl (ErrCharacterOutOfLine ch))"
| "offset_loop encoding ch (b # bs) off units =
     (if units = ch then Inr off
      else
        (let (r, sz) = DecodeRune (b # bs);
             width = offset_width encoding r sz
         in if ch < units + width then Inl (ErrMidCodeUnit (Some ch))
            else offset_loop encoding ch (drop sz (b # bs)) (off + sz) (units + width)))"
  by pat_completeness auto
termination
proof (relation "measure (\<lambda>(encoding, ch, bs, off, units). length bs)")
  fix b :: byte and bs x r sz
  assume "x = DecodeRune (b # bs)" "(r, sz) = x"
  then have "0 < sz" using DecodeRune_size_pos [of b bs] by (metis snd_conv)
  then show "((encoding, ch, drop sz (b # bs), off + sz, units + width), encoding, ch, b # bs, off, units)
      \<in> measure (\<lambda>(encoding, ch, bs, off, units). length bs)" for encoding ch off units width
    by simp
qed simp

declare offset_loop.simps [simp del]

definition Offset :: "byte list \<Rightarrow> string \<Rightarrow> Position \<Rightarrow> pos_error + nat" where
  "Offset raw encoding position =
     (if \<not> Supported encoding then Inl (ErrUnsupportedEncoding encoding)
      else case lineBounds raw (Line position) of
        Inl err \<Rightarrow> Inl err
      | Inr (lineStart, lineEnd) \<Rightarrow>
          (if \<not> Valid (go_slice raw lineStart lineEnd) then Inl ErrInvalidUTF8
           else offset_loop encoding (Character position) (go_slice raw lineStart lineEnd)
                  lineStart 0))"

definition Offsets :: "byte list \<Rightarrow> string \<Rightarrow> Range \<Rightarrow> pos_error + (nat \<times> nat)" where
  "Offsets raw encoding r =
     (case Offset raw encoding (Start r) of
        Inl err \<Rightarrow> Inl (AtStart err)
      | Inr start \<Rightarrow>
          (case Offset raw encoding (End r) of
             Inl err \<Rightarrow> Inl (AtEnd err)
           | Inr fin \<Rightarrow> (if fin < start then Inl ErrInvertedRange else Inr (start, fin))))"

section \<open>Position of an offset\<close>

function position_scan ::
  "nat \<Rightarrow> byte list \<Rightarrow> nat \<Rightarrow> u32 \<Rightarrow> nat \<Rightarrow> pos_error + (u32 \<times> nat)" where
  "position_scan target rest off line lineStart =
    (if off < target then
       (case rest of
          [] \<Rightarrow> Inl IndexPanic
        | b # bs \<Rightarrow>
           (if b = CR then
              (let (bs', off') =
                 (case bs of
                    c # cs \<Rightarrow> (if c = LF then (cs, off + 2) else (bs, off + 1))
                  | [] \<Rightarrow> (bs, off + 1))
               in if off' > target then Inl (ErrMidCodeUnit None)
                  else position_scan target bs' off' (line + 1) off')
            else if b = LF then position_scan target bs (off + 1) (line + 1) (off + 1)
            else
              (let sz = snd (DecodeRune rest) in
               if off + sz > target then Inl (ErrMidCodeUnit None)
               else position_scan target (drop sz rest) (off + sz) line lineStart)))
     else Inr (line, lineStart))"
  by pat_completeness auto
termination
  by (relation "measure (\<lambda>(target, rest, off, line, lineStart). length rest)")
     (auto split: list.splits if_splits)

declare position_scan.simps [simp del]

definition unit_step :: "string \<Rightarrow> nat \<Rightarrow> nat \<Rightarrow> u32" where
  "unit_step encoding r sz =
     (if encoding = ''utf-8'' then of_nat sz
      else if encoding = ''utf-16'' then (if r > 65535 then 2 else 1)
      else if encoding = ''utf-32'' then 1
      else 0)"

function count_units :: "string \<Rightarrow> byte list \<Rightarrow> u32 \<Rightarrow> u32" where
  "count_units encoding [] units = units"
| "count_units encoding (b # bs) units =
     (let (r, sz) = DecodeRune (b # bs)
      in count_units encoding (drop sz (b # bs)) (units + unit_step encoding r sz))"
  by pat_completeness auto
termination
proof (relation "measure (\<lambda>(encoding, bs, units). length bs)")
  fix b :: byte and bs x r sz
  assume "x = DecodeRune (b # bs)" "(r, sz) = x"
  then have "0 < sz" using DecodeRune_size_pos [of b bs] by (metis snd_conv)
  then show "((encoding, drop sz (b # bs), units + unit_step encoding r sz), encoding, b # bs, units)
      \<in> measure (\<lambda>(encoding, bs, units). length bs)" for encoding units
    by simp
qed simp

declare count_units.simps(2) [simp del]

definition PositionAtOffset :: "byte list \<Rightarrow> string \<Rightarrow> int \<Rightarrow> pos_error + Position" where
  "PositionAtOffset raw encoding target =
     (if \<not> Supported encoding then Inl (ErrUnsupportedEncoding encoding)
      else if target < 0 \<or> target > int (length raw) \<or> \<not> Valid raw then Inl ErrInvalidUTF8
      else case position_scan (nat target) raw 0 0 0 of
        Inl err \<Rightarrow> Inl err
      | Inr (line, lineStart) \<Rightarrow>
          Inr \<lparr>Line = line,
               Character = count_units encoding (go_slice raw lineStart (nat target)) 0\<rparr>)"


section \<open>One line of a valid document\<close>

text \<open>
  The content of the first line of a byte slice ends at its first CR or LF (\<open>content\<close> is its
  length); \<open>brk\<close> is where the next line starts, \<^const>\<open>None\<close> on the last line. Both scans of the
  code move from line to line, and inside a line from code point to code point; a byte offset is
  the start of a code point exactly when the bytes before it are valid.
\<close>

definition noterm :: "byte \<Rightarrow> bool" where
  "noterm b \<longleftrightarrow> b \<noteq> CR \<and> b \<noteq> LF"

definition content :: "byte list \<Rightarrow> nat" where
  "content p = length (takeWhile noterm p)"

definition brk :: "byte list \<Rightarrow> nat option" where
  "brk p = (case drop (content p) p of
      [] \<Rightarrow> None
    | b # q \<Rightarrow> (case q of
        [] \<Rightarrow> Some (content p + 1)
      | c # _ \<Rightarrow> Some (content p + (if b = CR \<and> c = LF then 2 else 1))))"

abbreviation rune_size :: "byte list \<Rightarrow> nat" where
  "rune_size p \<equiv> snd (DecodeRune p)"

lemma content_le: "content p \<le> length p"
  by (simp add: content_def length_takeWhile_le)

lemma line_end_content: "line_end p e = e + content p"
  by (induction p arbitrary: e) (auto simp: content_def noterm_def)

lemma term_ascii: "\<not> noterm b \<Longrightarrow> unat b < 128"
  by (auto simp: noterm_def CR_def LF_def)

lemma rune_size_pos: "p \<noteq> [] \<Longrightarrow> 0 < rune_size p"
  by (cases p) simp_all

lemma content_step:
  assumes "p \<noteq> []" and "\<not> bad_rune p" and "noterm (hd p)"
  shows "content p = rune_size p + content (drop (rune_size p) p)"
proof -
  obtain b q where p: "p = b # q" using assms(1) by (cases p) auto
  have "noterm x" if x: "x \<in> set (take (rune_size p) p)" for x
  proof (cases "unat b < 128")
    case True
    with x p assms(3) show ?thesis by (simp add: DecodeRune_ascii)
  next
    case False
    with x assms(2) p have "128 \<le> unat x" by (auto intro: DecodeRune_high_bytes)
    then show ?thesis using term_ascii [of x] by linarith
  qed
  then have "takeWhile noterm (take (rune_size p) p @ drop (rune_size p) p)
      = take (rune_size p) p @ takeWhile noterm (drop (rune_size p) p)"
    by (rule takeWhile_append2)
  then show ?thesis
    using DecodeRune_size_le [of p] by (simp add: content_def)
qed

lemma content_term: "p \<noteq> [] \<Longrightarrow> \<not> noterm (hd p) \<Longrightarrow> content p = 0"
  by (cases p) (simp_all add: content_def)

lemma brk_step:
  assumes "p \<noteq> []" and "\<not> bad_rune p" and "noterm (hd p)"
  shows "brk p = map_option (\<lambda>n. rune_size p + n) (brk (drop (rune_size p) p))"
  using content_step [OF assms]
  by (auto simp: brk_def add.commute split: list.splits)

lemma brk_bounds:
  assumes "brk p = Some n"
  shows "content p < n" "n \<le> length p" "n \<le> content p + 2"
proof -
  from assms obtain b q where d: "drop (content p) p = b # q"
    by (auto simp: brk_def split: list.splits)
  then have "length p - content p = Suc (length q)"
    by (metis length_Cons length_drop)
  with assms d show "content p < n" "n \<le> length p" "n \<le> content p + 2"
    by (auto simp: brk_def split: list.splits if_splits)
qed

lemma brk_None: "brk p = None \<longleftrightarrow> content p = length p"
proof -
  have "brk p = None \<longleftrightarrow> drop (content p) p = []"
    by (auto simp: brk_def split: list.splits)
  then show ?thesis using content_le [of p] by auto
qed

lemma Valid_line:
  assumes "Valid p"
  shows "Valid (take (content p) p)" and "\<And>n. brk p = Some n \<Longrightarrow> Valid (drop n p)"
  using assms
proof (induction p rule: Valid_induct)
  case Nil
  { case 1 show ?case by simp }
  { case 2 then show ?case by (simp add: brk_def content_def) }
next
  case (rune p)
  let ?s = "rune_size p"
  have s: "?s \<le> length p" by (rule DecodeRune_size_le)
  show "Valid (take (content p) p)" and "\<And>n. brk p = Some n \<Longrightarrow> Valid (drop n p)"
  proof -
    show "Valid (take (content p) p)"
    proof (cases "noterm (hd p)")
      case True
      then have c: "content p = ?s + content (drop ?s p)"
        using rune.hyps content_step by blast
      have "take (content p) p \<noteq> []" using c rune_size_pos rune.hyps(1) by auto
      moreover have "DecodeRune (take (content p) p) = DecodeRune p"
        using DecodeRune_take [OF rune.hyps(1,2)] c by simp
      moreover have "drop ?s (take (content p) p) = take (content (drop ?s p)) (drop ?s p)"
        using c by (simp add: drop_take)
      ultimately show ?thesis
        using rune.hyps(2) rune.IH(1) by (simp add: Valid_Cons_iff bad_rune_def)
    qed (use rune.hyps(1) in \<open>simp add: content_term\<close>)
  next
    fix n assume n: "brk p = Some n"
    show "Valid (drop n p)"
    proof (cases "noterm (hd p)")
      case True
      with n rune.hyps obtain m where "brk (drop ?s p) = Some m" "n = ?s + m"
        by (auto simp: brk_step)
      then show ?thesis using rune.IH(2) [of m] by (simp add: add.commute)
    next
      case False
      obtain b q where p: "p = b # q" using rune.hyps(1) by (cases p) auto
      with False have b: "unat b < 128" by (simp add: term_ascii)
      then have q: "Valid q" using rune.hyps(3) p Valid_ascii_tl by blast
      show ?thesis
      proof (cases "n = 1")
        case True
        with p q show ?thesis by simp
      next
        case False
        with n p rune.hyps(1) \<open>\<not> noterm (hd p)\<close> obtain c r where "q = c # r" "c = LF" "n = 2"
          by (auto simp: brk_def content_term split: list.splits if_splits)
        with p q show ?thesis using Valid_ascii_tl [of c r] by (simp add: LF_def)
      qed
    qed
  qed
qed

lemma Valid_take_iff:
  assumes "Valid p" and "p \<noteq> []" and "0 < m"
  shows "Valid (take m p) \<longleftrightarrow>
    rune_size p \<le> m \<and> Valid (take (m - rune_size p) (drop (rune_size p) p))"
proof -
  have nb: "\<not> bad_rune p" using assms(1,2) by (rule Valid_not_bad)
  have ne: "take m p \<noteq> []" using assms(2,3) by simp
  show ?thesis
  proof (cases "rune_size p \<le> m")
    case True
    then have "DecodeRune (take m p) = DecodeRune p"
      by (rule DecodeRune_take [OF assms(2) nb])
    with ne nb True show ?thesis
      by (simp add: Valid_Cons_iff bad_rune_def drop_take)
  next
    case False
    have "\<not> Valid (take m p)"
    proof
      assume "Valid (take m p)"
      then have "\<not> bad_rune (take m p)" using ne by (rule Valid_not_bad)
      then have "DecodeRune (take m p @ drop m p) = DecodeRune (take m p)"
        by (rule DecodeRune_append [OF ne])
      then have "rune_size p \<le> length (take m p)"
        using DecodeRune_size_le [of "take m p"] by simp
      with False show False by simp
    qed
    with False show ?thesis by simp
  qed
qed


section \<open>The two scans, line by line\<close>

lemma lineBounds_loop_here:
  "lineBounds_loop line rest i line start = Inr (start, i + content rest)"
  by (simp add: lineBounds_loop.simps line_end_content)

lemma lineBounds_loop_next:
  assumes "Valid rest" and "line \<noteq> target"
  shows "lineBounds_loop target rest i line start =
    (case brk rest of
       None \<Rightarrow> Inl (ErrLineOutOfDocument target)
     | Some n \<Rightarrow> lineBounds_loop target (drop n rest) (i + n) (line + 1) (i + n))"
  using assms
proof (induction rest arbitrary: i rule: Valid_induct)
  case Nil
  then show ?case by (simp add: lineBounds_loop.simps brk_def content_def)
next
  case (rune p)
  obtain b q where p: "p = b # q" using rune.hyps(1) by (cases p) auto
  show ?case
  proof (cases "noterm b")
    case True
    then have "brk p = map_option (\<lambda>n. rune_size p + n) (brk (drop (rune_size p) p))"
      using rune.hyps p by (intro brk_step) simp_all
    moreover have "lineBounds_loop target p i line start =
        lineBounds_loop target (drop (rune_size p) p) (i + rune_size p) line start"
      using True rune.prems p by (subst lineBounds_loop.simps) (simp add: noterm_def Let_def)
    ultimately show ?thesis
      using rune.IH [OF rune.prems, of "i + rune_size p"]
      by (simp add: add_ac split: option.splits)
  next
    case False
    then have "content p = 0" using p by (simp add: content_def)
    with False rune.prems p show ?thesis
      by (subst lineBounds_loop.simps) (auto simp: noterm_def brk_def LF_def CR_def split: list.splits)
  qed
qed

lemma position_scan_here:
  assumes "Valid rest" and "off \<le> target" and "target \<le> off + content rest"
  shows "position_scan target rest off line lineStart =
    (if Valid (take (target - off) rest) then Inr (line, lineStart) else Inl (ErrMidCodeUnit None))"
  using assms
proof (induction rest arbitrary: off rule: Valid_induct)
  case Nil
  then show ?case by (simp add: content_def position_scan.simps)
next
  case (rune p)
  obtain b q where p: "p = b # q" using rune.hyps(1) by (cases p) auto
  let ?s = "rune_size p"
  show ?case
  proof (cases "off < target")
    case False
    then show ?thesis using rune.prems by (simp add: position_scan.simps)
  next
    case True
    then have "noterm b" using rune.prems p by (auto simp: content_def split: if_splits)
    then have c: "content p = ?s + content (drop ?s p)"
      using rune.hyps p content_step by simp
    have v: "Valid (take (target - off) p) \<longleftrightarrow>
        ?s \<le> target - off \<and> Valid (take (target - off - ?s) (drop ?s p))"
      using Valid_take_iff [OF rune.hyps(3,1)] True by simp
    have step: "position_scan target p off line lineStart =
       (if off + ?s > target then Inl (ErrMidCodeUnit None)
        else position_scan target (drop ?s p) (off + ?s) line lineStart)"
      using True \<open>noterm b\<close> p by (subst position_scan.simps) (simp add: noterm_def Let_def)
    show ?thesis
    proof (cases "off + ?s > target")
      case True
      then show ?thesis using step v \<open>off < target\<close> by auto
    next
      case False
      then have "position_scan target (drop ?s p) (off + ?s) line lineStart =
        (if Valid (take (target - (off + ?s)) (drop ?s p)) then Inr (line, lineStart)
         else Inl (ErrMidCodeUnit None))"
        using rune.prems c by (intro rune.IH) simp_all
      then show ?thesis using step v False by (simp add: diff_diff_left)
    qed
  qed
qed

lemma position_scan_next:
  assumes "Valid rest" and "off + content rest < target" and "brk rest = Some n"
  shows "position_scan target rest off line lineStart =
    (if target < off + n then Inl (ErrMidCodeUnit None)
     else position_scan target (drop n rest) (off + n) (line + 1) (off + n))"
  using assms
proof (induction rest arbitrary: off n rule: Valid_induct)
  case Nil
  then show ?case by (simp add: brk_def content_def)
next
  case (rune p)
  obtain b q where p: "p = b # q" using rune.hyps(1) by (cases p) auto
  let ?s = "rune_size p"
  have lt: "off < target" using rune.prems(1) by simp
  show ?case
  proof (cases "noterm b")
    case True
    then have c: "content p = ?s + content (drop ?s p)"
      using rune.hyps p content_step by simp
    from True rune.hyps rune.prems(2) p obtain m where m: "brk (drop ?s p) = Some m" "n = ?s + m"
      using brk_step [of p] by (cases "brk (drop ?s p)") simp_all
    have "position_scan target p off line lineStart =
        position_scan target (drop ?s p) (off + ?s) line lineStart"
      using lt True p c rune.prems(1) by (subst position_scan.simps) (simp add: noterm_def Let_def)
    moreover have "position_scan target (drop ?s p) (off + ?s) line lineStart =
      (if target < off + ?s + m then Inl (ErrMidCodeUnit None)
       else position_scan target (drop m (drop ?s p)) (off + ?s + m) (line + 1) (off + ?s + m))"
      using c m rune.prems(1) by (intro rune.IH) simp_all
    ultimately show ?thesis using m(2) by (simp add: add_ac)
  next
    case False
    then have "content p = 0" using p by (simp add: content_def)
    then show ?thesis using lt False p rune.prems(2)
      by (subst position_scan.simps)
         (auto simp: noterm_def brk_def Let_def LF_def CR_def split: list.splits if_splits)
  qed
qed

section \<open>Units inside a line\<close>

lemma unit_step_bounds:
  assumes "Supported encoding" and "p \<noteq> []" and "DecodeRune p = (r, s)"
  shows "1 \<le> unat (unit_step encoding r s)" and "unat (unit_step encoding r s) \<le> s"
    and "offset_width encoding r s = unit_step encoding r s"
proof -
  have s: "0 < s" "s \<le> 4"
    using rune_size_pos [OF assms(2)] DecodeRune_size_le4 [of p] assms(3) by simp_all
  have n: "unat (of_nat s :: u32) = s" using s(2) by (simp add: unat_of_nat)
  have "65535 < r \<Longrightarrow> s = 4" using DecodeRune_bmp [of p] assms(3) by simp
  with s n assms(1) show "1 \<le> unat (unit_step encoding r s)" "unat (unit_step encoding r s) \<le> s"
      "offset_width encoding r s = unit_step encoding r s"
    by (auto simp: unit_step_def offset_width_def Supported_def)
qed

lemma count_units_step:
  "p \<noteq> [] \<Longrightarrow> DecodeRune p = (r, s) \<Longrightarrow>
     count_units encoding p u = count_units encoding (drop s p) (u + unit_step encoding r s)"
  by (cases p) (simp_all add: count_units.simps)

lemma count_units_mono:
  assumes "Valid p" and "Supported encoding" and "unat u + length p < 2 ^ 32"
  shows "unat u \<le> unat (count_units encoding p u)"
  using assms
proof (induction p arbitrary: u rule: Valid_induct)
  case Nil
  then show ?case by simp
next
  case (rune p)
  obtain r s where d: "DecodeRune p = (r, s)" by fastforce
  let ?w = "unit_step encoding r s"
  have b: "unat ?w \<le> s" and s: "s \<le> length p"
    using unit_step_bounds [OF rune.prems(1) rune.hyps(1) d] DecodeRune_size_le [of p] d by simp_all
  then have u: "unat (u + ?w) = unat u + unat ?w"
    using rune.prems(2) by (simp add: unat_add_lem [THEN iffD1])
  have "unat (u + ?w) \<le> unat (count_units encoding (drop s p) (u + ?w))"
    using rune.IH [of "u + ?w"] rune.prems b s u d by simp
  then show ?case using u count_units_step [OF rune.hyps(1) d] by simp
qed

lemma offset_loop_bounds:
  "offset_loop encoding ch bs off u = Inr t \<Longrightarrow> off \<le> t \<and> t \<le> off + length bs"
proof (induction encoding ch bs off u rule: offset_loop.induct)
  case (1 encoding ch off units)
  then show ?case by (simp add: offset_loop.simps split: if_splits)
next
  case (2 encoding ch b bs off units)
  obtain r s where d: "DecodeRune (b # bs) = (r, s)" by fastforce
  then have s: "s \<le> length (b # bs)" using DecodeRune_size_le [of "b # bs"] by simp
  show ?case
  proof (cases "units = ch")
    case True
    then show ?thesis using "2.prems" by (simp add: offset_loop.simps)
  next
    case False
    with "2.prems" d
    have "offset_loop encoding ch (drop s (b # bs)) (off + s)
            (units + offset_width encoding r s) = Inr t"
      and nlt: "\<not> ch < units + offset_width encoding r s"
      by (simp_all add: offset_loop.simps Let_def split: if_splits)
    then have "off + s \<le> t \<and> t \<le> off + s + length (drop s (b # bs))"
      using "2.IH" [OF False d [symmetric] refl refl nlt] by blast
    then show ?thesis using s by simp
  qed
qed

lemma offset_loop_iff:
  assumes "Valid bs" and "Supported encoding" and "unat u + length bs < 2 ^ 32"
    and "m \<le> length bs"
  shows "offset_loop encoding ch bs off u = Inr (off + m) \<longleftrightarrow>
    Valid (take m bs) \<and> count_units encoding (take m bs) u = ch"
  using assms
proof (induction bs arbitrary: u off m rule: Valid_induct)
  case Nil
  then show ?case by (simp add: offset_loop.simps)
next
  case (rune p)
  obtain r s where d: "DecodeRune p = (r, s)" by fastforce
  let ?w = "unit_step encoding r s"
  note w = unit_step_bounds [OF rune.prems(1) rune.hyps(1) d]
  have s: "0 < s" "s \<le> length p"
    using rune_size_pos [OF rune.hyps(1)] DecodeRune_size_le [of p] d by simp_all
  have u: "unat (u + ?w) = unat u + unat ?w"
    using rune.prems(2) w(2) s(2) by (simp add: unat_add_lem [THEN iffD1])
  then have lt: "u < u + ?w" using w(1) by (simp add: word_less_nat_alt)
  have step: "offset_loop encoding ch p off u =
      (if u = ch then Inr off
       else if ch < u + ?w then Inl (ErrMidCodeUnit (Some ch))
       else offset_loop encoding ch (drop s p) (off + s) (u + ?w))"
    using rune.hyps(1) d w(3) by (cases p) (simp_all add: offset_loop.simps Let_def)
  have past: "offset_loop encoding ch (drop s p) (off + s) (u + ?w) \<noteq> Inr (off + k)" if "k < s" for k
    using offset_loop_bounds [of encoding ch "drop s p" "off + s" "u + ?w" "off + k"] that by auto
  show ?case
  proof (cases "m = 0")
    case True
    then show ?thesis using step past [of 0] s(1) by auto
  next
    case False
    then have "take m p \<noteq> []" using rune.hyps(1) by simp
    have vt: "Valid (take m p) \<longleftrightarrow> s \<le> m \<and> Valid (take (m - s) (drop s p))"
      using Valid_take_iff [OF rune.hyps(3,1)] False d by simp
    show ?thesis
    proof (cases "s \<le> m")
      case False
      then show ?thesis using step past [of m] vt \<open>m \<noteq> 0\<close> by (auto split: if_splits)
    next
      case sm: True
      have dt: "DecodeRune (take m p) = (r, s)"
        using DecodeRune_take [OF rune.hyps(1,2)] sm d by simp
      have cu: "count_units encoding (take m p) u
          = count_units encoding (take (m - s) (drop s p)) (u + ?w)"
        using count_units_step [OF \<open>take m p \<noteq> []\<close> dt] sm by (simp add: drop_take)
      have IH: "offset_loop encoding ch (drop s p) (off + s) (u + ?w) = Inr (off + s + (m - s)) \<longleftrightarrow>
          Valid (take (m - s) (drop s p)) \<and>
          count_units encoding (take (m - s) (drop s p)) (u + ?w) = ch"
        using rune.IH [of "u + ?w" "m - s" "off + s"] rune.prems u w(2) s d sm by simp
      have ge: "unat (u + ?w) \<le> unat ch"
        if "Valid (take (m - s) (drop s p))"
          and "count_units encoding (take (m - s) (drop s p)) (u + ?w) = ch"
        using count_units_mono [OF that(1) rune.prems(1), of "u + ?w"] that(2)
          rune.prems(2,3) u w(2) s by simp
      show ?thesis
      proof (cases "u = ch \<or> ch < u + ?w")
        case True
        then have "unat ch < unat (u + ?w)" using lt by (auto simp: word_less_nat_alt)
        with ge have "\<not> (Valid (take m p) \<and> count_units encoding (take m p) u = ch)"
          unfolding vt cu by auto
        moreover have "offset_loop encoding ch p off u \<noteq> Inr (off + m)"
          using step True \<open>m \<noteq> 0\<close> by auto
        ultimately show ?thesis by blast
      next
        case False
        then show ?thesis using step IH sm unfolding vt cu by simp
      qed
    qed
  qed
qed


section \<open>Positions and offsets correspond\<close>

lemma position_scan_lines:
  "position_scan t rest off line ls = Inr (L, S) \<Longrightarrow> \<exists>k\<le>length rest. L = line + of_nat k"
proof (induction t rest off line ls rule: position_scan.induct)
  case (1 t rest off line ls)
  note unfold = "1.prems" [unfolded position_scan.simps [of t rest]]
  show ?case
  proof (cases "off < t")
    case False
    with "1.prems" have "L = line + of_nat 0" by (simp add: position_scan.simps)
    then show ?thesis by blast
  next
    case True
    with "1.prems" obtain b bs where r: "rest = b # bs"
      by (cases rest) (simp_all add: position_scan.simps)
    have here: "\<exists>k\<le>length rest. L = line + of_nat k"
      if ex: "\<exists>k\<le>length r'. L = line + d + of_nat k" and len: "length r' < length rest"
        and d: "d = 0 \<or> d = 1" for r' d
    proof -
      obtain k where k: "k \<le> length r'" "L = line + d + of_nat k" using ex by blast
      from d show ?thesis
      proof
        assume "d = 0"
        with k len show ?thesis by (intro exI [of _ k]) simp
      next
        assume "d = 1"
        with k len show ?thesis by (intro exI [of _ "Suc k"]) (simp add: add_ac)
      qed
    qed
    show ?thesis
    proof (cases "b = CR")
      case cr: True
      obtain bs' off' where n: "(case bs of c # cs \<Rightarrow> (if c = LF then (cs, off + 2) else (bs, off + 1))
            | [] \<Rightarrow> (bs, off + 1)) = (bs', off')"
        by fastforce
      then have len: "length bs' < length rest"
        using r by (auto split: list.splits if_splits)
      have le: "\<not> off' > t" and rec: "position_scan t bs' off' (line + 1) off' = Inr (L, S)"
        using unfold True cr r n by (simp_all add: Let_def split: if_splits)
      from "1.IH"(1) [OF True r cr n [symmetric] refl le rec] len show ?thesis
        using here [of bs' 1] by blast
    next
      case ncr: False
      show ?thesis
      proof (cases "b = LF")
        case True
        with unfold ncr \<open>off < t\<close> r have "position_scan t bs (off + 1) (line + 1) (off + 1) = Inr (L, S)"
          by simp
        from "1.IH"(2) [OF \<open>off < t\<close> r ncr True this] show ?thesis
          using here [of bs 1] r by simp
      next
        case False
        let ?s = "rune_size rest"
        have le: "\<not> off + ?s > t" and rec: "position_scan t (drop ?s rest) (off + ?s) line ls = Inr (L, S)"
          using unfold \<open>off < t\<close> ncr False r by (simp_all add: Let_def split: if_splits)
        from "1.IH"(3) [OF \<open>off < t\<close> r ncr False refl le rec] show ?thesis
          using here [of "drop ?s rest" 0] r by simp
      qed
    qed
  qed
qed

lemma lineBounds_loop_start:
  "lineBounds_loop target rest i line start = Inr (s, e) \<Longrightarrow> start \<le> i \<Longrightarrow> start \<le> s"
proof (induction target rest i line start rule: lineBounds_loop.induct)
  case (1 target rest i line start)
  show ?case
  proof (cases "line = target")
    case True
    with "1.prems" show ?thesis by (simp add: lineBounds_loop_here)
  next
    case False
    with "1.prems" obtain b bs where r: "rest = b # bs"
      by (cases rest) (simp_all add: lineBounds_loop.simps)
    note unfold = "1.prems"(1) [unfolded lineBounds_loop.simps [of target rest]]
    show ?thesis
    proof (cases "b = CR \<or> b = LF")
      case True
      then obtain bs' i' where rec: "lineBounds_loop target bs' i' (line + 1) i' = Inr (s, e)"
          and "i < i'" and IH: "i' \<le> s"
        using "1.IH" "1.prems" unfold False r
        by (force split: if_splits list.splits)
      then show ?thesis using "1.prems"(2) by simp
    next
      case nt: False
      then have "lineBounds_loop target (drop (rune_size rest) rest) (i + rune_size rest) line start = Inr (s, e)"
        using unfold False r by (simp add: Let_def)
      then show ?thesis using "1.IH"(5) [OF False r] nt "1.prems"(2) r by simp
    qed
  qed
qed

text \<open>
  Seen from the start of any line of a valid document: the position scan stops at line \<open>L\<close> and
  \<open>ch\<close> code units exactly when the line search finds line \<open>L\<close> and the unit walk over it ends at
  the same offset. The bound on \<open>unat line + length rest\<close> excludes wrap-around of the line counter.
\<close>

lemma scans_agree:
  assumes "Valid rest" and "Supported encoding" and "rest = drop i raw"
    and "unat line + length rest < 2 ^ 32" and "i \<le> t" and "t \<le> length raw"
  shows "(\<exists>S. position_scan t rest i line i = Inr (L, S) \<and>
              count_units encoding (go_slice raw S t) 0 = ch) \<longleftrightarrow>
    (\<exists>s e. lineBounds_loop L rest i line i = Inr (s, e) \<and>
            offset_loop encoding ch (go_slice raw s e) s 0 = Inr t)"
  using assms
proof (induction "length rest" arbitrary: rest i line rule: less_induct)
  case less
  let ?c = "content rest"
  have il: "i \<le> length raw" and lr: "length rest = length raw - i"
    using less.prems by simp_all
  have cl: "?c \<le> length rest" by (rule content_le)
  have sl: "go_slice raw i j = take (j - i) rest" for j
    using less.prems(3) by (simp add: go_slice_def)
  have late: False
    if "lineBounds_loop L (drop n rest) (i + n) (line + 1) (i + n) = Inr (s, e)"
      and "offset_loop encoding ch (go_slice raw s e) s 0 = Inr t" and "t < i + n" for n s e
    using lineBounds_loop_start [OF that(1)] offset_loop_bounds [OF that(2)] that(3) by simp
  have nb: "\<exists>n. brk rest = Some n" if "i + ?c < t"
    using that less.prems(6) lr brk_None [of rest] by (cases "brk rest") auto
  show ?case
  proof (cases "L = line")
    case L: True
    have rhs: "(\<exists>s e. lineBounds_loop L rest i line i = Inr (s, e) \<and>
            offset_loop encoding ch (go_slice raw s e) s 0 = Inr t) \<longleftrightarrow>
        offset_loop encoding ch (take ?c rest) i 0 = Inr t"
      using L by (simp add: lineBounds_loop_here sl)
    show ?thesis
    proof (cases "t \<le> i + ?c")
      case True
      have "offset_loop encoding ch (take ?c rest) i 0 = Inr (i + (t - i)) \<longleftrightarrow>
          Valid (take (t - i) (take ?c rest)) \<and> count_units encoding (take (t - i) (take ?c rest)) 0 = ch"
        using True cl less.prems by (intro offset_loop_iff Valid_line(1)) simp_all
      then show ?thesis
        unfolding rhs using True L less.prems position_scan_here [of rest i t line i]
        by (auto simp: sl min_def)
    next
      case False
      then obtain n where n: "brk rest = Some n" using nb by auto
      have "L \<noteq> line" if ps: "position_scan t (drop n rest) (i + n) (line + 1) (i + n) = Inr (L, S)" for S
      proof -
        obtain k where k: "k \<le> length (drop n rest)" "L = line + 1 + of_nat k"
          using position_scan_lines [OF ps] by blast
        then have "L = line + of_nat (Suc k)" and "Suc k \<le> length rest"
          using brk_bounds [OF n] by (simp_all add: add_ac)
        moreover from this have "unat (line + of_nat (Suc k)) = unat line + Suc k"
          using less.prems(4) by (simp add: unat_word_ariths unat_of_nat)
        ultimately show ?thesis by auto
      qed
      then show ?thesis
        unfolding rhs using False L n less.prems position_scan_next [of rest i t n line i]
          offset_loop_bounds [of encoding ch "take ?c rest" i 0 t] by auto
    qed
  next
    case L: False
    then have lb: "lineBounds_loop L rest i line i =
      (case brk rest of None \<Rightarrow> Inl (ErrLineOutOfDocument L)
       | Some n \<Rightarrow> lineBounds_loop L (drop n rest) (i + n) (line + 1) (i + n))"
      using less.prems(1) by (intro lineBounds_loop_next) simp_all
    show ?thesis
    proof (cases "t \<le> i + ?c")
      case True
      then have "\<not> (\<exists>S. position_scan t rest i line i = Inr (L, S))"
        using position_scan_here [of rest i t line i] less.prems L by auto
      moreover have "\<not> (\<exists>s e. lineBounds_loop L rest i line i = Inr (s, e) \<and>
            offset_loop encoding ch (go_slice raw s e) s 0 = Inr t)"
        using late True brk_bounds(1) unfolding lb by (fastforce split: option.splits)
      ultimately show ?thesis by blast
    next
      case False
      then obtain n where n: "brk rest = Some n" using nb by auto
      have ps: "position_scan t rest i line i =
        (if t < i + n then Inl (ErrMidCodeUnit None)
         else position_scan t (drop n rest) (i + n) (line + 1) (i + n))"
        using False n less.prems(1) by (intro position_scan_next) simp_all
      show ?thesis
      proof (cases "t < i + n")
        case True
        then show ?thesis using late n unfolding lb ps by auto
      next
        case False
        note b = brk_bounds [OF n]
        have "unat (line + 1) = unat line + 1"
          using less.prems(4) b by (simp add: unat_word_ariths)
        then show ?thesis
          using less.hyps [of "drop n rest" "i + n" "line + 1"] less.prems False b n
            Valid_line(2) [OF less.prems(1) n] unfolding lb ps by (simp add: add.commute)
      qed
    qed
  qed
qed

lemma lineBounds_loop_slice:
  assumes "Valid rest" and "rest = drop i raw" and "i \<le> length raw"
    and "lineBounds_loop target rest i line i = Inr (s, e)"
  shows "Valid (go_slice raw s e) \<and> s \<le> e \<and> e \<le> length raw"
  using assms
proof (induction "length rest" arbitrary: rest i line rule: less_induct)
  case less
  show ?case
  proof (cases "line = target")
    case True
    with less.prems(4) have "s = i" "e = i + content rest"
      by (auto simp: lineBounds_loop_here)
    then show ?thesis
      using less.prems content_le [of rest] Valid_line(1) [OF less.prems(1)]
      by (simp add: go_slice_def)
  next
    case False
    then obtain n where n: "brk rest = Some n"
        and rec: "lineBounds_loop target (drop n rest) (i + n) (line + 1) (i + n) = Inr (s, e)"
      using less.prems lineBounds_loop_next [OF less.prems(1) False, of i i]
      by (auto split: option.splits)
    show ?thesis
      using less.hyps [OF _ Valid_line(2) [OF less.prems(1) n] _ _ rec] brk_bounds [OF n] less.prems
      by (simp add: add.commute)
  qed
qed

lemma Offset_loop_eq:
  assumes "Valid raw" and "Supported encoding"
  shows "Offset raw encoding p = Inr t \<longleftrightarrow>
    (\<exists>s e. lineBounds_loop (Line p) raw 0 0 0 = Inr (s, e) \<and>
            offset_loop encoding (Character p) (go_slice raw s e) s 0 = Inr t)"
  using assms lineBounds_loop_slice [OF assms(1), of 0 raw]
  by (auto simp: Offset_def lineBounds_def split: sum.splits)

lemma Offset_le_length:
  assumes "Valid raw" and "Offset raw encoding p = Inr t"
  shows "t \<le> length raw"
proof -
  have "Supported encoding" using assms(2) by (simp add: Offset_def split: if_splits)
  then obtain s e where l: "lineBounds_loop (Line p) raw 0 0 0 = Inr (s, e)"
      and o: "offset_loop encoding (Character p) (go_slice raw s e) s 0 = Inr t"
    using assms Offset_loop_eq by blast
  then show ?thesis
    using lineBounds_loop_slice [OF assms(1) _ _ l] offset_loop_bounds [OF o]
    by (simp add: min_def split: if_splits)
qed

text \<open>
  C27. On a valid UTF-8 document shorter than \<open>2^32\<close> bytes and a supported encoding, \<open>Offset\<close> and
  \<open>PositionAtOffset\<close> are inverse to each other: \<open>Offset\<close> returns \<open>t\<close> for a position exactly when
  \<open>PositionAtOffset\<close> returns that position for \<open>t\<close>. In particular a position denotes at most one
  offset and an offset at most one position, in each of the three encodings.
\<close>

theorem position_offset_inverse:
  assumes "Valid raw" and "length raw < 2 ^ 32" and "Supported encoding"
  shows "Offset raw encoding p = Inr t \<longleftrightarrow> PositionAtOffset raw encoding (int t) = Inr p"
proof (cases "t \<le> length raw")
  case False
  then show ?thesis
    using Offset_le_length [OF assms(1)] by (auto simp: PositionAtOffset_def)
next
  case True
  have "Offset raw encoding p = Inr t \<longleftrightarrow>
      (\<exists>S. position_scan t raw 0 0 0 = Inr (Line p, S) \<and>
            count_units encoding (go_slice raw S t) 0 = Character p)"
    unfolding Offset_loop_eq [OF assms(1,3)]
    using scans_agree [OF assms(1,3), of 0 raw 0 t] assms True by simp
  also have "\<dots> \<longleftrightarrow> PositionAtOffset raw encoding (int t) = Inr p"
    using assms True by (cases p) (auto simp: PositionAtOffset_def split: sum.splits)
  finally show ?thesis .
qed

theorem position_offset_inverse_witness:
  "Offset [97, 13, 10, 240, 159, 152, 128, 98] ''utf-16'' \<lparr>Line = 1, Character = 2\<rparr> = Inr 7 \<and>
   PositionAtOffset [97, 13, 10, 240, 159, 152, 128, 98] ''utf-16'' 7 = Inr \<lparr>Line = 1, Character = 2\<rparr>"
proof -
  let ?raw = "[97, 13, 10, 240, 159, 152, 128, 98] :: byte list"
  have v: "Valid ?raw" by (simp add: Valid.simps bad_rune_def DecodeRune.simps RuneError_def is_cont_def)
  have s: "Supported ''utf-16''" by (simp add: Supported_def)
  have o: "Offset ?raw ''utf-16'' \<lparr>Line = 1, Character = 2\<rparr> = Inr 7"
    by (simp add: Offset_def lineBounds_def lineBounds_loop.simps offset_loop.simps CR_def LF_def
        Valid.simps bad_rune_def DecodeRune.simps RuneError_def is_cont_def Supported_def
        offset_width_def go_slice_def)
  from position_offset_inverse [OF v _ s, of "\<lparr>Line = 1, Character = 2\<rparr>" 7] o
  show ?thesis by simp
qed

end
