(* ===== verification/Utf16_Position.thy ===== *)
theory Utf16_Position
  imports Source_Position
begin

text \<open>
  Package \<open>internal/utf16position\<close>: the older UTF-16-only offset conversion. It splits lines at LF
  only and drops one CR before the LF, where \<open>internal/sourceposition\<close> also splits at a lone CR;
  it rejects invalid UTF-8 while it walks instead of up front. Positions and ranges have the shape
  of \<^typ>\<open>Position\<close> and \<^typ>\<open>Range\<close>.
\<close>

datatype u16_error =
    U16CharacterOutOfLine u32
  | U16InvalidUTF8
  | U16InvertedRange
  | U16LineOutOfDocument u32
  | U16MidSurrogate u32
  | U16AtStart u16_error
  | U16AtEnd u16_error

text \<open>The inner scan for the next LF: its index in the bytes that remain.\<close>

fun newline_index :: "byte list \<Rightarrow> nat option" where
  "newline_index [] = None"
| "newline_index (b # bs) = (if b = LF then Some 0 else map_option Suc (newline_index bs))"

lemma newline_index_less: "newline_index p = Some k \<Longrightarrow> k < length p"
  by (induction p arbitrary: k) (auto split: if_splits)

function u16_seek :: "u32 \<Rightarrow> u32 \<Rightarrow> byte list \<Rightarrow> nat \<Rightarrow> u16_error + (byte list \<times> nat)" where
  "u16_seek target line rest lineStart =
     (if line < target then
        (case newline_index rest of
           None \<Rightarrow> Inl (U16LineOutOfDocument target)
         | Some k \<Rightarrow> u16_seek target (line + 1) (drop (Suc k) rest) (lineStart + k + 1))
      else Inr (rest, lineStart))"
  by pat_completeness auto
termination
  by (relation "measure (\<lambda>(target, line, rest, lineStart). length rest)")
     (auto dest: newline_index_less)

declare u16_seek.simps [simp del]

definition u16_lineBounds :: "byte list \<Rightarrow> u32 \<Rightarrow> u16_error + (nat \<times> nat)" where
  "u16_lineBounds raw target =
     (case u16_seek target 0 raw 0 of
        Inl err \<Rightarrow> Inl err
      | Inr (rest, lineStart) \<Rightarrow>
          (let lineEnd = lineStart + (case newline_index rest of None \<Rightarrow> length rest | Some k \<Rightarrow> k);
               lineEnd' = (if lineEnd > lineStart \<and> raw ! (lineEnd - 1) = CR
                           then lineEnd - 1 else lineEnd)
           in Inr (lineStart, lineEnd')))"

function u16_offset_loop :: "u32 \<Rightarrow> byte list \<Rightarrow> nat \<Rightarrow> u32 \<Rightarrow> u16_error + nat" where
  "u16_offset_loop ch [] off units =
     (if units = ch then Inr off else Inl (U16CharacterOutOfLine ch))"
| "u16_offset_loop ch (b # bs) off units =
     (if units = ch then Inr off
      else
        (let (r, sz) = DecodeRune (b # bs) in
         if r = RuneError \<and> sz = 1 then Inl U16InvalidUTF8
         else
           (let width = (if r > 65535 then 2 else 1) in
            if ch < units + width then Inl (U16MidSurrogate ch)
            else u16_offset_loop ch (drop sz (b # bs)) (off + sz) (units + width))))"
  by pat_completeness auto
termination
proof (relation "measure (\<lambda>(ch, bs, off, units). length bs)")
  fix b :: byte and bs x r sz
  assume "x = DecodeRune (b # bs)" "(r, sz) = x"
  then have "0 < sz" using DecodeRune_size_pos [of b bs] by (metis snd_conv)
  then show "((ch, drop sz (b # bs), off + sz, units + width), ch, b # bs, off, units)
      \<in> measure (\<lambda>(ch, bs, off, units). length bs)" for ch off units width
    by simp
qed simp

declare u16_offset_loop.simps [simp del]

definition u16_Offset :: "byte list \<Rightarrow> Position \<Rightarrow> u16_error + nat" where
  "u16_Offset raw position =
     (case u16_lineBounds raw (Line position) of
        Inl err \<Rightarrow> Inl err
      | Inr (lineStart, lineEnd) \<Rightarrow>
          u16_offset_loop (Character position) (go_slice raw lineStart lineEnd) lineStart 0)"

definition u16_Offsets :: "byte list \<Rightarrow> Range \<Rightarrow> u16_error + (nat \<times> nat)" where
  "u16_Offsets raw r =
     (case u16_Offset raw (Start r) of
        Inl err \<Rightarrow> Inl (U16AtStart err)
      | Inr start \<Rightarrow>
          (case u16_Offset raw (End r) of
             Inl err \<Rightarrow> Inl (U16AtEnd err)
           | Inr fin \<Rightarrow> (if fin < start then Inl U16InvertedRange else Inr (start, fin))))"

section \<open>Agreement with the encoding-aware package\<close>

fun as_pos_error :: "u16_error \<Rightarrow> pos_error" where
  "as_pos_error (U16CharacterOutOfLine ch) = ErrCharacterOutOfLine ch"
| "as_pos_error U16InvalidUTF8 = ErrInvalidUTF8"
| "as_pos_error U16InvertedRange = ErrInvertedRange"
| "as_pos_error (U16LineOutOfDocument l) = ErrLineOutOfDocument l"
| "as_pos_error (U16MidSurrogate ch) = ErrMidCodeUnit (Some ch)"
| "as_pos_error (U16AtStart e) = AtStart (as_pos_error e)"
| "as_pos_error (U16AtEnd e) = AtEnd (as_pos_error e)"

text \<open>Every CR of the document is followed by LF: the document uses LF and CRLF line ends only.\<close>

fun crlf_only :: "byte list \<Rightarrow> bool" where
  "crlf_only [] = True"
| "crlf_only (b # bs) = ((b = CR \<longrightarrow> bs \<noteq> [] \<and> hd bs = LF) \<and> crlf_only bs)"

lemma crlf_only_drop: "crlf_only p \<Longrightarrow> crlf_only (drop n p)"
  by (induction p arbitrary: n) (auto simp: drop_Cons split: nat.splits)

lemma CR_neq_LF [simp]: "CR \<noteq> LF" "LF \<noteq> CR"
  by (simp_all add: CR_def LF_def)

lemma content_Cons: "content (b # p) = (if noterm b then Suc (content p) else 0)"
  by (simp add: content_def)

lemma brk_Cons:
  "brk (b # p) = (if noterm b then map_option Suc (brk p)
     else Some (if b = CR \<and> p \<noteq> [] \<and> hd p = LF then 2 else 1))"
proof (cases "noterm b")
  case True
  then have "content (b # p) = Suc (content p)" by (simp add: content_Cons)
  with True show ?thesis by (simp add: brk_def split: list.split)
next
  case False
  then have "content (b # p) = 0" by (simp add: content_Cons)
  with False show ?thesis by (cases p) (simp_all add: brk_def)
qed

lemma newline_index_brk:
  "crlf_only p \<Longrightarrow> newline_index p = map_option (\<lambda>n. n - 1) (brk p)"
proof (induction p)
  case Nil
  then show ?case by (simp add: brk_def content_def)
next
  case (Cons b p)
  then have IH: "newline_index p = map_option (\<lambda>n. n - 1) (brk p)" by simp
  show ?case
  proof (cases "noterm b")
    case True
    moreover have "0 < n" if "brk p = Some n" for n using brk_bounds(1) [OF that] by simp
    ultimately show ?thesis using IH
      by (auto simp: brk_Cons noterm_def map_option_case split: option.splits)
  next
    case False
    with Cons.prems show ?thesis
      by (cases p) (auto simp: brk_Cons noterm_def)
  qed
qed

text \<open>The LF-based end of a line, with its CR removed, is where its content ends.\<close>

lemma trimmed_end:
  assumes "crlf_only p" and "k = (case newline_index p of None \<Rightarrow> length p | Some k \<Rightarrow> k)"
  shows "(if 0 < k \<and> p ! (k - 1) = CR then k - 1 else k) = content p"
  using assms
proof (induction p arbitrary: k)
  case Nil
  then show ?case by (simp add: content_def)
next
  case (Cons b p)
  let ?k = "case newline_index p of None \<Rightarrow> length p | Some k \<Rightarrow> k"
  have IH: "(if 0 < ?k \<and> p ! (?k - 1) = CR then ?k - 1 else ?k) = content p"
    using Cons by simp
  show ?case
  proof (cases "b = LF")
    case True
    with Cons.prems show ?thesis by (simp add: content_Cons noterm_def)
  next
    case False
    then have k: "k = Suc ?k" using Cons.prems by (auto split: option.splits)
    show ?thesis
    proof (cases "b = CR")
      case True
      then have "?k = 0" using Cons.prems by (cases p) auto
      with k True show ?thesis by (simp add: content_Cons noterm_def)
    next
      case nb: False
      then have c: "content (b # p) = Suc (content p)" using False by (simp add: content_Cons noterm_def)
      show ?thesis
      proof (cases ?k)
        case 0
        then show ?thesis using k c IH nb by (simp split: if_splits)
      next
        case (Suc j)
        then show ?thesis using k c IH by (auto split: if_splits)
      qed
    qed
  qed
qed


lemma u16_lineBounds_agree:
  assumes "Valid rest" and "crlf_only rest" and "line \<le> target" and "rest = drop i raw"
    and "i \<le> length raw"
  shows "(case u16_seek target line rest i of
        Inl err \<Rightarrow> Inl (as_pos_error err)
      | Inr (q, s) \<Rightarrow> (if s \<le> length raw \<and> q = drop s raw then Inr (s, s + content q) else Inl IndexPanic))
    = lineBounds_loop target rest i line i"
  using assms
proof (induction "length rest" arbitrary: rest line i rule: less_induct)
  case less
  show ?case
  proof (cases "line = target")
    case True
    then show ?thesis using less.prems
      by (simp add: lineBounds_loop_here u16_seek.simps)
  next
    case False
    then have lt: "line < target" using less.prems(3) by simp
    have nl: "newline_index rest = map_option (\<lambda>n. n - 1) (brk rest)"
      using less.prems(2) by (rule newline_index_brk)
    show ?thesis
    proof (cases "brk rest")
      case None
      then show ?thesis using lt nl less.prems(1) False
        by (subst u16_seek.simps) (simp add: lineBounds_loop_next)
    next
      case (Some n)
      note b = brk_bounds [OF Some]
      have seek: "u16_seek target line rest i = u16_seek target (line + 1) (drop n rest) (i + n)"
        using lt nl Some b by (subst u16_seek.simps) (simp add: add_ac)
      have le: "line + 1 \<le> target" using lt by (rule inc_le)
      have lb: "lineBounds_loop target rest i line i =
          lineBounds_loop target (drop n rest) (i + n) (line + 1) (i + n)"
        using Some False less.prems(1) by (simp add: lineBounds_loop_next)
      have "drop n rest = drop (i + n) raw" "i + n \<le> length raw" "length (drop n rest) < length rest"
        using less.prems(4,5) b by (simp_all add: add.commute)
      from less.hyps [OF this(3) Valid_line(2) [OF less.prems(1) Some]
          crlf_only_drop [OF less.prems(2)] le this(1,2)]
      show ?thesis unfolding seek lb .
    qed
  qed
qed

lemma u16_seek_suffix:
  "u16_seek target line rest i = Inr (q, s) \<Longrightarrow> rest = drop i raw \<Longrightarrow> i \<le> length raw \<Longrightarrow>
    q = drop s raw \<and> s \<le> length raw \<and> (crlf_only rest \<longrightarrow> crlf_only q)"
proof (induction target line rest i rule: u16_seek.induct)
  case (1 target line rest i)
  show ?case
  proof (cases "line < target")
    case False
    then show ?thesis using "1.prems" by (auto simp: u16_seek.simps [of target line])
  next
    case True
    with "1.prems"(1) obtain k where k: "newline_index rest = Some k"
        and rec: "u16_seek target (line + 1) (drop (Suc k) rest) (i + k + 1) = Inr (q, s)"
      by (auto simp: u16_seek.simps [of target line] split: option.splits)
    have "drop (Suc k) rest = drop (i + k + 1) raw" and "i + k + 1 \<le> length raw"
      using "1.prems"(2,3) newline_index_less [OF k] by (auto simp: add.commute)
    then show ?thesis
      using "1.IH" [OF True k rec] crlf_only_drop by blast
  qed
qed

lemma u16_lineBounds_eq:
  assumes "Valid raw" and "crlf_only raw"
  shows "(case u16_lineBounds raw target of Inl err \<Rightarrow> Inl (as_pos_error err) | Inr b \<Rightarrow> Inr b)
    = lineBounds raw target"
proof (cases "u16_seek target 0 raw 0")
  case (Inl err)
  then show ?thesis
    using u16_lineBounds_agree [of raw 0 target 0 raw] assms
    by (simp add: u16_lineBounds_def lineBounds_def)
next
  case (Inr x)
  then obtain q s where x: "u16_seek target 0 raw 0 = Inr (q, s)" by (cases x) auto
  have suf: "q = drop s raw" "s \<le> length raw" "crlf_only q"
    using u16_seek_suffix [OF x, of raw] assms(2) by auto
  have lb: "lineBounds raw target = Inr (s, s + content q)"
    using u16_lineBounds_agree [of raw 0 target 0 raw] assms x suf(1,2) by (simp add: lineBounds_def)
  define k where "k = (case newline_index q of None \<Rightarrow> length q | Some k \<Rightarrow> k)"
  have tr: "(if 0 < k \<and> q ! (k - 1) = CR then k - 1 else k) = content q"
    using suf(3) k_def by (rule trimmed_end)
  have "raw ! (s + k - 1) = q ! (k - 1)" if "0 < k"
  proof -
    have "s + k - 1 = s + (k - 1)" using that by simp
    then show ?thesis using suf(1,2) by simp
  qed
  then show ?thesis using x lb tr
    by (auto simp: u16_lineBounds_def Let_def k_def [symmetric] split: if_splits)
qed

lemma u16_offset_loop_eq:
  assumes "Valid bs"
  shows "(case u16_offset_loop ch bs off u of Inl err \<Rightarrow> Inl (as_pos_error err) | Inr t \<Rightarrow> Inr t)
    = offset_loop ''utf-16'' ch bs off u"
  using assms
proof (induction bs arbitrary: off u rule: Valid_induct)
  case Nil
  then show ?case by (simp add: u16_offset_loop.simps offset_loop.simps)
next
  case (rune p)
  obtain b q where p: "p = b # q" using rune.hyps(1) by (cases p) auto
  obtain r sz where d: "DecodeRune (b # q) = (r, sz)" by fastforce
  let ?w = "if r > 65535 then 2 else 1 :: u32"
  have ok: "(r = RuneError \<and> sz = 1) = False" using rune.hyps(2) p d by (simp add: bad_rune_def)
  have "u16_offset_loop ch p off u =
      (if u = ch then Inr off
       else if ch < u + ?w then Inl (U16MidSurrogate ch)
       else u16_offset_loop ch (drop sz p) (off + sz) (u + ?w))"
    unfolding p u16_offset_loop.simps d Let_def case_prod_conv ok by simp
  moreover have "offset_loop ''utf-16'' ch p off u =
      (if u = ch then Inr off
       else if ch < u + ?w then Inl (ErrMidCodeUnit (Some ch))
       else offset_loop ''utf-16'' ch (drop sz p) (off + sz) (u + ?w))"
    unfolding p offset_loop.simps d Let_def case_prod_conv offset_width_def by simp
  ultimately show ?case
    using rune.IH [of "off + sz" "u + ?w"] d p by simp
qed

text \<open>
  C28. On a valid UTF-8 document whose line ends are LF or CRLF, \<open>utf16position.Offset\<close> gives the same
  offset, or the corresponding error, as \<open>sourceposition.Offset\<close> with encoding \<open>utf-16\<close>, at
  every position.
\<close>

theorem u16_Offset_agrees:
  assumes "Valid raw" and "crlf_only raw"
  shows "(case u16_Offset raw p of Inl err \<Rightarrow> Inl (as_pos_error err) | Inr t \<Rightarrow> Inr t)
    = Offset raw ''utf-16'' p"
proof -
  have lb: "(case u16_lineBounds raw (Line p) of Inl err \<Rightarrow> Inl (as_pos_error err) | Inr b \<Rightarrow> Inr b)
      = lineBounds raw (Line p)"
    using assms by (rule u16_lineBounds_eq)
  show ?thesis
  proof (cases "u16_lineBounds raw (Line p)")
    case (Inl err)
    then show ?thesis using lb [symmetric] by (simp add: u16_Offset_def Offset_def Supported_def)
  next
    case (Inr b)
    obtain s e where b: "b = (s, e)" by fastforce
    have l: "lineBounds raw (Line p) = Inr (s, e)" using lb Inr b by simp
    then have "Valid (go_slice raw s e)"
      using lineBounds_loop_slice [OF assms(1), of 0 raw] by (simp add: lineBounds_def)
    then show ?thesis
      using Inr b l u16_offset_loop_eq [of "go_slice raw s e" "Character p" s 0]
      by (simp add: u16_Offset_def Offset_def Supported_def)
  qed
qed

theorem u16_Offset_agrees_witness:
  "u16_Offset [97, 13, 10, 98] \<lparr>Line = 1, Character = 1\<rparr> = Inr 4 \<and>
   Offset [97, 13, 10, 98] ''utf-16'' \<lparr>Line = 1, Character = 1\<rparr> = Inr 4"
proof -
  let ?raw = "[97, 13, 10, 98] :: byte list"
  have v: "Valid ?raw" by (simp add: Valid.simps bad_rune_def DecodeRune.simps RuneError_def)
  have c: "crlf_only ?raw" by (simp add: CR_def LF_def)
  have o: "u16_Offset ?raw \<lparr>Line = 1, Character = 1\<rparr> = Inr 4"
    by (simp add: u16_Offset_def u16_lineBounds_def u16_seek.simps u16_offset_loop.simps CR_def LF_def
        DecodeRune.simps RuneError_def go_slice_def)
  from u16_Offset_agrees [OF v c, of "\<lparr>Line = 1, Character = 1\<rparr>"] o show ?thesis by simp
qed

text \<open>
  The two packages do differ on a lone CR: \<open>sourceposition\<close> ends a line there, \<open>utf16position\<close>
  does not.
\<close>

lemma lone_cr_differs:
  "Offset [97, 13, 98] ''utf-16'' \<lparr>Line = 1, Character = 0\<rparr> = Inr 2"
  "u16_Offset [97, 13, 98] \<lparr>Line = 1, Character = 0\<rparr> = Inl (U16LineOutOfDocument 1)"
  by (simp_all add: u16_Offset_def u16_lineBounds_def u16_seek.simps Offset_def lineBounds_def
      lineBounds_loop.simps offset_loop.simps CR_def LF_def DecodeRune.simps RuneError_def go_slice_def
      Valid.simps bad_rune_def Supported_def)

end
