(* ===== verification/Go_Json.thy ===== *)
theory Go_Json
  imports Utf8
begin

text \<open>
  What the modelled packages use of Go's \<open>encoding/json\<close>: \<open>json.Marshal\<close> on a string and on a
  \<open>[]string\<close>, and the text of objects. A string is quoted with the HTML-safe escapes of \<open>json.Marshal\<close>, an invalid UTF-8
  byte is written as the escape of U+FFFD, and U+2028 and U+2029 are escaped. A Go slice of strings is
  \<open>string list option\<close>: \<^const>\<open>None\<close> is the nil slice, which marshals to \<open>null\<close>.
\<close>

type_synonym go_strings = "string list option"

definition to_bytes :: "string \<Rightarrow> byte list" where
  "to_bytes s = map of_char s"

definition of_byte :: "byte \<Rightarrow> char" where
  "of_byte b = char_of (unat b)"

definition hex_digit :: "nat \<Rightarrow> char" where
  "hex_digit n = (if n < 10 then char_of (48 + n) else char_of (87 + n))"

definition json_backslash :: char where
  "json_backslash = char_of (92 :: nat)"

definition json_quote :: char where
  "json_quote = char_of (34 :: nat)"

definition json_escape_ascii :: "byte \<Rightarrow> string" where
  "json_escape_ascii b =
     (let n = unat b in
      if n = 92 \<or> n = 34 then [json_backslash, of_byte b]
      else if n = 8 then [json_backslash, CHR ''b'']
      else if n = 12 then [json_backslash, CHR ''f'']
      else if n = 10 then [json_backslash, CHR ''n'']
      else if n = 13 then [json_backslash, CHR ''r'']
      else if n = 9 then [json_backslash, CHR ''t'']
      else if n < 32 \<or> n = 60 \<or> n = 62 \<or> n = 38
        then [json_backslash, CHR ''u'', CHR ''0'', CHR ''0'', hex_digit (n div 16), hex_digit (n mod 16)]
      else [of_byte b])"

function json_escape :: "byte list \<Rightarrow> string" where
  "json_escape [] = []"
| "json_escape (b # bs) =
     (if unat b < 128 then json_escape_ascii b @ json_escape bs
      else
        (let (r, sz) = DecodeRune (b # bs) in
         (if r = RuneError \<and> sz = 1 then json_backslash # ''ufffd''
          else if r = 8232 then json_backslash # ''u2028''
          else if r = 8233 then json_backslash # ''u2029''
          else map of_byte (take sz (b # bs))) @ json_escape (drop sz (b # bs))))"
  by pat_completeness auto
termination
proof (relation "measure length")
  fix b :: byte and bs x r sz
  assume "x = DecodeRune (b # bs)" "(r, sz) = x"
  then have "0 < sz" using DecodeRune_size_pos [of b bs] by (metis snd_conv)
  then show "(drop sz (b # bs), b # bs) \<in> measure length" by simp
qed simp_all

declare json_escape.simps(2) [simp del]

definition json_string :: "string \<Rightarrow> string" where
  "json_string s = [json_quote] @ json_escape (to_bytes s) @ [json_quote]"

fun json_join :: "string list \<Rightarrow> string" where
  "json_join [] = []"
| "json_join [x] = x"
| "json_join (x # xs) = x @ '','' @ json_join xs"

definition json_strings :: "go_strings \<Rightarrow> string" where
  "json_strings xs = (case xs of None \<Rightarrow> ''null'' | Some ys \<Rightarrow> ''['' @ json_join (map json_string ys) @ '']'')"

text \<open>Members and objects, from the already encoded values.\<close>

definition json_field :: "string \<Rightarrow> string \<Rightarrow> string" where
  "json_field k v = json_string k @ '':'' @ v"

definition json_object :: "string list \<Rightarrow> string" where
  "json_object fs = ''{'' @ json_join fs @ ''}''"

end
