(* ===== verification/Shortlex_Bfs.thy ===== *)
theory Shortlex_Bfs
  imports Prelude "HOL-Library.Product_Lexorder"
begin

text \<open>
  Breadth-first search over ordered adjacency lists, stated once for every queue loop of the program
  that follows it. A walk is the list of positions taken in the adjacency lists. The loops visit walks
  in shortlex order (length first, then positions), so the walk by which a node is first discovered is
  the shortlex-least walk to it. The locale \<open>ordered_graph\<close> fixes the adjacency and the target of an
  edge and its source; \<open>frontier\<close> is the loop invariant: \<open>D\<close> are the nodes already expanded, \<open>v\<close> is being
  expanded and its first \<open>k\<close> edges are done, \<open>rest\<close> is the rest of the queue, and \<open>T\<close> maps each
  queued node to the walk that discovered it.
\<close>

section \<open>Shortlex order on walks\<close>

definition key :: "nat list \<Rightarrow> nat \<times> nat list" where
  "key is = (length is, is)"

lemma key_eq [simp]: "key is = key js \<longleftrightarrow> is = js"
  by (auto simp: key_def)

lemma list_snoc_less:
  "length is = length js \<Longrightarrow> (is @ [i :: nat] < js @ [j]) \<longleftrightarrow> is < js \<or> (is = js \<and> i < j)"
  by (induction "is" js rule: list_induct2) auto

lemma key_snoc_less: "key (is @ [i]) < key (js @ [j]) \<longleftrightarrow> key is < key js \<or> (is = js \<and> i < j)"
  by (auto simp: key_def list_snoc_less)

lemma key_length: "key is \<le> key js \<Longrightarrow> length is \<le> length js"
  by (auto simp: key_def)

lemma key_less_snoc: "key is \<le> key js \<Longrightarrow> key is < key (js @ [j])"
  by (auto simp: key_def)

lemma key_Nil: "key is \<le> key [] \<longleftrightarrow> is = []"
  by (auto simp: key_def)

lemma wf_key: "wf {(is, js). key is < key js}"
proof -
  have lt: "{(u :: nat, v). u < v} = less_than" by auto
  have "{(is, js). key is < key js} = lenlex less_than"
    by (auto simp: key_def lenlex_def lexord_lex list_less_def lt)
  then show ?thesis by (simp add: wf_lenlex)
qed

section \<open>Search\<close>

locale ordered_graph =
  fixes out :: "'v \<Rightarrow> 'e list"
    and tgt :: "'e \<Rightarrow> 'v"
    and src :: "'e \<Rightarrow> 'v"
  assumes src_out: "e \<in> set (out v) \<Longrightarrow> src e = v"
begin

fun wend :: "'v \<Rightarrow> nat list \<Rightarrow> 'v option" where
  "wend u [] = Some u"
| "wend u (i # is) = (if i < length (out u) then wend (tgt (out u ! i)) is else None)"

lemma wend_append: "wend u (is @ js) = (case wend u is of None \<Rightarrow> None | Some v \<Rightarrow> wend v js)"
  by (induction u "is" rule: wend.induct) auto

lemma wend_snoc: "wend u (is @ [j]) = Some w \<longleftrightarrow>
    (\<exists>v. wend u is = Some v \<and> j < length (out v) \<and> tgt (out v ! j) = w)"
  by (auto simp: wend_append split: option.splits if_splits)

definition frontier :: "'v \<Rightarrow> 'v list \<Rightarrow> 'v \<Rightarrow> 'v list \<Rightarrow> nat \<Rightarrow> ('v \<Rightarrow> nat list) \<Rightarrow> bool" where
  "frontier s D v rest k T \<longleftrightarrow>
     sorted_wrt (\<lambda>x y. key (T x) < key (T y)) (D @ v # rest)
   \<and> (\<forall>x \<in> set (D @ v # rest). wend s (T x) = Some x \<and> key (T x) < key (T v @ [k]))
   \<and> (\<forall>is w. wend s is = Some w \<longrightarrow> key is < key (T v @ [k]) \<longrightarrow>
        w \<in> set (D @ v # rest) \<and> key (T w) \<le> key is)
   \<and> k \<le> length (out v)"

lemma frontier_init: "frontier s [] s [] 0 (\<lambda>_. [])"
proof -
  have "w = s \<and> key [] \<le> key is" if "wend s is = Some w" "key is < key [0]" for "is" w
    using that by (cases "is") (auto simp: key_def)
  moreover have "key [] < key [0]" by (simp add: key_def)
  ultimately show ?thesis by (simp add: frontier_def)
qed

lemma frontier_distinct: "frontier s D v rest k T \<Longrightarrow> distinct (D @ v # rest)"
  unfolding frontier_def distinct_conv_nth sorted_wrt_iff_nth_less
  by (metis less_irrefl linorder_neqE_nat)

lemma frontier_walk: "frontier s D v rest k T \<Longrightarrow> x \<in> set (D @ v # rest) \<Longrightarrow> wend s (T x) = Some x"
  unfolding frontier_def by blast

lemma key_between: "key (p @ [k]) \<le> key is \<Longrightarrow> key is < key (p @ [Suc k]) \<Longrightarrow> is = p @ [k]"
proof -
  assume a: "key (p @ [k]) \<le> key is" "key is < key (p @ [Suc k])"
  then have "length is = Suc (length p)" by (auto simp: key_def)
  then obtain q j where q: "is = q @ [j]" by (metis length_Suc_conv_rev)
  show "is = p @ [k]"
  proof (rule ccontr)
    assume "is \<noteq> p @ [k]"
    with a have "key (p @ [k]) < key is" by (metis key_eq order_le_less)
    with a(2) show False unfolding q key_snoc_less by (auto simp: key_def)
  qed
qed

text \<open>One edge of the node being expanded: its target is new, or has been seen.\<close>

lemma frontier_new:
  assumes "frontier s D v rest k T" and "k < length (out v)" and w: "w = tgt (out v ! k)"
    and new: "w \<notin> set (D @ v # rest)"
  shows "frontier s D v (rest @ [w]) (Suc k) (T(w := T v @ [k]))"
proof -
  let ?T = "T(w := T v @ [k])"
  note f = assms(1) [unfolded frontier_def]
  have old: "?T x = T x" if "x \<in> set (D @ v # rest)" for x
    using that new by auto
  have lt: "key (T v @ [k]) < key (T v @ [Suc k])" by (simp add: key_snoc_less)
  have "sorted_wrt (\<lambda>x y. key (?T x) < key (?T y)) (D @ v # rest)"
    by (rule sorted_wrt_mono_rel [OF _ conjunct1 [OF f]]) (simp only: old)
  moreover have "\<forall>x \<in> set (D @ v # rest). key (?T x) < key (?T w)"
    using f by (simp add: old del: fun_upd_apply) (simp add: new)
  ultimately have "sorted_wrt (\<lambda>x y. key (?T x) < key (?T y)) ((D @ v # rest) @ [w])"
    by (simp only: sorted_wrt_append) simp
  moreover have "wend s (?T x) = Some x \<and> key (?T x) < key (?T v @ [Suc k])"
    if "x \<in> set (D @ v # rest @ [w])" for x
  proof (cases "x = w")
    case True
    with f assms(2) w new lt show ?thesis by (auto simp: wend_snoc)
  next
    case False
    with that have x: "x \<in> set (D @ v # rest)" by simp
    with f lt have "wend s (T x) = Some x" "key (T x) < key (T v @ [Suc k])" by (blast, fastforce)
    with x show ?thesis using new False by auto
  qed
  moreover have "y \<in> set (D @ v # rest @ [w]) \<and> key (?T y) \<le> key is"
    if y: "wend s is = Some y" "key is < key (?T v @ [Suc k])" for "is" y
  proof (cases "key is < key (T v @ [k])")
    case True
    with f y have "y \<in> set (D @ v # rest)" "key (T y) \<le> key is" by blast+
    then show ?thesis using new by auto
  next
    case False
    have "T v = ?T v" using new by auto
    with False y have i: "is = T v @ [k]" using key_between [of "T v" k "is"] by simp
    moreover have "wend s (T v) = Some v" using f by simp
    ultimately have "y = w" using y w by (auto simp: wend_append split: if_splits)
    with i show ?thesis by simp
  qed
  ultimately show ?thesis
    unfolding frontier_def using assms(2) by simp
qed

lemma frontier_seen:
  assumes "frontier s D v rest k T" and "k < length (out v)" and w: "w = tgt (out v ! k)"
    and seen: "w \<in> set (D @ v # rest)"
  shows "frontier s D v rest (Suc k) T"
proof -
  note f = assms(1) [unfolded frontier_def]
  have lt: "key (T v @ [k]) < key (T v @ [Suc k])" by (simp add: key_snoc_less)
  have "y \<in> set (D @ v # rest) \<and> key (T y) \<le> key is"
    if y: "wend s is = Some y" "key is < key (T v @ [Suc k])" for "is" y
  proof (cases "key is < key (T v @ [k])")
    case True
    with f y show ?thesis by blast
  next
    case False
    with y have i: "is = T v @ [k]" using key_between [of "T v" k "is"] by simp
    moreover have "wend s (T v) = Some v" using f by simp
    ultimately have "y = w" using y w by (auto simp: wend_append split: if_splits)
    moreover have "key (T w) < key is" using f seen i by blast
    ultimately show ?thesis using seen by simp
  qed
  moreover have "\<forall>x \<in> set (D @ v # rest). wend s (T x) = Some x \<and> key (T x) < key (T v @ [Suc k])"
    using f lt by (meson order.strict_trans)
  ultimately show ?thesis unfolding frontier_def using f assms(2) Suc_leI by blast
qed

text \<open>The node is expanded: the next queued node takes its place, or the search is over.\<close>

lemma frontier_next:
  assumes "frontier s D v (v' # rest) (length (out v)) T"
  shows "frontier s (D @ [v]) v' rest 0 T"
proof -
  let ?Q = "D @ v # v' # rest" and ?m = "T v @ [length (out v)]"
  note f = assms [unfolded frontier_def]
  have sorted: "sorted_wrt (\<lambda>x y. key (T x) < key (T y)) ?Q"
    and walks: "\<And>x. x \<in> set ?Q \<Longrightarrow> wend s (T x) = Some x"
    and before: "\<And>x. x \<in> set ?Q \<Longrightarrow> key (T x) < key ?m"
    and least: "\<And>is w. wend s is = Some w \<Longrightarrow> key is < key ?m \<Longrightarrow> w \<in> set ?Q \<and> key (T w) \<le> key is"
    using f by blast+
  have vv: "key (T v) < key (T v')" using sorted by (simp add: sorted_wrt_append)
  have gap: "x = v" if "x \<in> set ?Q" "key (T v) \<le> key (T x)" "key (T x) < key (T v')" for x
    using that sorted by (auto simp: sorted_wrt_append)
  have m: "key ?m < key (T v' @ [0])" using vv by (simp add: key_snoc_less)
  have "w \<in> set ?Q \<and> key (T w) \<le> key is"
    if w: "wend s is = Some w" "key is < key (T v' @ [0])" for "is" w
  proof (cases "is" rule: rev_exhaust)
    case Nil
    then have "key is < key ?m" by (simp add: key_def)
    with least w show ?thesis by blast
  next
    case (snoc p i)
    then obtain u where u: "wend s p = Some u" "i < length (out u)" "tgt (out u ! i) = w"
      using w by (auto simp: wend_snoc)
    have "key p < key (T v')" using w snoc by (simp add: key_snoc_less)
    with before [of v'] u least [of p u] have uQ: "u \<in> set ?Q" "key (T u) \<le> key p" by auto
    with snoc have le: "key (T u @ [i]) \<le> key is"
      by (metis key_eq key_snoc_less order_le_less)
    have walk: "wend s (T u @ [i]) = Some w" using walks [OF uQ(1)] u by (simp add: wend_snoc)
    show ?thesis
    proof (cases "key (T u @ [i]) < key ?m")
      case True
      with least walk le show ?thesis by (meson order.trans)
    next
      case False
      then have "key (T v) \<le> key (T u)" by (auto simp: key_snoc_less not_less order_le_less)
      moreover have "key (T u) < key (T v')" using uQ \<open>key p < key (T v')\<close> by simp
      ultimately have "u = v" using gap uQ by blast
      with False u(2) show ?thesis by (simp add: key_snoc_less)
    qed
  qed
  with f m show ?thesis unfolding frontier_def by (auto intro: order.strict_trans)
qed

lemma frontier_done:
  assumes "frontier s D v [] (length (out v)) T" and "wend s is = Some w"
  shows "w \<in> set (D @ [v]) \<and> key (T w) \<le> key is"
  using assms(2)
proof (induction "is" arbitrary: w rule: rev_induct)
  case Nil
  have "key [] < key (T v @ [length (out v)])" by (simp add: key_def)
  with Nil assms(1) show ?case unfolding frontier_def by blast
next
  case (snoc i p)
  note f = assms(1) [unfolded frontier_def]
  from snoc.prems obtain u where u: "wend s p = Some u" "i < length (out u)" "tgt (out u ! i) = w"
    by (auto simp: wend_snoc)
  from snoc.IH [OF u(1)] have uQ: "u \<in> set (D @ [v])" "key (T u) \<le> key p" by auto
  have "key (T u) < key (T v) \<or> u = v"
    using f uQ(1) by (auto simp: sorted_wrt_append)
  then have lt: "key (T u @ [i]) < key (T v @ [length (out v)])"
    using u(2) by (auto simp: key_snoc_less)
  moreover have "wend s (T u @ [i]) = Some w" using f uQ(1) u by (auto simp: wend_snoc)
  ultimately have "w \<in> set (D @ [v]) \<and> key (T w) \<le> key (T u @ [i])" using f by blast
  moreover have "key (T u @ [i]) \<le> key (p @ [i])"
    using uQ(2) by (metis key_eq key_snoc_less order_le_less)
  ultimately show ?case by (meson order.trans)
qed

text \<open>A node already expanded or being expanded has the shortlex-least walk to it.\<close>

lemma frontier_least:
  assumes "frontier s D v rest k T" and "wend s is = Some v"
  shows "key (T v) \<le> key is"
proof (cases "key is < key (T v @ [k])")
  case True
  with assms show ?thesis unfolding frontier_def by blast
next
  case False
  moreover have "key (T v) < key (T v @ [k])" by (rule key_less_snoc) simp
  ultimately show ?thesis by simp
qed

text \<open>Nodes and edges of a walk, and shortlex-least walks.\<close>

fun wnodes :: "'v \<Rightarrow> nat list \<Rightarrow> 'v list" where
  "wnodes u [] = [u]"
| "wnodes u (i # is) = u # wnodes (tgt (out u ! i)) is"

fun wedges :: "'v \<Rightarrow> nat list \<Rightarrow> 'e list" where
  "wedges u [] = []"
| "wedges u (i # is) = out u ! i # wedges (tgt (out u ! i)) is"

lemma wnodes_snoc: "wend u is = Some v \<Longrightarrow> wnodes u (is @ [j]) = wnodes u is @ [tgt (out v ! j)]"
  by (induction u "is" rule: wend.induct) (auto split: if_splits)

lemma wedges_snoc: "wend u is = Some v \<Longrightarrow> wedges u (is @ [j]) = wedges u is @ [out v ! j]"
  by (induction u "is" rule: wend.induct) (auto split: if_splits)

lemma wnodes_last: "wend u is = Some v \<Longrightarrow> last (wnodes u is) = v"
proof (induction u "is" rule: wend.induct)
  case (2 u i "is")
  have "wnodes (tgt (out u ! i)) is \<noteq> []" by (cases "is") auto
  with 2 show ?case by (simp split: if_splits)
qed simp

lemma length_wedges [simp]: "length (wedges u is) = length is"
  by (induction u "is" rule: wedges.induct) auto

lemma wnodes_wedges: "wnodes u is = u # map tgt (wedges u is)"
  by (induction u "is" rule: wnodes.induct) auto

definition least :: "'v \<Rightarrow> nat list \<Rightarrow> 'v \<Rightarrow> bool" where
  "least u is v \<longleftrightarrow> wend u is = Some v \<and> (\<forall>js. wend u js = Some v \<longrightarrow> key is \<le> key js)"

lemma least_exists: "wend u js = Some v \<Longrightarrow> \<exists>is. least u is v"
proof -
  assume "wend u js = Some v"
  then have "js \<in> {is. wend u is = Some v}" by simp
  from wfE_min [OF wf_key this] obtain z where "wend u z = Some v"
      "\<And>y. key y < key z \<Longrightarrow> wend u y \<noteq> Some v"
    by auto
  then show ?thesis unfolding least_def using not_less by blast
qed

lemma least_wend: "least u is v \<Longrightarrow> wend u is = Some v"
  by (simp add: least_def)

lemma least_length: "least u is v \<Longrightarrow> wend u js = Some v \<Longrightarrow> length is \<le> length js"
  by (auto simp: least_def dest: key_length)

lemma least_self: "least u is u \<longleftrightarrow> is = []"
proof
  show "is = []" if "least u is u"
    using least_length [OF that, of "[]"] by simp
qed (simp add: least_def key_def)

lemma key_Cons: "key (i # is) \<le> key (i # js) \<longleftrightarrow> key is \<le> key js"
  by (auto simp: key_def)

lemma least_tail:
  assumes "least u (i # is) v"
  shows "least (tgt (out u ! i)) is v" and "i < length (out u)"
proof -
  show i: "i < length (out u)" using least_wend [OF assms] by (simp split: if_splits)
  have "key is \<le> key js" if "wend (tgt (out u ! i)) js = Some v" for js
  proof -
    have "wend u (i # js) = Some v" using i that by simp
    with assms have "key (i # is) \<le> key (i # js)" unfolding least_def by blast
    then show ?thesis by (simp only: key_Cons)
  qed
  with i least_wend [OF assms] show "least (tgt (out u ! i)) is v" by (simp add: least_def)
qed

text \<open>
  \<open>parents\<close> relates the predecessor map a search keeps to the discovering walks: every node but the
  source was discovered by its recorded edge, from a node that was queued before it.
\<close>

definition parents :: "'v \<Rightarrow> 'v list \<Rightarrow> ('v \<Rightarrow> nat list) \<Rightarrow> ('v \<rightharpoonup> 'e) \<Rightarrow> bool" where
  "parents s Q T prev \<longleftrightarrow> s \<in> set Q \<and> T s = [] \<and>
     (\<forall>x \<in> set Q. x \<noteq> s \<longrightarrow>
        (\<exists>u \<in> set Q. \<exists>j < length (out u). T x = T u @ [j] \<and> prev x = Some (out u ! j)))"

lemma parents_init: "parents s [s] (\<lambda>_. []) prev"
  by (simp add: parents_def)

lemma parents_new:
  assumes "parents s Q T prev" and "w \<notin> set Q" and "v \<in> set Q" and "k < length (out v)"
    and "set Q' = insert w (set Q)"
  shows "parents s Q' (T(w := T v @ [k])) (prev(w \<mapsto> out v ! k))"
proof -
  let ?T = "T(w := T v @ [k])"
  have old: "?T x = T x" "(prev(w \<mapsto> out v ! k)) x = prev x" if "x \<in> set Q" for x
    using that assms(2) by auto
  have "\<exists>u \<in> set Q'. \<exists>j < length (out u). ?T x = ?T u @ [j] \<and> (prev(w \<mapsto> out v ! k)) x = Some (out u ! j)"
    if "x \<in> set Q'" "x \<noteq> s" for x
  proof (cases "x = w")
    case True
    moreover have "v \<noteq> w" using assms(2,3) by auto
    ultimately show ?thesis using assms(3-5) by (intro bexI [of _ v] exI [of _ k]) auto
  next
    case False
    with that assms(5) have x: "x \<in> set Q" by simp
    with assms(1) that(2) obtain u j where "u \<in> set Q" "j < length (out u)" "T x = T u @ [j]"
        "prev x = Some (out u ! j)"
      unfolding parents_def by blast
    with x assms(5) show ?thesis
      by (intro bexI [of _ u] exI [of _ j]) (simp_all only: old, simp_all)
  qed
  moreover have "s \<in> set Q" "T s = []" using assms(1) by (auto simp: parents_def)
  ultimately show ?thesis unfolding parents_def using assms(2,5) by auto
qed

end

end
