(* ===== verification/Retained_Path.thy ===== *)
theory Retained_Path
  imports Go_Json Shortlex_Bfs
begin

text \<open>
  Package \<open>internal/retainedpath\<close>: budgeted breadth-first search for a shortest path over retained
  call edges (\<open>Search\<close>), and the independent check of a completed answer by reverse distances
  (\<open>Prove\<close>).

  A Go \<open>context.Context\<close> is a predicate \<open>cancelled\<close> on the number of times it has been polled:
  the \<open>n\<close>-th call of \<open>Context.Err\<close> returns an error when \<open>cancelled n\<close>. \<open>sort.Slice\<close> by
  (neighbour, group ID) is \<^const>\<open>sort_key\<close>: on edges that agree in both, whose relative order Go
  leaves open, the model keeps the input order.
\<close>

record Edge =
  GroupID :: string
  ContextID :: string
  ExecutionBundleID :: string
  Caller :: string
  Callee :: string
  Weight :: int
  CallsiteState :: string
  EdgeOccurrenceIDs :: go_strings

record Path =
  Nodes :: "string list"
  GroupIDs :: "string list"
  OccurrenceIDs :: "go_strings list"

record Result =
  Status :: string
  Reason :: string
  ResultPath :: Path

record Budget =
  Polls :: nat
  Left :: int
  BudgetReason :: string

type_synonym go_context = "nat \<Rightarrow> bool"
type_synonym adjacency = "string \<Rightarrow> Edge list"

definition Tick :: "go_context \<Rightarrow> Budget \<Rightarrow> bool \<times> Budget" where
  "Tick cancelled b =
     (let b' = b\<lparr>Polls := Suc (Polls b)\<rparr> in
      if cancelled (Polls b) then (False, b'\<lparr>BudgetReason := ''CANCELLED''\<rparr>)
      else if Left b \<le> 0 then (False, b'\<lparr>BudgetReason := ''LIMIT''\<rparr>)
      else (True, b'\<lparr>Left := Left b - 1\<rparr>))"

section \<open>Adjacency\<close>

fun index_edges :: "Edge list \<Rightarrow> adjacency \<times> adjacency \<Rightarrow> adjacency \<times> adjacency" where
  "index_edges [] (out, inn) = (out, inn)"
| "index_edges (e # es) (out, inn) =
     index_edges es (out(Caller e := out (Caller e) @ [e]), inn(Callee e := inn (Callee e) @ [e]))"

definition Indexes :: "Edge list \<Rightarrow> adjacency \<times> adjacency" where
  "Indexes edges =
     (let (out, inn) = index_edges edges ((\<lambda>_. []), (\<lambda>_. [])) in
      (\<lambda>v. sort_key (\<lambda>e. (Callee e, GroupID e)) (out v),
       \<lambda>v. sort_key (\<lambda>e. (Caller e, GroupID e)) (inn v)))"

definition emptyPath :: Path where
  "emptyPath = \<lparr>Nodes = [], GroupIDs = [], OccurrenceIDs = []\<rparr>"

section \<open>Search\<close>

datatype bfs_exit = BudgetStop | FoundEnd | QueueEmpty

text \<open>The inner loop over \<open>out[v]\<close>: new nodes are collected in the order they are appended.\<close>

fun bfs_edges :: "go_context \<Rightarrow> Edge list \<Rightarrow> (string \<Rightarrow> bool) \<Rightarrow> (string \<rightharpoonup> Edge) \<Rightarrow> string list \<Rightarrow> Budget
    \<Rightarrow> bool \<times> (string \<Rightarrow> bool) \<times> (string \<rightharpoonup> Edge) \<times> string list \<times> Budget" where
  "bfs_edges cancelled [] seen prev new b = (True, seen, prev, new, b)"
| "bfs_edges cancelled (e # es) seen prev new b =
     (case Tick cancelled b of (ok, b') \<Rightarrow>
        if \<not> ok then (False, seen, prev, new, b')
        else if \<not> seen (Callee e)
          then bfs_edges cancelled es (seen(Callee e := True)) (prev(Callee e \<mapsto> e)) (new @ [Callee e]) b'
          else bfs_edges cancelled es seen prev new b')"

lemma Tick_Left:
  "Tick cancelled b = (ok, b') \<Longrightarrow> Left b' \<le> Left b \<and> (ok \<longrightarrow> 0 < Left b \<and> Left b' = Left b - 1)"
  by (auto simp: Tick_def Let_def split: if_splits)

lemma bfs_edges_Left:
  "bfs_edges cancelled es seen prev new b = (ok, seen', prev', new', b') \<Longrightarrow> Left b' \<le> Left b"
proof (induction es arbitrary: seen prev new b)
  case (Cons e es)
  obtain ok1 b1 where t: "Tick cancelled b = (ok1, b1)" by fastforce
  have "Left b' \<le> Left b1"
    using Cons.prems Cons.IH t by (cases ok1; cases "seen (Callee e)") auto
  with Tick_Left [OF t] show ?case by simp
qed simp

text \<open>The outer loop; the queue argument is \<open>queue[head:]\<close>.\<close>

function bfs_loop :: "go_context \<Rightarrow> adjacency \<Rightarrow> string \<Rightarrow> string list \<Rightarrow> (string \<Rightarrow> bool) \<Rightarrow> (string \<rightharpoonup> Edge)
    \<Rightarrow> Budget \<Rightarrow> bfs_exit \<times> (string \<rightharpoonup> Edge) \<times> Budget" where
  "bfs_loop cancelled out fin [] seen prev b = (QueueEmpty, prev, b)"
| "bfs_loop cancelled out fin (v # q) seen prev b =
     (case Tick cancelled b of (ok, b1) \<Rightarrow>
        if \<not> ok then (BudgetStop, prev, b1)
        else if v = fin then (FoundEnd, prev, b1)
        else case bfs_edges cancelled (out v) seen prev [] b1 of (ok2, seen', prev', new, b2) \<Rightarrow>
          if \<not> ok2 then (BudgetStop, prev', b2)
          else bfs_loop cancelled out fin (q @ new) seen' prev' b2)"
  by pat_completeness auto
termination
  by (relation "measure (\<lambda>(cancelled, out, fin, q, seen, prev, b). nat (Left b))")
     (auto dest!: Tick_Left [OF sym] bfs_edges_Left [OF sym])

declare bfs_loop.simps(2) [simp del]

text \<open>
  The reconstruction loop \<open>for v := end; v != start\<close>. A missing \<open>prev\<close> entry is Go's zero edge,
  whose caller is the empty string; the loop returns nodes and edges from the start to \<open>v\<close>.
\<close>

definition zero_edge :: Edge where
  "zero_edge = \<lparr>GroupID = '''', ContextID = '''', ExecutionBundleID = '''', Caller = '''', Callee = '''',
     Weight = 0, CallsiteState = '''', EdgeOccurrenceIDs = None\<rparr>"

partial_function (option) trace_back ::
  "(string \<rightharpoonup> Edge) \<Rightarrow> string \<Rightarrow> string \<Rightarrow> string list \<Rightarrow> Edge list \<Rightarrow> (string list \<times> Edge list) option" where
  "trace_back prev start v nodes edges =
     (if v = start then Some (nodes, edges)
      else
        (let edge = (case prev v of Some e \<Rightarrow> e | None \<Rightarrow> zero_edge) in
         trace_back prev start (Caller edge) (Caller edge # nodes) (edge # edges)))"

text \<open>\<open>shortest\<close>; \<^const>\<open>None\<close> stands for a reconstruction loop that does not end.\<close>

definition shortest :: "go_context \<Rightarrow> Result \<Rightarrow> adjacency \<Rightarrow> string \<Rightarrow> string \<Rightarrow> Budget \<Rightarrow> (Result \<times> Budget) option" where
  "shortest cancelled e out start fin b =
     (case bfs_loop cancelled out fin [start] ((\<lambda>_. False)(start := True)) Map.empty b of
        (BudgetStop, prev, b') \<Rightarrow> Some (e, b')
      | (QueueEmpty, prev, b') \<Rightarrow> Some (e\<lparr>Status := ''NOT_FOUND_IN_RETAINED_GRAPH''\<rparr>, b')
      | (FoundEnd, prev, b') \<Rightarrow>
          (case trace_back prev start fin [fin] [] of
             None \<Rightarrow> None
           | Some (nodes, edges) \<Rightarrow>
               Some (e\<lparr>Status := ''FOUND'',
                       ResultPath := \<lparr>Nodes = nodes, GroupIDs = map GroupID edges,
                                      OccurrenceIDs = map EdgeOccurrenceIDs edges\<rparr>\<rparr>, b')))"

definition Search :: "go_context \<Rightarrow> string list \<Rightarrow> Edge list \<Rightarrow> string \<Rightarrow> string \<Rightarrow> Budget
    \<Rightarrow> (string + Result \<times> Budget) option" where
  "Search cancelled nodes edges start fin b =
     (if start \<notin> set nodes then Some (Inl start)
      else if fin \<notin> set nodes then Some (Inl fin)
      else
        (let e = \<lparr>Status = ''COMPLETE'', Reason = '''', ResultPath = emptyPath\<rparr>;
             out = fst (Indexes edges);
             b1 = b\<lparr>Polls := Suc (Polls b),
                    BudgetReason := (if cancelled (Polls b) then ''CANCELLED'' else BudgetReason b)\<rparr>
         in if BudgetReason b1 \<noteq> '''' then
              Some (Inr (e\<lparr>Status := ''INCOMPLETE'', Reason := BudgetReason b1\<rparr>, b1))
            else case shortest cancelled e out start fin b1 of
              None \<Rightarrow> None
            | Some (e', b2) \<Rightarrow>
                Some (Inr (if BudgetReason b2 \<noteq> ''''
                  then (e'\<lparr>Status := ''INCOMPLETE'', Reason := BudgetReason b2, ResultPath := emptyPath\<rparr>, b2)
                  else (e', b2)))))"

section \<open>Prove\<close>

datatype prove_error =
    FalseReachability
  | NotShortest
  | EndpointMismatch
  | WitnessMismatch
  | ContinuityMismatch
  | EndMismatch

fun dist_edges :: "Edge list \<Rightarrow> nat \<Rightarrow> (string \<rightharpoonup> nat) \<Rightarrow> string list \<Rightarrow> (string \<rightharpoonup> nat) \<times> string list" where
  "dist_edges [] d dist new = (dist, new)"
| "dist_edges (e # es) d dist new =
     (if dist (Caller e) = None
      then dist_edges es d (dist(Caller e \<mapsto> d + 1)) (new @ [Caller e])
      else dist_edges es d dist new)"

lemma dist_edges_new:
  "dist_edges es d dist new = (dist', new') \<Longrightarrow>
     \<exists>add. new' = new @ add \<and> distinct add \<and> set add = Caller ` set es - dom dist \<and> dom dist' = dom dist \<union> set add"
proof (induction es d dist new rule: dist_edges.induct)
  case (1 d dist new)
  then show ?case by simp
next
  case (2 e es d dist new)
  show ?case
  proof (cases "dist (Caller e) = None")
    case True
    then have "dist_edges es d (dist(Caller e \<mapsto> d + 1)) (new @ [Caller e]) = (dist', new')"
      using "2.prems" by simp
    from "2.IH"(1) [OF True this] obtain add where
      "new' = (new @ [Caller e]) @ add" "distinct add"
      "set add = Caller ` set es - dom (dist(Caller e \<mapsto> d + 1))"
      "dom dist' = dom (dist(Caller e \<mapsto> d + 1)) \<union> set add" by blast
    with True show ?thesis
      by (intro exI [of _ "Caller e # add"]) (auto simp: domIff)
  next
    case False
    with 2 obtain add where "new' = new @ add" "distinct add" "set add = Caller ` set es - dom dist"
        "dom dist' = dom dist \<union> set add"
      by auto
    with False show ?thesis by (intro exI [of _ add]) auto
  qed
qed

lemma index_edges_filter:
  "index_edges es (out, inn) = (out', inn') \<Longrightarrow>
     out' v = out v @ filter (\<lambda>e. Caller e = v) es \<and> inn' v = inn v @ filter (\<lambda>e. Callee e = v) es"
proof (induction es "(out, inn)" arbitrary: out inn rule: index_edges.induct)
  case (2 e es out inn)
  from "2.hyps" [OF "2.prems" [simplified]] show ?case by auto
qed simp

lemma Indexes_out: "fst (Indexes edges) v =
    sort_key (\<lambda>e. (Callee e, GroupID e)) (filter (\<lambda>e. Caller e = v) edges)"
  and Indexes_in: "snd (Indexes edges) v =
    sort_key (\<lambda>e. (Caller e, GroupID e)) (filter (\<lambda>e. Callee e = v) edges)"
proof -
  obtain out inn where "index_edges edges ((\<lambda>_. []), (\<lambda>_. [])) = (out, inn)" by fastforce
  from index_edges_filter [OF this] this show
    "fst (Indexes edges) v = sort_key (\<lambda>e. (Callee e, GroupID e)) (filter (\<lambda>e. Caller e = v) edges)"
    "snd (Indexes edges) v = sort_key (\<lambda>e. (Caller e, GroupID e)) (filter (\<lambda>e. Callee e = v) edges)"
    by (simp_all add: Indexes_def)
qed

lemma set_out [simp]: "set (fst (Indexes edges) v) = {e \<in> set edges. Caller e = v}"
  and set_in [simp]: "set (snd (Indexes edges) v) = {e \<in> set edges. Callee e = v}"
  by (auto simp: Indexes_out Indexes_in)

text \<open>The reverse-distance loop; the list argument is \<open>q[h:]\<close>.\<close>

function dist_loop :: "Edge list \<Rightarrow> string list \<Rightarrow> (string \<rightharpoonup> nat) \<Rightarrow> (string \<rightharpoonup> nat)" where
  "dist_loop edges [] dist = dist"
| "dist_loop edges (v # q) dist =
     (let (dist', new) = dist_edges (snd (Indexes edges) v) (the (dist v)) dist []
      in dist_loop edges (q @ new) dist')"
  by pat_completeness auto
termination
proof (relation "measure (\<lambda>(edges, q, dist). card (Caller ` set edges - dom dist) + length q)")
  fix edges v q and dist :: "string \<rightharpoonup> nat" and x dist' new
  assume "x = dist_edges (snd (Indexes edges) v) (the (dist v)) dist []" "(dist', new) = x"
  then have "dist_edges (snd (Indexes edges) v) (the (dist v)) dist [] = (dist', new)" by simp
  from dist_edges_new [OF this] have n: "distinct new" "dom dist' = dom dist \<union> set new"
      "set new \<subseteq> Caller ` set edges - dom dist"
    by auto
  let ?F = "Caller ` set edges - dom dist"
  have "card (?F - set new) = card ?F - length new"
    using n by (simp add: card_Diff_subset distinct_card)
  moreover have "length new \<le> card ?F"
    using card_mono [OF _ n(3)] n(1) by (simp add: distinct_card)
  moreover have "Caller ` set edges - dom dist' = ?F - set new" using n(2) by auto
  ultimately have "card (Caller ` set edges - dom dist') + length new = card ?F" by simp
  then show "((edges, q @ new, dist'), edges, v # q, dist)
      \<in> measure (\<lambda>(edges, q, dist). card (Caller ` set edges - dom dist) + length q)"
    by simp
qed simp

declare dist_loop.simps(2) [simp del]

text \<open>The witness loop: the \<open>i\<close>-th step must take the first edge of \<open>out[v]\<close> that lowers the distance.\<close>

fun first_lowering :: "(string \<rightharpoonup> nat) \<Rightarrow> nat \<Rightarrow> Edge list \<Rightarrow> Edge option" where
  "first_lowering dist d [] = None"
| "first_lowering dist d (e # es) =
     (if dist (Callee e) = Some d then Some e else first_lowering dist d es)"

fun prove_steps :: "adjacency \<Rightarrow> (string \<rightharpoonup> nat) \<Rightarrow> nat \<Rightarrow> string \<Rightarrow> string list \<Rightarrow> string list \<Rightarrow> go_strings list
    \<Rightarrow> prove_error + string" where
  "prove_steps out dist 0 v nodes groups occs = Inr v"
| "prove_steps out dist (Suc n) v nodes groups occs =
     (if hd nodes \<noteq> v then Inl EndpointMismatch
      else case first_lowering dist n (out v) of
        None \<Rightarrow> Inl ContinuityMismatch
      | Some e \<Rightarrow>
          (if hd groups \<noteq> GroupID e \<or> json_strings (hd occs) \<noteq> json_strings (EdgeOccurrenceIDs e)
           then Inl WitnessMismatch
           else prove_steps out dist n (Callee e) (tl nodes) (tl groups) (tl occs)))"

definition Prove :: "Edge list \<Rightarrow> string \<Rightarrow> string \<Rightarrow> string \<Rightarrow> Path \<Rightarrow> prove_error + unit" where
  "Prove edges start fin status path =
     (let out = fst (Indexes edges);
          dist = dist_loop edges [fin] [fin \<mapsto> 0]
      in case dist start of
           None \<Rightarrow> (if status \<noteq> ''NOT_FOUND_IN_RETAINED_GRAPH'' then Inl FalseReachability else Inr ())
         | Some n \<Rightarrow>
             (if status \<noteq> ''FOUND'' \<or> length (Nodes path) \<noteq> n + 1 \<or> length (GroupIDs path) \<noteq> n
                 \<or> length (OccurrenceIDs path) \<noteq> n then Inl NotShortest
              else case prove_steps out dist n start (Nodes path) (GroupIDs path) (OccurrenceIDs path) of
                Inl err \<Rightarrow> Inl err
              | Inr v \<Rightarrow> (if Nodes path ! n \<noteq> fin \<or> v \<noteq> fin then Inl EndMismatch else Inr ())))"

section \<open>Paths\<close>

text \<open>The specification: chains of retained edges, and their order by hop count and lexical hops.\<close>

fun edge_path :: "Edge list \<Rightarrow> string \<Rightarrow> Edge list \<Rightarrow> string \<Rightarrow> bool" where
  "edge_path edges u [] v = (u = v)"
| "edge_path edges u (e # es) v = (e \<in> set edges \<and> Caller e = u \<and> edge_path edges (Callee e) es v)"

definition hop :: "Edge \<Rightarrow> string \<times> string" where
  "hop e = (Callee e, GroupID e)"

definition best_path :: "Edge list \<Rightarrow> string \<Rightarrow> Edge list \<Rightarrow> string \<Rightarrow> bool" where
  "best_path edges u es v \<longleftrightarrow> edge_path edges u es v \<and>
     (\<forall>es'. edge_path edges u es' v \<longrightarrow>
        length es \<le> length es' \<and> (length es = length es' \<longrightarrow> map hop es \<le> map hop es'))"

definition path_of :: "string \<Rightarrow> Edge list \<Rightarrow> Path" where
  "path_of u es = \<lparr>Nodes = u # map Callee es, GroupIDs = map GroupID es,
                   OccurrenceIDs = map EdgeOccurrenceIDs es\<rparr>"

interpretation fwd: ordered_graph "fst (Indexes edges)" Callee Caller for edges
  by unfold_locales simp

interpretation bwd: ordered_graph "snd (Indexes edges)" Caller Callee for edges
  by unfold_locales simp

lemma fwd_edge_path:
  "fwd.wend edges u is = Some v \<Longrightarrow> edge_path edges u (fwd.wedges edges u is) v"
proof (induction "is" arbitrary: u)
  case (Cons i "is")
  then have "i < length (fst (Indexes edges) u)" by (simp split: if_splits)
  then have "fst (Indexes edges) u ! i \<in> set (fst (Indexes edges) u)" by (rule nth_mem)
  with Cons show ?case by (simp split: if_splits)
qed simp

lemma edge_path_fwd:
  "edge_path edges u es v \<Longrightarrow> \<exists>is. fwd.wend edges u is = Some v \<and> fwd.wedges edges u is = es"
proof (induction edges u es v rule: edge_path.induct)
  case (1 edges u v)
  then show ?case by (auto intro!: exI [of _ "[]"])
next
  case (2 edges u e es v)
  then obtain "is" where "fwd.wend edges (Callee e) is = Some v" "fwd.wedges edges (Callee e) is = es"
    by auto
  moreover from 2 have "e \<in> set (fst (Indexes edges) u)" by simp
  then obtain i where "i < length (fst (Indexes edges) u)" "fst (Indexes edges) u ! i = e"
    by (metis in_set_conv_nth)
  ultimately show ?case by (auto intro!: exI [of _ "i # is"])
qed

lemma edge_path_append:
  "edge_path edges u (es @ es') v \<longleftrightarrow> (\<exists>w. edge_path edges u es w \<and> edge_path edges w es' v)"
  by (induction es arbitrary: u) auto

lemma bwd_edge_path:
  "bwd.wend edges v is = Some u \<Longrightarrow> edge_path edges u (rev (bwd.wedges edges v is)) v"
proof (induction "is" arbitrary: v)
  case (Cons i "is")
  then have "i < length (snd (Indexes edges) v)" by (simp split: if_splits)
  then have "snd (Indexes edges) v ! i \<in> set (snd (Indexes edges) v)" by (rule nth_mem)
  with Cons show ?case by (auto simp: edge_path_append split: if_splits)
qed simp

lemma edge_path_bwd:
  "edge_path edges u es v \<Longrightarrow> \<exists>is. bwd.wend edges v is = Some u \<and> length is = length es"
proof (induction es arbitrary: v rule: rev_induct)
  case Nil
  then show ?case by (auto intro!: exI [of _ "[]"])
next
  case (snoc e es)
  then have "edge_path edges u es (Caller e)" "e \<in> set (snd (Indexes edges) v)"
    by (auto simp: edge_path_append)
  with snoc.IH obtain "is" i where "bwd.wend edges (Caller e) is = Some u" "length is = length es"
      "i < length (snd (Indexes edges) v)" "snd (Indexes edges) v ! i = e"
    by (metis in_set_conv_nth)
  then show ?case by (auto intro!: exI [of _ "i # is"])
qed

text \<open>The shortlex-least walk in the sorted adjacency is the best path.\<close>

lemma out_sorted:
  assumes "i \<le> j" "j < length (fst (Indexes edges) u)"
  shows "hop (fst (Indexes edges) u ! i) \<le> hop (fst (Indexes edges) u ! j)"
proof -
  have "sorted (map hop (fst (Indexes edges) u))"
    by (simp add: Indexes_out hop_def [abs_def])
  from sorted_nth_mono [OF this assms(1)] assms show ?thesis by simp
qed

lemma least_hops:
  "fwd.least edges u is v \<Longrightarrow> fwd.wend edges u js = Some v \<Longrightarrow> length is = length js \<Longrightarrow>
     map hop (fwd.wedges edges u is) \<le> map hop (fwd.wedges edges u js)"
proof (induction "is" arbitrary: u js)
  case (Cons i "is")
  let ?out = "fst (Indexes edges) u"
  from Cons.prems obtain j js' where js: "js = j # js'" by (cases js) auto
  have w: "fwd.wend edges (Callee (?out ! j)) js' = Some v" "j < length ?out"
    using Cons.prems(2) js by (auto split: if_splits)
  have "key (i # is) \<le> key js" using Cons.prems by (simp add: fwd.least_def)
  then have "i \<le> j" using js Cons.prems(3) by (auto simp: key_def)
  then have le: "hop (?out ! i) \<le> hop (?out ! j)" using out_sorted w by blast
  show ?case
  proof (cases "hop (?out ! i) = hop (?out ! j)")
    case True
    then have "Callee (?out ! i) = Callee (?out ! j)" by (simp add: hop_def)
    with w have "fwd.wend edges (Callee (?out ! i)) js' = Some v" by simp
    from Cons.IH [OF fwd.least_tail(1) [OF Cons.prems(1)] this]
    have "map hop (fwd.wedges edges (Callee (?out ! i)) is) \<le> map hop (fwd.wedges edges (Callee (?out ! i)) js')"
      using Cons.prems(3) js by simp
    with True \<open>Callee (?out ! i) = Callee (?out ! j)\<close> js show ?thesis by simp
  next
    case False
    with le js show ?thesis by simp
  qed
qed simp

lemma least_best: "fwd.least edges u is v \<Longrightarrow> best_path edges u (fwd.wedges edges u is) v"
proof -
  assume l: "fwd.least edges u is v"
  have "length is \<le> length es' \<and> (length is = length es' \<longrightarrow> map hop (fwd.wedges edges u is) \<le> map hop es')"
    if p: "edge_path edges u es' v" for es'
  proof -
    from edge_path_fwd [OF p] obtain js where js: "fwd.wend edges u js = Some v" "fwd.wedges edges u js = es'"
      by blast
    then have "length es' = length js" by (metis fwd.length_wedges)
    with fwd.least_length [OF l js(1)] least_hops [OF l js(1)] js(2) show ?thesis by simp
  qed
  with fwd_edge_path [OF fwd.least_wend [OF l]] show ?thesis by (simp add: best_path_def)
qed

section \<open>The search loop\<close>

lemma Tick_ok: "Tick cancelled b = (True, b') \<longleftrightarrow>
    \<not> cancelled (Polls b) \<and> 0 < Left b \<and> b' = b\<lparr>Polls := Suc (Polls b), Left := Left b - 1\<rparr>"
  by (auto simp: Tick_def Let_def)

lemma Tick_stop: "Tick cancelled b = (False, b') \<Longrightarrow> BudgetReason b' \<noteq> ''''"
  by (auto simp: Tick_def Let_def split: if_splits)

lemma Tick_reason: "Tick cancelled b = (True, b') \<Longrightarrow> BudgetReason b' = BudgetReason b"
  by (auto simp: Tick_ok)

lemma bfs_edges_stop:
  "bfs_edges cancelled es seen prev new b = (False, seen', prev', new', b') \<Longrightarrow> BudgetReason b' \<noteq> ''''"
proof (induction es arbitrary: seen prev new b)
  case (Cons e es)
  obtain ok1 b1 where t: "Tick cancelled b = (ok1, b1)" by fastforce
  with Cons Tick_stop [of cancelled b b1] show ?case
    by (cases ok1; cases "seen (Callee e)") auto
qed simp

lemma bfs_edges_reason:
  "bfs_edges cancelled es seen prev new b = (True, seen', prev', new', b') \<Longrightarrow> BudgetReason b' = BudgetReason b"
proof (induction es arbitrary: seen prev new b)
  case (Cons e es)
  obtain ok1 b1 where t: "Tick cancelled b = (ok1, b1)" by fastforce
  with Cons Tick_reason [of cancelled b b1] show ?case
    by (cases ok1; cases "seen (Callee e)") auto
qed simp

text \<open>Edges of one node: the frontier advances over them, each costs one tick.\<close>

lemma bfs_edges_frontier:
  assumes "bfs_edges cancelled es seen prev new b = (True, seen', prev', new', b')"
    and "fwd.frontier edges s D v (q @ new) k T" and "es = drop k (fst (Indexes edges) v)"
    and "\<forall>x. seen x \<longleftrightarrow> x \<in> set (D @ v # q @ new)"
    and "fwd.parents edges s (D @ v # q @ new) T prev"
  shows "\<exists>T'. fwd.frontier edges s D v (q @ new') (length (fst (Indexes edges) v)) T' \<and>
           (\<forall>x. seen' x \<longleftrightarrow> x \<in> set (D @ v # q @ new')) \<and>
           fwd.parents edges s (D @ v # q @ new') T' prev'"
  using assms
proof (induction es arbitrary: seen prev new b k T)
  case Nil
  then have "k = length (fst (Indexes edges) v)" by (simp add: fwd.frontier_def)
  with Nil show ?case by auto
next
  case (Cons e es)
  let ?out = "fst (Indexes edges) v"
  obtain ok b1 where t: "Tick cancelled b = (ok, b1)" by fastforce
  with Cons.prems(1) have t: "Tick cancelled b = (True, b1)" by (cases ok) auto
  have k: "k < length ?out" using Cons.prems(3) by (metis drop_all list.distinct(1) not_le)
  with Cons.prems(3) have e: "e = ?out ! k" "es = drop (Suc k) ?out"
    by (simp_all add: Cons_nth_drop_Suc [symmetric])
  show ?case
  proof (cases "seen (Callee e)")
    case True
    then have "fwd.frontier edges s D v (q @ new) (Suc k) T"
      using fwd.frontier_seen [OF Cons.prems(2) k refl] Cons.prems(4) e by blast
    moreover have "bfs_edges cancelled es seen prev new b1 = (True, seen', prev', new', b')"
      using Cons.prems(1) t True by simp
    ultimately show ?thesis using Cons.IH Cons.prems(4,5) e(2) by blast
  next
    case False
    let ?T = "T(Callee e := T v @ [k])"
    have n: "Callee e \<notin> set (D @ v # q @ new)" using False Cons.prems(4) by blast
    have "fwd.frontier edges s D v (q @ (new @ [Callee e])) (Suc k) ?T"
      using fwd.frontier_new [OF Cons.prems(2) k refl] n e by simp
    moreover have "bfs_edges cancelled es (seen(Callee e := True)) (prev(Callee e \<mapsto> e)) (new @ [Callee e]) b1
        = (True, seen', prev', new', b')"
      using Cons.prems(1) t False by simp
    moreover have "\<forall>x. (seen(Callee e := True)) x \<longleftrightarrow> x \<in> set (D @ v # q @ (new @ [Callee e]))"
      using Cons.prems(4) by auto
    moreover have "fwd.parents edges s (D @ v # q @ (new @ [Callee e])) ?T (prev(Callee e \<mapsto> e))"
      unfolding e(1) by (rule fwd.parents_new [OF Cons.prems(5)]) (use n e(1) k in auto)
    ultimately show ?thesis using Cons.IH e(2) by blast
  qed
qed

definition search_state :: "Edge list \<Rightarrow> string \<Rightarrow> string list \<Rightarrow> string list \<Rightarrow> (string \<Rightarrow> bool)
    \<Rightarrow> (string \<rightharpoonup> Edge) \<Rightarrow> bool" where
  "search_state edges s D Q seen prev \<longleftrightarrow> (\<exists>v q T. Q = v # q \<and> fwd.frontier edges s D v q 0 T \<and>
     (\<forall>x. seen x \<longleftrightarrow> x \<in> set (D @ Q)) \<and> fwd.parents edges s (D @ Q) T prev)"

lemma search_state_init:
  "search_state edges s [] [s] ((\<lambda>_. False)(s := True)) prev"
  unfolding search_state_def using fwd.frontier_init [of edges s] fwd.parents_init [of edges s prev]
  by auto

text \<open>One iteration: either the queue is used up and everything reachable is seen, or the next node is up.\<close>

lemma search_state_step:
  assumes "search_state edges s D (v # q) seen prev"
    and "bfs_edges cancelled (fst (Indexes edges) v) seen prev [] b = (True, seen', prev', new, b')"
  shows "q @ new = [] \<Longrightarrow> fwd.wend edges s is = Some w \<Longrightarrow> w \<in> set (D @ [v])"
    and "q @ new \<noteq> [] \<Longrightarrow> search_state edges s (D @ [v]) (q @ new) seen' prev'"
proof -
  from assms(1) obtain T where "fwd.frontier edges s D v q 0 T"
      "\<forall>x. seen x \<longleftrightarrow> x \<in> set (D @ v # q)" "fwd.parents edges s (D @ v # q) T prev"
    by (auto simp: search_state_def)
  then obtain T' where f: "fwd.frontier edges s D v (q @ new) (length (fst (Indexes edges) v)) T'"
      "\<forall>x. seen' x \<longleftrightarrow> x \<in> set (D @ v # q @ new)" "fwd.parents edges s (D @ v # q @ new) T' prev'"
    using bfs_edges_frontier [OF assms(2), of edges s D v q 0 T] by auto
  show "w \<in> set (D @ [v])" if "q @ new = []" "fwd.wend edges s is = Some w"
    using fwd.frontier_done [of edges s D v T' "is" w] f(1) that by simp
  show "search_state edges s (D @ [v]) (q @ new) seen' prev'" if "q @ new \<noteq> []"
  proof -
    from that obtain v' rest where "q @ new = v' # rest" by (cases "q @ new") auto
    with f fwd.frontier_next [of edges s D v v' rest T'] show ?thesis
      by (auto simp: search_state_def)
  qed
qed

lemma bfs_loop_result:
  assumes "bfs_loop cancelled (fst (Indexes edges)) fin Q seen prev b = (ex, prev', b')"
    and "search_state edges s D Q seen prev" and "fin \<notin> set D"
  shows "case ex of
      BudgetStop \<Rightarrow> BudgetReason b' \<noteq> ''''
    | FoundEnd \<Rightarrow> BudgetReason b' = BudgetReason b \<and> (\<exists>D' q seen'. search_state edges s D' (fin # q) seen' prev')
    | QueueEmpty \<Rightarrow> BudgetReason b' = BudgetReason b \<and> (\<nexists>is. fwd.wend edges s is = Some fin)"
  using assms
proof (induction cancelled "fst (Indexes edges)" fin Q seen prev b arbitrary: D rule: bfs_loop.induct)
  case (1 cancelled fin seen prev b)
  then show ?case by (simp add: search_state_def)
next
  case (2 cancelled fin v q seen prev b)
  obtain ok b1 where t: "Tick cancelled b = (ok, b1)" by fastforce
  obtain ok2 seen2 prev2 new b2 where
    e: "bfs_edges cancelled (fst (Indexes edges) v) seen prev [] b1 = (ok2, seen2, prev2, new, b2)"
    by (metis prod_cases5)
  note run = "2.prems"(1) [unfolded bfs_loop.simps(2) [of cancelled "fst (Indexes edges)" fin v q seen prev b] t e
      prod.case]
  consider (stop) "\<not> ok" | (found) "ok" "v = fin" | (stop2) "ok" "v \<noteq> fin" "\<not> ok2"
    | (last) "ok" "v \<noteq> fin" "ok2" "q @ new = []" | (go) "ok" "v \<noteq> fin" "ok2" "q @ new \<noteq> []"
    by blast
  then show ?case
  proof cases
    case stop
    with run t Tick_stop show ?thesis by auto
  next
    case found
    with run t "2.prems"(2) Tick_reason show ?thesis by auto
  next
    case stop2
    with run e bfs_edges_stop show ?thesis by auto
  next
    case last
    have "fin \<notin> set (D @ [v])" using last "2.prems"(3) by simp
    moreover have "bfs_edges cancelled (fst (Indexes edges) v) seen prev [] b1 = (True, seen2, prev2, new, b2)"
      using e last by simp
    ultimately have "\<nexists>is. fwd.wend edges s is = Some fin"
      using search_state_step(1) [OF "2.prems"(2)] last(4) by blast
    moreover have "BudgetReason b2 = BudgetReason b"
      using t e last Tick_reason bfs_edges_reason by metis
    ultimately show ?thesis using run last by auto
  next
    case go
    have "bfs_edges cancelled (fst (Indexes edges) v) seen prev [] b1 = (True, seen2, prev2, new, b2)"
      using e go by simp
    then have "search_state edges s (D @ [v]) (q @ new) seen2 prev2"
      using search_state_step(2) [OF "2.prems"(2)] go(4) by blast
    moreover have "fin \<notin> set (D @ [v])" using go "2.prems"(3) by simp
    moreover have "BudgetReason b2 = BudgetReason b"
      using t e go Tick_reason bfs_edges_reason by metis
    moreover have "bfs_loop cancelled (fst (Indexes edges)) fin (q @ new) seen2 prev2 b2 = (ex, prev', b')"
      using run go by auto
    ultimately show ?thesis
      using "2.hyps" [OF t [symmetric] _ go(2) e [symmetric] refl refl refl] go by metis
  qed
qed

text \<open>Reconstruction follows the predecessor map back along the discovering walk, and ends.\<close>

lemma trace_back_parents:
  assumes "fwd.parents edges s Q T prev" and "\<forall>x \<in> set Q. fwd.wend edges s (T x) = Some x"
    and "x \<in> set Q"
  shows "trace_back prev s x (x # ns) es =
    Some (fwd.wnodes edges s (T x) @ ns, fwd.wedges edges s (T x) @ es)"
  using assms(3)
proof (induction "length (T x)" arbitrary: x ns es rule: less_induct)
  case less
  show ?case
  proof (cases "x = s")
    case True
    with assms(1) show ?thesis by (subst trace_back.simps) (simp add: fwd.parents_def)
  next
    case False
    with assms(1) less.prems obtain u j where u: "u \<in> set Q" "j < length (fst (Indexes edges) u)"
        "T x = T u @ [j]" "prev x = Some (fst (Indexes edges) u ! j)"
      unfolding fwd.parents_def by blast
    let ?e = "fst (Indexes edges) u ! j"
    have "fwd.wend edges s (T u) = Some u" "fwd.wend edges s (T u @ [j]) = Some x"
      using assms(2) u less.prems by metis+
    then have e: "Callee ?e = x" "fwd.wnodes edges s (T x) = fwd.wnodes edges s (T u) @ [x]"
        "fwd.wedges edges s (T x) = fwd.wedges edges s (T u) @ [?e]"
      using u(2,3) by (auto simp: fwd.wend_append fwd.wnodes_snoc fwd.wedges_snoc split: if_splits)
    have "Caller ?e = u" by (rule fwd.src_out [OF nth_mem [OF u(2)]])
    then have "trace_back prev s x (x # ns) es = trace_back prev s u (u # x # ns) (?e # es)"
      using False u(4) by (subst trace_back.simps) simp
    also have "\<dots> = Some (fwd.wnodes edges s (T u) @ x # ns, fwd.wedges edges s (T u) @ ?e # es)"
      by (rule less.hyps) (use u in simp_all)
    finally show ?thesis using e by simp
  qed
qed

lemma search_state_trace:
  assumes "search_state edges s D (fin # q) seen prev"
  shows "\<exists>is. fwd.least edges s is fin \<and> trace_back prev s fin [fin] [] =
    Some (fwd.wnodes edges s is, fwd.wedges edges s is)"
proof -
  from assms obtain T where f: "fwd.frontier edges s D fin q 0 T"
    and p: "fwd.parents edges s (D @ fin # q) T prev"
    by (auto simp: search_state_def)
  have walks: "\<forall>x \<in> set (D @ fin # q). fwd.wend edges s (T x) = Some x"
    using fwd.frontier_walk [OF f] by blast
  then have "fwd.least edges s (T fin) fin"
    using fwd.frontier_least [OF f] by (auto simp: fwd.least_def)
  with trace_back_parents [OF p walks, of fin "[]" "[]"] show ?thesis by auto
qed

lemma shortest_result:
  assumes "BudgetReason b = ''''"
  shows "\<exists>r b'. shortest cancelled e (fst (Indexes edges)) s fin b = Some (r, b') \<and>
    (BudgetReason b' \<noteq> '''' \<and> r = e
     \<or> BudgetReason b' = '''' \<and> Status r = ''NOT_FOUND_IN_RETAINED_GRAPH'' \<and> ResultPath r = ResultPath e \<and>
       Reason r = Reason e \<and> (\<nexists>is. fwd.wend edges s is = Some fin)
     \<or> BudgetReason b' = '''' \<and> Status r = ''FOUND'' \<and> Reason r = Reason e \<and>
       (\<exists>is. fwd.least edges s is fin \<and> ResultPath r = path_of s (fwd.wedges edges s is)))"
proof -
  obtain ex prev b' where run: "bfs_loop cancelled (fst (Indexes edges)) fin [s]
      ((\<lambda>_. False)(s := True)) Map.empty b = (ex, prev, b')"
    by (metis prod_cases3)
  note res = bfs_loop_result [OF run search_state_init, simplified]
  show ?thesis
  proof (cases ex)
    case BudgetStop
    with run res show ?thesis by (simp add: shortest_def)
  next
    case QueueEmpty
    with run res assms show ?thesis by (simp add: shortest_def)
  next
    case FoundEnd
    with res obtain D q seen where "search_state edges s D (fin # q) seen prev" by auto
    from search_state_trace [OF this] obtain "is" where i: "fwd.least edges s is fin"
      "trace_back prev s fin [fin] [] = Some (fwd.wnodes edges s is, fwd.wedges edges s is)" by blast
    with FoundEnd run res assms show ?thesis
      by (auto simp: shortest_def path_of_def fwd.wnodes_wedges)
  qed
qed

text \<open>Every answer of the search, by its status.\<close>

definition search_answer :: "Edge list \<Rightarrow> string \<Rightarrow> string \<Rightarrow> Result \<Rightarrow> bool" where
  "search_answer edges s fin r \<longleftrightarrow>
     (Status r = ''INCOMPLETE'' \<and> Reason r \<noteq> '''' \<and> ResultPath r = emptyPath
      \<or> Status r = ''NOT_FOUND_IN_RETAINED_GRAPH'' \<and> Reason r = '''' \<and> ResultPath r = emptyPath \<and>
        (\<nexists>is. fwd.wend edges s is = Some fin)
      \<or> Status r = ''FOUND'' \<and> Reason r = '''' \<and>
        (\<exists>is. fwd.least edges s is fin \<and> ResultPath r = path_of s (fwd.wedges edges s is)))"

lemma Search_answer:
  assumes "start \<in> set nodes" and "fin \<in> set nodes"
  shows "\<exists>r b'. Search cancelled nodes edges start fin b = Some (Inr (r, b')) \<and>
    search_answer edges start fin r \<and> (Status r = ''INCOMPLETE'' \<longleftrightarrow> BudgetReason b' \<noteq> '''')"
proof -
  define b1 where "b1 = b\<lparr>Polls := Suc (Polls b),
    BudgetReason := (if cancelled (Polls b) then ''CANCELLED'' else BudgetReason b)\<rparr>"
  let ?e = "\<lparr>Status = ''COMPLETE'', Reason = '''', ResultPath = emptyPath\<rparr>"
  show ?thesis
  proof (cases "BudgetReason b1 = ''''")
    case False
    with assms show ?thesis
      by (simp add: Search_def Let_def b1_def [symmetric] search_answer_def)
  next
    case True
    from shortest_result [OF True, of cancelled ?e edges start fin] obtain r b' where
      sh: "shortest cancelled ?e (fst (Indexes edges)) start fin b1 = Some (r, b')" and
      alt: "BudgetReason b' \<noteq> '''' \<and> r = ?e
     \<or> BudgetReason b' = '''' \<and> Status r = ''NOT_FOUND_IN_RETAINED_GRAPH'' \<and> ResultPath r = emptyPath \<and>
       Reason r = '''' \<and> (\<nexists>is. fwd.wend edges start is = Some fin)
     \<or> BudgetReason b' = '''' \<and> Status r = ''FOUND'' \<and> Reason r = '''' \<and>
       (\<exists>is. fwd.least edges start is fin \<and> ResultPath r = path_of start (fwd.wedges edges start is))"
      by auto
    have run: "Search cancelled nodes edges start fin b = Some (Inr
        (if BudgetReason b' \<noteq> ''''
         then (r\<lparr>Status := ''INCOMPLETE'', Reason := BudgetReason b', ResultPath := emptyPath\<rparr>, b') else (r, b')))"
      using assms True sh by (simp add: Search_def Let_def b1_def [symmetric])
    from alt show ?thesis unfolding run
      by (elim disjE conjE) (auto simp: search_answer_def)
  qed
qed

text \<open>Work: every node is dequeued once and every edge scanned once.\<close>

lemma bfs_edges_budget:
  "\<forall>n. \<not> cancelled n \<Longrightarrow> int (length es) \<le> Left b \<Longrightarrow>
     \<exists>seen' prev' new' b'. bfs_edges cancelled es seen prev new b = (True, seen', prev', new', b') \<and>
       Left b' = Left b - int (length es)"
proof (induction es arbitrary: seen prev new b)
  case (Cons e es)
  define b1 where "b1 = b\<lparr>Polls := Suc (Polls b), Left := Left b - 1\<rparr>"
  have t: "Tick cancelled b = (True, b1)" using Cons.prems by (simp add: Tick_ok b1_def)
  have l: "int (length es) \<le> Left b1" "Left b1 = Left b - 1" using Cons.prems by (simp_all add: b1_def)
  show ?case using Cons.IH [OF Cons.prems(1) l(1)] t l(2) by (cases "seen (Callee e)") force+
qed simp

lemma sum_filter_le:
  "distinct D \<Longrightarrow> (\<Sum>x\<leftarrow>D. length (filter (\<lambda>e. f e = x) es)) \<le> length es"
proof (induction es)
  case (Cons e es)
  have "(\<Sum>x\<leftarrow>D. length (filter (\<lambda>e. f e = x) (e # es)))
      = (\<Sum>x\<leftarrow>D. length (filter (\<lambda>e. f e = x) es)) + (\<Sum>x\<leftarrow>D. if x = f e then 1 else 0)"
    by (simp add: sum_list_addf [symmetric] if_distrib eq_commute cong: if_cong)
  also have "(\<Sum>x\<leftarrow>D. if x = f e then 1 else 0) = (if f e \<in> set D then 1 else (0 :: nat))"
    using Cons.prems by (induction D) auto
  finally show ?case using Cons by auto
qed simp

definition work :: "Edge list \<Rightarrow> string list \<Rightarrow> nat" where
  "work edges D = (\<Sum>x\<leftarrow>D. Suc (length (fst (Indexes edges) x)))"

lemma work_snoc: "work edges (D @ [v]) = work edges D + Suc (length (fst (Indexes edges) v))"
  by (simp add: work_def)

lemma search_state_work:
  assumes "search_state edges s D (v # q) seen prev"
  shows "work edges (D @ [v]) \<le> 1 + 2 * length edges"
proof -
  from assms obtain T where f: "fwd.frontier edges s D v q 0 T"
    and p: "fwd.parents edges s (D @ v # q) T prev"
    by (auto simp: search_state_def)
  have d: "distinct (D @ [v])" using fwd.frontier_distinct [OF f] by simp
  have "x = s \<or> x \<in> Callee ` set edges" if "x \<in> set (D @ [v])" for x
  proof (cases "x = s")
    case False
    with p that obtain u j where "u \<in> set (D @ v # q)" "j < length (fst (Indexes edges) u)" "T x = T u @ [j]"
      unfolding fwd.parents_def by (metis UnCI set_append list.set_intros set_ConsD empty_iff list.set(1) append_Cons append_Nil Un_iff)
    moreover from this have "fwd.wend edges s (T u) = Some u" "fwd.wend edges s (T x) = Some x"
      using fwd.frontier_walk [OF f, of u] fwd.frontier_walk [OF f, of x] that by auto
    ultimately have "Callee (fst (Indexes edges) u ! j) = x" by (simp add: fwd.wend_append split: if_splits)
    moreover have "fst (Indexes edges) u ! j \<in> set edges"
      using nth_mem [OF \<open>j < _\<close>] by simp
    ultimately show ?thesis by blast
  qed simp
  then have "card (set (D @ [v])) \<le> card (insert s (Callee ` set edges))"
    by (intro card_mono) auto
  also have "\<dots> \<le> Suc (length edges)"
    using card_image_le [of "set edges" Callee] card_length [of edges] by (simp add: card_insert_if)
  finally have "length (D @ [v]) \<le> Suc (length edges)" using distinct_card [OF d] by simp
  moreover have "(\<Sum>x\<leftarrow>D @ [v]. length (fst (Indexes edges) x)) \<le> length edges"
    using sum_filter_le [OF d, of Caller edges] by (simp add: Indexes_out)
  moreover have "work edges (D @ [v]) = length (D @ [v]) + (\<Sum>x\<leftarrow>D @ [v]. length (fst (Indexes edges) x))"
    unfolding work_def by (induction "D @ [v]") (simp_all add: sum_list_Suc)
  ultimately show ?thesis by simp
qed

lemma bfs_loop_budget:
  assumes "bfs_loop cancelled (fst (Indexes edges)) fin Q seen prev b = (ex, prev', b')"
    and "search_state edges s D Q seen prev" and "\<forall>n. \<not> cancelled n"
    and "1 + 2 * int (length edges) \<le> Left b + int (work edges D)"
  shows "ex \<noteq> BudgetStop"
  using assms
proof (induction cancelled "fst (Indexes edges)" fin Q seen prev b arbitrary: D rule: bfs_loop.induct)
  case (2 cancelled fin v q seen prev b)
  let ?out = "fst (Indexes edges) v"
  from search_state_work [OF "2.prems"(2)] "2.prems"(4)
  have left: "1 + int (length ?out) \<le> Left b" by (simp add: work_snoc)
  define b1 where "b1 = b\<lparr>Polls := Suc (Polls b), Left := Left b - 1\<rparr>"
  have t: "Tick cancelled b = (True, b1)" using "2.prems"(3) left by (simp add: Tick_ok b1_def)
  have "int (length ?out) \<le> Left b1" using left by (simp add: b1_def)
  from bfs_edges_budget [OF "2.prems"(3) this] obtain seen2 prev2 new b2 where
    e: "bfs_edges cancelled ?out seen prev [] b1 = (True, seen2, prev2, new, b2)"
    and l2: "Left b2 = Left b1 - int (length ?out)" by blast
  note run = "2.prems"(1) [unfolded bfs_loop.simps(2) [of cancelled "fst (Indexes edges)" fin v q seen prev b] t e
      prod.case]
  show ?case
  proof (cases "v = fin \<or> q @ new = []")
    case True
    with run show ?thesis by (auto split: if_splits)
  next
    case False
    then have "search_state edges s (D @ [v]) (q @ new) seen2 prev2"
      using search_state_step(2) [OF "2.prems"(2) e] by blast
    moreover have "1 + 2 * int (length edges) \<le> Left b2 + int (work edges (D @ [v]))"
      using "2.prems"(4) l2 by (simp add: work_snoc b1_def)
    ultimately show ?thesis
      using "2.hyps" [OF t [symmetric] _ _ e [symmetric] refl refl refl] run False "2.prems"(3) by auto
  qed
qed simp

lemma shortest_budget:
  "bfs_loop cancelled out fin [s] ((\<lambda>_. False)(s := True)) Map.empty b = (ex, prev, b2) \<Longrightarrow>
     shortest cancelled e out s fin b = Some (r, b') \<Longrightarrow> b' = b2"
  by (cases ex) (auto simp: shortest_def split: option.splits)

lemma Search_no_stop:
  assumes "start \<in> set nodes" and "fin \<in> set nodes" and "\<forall>n. \<not> cancelled n"
    and "BudgetReason b = ''''" and "1 + 2 * int (length edges) \<le> Left b"
    and "Search cancelled nodes edges start fin b = Some (Inr (r, b'))"
  shows "BudgetReason b' = ''''"
proof -
  define b1 where "b1 = b\<lparr>Polls := Suc (Polls b), BudgetReason := ''''\<rparr>"
  let ?e = "\<lparr>Status = ''COMPLETE'', Reason = '''', ResultPath = emptyPath\<rparr>"
  obtain ex prev b2 where run: "bfs_loop cancelled (fst (Indexes edges)) fin [start]
      ((\<lambda>_. False)(start := True)) Map.empty b1 = (ex, prev, b2)"
    by (metis prod_cases3)
  have b1: "BudgetReason b1 = ''''" by (simp add: b1_def)
  have "ex \<noteq> BudgetStop"
    by (rule bfs_loop_budget [OF run search_state_init assms(3)]) (use assms(5) in \<open>simp add: b1_def work_def\<close>)
  then have b2: "BudgetReason b2 = ''''"
    using bfs_loop_result [OF run search_state_init] b1 by (cases ex) auto
  obtain r' where "shortest cancelled ?e (fst (Indexes edges)) start fin b1 = Some (r', b2)"
    using shortest_result [OF b1, of cancelled ?e edges start fin] shortest_budget [OF run, of ?e] by blast
  moreover have "b\<lparr>Polls := Suc (Polls b), BudgetReason := BudgetReason b\<rparr> = b1"
    using assms(4) by (simp add: b1_def)
  ultimately have "Search cancelled nodes edges start fin b = Some (Inr (r', b2))"
    using assms(1-4) b1 b2 by (simp add: Search_def)
  with assms(6) b2 show ?thesis by simp
qed

section \<open>The reverse-distance check\<close>

lemma dist_edges_frontier:
  assumes "dist_edges es (length (T v)) dist new = (dist', new')"
    and "bwd.frontier edges s D v (q @ new) k T" and "es = drop k (snd (Indexes edges) v)"
    and "\<forall>x. dist x = (if x \<in> set (D @ v # q @ new) then Some (length (T x)) else None)"
  shows "\<exists>T'. bwd.frontier edges s D v (q @ new') (length (snd (Indexes edges) v)) T' \<and>
           (\<forall>x. dist' x = (if x \<in> set (D @ v # q @ new') then Some (length (T' x)) else None))"
  using assms
proof (induction es arbitrary: dist new k T)
  case Nil
  then have "k = length (snd (Indexes edges) v)" by (simp add: bwd.frontier_def)
  with Nil show ?case by auto
next
  case (Cons e es)
  let ?inn = "snd (Indexes edges) v"
  have k: "k < length ?inn" using Cons.prems(3) by (metis drop_all list.distinct(1) not_le)
  with Cons.prems(3) have e: "e = ?inn ! k" "es = drop (Suc k) ?inn"
    by (simp_all add: Cons_nth_drop_Suc [symmetric])
  show ?case
  proof (cases "dist (Caller e) = None")
    case False
    then have "bwd.frontier edges s D v (q @ new) (Suc k) T"
      using bwd.frontier_seen [OF Cons.prems(2) k refl] Cons.prems(4) e by (metis (full_types))
    moreover have "dist_edges es (length (T v)) dist new = (dist', new')"
      using Cons.prems(1) False by simp
    ultimately show ?thesis using Cons.IH Cons.prems(4) e(2) by blast
  next
    case True
    let ?T = "T(Caller e := T v @ [k])" and ?dist = "dist(Caller e \<mapsto> length (T v) + 1)"
    have n: "Caller e \<notin> set (D @ v # q @ new)" using True Cons.prems(4) by (metis option.distinct(1))
    then have v: "?T v = T v" by auto
    have "bwd.frontier edges s D v (q @ (new @ [Caller e])) (Suc k) ?T"
      using bwd.frontier_new [OF Cons.prems(2) k refl] n e by simp
    moreover have "dist_edges es (length (?T v)) ?dist (new @ [Caller e]) = (dist', new')"
      using Cons.prems(1) True v by simp
    moreover have "\<forall>x. ?dist x = (if x \<in> set (D @ v # q @ (new @ [Caller e])) then Some (length (?T x)) else None)"
      using Cons.prems(4) n by auto
    ultimately show ?thesis using Cons.IH e(2) by blast
  qed
qed

text \<open>\<open>dist\<close> holds exactly the nodes with a walk to the end, with the length of a shortest one.\<close>

definition dist_ok :: "Edge list \<Rightarrow> string \<Rightarrow> (string \<rightharpoonup> nat) \<Rightarrow> bool" where
  "dist_ok edges fin dist \<longleftrightarrow> (\<forall>u n. dist u = Some n \<longleftrightarrow>
     (\<exists>es. edge_path edges u es fin \<and> length es = n \<and>
        (\<forall>es'. edge_path edges u es' fin \<longrightarrow> n \<le> length es')))"

lemma frontier_dist_ok:
  assumes f: "bwd.frontier edges fin D v [] (length (snd (Indexes edges) v)) T"
    and d: "\<forall>x. dist x = (if x \<in> set (D @ [v]) then Some (length (T x)) else None)"
  shows "dist_ok edges fin dist"
proof -
  have reach: "u \<in> set (D @ [v]) \<and> length (T u) \<le> length es" if "edge_path edges u es fin" for u es
    using edge_path_bwd [OF that] bwd.frontier_done [OF f] key_length by metis
  have walk: "edge_path edges u (rev (bwd.wedges edges fin (T u))) fin" if "u \<in> set (D @ [v])" for u
    using bwd_edge_path [OF bwd.frontier_walk [OF f that]] .
  show ?thesis
    unfolding dist_ok_def
  proof (intro allI iffI)
    fix u n
    assume "dist u = Some n"
    with d have u: "u \<in> set (D @ [v])" "n = length (T u)" by (auto split: if_splits)
    with walk reach show "\<exists>es. edge_path edges u es fin \<and> length es = n \<and>
        (\<forall>es'. edge_path edges u es' fin \<longrightarrow> n \<le> length es')"
      by (intro exI [of _ "rev (bwd.wedges edges fin (T u))"]) auto
  next
    fix u n
    assume "\<exists>es. edge_path edges u es fin \<and> length es = n \<and>
        (\<forall>es'. edge_path edges u es' fin \<longrightarrow> n \<le> length es')"
    then obtain es where es: "edge_path edges u es fin" "length es = n"
      and min: "\<And>es'. edge_path edges u es' fin \<Longrightarrow> n \<le> length es'" by blast
    have "n = length (T u)"
      using reach [OF es(1)] min [OF walk] es(2) by force
    with reach [OF es(1)] d show "dist u = Some n" by simp
  qed
qed

lemma dist_loop_ok:
  assumes "bwd.frontier edges fin D v q 0 T"
    and "\<forall>x. dist x = (if x \<in> set (D @ v # q) then Some (length (T x)) else None)"
  shows "dist_ok edges fin (dist_loop edges (v # q) dist)"
  using assms
proof (induction edges "v # q" dist arbitrary: D v q T rule: dist_loop.induct)
  case (2 edges v q dist)
  obtain dist' new where e: "dist_edges (snd (Indexes edges) v) (the (dist v)) dist [] = (dist', new)"
    by fastforce
  have "the (dist v) = length (T v)" using "2.prems"(2) by simp
  with e "2.prems" obtain T' where f: "bwd.frontier edges fin D v (q @ new) (length (snd (Indexes edges) v)) T'"
      and d: "\<forall>x. dist' x = (if x \<in> set (D @ v # q @ new) then Some (length (T' x)) else None)"
    using dist_edges_frontier [of "snd (Indexes edges) v" T v dist "[]" dist' new edges fin D q 0] by auto
  have step: "dist_loop edges (v # q) dist = dist_loop edges (q @ new) dist'"
    by (simp add: dist_loop.simps(2) [of edges v q dist] e)
  show ?case
  proof (cases "q @ new")
    case Nil
    with f d show ?thesis unfolding step by (auto intro: frontier_dist_ok)
  next
    case (Cons v' rest)
    with f have "bwd.frontier edges fin (D @ [v]) v' rest 0 T'" using bwd.frontier_next by simp
    with "2.hyps" [OF e [symmetric] refl Cons] d Cons show ?thesis unfolding step by simp
  qed
qed

lemma Prove_dist_ok: "dist_ok edges fin (dist_loop edges [fin] [fin \<mapsto> 0])"
  by (rule dist_loop_ok [OF bwd.frontier_init]) auto

lemma dist_ok_fwd:
  assumes "dist_ok edges fin dist"
  shows "dist u = Some n \<longleftrightarrow> (\<exists>is. fwd.least edges u is fin \<and> length is = n)"
proof
  assume "dist u = Some n"
  with assms obtain es where es: "edge_path edges u es fin" "length es = n"
      "\<And>es'. edge_path edges u es' fin \<Longrightarrow> n \<le> length es'"
    unfolding dist_ok_def by blast
  from edge_path_fwd [OF es(1)] obtain js where js: "fwd.wend edges u js = Some fin" "length js = n"
    using es(2) by (metis fwd.length_wedges)
  from fwd.least_exists [OF js(1)] obtain "is" where i: "fwd.least edges u is fin" by blast
  have "n \<le> length is"
    using es(3) [OF fwd_edge_path [OF fwd.least_wend [OF i]]] by simp
  moreover have "length is \<le> n" using fwd.least_length [OF i js(1)] js(2) by simp
  ultimately show "\<exists>is. fwd.least edges u is fin \<and> length is = n" using i by auto
next
  assume "\<exists>is. fwd.least edges u is fin \<and> length is = n"
  then obtain "is" where i: "fwd.least edges u is fin" "length is = n" by blast
  have "n \<le> length es'" if p: "edge_path edges u es' fin" for es'
    using edge_path_fwd [OF p] fwd.least_length [OF i(1)] i(2) by (metis fwd.length_wedges)
  moreover have "edge_path edges u (fwd.wedges edges u is) fin" by (rule fwd_edge_path [OF fwd.least_wend [OF i(1)]])
  ultimately show "dist u = Some n" using assms i(2) unfolding dist_ok_def by (metis fwd.length_wedges)
qed

lemma first_lowering_nth:
  "i < length es \<Longrightarrow> dist (Callee (es ! i)) = Some d \<Longrightarrow> (\<And>j. j < i \<Longrightarrow> dist (Callee (es ! j)) \<noteq> Some d) \<Longrightarrow>
     first_lowering dist d es = Some (es ! i)"
proof (induction es arbitrary: i)
  case (Cons e es)
  show ?case
  proof (cases i)
    case (Suc i')
    have "first_lowering dist d es = Some (es ! i')"
    proof (rule Cons.IH)
      show "i' < length es" "dist (Callee (es ! i')) = Some d" using Cons.prems Suc by auto
      show "dist (Callee (es ! j)) \<noteq> Some d" if "j < i'" for j
        using Cons.prems(3) [of "Suc j"] Suc that by simp
    qed
    with Cons.prems(3) [of 0] Suc show ?thesis by simp
  qed (use Cons.prems in simp)
qed simp

text \<open>The first edge that lowers the distance is the first edge of the shortlex-least walk.\<close>

lemma least_first_lowering:
  assumes ok: "dist_ok edges fin dist" and l: "fwd.least edges u (i # is) fin"
  shows "first_lowering dist (length is) (fst (Indexes edges) u) = Some (fst (Indexes edges) u ! i)"
proof (rule first_lowering_nth)
  show "i < length (fst (Indexes edges) u)" by (rule fwd.least_tail(2) [OF l])
  show "dist (Callee (fst (Indexes edges) u ! i)) = Some (length is)"
    using dist_ok_fwd [OF ok] fwd.least_tail(1) [OF l] by blast
  show "dist (Callee (fst (Indexes edges) u ! j)) \<noteq> Some (length is)" if j: "j < i" for j
  proof
    assume "dist (Callee (fst (Indexes edges) u ! j)) = Some (length is)"
    then obtain js where js: "fwd.wend edges (Callee (fst (Indexes edges) u ! j)) js = Some fin" "length js = length is"
      using dist_ok_fwd [OF ok] fwd.least_wend by blast
    have "fwd.wend edges u (j # js) = Some fin"
      using js(1) j fwd.least_tail(2) [OF l] by simp
    with l have "key (i # is) \<le> key (j # js)" unfolding fwd.least_def by blast
    with j js(2) show False by (auto simp: key_def)
  qed
qed

lemma prove_steps_iff:
  assumes "dist_ok edges fin dist"
  shows "fwd.least edges u is fin \<Longrightarrow> length nodes = Suc (length is) \<Longrightarrow> length groups = length is \<Longrightarrow>
    length occs = length is \<Longrightarrow>
    prove_steps (fst (Indexes edges)) dist (length is) u nodes groups occs = Inr w \<longleftrightarrow>
      w = fin \<and> butlast nodes = butlast (fwd.wnodes edges u is) \<and>
      groups = map GroupID (fwd.wedges edges u is) \<and>
      map json_strings occs = map (json_strings \<circ> EdgeOccurrenceIDs) (fwd.wedges edges u is)"
proof (induction "is" arbitrary: u nodes groups occs)
  case Nil
  then have "u = fin" by (simp add: fwd.least_def)
  with Nil show ?case by (auto simp: length_Suc_conv)
next
  case (Cons i "is")
  let ?e = "fst (Indexes edges) u ! i"
  obtain n ns where n: "nodes = n # ns" "ns \<noteq> []" using Cons.prems(2) by (cases nodes; cases "tl nodes") auto
  obtain g gs where g: "groups = g # gs" using Cons.prems(3) by (cases groups) auto
  obtain x xs where x: "occs = x # xs" using Cons.prems(4) by (cases occs) auto
  have "fwd.wnodes edges (Callee ?e) is \<noteq> []" by (cases "is") auto
  moreover note Cons.IH [OF fwd.least_tail(1) [OF Cons.prems(1)], of ns gs xs]
  ultimately show ?case
    using Cons.prems(2-4) n g x least_first_lowering [OF assms Cons.prems(1)] by auto
qed

lemma snoc_iff:
  assumes "ys = butlast ys @ [z]" and "length ys = Suc n"
  shows "length xs = Suc n \<and> xs ! n = z \<and> butlast xs = butlast ys \<longleftrightarrow> xs = ys"
proof
  assume a: "length xs = Suc n \<and> xs ! n = z \<and> butlast xs = butlast ys"
  then have "xs \<noteq> []" by auto
  then have "xs = butlast xs @ [last xs]" by simp
  moreover have "last xs = z" using a by (cases xs rule: rev_cases) (auto simp: nth_append)
  ultimately show "xs = ys" using a assms(1) by simp
next
  assume "xs = ys"
  moreover have "ys ! n = z" using assms by (metis diff_Suc_1 length_butlast nth_append_length)
  ultimately show "length xs = Suc n \<and> xs ! n = z \<and> butlast xs = butlast ys" using assms by simp
qed

lemma Prove_iff: "Prove edges start fin status path = Inr () \<longleftrightarrow>
    (status = ''NOT_FOUND_IN_RETAINED_GRAPH'' \<and> (\<nexists>is. fwd.least edges start is fin))
  \<or> (status = ''FOUND'' \<and> (\<exists>is. fwd.least edges start is fin \<and> Nodes path = fwd.wnodes edges start is \<and>
       GroupIDs path = map GroupID (fwd.wedges edges start is) \<and>
       map json_strings (OccurrenceIDs path) = map (json_strings \<circ> EdgeOccurrenceIDs) (fwd.wedges edges start is)))"
  (is "?L \<longleftrightarrow> ?N \<or> ?F")
proof (cases "dist_loop edges [fin] [fin \<mapsto> 0] start")
  case None
  then have "\<nexists>is. fwd.least edges start is fin"
    using dist_ok_fwd [OF Prove_dist_ok, of edges fin start] by (metis option.distinct(1))
  with None show ?thesis by (simp add: Prove_def)
next
  case (Some n)
  then obtain "is" where l: "fwd.least edges start is fin" "length is = n"
    using dist_ok_fwd [OF Prove_dist_ok] by blast
  have unique: "js = is" if "fwd.least edges start js fin" for js
    using that l(1) unfolding fwd.least_def by (metis antisym key_eq)
  have last: "fwd.wnodes edges start is = butlast (fwd.wnodes edges start is) @ [fin]"
    using fwd.wnodes_last [OF fwd.least_wend [OF l(1)]]
    by (metis append_butlast_last_id fwd.wnodes_wedges list.distinct(1))
  have len: "length (fwd.wnodes edges start is) = Suc n" by (simp add: fwd.wnodes_wedges l(2))
  have "?L \<longleftrightarrow> status = ''FOUND'' \<and> length (Nodes path) = Suc n \<and> length (GroupIDs path) = n \<and>
      length (OccurrenceIDs path) = n \<and> Nodes path ! n = fin \<and>
      prove_steps (fst (Indexes edges)) (dist_loop edges [fin] [fin \<mapsto> 0]) n start
        (Nodes path) (GroupIDs path) (OccurrenceIDs path) = Inr fin"
    using Some by (auto simp: Prove_def Let_def split: sum.splits)
  also have "\<dots> \<longleftrightarrow> status = ''FOUND'' \<and> length (Nodes path) = Suc n \<and> Nodes path ! n = fin \<and>
      butlast (Nodes path) = butlast (fwd.wnodes edges start is) \<and>
      GroupIDs path = map GroupID (fwd.wedges edges start is) \<and>
      map json_strings (OccurrenceIDs path) = map (json_strings \<circ> EdgeOccurrenceIDs) (fwd.wedges edges start is)"
    using prove_steps_iff [OF Prove_dist_ok l(1), of "Nodes path" "GroupIDs path" "OccurrenceIDs path" fin]
      l(2) by (metis fwd.length_wedges length_map)
  also have "\<dots> \<longleftrightarrow> status = ''FOUND'' \<and> Nodes path = fwd.wnodes edges start is \<and>
      GroupIDs path = map GroupID (fwd.wedges edges start is) \<and>
      map json_strings (OccurrenceIDs path) = map (json_strings \<circ> EdgeOccurrenceIDs) (fwd.wedges edges start is)"
    using snoc_iff [OF last len, of "Nodes path"] by blast
  finally have L: "?L \<longleftrightarrow> status = ''FOUND'' \<and> Nodes path = fwd.wnodes edges start is \<and>
      GroupIDs path = map GroupID (fwd.wedges edges start is) \<and>
      map json_strings (OccurrenceIDs path) = map (json_strings \<circ> EdgeOccurrenceIDs) (fwd.wedges edges start is)" .
  have "?F \<longleftrightarrow> ?L" unfolding L using l(1) unique by metis
  with l(1) show ?thesis by blast
qed

lemma search_answer_accepted:
  "search_answer edges start fin r \<Longrightarrow> Status r \<noteq> ''INCOMPLETE'' \<Longrightarrow> Prove edges start fin (Status r) (ResultPath r) = Inr ()"
  unfolding search_answer_def Prove_iff
  by (auto simp: path_of_def fwd.wnodes_wedges dest: fwd.least_wend)

section \<open>Properties\<close>

text \<open>
  C29: on known endpoints \<open>Search\<close> always returns. \<open>FOUND\<close> comes with the nodes, groups and witnesses of
  a path of retained edges that is shortest in hops and, among the shortest, lexically first by
  (callee, group) at every hop; \<open>NOT_FOUND_IN_RETAINED_GRAPH\<close> means that no path of any length exists;
  and an interrupted search (\<open>INCOMPLETE\<close>) gives its reason and publishes no path.
\<close>

theorem Search_correct:
  assumes "start \<in> set nodes" and "fin \<in> set nodes"
  shows "\<exists>r b'. Search cancelled nodes edges start fin b = Some (Inr (r, b')) \<and>
    (Status r = ''FOUND'' \<and> Reason r = '''' \<and>
       (\<exists>es. best_path edges start es fin \<and> ResultPath r = path_of start es)
     \<or> Status r = ''NOT_FOUND_IN_RETAINED_GRAPH'' \<and> Reason r = '''' \<and> ResultPath r = emptyPath \<and>
       (\<nexists>es. edge_path edges start es fin)
     \<or> Status r = ''INCOMPLETE'' \<and> Reason r \<noteq> '''' \<and> ResultPath r = emptyPath)"
proof -
  obtain r b' where run: "Search cancelled nodes edges start fin b = Some (Inr (r, b'))"
    and a: "search_answer edges start fin r"
    using Search_answer [OF assms] by blast
  have "(\<nexists>is. fwd.wend edges start is = Some fin) \<Longrightarrow> (\<nexists>es. edge_path edges start es fin)"
    using edge_path_fwd by blast
  with a least_best run show ?thesis unfolding search_answer_def by blast
qed

text \<open>A diamond with two equally short routes, used as the concrete instance of the properties.\<close>

definition sample_edge :: "string \<Rightarrow> string \<Rightarrow> string \<Rightarrow> Edge" where
  "sample_edge g u v = zero_edge\<lparr>GroupID := g, Caller := u, Callee := v, EdgeOccurrenceIDs := Some [g]\<rparr>"

definition sample_edges :: "Edge list" where
  "sample_edges = [sample_edge ''g1'' ''a'' ''c'', sample_edge ''g2'' ''a'' ''b'',
                   sample_edge ''g3'' ''c'' ''d'', sample_edge ''g4'' ''b'' ''d'']"

definition sample_budget :: Budget where
  "sample_budget = \<lparr>Polls = 0, Left = 9, BudgetReason = ''''\<rparr>"

lemmas sample_simps = sample_edges_def sample_edge_def sample_budget_def zero_edge_def

theorem Search_correct_witness:
  "\<exists>r b'. Search (\<lambda>_. False) [''a'', ''b'', ''c'', ''d''] sample_edges ''a'' ''d'' sample_budget = Some (Inr (r, b')) \<and>
    (Status r = ''FOUND'' \<and> Reason r = '''' \<and>
       (\<exists>es. best_path sample_edges ''a'' es ''d'' \<and> ResultPath r = path_of ''a'' es)
     \<or> Status r = ''NOT_FOUND_IN_RETAINED_GRAPH'' \<and> Reason r = '''' \<and> ResultPath r = emptyPath \<and>
       (\<nexists>es. edge_path sample_edges ''a'' es ''d'')
     \<or> Status r = ''INCOMPLETE'' \<and> Reason r \<noteq> '''' \<and> ResultPath r = emptyPath)"
  by (rule Search_correct) simp_all

text \<open>
  A budget of one tick per node and edge is enough. With an uncancelled context, no earlier
  reason, and \<open>1 + 2 * len(edges)\<close> ticks left, the search completes, and says \<open>FOUND\<close> exactly when a
  path exists.
\<close>

theorem Search_completes:
  assumes "start \<in> set nodes" and "fin \<in> set nodes" and "\<forall>n. \<not> cancelled n"
    and "BudgetReason b = ''''" and "1 + 2 * int (length edges) \<le> Left b"
  shows "\<exists>r b'. Search cancelled nodes edges start fin b = Some (Inr (r, b')) \<and>
    Status r = (if \<exists>es. edge_path edges start es fin then ''FOUND'' else ''NOT_FOUND_IN_RETAINED_GRAPH'')"
proof -
  obtain r b' where run: "Search cancelled nodes edges start fin b = Some (Inr (r, b'))"
    and a: "search_answer edges start fin r" and i: "Status r = ''INCOMPLETE'' \<longleftrightarrow> BudgetReason b' \<noteq> ''''"
    using Search_answer [OF assms(1,2)] by blast
  have "BudgetReason b' = ''''"
    using Search_no_stop [OF assms(1-5) run] .
  with i a have "Status r \<noteq> ''INCOMPLETE''" by blast
  with a consider "Status r = ''NOT_FOUND_IN_RETAINED_GRAPH''" "\<nexists>is. fwd.wend edges start is = Some fin"
    | "is" where "Status r = ''FOUND''" "fwd.least edges start is fin"
    unfolding search_answer_def by blast
  then show ?thesis
  proof cases
    case 1
    with run edge_path_fwd [of edges start _ fin] show ?thesis by fastforce
  next
    case 2
    with run fwd_edge_path [OF fwd.least_wend [OF 2(2)]] show ?thesis by auto
  qed
qed

theorem Search_completes_witness:
  "\<exists>r b'. Search (\<lambda>_. False) [''a'', ''b'', ''c'', ''d''] sample_edges ''a'' ''d'' sample_budget = Some (Inr (r, b')) \<and>
    Status r = (if \<exists>es. edge_path sample_edges ''a'' es ''d'' then ''FOUND'' else ''NOT_FOUND_IN_RETAINED_GRAPH'')"
  by (rule Search_completes) (simp_all add: sample_simps)

text \<open>
  C30: the independent check is sound. A claim that \<open>Prove\<close> accepts is true: either the status is
  \<open>NOT_FOUND_IN_RETAINED_GRAPH\<close> and there is no path, or it is \<open>FOUND\<close> and the nodes, the groups and
  (as JSON) the witnesses are those of a path of retained edges that is shortest and lexically first.
\<close>

theorem Prove_sound:
  assumes "Prove edges start fin status path = Inr ()"
  shows "status = ''NOT_FOUND_IN_RETAINED_GRAPH'' \<and> (\<nexists>es. edge_path edges start es fin)
    \<or> status = ''FOUND'' \<and> (\<exists>es. best_path edges start es fin \<and> Nodes path = start # map Callee es \<and>
        GroupIDs path = map GroupID es \<and>
        map json_strings (OccurrenceIDs path) = map (json_strings \<circ> EdgeOccurrenceIDs) es)"
proof -
  have "(\<nexists>is. fwd.least edges start is fin) \<Longrightarrow> (\<nexists>es. edge_path edges start es fin)"
    using edge_path_fwd fwd.least_exists by blast
  with assms least_best show ?thesis unfolding Prove_iff fwd.wnodes_wedges by blast
qed

theorem Prove_sound_witness:
  "\<exists>es. best_path sample_edges ''a'' es ''d'' \<and> [''a'', ''b'', ''d''] = ''a'' # map Callee es \<and>
     [''g2'', ''g4''] = map GroupID es"
proof -
  have "Prove sample_edges ''a'' ''d'' ''FOUND'' \<lparr>Nodes = [''a'', ''b'', ''d''], GroupIDs = [''g2'', ''g4''],
      OccurrenceIDs = [Some [''g2''], Some [''g4'']]\<rparr> = Inr ()"
    by code_simp
  from Prove_sound [OF this] show ?thesis by auto
qed

text \<open>
  The producer and the checker agree. Every completed answer of \<open>Search\<close>, including the choice
  among equally short paths, is accepted by \<open>Prove\<close>.
\<close>

theorem Prove_accepts_Search:
  assumes "start \<in> set nodes" and "fin \<in> set nodes"
    and "Search cancelled nodes edges start fin b = Some (Inr (r, b'))" and "Status r \<noteq> ''INCOMPLETE''"
  shows "Prove edges start fin (Status r) (ResultPath r) = Inr ()"
proof -
  from Search_answer [OF assms(1,2), of cancelled edges b] assms(3) have "search_answer edges start fin r"
    by auto
  with assms(4) show ?thesis by (simp add: search_answer_accepted)
qed

theorem Prove_accepts_Search_witness:
  "\<exists>r b'. Search (\<lambda>_. False) [''a'', ''b'', ''c'', ''d''] sample_edges ''a'' ''d'' sample_budget = Some (Inr (r, b')) \<and>
     Prove sample_edges ''a'' ''d'' (Status r) (ResultPath r) = Inr ()"
proof -
  obtain r b' where s: "Search (\<lambda>_. False) [''a'', ''b'', ''c'', ''d''] sample_edges ''a'' ''d'' sample_budget
      = Some (Inr (r, b'))" and "search_answer sample_edges ''a'' ''d'' r"
      and "Status r = ''INCOMPLETE'' \<longleftrightarrow> BudgetReason b' \<noteq> ''''"
    using Search_answer [of "''a''" "[''a'', ''b'', ''c'', ''d'']" "''d''" "\<lambda>_. False" sample_edges sample_budget] by auto
  then have "Status r \<noteq> ''INCOMPLETE''"
    using Search_no_stop [OF _ _ _ _ _ s] by (simp add: sample_simps)
  from Prove_accepts_Search [OF _ _ s this] s show ?thesis by simp
qed

end
