(* ===== verification/Session_Lifecycle.thy ===== *)
theory Session_Lifecycle
  imports Prelude
begin

text \<open>
  Package \<open>internal/session\<close>, files \<open>lifecycle.go\<close> and \<open>vocabulary.go\<close>: the closed vocabularies of
  the session manager, the transition table and its lookup, generations, the choice of the earliest
  manager event, and the shutdown order. A Go string type with named constants is a datatype with one
  constructor per constant; the constructor \<open>StateText\<close> (\<open>EventText\<close>, \<open>GuardText\<close>) stands for any
  other text, the empty string being \<open>StateText ''''\<close>.
\<close>

datatype State =
    Starting | Initializing | Ready | Draining | Stopping | Stopped | Crashed | Poisoned
  | StateText string

abbreviation NoState :: State where "NoState \<equiv> StateText ''''"

definition PublicStates :: "State list" where
  "PublicStates = [Starting, Initializing, Ready, Draining, Stopping, Stopped, Crashed, Poisoned]"

datatype Event =
    FirstStart | RestartAccepted | PipesEstablished | SpawnFailed | SetupFailed | IntentAccepted
  | Initialized | InitFailed | GracefulIntent | WorkDrained | UnexpectedDeath | Poison | Reaped
  | EventText string

datatype Guard =
    Verified | PredecessorReaped | NoChild | PossibleChild | HasWork | NoWork | Any
  | GuardText string

record TransitionVector =
  From :: State
  TEvent :: Event
  TGuard :: Guard
  To :: State
  Allowed :: bool

definition tv :: "State \<Rightarrow> Event \<Rightarrow> Guard \<Rightarrow> State \<Rightarrow> TransitionVector" where
  "tv s e g t = \<lparr>From = s, TEvent = e, TGuard = g, To = t, Allowed = True\<rparr>"

definition allowedTransitions :: "TransitionVector list" where
  "allowedTransitions =
    [tv NoState FirstStart Verified Starting,
     tv Stopped RestartAccepted PredecessorReaped Starting,
     tv Crashed RestartAccepted PredecessorReaped Starting,
     tv Poisoned RestartAccepted PredecessorReaped Starting,
     tv Starting PipesEstablished Any Initializing,
     tv Starting SpawnFailed NoChild Stopped,
     tv Starting SetupFailed PossibleChild Stopping,
     tv Starting IntentAccepted NoChild Stopped,
     tv Initializing IntentAccepted NoChild Stopped,
     tv Starting IntentAccepted PossibleChild Stopping,
     tv Initializing IntentAccepted PossibleChild Stopping,
     tv Initializing Initialized Any Ready,
     tv Initializing InitFailed Any Poisoned,
     tv Ready GracefulIntent HasWork Draining,
     tv Ready GracefulIntent NoWork Stopping,
     tv Draining WorkDrained Any Stopping,
     tv Starting UnexpectedDeath Any Crashed,
     tv Initializing UnexpectedDeath Any Crashed,
     tv Ready UnexpectedDeath Any Crashed,
     tv Draining UnexpectedDeath Any Crashed,
     tv Starting Poison Any Poisoned,
     tv Initializing Poison Any Poisoned,
     tv Ready Poison Any Poisoned,
     tv Draining Poison Any Poisoned,
     tv Stopping Poison Any Poisoned,
     tv Stopping Reaped Any Stopped,
     tv Crashed Reaped Any Crashed,
     tv Poisoned Reaped Any Poisoned]"

fun lookup_in :: "TransitionVector list \<Rightarrow> State \<Rightarrow> Event \<Rightarrow> Guard \<Rightarrow> State \<times> bool" where
  "lookup_in [] s e g = (NoState, False)"
| "lookup_in (v # vs) s e g =
     (if From v = s \<and> TEvent v = e \<and> TGuard v = g then (To v, True) else lookup_in vs s e g)"

definition lookupTransition :: "State \<Rightarrow> Event \<Rightarrow> Guard \<Rightarrow> State \<times> bool" where
  "lookupTransition s e g = lookup_in allowedTransitions s e g"

datatype transition_error = ForbiddenTransition State Event Guard

definition NextState :: "State \<Rightarrow> Event \<Rightarrow> Guard \<Rightarrow> transition_error + State" where
  "NextState s e g =
     (case lookupTransition s e g of (to, ok) \<Rightarrow> if ok then Inr to else Inl (ForbiddenTransition s e g))"

definition PublicEvents :: "Event list" where
  "PublicEvents = [FirstStart, RestartAccepted, PipesEstablished, SpawnFailed, SetupFailed, IntentAccepted,
     Initialized, InitFailed, GracefulIntent, WorkDrained, UnexpectedDeath, Poison, Reaped]"

definition PublicGuards :: "Guard list" where
  "PublicGuards = [Verified, PredecessorReaped, NoChild, PossibleChild, HasWork, NoWork, Any]"

definition transition_vector :: "State \<Rightarrow> Event \<Rightarrow> Guard \<Rightarrow> TransitionVector" where
  "transition_vector s e g =
     (case lookupTransition s e g of (to, ok) \<Rightarrow>
        if ok then \<lparr>From = s, TEvent = e, TGuard = g, To = to, Allowed = True\<rparr>
        else \<lparr>From = s, TEvent = e, TGuard = g, To = NoState, Allowed = False\<rparr>)"

definition TransitionVectors :: "TransitionVector list" where
  "TransitionVectors =
     concat (map (\<lambda>s. concat (map (\<lambda>e. map (transition_vector s e) PublicGuards) PublicEvents))
                 (NoState # PublicStates))"

section \<open>Closed vocabularies\<close>

datatype Availability = NotImplemented | ContainmentUnavailable | RuntimeDisabled | Enabled

datatype Failure =
    NoFailure
  | ToolNotImplemented | ProcessContainmentUnavailable | LiveLSPDisabled | SessionNotFound
  | ListCursorInvalid | StaleGeneration | LifecycleConflict | SessionReapIncomplete | SessionStopping
  | SessionPoisoned | ResourceExhausted | SpawnFailure | PipeSetupFailure | InitializationFailure
  | InitializationTimeout | SessionCrashed | RequestCancelled | RequestTimeout

datatype RestartValue = NoKind | StopIntent | RestartIntent | EvictIntent

definition AvailabilityValues :: "Availability list" where
  "AvailabilityValues = [NotImplemented, ContainmentUnavailable, RuntimeDisabled, Enabled]"

definition FailureValues :: "Failure list" where
  "FailureValues =
    [ToolNotImplemented, ProcessContainmentUnavailable, LiveLSPDisabled, SessionNotFound,
     ListCursorInvalid, StaleGeneration, LifecycleConflict, SessionReapIncomplete, SessionStopping,
     SessionPoisoned, ResourceExhausted, SpawnFailure, PipeSetupFailure, InitializationFailure,
     InitializationTimeout, SessionCrashed, RequestCancelled, RequestTimeout]"

definition RestartValues :: "RestartValue list" where
  "RestartValues = [StopIntent, RestartIntent, EvictIntent]"

section \<open>Generations and events\<close>

record GenerationT =
  Number :: u64
  gen_terminal :: bool

definition FirstGeneration :: GenerationT where
  "FirstGeneration = \<lparr>Number = 1, gen_terminal = False\<rparr>"

record RequestIdentity =
  ReqSessionID :: string
  ReqGeneration :: u64
  ManagerRequestID :: string

datatype generation_error = TerminalGeneration | AlreadyBound | PredecessorAlive

definition Bind :: "GenerationT \<Rightarrow> RequestIdentity \<Rightarrow> generation_error + RequestIdentity" where
  "Bind g r =
     (if gen_terminal g then Inl TerminalGeneration
      else if ReqGeneration r \<noteq> 0 \<and> ReqGeneration r \<noteq> Number g then Inl AlreadyBound
      else Inr (r\<lparr>ReqGeneration := Number g\<rparr>))"

text \<open>\<open>Successor\<close> returns the receiver, marked terminal on success, and the new generation.\<close>

definition Successor :: "GenerationT \<Rightarrow> bool \<Rightarrow> bool \<Rightarrow> GenerationT \<times> (generation_error + GenerationT)" where
  "Successor g death reaped =
     (if \<not> death \<or> \<not> reaped then (g, Inl PredecessorAlive)
      else (g\<lparr>gen_terminal := True\<rparr>, Inr \<lparr>Number = Number g + 1, gen_terminal = False\<rparr>))"

record OrderedEvent =
  Seq :: u64
  EventKind :: string

definition zeroEvent :: OrderedEvent where
  "zeroEvent = \<lparr>Seq = 0, EventKind = ''''\<rparr>"

fun winner_loop :: "u64 set \<Rightarrow> OrderedEvent \<Rightarrow> OrderedEvent list \<Rightarrow> OrderedEvent" where
  "winner_loop seen w [] = w"
| "winner_loop seen w (e # es) =
     (if Seq e = 0 then zeroEvent
      else if Seq e \<in> seen then zeroEvent
      else winner_loop (insert (Seq e) seen) (if Seq e < Seq w then e else w) es)"

definition Winner :: "OrderedEvent list \<Rightarrow> OrderedEvent" where
  "Winner es = (case es of [] \<Rightarrow> zeroEvent | w # _ \<Rightarrow> winner_loop {} w es)"

record IntentT =
  Active :: bool
  IntentCallers :: "string \<rightharpoonup> bool"

text \<open>\<open>CancelCaller\<close> reads a missing caller as the zero \<open>Caller\<close> and stores it as terminal.\<close>

definition CancelCaller :: "IntentT \<Rightarrow> string \<Rightarrow> IntentT" where
  "CancelCaller i ident = i\<lparr>IntentCallers := (IntentCallers i)(ident \<mapsto> True)\<rparr>"

datatype ShutdownPhase =
  TerminalizeQueued | BoundActive | SendShutdown | SendExit | ClosePipes | ObserveDeath | ReapChild

definition ShutdownOrder :: "ShutdownPhase list" where
  "ShutdownOrder =
     [TerminalizeQueued, BoundActive, SendShutdown, SendExit, ClosePipes, ObserveDeath, ReapChild]"

section \<open>The transition table\<close>

lemma lookup_in_Some: "lookup_in vs s e g = (t, True) \<Longrightarrow>
    \<exists>v \<in> set vs. From v = s \<and> TEvent v = e \<and> TGuard v = g \<and> To v = t"
  by (induction vs) (auto split: if_splits)

lemma lookup_in_False: "lookup_in vs s e g = (t, False) \<longleftrightarrow>
    t = NoState \<and> (\<forall>v \<in> set vs. \<not> (From v = s \<and> TEvent v = e \<and> TGuard v = g))"
  by (induction vs) auto

text \<open>No two rows of the table have the same key, so the first match is the only one.\<close>

definition row_key :: "TransitionVector \<Rightarrow> State \<times> Event \<times> Guard" where
  "row_key v = (From v, TEvent v, TGuard v)"

lemma allowed_keys_distinct: "distinct (map row_key allowedTransitions)"
  by code_simp

lemma rows_tv: "v \<in> set allowedTransitions \<Longrightarrow> v = tv (From v) (TEvent v) (TGuard v) (To v)"
proof -
  assume "v \<in> set allowedTransitions"
  moreover have "list_all Allowed allowedTransitions" by code_simp
  ultimately have "Allowed v" by (simp add: list_all_iff)
  then show ?thesis by (cases v) (simp add: tv_def)
qed

lemma rows_public: "v \<in> set allowedTransitions \<Longrightarrow> To v \<in> set PublicStates"
proof -
  have "list_all (\<lambda>v. To v \<in> set PublicStates) allowedTransitions" by code_simp
  then show "v \<in> set allowedTransitions \<Longrightarrow> To v \<in> set PublicStates" by (simp add: list_all_iff)
qed

lemma lookup_row:
  assumes "v \<in> set allowedTransitions"
  shows "lookupTransition (From v) (TEvent v) (TGuard v) = (To v, True)"
proof -
  obtain t ok where l: "lookup_in allowedTransitions (From v) (TEvent v) (TGuard v) = (t, ok)"
    by fastforce
  have ok
  proof (rule ccontr)
    assume "\<not> ok"
    with l have "lookup_in allowedTransitions (From v) (TEvent v) (TGuard v) = (t, False)" by simp
    with assms show False unfolding lookup_in_False by blast
  qed
  with l lookup_in_Some obtain w where w: "w \<in> set allowedTransitions" "row_key w = row_key v" "To w = t"
    by (metis (full_types) row_key_def)
  then have "w = v" using allowed_keys_distinct assms by (simp add: distinct_map inj_on_def)
  with w l \<open>ok\<close> show ?thesis by (simp add: lookupTransition_def)
qed

lemma NextState_row: "tv s e g t \<in> set allowedTransitions \<Longrightarrow> NextState s e g = Inr t"
  using lookup_row [of "tv s e g t"] by (simp add: NextState_def tv_def)

text \<open>
  The transition relation is a function on its table. \<open>NextState\<close> accepts exactly the triples that
  have a row in \<open>allowedTransitions\<close> and returns that row's target, which is a public state; every
  other triple is refused with an error that names it.
\<close>

theorem NextState_table:
  "(NextState s e g = Inr t \<longleftrightarrow> tv s e g t \<in> set allowedTransitions \<and> t \<in> set PublicStates) \<and>
   (NextState s e g = Inl err \<longleftrightarrow>
     err = ForbiddenTransition s e g \<and> (\<forall>t. tv s e g t \<notin> set allowedTransitions))"
proof -
  have rows: "v = tv (From v) (TEvent v) (TGuard v) (To v)" if "v \<in> set allowedTransitions" for v
    using that by (rule rows_tv)
  have iff: "NextState s e g = Inr t \<longleftrightarrow> tv s e g t \<in> set allowedTransitions" for t
  proof
    assume "NextState s e g = Inr t"
    then have "lookup_in allowedTransitions s e g = (t, True)"
      by (auto simp: NextState_def lookupTransition_def split: prod.splits if_splits)
    with lookup_in_Some rows show "tv s e g t \<in> set allowedTransitions" by metis
  next
    assume "tv s e g t \<in> set allowedTransitions"
    then show "NextState s e g = Inr t" by (rule NextState_row)
  qed
  moreover have "t \<in> set PublicStates" if "tv s e g t \<in> set allowedTransitions"
    using rows_public [OF that] by (simp add: tv_def)
  moreover have "NextState s e g = Inl err \<longleftrightarrow>
      err = ForbiddenTransition s e g \<and> (\<forall>t. NextState s e g \<noteq> Inr t)"
    by (auto simp: NextState_def split: prod.splits)
  ultimately show ?thesis by blast
qed

section \<open>The earliest event\<close>

definition well_identified :: "OrderedEvent list \<Rightarrow> bool" where
  "well_identified es \<longleftrightarrow> (\<forall>e \<in> set es. Seq e \<noteq> 0) \<and> distinct (map Seq es)"

lemma winner_loop_ok:
  "(\<forall>e \<in> set es. Seq e \<noteq> 0 \<and> Seq e \<notin> seen) \<Longrightarrow> distinct (map Seq es) \<Longrightarrow>
     winner_loop seen w es \<in> insert w (set es) \<and> (\<forall>e \<in> insert w (set es). Seq (winner_loop seen w es) \<le> Seq e)"
proof (induction es arbitrary: seen w)
  case (Cons e es)
  let ?w = "if Seq e < Seq w then e else w"
  have "\<forall>x \<in> set es. Seq x \<noteq> 0 \<and> Seq x \<notin> insert (Seq e) seen"
    using Cons.prems by (auto simp: image_iff)
  from Cons.IH [OF this, of ?w] Cons.prems show ?case
    by (cases "Seq e < Seq w") (auto intro: order.trans less_imp_le simp: not_less)
qed simp

lemma winner_loop_bad:
  "\<not> ((\<forall>e \<in> set es. Seq e \<noteq> 0 \<and> Seq e \<notin> seen) \<and> distinct (map Seq es)) \<Longrightarrow>
     winner_loop seen w es = zeroEvent"
proof (induction es arbitrary: seen w)
  case (Cons e es)
  show ?case
  proof (cases "Seq e = 0 \<or> Seq e \<in> seen")
    case False
    with Cons.prems have "\<not> ((\<forall>x \<in> set es. Seq x \<noteq> 0 \<and> Seq x \<notin> insert (Seq e) seen) \<and> distinct (map Seq es))"
      by auto
    from Cons.IH [OF this] False show ?thesis by simp
  qed auto
qed simp

text \<open>
  \<open>Winner\<close> returns an event of the list with the smallest sequence when every sequence is non-zero
  and no two are equal, and the zero event as soon as one is zero or repeated, or the list is empty.
\<close>

theorem Winner_earliest:
  "if well_identified es \<and> es \<noteq> []
   then Winner es \<in> set es \<and> (\<forall>e \<in> set es. Seq (Winner es) \<le> Seq e)
   else Winner es = zeroEvent"
proof (cases "well_identified es \<and> es \<noteq> []")
  case True
  then obtain w ws where es: "es = w # ws" by (cases es) auto
  have "\<forall>e \<in> set es. Seq e \<noteq> 0 \<and> Seq e \<notin> {}" "distinct (map Seq es)"
    using True by (auto simp: well_identified_def)
  from winner_loop_ok [OF this, of w] True show ?thesis by (simp add: Winner_def es)
next
  case False
  have "Winner es = zeroEvent"
  proof (cases es)
    case (Cons w ws)
    with False winner_loop_bad [of es "{}" w] show ?thesis by (simp add: Winner_def well_identified_def)
  qed (simp add: Winner_def)
  with False show ?thesis by auto
qed

theorem Winner_earliest_witness:
  "Seq (Winner [\<lparr>Seq = 5, EventKind = ''exit''\<rparr>, \<lparr>Seq = 3, EventKind = ''stop''\<rparr>]) \<le> 3"
  using Winner_earliest [of "[\<lparr>Seq = 5, EventKind = ''exit''\<rparr>, \<lparr>Seq = 3, EventKind = ''stop''\<rparr>]"]
  by (simp add: well_identified_def)

text \<open>A generation is bound only while it is not terminal, and a successor is one higher.\<close>

lemma Bind_Successor:
  assumes "Successor g True True = (g', Inr n)"
  shows "Number n = Number g + 1" and "Bind g' r = Inl TerminalGeneration"
    and "ReqGeneration r = 0 \<Longrightarrow> Bind n r = Inr (r\<lparr>ReqGeneration := Number g + 1\<rparr>)"
  using assms by (auto simp: Successor_def Bind_def)

end
