(* ===== verification/Go_Map.thy ===== *)
theory Go_Map
  imports Prelude "HOL-Library.AList"
begin

text \<open>
  A Go map whose size or entries the code inspects is an association list with distinct keys: a
  lookup is \<^const>\<open>map_of\<close>, an assignment \<^const>\<open>AList.update\<close>, \<open>delete\<close> is \<^const>\<open>AList.delete\<close>
  and \<open>len\<close> is \<^const>\<open>length\<close>. Where the code ranges over such a map, what it computes does not depend
  on the order of the entries. \<open>dec\<close> is \<open>fmt.Sprintf("%d", n)\<close> of an unsigned integer.
\<close>

type_synonym ('k, 'v) go_map = "('k \<times> 'v) list"

abbreviation mkeys :: "('k, 'v) go_map \<Rightarrow> 'k list" where
  "mkeys m \<equiv> map fst m"

lemma map_of_update [simp]: "map_of (AList.update k v m) k' = (if k' = k then Some v else map_of m k')"
  by (simp add: update_conv)

lemma map_of_delete [simp]: "map_of (AList.delete k m) k' = (if k' = k then None else map_of m k')"
  by (simp add: delete_conv)

lemma length_update_new: "map_of m k = None \<Longrightarrow> length (AList.update k v m) = Suc (length m)"
  by (induction m) (auto split: if_splits)

lemma mkeys_update_old: "map_of m k = Some w \<Longrightarrow> mkeys (AList.update k v m) = mkeys m"
  by (induction m) (auto split: if_splits)

lemma length_update_old: "map_of m k = Some w \<Longrightarrow> length (AList.update k v m) = length m"
  using mkeys_update_old [of m k w v] by (metis length_map)

lemma length_update_le: "length (AList.update k v m) \<le> Suc (length m)"
  by (cases "map_of m k") (simp_all add: length_update_new length_update_old)

lemma length_delete_old:
  assumes "distinct (mkeys m)" and "map_of m k = Some v"
  shows "Suc (length (AList.delete k m)) = length m"
  using assms
proof (induction m)
  case (Cons kv m)
  show ?case
  proof (cases "fst kv = k")
    case True
    with Cons.prems have "k \<notin> fst ` set m" by auto
    with True show ?thesis by (simp add: delete_id)
  next
    case False
    with Cons show ?thesis by auto
  qed
qed simp

lemma length_delete_le: "length (AList.delete k m) \<le> length m"
  by (simp add: AList.delete_eq)

lemma mkeys_in: "k \<in> fst ` set m \<longleftrightarrow> map_of m k \<noteq> None"
  by (simp add: map_of_eq_None_iff)

lemma set_update_subset: "set (AList.update k v m) \<subseteq> insert (k, v) (set m)"
  by (induction m) auto

lemma set_delete_subset: "set (AList.delete k m) \<subseteq> set m"
  by (auto simp: AList.delete_eq)

section \<open>Decimal numerals\<close>

definition digit :: "nat \<Rightarrow> char" where
  "digit n = char_of (48 + n)"

fun dec :: "nat \<Rightarrow> string" where
  "dec n = (if n < 10 then [digit n] else dec (n div 10) @ [digit (n mod 10)])"

declare dec.simps [simp del]

lemma digit_inj: "m < 10 \<Longrightarrow> n < 10 \<Longrightarrow> digit m = digit n \<longleftrightarrow> m = n"
  by (auto simp: digit_def)

lemma dec_Nil [simp]: "dec n \<noteq> []"
  by (subst dec.simps) simp

lemma dec_inj: "dec m = dec n \<longleftrightarrow> m = n"
proof (induction m arbitrary: n rule: dec.induct)
  case (1 m)
  show ?case
  proof (cases "m < 10 \<or> n < 10")
    case True
    then show ?thesis
      using dec.simps [of m] dec.simps [of n] digit_inj [of m n] dec_Nil [of "m div 10"] dec_Nil [of "n div 10"]
      by (auto split: if_splits simp del: dec_Nil)
  next
    case False
    then have "dec m = dec n \<longleftrightarrow> dec (m div 10) = dec (n div 10) \<and> digit (m mod 10) = digit (n mod 10)"
      using dec.simps [of m] dec.simps [of n] by simp
    also have "\<dots> \<longleftrightarrow> m div 10 = n div 10 \<and> m mod 10 = n mod 10"
      using 1 False digit_inj [of "m mod 10" "n mod 10"] by simp
    also have "\<dots> \<longleftrightarrow> m = n" by (metis div_mult_mod_eq)
    finally show ?thesis .
  qed
qed

definition dec_u64 :: "u64 \<Rightarrow> string" where
  "dec_u64 w = dec (unat w)"

lemma dec_u64_inj [simp]: "dec_u64 v = dec_u64 w \<longleftrightarrow> v = w"
  by (simp add: dec_u64_def dec_inj word_eq_iff_unsigned [where ?'a = nat])

definition dec_int :: "int \<Rightarrow> string" where
  "dec_int n = (if n < 0 then ''-'' @ dec (nat (- n)) else dec (nat n))"

end
