(* ===== verification/Session_Manager.thy ===== *)
theory Session_Manager
  imports Session_Lifecycle Go_Map Go_Json "HOL-Library.Product_Lexorder"
begin

text \<open>
  Package \<open>internal/session\<close>, file \<open>manager.go\<close>: the session manager. Every exported method holds the
  manager's mutex from its first to its last statement, so a method is one atomic step on the manager
  state, a function from the manager to its result and the new manager. A pointer to a lifecycle or to
  an intent is only reached through the manager's maps, so an update through the pointer is an update
  of the map entry. Counters are 64-bit words. The digest of a snapshot (SHA-256 in hexadecimal) and
  the cursor codec (base64 of JSON) are arguments of the operations that use them.
\<close>

record ManagerConfig =
  MaxSessions :: int
  MaxTerminalHistory :: int
  MaxListPage :: int
  MaxListSnapshots :: int
  CursorRetentionEvents :: u64

definition defaultMaxTerminalHistory :: int where "defaultMaxTerminalHistory = 256"
definition defaultMaxListPage :: int where "defaultMaxListPage = 100"
definition defaultMaxListSnapshots :: int where "defaultMaxListSnapshots = 16"
definition defaultCursorRetentionEvents :: u64 where "defaultCursorRetentionEvents = 64"
definition defaultMaxIntentHistory :: nat where "defaultMaxIntentHistory = 32"
definition defaultMaxLifecycleLedger :: nat where "defaultMaxLifecycleLedger = 1024"
definition defaultMaxIntentCallers :: nat where "defaultMaxIntentCallers = 128"

datatype AdmissionKind = AdmissionFree | AdmissionEvict | AdmissionBlocked

record Admission =
  AKind :: AdmissionKind
  ASessionID :: string
  AVictim :: string
  AReservation :: string

record TerminalRecord =
  TSessionID :: string
  TManagerSeq :: u64
  TLocalSeq :: u64
  TCreationManagerSeq :: u64
  TLastUseManagerSeq :: u64
  TState :: State

record ListOptions =
  Limit :: int
  Cursor :: string
  OSessionID :: string

record Page =
  Records :: "TerminalRecord list"
  NextCursor :: string
  Truncated :: bool
  Code :: Failure

record liveRecord =
  live_sessionID :: string
  live_managerSeq :: u64
  reserved :: bool
  quarantined :: bool

record reservation =
  res_id :: string
  victim :: string
  contender :: string
  contenderSeq :: u64
  victimPriorState :: State

record evictionWaiter =
  w_contender :: string
  w_sequence :: u64
  w_result :: Admission

datatype LifecycleOperation = LifecycleStatus | LifecycleStop | LifecycleRestart | OtherOperation

record LifecycleRequest =
  RSessionID :: string
  RGeneration :: u64
  ROperation :: LifecycleOperation
  RCallerID :: string
  RChildRisk :: bool
  RHasWork :: bool

datatype LifecycleOutcome = NoOutcome | OutcomeComplete | OutcomeDomainError | OutcomeCancelled | OutcomeTimedOut

datatype LifecycleOperationStatus =
  NoStatus | StatusSucceeded | StatusFailed | StatusCancelled | StatusTimedOut | StatusNoop

record LifecycleResult =
  LState :: State
  PriorState :: State
  LGeneration :: u64
  IntentID :: string
  LKind :: RestartValue
  LOutcome :: LifecycleOutcome
  OperationStatus :: LifecycleOperationStatus
  LFailure :: Failure
  Joined :: bool
  Replayed :: bool
  Noop :: bool
  Superseded :: bool

record LifecycleCompletion =
  ShutdownComplete :: bool
  UnsafeIOAbsent :: bool
  TerminateSucceeded :: bool
  DeathObserved :: bool
  NoContainedSurvivors :: bool
  StderrDrainComplete :: bool
  CReaped :: bool
  InitializationComplete :: bool
  InitializationPending :: bool

record LifecycleLedgerEntry =
  ESeq :: u64
  EGeneration :: u64
  ESessionID :: string
  EIntentID :: string
  ECallerID :: string
  EAction :: string
  EState :: State
  EKind :: RestartValue
  EFailure :: Failure

record lifecycleCaller =
  attached :: bool
  boundGeneration :: u64
  c_failure :: Failure
  c_result :: LifecycleResult

record lifecycleIntent =
  i_id :: string
  i_kind :: RestartValue
  targetGeneration :: u64
  i_terminal :: bool
  i_result :: LifecycleResult
  callers :: "(string, lifecycleCaller) go_map"

record managedLifecycle =
  generation :: u64
  state :: State
  reaped :: bool
  hasWork :: bool
  unsafe :: bool
  queued :: int
  active :: int
  nextEvent :: u64
  creationManagerSeq :: u64
  lastUseManagerSeq :: u64
  incumbent :: "lifecycleIntent option"
  history :: "lifecycleIntent list"

record Manager =
  max_live :: int
  live :: "(string, liveRecord) go_map"
  reservations :: "(string, reservation) go_map"
  waiters :: "evictionWaiter list"
  listSnapshots :: "(string, TerminalRecord list) go_map"
  issuedCursors :: "(string, string) go_map"
  snapshotExpiry :: "(string, u64) go_map"
  snapshotOrder :: "string list"
  cursorOrder :: "string list"
  nextReservation :: u64
  nextManagerEvent :: u64
  maxHistory :: int
  maxListPage :: int
  maxSnapshots :: int
  cursorTTL :: u64
  lifecycles :: "(string, managedLifecycle) go_map"
  lifecycleLedger :: "LifecycleLedgerEntry list"
  nextIntent :: u64

definition zeroResult :: LifecycleResult where
  "zeroResult = \<lparr>LState = NoState, PriorState = NoState, LGeneration = 0, IntentID = '''', LKind = NoKind,
     LOutcome = NoOutcome, OperationStatus = NoStatus, LFailure = NoFailure,
     Joined = False, Replayed = False, Noop = False, Superseded = False\<rparr>"

definition newCaller :: lifecycleCaller where
  "newCaller = \<lparr>attached = True, boundGeneration = 0, c_failure = NoFailure, c_result = zeroResult\<rparr>"

definition newIntent :: "string \<Rightarrow> RestartValue \<Rightarrow> u64 \<Rightarrow> string \<Rightarrow> lifecycleIntent" where
  "newIntent ident kind gen caller = \<lparr>i_id = ident, i_kind = kind, targetGeneration = gen, i_terminal = False,
     i_result = zeroResult, callers = [(caller, newCaller)]\<rparr>"

definition newLifecycle :: "u64 \<Rightarrow> State \<Rightarrow> bool \<Rightarrow> u64 \<Rightarrow> managedLifecycle" where
  "newLifecycle gen st rp seq = \<lparr>generation = gen, state = st, reaped = rp, hasWork = False, unsafe = False,
     queued = 0, active = 0, nextEvent = 0, creationManagerSeq = seq, lastUseManagerSeq = seq,
     incumbent = None, history = []\<rparr>"

datatype manager_error = MaxSessionsNotPositive

definition NewManager :: "ManagerConfig \<Rightarrow> manager_error + Manager" where
  "NewManager c =
     (if MaxSessions c \<le> 0 then Inl MaxSessionsNotPositive
      else Inr
        \<lparr>max_live = MaxSessions c, live = [], reservations = [], waiters = [], listSnapshots = [],
         issuedCursors = [], snapshotExpiry = [], snapshotOrder = [], cursorOrder = [],
         nextReservation = 0, nextManagerEvent = 0,
         maxHistory = (if MaxTerminalHistory c \<le> 0 then defaultMaxTerminalHistory else MaxTerminalHistory c),
         maxListPage = (if MaxListPage c \<le> 0 then defaultMaxListPage else MaxListPage c),
         maxSnapshots = (if MaxListSnapshots c \<le> 0 then defaultMaxListSnapshots else MaxListSnapshots c),
         cursorTTL = (if CursorRetentionEvents c = 0 then defaultCursorRetentionEvents
                      else CursorRetentionEvents c),
         lifecycles = [], lifecycleLedger = [], nextIntent = 0\<rparr>)"

section \<open>List snapshots and cursors\<close>

definition go_get :: "'v \<Rightarrow> ('k, 'v) go_map \<Rightarrow> 'k \<Rightarrow> 'v" where
  "go_get d m k = (case map_of m k of None \<Rightarrow> d | Some v \<Rightarrow> v)"

text \<open>The loop of \<open>dropListSnapshot\<close> over \<open>cursorOrder\<close>: the kept cursors and the issued map.\<close>

fun drop_cursors :: "string \<Rightarrow> string list \<Rightarrow> (string, string) go_map
    \<Rightarrow> string list \<times> (string, string) go_map" where
  "drop_cursors ident [] issued = ([], issued)"
| "drop_cursors ident (c # cs) issued =
     (if go_get '''' issued c = ident then drop_cursors ident cs (AList.delete c issued)
      else (case drop_cursors ident cs issued of (kept, issued') \<Rightarrow> (c # kept, issued')))"

definition dropListSnapshot :: "string \<Rightarrow> Manager \<Rightarrow> Manager" where
  "dropListSnapshot ident m =
     (case drop_cursors ident (cursorOrder m) (issuedCursors m) of (kept, issued) \<Rightarrow>
        m\<lparr>listSnapshots := AList.delete ident (listSnapshots m),
          snapshotExpiry := AList.delete ident (snapshotExpiry m),
          snapshotOrder := remove1 ident (snapshotOrder m),
          issuedCursors := issued, cursorOrder := kept\<rparr>)"

text \<open>The loop of \<open>expireListState\<close>; its list argument is \<open>snapshotOrder\<close>.\<close>

fun expire_loop :: "string list \<Rightarrow> Manager \<Rightarrow> Manager" where
  "expire_loop [] m = m"
| "expire_loop (ident # rest) m =
     (if nextManagerEvent m < go_get 0 (snapshotExpiry m) ident then m
      else expire_loop rest (dropListSnapshot ident m))"

definition expireListState :: "Manager \<Rightarrow> Manager" where
  "expireListState m = expire_loop (snapshotOrder m) m"

section \<open>Ledger and lifecycle state\<close>

definition upd_lifecycle :: "string \<Rightarrow> (managedLifecycle \<Rightarrow> managedLifecycle) \<Rightarrow> Manager \<Rightarrow> Manager" where
  "upd_lifecycle sid f m =
     (case map_of (lifecycles m) sid of
        None \<Rightarrow> m
      | Some s \<Rightarrow> m\<lparr>lifecycles := AList.update sid (f s) (lifecycles m)\<rparr>)"

definition allocateManagerEvent :: "Manager \<Rightarrow> u64 \<times> Manager" where
  "allocateManagerEvent m =
     (if nextManagerEvent m \<noteq> - 1
      then (nextManagerEvent m + 1, m\<lparr>nextManagerEvent := nextManagerEvent m + 1\<rparr>)
      else (nextManagerEvent m, m))"

definition keep_last :: "nat \<Rightarrow> 'a list \<Rightarrow> 'a list" where
  "keep_last n xs = drop (length xs - n) xs"

definition appendLifecycle :: "string \<Rightarrow> u64 \<Rightarrow> string \<Rightarrow> string \<Rightarrow> string \<Rightarrow> State \<Rightarrow> RestartValue \<Rightarrow> Failure
    \<Rightarrow> Manager \<Rightarrow> Manager" where
  "appendLifecycle sid gen action intentID callerID st kind failure m =
     (case map_of (lifecycles m) sid of
        None \<Rightarrow> m
      | Some s \<Rightarrow>
          if nextEvent s = - 1 then m
          else
            (let m1 = upd_lifecycle sid (\<lambda>s. s\<lparr>nextEvent := nextEvent s + 1\<rparr>) m;
                 entry = \<lparr>ESeq = nextEvent s + 1, EGeneration = gen, ESessionID = sid, EIntentID = intentID,
                          ECallerID = callerID, EAction = action, EState = st, EKind = kind, EFailure = failure\<rparr>;
                 m2 = expireListState (m1\<lparr>lifecycleLedger := lifecycleLedger m1 @ [entry]\<rparr>)
             in m2\<lparr>lifecycleLedger := keep_last defaultMaxLifecycleLedger (lifecycleLedger m2)\<rparr>))"

definition observeLifecycleDecision :: "string \<Rightarrow> managedLifecycle \<Rightarrow> string \<Rightarrow> LifecycleRequest \<Rightarrow> Manager \<Rightarrow> Manager" where
  "observeLifecycleDecision sid s action request m =
     appendLifecycle sid (generation s) action '''' (RCallerID request) (state s) NoKind NoFailure m"

definition validLifecycleState :: "State \<Rightarrow> bool" where
  "validLifecycleState st \<longleftrightarrow> st \<in> set PublicStates"

definition RegisterLifecycle :: "string \<Rightarrow> u64 \<Rightarrow> State \<Rightarrow> bool \<Rightarrow> Manager \<Rightarrow> Manager" where
  "RegisterLifecycle sid gen st rp m =
     (if sid = '''' \<or> gen = 0 \<or> \<not> validLifecycleState st \<or> map_of (lifecycles m) sid \<noteq> None then m
      else
        (case allocateManagerEvent m of (seq, m1) \<Rightarrow>
           appendLifecycle sid gen ''register'' '''' '''' st NoKind NoFailure
             (m1\<lparr>lifecycles := AList.update sid (newLifecycle gen st rp seq) (lifecycles m1)\<rparr>)))"

definition lifecycleIntentState :: "State \<Rightarrow> bool \<Rightarrow> bool \<Rightarrow> State" where
  "lifecycleIntentState st childRisk work =
     (case st of
        Starting \<Rightarrow> if childRisk then Stopping else Stopped
      | Initializing \<Rightarrow> if childRisk then Stopping else Stopped
      | Ready \<Rightarrow> if work then Draining else Stopping
      | _ \<Rightarrow> st)"

definition compatibleTerminalReplay :: "managedLifecycle \<Rightarrow> RestartValue \<Rightarrow> lifecycleIntent option" where
  "compatibleTerminalReplay s kind =
     (if state s \<noteq> Stopped \<or> kind \<noteq> StopIntent then None
      else find (\<lambda>i. i_kind i = StopIntent \<and> targetGeneration i = generation s) (rev (history s)))"

definition classifyLifecycleResult :: "LifecycleResult \<Rightarrow> LifecycleResult" where
  "classifyLifecycleResult r =
     (if LFailure r = RequestCancelled then r\<lparr>LOutcome := OutcomeCancelled, OperationStatus := StatusCancelled\<rparr>
      else if LFailure r = RequestTimeout then r\<lparr>LOutcome := OutcomeTimedOut, OperationStatus := StatusTimedOut\<rparr>
      else if LFailure r \<noteq> NoFailure then r\<lparr>LOutcome := OutcomeDomainError, OperationStatus := StatusFailed\<rparr>
      else if Noop r then r\<lparr>LOutcome := OutcomeComplete, OperationStatus := StatusNoop\<rparr>
      else r\<lparr>LOutcome := OutcomeComplete, OperationStatus := StatusSucceeded\<rparr>)"

text \<open>The results the methods build: state and generation of the session, and a failure.\<close>

definition result_of :: "managedLifecycle \<Rightarrow> Failure \<Rightarrow> LifecycleResult" where
  "result_of s failure = zeroResult\<lparr>LState := state s, LGeneration := generation s, LFailure := failure\<rparr>"

section \<open>Stop and restart intents\<close>

definition set_incumbent :: "lifecycleIntent option \<Rightarrow> managedLifecycle \<Rightarrow> managedLifecycle" where
  "set_incumbent i s = s\<lparr>incumbent := i\<rparr>"

text \<open>The branch of \<open>Lifecycle\<close> for a session that has an open intent.\<close>

definition lifecycle_join :: "LifecycleRequest \<Rightarrow> managedLifecycle \<Rightarrow> lifecycleIntent \<Rightarrow> RestartValue \<Rightarrow> Manager
    \<Rightarrow> LifecycleResult \<times> Manager" where
  "lifecycle_join q s i kind m =
     (if RCallerID q = '''' then
        (result_of s LifecycleConflict, observeLifecycleDecision (RSessionID q) s ''conflict'' q m)
      else if targetGeneration i \<noteq> generation s then
        (result_of s StaleGeneration, observeLifecycleDecision (RSessionID q) s ''stale'' q m)
      else if i_kind i \<noteq> kind then
        (result_of s LifecycleConflict, observeLifecycleDecision (RSessionID q) s ''conflict'' q m)
      else if map_of (callers i) (RCallerID q) \<noteq> None then
        (result_of s LifecycleConflict, observeLifecycleDecision (RSessionID q) s ''conflict'' q m)
      else if length (callers i) \<ge> defaultMaxIntentCallers then
        ((result_of s ResourceExhausted)\<lparr>IntentID := i_id i, LKind := kind\<rparr>,
         observeLifecycleDecision (RSessionID q) s ''resource-exhausted'' q m)
      else
        ((result_of s NoFailure)\<lparr>IntentID := i_id i, LKind := kind, Joined := True\<rparr>,
         appendLifecycle (RSessionID q) (generation s) ''join'' (i_id i) (RCallerID q) (state s) kind NoFailure
           (upd_lifecycle (RSessionID q)
              (set_incumbent (Some (i\<lparr>callers := AList.update (RCallerID q) newCaller (callers i)\<rparr>))) m)))"

text \<open>The branch of \<open>Lifecycle\<close> that accepts a new intent.\<close>

definition lifecycle_insert :: "LifecycleRequest \<Rightarrow> managedLifecycle \<Rightarrow> RestartValue \<Rightarrow> Manager
    \<Rightarrow> LifecycleResult \<times> Manager" where
  "lifecycle_insert q s kind m =
     (let n = nextIntent m + 1;
          intentID = ''i'' @ dec_u64 n;
          st = lifecycleIntentState (state s) (RChildRisk q) (RHasWork q);
          m1 = upd_lifecycle (RSessionID q)
                 (\<lambda>s. s\<lparr>incumbent := Some (newIntent intentID kind (generation s) (RCallerID q)),
                       hasWork := RHasWork q, state := st\<rparr>)
                 (m\<lparr>nextIntent := n\<rparr>)
      in (zeroResult\<lparr>LState := st, PriorState := state s, LGeneration := generation s, IntentID := intentID,
                     LKind := kind\<rparr>,
          appendLifecycle (RSessionID q) (generation s) ''insert'' intentID (RCallerID q) st kind NoFailure m1))"

text \<open>The part of \<open>Lifecycle\<close> after the replay check, for a session with no open intent.\<close>

definition lifecycle_fresh :: "LifecycleRequest \<Rightarrow> managedLifecycle \<Rightarrow> RestartValue \<Rightarrow> Manager
    \<Rightarrow> LifecycleResult \<times> Manager" where
  "lifecycle_fresh q s kind m =
     (if kind = StopIntent \<and>
          (state s = Stopped \<or> (state s = Crashed \<or> state s = Poisoned) \<and> reaped s) then
        ((result_of s NoFailure)\<lparr>LKind := kind, Noop := True\<rparr>,
         observeLifecycleDecision (RSessionID q) s ''noop'' q m)
      else if kind \<noteq> StopIntent \<and> (state s = Crashed \<or> state s = Poisoned) \<and> \<not> reaped s then
        ((result_of s SessionReapIncomplete)\<lparr>LKind := kind\<rparr>,
         observeLifecycleDecision (RSessionID q) s ''reap-incomplete'' q m)
      else if state s = Draining \<or> state s = Stopping then
        (zeroResult\<lparr>LState := Poisoned, PriorState := state s, LGeneration := generation s, LKind := kind,
                    LFailure := SessionPoisoned\<rparr>,
         appendLifecycle (RSessionID q) (generation s) ''invariant-failure'' '''' (RCallerID q) Poisoned kind
           SessionPoisoned (upd_lifecycle (RSessionID q) (\<lambda>s. s\<lparr>state := Poisoned\<rparr>) m))
      else if RCallerID q = '''' then
        (result_of s LifecycleConflict, observeLifecycleDecision (RSessionID q) s ''conflict'' q m)
      else lifecycle_insert q s kind m)"

definition Lifecycle :: "LifecycleRequest \<Rightarrow> Manager \<Rightarrow> LifecycleResult \<times> Manager" where
  "Lifecycle q m =
     (case map_of (lifecycles m) (RSessionID q) of
        None \<Rightarrow> (classifyLifecycleResult (zeroResult\<lparr>LFailure := SessionNotFound\<rparr>), m)
      | Some s \<Rightarrow>
          apfst classifyLifecycleResult
            (if RGeneration q \<noteq> 0 \<and> RGeneration q \<noteq> generation s then
               (result_of s StaleGeneration, observeLifecycleDecision (RSessionID q) s ''stale'' q m)
             else if ROperation q = LifecycleStatus then
               (result_of s NoFailure, observeLifecycleDecision (RSessionID q) s ''status'' q m)
             else if ROperation q \<noteq> LifecycleStop \<and> ROperation q \<noteq> LifecycleRestart then
               (result_of s LifecycleConflict, observeLifecycleDecision (RSessionID q) s ''conflict'' q m)
             else
               (let kind = (if ROperation q = LifecycleRestart then RestartIntent else StopIntent);
                    fresh =
                      (case compatibleTerminalReplay s kind of
                         Some i \<Rightarrow>
                           ((i_result i)\<lparr>Replayed := True\<rparr>,
                            appendLifecycle (RSessionID q) (generation s) ''replay'' (i_id i) (RCallerID q)
                              (state s) kind (LFailure (i_result i)) m)
                       | None \<Rightarrow> lifecycle_fresh q s kind m)
                in case incumbent s of
                     Some i \<Rightarrow> if \<not> i_terminal i then lifecycle_join q s i kind m else fresh
                   | None \<Rightarrow> fresh)))"

section \<open>Completion\<close>

definition firstTeardownFailure :: "LifecycleCompletion \<Rightarrow> Failure" where
  "firstTeardownFailure ob =
     (if \<not> ShutdownComplete ob then SessionPoisoned
      else if \<not> UnsafeIOAbsent ob then SessionPoisoned
      else if \<not> TerminateSucceeded ob then SessionReapIncomplete
      else if \<not> DeathObserved ob then SessionReapIncomplete
      else if \<not> NoContainedSurvivors ob then SessionReapIncomplete
      else if \<not> StderrDrainComplete ob then SessionPoisoned
      else if \<not> CReaped ob then SessionReapIncomplete
      else NoFailure)"

definition give_result :: "LifecycleResult \<Rightarrow> lifecycleCaller \<Rightarrow> lifecycleCaller" where
  "give_result r c = (if attached c then c\<lparr>c_result := r\<rparr> else c)"

definition close_intent :: "LifecycleResult \<Rightarrow> lifecycleIntent \<Rightarrow> lifecycleIntent" where
  "close_intent r i = i\<lparr>i_terminal := True, i_result := r,
     callers := map (\<lambda>(cid, c). (cid, give_result r c)) (callers i)\<rparr>"

text \<open>
  \<open>terminalizeLifecycle\<close> is always called with the incumbent of the session, so the model takes the
  intent from there.
\<close>

definition terminalizeLifecycle :: "string \<Rightarrow> LifecycleResult \<Rightarrow> Manager \<Rightarrow> LifecycleResult \<times> Manager" where
  "terminalizeLifecycle sid result m =
     (let r = classifyLifecycleResult result in
      case map_of (lifecycles m) sid of
        None \<Rightarrow> (r, m)
      | Some s \<Rightarrow>
          (case incumbent s of
             None \<Rightarrow> (r, m)
           | Some i \<Rightarrow>
               (r, appendLifecycle sid (generation s) ''terminal'' (i_id i) '''' (LState r) (i_kind i) (LFailure r)
                     (upd_lifecycle sid
                        (\<lambda>s. s\<lparr>state := LState r,
                              history := keep_last defaultMaxIntentHistory (history s @ [close_intent r i]),
                              incumbent := None\<rparr>) m))))"

definition bind_caller :: "u64 \<Rightarrow> string \<Rightarrow> lifecycleIntent \<Rightarrow> lifecycleIntent" where
  "bind_caller gen cid i =
     (case map_of (callers i) cid of
        None \<Rightarrow> i
      | Some c \<Rightarrow> i\<lparr>callers := AList.update cid (c\<lparr>boundGeneration := gen\<rparr>) (callers i)\<rparr>)"

fun bind_loop :: "string \<Rightarrow> u64 \<Rightarrow> lifecycleIntent \<Rightarrow> string list \<Rightarrow> Manager \<Rightarrow> Manager" where
  "bind_loop sid gen i [] m = m"
| "bind_loop sid gen i (cid # cids) m =
     bind_loop sid gen i cids
       (appendLifecycle sid gen ''bind'' (i_id i) cid Ready (i_kind i) NoFailure
          (upd_lifecycle sid (\<lambda>s. s\<lparr>incumbent := map_option (bind_caller gen cid) (incumbent s)\<rparr>) m))"

definition observe_if :: "bool \<Rightarrow> string \<Rightarrow> string \<Rightarrow> managedLifecycle \<Rightarrow> lifecycleIntent \<Rightarrow> Manager \<Rightarrow> Manager" where
  "observe_if b action sid s i m =
     (if b then appendLifecycle sid (generation s) action (i_id i) '''' (state s) (i_kind i) NoFailure m else m)"

text \<open>The restart part of \<open>CompleteLifecycleObserved\<close>, after a clean teardown.\<close>

definition complete_restart :: "string \<Rightarrow> managedLifecycle \<Rightarrow> lifecycleIntent \<Rightarrow> LifecycleCompletion \<Rightarrow> Manager
    \<Rightarrow> LifecycleResult \<times> Manager" where
  "complete_restart sid s i ob m =
     (let gen = generation s + 1;
          result = zeroResult\<lparr>LState := Stopped, LGeneration := gen, IntentID := i_id i, LKind := i_kind i\<rparr>;
          m1 = upd_lifecycle sid (\<lambda>s. s\<lparr>reaped := True, generation := gen, state := Starting\<rparr>) m;
          m2 = appendLifecycle sid gen ''allocate'' (i_id i) '''' Starting (i_kind i) NoFailure m1
      in if InitializationPending ob then
           terminalizeLifecycle sid (classifyLifecycleResult (result\<lparr>LState := Initializing\<rparr>))
             (appendLifecycle sid gen ''initialized'' (i_id i) '''' Initializing (i_kind i) NoFailure
                (upd_lifecycle sid (\<lambda>s. s\<lparr>state := Initializing\<rparr>) m2))
         else if \<not> InitializationComplete ob then
           terminalizeLifecycle sid
             (classifyLifecycleResult (result\<lparr>LState := Poisoned, LFailure := InitializationFailure\<rparr>))
             (appendLifecycle sid gen ''poison'' (i_id i) '''' Poisoned (i_kind i) InitializationFailure m2)
         else
           (let m3 = appendLifecycle sid gen ''initialized'' (i_id i) '''' Initializing (i_kind i) NoFailure m2;
                m4 = appendLifecycle sid gen ''ready'' (i_id i) '''' Ready (i_kind i) NoFailure
                       (upd_lifecycle sid (\<lambda>s. s\<lparr>state := Ready\<rparr>) m3);
                m5 = bind_loop sid gen i (sort (map fst (filter (\<lambda>(cid, c). attached c) (callers i)))) m4
            in terminalizeLifecycle sid (classifyLifecycleResult (result\<lparr>LState := Ready\<rparr>)) m5))"

definition CompleteLifecycleObserved :: "string \<Rightarrow> string \<Rightarrow> LifecycleCompletion \<Rightarrow> Manager
    \<Rightarrow> LifecycleResult \<times> Manager" where
  "CompleteLifecycleObserved sid intentID ob m =
     (case map_of (lifecycles m) sid of
        None \<Rightarrow> (classifyLifecycleResult (zeroResult\<lparr>LFailure := SessionNotFound\<rparr>), m)
      | Some s \<Rightarrow>
          (case incumbent s of
             None \<Rightarrow>
               (classifyLifecycleResult (result_of s LifecycleConflict),
                appendLifecycle sid (generation s) ''completion-conflict'' intentID '''' (state s) NoKind
                  LifecycleConflict m)
           | Some i \<Rightarrow>
               if i_id i \<noteq> intentID then
                 (classifyLifecycleResult (result_of s LifecycleConflict),
                  appendLifecycle sid (generation s) ''completion-conflict'' intentID '''' (state s) NoKind
                    LifecycleConflict m)
               else
                 (let failure = firstTeardownFailure ob;
                      m1 = observe_if (CReaped ob) ''reap'' sid s i
                             (observe_if (StderrDrainComplete ob) ''drain'' sid s i
                                (observe_if (DeathObserved ob) ''death'' sid s i m))
                  in if failure \<noteq> NoFailure then
                       terminalizeLifecycle sid
                         (classifyLifecycleResult (zeroResult\<lparr>LState := Poisoned, LGeneration := generation s,
                            IntentID := i_id i, LKind := i_kind i, LFailure := failure\<rparr>))
                         (appendLifecycle sid (generation s) ''poison'' (i_id i) '''' Poisoned (i_kind i) failure m1)
                     else if i_kind i = RestartIntent then complete_restart sid s i ob m1
                     else
                       terminalizeLifecycle sid
                         (classifyLifecycleResult (zeroResult\<lparr>LState := Stopped, LGeneration := generation s,
                            IntentID := i_id i, LKind := i_kind i\<rparr>))
                         (upd_lifecycle sid (\<lambda>s. s\<lparr>reaped := True, state := Stopped\<rparr>) m1))))"

definition CompleteLifecycle :: "string \<Rightarrow> string \<Rightarrow> bool \<Rightarrow> bool \<Rightarrow> bool \<Rightarrow> Manager \<Rightarrow> LifecycleResult \<times> Manager" where
  "CompleteLifecycle sid intentID deathObserved rp ready m =
     CompleteLifecycleObserved sid intentID
       \<lparr>ShutdownComplete = True, UnsafeIOAbsent = True, TerminateSucceeded = True,
        DeathObserved = deathObserved, NoContainedSurvivors = deathObserved,
        StderrDrainComplete = deathObserved, CReaped = rp, InitializationComplete = ready,
        InitializationPending = False\<rparr> m"

definition DetachLifecycleCaller :: "string \<Rightarrow> string \<Rightarrow> string \<Rightarrow> Failure \<Rightarrow> Manager \<Rightarrow> bool \<times> Manager" where
  "DetachLifecycleCaller sid intentID callerID failure m =
     (case map_of (lifecycles m) sid of
        None \<Rightarrow> (False, m)
      | Some s \<Rightarrow>
          (case incumbent s of
             None \<Rightarrow> (False, m)
           | Some i \<Rightarrow>
               if i_id i \<noteq> intentID then (False, m)
               else case map_of (callers i) callerID of
                 None \<Rightarrow> (False, m)
               | Some c \<Rightarrow>
                   if \<not> attached c \<or> (failure \<noteq> RequestCancelled \<and> failure \<noteq> RequestTimeout) then (False, m)
                   else
                     (let r = classifyLifecycleResult
                                ((result_of s failure)\<lparr>IntentID := intentID, LKind := i_kind i\<rparr>);
                          c' = c\<lparr>attached := False, c_failure := failure, c_result := r\<rparr>
                      in (True,
                          appendLifecycle sid (generation s) ''detach'' intentID callerID (state s) (i_kind i) failure
                            (upd_lifecycle sid
                               (set_incumbent (Some (i\<lparr>callers := AList.update callerID c' (callers i)\<rparr>))) m)))))"

definition LifecycleCallerResult :: "string \<Rightarrow> string \<Rightarrow> string \<Rightarrow> Manager \<Rightarrow> LifecycleResult \<times> bool" where
  "LifecycleCallerResult sid intentID callerID m =
     (case map_of (lifecycles m) sid of
        None \<Rightarrow> (zeroResult, False)
      | Some s \<Rightarrow>
          (let intents = history s @ (case incumbent s of None \<Rightarrow> [] | Some i \<Rightarrow> [i]) in
           case find (\<lambda>i. i_id i = intentID) intents of
             None \<Rightarrow> (zeroResult, False)
           | Some i \<Rightarrow>
               (case map_of (callers i) callerID of
                  None \<Rightarrow> (zeroResult, False)
                | Some c \<Rightarrow> if c_result c = zeroResult then (zeroResult, False) else (c_result c, True))))"

definition ObserveInitialization :: "string \<Rightarrow> u64 \<Rightarrow> bool \<Rightarrow> Manager \<Rightarrow> LifecycleResult \<times> Manager" where
  "ObserveInitialization sid gen complete m =
     (case map_of (lifecycles m) sid of
        None \<Rightarrow> (classifyLifecycleResult (zeroResult\<lparr>LFailure := SessionNotFound\<rparr>), m)
      | Some s \<Rightarrow>
          if gen \<noteq> generation s then
            (classifyLifecycleResult (result_of s StaleGeneration),
             appendLifecycle sid (generation s) ''initialization-stale'' '''' '''' (state s) NoKind StaleGeneration m)
          else (case incumbent s of
              Some i \<Rightarrow>
                (classifyLifecycleResult (result_of s NoFailure),
                 appendLifecycle sid gen ''initialization-discarded'' (i_id i) '''' (state s) (i_kind i) NoFailure m)
            | None \<Rightarrow>
                if state s \<noteq> Initializing then (classifyLifecycleResult (result_of s SessionPoisoned), m)
                else if \<not> complete then
                  (classifyLifecycleResult (zeroResult\<lparr>LState := Poisoned, LGeneration := gen,
                     LFailure := InitializationFailure\<rparr>),
                   appendLifecycle sid gen ''poison'' '''' '''' Poisoned NoKind InitializationFailure
                     (upd_lifecycle sid (\<lambda>s. s\<lparr>state := Poisoned\<rparr>) m))
                else
                  (classifyLifecycleResult (zeroResult\<lparr>LState := Ready, LGeneration := gen\<rparr>),
                   appendLifecycle sid gen ''initialized'' '''' '''' Ready NoKind NoFailure
                     (upd_lifecycle sid (\<lambda>s. s\<lparr>state := Ready\<rparr>) m))))"

definition ObservePoison :: "string \<Rightarrow> u64 \<Rightarrow> Manager \<Rightarrow> LifecycleResult \<times> Manager" where
  "ObservePoison sid gen m =
     (case map_of (lifecycles m) sid of
        None \<Rightarrow> (classifyLifecycleResult (zeroResult\<lparr>LFailure := SessionNotFound\<rparr>), m)
      | Some s \<Rightarrow>
          if gen \<noteq> generation s then
            (classifyLifecycleResult (result_of s StaleGeneration),
             appendLifecycle sid (generation s) ''poison-stale'' '''' '''' (state s) NoKind StaleGeneration m)
          else
            (classifyLifecycleResult (zeroResult\<lparr>LState := Poisoned, LGeneration := gen, LFailure := SessionPoisoned\<rparr>),
             appendLifecycle sid gen ''poison'' '''' '''' Poisoned NoKind SessionPoisoned
               (upd_lifecycle sid (\<lambda>s. s\<lparr>state := Poisoned\<rparr>) m)))"

section \<open>Admission and eviction\<close>

definition blocked :: "string \<Rightarrow> string \<Rightarrow> Admission" where
  "blocked sid vic = \<lparr>AKind = AdmissionBlocked, ASessionID = sid, AVictim = vic, AReservation = ''''\<rparr>"

definition free :: "string \<Rightarrow> Admission" where
  "free sid = \<lparr>AKind = AdmissionFree, ASessionID = sid, AVictim = '''', AReservation = ''''\<rparr>"

definition evictionClass :: "liveRecord \<Rightarrow> managedLifecycle option \<Rightarrow> int" where
  "evictionClass r l =
     (case l of
        None \<Rightarrow> - 1
      | Some s \<Rightarrow>
          if reserved r \<or> quarantined r \<or> incumbent s \<noteq> None \<or> hasWork s \<or> queued s \<noteq> 0 \<or> active s \<noteq> 0 \<or> unsafe s
          then - 1
          else (case state s of
              Stopped \<Rightarrow> if reaped s then 0 else - 1
            | Crashed \<Rightarrow> if reaped s then 0 else - 1
            | Poisoned \<Rightarrow> if reaped s then 0 else - 1
            | Ready \<Rightarrow> 1
            | _ \<Rightarrow> - 1))"

text \<open>The candidates of \<open>reserveVictim\<close>, in the order of its comparison function.\<close>

definition victim_key :: "Manager \<Rightarrow> liveRecord \<Rightarrow> int \<times> u64 \<times> u64 \<times> string" where
  "victim_key m r =
     (let l = map_of (lifecycles m) (live_sessionID r) in
      (evictionClass r l, (case l of None \<Rightarrow> 0 | Some s \<Rightarrow> lastUseManagerSeq s),
       (case l of None \<Rightarrow> 0 | Some s \<Rightarrow> creationManagerSeq s), live_sessionID r))"

definition victims :: "Manager \<Rightarrow> liveRecord list" where
  "victims m = sort_key (victim_key m)
     (filter (\<lambda>r. evictionClass r (map_of (lifecycles m) (live_sessionID r)) \<ge> 0) (map snd (live m)))"

definition set_live :: "string \<Rightarrow> (liveRecord \<Rightarrow> liveRecord) \<Rightarrow> Manager \<Rightarrow> Manager" where
  "set_live sid f m =
     (case map_of (live m) sid of None \<Rightarrow> m | Some r \<Rightarrow> m\<lparr>live := AList.update sid (f r) (live m)\<rparr>)"

definition reserve :: "evictionWaiter \<Rightarrow> liveRecord \<Rightarrow> managedLifecycle \<Rightarrow> Manager \<Rightarrow> evictionWaiter \<times> Manager" where
  "reserve w v s m =
     (let vid = live_sessionID v;
          rn = nextReservation m + 1;
          rid = ''r'' @ dec_u64 rn;
          n = nextIntent m + 1;
          intentID = ''i'' @ dec_u64 n;
          st = lifecycleIntentState (state s) False False;
          m1 = (set_live vid (\<lambda>r. r\<lparr>reserved := True\<rparr>) m)\<lparr>nextReservation := rn, nextIntent := n\<rparr>;
          m2 = upd_lifecycle vid
                 (\<lambda>s. s\<lparr>incumbent := Some (newIntent intentID EvictIntent (generation s) (w_contender w)),
                       state := st\<rparr>) m1;
          m3 = appendLifecycle vid (generation s) ''insert'' intentID (w_contender w) st EvictIntent NoFailure m2
      in (w\<lparr>w_result := \<lparr>AKind = AdmissionEvict, ASessionID = w_contender w, AVictim = vid, AReservation = rid\<rparr>\<rparr>,
          m3\<lparr>reservations := AList.update rid
               \<lparr>res_id = rid, victim = vid, contender = w_contender w, contenderSeq = w_sequence w,
                victimPriorState = state s\<rparr> (reservations m3)\<rparr>))"

definition reserveVictim :: "evictionWaiter \<Rightarrow> Manager \<Rightarrow> bool \<times> evictionWaiter \<times> Manager" where
  "reserveVictim w m =
     (case victims m of
        [] \<Rightarrow> (False, w\<lparr>w_result := blocked (w_contender w) ''''\<rparr>, m)
      | v # _ \<Rightarrow>
          (case map_of (lifecycles m) (live_sessionID v) of
             None \<Rightarrow> (False, w\<lparr>w_result := blocked (w_contender w) ''''\<rparr>, m)
           | Some s \<Rightarrow> (True, reserve w v s m)))"

definition admit_new :: "string \<Rightarrow> u64 \<Rightarrow> Manager \<Rightarrow> Manager" where
  "admit_new sid seq m =
     appendLifecycle sid 1 ''admit'' '''' '''' Stopped NoKind NoFailure
       (m\<lparr>lifecycles := AList.update sid (newLifecycle 1 Stopped True seq) (lifecycles m)\<rparr>)"

definition add_live :: "string \<Rightarrow> u64 \<Rightarrow> Manager \<Rightarrow> Manager" where
  "add_live sid seq m =
     m\<lparr>live := AList.update sid
         \<lparr>live_sessionID = sid, live_managerSeq = seq, reserved = False, quarantined = False\<rparr> (live m)\<rparr>"

definition Admit :: "string \<Rightarrow> Manager \<Rightarrow> Admission \<times> Manager" where
  "Admit sid m =
     (if sid = '''' \<or> nextManagerEvent m = - 1 then (blocked sid '''', m)
      else
        (let seq = nextManagerEvent m + 1;
             m1 = m\<lparr>nextManagerEvent := seq\<rparr>
         in if map_of (live m1) sid \<noteq> None then
              (free sid, upd_lifecycle sid (\<lambda>s. s\<lparr>lastUseManagerSeq := seq\<rparr>) m1)
            else if int (length (live m1)) < max_live m1 then
              (let m2 = add_live sid seq m1 in
               (free sid, if map_of (lifecycles m2) sid = None then admit_new sid seq m2 else m2))
            else case find (\<lambda>w. w_contender w = sid) (waiters m1) of
                Some w \<Rightarrow> (w_result w, m1)
              | None \<Rightarrow>
                  if int (length (waiters m1)) \<ge> max_live m1 then (blocked sid '''', m1)
                  else
                    (case reserveVictim \<lparr>w_contender = sid, w_sequence = seq, w_result = blocked sid ''''\<rparr> m1 of
                       (ok, w, m2) \<Rightarrow>
                         (w_result w, if ok then m2\<lparr>waiters := waiters m2 @ [w]\<rparr> else m2))))"

fun block_waiter :: "string \<Rightarrow> evictionWaiter list \<Rightarrow> evictionWaiter list" where
  "block_waiter rid [] = []"
| "block_waiter rid (w # ws) =
     (if AReservation (w_result w) = rid then w\<lparr>w_result := blocked (w_contender w) ''''\<rparr> # ws
      else w # block_waiter rid ws)"

definition releaseVictimSlot :: "reservation \<Rightarrow> managedLifecycle \<Rightarrow> lifecycleIntent \<Rightarrow> Manager \<Rightarrow> Manager" where
  "releaseVictimSlot r s i m =
     (let m1 = m\<lparr>reservations := AList.delete (res_id r) (reservations m)\<rparr>;
          m2 = snd (terminalizeLifecycle (victim r)
                 (zeroResult\<lparr>LState := Stopped, LGeneration := generation s, IntentID := i_id i,
                             LKind := EvictIntent\<rparr>) m1)
      in m2\<lparr>live := AList.delete (victim r) (live m2),
            lifecycles := AList.delete (victim r) (lifecycles m2),
            waiters := block_waiter (res_id r) (waiters m2)\<rparr>)"

text \<open>
  The condition \<open>supersedeWaiterReservation\<close> and \<open>CompleteEviction\<close> put on the victim of a reservation:
  live and reserved, with an eviction as the incumbent intent of its lifecycle.
\<close>

definition reserved_victim :: "string \<Rightarrow> Manager \<Rightarrow> (managedLifecycle \<times> lifecycleIntent) option" where
  "reserved_victim vid m =
     (case map_of (live m) vid of
        None \<Rightarrow> None
      | Some v \<Rightarrow>
          if \<not> reserved v then None
          else (case map_of (lifecycles m) vid of
              None \<Rightarrow> None
            | Some s \<Rightarrow>
                (case incumbent s of
                   None \<Rightarrow> None
                 | Some i \<Rightarrow> if i_kind i \<noteq> EvictIntent then None else Some (s, i))))"

definition supersedeWaiterReservation :: "evictionWaiter \<Rightarrow> Manager \<Rightarrow> bool \<times> Manager" where
  "supersedeWaiterReservation w m =
     (let rid = AReservation (w_result w) in
      if rid = '''' then (True, m)
      else case map_of (reservations m) rid of
          None \<Rightarrow> (False, m)
        | Some r \<Rightarrow>
            if contender r \<noteq> w_contender w then (False, m)
            else (case reserved_victim (victim r) m of
                None \<Rightarrow> (False, m)
              | Some (s, i) \<Rightarrow>
                  (let m1 = snd (terminalizeLifecycle (victim r)
                         (zeroResult\<lparr>LState := victimPriorState r, PriorState := state s,
                                     LGeneration := generation s, IntentID := i_id i, LKind := EvictIntent,
                                     Superseded := True\<rparr>) m);
                       m2 = set_live (victim r) (\<lambda>v. v\<lparr>reserved := False\<rparr>) m1
                   in (True, m2\<lparr>reservations := AList.delete rid (reservations m2)\<rparr>))))"

text \<open>The loop of \<open>reprocessWaiters\<close>: remaining waiters, the waiters kept so far and the selected admission.\<close>

fun reprocess_loop :: "evictionWaiter list \<Rightarrow> evictionWaiter list \<Rightarrow> Admission \<Rightarrow> Manager
    \<Rightarrow> evictionWaiter list \<times> Admission \<times> Manager" where
  "reprocess_loop [] kept selected m = (kept, selected, m)"
| "reprocess_loop (w # ws) kept selected m =
     (if map_of (live m) (w_contender w) \<noteq> None then
        (case supersedeWaiterReservation w m of (ok, m1) \<Rightarrow>
           reprocess_loop ws (if ok then kept else kept @ [w]) selected m1)
      else if int (length (live m)) < max_live m then
        (case supersedeWaiterReservation w m of (ok, m1) \<Rightarrow>
           if \<not> ok then reprocess_loop ws (kept @ [w]) selected m1
           else
             reprocess_loop ws kept
               (if AKind selected \<noteq> AdmissionFree then free (w_contender w) else selected)
               (admit_new (w_contender w) (w_sequence w) (add_live (w_contender w) (w_sequence w) m1)))
      else if AReservation (w_result w) = '''' then
        (case reserveVictim w m of (ok, w', m1) \<Rightarrow> reprocess_loop ws (kept @ [w']) selected m1)
      else reprocess_loop ws (kept @ [w]) selected m)"

definition reprocessWaiters :: "Manager \<Rightarrow> Admission \<times> Manager" where
  "reprocessWaiters m =
     (case reprocess_loop (sort_key (\<lambda>w. (w_sequence w, w_contender w)) (waiters m)) [] (blocked '''' '''') m of
        (kept, selected, m1) \<Rightarrow> (selected, m1\<lparr>waiters := kept\<rparr>))"

fun removeWaiter :: "string \<Rightarrow> evictionWaiter list \<Rightarrow> evictionWaiter list" where
  "removeWaiter c [] = []"
| "removeWaiter c (w # ws) = (if w_contender w = c then ws else w # removeWaiter c ws)"

definition CompleteEviction :: "string \<Rightarrow> bool \<Rightarrow> Manager \<Rightarrow> Admission \<times> Manager" where
  "CompleteEviction rid success m =
     (case map_of (reservations m) rid of
        None \<Rightarrow> (blocked '''' '''', m)
      | Some r \<Rightarrow>
          (case reserved_victim (victim r) m of
             None \<Rightarrow> (blocked (contender r) (victim r), m)
           | Some (s, i) \<Rightarrow>
               if map_of (callers i) (contender r) = None then (blocked (contender r) (victim r), m)
               else if \<not> success then
                 (let m1 = m\<lparr>reservations := AList.delete rid (reservations m),
                             waiters := removeWaiter (contender r) (waiters m)\<rparr>;
                      m2 = snd (terminalizeLifecycle (victim r)
                             (zeroResult\<lparr>LState := Poisoned, LGeneration := generation s, IntentID := i_id i,
                                         LKind := EvictIntent, LFailure := SessionPoisoned\<rparr>) m1)
                  in (blocked (contender r) (victim r),
                      set_live (victim r) (\<lambda>v. v\<lparr>reserved := False, quarantined := True\<rparr>) m2))
               else reprocessWaiters (releaseVictimSlot r s i m)))"

definition ReleaseStopped :: "string \<Rightarrow> u64 \<Rightarrow> Manager \<Rightarrow> bool \<times> Manager" where
  "ReleaseStopped sid gen m =
     (case map_of (lifecycles m) sid of
        None \<Rightarrow> (False, m)
      | Some s \<Rightarrow>
          if generation s \<noteq> gen \<or> state s \<noteq> Stopped \<or> \<not> reaped s \<or> incumbent s \<noteq> None then (False, m)
          else if map_of (live m) sid = None then (False, m)
          else (True, m\<lparr>live := AList.delete sid (live m)\<rparr>))"

definition LiveCount :: "Manager \<Rightarrow> nat" where
  "LiveCount m = length (live m)"

section \<open>Listing\<close>

record listCursor =
  Version :: int
  Filter :: string
  Order :: string
  Snapshot :: string
  CPosition :: int

definition listCursorVersion :: int where "listCursorVersion = 1"
definition managerGlobalOrder :: string where "managerGlobalOrder = ''manager-global''"
definition sessionLocalOrder :: string where "sessionLocalOrder = ''session-local''"

fun state_text :: "State \<Rightarrow> string" where
  "state_text Starting = ''STARTING''"
| "state_text Initializing = ''INITIALIZING''"
| "state_text Ready = ''READY''"
| "state_text Draining = ''DRAINING''"
| "state_text Stopping = ''STOPPING''"
| "state_text Stopped = ''STOPPED''"
| "state_text Crashed = ''CRASHED''"
| "state_text Poisoned = ''POISONED''"
| "state_text (StateText t) = t"

fun index_of :: "'a \<Rightarrow> 'a list \<Rightarrow> nat" where
  "index_of x [] = 0"
| "index_of x (y # ys) = (if x = y then 0 else Suc (index_of x ys))"

text \<open>\<open>stateRank\<close>: the position in the public order, 8 for any other text.\<close>

definition stateRank :: "State \<Rightarrow> nat" where
  "stateRank st = index_of st PublicStates"

definition terminal_record :: "string \<Rightarrow> managedLifecycle \<Rightarrow> TerminalRecord" where
  "terminal_record sid s = \<lparr>TSessionID = sid, TManagerSeq = lastUseManagerSeq s, TLocalSeq = nextEvent s,
     TCreationManagerSeq = creationManagerSeq s, TLastUseManagerSeq = lastUseManagerSeq s, TState = state s\<rparr>"

definition orderedRecords :: "string \<Rightarrow> string \<Rightarrow> Manager \<Rightarrow> TerminalRecord list" where
  "orderedRecords sid order m =
     (let records = map (\<lambda>(i, s). terminal_record i s) (filter (\<lambda>(i, s). sid = '''' \<or> i = sid) (lifecycles m))
      in if order = sessionLocalOrder then sort_key TLocalSeq records
         else sort_key (\<lambda>r. (stateRank (TState r), TLastUseManagerSeq r, TCreationManagerSeq r, TSessionID r)) records)"

definition record_json :: "TerminalRecord \<Rightarrow> string" where
  "record_json r =
     ''{'' @ json_string ''SessionID'' @ '':'' @ json_string (TSessionID r) @
     '','' @ json_string ''ManagerSeq'' @ '':'' @ dec_u64 (TManagerSeq r) @
     '','' @ json_string ''LocalSeq'' @ '':'' @ dec_u64 (TLocalSeq r) @
     '','' @ json_string ''CreationManagerSeq'' @ '':'' @ dec_u64 (TCreationManagerSeq r) @
     '','' @ json_string ''LastUseManagerSeq'' @ '':'' @ dec_u64 (TLastUseManagerSeq r) @
     '','' @ json_string ''State'' @ '':'' @ json_string (state_text (TState r)) @ ''}''"

definition listSnapshotID :: "(string \<Rightarrow> string) \<Rightarrow> u64 \<Rightarrow> string \<Rightarrow> string \<Rightarrow> TerminalRecord list \<Rightarrow> string" where
  "listSnapshotID digest event filt order records =
     ''list-'' @ dec_u64 event @ ''-'' @
     digest (''{'' @ json_string ''filter'' @ '':'' @ json_string filt @
             '','' @ json_string ''order'' @ '':'' @ json_string order @
             '','' @ json_string ''records'' @ '':['' @ json_join (map record_json records) @ '']}'')"

fun trim_snapshots :: "string list \<Rightarrow> Manager \<Rightarrow> Manager" where
  "trim_snapshots [] m = m"
| "trim_snapshots (ident # rest) m =
     (if int (Suc (length rest)) > maxSnapshots m then trim_snapshots rest (dropListSnapshot ident m) else m)"

definition retainListSnapshot :: "string \<Rightarrow> TerminalRecord list \<Rightarrow> Manager \<Rightarrow> Manager" where
  "retainListSnapshot ident records m =
     (let m1 = (if map_of (listSnapshots m) ident = None
                then m\<lparr>listSnapshots := AList.update ident records (listSnapshots m),
                       snapshotOrder := snapshotOrder m @ [ident]\<rparr>
                else m);
          m2 = m1\<lparr>snapshotExpiry := AList.update ident (nextManagerEvent m1 + cursorTTL m1) (snapshotExpiry m1)\<rparr>
      in trim_snapshots (snapshotOrder m2) m2)"

fun trim_cursors :: "int \<Rightarrow> string list \<Rightarrow> (string, string) go_map \<Rightarrow> string list \<times> (string, string) go_map" where
  "trim_cursors n [] issued = ([], issued)"
| "trim_cursors n (c # cs) issued =
     (if int (Suc (length cs)) > n then trim_cursors n cs (AList.delete c issued) else (c # cs, issued))"

definition retainListCursor :: "string \<Rightarrow> string \<Rightarrow> Manager \<Rightarrow> Manager" where
  "retainListCursor cursor snapshot m =
     (let order = (if map_of (issuedCursors m) cursor = None then cursorOrder m @ [cursor] else cursorOrder m)
      in case trim_cursors (maxSnapshots m) order (AList.update cursor snapshot (issuedCursors m)) of
           (order', issued) \<Rightarrow> m\<lparr>cursorOrder := order', issuedCursors := issued\<rparr>)"

definition invalidPage :: Page where
  "invalidPage = \<lparr>Records = [], NextCursor = '''', Truncated = False, Code = ListCursorInvalid\<rparr>"

text \<open>The second half of \<open>List\<close>: cut the page out of the records and issue the next cursor.\<close>

definition list_page :: "(string \<Rightarrow> string) \<Rightarrow> (listCursor \<Rightarrow> string) \<Rightarrow> ListOptions \<Rightarrow> string \<Rightarrow> u64 \<Rightarrow> int
    \<Rightarrow> TerminalRecord list \<Rightarrow> Manager \<Rightarrow> Page \<times> Manager" where
  "list_page digest enc opts order event start records m =
     (let limit = (if Limit opts \<le> 0 \<or> Limit opts > maxListPage m then maxListPage m else Limit opts);
          fin = min (start + limit) (int (length records));
          page = \<lparr>Records = go_slice records (nat start) (nat fin), NextCursor = '''',
                  Truncated = fin < int (length records), Code = NoFailure\<rparr>
      in if Truncated page then
           (let sid = listSnapshotID digest event (OSessionID opts) order records;
                cur = enc \<lparr>Version = listCursorVersion, Filter = OSessionID opts, Order = order,
                           Snapshot = sid, CPosition = fin\<rparr>
            in (page\<lparr>NextCursor := cur\<rparr>, retainListCursor cur sid (retainListSnapshot sid records m)))
         else (page, m))"

definition List :: "(string \<Rightarrow> string) \<Rightarrow> (listCursor \<Rightarrow> string) \<Rightarrow> (string \<Rightarrow> listCursor option) \<Rightarrow> ListOptions \<Rightarrow> Manager
    \<Rightarrow> Page \<times> Manager" where
  "List digest enc decode opts m =
     (let order = (if OSessionID opts \<noteq> '''' then sessionLocalOrder else managerGlobalOrder) in
      if Cursor opts \<noteq> '''' then
        (let m1 = expireListState m in
         case (map_of (issuedCursors m1) (Cursor opts), decode (Cursor opts)) of
           (Some issued, Some c) \<Rightarrow>
             if issued \<noteq> Snapshot c \<or> Version c \<noteq> listCursorVersion \<or> Filter c \<noteq> OSessionID opts \<or> Order c \<noteq> order
             then (invalidPage, m1)
             else (case map_of (listSnapshots m1) (Snapshot c) of
                 None \<Rightarrow> (invalidPage, m1)
               | Some snapshot \<Rightarrow>
                   if CPosition c \<le> 0 \<or> CPosition c \<ge> int (length snapshot) then (invalidPage, m1)
                   else list_page digest enc opts order 0 (CPosition c) snapshot m1)
         | _ \<Rightarrow> (invalidPage, m1))
      else
        (case allocateManagerEvent m of (event, m1) \<Rightarrow>
           list_page digest enc opts order event 0 (orderedRecords (OSessionID opts) order m1) m1))"

end
