(* ===== verification/Session_Invariants.thy ===== *)
theory Session_Invariants
  imports Session_Manager Transition_System "HOL-Library.Sublist"
begin

text \<open>
  Invariants of the session manager of \<open>Session_Manager\<close> over every sequence of its operations, and the
  functional behaviour of the operations. The first part collects what the ledger and the list state
  leave alone, so that each operation is proved from the frames of the primitives it calls.
\<close>

section \<open>Frames\<close>

text \<open>
  The ledger and the list state are separate from the rest of the manager: \<open>admin\<close> collects what
  appending to the ledger, expiring snapshots and issuing cursors leave alone.
\<close>

definition admin :: "Manager \<Rightarrow> int \<times> (string, liveRecord) go_map \<times> (string, reservation) go_map \<times>
    evictionWaiter list \<times> u64 \<times> u64 \<times> int \<times> int \<times> int \<times> u64 \<times> u64" where
  "admin m = (max_live m, live m, reservations m, waiters m, nextReservation m, nextManagerEvent m,
     maxHistory m, maxListPage m, maxSnapshots m, cursorTTL m, nextIntent m)"

lemma admin_drop [simp]: "admin (dropListSnapshot ident m) = admin m"
  and lifecycles_drop [simp]: "lifecycles (dropListSnapshot ident m) = lifecycles m"
  and ledger_drop [simp]: "lifecycleLedger (dropListSnapshot ident m) = lifecycleLedger m"
  and order_drop [simp]: "snapshotOrder (dropListSnapshot ident m) = remove1 ident (snapshotOrder m)"
  by (simp_all add: dropListSnapshot_def admin_def split: prod.splits)

lemma drop_cursors_length: "length (fst (drop_cursors ident cs issued)) \<le> length cs"
  by (induction ident cs issued rule: drop_cursors.induct) (auto split: prod.splits)

lemma cursors_drop: "length (cursorOrder (dropListSnapshot ident m)) \<le> length (cursorOrder m)"
  using drop_cursors_length [of ident "cursorOrder m" "issuedCursors m"]
  by (auto simp: dropListSnapshot_def split: prod.splits)

lemma expire_loop_frame:
  "admin (expire_loop ids m) = admin m \<and> lifecycles (expire_loop ids m) = lifecycles m
   \<and> lifecycleLedger (expire_loop ids m) = lifecycleLedger m
   \<and> length (snapshotOrder (expire_loop ids m)) \<le> length (snapshotOrder m)
   \<and> length (cursorOrder (expire_loop ids m)) \<le> length (cursorOrder m)"
proof (induction ids arbitrary: m)
  case (Cons i ids)
  have "length (remove1 i (snapshotOrder m)) \<le> length (snapshotOrder m)" by (simp add: length_remove1)
  with Cons [of "dropListSnapshot i m"] cursors_drop [of i m] show ?case by (auto intro: le_trans)
qed simp

lemmas expire_frame [simp] =
  expire_loop_frame [of "snapshotOrder m" m for m, folded expireListState_def, THEN conjunct1]
  expire_loop_frame [of "snapshotOrder m" m for m, folded expireListState_def, THEN conjunct2, THEN conjunct1]
  expire_loop_frame [of "snapshotOrder m" m for m, folded expireListState_def, THEN conjunct2, THEN conjunct2,
    THEN conjunct1]

lemmas expire_lengths =
  expire_loop_frame [of "snapshotOrder m" m for m, folded expireListState_def, THEN conjunct2, THEN conjunct2,
    THEN conjunct2]

lemma admin_upd [simp]: "admin (upd_lifecycle sid f m) = admin m"
  by (simp add: upd_lifecycle_def admin_def split: option.splits)

lemma admin_ledger [simp]: "admin (m\<lparr>lifecycleLedger := l\<rparr>) = admin m"
  by (simp add: admin_def)

lemma admin_append [simp]: "admin (appendLifecycle sid gen act iid cid st kind failure m) = admin m"
  by (simp add: appendLifecycle_def Let_def split: option.splits)

lemma admin_eq: "admin m' = admin m \<Longrightarrow>
    max_live m' = max_live m \<and> live m' = live m \<and> reservations m' = reservations m \<and> waiters m' = waiters m \<and>
    maxSnapshots m' = maxSnapshots m \<and> nextManagerEvent m' = nextManagerEvent m \<and> nextIntent m' = nextIntent m"
  by (simp add: admin_def)

lemmas append_frame [simp] = admin_append [THEN admin_eq, THEN conjunct1]
  admin_append [THEN admin_eq, THEN conjunct2, THEN conjunct1]
  admin_append [THEN admin_eq, THEN conjunct2, THEN conjunct2, THEN conjunct1]
  admin_append [THEN admin_eq, THEN conjunct2, THEN conjunct2, THEN conjunct2, THEN conjunct1]

lemma mkeys_upd [simp]: "mkeys (lifecycles (upd_lifecycle sid f m)) = mkeys (lifecycles m)"
  by (auto simp: upd_lifecycle_def mkeys_update_old split: option.splits)

lemma map_of_upd [simp]: "map_of (lifecycles (upd_lifecycle sid f m)) k =
    (if k = sid then map_option f (map_of (lifecycles m) k) else map_of (lifecycles m) k)"
  by (auto simp: upd_lifecycle_def split: option.splits)

definition bump :: "managedLifecycle \<Rightarrow> managedLifecycle" where
  "bump s = (if nextEvent s = - 1 then s else s\<lparr>nextEvent := nextEvent s + 1\<rparr>)"

lemma map_of_append [simp]: "map_of (lifecycles (appendLifecycle sid gen act iid cid st kind failure m)) k =
    (if k = sid then map_option bump (map_of (lifecycles m) k) else map_of (lifecycles m) k)"
  by (auto simp: appendLifecycle_def Let_def bump_def split: option.splits)

lemma mkeys_append [simp]: "mkeys (lifecycles (appendLifecycle sid gen act iid cid st kind failure m)) =
    mkeys (lifecycles m)"
  by (simp add: appendLifecycle_def Let_def split: option.splits)

lemma bump_fields [simp]:
  "generation (bump s) = generation s" "state (bump s) = state s" "reaped (bump s) = reaped s"
  "hasWork (bump s) = hasWork s" "incumbent (bump s) = incumbent s" "history (bump s) = history s"
  "unsafe (bump s) = unsafe s" "queued (bump s) = queued s" "active (bump s) = active s"
  "lastUseManagerSeq (bump s) = lastUseManagerSeq s" "creationManagerSeq (bump s) = creationManagerSeq s"
  by (simp_all add: bump_def)

section \<open>The invariant\<close>

definition intent_ok :: "lifecycleIntent \<Rightarrow> bool" where
  "intent_ok i \<longleftrightarrow> \<not> i_terminal i \<and> distinct (mkeys (callers i)) \<and> callers i \<noteq> [] \<and>
     length (callers i) \<le> defaultMaxIntentCallers"

definition lc_hist :: "managedLifecycle \<Rightarrow> bool" where
  "lc_hist s \<longleftrightarrow> length (history s) \<le> defaultMaxIntentHistory \<and> (\<forall>i \<in> set (history s). i_terminal i)"

definition lc_ok :: "managedLifecycle \<Rightarrow> bool" where
  "lc_ok s \<longleftrightarrow> lc_hist s \<and>
     (\<forall>i. incumbent s = Some i \<longrightarrow> intent_ok i \<and> targetGeneration i = generation s)"

definition lcs :: "(string \<Rightarrow> managedLifecycle \<Rightarrow> bool) \<Rightarrow> Manager \<Rightarrow> bool" where
  "lcs P m \<longleftrightarrow> distinct (mkeys (lifecycles m)) \<and> (\<forall>k s. map_of (lifecycles m) k = Some s \<longrightarrow> P k s)"

definition lists_ok :: "Manager \<Rightarrow> bool" where
  "lists_ok m \<longleftrightarrow> length (lifecycleLedger m) \<le> defaultMaxLifecycleLedger \<and> 0 < maxSnapshots m \<and>
     int (length (snapshotOrder m)) \<le> maxSnapshots m \<and> int (length (cursorOrder m)) \<le> maxSnapshots m"

definition live_ok :: "Manager \<Rightarrow> bool" where
  "live_ok m \<longleftrightarrow> 0 < max_live m \<and> distinct (mkeys (live m)) \<and> int (length (live m)) \<le> max_live m \<and>
     (\<forall>sid r. map_of (live m) sid = Some r \<longrightarrow>
        sid \<noteq> '''' \<and> live_sessionID r = sid \<and> sid \<in> set (mkeys (lifecycles m)))"

definition queue_ok :: "Manager \<Rightarrow> bool" where
  "queue_ok m \<longleftrightarrow> distinct (mkeys (reservations m)) \<and> int (length (waiters m)) \<le> max_live m \<and>
     distinct (map w_contender (waiters m)) \<and> (\<forall>w \<in> set (waiters m). w_contender w \<noteq> '''')"

definition mgr_inv :: "Manager \<Rightarrow> bool" where
  "mgr_inv m \<longleftrightarrow> lcs (\<lambda>_. lc_ok) m \<and> lists_ok m \<and> live_ok m \<and> queue_ok m"

definition quiet :: "Manager \<Rightarrow> Manager \<Rightarrow> bool" where
  "quiet m m' \<longleftrightarrow> max_live m' = max_live m \<and> live m' = live m \<and> reservations m' = reservations m \<and>
     waiters m' = waiters m \<and> mkeys (lifecycles m') = mkeys (lifecycles m) \<and> (lists_ok m \<longrightarrow> lists_ok m')"

lemma quiet_refl [simp]: "quiet m m"
  by (simp add: quiet_def)

lemma quiet_ok: "quiet m m' \<Longrightarrow> lists_ok m \<Longrightarrow> lists_ok m'"
  "quiet m m' \<Longrightarrow> live_ok m \<Longrightarrow> live_ok m'" "quiet m m' \<Longrightarrow> queue_ok m \<Longrightarrow> queue_ok m'"
  by (auto simp: quiet_def live_ok_def queue_ok_def)

lemma lists_ok_append: "lists_ok m \<Longrightarrow> lists_ok (appendLifecycle sid gen act iid cid st kind failure m)"
proof (cases "map_of (lifecycles m) sid")
  case (Some s)
  assume ok: "lists_ok m"
  show ?thesis
  proof (cases "nextEvent s = - 1")
    case False
    let ?m1 = "upd_lifecycle sid (\<lambda>s. s\<lparr>nextEvent := nextEvent s + 1\<rparr>) m"
    obtain l where l: "appendLifecycle sid gen act iid cid st kind failure m =
        (expireListState (?m1\<lparr>lifecycleLedger := l\<rparr>))
          \<lparr>lifecycleLedger := keep_last defaultMaxLifecycleLedger
             (lifecycleLedger (expireListState (?m1\<lparr>lifecycleLedger := l\<rparr>)))\<rparr>"
      using Some False by (auto simp: appendLifecycle_def Let_def)
    have m1: "snapshotOrder ?m1 = snapshotOrder m" "cursorOrder ?m1 = cursorOrder m" "maxSnapshots ?m1 = maxSnapshots m"
      by (simp_all add: upd_lifecycle_def split: option.splits)
    have "maxSnapshots (expireListState (?m1\<lparr>lifecycleLedger := l\<rparr>)) = maxSnapshots (?m1\<lparr>lifecycleLedger := l\<rparr>)"
      by (rule admin_eq [OF expire_frame(1), THEN conjunct2, THEN conjunct2, THEN conjunct2, THEN conjunct2,
          THEN conjunct1])
    with ok m1 expire_lengths [of "?m1\<lparr>lifecycleLedger := l\<rparr>"] show ?thesis
      unfolding l lists_ok_def keep_last_def by auto
  qed (simp add: appendLifecycle_def Some ok)
qed (simp add: appendLifecycle_def)

lemma lists_ok_upd: "lists_ok (upd_lifecycle sid f m) = lists_ok m"
  by (simp add: lists_ok_def upd_lifecycle_def split: option.splits)

lemma upd_frame [simp]:
  "max_live (upd_lifecycle sid f m) = max_live m" "live (upd_lifecycle sid f m) = live m"
  "reservations (upd_lifecycle sid f m) = reservations m" "waiters (upd_lifecycle sid f m) = waiters m"
  by (simp_all add: upd_lifecycle_def split: option.splits)

lemma quiet_append [inv_intros]:
  "quiet m m' \<Longrightarrow> quiet m (appendLifecycle sid gen act iid cid st kind failure m')"
  by (auto simp: quiet_def lists_ok_append)

lemma quiet_upd [inv_intros]: "quiet m m' \<Longrightarrow> quiet m (upd_lifecycle sid f m')"
  by (auto simp: quiet_def lists_ok_upd)

lemma quiet_nextIntent [inv_intros]: "quiet m m' \<Longrightarrow> quiet m (m'\<lparr>nextIntent := n\<rparr>)"
  by (auto simp: quiet_def lists_ok_def)

lemma quiet_observe [inv_intros]: "quiet m m' \<Longrightarrow> quiet m (observeLifecycleDecision sid s act q m')"
  unfolding observeLifecycleDecision_def by (intro inv_intros)

lemma quiet_observe_if [inv_intros]: "quiet m m' \<Longrightarrow> quiet m (observe_if b act sid s i m')"
  unfolding observe_if_def by (auto intro: inv_intros)

lemma quiet_terminalize [inv_intros]: "quiet m m' \<Longrightarrow> quiet m (snd (terminalizeLifecycle sid r m'))"
  unfolding terminalizeLifecycle_def by (auto simp: Let_def intro!: inv_intros split: option.splits)

lemma quiet_bind_loop [inv_intros]: "quiet m m' \<Longrightarrow> quiet m (bind_loop sid gen i cids m')"
  by (induction cids arbitrary: m') (simp_all add: quiet_append quiet_upd)

section \<open>Lifecycles under the primitives\<close>

definition bump_stable :: "(string \<Rightarrow> managedLifecycle \<Rightarrow> bool) \<Rightarrow> bool" where
  "bump_stable P \<longleftrightarrow> (\<forall>k s. P k s \<longrightarrow> P k (bump s))"

lemma bump_stable_ok [simp]: "bump_stable (\<lambda>_. lc_ok)"
  by (simp add: bump_stable_def lc_ok_def lc_hist_def)

lemma lcs_append: "lcs P m \<Longrightarrow> bump_stable P \<Longrightarrow> lcs P (appendLifecycle sid gen act iid cid st kind failure m)"
  by (auto simp: lcs_def bump_stable_def split: if_splits)

lemma lcs_upd:
  assumes "lcs P m" and "\<And>k s. k \<noteq> sid \<Longrightarrow> P k s \<Longrightarrow> P' k s" and "\<And>s. map_of (lifecycles m) sid = Some s \<Longrightarrow> P sid s \<Longrightarrow> P' sid (f s)"
  shows "lcs P' (upd_lifecycle sid f m)"
  using assms by (auto simp: lcs_def split: if_splits)

lemma lcs_nextIntent [simp]: "lcs P (m\<lparr>nextIntent := n\<rparr>) = lcs P m"
  by (simp add: lcs_def)

lemma lcs_observe: "lcs P m \<Longrightarrow> bump_stable P \<Longrightarrow> lcs P (observeLifecycleDecision sid s act q m)"
  unfolding observeLifecycleDecision_def by (rule lcs_append)

lemma lcs_observe_if: "lcs P m \<Longrightarrow> bump_stable P \<Longrightarrow> lcs P (observe_if b act sid s i m)"
  unfolding observe_if_def by (simp add: lcs_append)

text \<open>While a completion runs, its session has an incumbent whose generation may already have moved on.\<close>

definition closing :: "string \<Rightarrow> string \<Rightarrow> managedLifecycle \<Rightarrow> bool" where
  "closing sid k s \<longleftrightarrow> (if k = sid then lc_hist s else lc_ok s)"

lemma bump_stable_closing [simp]: "bump_stable (closing sid)"
  by (simp add: bump_stable_def closing_def lc_ok_def lc_hist_def)

lemma lcs_closing: "lcs (\<lambda>_. lc_ok) m \<Longrightarrow> lcs (closing sid) m"
  by (auto simp: lcs_def closing_def lc_ok_def)

lemma keep_last_length: "length (keep_last n xs) \<le> n"
  by (simp add: keep_last_def)

lemma set_keep_last: "set (keep_last n xs) \<subseteq> set xs"
  by (simp add: keep_last_def set_drop_subset)

lemma lc_hist_close: "lc_hist s \<Longrightarrow> lc_hist (s\<lparr>state := st,
    history := keep_last defaultMaxIntentHistory (history s @ [close_intent r i]), incumbent := None\<rparr>)"
  using set_keep_last [of defaultMaxIntentHistory "history s @ [close_intent r i]"]
  by (auto simp: lc_hist_def keep_last_length close_intent_def)

lemma lcs_terminalize:
  assumes "lcs (closing sid) m" and "\<And>s. map_of (lifecycles m) sid = Some s \<Longrightarrow> incumbent s \<noteq> None"
  shows "lcs (\<lambda>_. lc_ok) (snd (terminalizeLifecycle sid r m))"
proof (cases "map_of (lifecycles m) sid")
  case None
  have "lc_ok s" if "map_of (lifecycles m) k = Some s" for k s
    using assms(1) None that by (cases "k = sid") (auto simp: lcs_def closing_def)
  with assms(1) None show ?thesis by (simp add: terminalizeLifecycle_def lcs_def)
next
  case (Some s)
  then obtain i where i: "incumbent s = Some i" using assms(2) by auto
  show ?thesis
    using Some i assms(1)
    by (auto simp: terminalizeLifecycle_def Let_def closing_def lc_ok_def lc_hist_close
        intro!: lcs_append lcs_upd [where P = "closing sid"])
qed

lemma lcs_closing_upd:
  "lcs (closing sid) m \<Longrightarrow> (\<And>s. history (f s) = history s) \<Longrightarrow> lcs (closing sid) (upd_lifecycle sid f m)"
  by (rule lcs_upd [where P = "closing sid"]) (auto simp: closing_def lc_hist_def)

lemma lcs_bind_loop: "lcs (closing sid) m \<Longrightarrow> lcs (closing sid) (bind_loop sid gen i cids m)"
  by (induction cids arbitrary: m) (simp_all add: lcs_append lcs_closing_upd)

section \<open>Lifecycle operations\<close>

lemma lcs_get: "lcs P m \<Longrightarrow> map_of (lifecycles m) sid = Some s \<Longrightarrow> P sid s"
  by (auto simp: lcs_def)

lemma lcs_ok_upd:
  assumes "lcs (\<lambda>_. lc_ok) m" and "\<And>s. map_of (lifecycles m) sid = Some s \<Longrightarrow> lc_ok s \<Longrightarrow> lc_ok (f s)"
  shows "lcs (\<lambda>_. lc_ok) (upd_lifecycle sid f m)"
  using assms by (auto intro: lcs_upd)

lemma lc_ok_state [simp]: "lc_ok (s\<lparr>state := st\<rparr>) = lc_ok s" "lc_ok (s\<lparr>lastUseManagerSeq := n\<rparr>) = lc_ok s"
  by (simp_all add: lc_ok_def lc_hist_def)

lemma lc_ok_set_incumbent:
  "lc_ok s \<Longrightarrow> intent_ok i \<Longrightarrow> targetGeneration i = generation s \<Longrightarrow> lc_ok (set_incumbent (Some i) s)"
  by (simp add: lc_ok_def lc_hist_def set_incumbent_def)

lemma intent_ok_newIntent [simp]: "intent_ok (newIntent iid kind gen cid)"
  by (simp add: intent_ok_def newIntent_def defaultMaxIntentCallers_def)

lemma intent_ok_join:
  "intent_ok i \<Longrightarrow> map_of (callers i) cid = None \<Longrightarrow> length (callers i) < defaultMaxIntentCallers \<Longrightarrow>
     intent_ok (i\<lparr>callers := AList.update cid c (callers i)\<rparr>)"
  by (auto simp: intent_ok_def length_update_new distinct_update update_nonempty)

lemma intent_ok_replace:
  "intent_ok i \<Longrightarrow> map_of (callers i) cid = Some c0 \<Longrightarrow> intent_ok (i\<lparr>callers := AList.update cid c (callers i)\<rparr>)"
  by (auto simp: intent_ok_def length_update_old distinct_update update_nonempty)

lemma lifecycle_join_ok:
  assumes "lcs (\<lambda>_. lc_ok) m" and "map_of (lifecycles m) (RSessionID q) = Some s" and "incumbent s = Some i"
  shows "lcs (\<lambda>_. lc_ok) (snd (lifecycle_join q s i kind m))" and "quiet m (snd (lifecycle_join q s i kind m))"
proof -
  have ok: "lc_ok s" "intent_ok i" using lcs_get [OF assms(1,2)] assms(3) by (auto simp: lc_ok_def)
  have "lc_ok (set_incumbent (Some (i\<lparr>callers := AList.update (RCallerID q) newCaller (callers i)\<rparr>)) s)"
    if "map_of (callers i) (RCallerID q) = None" "length (callers i) < defaultMaxIntentCallers"
      "targetGeneration i = generation s"
    using ok that by (intro lc_ok_set_incumbent intent_ok_join) auto
  then show "lcs (\<lambda>_. lc_ok) (snd (lifecycle_join q s i kind m))"
    using assms by (auto simp: lifecycle_join_def not_le intro!: lcs_observe lcs_append lcs_ok_upd)
  show "quiet m (snd (lifecycle_join q s i kind m))"
    by (simp add: lifecycle_join_def quiet_observe quiet_append quiet_upd)
qed

lemma lifecycle_fresh_ok:
  assumes "lcs (\<lambda>_. lc_ok) m" and "map_of (lifecycles m) (RSessionID q) = Some s"
  shows "lcs (\<lambda>_. lc_ok) (snd (lifecycle_fresh q s kind m))" and "quiet m (snd (lifecycle_fresh q s kind m))"
proof -
  have "lc_ok (s\<lparr>incumbent := Some (newIntent iid kind (generation s) cid), hasWork := w, state := st\<rparr>)"
    if "lc_ok s" for iid cid w st s
    using that by (simp add: lc_ok_def lc_hist_def) (simp add: newIntent_def)
  then have "lcs (\<lambda>_. lc_ok) (snd (lifecycle_insert q s kind m))"
    using assms by (auto simp: lifecycle_insert_def Let_def intro!: lcs_append lcs_ok_upd)
  then show "lcs (\<lambda>_. lc_ok) (snd (lifecycle_fresh q s kind m))"
    using assms by (auto simp: lifecycle_fresh_def intro!: lcs_observe lcs_append lcs_ok_upd)
  show "quiet m (snd (lifecycle_fresh q s kind m))"
    by (simp add: lifecycle_fresh_def lifecycle_insert_def Let_def quiet_observe quiet_append quiet_upd quiet_nextIntent)
qed

lemma Lifecycle_ok:
  assumes "lcs (\<lambda>_. lc_ok) m"
  shows "lcs (\<lambda>_. lc_ok) (snd (Lifecycle q m)) \<and> quiet m (snd (Lifecycle q m))"
proof (cases "map_of (lifecycles m) (RSessionID q)")
  case None
  with assms show ?thesis by (simp add: Lifecycle_def)
next
  case (Some s)
  note j = lifecycle_join_ok [OF assms Some] and f = lifecycle_fresh_ok [OF assms Some]
  show ?thesis
    using assms Some j f
    by (auto simp: Lifecycle_def Let_def intro!: lcs_observe lcs_append quiet_observe quiet_append
        split: option.splits)
qed

lemma complete_restart_ok:
  assumes "lcs (closing sid) m" and inc: "\<And>s. map_of (lifecycles m) sid = Some s \<Longrightarrow> incumbent s \<noteq> None"
  shows "lcs (\<lambda>_. lc_ok) (snd (complete_restart sid s i ob m))" and "quiet m (snd (complete_restart sid s i ob m))"
proof -
  have bind: "incumbent s' \<noteq> None"
    if "map_of (lifecycles (bind_loop sid gen i cids m')) sid = Some s'"
      "\<And>s'. map_of (lifecycles m') sid = Some s' \<Longrightarrow> incumbent s' \<noteq> None" for gen cids s' m'
    using that by (induction cids arbitrary: m') fastforce+
  show "lcs (\<lambda>_. lc_ok) (snd (complete_restart sid s i ob m))"
    unfolding complete_restart_def Let_def
    by (auto intro!: lcs_terminalize lcs_append lcs_closing_upd lcs_bind_loop assms(1) dest!: bind) (auto dest!: inc)
  show "quiet m (snd (complete_restart sid s i ob m))"
    by (simp add: complete_restart_def Let_def quiet_terminalize quiet_append quiet_upd quiet_bind_loop)
qed

lemma observe_if_lookup: "map_of (lifecycles (observe_if b act sid s i m)) k =
    (if b \<and> k = sid then map_option bump (map_of (lifecycles m) k) else map_of (lifecycles m) k)"
  by (simp add: observe_if_def)

lemma CompleteLifecycleObserved_ok:
  assumes "lcs (\<lambda>_. lc_ok) m"
  shows "lcs (\<lambda>_. lc_ok) (snd (CompleteLifecycleObserved sid iid ob m)) \<and>
         quiet m (snd (CompleteLifecycleObserved sid iid ob m))"
proof (cases "map_of (lifecycles m) sid")
  case None
  with assms show ?thesis by (simp add: CompleteLifecycleObserved_def)
next
  case (Some s)
  show ?thesis
  proof (cases "\<exists>i. incumbent s = Some i \<and> i_id i = iid")
    case False
    with Some assms show ?thesis
      by (auto simp: CompleteLifecycleObserved_def lcs_append quiet_append split: option.splits)
  next
    case True
    then obtain i where i: "incumbent s = Some i" "i_id i = iid" by blast
    define m1 where "m1 = observe_if (CReaped ob) ''reap'' sid s i
      (observe_if (StderrDrainComplete ob) ''drain'' sid s i (observe_if (DeathObserved ob) ''death'' sid s i m))"
    have lcs1: "lcs (closing sid) m1"
      unfolding m1_def by (intro lcs_observe_if bump_stable_closing lcs_closing assms)
    have inc: "incumbent s' \<noteq> None" if "map_of (lifecycles m1) sid = Some s'" for s'
      using that Some i by (auto simp: m1_def observe_if_lookup split: if_splits)
    have q: "quiet m m1" by (simp add: m1_def quiet_observe_if)
    let ?res = "CompleteLifecycleObserved sid iid ob m"
    consider (fail) "firstTeardownFailure ob \<noteq> NoFailure"
      | (restart) "firstTeardownFailure ob = NoFailure" "i_kind i = RestartIntent"
      | (stop) "firstTeardownFailure ob = NoFailure" "i_kind i \<noteq> RestartIntent" by blast
    then show ?thesis
    proof cases
      case fail
      then have "snd ?res = snd (terminalizeLifecycle sid
          (classifyLifecycleResult (zeroResult\<lparr>LState := Poisoned, LGeneration := generation s,
             IntentID := i_id i, LKind := i_kind i, LFailure := firstTeardownFailure ob\<rparr>))
          (appendLifecycle sid (generation s) ''poison'' (i_id i) '''' Poisoned (i_kind i) (firstTeardownFailure ob) m1))"
        using Some i by (simp add: CompleteLifecycleObserved_def Let_def m1_def)
      with lcs1 inc q show ?thesis
        by (auto intro!: lcs_terminalize lcs_append quiet_terminalize quiet_append)
    next
      case restart
      then have "snd ?res = snd (complete_restart sid s i ob m1)"
        using Some i by (simp add: CompleteLifecycleObserved_def Let_def m1_def)
      with complete_restart_ok [OF lcs1 inc] q show ?thesis
        by (auto simp: quiet_def)
    next
      case stop
      then have "snd ?res = snd (terminalizeLifecycle sid
          (classifyLifecycleResult (zeroResult\<lparr>LState := Stopped, LGeneration := generation s,
             IntentID := i_id i, LKind := i_kind i\<rparr>))
          (upd_lifecycle sid (\<lambda>s. s\<lparr>reaped := True, state := Stopped\<rparr>) m1))"
        using Some i by (simp add: CompleteLifecycleObserved_def Let_def m1_def)
      with lcs1 inc q show ?thesis
        by (auto intro!: lcs_terminalize lcs_closing_upd quiet_terminalize quiet_upd)
    qed
  qed
qed

lemma DetachLifecycleCaller_ok:
  assumes "lcs (\<lambda>_. lc_ok) m"
  shows "lcs (\<lambda>_. lc_ok) (snd (DetachLifecycleCaller sid iid cid failure m)) \<and>
         quiet m (snd (DetachLifecycleCaller sid iid cid failure m))"
proof -
  have "lc_ok (set_incumbent (Some (i\<lparr>callers := AList.update cid c' (callers i)\<rparr>)) s)"
    if "map_of (lifecycles m) sid = Some s" "incumbent s = Some i" "map_of (callers i) cid = Some c" for s i c c'
    using lcs_get [OF assms that(1)] that(2,3)
    by (intro lc_ok_set_incumbent intent_ok_replace) (auto simp: lc_ok_def)
  then show ?thesis
    using assms
    by (auto simp: DetachLifecycleCaller_def Let_def intro!: lcs_append lcs_ok_upd quiet_append quiet_upd
        split: option.splits)
qed

lemma ObserveInitialization_ok:
  assumes "lcs (\<lambda>_. lc_ok) m"
  shows "lcs (\<lambda>_. lc_ok) (snd (ObserveInitialization sid gen ok m)) \<and>
         quiet m (snd (ObserveInitialization sid gen ok m))"
  using assms by (auto simp: ObserveInitialization_def intro!: lcs_append lcs_ok_upd quiet_append quiet_upd
        split: option.splits)

lemma ObservePoison_ok:
  assumes "lcs (\<lambda>_. lc_ok) m"
  shows "lcs (\<lambda>_. lc_ok) (snd (ObservePoison sid gen m)) \<and> quiet m (snd (ObservePoison sid gen m))"
  using assms by (auto simp: ObservePoison_def intro!: lcs_append lcs_ok_upd quiet_append quiet_upd
        split: option.splits)

section \<open>Admission and eviction\<close>

lemma quiet_inv: "mgr_inv m \<Longrightarrow> quiet m m' \<Longrightarrow> lcs (\<lambda>_. lc_ok) m' \<Longrightarrow> mgr_inv m'"
  by (auto simp: mgr_inv_def dest: quiet_ok)

lemma live_ok_set_live:
  assumes "live_ok m" and "\<And>r. live_sessionID (f r) = live_sessionID r"
  shows "live_ok (set_live sid f m)"
proof (cases "map_of (live m) sid")
  case (Some r)
  with assms show ?thesis
    by (auto simp: set_live_def live_ok_def mkeys_update_old length_update_old split: if_splits)
qed (use assms in \<open>simp add: set_live_def\<close>)

lemma set_live_frame [simp]:
  "lifecycles (set_live sid f m) = lifecycles m" "lists_ok (set_live sid f m) = lists_ok m"
  "queue_ok (set_live sid f m) = queue_ok m" "max_live (set_live sid f m) = max_live m"
  "waiters (set_live sid f m) = waiters m" "length (live (set_live sid f m)) = length (live m)"
  "reservations (set_live sid f m) = reservations m"
  by (auto simp: set_live_def lists_ok_def queue_ok_def length_update_old split: option.splits)

lemma lcs_lifecycles: "lifecycles m' = lifecycles m \<Longrightarrow> lcs P m' = lcs P m"
  by (simp add: lcs_def)

lemma mgr_inv_set_live: "mgr_inv m \<Longrightarrow> (\<And>r. live_sessionID (f r) = live_sessionID r) \<Longrightarrow> mgr_inv (set_live sid f m)"
  by (auto simp: mgr_inv_def live_ok_set_live lcs_lifecycles [OF set_live_frame(1)])

lemma mgr_inv_counters [simp]:
  "mgr_inv (m\<lparr>nextManagerEvent := a\<rparr>) = mgr_inv m" "mgr_inv (m\<lparr>nextReservation := b, nextIntent := c\<rparr>) = mgr_inv m"
  by (simp_all add: mgr_inv_def lcs_def lists_ok_def live_ok_def queue_ok_def)

lemma mgr_inv_reservations:
  "mgr_inv m \<Longrightarrow> distinct (mkeys rs) \<Longrightarrow> mgr_inv (m\<lparr>reservations := rs\<rparr>)"
  by (simp add: mgr_inv_def lcs_def lists_ok_def live_ok_def queue_ok_def)

lemma mgr_inv_waiters:
  "mgr_inv m \<Longrightarrow> int (length ws) \<le> max_live m \<Longrightarrow> distinct (map w_contender ws) \<Longrightarrow>
     (\<forall>w \<in> set ws. w_contender w \<noteq> '''') \<Longrightarrow> mgr_inv (m\<lparr>waiters := ws\<rparr>)"
  by (simp add: mgr_inv_def lcs_def lists_ok_def live_ok_def queue_ok_def)

lemma mgr_inv_distinct [simp]: "mgr_inv m \<Longrightarrow> distinct (mkeys (reservations m))"
  by (simp add: mgr_inv_def queue_ok_def)

lemma reserve_inv:
  assumes "mgr_inv m" and "map_of (lifecycles m) (live_sessionID v) = Some s"
  shows "mgr_inv (snd (reserve w v s m))" and "waiters (snd (reserve w v s m)) = waiters m"
    and "max_live (snd (reserve w v s m)) = max_live m"
    and "length (live (snd (reserve w v s m))) = length (live m)"
    and "w_contender (fst (reserve w v s m)) = w_contender w"
proof -
  define m1 where "m1 = (set_live (live_sessionID v) (\<lambda>r. r\<lparr>reserved := True\<rparr>) m)
    \<lparr>nextReservation := nextReservation m + 1, nextIntent := nextIntent m + 1\<rparr>"
  define m3 where "m3 = appendLifecycle (live_sessionID v) (generation s) ''insert'' (''i'' @ dec_u64 (nextIntent m + 1))
    (w_contender w) (lifecycleIntentState (state s) False False) EvictIntent NoFailure
    (upd_lifecycle (live_sessionID v)
      (\<lambda>s. s\<lparr>incumbent := Some (newIntent (''i'' @ dec_u64 (nextIntent m + 1)) EvictIntent (generation s) (w_contender w)),
            state := lifecycleIntentState (state s) False False\<rparr>) m1)"
  have inv1: "mgr_inv m1" unfolding m1_def mgr_inv_counters by (rule mgr_inv_set_live [OF assms(1)]) simp
  have q: "quiet m1 m3" by (simp add: m3_def quiet_append quiet_upd)
  have "lc_ok (s\<lparr>incumbent := Some (newIntent iid EvictIntent (generation s) cid), state := st\<rparr>)" if "lc_ok s" for iid cid st s
    using that by (simp add: lc_ok_def lc_hist_def) (simp add: newIntent_def)
  with inv1 have "lcs (\<lambda>_. lc_ok) m3"
    by (auto simp: m3_def mgr_inv_def intro!: lcs_append lcs_ok_upd)
  with inv1 q have inv3: "mgr_inv m3" by (rule quiet_inv)
  have "lifecycles m1 = lifecycles m" by (simp add: m1_def)
  have upd_eq: "upd_lifecycle (live_sessionID v)
      (\<lambda>x. x\<lparr>incumbent := Some (newIntent (''i'' @ dec_u64 (nextIntent m + 1)) EvictIntent (generation x) (w_contender w)),
            state := lifecycleIntentState (state s) False False\<rparr>) m1 =
     upd_lifecycle (live_sessionID v)
      (\<lambda>s. s\<lparr>incumbent := Some (newIntent (''i'' @ dec_u64 (nextIntent m + 1)) EvictIntent (generation s) (w_contender w)),
            state := lifecycleIntentState (state s) False False\<rparr>) m1"
    using assms(2) \<open>lifecycles m1 = lifecycles m\<close> by (simp add: upd_lifecycle_def)
  have r: "snd (reserve w v s m) = m3\<lparr>reservations := AList.update (''r'' @ dec_u64 (nextReservation m + 1))
      \<lparr>res_id = ''r'' @ dec_u64 (nextReservation m + 1), victim = live_sessionID v, contender = w_contender w,
       contenderSeq = w_sequence w, victimPriorState = state s\<rparr> (reservations m3)\<rparr>"
    by (simp only: reserve_def Let_def snd_conv m3_def upd_eq m1_def [symmetric])
  show "mgr_inv (snd (reserve w v s m))"
    unfolding r by (rule mgr_inv_reservations [OF inv3]) (use inv3 in \<open>simp add: distinct_update\<close>)
  show "waiters (snd (reserve w v s m)) = waiters m" "max_live (snd (reserve w v s m)) = max_live m"
      "length (live (snd (reserve w v s m))) = length (live m)"
    unfolding r using q by (simp_all add: quiet_def m1_def)
  show "w_contender (fst (reserve w v s m)) = w_contender w" by (simp add: reserve_def Let_def)
qed

lemma reserveVictim_inv:
  assumes "mgr_inv m" and "reserveVictim w m = (ok, w', m')"
  shows "mgr_inv m'" and "waiters m' = waiters m" and "max_live m' = max_live m"
    and "length (live m') = length (live m)" and "w_contender w' = w_contender w"
proof -
  have "mgr_inv m' \<and> waiters m' = waiters m \<and> max_live m' = max_live m \<and> length (live m') = length (live m) \<and>
      w_contender w' = w_contender w"
  proof (cases "victims m")
    case Nil
    with assms show ?thesis by (auto simp: reserveVictim_def)
  next
    case (Cons v vs)
    show ?thesis
    proof (cases "map_of (lifecycles m) (live_sessionID v)")
      case None
      with Cons assms show ?thesis by (auto simp: reserveVictim_def)
    next
      case (Some s)
      with Cons assms(2) have "(w', m') = reserve w v s m" by (auto simp: reserveVictim_def)
      then have "w' = fst (reserve w v s m)" "m' = snd (reserve w v s m)" by (metis fst_conv, metis snd_conv)
      with reserve_inv [OF assms(1) Some, of w] show ?thesis by simp
    qed
  qed
  then show "mgr_inv m'" "waiters m' = waiters m" "max_live m' = max_live m"
    "length (live m') = length (live m)" "w_contender w' = w_contender w" by auto
qed

lemma lc_ok_new [simp]: "lc_ok (newLifecycle gen st rp seq)"
  by (simp add: lc_ok_def lc_hist_def newLifecycle_def)

lemma lcs_update_lifecycle:
  "lcs (\<lambda>_. lc_ok) m \<Longrightarrow> lcs (\<lambda>_. lc_ok) (m\<lparr>lifecycles := AList.update sid (newLifecycle gen st rp seq) (lifecycles m)\<rparr>)"
  by (auto simp: lcs_def distinct_update split: if_splits)

lemma add_live_frame [simp]:
  "lifecycles (add_live sid seq m) = lifecycles m" "lists_ok (add_live sid seq m) = lists_ok m"
  "queue_ok (add_live sid seq m) = queue_ok m" "max_live (add_live sid seq m) = max_live m"
  "waiters (add_live sid seq m) = waiters m"
  by (auto simp: add_live_def lists_ok_def queue_ok_def)

text \<open>A new session enters the live set with its lifecycle, when there is room.\<close>

lemma admit_new_inv:
  assumes "mgr_inv m" and "sid \<noteq> ''''" and "map_of (live m) sid = None" and "int (length (live m)) < max_live m"
  shows "mgr_inv (admit_new sid seq (add_live sid seq m))"
proof -
  define m1 where "m1 = (add_live sid seq m)\<lparr>lifecycles := AList.update sid (newLifecycle 1 Stopped True seq) (lifecycles m)\<rparr>"
  have "lcs (\<lambda>_. lc_ok) m1"
    using assms(1) by (auto simp: m1_def mgr_inv_def lcs_def distinct_update split: if_splits)
  moreover have "live_ok m1"
    using assms by (auto simp: m1_def add_live_def mgr_inv_def live_ok_def distinct_update length_update_new
        dom_update split: if_splits)
  moreover have "lists_ok m1" "queue_ok m1"
    using assms(1) by (auto simp: m1_def add_live_def mgr_inv_def lists_ok_def queue_ok_def)
  ultimately have "mgr_inv m1" by (simp add: mgr_inv_def)
  moreover have "admit_new sid seq (add_live sid seq m) = appendLifecycle sid 1 ''admit'' '''' '''' Stopped NoKind NoFailure m1"
    by (simp add: admit_new_def m1_def)
  ultimately show ?thesis
    by (auto simp: mgr_inv_def intro!: quiet_inv lcs_append dest: quiet_ok [OF quiet_append [OF quiet_refl]])
qed

lemma admit_kept_inv:
  assumes "mgr_inv m" and "sid \<noteq> ''''" and "map_of (live m) sid = None" and "int (length (live m)) < max_live m"
    and "map_of (lifecycles m) sid \<noteq> None"
  shows "mgr_inv (add_live sid seq m)"
proof -
  have "sid \<in> set (mkeys (lifecycles m))" using assms(5) by (simp add: map_of_eq_None_iff)
  with assms have "live_ok (add_live sid seq m)"
    by (auto simp: add_live_def mgr_inv_def live_ok_def distinct_update length_update_new split: if_splits)
  with assms(1) show ?thesis by (simp add: mgr_inv_def lcs_lifecycles [OF add_live_frame(1)])
qed

lemma admit_new_frame [simp]:
  "max_live (admit_new sid seq m) = max_live m" "waiters (admit_new sid seq m) = waiters m"
  by (simp_all add: admit_new_def)

lemma Admit_inv [inv_intros]:
  assumes "mgr_inv m"
  shows "mgr_inv (snd (Admit sid m))"
proof (cases "sid = '''' \<or> nextManagerEvent m = - 1")
  case True
  with assms show ?thesis by (simp add: Admit_def)
next
  case False
  define m1 where "m1 = m\<lparr>nextManagerEvent := nextManagerEvent m + 1\<rparr>"
  define w where "w = \<lparr>w_contender = sid, w_sequence = nextManagerEvent m + 1, w_result = blocked sid ''''\<rparr>"
  have inv1: "mgr_inv m1" using assms by (simp add: m1_def)
  obtain ok w' m2 where r: "reserveVictim w m1 = (ok, w', m2)" by (metis prod_cases3)
  note rv = reserveVictim_inv [OF inv1 r]
  have used: "mgr_inv (upd_lifecycle sid (\<lambda>s. s\<lparr>lastUseManagerSeq := n\<rparr>) m1)" for n
    using inv1 by (intro quiet_inv [OF inv1 quiet_upd]) (auto simp: mgr_inv_def intro!: lcs_ok_upd)
  have wait: "mgr_inv (m2\<lparr>waiters := waiters m2 @ [w']\<rparr>)"
    if "find (\<lambda>w. w_contender w = sid) (waiters m1) = None" "int (length (waiters m1)) < max_live m1"
  proof (rule mgr_inv_waiters [OF rv(1)])
    have "sid \<notin> w_contender ` set (waiters m1)" using that(1) by (auto simp: find_None_iff)
    moreover have "queue_ok m1" using inv1 by (simp add: mgr_inv_def)
    ultimately show "int (length (waiters m2 @ [w'])) \<le> max_live m2" "distinct (map w_contender (waiters m2 @ [w']))"
        "\<forall>w\<in>set (waiters m2 @ [w']). w_contender w \<noteq> ''''"
      using that(2) rv False by (auto simp: w_def queue_ok_def)
  qed
  show ?thesis
    unfolding Admit_def Let_def m1_def [symmetric] w_def [symmetric] r
    using False inv1 used rv(1) wait admit_new_inv [OF inv1, of sid] admit_kept_inv [OF inv1, of sid]
    by (auto split: option.splits simp: not_le)
qed

lemma reserved_victim_Some: "reserved_victim vid m = Some (s, i) \<Longrightarrow>
    map_of (lifecycles m) vid = Some s \<and> incumbent s = Some i \<and> i_kind i = EvictIntent \<and>
    (\<exists>v. map_of (live m) vid = Some v \<and> reserved v)"
  by (auto simp: reserved_victim_def split: option.splits if_splits)

lemma terminalize_inv:
  assumes "mgr_inv m" and "map_of (lifecycles m) sid = Some s" and "incumbent s = Some i"
  shows "mgr_inv (snd (terminalizeLifecycle sid r m))" and "quiet m (snd (terminalizeLifecycle sid r m))"
proof -
  show q: "quiet m (snd (terminalizeLifecycle sid r m))" by (simp add: quiet_terminalize)
  have "lcs (\<lambda>_. lc_ok) (snd (terminalizeLifecycle sid r m))"
    using assms by (intro lcs_terminalize lcs_closing) (auto simp: mgr_inv_def)
  then show "mgr_inv (snd (terminalizeLifecycle sid r m))" by (rule quiet_inv [OF assms(1) q])
qed

lemma supersede_inv:
  assumes "mgr_inv m" and "supersedeWaiterReservation w m = (ok, m')"
  shows "mgr_inv m' \<and> max_live m' = max_live m \<and> waiters m' = waiters m \<and> length (live m') = length (live m) \<and>
    set (mkeys (live m')) = set (mkeys (live m))"
proof (cases "m' = m")
  case False
  then obtain r s i where rs: "map_of (reservations m) (AReservation (w_result w)) = Some r"
      "reserved_victim (victim r) m = Some (s, i)"
    using assms(2) by (auto simp: supersedeWaiterReservation_def Let_def split: if_splits option.splits)
  define m1 where "m1 = snd (terminalizeLifecycle (victim r)
     (zeroResult\<lparr>LState := victimPriorState r, PriorState := state s, LGeneration := generation s,
                 IntentID := i_id i, LKind := EvictIntent, Superseded := True\<rparr>) m)"
  define m2 where "m2 = set_live (victim r) (\<lambda>v. v\<lparr>reserved := False\<rparr>) m1"
  have m': "m' = m2\<lparr>reservations := AList.delete (AReservation (w_result w)) (reservations m2)\<rparr>"
    using assms(2) rs False
    by (auto simp: supersedeWaiterReservation_def Let_def m1_def m2_def split: if_splits)
  from reserved_victim_Some [OF rs(2)] terminalize_inv [OF assms(1)]
  have m1: "mgr_inv m1" "quiet m m1" by (auto simp: m1_def)
  then have "mgr_inv m2" unfolding m2_def by (intro mgr_inv_set_live) auto
  moreover have "set (mkeys (live m2)) = set (mkeys (live m1))"
    using mkeys_update_old [of "live m1" "victim r"]
    by (simp add: m2_def set_live_def split: option.splits) (metis list.set_map)
  ultimately show ?thesis
    using m1 distinct_delete [OF mgr_inv_distinct [OF assms(1)]] unfolding m'
    by (auto simp: m2_def quiet_def intro!: mgr_inv_reservations)
qed (use assms in simp)

lemma reprocess_inv:
  "reprocess_loop ws kept sel m = (kept', sel', m') \<Longrightarrow> mgr_inv m \<Longrightarrow> \<forall>w \<in> set ws. w_contender w \<noteq> '''' \<Longrightarrow>
     mgr_inv m' \<and> max_live m' = max_live m \<and>
     (\<exists>sub. map w_contender kept' = map w_contender kept @ sub \<and> subseq sub (map w_contender ws))"
proof (induction ws kept sel m rule: reprocess_loop.induct)
  case (2 w ws kept sel m)
  obtain ok m1 where s: "supersedeWaiterReservation w m = (ok, m1)" by fastforce
  obtain ok2 w' m2 where r: "reserveVictim w m = (ok2, w', m2)" by (metis prod_cases3)
  note sv = supersede_inv [OF "2.prems"(2) s] and rv = reserveVictim_inv [OF "2.prems"(2) r]
  have ws: "\<forall>w \<in> set ws. w_contender w \<noteq> ''''" using "2.prems"(3) by simp
  have keep: "\<exists>sub. map w_contender kept' = map w_contender kept @ sub \<and> subseq sub (w_contender w # map w_contender ws)"
    if "\<exists>sub. map w_contender kept' = map w_contender (kept @ [x]) @ sub \<and> subseq sub (map w_contender ws)"
      "w_contender x = w_contender w" for x
    using that by auto
  have skip: "\<exists>sub. map w_contender kept' = map w_contender kept @ sub \<and> subseq sub (w_contender w # map w_contender ws)"
    if "\<exists>sub. map w_contender kept' = map w_contender kept @ sub \<and> subseq sub (map w_contender ws)"
    using that by auto
  consider (live) "map_of (live m) (w_contender w) \<noteq> None"
    | (room) "map_of (live m) (w_contender w) = None" "int (length (live m)) < max_live m"
    | (full) "map_of (live m) (w_contender w) = None" "\<not> int (length (live m)) < max_live m" "AReservation (w_result w) = ''''"
    | (kept) "map_of (live m) (w_contender w) = None" "\<not> int (length (live m)) < max_live m" "AReservation (w_result w) \<noteq> ''''"
    by blast
  then show ?case
  proof cases
    case live
    with "2.prems"(1) s have "reprocess_loop ws (if ok then kept else kept @ [w]) sel m1 = (kept', sel', m')" by simp
    with "2.IH"(1) [OF live s [symmetric]] sv ws keep skip show ?thesis by (cases ok) auto
  next
    case room
    show ?thesis
    proof (cases ok)
      case False
      with "2.prems"(1) s room have "reprocess_loop ws (kept @ [w]) sel m1 = (kept', sel', m')" by simp
      with "2.IH"(2) [OF _ room(2) s [symmetric]] room(1) False sv ws keep show ?thesis by simp
    next
      case True
      let ?m = "admit_new (w_contender w) (w_sequence w) (add_live (w_contender w) (w_sequence w) m1)"
      let ?sel = "if AKind sel \<noteq> AdmissionFree then free (w_contender w) else sel"
      have "map_of (live m1) (w_contender w) = None"
        using sv room(1) by (auto simp: map_of_eq_None_iff)
      then have "mgr_inv ?m" using sv room "2.prems"(3) by (intro admit_new_inv) auto
      moreover have "reprocess_loop ws kept ?sel ?m = (kept', sel', m')"
        using "2.prems"(1) s room True by simp
      ultimately show ?thesis
        using "2.IH"(3) [OF _ room(2) s [symmetric]] room(1) True sv ws skip by simp
    qed
  next
    case full
    with "2.prems"(1) r have "reprocess_loop ws (kept @ [w']) sel m2 = (kept', sel', m')" by simp
    with "2.IH"(4) [OF _ full(2,3) r [symmetric] refl] full(1) rv ws keep show ?thesis by simp
  next
    case kept
    with "2.prems"(1) have "reprocess_loop ws (kept @ [w]) sel m = (kept', sel', m')" by simp
    with "2.IH"(5) [OF _ kept(2,3)] kept(1) "2.prems"(2) ws keep show ?thesis by simp
  qed
qed simp

lemma subseq_set: "subseq xs ys \<Longrightarrow> set xs \<subseteq> set ys"
  by (induction rule: list_emb.induct) auto

lemma subseq_distinct: "subseq xs ys \<Longrightarrow> distinct ys \<Longrightarrow> distinct xs"
  by (induction rule: list_emb.induct) (auto dest: subseq_set)

lemma reprocessWaiters_inv:
  assumes "mgr_inv m"
  shows "mgr_inv (snd (reprocessWaiters m))"
proof -
  let ?ws = "sort_key (\<lambda>w. (w_sequence w, w_contender w)) (waiters m)"
  obtain kept sel m1 where r: "reprocess_loop ?ws [] (blocked '''' '''') m = (kept, sel, m1)" by (metis prod_cases3)
  have q: "queue_ok m" using assms by (simp add: mgr_inv_def)
  then have "\<forall>w \<in> set ?ws. w_contender w \<noteq> ''''" by (simp add: queue_ok_def)
  from reprocess_inv [OF r assms this] have inv1: "mgr_inv m1" "max_live m1 = max_live m"
    and sub: "subseq (map w_contender kept) (map w_contender ?ws)" by auto
  have "distinct (map w_contender ?ws)"
    using q by (simp add: queue_ok_def distinct_map)
  then have "distinct (map w_contender kept)" using sub subseq_distinct by blast
  moreover have "int (length kept) \<le> max_live m1"
    using list_emb_length [OF sub] q inv1(2) by (simp add: queue_ok_def)
  moreover have "w_contender w \<noteq> ''''" if "w \<in> set kept" for w
  proof -
    have "w_contender w \<in> set (map w_contender kept)" using that by simp
    then have "w_contender w \<in> set (map w_contender ?ws)" using subseq_set [OF sub] by blast
    with q show ?thesis by (auto simp: queue_ok_def)
  qed
  ultimately have "mgr_inv (m1\<lparr>waiters := kept\<rparr>)" using mgr_inv_waiters [OF inv1(1)] by blast
  then show ?thesis unfolding reprocessWaiters_def r by simp
qed

lemma block_waiter_contenders [simp]: "map w_contender (block_waiter rid ws) = map w_contender ws"
  by (induction ws) auto

lemma map_contender_ok:
  "queue_ok m \<Longrightarrow> map w_contender ws = map w_contender (waiters m) \<Longrightarrow>
     int (length ws) \<le> max_live m \<and> distinct (map w_contender ws) \<and> (\<forall>w \<in> set ws. w_contender w \<noteq> '''')"
proof -
  assume q: "queue_ok m" and eq: "map w_contender ws = map w_contender (waiters m)"
  have "w_contender w \<noteq> ''''" if "w \<in> set ws" for w
  proof -
    have "w_contender w \<in> set (map w_contender ws)" using that by simp
    with q show ?thesis unfolding eq by (auto simp: queue_ok_def)
  qed
  with q eq map_eq_imp_length_eq [OF eq] show ?thesis by (simp add: queue_ok_def)
qed

lemma set_mkeys_delete: "set (mkeys (AList.delete k m)) = set (mkeys m) - {k}"
  by (simp add: delete_keys)

lemma releaseVictimSlot_inv:
  assumes "mgr_inv m" and "reserved_victim (victim r) m = Some (s, i)"
  shows "mgr_inv (releaseVictimSlot r s i m)"
proof -
  define m1 where "m1 = m\<lparr>reservations := AList.delete (res_id r) (reservations m)\<rparr>"
  define m2 where "m2 = snd (terminalizeLifecycle (victim r)
    (zeroResult\<lparr>LState := Stopped, LGeneration := generation s, IntentID := i_id i, LKind := EvictIntent\<rparr>) m1)"
  have "mgr_inv m1" unfolding m1_def by (rule mgr_inv_reservations) (use assms(1) in \<open>simp_all add: distinct_delete\<close>)
  moreover have "map_of (lifecycles m1) (victim r) = Some s" "incumbent s = Some i"
    using reserved_victim_Some [OF assms(2)] by (auto simp: m1_def)
  ultimately have inv2: "mgr_inv m2" unfolding m2_def by (rule terminalize_inv(1))
  define m3 where "m3 = m2\<lparr>live := AList.delete (victim r) (live m2), lifecycles := AList.delete (victim r) (lifecycles m2)\<rparr>"
  have "lcs (\<lambda>_. lc_ok) m3"
    using inv2 by (auto simp: m3_def mgr_inv_def lcs_def distinct_delete split: if_splits)
  moreover have "live_ok m3"
    using inv2 length_delete_le [of "victim r" "live m2"]
    by (auto simp: m3_def mgr_inv_def live_ok_def delete_keys distinct_removeAll split: if_splits)
  moreover have "lists_ok m3" "queue_ok m3"
    using inv2 by (auto simp: m3_def mgr_inv_def lists_ok_def queue_ok_def)
  ultimately have inv3: "mgr_inv m3" by (simp add: mgr_inv_def)
  have "releaseVictimSlot r s i m = m3\<lparr>waiters := block_waiter (res_id r) (waiters m3)\<rparr>"
    by (simp add: releaseVictimSlot_def Let_def m3_def m2_def m1_def)
  moreover have "queue_ok m3" using inv3 by (simp add: mgr_inv_def)
  ultimately show ?thesis
    using map_contender_ok [of m3 "block_waiter (res_id r) (waiters m3)"] mgr_inv_waiters [OF inv3] by simp
qed

lemma removeWaiter_subseq: "subseq (removeWaiter c ws) ws"
  by (induction ws) auto

lemma CompleteEviction_inv [inv_intros]:
  assumes "mgr_inv m"
  shows "mgr_inv (snd (CompleteEviction rid success m))"
proof (cases "map_of (reservations m) rid")
  case None
  with assms show ?thesis by (simp add: CompleteEviction_def)
next
  case (Some r)
  show ?thesis
  proof (cases "reserved_victim (victim r) m")
    case None
    with Some assms show ?thesis by (simp add: CompleteEviction_def)
  next
    case (Some si)
    obtain s i where si: "reserved_victim (victim r) m = Some (s, i)" using Some by (cases si) auto
    define m1 where "m1 = m\<lparr>reservations := AList.delete rid (reservations m), waiters := removeWaiter (contender r) (waiters m)\<rparr>"
    have sub: "subseq (removeWaiter (contender r) (waiters m)) (waiters m)" by (rule removeWaiter_subseq)
    have q: "queue_ok m" using assms by (simp add: mgr_inv_def)
    have "mgr_inv (m\<lparr>waiters := removeWaiter (contender r) (waiters m)\<rparr>)"
    proof (rule mgr_inv_waiters [OF assms])
      show "int (length (removeWaiter (contender r) (waiters m))) \<le> max_live m"
        using list_emb_length [OF sub] q by (simp add: queue_ok_def)
      show "distinct (map w_contender (removeWaiter (contender r) (waiters m)))"
        using subseq_distinct [OF subseq_map [OF sub, of w_contender]] q by (simp add: queue_ok_def)
      show "\<forall>w\<in>set (removeWaiter (contender r) (waiters m)). w_contender w \<noteq> ''''"
        using q subseq_set [OF sub] unfolding queue_ok_def by blast
    qed
    then have "mgr_inv ((m\<lparr>waiters := removeWaiter (contender r) (waiters m)\<rparr>)\<lparr>reservations := AList.delete rid (reservations m)\<rparr>)"
      by (rule mgr_inv_reservations) (use assms in \<open>simp add: distinct_delete\<close>)
    moreover have "m1 = (m\<lparr>waiters := removeWaiter (contender r) (waiters m)\<rparr>)\<lparr>reservations := AList.delete rid (reservations m)\<rparr>"
      by (cases m) (simp add: m1_def)
    ultimately have inv1: "mgr_inv m1" by simp
    have "map_of (lifecycles m1) (victim r) = Some s" "incumbent s = Some i"
      using reserved_victim_Some [OF si] by (auto simp: m1_def)
    from terminalize_inv(1) [OF inv1 this] releaseVictimSlot_inv [OF assms si] \<open>map_of (reservations m) rid = Some r\<close> si assms
    show ?thesis
      by (auto simp: CompleteEviction_def Let_def m1_def intro!: mgr_inv_set_live reprocessWaiters_inv)
  qed
qed

lemma ReleaseStopped_inv [inv_intros]:
  assumes "mgr_inv m"
  shows "mgr_inv (snd (ReleaseStopped sid gen m))"
proof -
  have "mgr_inv (m\<lparr>live := AList.delete sid (live m)\<rparr>)"
    using assms length_delete_le [of sid "live m"]
    by (auto simp: mgr_inv_def lcs_def lists_ok_def queue_ok_def live_ok_def distinct_delete split: if_splits)
  with assms show ?thesis by (auto simp: ReleaseStopped_def split: option.splits)
qed

lemma RegisterLifecycle_inv [inv_intros]:
  assumes "mgr_inv m"
  shows "mgr_inv (RegisterLifecycle sid gen st rp m)"
proof -
  obtain seq m1 where a: "allocateManagerEvent m = (seq, m1)" by fastforce
  then have inv1: "mgr_inv m1" using assms by (auto simp: allocateManagerEvent_def split: if_splits)
  define m2 where "m2 = m1\<lparr>lifecycles := AList.update sid (newLifecycle gen st rp seq) (lifecycles m1)\<rparr>"
  have "lcs (\<lambda>_. lc_ok) m2" using inv1 unfolding m2_def by (intro lcs_update_lifecycle) (simp add: mgr_inv_def)
  moreover have "live_ok m2" using inv1 by (auto simp: m2_def mgr_inv_def live_ok_def dom_update)
  moreover have "lists_ok m2" "queue_ok m2"
    using inv1 by (auto simp: m2_def mgr_inv_def lists_ok_def queue_ok_def)
  ultimately have inv2: "mgr_inv m2" by (simp add: mgr_inv_def)
  then have "mgr_inv (appendLifecycle sid gen ''register'' '''' '''' st NoKind NoFailure m2)"
    by (intro quiet_inv [OF inv2 quiet_append [OF quiet_refl]] lcs_append) (auto simp: mgr_inv_def)
  with assms a show ?thesis by (auto simp: RegisterLifecycle_def m2_def)
qed

lemma quiet_operations [inv_intros]:
  assumes "mgr_inv m"
  shows "mgr_inv (snd (Lifecycle q m))" and "mgr_inv (snd (CompleteLifecycleObserved sid iid ob m))"
    and "mgr_inv (snd (DetachLifecycleCaller sid iid cid failure m))"
    and "mgr_inv (snd (ObserveInitialization sid gen ok m))" and "mgr_inv (snd (ObservePoison sid gen m))"
proof -
  have l: "lcs (\<lambda>_. lc_ok) m" using assms by (simp add: mgr_inv_def)
  show "mgr_inv (snd (Lifecycle q m))" "mgr_inv (snd (CompleteLifecycleObserved sid iid ob m))"
    "mgr_inv (snd (DetachLifecycleCaller sid iid cid failure m))"
    "mgr_inv (snd (ObserveInitialization sid gen ok m))" "mgr_inv (snd (ObservePoison sid gen m))"
    using Lifecycle_ok [OF l] CompleteLifecycleObserved_ok [OF l] DetachLifecycleCaller_ok [OF l]
      ObserveInitialization_ok [OF l] ObservePoison_ok [OF l] quiet_inv [OF assms] by blast+
qed

section \<open>Listing\<close>

lemma trim_snapshots_frame:
  "snapshotOrder m = ids \<Longrightarrow> admin (trim_snapshots ids m) = admin m \<and> lifecycles (trim_snapshots ids m) = lifecycles m \<and>
     lifecycleLedger (trim_snapshots ids m) = lifecycleLedger m \<and>
     int (length (snapshotOrder (trim_snapshots ids m))) \<le> max 0 (maxSnapshots m) \<and>
     length (cursorOrder (trim_snapshots ids m)) \<le> length (cursorOrder m)"
proof (induction ids arbitrary: m)
  case (Cons i ids)
  have "snapshotOrder (dropListSnapshot i m) = ids" using Cons.prems by simp
  from Cons.IH [OF this] cursors_drop [of i m] Cons.prems
    admin_drop [of i m, THEN admin_eq, THEN conjunct2, THEN conjunct2, THEN conjunct2, THEN conjunct2, THEN conjunct1]
  show ?case by (auto intro: le_trans)
qed simp

lemma trim_cursors_length: "int (length (fst (trim_cursors n cs issued))) \<le> max 0 n"
  by (induction n cs issued rule: trim_cursors.induct) auto

lemma mgr_inv_frame:
  assumes "mgr_inv m" and "admin m' = admin m" and "lifecycles m' = lifecycles m"
    and "lifecycleLedger m' = lifecycleLedger m"
    and "int (length (snapshotOrder m')) \<le> maxSnapshots m" and "int (length (cursorOrder m')) \<le> maxSnapshots m"
  shows "mgr_inv m'"
  using assms admin_eq [OF assms(2)]
  by (auto simp: mgr_inv_def lcs_def lists_ok_def live_ok_def queue_ok_def)

lemma mgr_inv_retain:
  assumes "mgr_inv m"
  shows "mgr_inv (retainListCursor cur sid (retainListSnapshot sid recs m))"
proof -
  define m2 where "m2 = (if map_of (listSnapshots m) sid = None
                then m\<lparr>listSnapshots := AList.update sid recs (listSnapshots m), snapshotOrder := snapshotOrder m @ [sid]\<rparr>
                else m)\<lparr>snapshotExpiry := AList.update sid (nextManagerEvent m + cursorTTL m) (snapshotExpiry m)\<rparr>"
  have eq: "retainListSnapshot sid recs m = trim_snapshots (snapshotOrder m2) m2"
    by (simp add: retainListSnapshot_def Let_def m2_def)
  have m2: "admin m2 = admin m" "lifecycles m2 = lifecycles m" "lifecycleLedger m2 = lifecycleLedger m"
      "cursorOrder m2 = cursorOrder m" "maxSnapshots m2 = maxSnapshots m"
    by (simp_all add: m2_def admin_def)
  have pos: "0 < maxSnapshots m" "int (length (cursorOrder m)) \<le> maxSnapshots m"
    using assms by (auto simp: mgr_inv_def lists_ok_def)
  have inv1: "mgr_inv (retainListSnapshot sid recs m)"
    using trim_snapshots_frame [OF refl, of m2] m2 pos unfolding eq
    by (intro mgr_inv_frame [OF assms]) auto
  show ?thesis
  proof (rule mgr_inv_frame [OF inv1])
    let ?m = "retainListSnapshot sid recs m"
    show "admin (retainListCursor cur sid ?m) = admin ?m" "lifecycles (retainListCursor cur sid ?m) = lifecycles ?m"
      "lifecycleLedger (retainListCursor cur sid ?m) = lifecycleLedger ?m"
      by (simp_all add: retainListCursor_def Let_def admin_def split: prod.splits)
    show "int (length (snapshotOrder (retainListCursor cur sid ?m))) \<le> maxSnapshots ?m"
      using inv1 by (simp add: retainListCursor_def Let_def mgr_inv_def lists_ok_def split: prod.splits)
    have "0 < maxSnapshots ?m" using inv1 by (simp add: mgr_inv_def lists_ok_def)
    then show "int (length (cursorOrder (retainListCursor cur sid ?m))) \<le> maxSnapshots ?m"
      using trim_cursors_length [of "maxSnapshots ?m"]
      by (auto simp: retainListCursor_def Let_def split: prod.splits) (metis fst_conv max.absorb2 less_imp_le)+
  qed
qed

lemma list_page_inv: "mgr_inv m \<Longrightarrow> mgr_inv (snd (list_page digest enc opts order event st recs m))"
  by (simp add: list_page_def Let_def mgr_inv_retain)

lemma List_inv [inv_intros]:
  assumes "mgr_inv m"
  shows "mgr_inv (snd (List digest enc decode opts m))"
proof -
  have "lists_ok m" using assms by (simp add: mgr_inv_def)
  then have "mgr_inv (expireListState m)"
    using expire_lengths [of m] by (intro mgr_inv_frame [OF assms]) (auto simp: lists_ok_def)
  moreover have "mgr_inv (snd (allocateManagerEvent m))" using assms by (simp add: allocateManagerEvent_def)
  ultimately show ?thesis
    by (auto simp: List_def Let_def list_page_inv split: option.splits prod.splits)
qed

lemma NewManager_inv: "NewManager c = Inr m \<Longrightarrow> mgr_inv m"
  by (auto simp: NewManager_def mgr_inv_def lcs_def lists_ok_def live_ok_def queue_ok_def
      defaultMaxListSnapshots_def split: if_splits)

section \<open>The manager as a transition system\<close>

inductive mgr_step :: "Manager \<Rightarrow> Manager \<Rightarrow> bool" where
  register: "mgr_step m (RegisterLifecycle sid gen st rp m)"
| lifecycle: "mgr_step m (snd (Lifecycle q m))"
| complete: "mgr_step m (snd (CompleteLifecycleObserved sid iid ob m))"
| detach: "mgr_step m (snd (DetachLifecycleCaller sid iid cid failure m))"
| initialization: "mgr_step m (snd (ObserveInitialization sid gen ok m))"
| poison: "mgr_step m (snd (ObservePoison sid gen m))"
| admit: "mgr_step m (snd (Admit sid m))"
| evict: "mgr_step m (snd (CompleteEviction rid ok m))"
| release: "mgr_step m (snd (ReleaseStopped sid gen m))"
| list: "mgr_step m (snd (List digest enc decode opts m))"

definition mgr_start :: "Manager \<Rightarrow> bool" where
  "mgr_start m \<longleftrightarrow> (\<exists>c. NewManager c = Inr m)"

interpretation mgr: invariant_system mgr_start mgr_step mgr_inv
proof
  show "mgr_inv m" if "mgr_start m" for m
    using that NewManager_inv by (auto simp: mgr_start_def)
  show "mgr_inv m'" if "mgr_inv m" "mgr_step m m'" for m m'
    using that(2,1) by cases (auto intro: inv_intros)
qed

end
