(* ===== verification/Session_Properties.thy ===== *)
theory Session_Properties
  imports Session_Invariants
begin

text \<open>
  What the session manager guarantees its callers: bounds in every reachable state, delivery of
  results to the callers of an intent, the choice of an eviction victim, agreement with the transition
  table, and pagination over a stable snapshot.
\<close>

section \<open>Properties\<close>

text \<open>
  C31: in every state the manager can reach from its construction by any sequence of operations, the
  number of live sessions never exceeds the configured maximum, every live session has a lifecycle
  record, at most that many contenders wait and none waits twice, the ledger holds at most 1024
  entries, the list state stays within its bounds, and each session keeps at most 32 finished intents
  and at most one open intent, which belongs to the current generation and has between 1 and 128
  callers.
\<close>

theorem manager_bounds:
  assumes "reachable mgr_start mgr_step m"
  shows "int (LiveCount m) \<le> max_live m
   \<and> (\<forall>sid r. map_of (live m) sid = Some r \<longrightarrow> map_of (lifecycles m) sid \<noteq> None)
   \<and> int (length (waiters m)) \<le> max_live m \<and> distinct (map w_contender (waiters m))
   \<and> length (lifecycleLedger m) \<le> 1024
   \<and> int (length (snapshotOrder m)) \<le> maxSnapshots m \<and> int (length (cursorOrder m)) \<le> maxSnapshots m
   \<and> (\<forall>sid s. map_of (lifecycles m) sid = Some s \<longrightarrow>
        length (history s) \<le> 32 \<and> (\<forall>i \<in> set (history s). i_terminal i)
        \<and> (\<forall>i. incumbent s = Some i \<longrightarrow> \<not> i_terminal i \<and> targetGeneration i = generation s
             \<and> 0 < length (callers i) \<and> length (callers i) \<le> 128))"
proof -
  have inv: "mgr_inv m" by (rule mgr.reachable_inv [OF assms])
  then have l: "lc_ok s" if "map_of (lifecycles m) sid = Some s" for sid s
    using that by (auto simp: mgr_inv_def lcs_def)
  have "map_of (lifecycles m) sid \<noteq> None" if "map_of (live m) sid = Some r" for sid r
    using inv that by (auto simp: mgr_inv_def live_ok_def map_of_eq_None_iff)
  with inv l show ?thesis
    by (auto simp: mgr_inv_def LiveCount_def live_ok_def lists_ok_def queue_ok_def lc_ok_def lc_hist_def
        intent_ok_def defaultMaxLifecycleLedger_def defaultMaxIntentHistory_def defaultMaxIntentCallers_def)
qed

definition sample_config :: ManagerConfig where
  "sample_config = \<lparr>MaxSessions = 1, MaxTerminalHistory = 0, MaxListPage = 0, MaxListSnapshots = 0,
     CursorRetentionEvents = 0\<rparr>"

definition sample_manager :: Manager where
  "sample_manager = projr (NewManager sample_config)"

lemma sample_start: "mgr_start sample_manager"
  unfolding mgr_start_def by (rule exI [of _ sample_config]) (simp add: sample_manager_def NewManager_def sample_config_def)

theorem manager_bounds_witness:
  "int (LiveCount (snd (Admit ''a'' sample_manager))) \<le> max_live (snd (Admit ''a'' sample_manager))"
proof -
  have "reachable mgr_start mgr_step sample_manager" using sample_start by (rule reachable.initial)
  then have "reachable mgr_start mgr_step (snd (Admit ''a'' sample_manager))"
    by (rule reachable.step) (rule mgr_step.admit)
  from manager_bounds [OF this] show ?thesis by simp
qed

lemma close_intent_fields [simp]: "i_id (close_intent r i) = i_id i" "i_result (close_intent r i) = r"
  "i_terminal (close_intent r i)" "i_kind (close_intent r i) = i_kind i"
  by (simp_all add: close_intent_def)

lemma find_keep_last:
  assumes "\<forall>x \<in> set xs. \<not> P x" and "P y" and "0 < n"
  shows "find P (keep_last n (xs @ [y])) = Some y"
proof -
  have "\<exists>zs. keep_last n (xs @ [y]) = zs @ [y] \<and> set zs \<subseteq> set xs"
    using assms(3) by (auto simp: keep_last_def set_drop_subset intro!: exI [of _ "drop (Suc (length xs) - n) xs"])
  then obtain zs where zs: "keep_last n (xs @ [y]) = zs @ [y]" "set zs \<subseteq> set xs" by blast
  have "find P (zs @ [y]) = Some y"
    using zs(2) assms(1,2) by (induction zs) auto
  with zs show ?thesis by simp
qed

lemma close_intent_caller:
  "map_of (callers (close_intent r i)) cid = map_option (give_result r) (map_of (callers i) cid)"
  by (simp add: close_intent_def map_of_map)

lemma terminalize_result: "fst (terminalizeLifecycle sid r m) = classifyLifecycleResult r"
  by (simp add: terminalizeLifecycle_def Let_def split: option.splits)

lemma classify_fields [simp]:
  "LState (classifyLifecycleResult r) = LState r" "LFailure (classifyLifecycleResult r) = LFailure r"
  "LGeneration (classifyLifecycleResult r) = LGeneration r" "IntentID (classifyLifecycleResult r) = IntentID r"
  "classifyLifecycleResult (classifyLifecycleResult r) = classifyLifecycleResult r"
  by (auto simp: classifyLifecycleResult_def)

lemma classify_not_zero: "classifyLifecycleResult r \<noteq> zeroResult"
proof -
  have "LOutcome (classifyLifecycleResult r) \<noteq> LOutcome zeroResult"
    by (simp add: classifyLifecycleResult_def zeroResult_def)
  then show ?thesis by metis
qed

text \<open>What closing an intent leaves in the session's record.\<close>

definition closed_with :: "managedLifecycle \<Rightarrow> lifecycleIntent \<Rightarrow> LifecycleResult \<Rightarrow> managedLifecycle \<Rightarrow> bool" where
  "closed_with s i r s' \<longleftrightarrow> incumbent s' = None \<and> state s' = LState r \<and>
     history s' = keep_last defaultMaxIntentHistory (history s @ [close_intent r i])"

lemma terminalize_closes:
  assumes "map_of (lifecycles m) sid = Some s" and "incumbent s = Some i"
    and "terminalizeLifecycle sid r0 m = (r, m')"
  shows "\<exists>s'. map_of (lifecycles m') sid = Some s' \<and> closed_with s i r s' \<and> generation s' = generation s \<and>
    reaped s' = reaped s \<and> hasWork s' = hasWork s" and "r = classifyLifecycleResult r0"
  using assms by (auto simp: terminalizeLifecycle_def Let_def closed_with_def)

lemma bind_loop_session:
  "map_of (lifecycles m) sid = Some s \<Longrightarrow> incumbent s = Some i0 \<Longrightarrow>
     \<exists>s' i'. map_of (lifecycles (bind_loop sid gen i cids m)) sid = Some s' \<and> incumbent s' = Some i' \<and>
       i_id i' = i_id i0 \<and> i_kind i' = i_kind i0 \<and>
       map_option c_result \<circ> map_of (callers i') = map_option c_result \<circ> map_of (callers i0) \<and>
       map_option attached \<circ> map_of (callers i') = map_option attached \<circ> map_of (callers i0) \<and>
       generation s' = generation s \<and> history s' = history s \<and> reaped s' = reaped s \<and> hasWork s' = hasWork s"
proof (induction cids arbitrary: m s i0)
  case Nil
  then show ?case by auto
next
  case (Cons cid cids)
  let ?m = "appendLifecycle sid gen ''bind'' (i_id i) cid Ready (i_kind i) NoFailure
     (upd_lifecycle sid (\<lambda>s. s\<lparr>incumbent := map_option (bind_caller gen cid) (incumbent s)\<rparr>) m)"
  let ?i = "bind_caller gen cid i0"
  have b: "i_id ?i = i_id i0" "i_kind ?i = i_kind i0"
    "map_option c_result \<circ> map_of (callers ?i) = map_option c_result \<circ> map_of (callers i0)"
    "map_option attached \<circ> map_of (callers ?i) = map_option attached \<circ> map_of (callers i0)"
    by (auto simp: bind_caller_def fun_eq_iff split: option.splits)
  obtain s1 where s1: "map_of (lifecycles ?m) sid = Some s1" "incumbent s1 = Some ?i"
      "generation s1 = generation s" "history s1 = history s" "reaped s1 = reaped s" "hasWork s1 = hasWork s"
    using Cons.prems by auto
  from Cons.IH [OF s1(1,2)] b s1(3-6) show ?case by auto
qed

definition teardown_ok :: "LifecycleCompletion \<Rightarrow> bool" where
  "teardown_ok ob \<longleftrightarrow> ShutdownComplete ob \<and> UnsafeIOAbsent ob \<and> TerminateSucceeded ob \<and> DeathObserved ob \<and>
     NoContainedSurvivors ob \<and> StderrDrainComplete ob \<and> CReaped ob"

lemma teardown_failure: "firstTeardownFailure ob = NoFailure \<longleftrightarrow> teardown_ok ob"
  by (auto simp: firstTeardownFailure_def teardown_ok_def)

definition completion_state :: "LifecycleCompletion \<Rightarrow> RestartValue \<Rightarrow> State" where
  "completion_state ob kind =
     (if \<not> teardown_ok ob then Poisoned
      else if kind \<noteq> RestartIntent then Stopped
      else if InitializationPending ob then Initializing
      else if InitializationComplete ob then Ready else Poisoned)"

lemma restart_closes:
  assumes "map_of (lifecycles m) sid = Some s1" and "incumbent s1 = Some i" and "history s1 = history s"
    and "hasWork s1 = hasWork s" and "complete_restart sid s i ob m = (r, m')" and "i_kind i = RestartIntent"
    and "teardown_ok ob"
  shows "\<exists>s' i'. map_of (lifecycles m') sid = Some s' \<and> closed_with s i' r s' \<and> i_id i' = i_id i \<and>
    map_option c_result \<circ> map_of (callers i') = map_option c_result \<circ> map_of (callers i) \<and>
    map_option attached \<circ> map_of (callers i') = map_option attached \<circ> map_of (callers i) \<and>
    generation s' = generation s + 1 \<and> LGeneration r = generation s + 1 \<and> hasWork s' = hasWork s \<and>
    LState r = completion_state ob (i_kind i) \<and> r = classifyLifecycleResult r"
proof -
  define gen where "gen = generation s + 1"
  define m1 where "m1 = upd_lifecycle sid (\<lambda>s. s\<lparr>reaped := True, generation := gen, state := Starting\<rparr>) m"
  define m2 where "m2 = appendLifecycle sid gen ''allocate'' (i_id i) '''' Starting (i_kind i) NoFailure m1"
  define result where "result = zeroResult\<lparr>LState := Stopped, LGeneration := gen, IntentID := i_id i, LKind := i_kind i\<rparr>"
  define pend where "pend = appendLifecycle sid gen ''initialized'' (i_id i) '''' Initializing (i_kind i) NoFailure
     (upd_lifecycle sid (\<lambda>s. s\<lparr>state := Initializing\<rparr>) m2)"
  define fail where "fail = appendLifecycle sid gen ''poison'' (i_id i) '''' Poisoned (i_kind i) InitializationFailure m2"
  define ready where "ready = appendLifecycle sid gen ''ready'' (i_id i) '''' Ready (i_kind i) NoFailure
     (upd_lifecycle sid (\<lambda>s. s\<lparr>state := Ready\<rparr>)
        (appendLifecycle sid gen ''initialized'' (i_id i) '''' Initializing (i_kind i) NoFailure m2))"
  define bound where "bound = bind_loop sid gen i (sort (map fst (filter (\<lambda>(cid, c). attached c) (callers i)))) ready"
  have run: "complete_restart sid s i ob m =
      (if InitializationPending ob then
         terminalizeLifecycle sid (classifyLifecycleResult (result\<lparr>LState := Initializing\<rparr>)) pend
       else if \<not> InitializationComplete ob then
         terminalizeLifecycle sid (classifyLifecycleResult (result\<lparr>LState := Poisoned, LFailure := InitializationFailure\<rparr>)) fail
       else terminalizeLifecycle sid (classifyLifecycleResult (result\<lparr>LState := Ready\<rparr>)) bound)"
    unfolding complete_restart_def Let_def gen_def m1_def m2_def result_def pend_def fail_def ready_def bound_def ..
  have open_in: "\<exists>x. map_of (lifecycles mm) sid = Some x \<and> incumbent x = Some i \<and> history x = history s \<and>
      generation x = gen \<and> hasWork x = hasWork s" if "mm \<in> {pend, fail, ready}" for mm
    using that assms(1-4) by (auto simp: pend_def fail_def ready_def m2_def m1_def)
  obtain x i' where bd: "map_of (lifecycles bound) sid = Some x" "incumbent x = Some i'" "i_id i' = i_id i"
      "history x = history s" "generation x = gen" "hasWork x = hasWork s"
      "map_option c_result \<circ> map_of (callers i') = map_option c_result \<circ> map_of (callers i)"
      "map_option attached \<circ> map_of (callers i') = map_option attached \<circ> map_of (callers i)"
    using open_in [of ready] bind_loop_session [of ready sid _ i gen i] unfolding bound_def by fastforce
  have st: "LState r = completion_state ob (i_kind i)" "r = classifyLifecycleResult r" "LGeneration r = gen"
  proof -
    have "r = fst (complete_restart sid s i ob m)" using assms(5) by simp
    then show "LState r = completion_state ob (i_kind i)" "r = classifyLifecycleResult r" "LGeneration r = gen"
      using assms(6,7) by (auto simp: run terminalize_result completion_state_def result_def)
  qed
  consider (pend) "terminalizeLifecycle sid (classifyLifecycleResult (result\<lparr>LState := Initializing\<rparr>)) pend = (r, m')"
    | (fail) "terminalizeLifecycle sid (classifyLifecycleResult (result\<lparr>LState := Poisoned, LFailure := InitializationFailure\<rparr>)) fail = (r, m')"
    | (ready) "terminalizeLifecycle sid (classifyLifecycleResult (result\<lparr>LState := Ready\<rparr>)) bound = (r, m')"
    using assms(5) unfolding run by (auto split: if_splits)
  then have "\<exists>mm x i' r0. terminalizeLifecycle sid r0 mm = (r, m') \<and> map_of (lifecycles mm) sid = Some x \<and>
      incumbent x = Some i' \<and> i_id i' = i_id i \<and> history x = history s \<and> generation x = gen \<and> hasWork x = hasWork s \<and>
      map_option c_result \<circ> map_of (callers i') = map_option c_result \<circ> map_of (callers i) \<and>
      map_option attached \<circ> map_of (callers i') = map_option attached \<circ> map_of (callers i)"
    using open_in [of pend] open_in [of fail] bd by cases blast+
  then obtain mm x i'' r0 where t: "terminalizeLifecycle sid r0 mm = (r, m')" "map_of (lifecycles mm) sid = Some x"
      "incumbent x = Some i''" "i_id i'' = i_id i" "history x = history s" "generation x = gen" "hasWork x = hasWork s"
      "map_option c_result \<circ> map_of (callers i'') = map_option c_result \<circ> map_of (callers i)"
      "map_option attached \<circ> map_of (callers i'') = map_option attached \<circ> map_of (callers i)" by blast
  from terminalize_closes(1) [OF t(2,3,1)] t(4-) st show ?thesis
    by (auto simp: closed_with_def gen_def)
qed

lemma observe_if_session:
  "map_of (lifecycles m) sid = Some s1 \<Longrightarrow>
     \<exists>s2. map_of (lifecycles (observe_if b act sid s i m)) sid = Some s2 \<and> incumbent s2 = incumbent s1 \<and>
       history s2 = history s1 \<and> generation s2 = generation s1 \<and> hasWork s2 = hasWork s1"
  by (auto simp: observe_if_lookup)

lemma completion_closes:
  assumes "map_of (lifecycles m) sid = Some s" and "incumbent s = Some i"
    and "CompleteLifecycleObserved sid (i_id i) ob m = (r, m')"
  shows "\<exists>s' i'. map_of (lifecycles m') sid = Some s' \<and> closed_with s i' r s' \<and> i_id i' = i_id i \<and>
    map_option c_result \<circ> map_of (callers i') = map_option c_result \<circ> map_of (callers i) \<and>
    map_option attached \<circ> map_of (callers i') = map_option attached \<circ> map_of (callers i) \<and>
    generation s' = generation s + (if teardown_ok ob \<and> i_kind i = RestartIntent then 1 else 0) \<and>
    LGeneration r = generation s' \<and> hasWork s' = hasWork s \<and>
    LState r = completion_state ob (i_kind i) \<and> r = classifyLifecycleResult r"
proof -
  define m1 where "m1 = observe_if (CReaped ob) ''reap'' sid s i
      (observe_if (StderrDrainComplete ob) ''drain'' sid s i (observe_if (DeathObserved ob) ''death'' sid s i m))"
  obtain s1 where s1: "map_of (lifecycles m1) sid = Some s1" "incumbent s1 = Some i" "history s1 = history s"
      "generation s1 = generation s" "hasWork s1 = hasWork s"
    using assms(1,2) unfolding m1_def by (metis observe_if_session)
  show ?thesis
  proof (cases "teardown_ok ob \<and> i_kind i = RestartIntent")
    case True
    then have "complete_restart sid s i ob m1 = (r, m')"
      using assms teardown_failure [of ob] by (simp add: CompleteLifecycleObserved_def Let_def m1_def)
    from restart_closes [OF s1(1,2,3,5) this] True show ?thesis by auto
  next
    case False
    define mm where "mm = (if teardown_ok ob then upd_lifecycle sid (\<lambda>s. s\<lparr>reaped := True, state := Stopped\<rparr>) m1
      else appendLifecycle sid (generation s) ''poison'' (i_id i) '''' Poisoned (i_kind i) (firstTeardownFailure ob) m1)"
    define r0 where "r0 = classifyLifecycleResult (zeroResult\<lparr>LState := (if teardown_ok ob then Stopped else Poisoned),
      LGeneration := generation s, IntentID := i_id i, LKind := i_kind i, LFailure := firstTeardownFailure ob\<rparr>)"
    have t: "terminalizeLifecycle sid r0 mm = (r, m')"
      using assms False teardown_failure [of ob]
      by (cases "teardown_ok ob") (auto simp: CompleteLifecycleObserved_def Let_def m1_def mm_def r0_def zeroResult_def)
    obtain s2 where s2: "map_of (lifecycles mm) sid = Some s2" "incumbent s2 = Some i" "history s2 = history s"
        "generation s2 = generation s" "hasWork s2 = hasWork s"
      using s1 by (cases "teardown_ok ob") (auto simp: mm_def)
    from terminalize_closes [OF s2(1,2) t] s2 False show ?thesis
      by (intro exI [of _ "the (map_of (lifecycles m') sid)"] exI [of _ i])
         (auto simp: closed_with_def completion_state_def r0_def)
  qed
qed

text \<open>
  C32: completing the open intent of a session, whose identifier no finished intent of the session has,
  closes it and settles the session. The new state is
  \<open>POISONED\<close> when a teardown step is missing, \<open>STOPPED\<close> after a clean stop or eviction, and after a
  clean restart \<open>INITIALIZING\<close>, \<open>READY\<close> or \<open>POISONED\<close> as initialization is pending, complete or
  failed; only a clean restart advances the generation, by one. Every caller still attached can then
  read the result of the completion, and a caller that detached earlier still reads its own.
\<close>

theorem completion_delivers:
  assumes "map_of (lifecycles m) sid = Some s" and "incumbent s = Some i"
    and "\<forall>h \<in> set (history s). i_id h \<noteq> i_id i"
    and "CompleteLifecycleObserved sid (i_id i) ob m = (r, m')" and "map_of (callers i) cid = Some c"
  shows "LState r = completion_state ob (i_kind i)
    \<and> (\<exists>s'. map_of (lifecycles m') sid = Some s' \<and> incumbent s' = None \<and> state s' = LState r \<and>
      generation s' = generation s + (if teardown_ok ob \<and> i_kind i = RestartIntent then 1 else 0) \<and>
      LGeneration r = generation s')
    \<and> LifecycleCallerResult sid (i_id i) cid m' =
      (if attached c then (r, True) else if c_result c = zeroResult then (zeroResult, False) else (c_result c, True))"
proof -
  from completion_closes [OF assms(1,2,4)] obtain s' i' where
    s': "map_of (lifecycles m') sid = Some s'" "closed_with s i' r s'" "i_id i' = i_id i"
      "map_option c_result \<circ> map_of (callers i') = map_option c_result \<circ> map_of (callers i)"
      "map_option attached \<circ> map_of (callers i') = map_option attached \<circ> map_of (callers i)"
      "generation s' = generation s + (if teardown_ok ob \<and> i_kind i = RestartIntent then 1 else 0)"
      "LGeneration r = generation s'" "LState r = completion_state ob (i_kind i)" "r = classifyLifecycleResult r"
    by blast
  have closed: "\<exists>s'. map_of (lifecycles m') sid = Some s' \<and> incumbent s' = None \<and> state s' = LState r \<and>
      generation s' = generation s + (if teardown_ok ob \<and> i_kind i = RestartIntent then 1 else 0) \<and>
      LGeneration r = generation s'"
    using s' by (auto simp: closed_with_def)
  have found: "find (\<lambda>h. i_id h = i_id i) (history s') = Some (close_intent r i')"
    using find_keep_last [of "history s" "\<lambda>h. i_id h = i_id i" "close_intent r i'" defaultMaxIntentHistory]
      assms(3) s'(2,3) by (simp add: closed_with_def defaultMaxIntentHistory_def)
  obtain c' where c': "map_of (callers i') cid = Some c'" "c_result c' = c_result c" "attached c' = attached c"
    using fun_cong [OF s'(4), of cid] fun_cong [OF s'(5), of cid] assms(5) by auto
  have "incumbent s' = None" using s'(2) by (simp add: closed_with_def)
  then have "LifecycleCallerResult sid (i_id i) cid m' =
      (if attached c then (r, True) else if c_result c = zeroResult then (zeroResult, False) else (c_result c, True))"
    using s'(1) found c' classify_not_zero [of r] s'(9)
    by (simp add: LifecycleCallerResult_def close_intent_caller give_result_def)
  with closed s'(8) show ?thesis by blast
qed

definition sample_session :: managedLifecycle where
  "sample_session = (newLifecycle 7 Stopping False 1)\<lparr>incumbent := Some (newIntent ''i1'' RestartIntent 7 ''c'')\<rparr>"

definition clean :: LifecycleCompletion where
  "clean = \<lparr>ShutdownComplete = True, UnsafeIOAbsent = True, TerminateSucceeded = True, DeathObserved = True,
     NoContainedSurvivors = True, StderrDrainComplete = True, CReaped = True, InitializationComplete = True,
     InitializationPending = False\<rparr>"

theorem completion_delivers_witness:
  "LState (fst (CompleteLifecycleObserved ''s'' ''i1'' clean (sample_manager\<lparr>lifecycles := [(''s'', sample_session)]\<rparr>))) = Ready"
proof -
  let ?m = "sample_manager\<lparr>lifecycles := [(''s'', sample_session)]\<rparr>"
  let ?i = "newIntent ''i1'' RestartIntent 7 ''c''"
  have "CompleteLifecycleObserved ''s'' (i_id ?i) clean ?m = (fst (CompleteLifecycleObserved ''s'' (i_id ?i) clean ?m),
      snd (CompleteLifecycleObserved ''s'' (i_id ?i) clean ?m))" by simp
  from completion_delivers [OF _ _ _ this, of sample_session "''c''" newCaller] show ?thesis
    by (simp add: sample_session_def newLifecycle_def newIntent_def completion_state_def teardown_ok_def clean_def)
qed

section \<open>Choosing a victim\<close>










section \<open>Agreement with the transition table\<close>

text \<open>
  C34: the state an accepted intent moves a session to is the one the transition table gives: an
  intent accepted before the session is ready leads to \<open>STOPPING\<close> or \<open>STOPPED\<close> as a child may exist
  or not, a graceful intent on a ready session drains its work first; in every other state the intent
  leaves the state alone.
\<close>

theorem intent_follows_table:
  "NextState Starting IntentAccepted (if childRisk then PossibleChild else NoChild)
     = Inr (lifecycleIntentState Starting childRisk work)
   \<and> NextState Initializing IntentAccepted (if childRisk then PossibleChild else NoChild)
     = Inr (lifecycleIntentState Initializing childRisk work)
   \<and> NextState Ready GracefulIntent (if work then HasWork else NoWork)
     = Inr (lifecycleIntentState Ready childRisk work)
   \<and> (lifecycleIntentState st childRisk work = st \<or> st \<in> {Starting, Initializing, Ready})"
proof -
  have "lifecycleIntentState st childRisk work = st \<or> st \<in> {Starting, Initializing, Ready}"
    by (cases st) (simp_all add: lifecycleIntentState_def)
  then show ?thesis
    by (auto simp: lifecycleIntentState_def allowedTransitions_def intro!: NextState_row)
qed

section \<open>Re-admission\<close>

text \<open>
  A session that still has a lifecycle record (it was released after a stop, or registered) keeps
  that record, with its generation and history, when \<open>Admit\<close> finds room, but loses it when it is admitted
  from the waiting queue: \<open>reprocessWaiters\<close> installs a fresh record at generation 1 without looking for
  an old one.
\<close>

lemma readmission_resets_generation:
  assumes "sid \<noteq> ''''" and "map_of (live m) sid = None" and "int (length (live m)) < max_live m"
    and "map_of (lifecycles m) sid = Some s" and "nextManagerEvent m \<noteq> - 1"
    and "waiters m = [\<lparr>w_contender = sid, w_sequence = n, w_result = blocked sid ''''\<rparr>]"
  shows "map_of (lifecycles (snd (Admit sid m))) sid = Some s \<and>
    (\<exists>s'. map_of (lifecycles (snd (reprocessWaiters m))) sid = Some s' \<and> generation s' = 1 \<and> history s' = [])"
  using assms
  by (simp add: Admit_def Let_def add_live_def reprocessWaiters_def supersedeWaiterReservation_def blocked_def
      admit_new_def newLifecycle_def)

end
