(* ===== verification/Request_Lifecycle.thy ===== *)
theory Request_Lifecycle
  imports Prelude
begin

text \<open>
  Package \<open>internal/requestlifecycle\<close>: the offline request-lifecycle document and its validator. The
  validator is one Go function; the model splits it where the Go code has its paragraphs (identity and
  retention checks, documents, operations, cross references, the pass over the events, the closing
  checks) and composes the parts in the same order. Every error message is a constructor. The closing
  loop ranges over a Go map; the model visits the operations in their listed order, which only matters
  for which of several errors is reported. A nil dereference is the value \<open>NilDereference\<close>.
  \<open>json.Marshal\<close> of a document is an argument of \<open>Project\<close>; decoding (\<open>Verify\<close>) is not modelled.
\<close>

definition SchemaVersionText :: string where
  "SchemaVersionText = ''lsp-trace.private-request-lifecycle-diagnostics.v1''"
definition PublicV3Schema :: string where
  "PublicV3Schema = ''lsp-trace.graph-provenance.v3''"
definition MaxRecords :: nat where "MaxRecords = 64"
definition MaxBytes :: nat where "MaxBytes = 65536"
definition MaxStringBytes :: nat where "MaxStringBytes = 4096"

record Attempt =
  AttemptID :: string
  ManagerID :: string
  ProcessID :: string
  Generation :: u64

record InitializeT =
  IOperationID :: string
  IStatus :: string
  DocumentSymbolCapability :: bool

record Document =
  DocumentID :: string
  URISHA256 :: string
  DidOpenOperationID :: string
  DidOpenComplete :: bool
  DocumentSymbolOperationID :: string

record Operation =
  OperationID :: string
  Handle :: u64
  Method :: string
  ODocumentID :: string

record Event =
  Sequence :: u64
  EOperationID :: string
  EHandle :: u64
  Kind :: string

record Retention =
  RStatus :: string
  RetainedRecords :: int
  OmittedRecords :: int
  EvictedRecords :: int
  Truncated :: bool
  RMaxRecords :: int
  RMaxBytes :: int
  RMaxStringBytes :: int

record ArtifactBinding =
  Schema :: string
  Length :: int
  SHA256 :: string
  PublicationSHA256 :: string

record DocumentModel =
  SchemaVersion :: string
  DAttempt :: Attempt
  DInitialize :: InitializeT
  Documents :: "Document list"
  Operations :: "Operation list"
  Events :: "Event list"
  DRetention :: Retention
  Artifact :: ArtifactBinding

definition methods :: "string list" where
  "methods = [''initialize'', ''textDocument/didOpen'', ''textDocument/documentSymbol'',
     ''textDocument/prepareCallHierarchy'', ''callHierarchy/incomingCalls'', ''callHierarchy/outgoingCalls'']"

definition eventKinds :: "string list" where
  "eventKinds = [''DISPATCH'', ''REQUEST_WRITE_COMPLETE'', ''RESPONSE_BODY'', ''RESPONSE_DECODED'', ''MATCHED'',
     ''TERMINAL_TIMEOUT'', ''TERMINAL_WRITE_FAILURE'', ''TERMINAL_FRAMING_FAILURE'', ''TERMINAL_PROCESS_EXIT'',
     ''LATE'', ''UNMATCHED'', ''DID_OPEN_COMPLETE'', ''PROCESS_EXIT'', ''CLEANUP_COMPLETE'']"

definition terminalKinds :: "string list" where
  "terminalKinds = [''MATCHED'', ''TERMINAL_TIMEOUT'', ''TERMINAL_WRITE_FAILURE'', ''TERMINAL_FRAMING_FAILURE'',
     ''TERMINAL_PROCESS_EXIT'', ''UNMATCHED'']"

datatype rl_error =
    SchemaOrStringBound | AttemptIdentity | InitializeStatus | RecordLimit | RetentionAccounting
  | AvailableRetention | OmittedRetention | EvictedRetention | RetentionStatus | ArtifactBindingError
  | DocumentIdentity | DuplicateDocument | OperationIdentity | DuplicateOperation | OperationDocumentKey
  | OmittedInitializeDetail | InitializeOperation | CapabilityWithoutMatched
  | DidOpenOperation | DocumentSymbolOperation | DocumentSymbolBeforeDidOpen
  | EventSequenceOrKind | ProcessEventCarriesOperation | DuplicateProcessExit | CleanupChronology
  | EventOperationKey | DispatchChronology | WriteChronology | BodyChronology | DecodeChronology
  | MatchedChronology | TimeoutChronology | TerminalWriteChronology | FramingChronology
  | ProcessExitChronology | UnmatchedChronology | LateChronology | DidOpenCompletionChronology
  | LacksTerminal string | DidOpenCompletionMismatch | DocumentSymbolWithoutCapability
  | InitializeTerminalMismatch | ProcessExitLacksCleanup | CleanupOrder
  | NilDereference | Uncertified | ByteLimit

section \<open>Identifiers and bounds\<close>

definition is_alnum :: "char \<Rightarrow> bool" where
  "is_alnum c \<longleftrightarrow> (let n = (of_char c :: nat) in
     48 \<le> n \<and> n \<le> 57 \<or> 65 \<le> n \<and> n \<le> 90 \<or> 97 \<le> n \<and> n \<le> 122)"

definition is_hex :: "char \<Rightarrow> bool" where
  "is_hex c \<longleftrightarrow> (let n = (of_char c :: nat) in 48 \<le> n \<and> n \<le> 57 \<or> 97 \<le> n \<and> n \<le> 102)"

definition validID :: "string \<Rightarrow> bool" where
  "validID s \<longleftrightarrow> (case s of [] \<Rightarrow> False
     | c # cs \<Rightarrow> is_alnum c \<and> length cs \<le> 255 \<and> list_all (\<lambda>d. is_alnum d \<or> d \<in> set ''._:-'') cs)"

definition validDigest :: "string \<Rightarrow> bool" where
  "validDigest s \<longleftrightarrow> take 7 s = ''sha256:'' \<and> length s = 71 \<and> list_all is_hex (drop 7 s)"

definition stringsBounded :: "DocumentModel \<Rightarrow> bool" where
  "stringsBounded d \<longleftrightarrow> list_all (\<lambda>s. length s \<le> MaxStringBytes)
     ([SchemaVersion d, AttemptID (DAttempt d), ManagerID (DAttempt d), ProcessID (DAttempt d),
       IOperationID (DInitialize d), IStatus (DInitialize d), RStatus (DRetention d), Schema (Artifact d),
       SHA256 (Artifact d), PublicationSHA256 (Artifact d)]
      @ concat (map (\<lambda>x. [DocumentID x, URISHA256 x, DidOpenOperationID x, DocumentSymbolOperationID x]) (Documents d))
      @ concat (map (\<lambda>x. [OperationID x, Method x, ODocumentID x]) (Operations d))
      @ concat (map (\<lambda>x. [EOperationID x, Kind x]) (Events d)))"

definition record_count :: "DocumentModel \<Rightarrow> nat" where
  "record_count d = length (Documents d) + length (Operations d) + length (Events d)"

definition check_header :: "DocumentModel \<Rightarrow> rl_error + unit" where
  "check_header d =
     (let r = DRetention d; a = Artifact d; i = DInitialize d in
      if SchemaVersion d \<noteq> SchemaVersionText \<or> \<not> stringsBounded d then Inl SchemaOrStringBound
      else if \<not> validID (AttemptID (DAttempt d)) \<or> \<not> validID (ManagerID (DAttempt d))
          \<or> \<not> validID (ProcessID (DAttempt d)) \<or> Generation (DAttempt d) = 0 then Inl AttemptIdentity
      else if IStatus i \<notin> {''MATCHED'', ''UNMATCHED'', ''FAILED'', ''OMITTED''} then Inl InitializeStatus
      else if record_count d > MaxRecords then Inl RecordLimit
      else if RMaxRecords r \<noteq> int MaxRecords \<or> RMaxBytes r \<noteq> int MaxBytes \<or> RMaxStringBytes r \<noteq> int MaxStringBytes
          \<or> RetainedRecords r \<noteq> int (record_count d) \<or> OmittedRecords r < 0 \<or> EvictedRecords r < 0
        then Inl RetentionAccounting
      else if RStatus r = ''AVAILABLE'' \<and> (EvictedRecords r \<noteq> 0 \<or> Truncated r \<noteq> (OmittedRecords r > 0))
        then Inl AvailableRetention
      else if RStatus r = ''OMITTED'' \<and> (RetainedRecords r \<noteq> 0 \<or> OmittedRecords r = 0 \<or> EvictedRecords r \<noteq> 0
          \<or> \<not> Truncated r) then Inl OmittedRetention
      else if RStatus r = ''EVICTED'' \<and> (RetainedRecords r \<noteq> 0 \<or> OmittedRecords r \<noteq> 0 \<or> EvictedRecords r = 0
          \<or> Truncated r) then Inl EvictedRetention
      else if RStatus r \<notin> {''AVAILABLE'', ''OMITTED'', ''EVICTED''} then Inl RetentionStatus
      else if Schema a \<noteq> PublicV3Schema \<or> Length a \<le> 0 \<or> \<not> validDigest (SHA256 a)
          \<or> (PublicationSHA256 a \<noteq> '''' \<and> \<not> validDigest (PublicationSHA256 a)) then Inl ArtifactBindingError
      else Inr ())"

section \<open>Documents and operations\<close>

fun check_documents :: "Document list \<Rightarrow> (string \<rightharpoonup> Document) \<Rightarrow> rl_error + (string \<rightharpoonup> Document)" where
  "check_documents [] docs = Inr docs"
| "check_documents (x # xs) docs =
     (if \<not> validID (DocumentID x) \<or> \<not> validDigest (URISHA256 x) \<or> \<not> validID (DidOpenOperationID x)
        then Inl DocumentIdentity
      else if docs (DocumentID x) \<noteq> None then Inl DuplicateDocument
      else check_documents xs (docs(DocumentID x \<mapsto> x)))"

fun check_operations :: "(string \<rightharpoonup> Document) \<Rightarrow> Operation list \<Rightarrow> (string \<rightharpoonup> Operation) \<Rightarrow> u64 set
    \<Rightarrow> rl_error + (string \<rightharpoonup> Operation)" where
  "check_operations docs [] ops handles = Inr ops"
| "check_operations docs (x # xs) ops handles =
     (if \<not> validID (OperationID x) \<or> Handle x = 0 \<or> Method x \<notin> set methods then Inl OperationIdentity
      else if ops (OperationID x) \<noteq> None \<or> Handle x \<in> handles then Inl DuplicateOperation
      else if ODocumentID x \<noteq> '''' \<and> docs (ODocumentID x) = None then Inl OperationDocumentKey
      else check_operations docs xs (ops(OperationID x \<mapsto> x)) (insert (Handle x) handles))"

definition check_initialize :: "DocumentModel \<Rightarrow> (string \<rightharpoonup> Operation) \<Rightarrow> rl_error + unit" where
  "check_initialize d ops =
     (let i = DInitialize d in
      if IStatus i = ''OMITTED'' \<and>
          (IOperationID i \<noteq> '''' \<or> DocumentSymbolCapability i \<or> RStatus (DRetention d) = ''AVAILABLE'')
        then Inl OmittedInitializeDetail
      else if IStatus i \<noteq> ''OMITTED'' \<and>
          (case ops (IOperationID i) of None \<Rightarrow> True | Some op \<Rightarrow> Method op \<noteq> ''initialize'')
        then Inl InitializeOperation
      else if DocumentSymbolCapability i \<and> IStatus i \<noteq> ''MATCHED'' then Inl CapabilityWithoutMatched
      else Inr ())"

definition is_op :: "(string \<rightharpoonup> Operation) \<Rightarrow> string \<Rightarrow> string \<Rightarrow> string \<Rightarrow> bool" where
  "is_op ops oid meth doc \<longleftrightarrow>
     (case ops oid of None \<Rightarrow> False | Some op \<Rightarrow> Method op = meth \<and> ODocumentID op = doc)"

fun check_references :: "(string \<rightharpoonup> Operation) \<Rightarrow> Document list \<Rightarrow> rl_error + unit" where
  "check_references ops [] = Inr ()"
| "check_references ops (x # xs) =
     (if \<not> is_op ops (DidOpenOperationID x) ''textDocument/didOpen'' (DocumentID x) then Inl DidOpenOperation
      else if DocumentSymbolOperationID x \<noteq> '''' \<and>
          \<not> is_op ops (DocumentSymbolOperationID x) ''textDocument/documentSymbol'' (DocumentID x)
        then Inl DocumentSymbolOperation
      else if DocumentSymbolOperationID x \<noteq> '''' \<and> \<not> DidOpenComplete x then Inl DocumentSymbolBeforeDidOpen
      else check_references ops xs)"

section \<open>Events\<close>

record opstate =
  dispatch :: bool
  written :: bool
  body :: bool
  decoded :: bool
  terminal :: string
  terminalSeq :: u64

definition newState :: opstate where
  "newState = \<lparr>dispatch = False, written = False, body = False, decoded = False, terminal = '''', terminalSeq = 0\<rparr>"

definition finish :: "Event \<Rightarrow> opstate \<Rightarrow> opstate" where
  "finish e s = s\<lparr>terminal := Kind e, terminalSeq := Sequence e\<rparr>"

text \<open>The \<open>switch e.Kind\<close> of the event loop.\<close>

definition op_event :: "Operation \<Rightarrow> u64 \<Rightarrow> Event \<Rightarrow> opstate \<Rightarrow> rl_error + opstate" where
  "op_event op processExit e s =
     (let open_op = (terminal s = '''') in
      if Kind e = ''DISPATCH'' then
        (if dispatch s \<or> \<not> open_op then Inl DispatchChronology else Inr (s\<lparr>dispatch := True\<rparr>))
      else if Kind e = ''REQUEST_WRITE_COMPLETE'' then
        (if \<not> dispatch s \<or> written s \<or> \<not> open_op then Inl WriteChronology else Inr (s\<lparr>written := True\<rparr>))
      else if Kind e = ''RESPONSE_BODY'' then
        (if \<not> written s \<or> body s \<or> \<not> open_op then Inl BodyChronology else Inr (s\<lparr>body := True\<rparr>))
      else if Kind e = ''RESPONSE_DECODED'' then
        (if \<not> body s \<or> decoded s \<or> \<not> open_op then Inl DecodeChronology else Inr (s\<lparr>decoded := True\<rparr>))
      else if Kind e = ''MATCHED'' then
        (if \<not> dispatch s \<or> \<not> written s \<or> \<not> body s \<or> \<not> decoded s \<or> \<not> open_op then Inl MatchedChronology
         else Inr (finish e s))
      else if Kind e = ''TERMINAL_TIMEOUT'' then
        (if \<not> dispatch s \<or> \<not> open_op then Inl TimeoutChronology else Inr (finish e s))
      else if Kind e = ''TERMINAL_WRITE_FAILURE'' then
        (if \<not> dispatch s \<or> written s \<or> \<not> open_op then Inl TerminalWriteChronology else Inr (finish e s))
      else if Kind e = ''TERMINAL_FRAMING_FAILURE'' then
        (if \<not> written s \<or> body s \<or> \<not> open_op then Inl FramingChronology else Inr (finish e s))
      else if Kind e = ''TERMINAL_PROCESS_EXIT'' then
        (if \<not> dispatch s \<or> processExit = 0 \<or> processExit \<ge> Sequence e \<or> \<not> open_op then Inl ProcessExitChronology
         else Inr (finish e s))
      else if Kind e = ''UNMATCHED'' then
        (if \<not> body s \<or> \<not> decoded s \<or> \<not> open_op then Inl UnmatchedChronology else Inr (finish e s))
      else if Kind e = ''LATE'' then
        (if open_op \<or> Sequence e \<le> terminalSeq s \<or> terminal s = ''MATCHED'' \<or> terminal s = ''UNMATCHED''
         then Inl LateChronology else Inr s)
      else if Kind e = ''DID_OPEN_COMPLETE'' then
        (if Method op \<noteq> ''textDocument/didOpen'' \<or> \<not> written s \<or> terminal s \<noteq> ''MATCHED''
         then Inl DidOpenCompletionChronology else Inr s)
      else Inr s)"

record scan =
  previous :: u64
  processExit :: u64
  cleanup :: u64
  states :: "string \<rightharpoonup> opstate"

definition scan0 :: scan where
  "scan0 = \<lparr>previous = 0, processExit = 0, cleanup = 0, states = Map.empty\<rparr>"

definition event_step :: "(string \<rightharpoonup> Operation) \<Rightarrow> Event \<Rightarrow> scan \<Rightarrow> rl_error + scan" where
  "event_step ops e c =
     (if Sequence e = 0 \<or> Sequence e \<le> previous c \<or> Kind e \<notin> set eventKinds then Inl EventSequenceOrKind
      else
        (let c1 = c\<lparr>previous := Sequence e\<rparr> in
         if Kind e = ''PROCESS_EXIT'' \<or> Kind e = ''CLEANUP_COMPLETE'' then
           (if EOperationID e \<noteq> '''' \<or> EHandle e \<noteq> 0 then Inl ProcessEventCarriesOperation
            else if Kind e = ''PROCESS_EXIT'' then
              (if processExit c1 \<noteq> 0 then Inl DuplicateProcessExit else Inr (c1\<lparr>processExit := Sequence e\<rparr>))
            else if processExit c1 = 0 \<or> cleanup c1 \<noteq> 0 then Inl CleanupChronology
            else Inr (c1\<lparr>cleanup := Sequence e\<rparr>))
         else case ops (EOperationID e) of
             None \<Rightarrow> Inl EventOperationKey
           | Some op \<Rightarrow>
               if EHandle e \<noteq> Handle op then Inl EventOperationKey
               else
                 (let s = (case states c1 (EOperationID e) of None \<Rightarrow> newState | Some s \<Rightarrow> s) in
                  case op_event op (processExit c1) e s of
                    Inl err \<Rightarrow> Inl err
                  | Inr s' \<Rightarrow> Inr (c1\<lparr>states := (states c1)(EOperationID e \<mapsto> s')\<rparr>))))"

fun scan_events :: "(string \<rightharpoonup> Operation) \<Rightarrow> Event list \<Rightarrow> scan \<Rightarrow> rl_error + scan" where
  "scan_events ops [] c = Inr c"
| "scan_events ops (e # es) c =
     (case event_step ops e c of Inl err \<Rightarrow> Inl err | Inr c' \<Rightarrow> scan_events ops es c')"

section \<open>Closing checks\<close>

fun hasEvent :: "Event list \<Rightarrow> string \<Rightarrow> string \<Rightarrow> bool" where
  "hasEvent [] ident kind = False"
| "hasEvent (e # es) ident kind = ((EOperationID e = ident \<and> Kind e = kind) \<or> hasEvent es ident kind)"

definition zeroDocument :: Document where
  "zeroDocument = \<lparr>DocumentID = '''', URISHA256 = '''', DidOpenOperationID = '''', DidOpenComplete = False,
     DocumentSymbolOperationID = ''''\<rparr>"

fun check_terminals :: "DocumentModel \<Rightarrow> (string \<rightharpoonup> Document) \<Rightarrow> (string \<rightharpoonup> opstate) \<Rightarrow> Operation list
    \<Rightarrow> rl_error + unit" where
  "check_terminals d docs sts [] = Inr ()"
| "check_terminals d docs sts (op # os) =
     (case sts (OperationID op) of
        None \<Rightarrow> Inl (LacksTerminal (OperationID op))
      | Some s \<Rightarrow>
          if \<not> dispatch s \<or> terminal s \<notin> set terminalKinds then Inl (LacksTerminal (OperationID op))
          else if Method op = ''textDocument/didOpen'' \<and>
              DidOpenComplete (case docs (ODocumentID op) of None \<Rightarrow> zeroDocument | Some x \<Rightarrow> x)
                \<noteq> hasEvent (Events d) (OperationID op) ''DID_OPEN_COMPLETE''
            then Inl DidOpenCompletionMismatch
          else if Method op = ''textDocument/documentSymbol'' \<and> \<not> DocumentSymbolCapability (DInitialize d)
            then Inl DocumentSymbolWithoutCapability
          else check_terminals d docs sts os)"

definition check_init_terminal :: "DocumentModel \<Rightarrow> (string \<rightharpoonup> opstate) \<Rightarrow> rl_error + unit" where
  "check_init_terminal d sts =
     (let st = IStatus (DInitialize d) in
      if st = ''OMITTED'' then Inr ()
      else case sts (IOperationID (DInitialize d)) of
          None \<Rightarrow> Inl NilDereference
        | Some s \<Rightarrow>
            if \<not> (st = ''MATCHED'' \<and> terminal s = ''MATCHED'')
              \<and> \<not> (st = ''UNMATCHED'' \<and> terminal s = ''UNMATCHED'')
              \<and> \<not> (st = ''FAILED'' \<and> terminal s \<noteq> ''MATCHED'' \<and> terminal s \<noteq> ''UNMATCHED'')
            then Inl InitializeTerminalMismatch else Inr ())"

definition check_process :: "scan \<Rightarrow> rl_error + unit" where
  "check_process c =
     (if processExit c \<noteq> 0 \<and> cleanup c = 0 then Inl ProcessExitLacksCleanup
      else if cleanup c \<noteq> 0 \<and> cleanup c \<le> processExit c then Inl CleanupOrder
      else Inr ())"

definition andThen :: "'e + 'a \<Rightarrow> ('a \<Rightarrow> 'e + 'b) \<Rightarrow> 'e + 'b" where
  "andThen x f = (case x of Inl err \<Rightarrow> Inl err | Inr v \<Rightarrow> f v)"

lemma andThen_Inr [simp]: "andThen x f = Inr b \<longleftrightarrow> (\<exists>a. x = Inr a \<and> f a = Inr b)"
  by (auto simp: andThen_def split: sum.splits)

lemma andThen_Inl: "andThen x f = Inl err \<longleftrightarrow> x = Inl err \<or> (\<exists>a. x = Inr a \<and> f a = Inl err)"
  by (auto simp: andThen_def split: sum.splits)

definition validateModel :: "DocumentModel \<Rightarrow> rl_error + unit" where
  "validateModel d =
     andThen (check_header d) (\<lambda>_.
     andThen (check_documents (Documents d) Map.empty) (\<lambda>docs.
     andThen (check_operations docs (Operations d) Map.empty {}) (\<lambda>ops.
     andThen (check_initialize d ops) (\<lambda>_.
     andThen (check_references ops (Documents d)) (\<lambda>_.
     andThen (scan_events ops (Events d) scan0) (\<lambda>c.
     andThen (check_terminals d docs (states c) (Operations d)) (\<lambda>_.
     andThen (check_init_terminal d (states c)) (\<lambda>_.
     check_process c))))))))"

section \<open>Certified snapshots\<close>

record snapshotValue =
  s_attempt :: Attempt
  s_initialize :: InitializeT
  s_documents :: "Document list"
  s_operations :: "Operation list"
  s_events :: "Event list"
  s_retention :: Retention
  s_artifact :: ArtifactBinding
  certified :: bool

definition modelFromSnapshot :: "snapshotValue \<Rightarrow> DocumentModel" where
  "modelFromSnapshot v = \<lparr>SchemaVersion = SchemaVersionText, DAttempt = s_attempt v, DInitialize = s_initialize v,
     Documents = s_documents v, Operations = s_operations v, Events = s_events v, DRetention = s_retention v,
     Artifact = s_artifact v\<rparr>"

definition certifyRuntimeSnapshot :: "snapshotValue \<Rightarrow> rl_error + snapshotValue" where
  "certifyRuntimeSnapshot v =
     (let s = v\<lparr>certified := True\<rparr> in
      case validateModel (modelFromSnapshot s) of Inl err \<Rightarrow> Inl err | Inr _ \<Rightarrow> Inr s)"

definition Project :: "(DocumentModel \<Rightarrow> string) \<Rightarrow> snapshotValue \<Rightarrow> rl_error + string" where
  "Project marshal s =
     (if \<not> certified s then Inl Uncertified
      else case validateModel (modelFromSnapshot s) of
          Inl err \<Rightarrow> Inl err
        | Inr _ \<Rightarrow>
            let raw = marshal (modelFromSnapshot s) in
            if length raw > MaxBytes then Inl ByteLimit else Inr (raw @ [char_of (10 :: nat)]))"

section \<open>Lifecycle of one operation\<close>

text \<open>
  The specification of an operation's events: it progresses through a prefix of dispatch, write,
  response body and decoding, ends with exactly one terminal event that fits how far it came, and then
  only late responses (after a failure) or completion notes of \<open>didOpen\<close> (after a match) may follow.
\<close>

definition progress :: "string list" where
  "progress = [''DISPATCH'', ''REQUEST_WRITE_COMPLETE'', ''RESPONSE_BODY'', ''RESPONSE_DECODED'']"

lemma length_progress: "length progress = 4"
  by (simp add: progress_def)

definition term_at :: "nat \<Rightarrow> string \<Rightarrow> bool" where
  "term_at n t \<longleftrightarrow> t \<in> {''MATCHED'', ''UNMATCHED''} \<and> n = 4
     \<or> t \<in> {''TERMINAL_TIMEOUT'', ''TERMINAL_PROCESS_EXIT''} \<and> 1 \<le> n
     \<or> t = ''TERMINAL_WRITE_FAILURE'' \<and> n = 1 \<or> t = ''TERMINAL_FRAMING_FAILURE'' \<and> n = 2"

definition tail_ok :: "string \<Rightarrow> string list \<Rightarrow> bool" where
  "tail_ok t tail \<longleftrightarrow>
     (if t = ''MATCHED'' then set tail \<subseteq> {''DID_OPEN_COMPLETE''}
      else if t = ''UNMATCHED'' then tail = [] else set tail \<subseteq> {''LATE''})"

definition complete_trace :: "string list \<Rightarrow> bool" where
  "complete_trace tr \<longleftrightarrow> (\<exists>n t tail. 1 \<le> n \<and> n \<le> 4 \<and> tr = take n progress @ t # tail \<and> term_at n t \<and> tail_ok t tail)"

definition trace :: "string \<Rightarrow> Event list \<Rightarrow> string list" where
  "trace oid es = map Kind (filter (\<lambda>e. EOperationID e = oid) es)"

text \<open>What the state record of an operation says of its events so far.\<close>

definition rep :: "opstate \<Rightarrow> string list \<Rightarrow> bool" where
  "rep s tr \<longleftrightarrow> (\<exists>n \<le> 4. dispatch s = (1 \<le> n) \<and> written s = (2 \<le> n) \<and> body s = (3 \<le> n) \<and> decoded s = (4 \<le> n) \<and>
     (if terminal s = '''' then tr = take n progress
      else \<exists>tail. tr = take n progress @ terminal s # tail \<and> term_at n (terminal s) \<and> tail_ok (terminal s) tail))"

lemma rep_new: "rep newState []"
  by (auto simp: rep_def newState_def)

lemma rep_open: "rep s tr \<Longrightarrow> terminal s = '''' \<Longrightarrow>
    \<exists>n \<le> 4. tr = take n progress \<and> dispatch s = (1 \<le> n) \<and> written s = (2 \<le> n) \<and> body s = (3 \<le> n) \<and> decoded s = (4 \<le> n)"
  by (auto simp: rep_def)

lemma rep_advance:
  assumes "rep s tr" and "terminal s = ''''" and "n < 4" and "tr = take n progress"
    and "terminal s' = ''''"
    and "dispatch s' = (1 \<le> Suc n)" "written s' = (2 \<le> Suc n)" "body s' = (3 \<le> Suc n)" "decoded s' = (4 \<le> Suc n)"
  shows "rep s' (tr @ [progress ! n])"
proof -
  have "take (Suc n) progress = tr @ [progress ! n]"
    using take_Suc_conv_app_nth [of n progress] assms(3,4) length_progress by simp
  with assms show ?thesis unfolding rep_def by (intro exI [of _ "Suc n"]) auto
qed

lemma rep_finish:
  assumes "n \<le> 4" and "dispatch s = (1 \<le> n)" "written s = (2 \<le> n)" "body s = (3 \<le> n)" "decoded s = (4 \<le> n)"
    and "term_at n (Kind e)"
  shows "rep (finish e s) (take n progress @ [Kind e])"
proof -
  have "Kind e \<noteq> ''''" using assms(6) by (auto simp: term_at_def)
  then show ?thesis
    using assms unfolding rep_def finish_def
    by (intro exI [of _ n]) (auto simp: tail_ok_def intro!: exI [of _ "[]"])
qed

lemma rep_tail:
  assumes "rep s tr" and "terminal s \<noteq> ''''"
    and "\<And>tail. tail_ok (terminal s) tail \<Longrightarrow> tail_ok (terminal s) (tail @ [k])"
  shows "rep s (tr @ [k])"
proof -
  from assms(1,2) obtain n tail where n: "n \<le> 4" "dispatch s = (1 \<le> n)" "written s = (2 \<le> n)" "body s = (3 \<le> n)"
      "decoded s = (4 \<le> n)" and t: "tr = take n progress @ terminal s # tail" "term_at n (terminal s)" "tail_ok (terminal s) tail"
    unfolding rep_def by auto
  from assms(3) [OF t(3)] t(1,2) assms(2) n show ?thesis
    unfolding rep_def by (intro exI [of _ n]) (auto intro!: exI [of _ "tail @ [k]"])
qed

lemma op_event_group:
  assumes "op_event op pe e s = Inr s'" and "Kind e \<in> set eventKinds"
    and "Kind e \<noteq> ''PROCESS_EXIT''" and "Kind e \<noteq> ''CLEANUP_COMPLETE''"
  shows "(terminal s = '''' \<and> Kind e \<in> set progress) \<or> (terminal s = '''' \<and> s' = finish e s \<and> Kind e \<in> set terminalKinds)
    \<or> (terminal s \<noteq> '''' \<and> s' = s \<and> (Kind e = ''LATE'' \<and> terminal s \<noteq> ''MATCHED'' \<and> terminal s \<noteq> ''UNMATCHED''
        \<or> Kind e = ''DID_OPEN_COMPLETE'' \<and> terminal s = ''MATCHED''))"
proof -
  have "Kind e \<in> set progress \<or> Kind e \<in> set terminalKinds \<or> Kind e = ''LATE'' \<or> Kind e = ''DID_OPEN_COMPLETE''"
    using assms(2-4) unfolding eventKinds_def progress_def terminalKinds_def by auto
  then show ?thesis
  proof (elim disjE)
    assume k: "Kind e \<in> set progress"
    have "terminal s = ''''"
      using k assms(1) unfolding progress_def op_event_def Let_def
      by (simp, elim disjE) (simp_all split: if_splits)
    with k show ?thesis by blast
  next
    assume k: "Kind e \<in> set terminalKinds"
    have "terminal s = '''' \<and> s' = finish e s"
      using k assms(1) unfolding terminalKinds_def op_event_def Let_def
      by (simp, elim disjE) (simp_all split: if_splits)
    with k show ?thesis by blast
  next
    assume k: "Kind e = ''LATE''"
    with assms(1) show ?thesis by (simp add: op_event_def Let_def split: if_splits)
  next
    assume k: "Kind e = ''DID_OPEN_COMPLETE''"
    with assms(1) show ?thesis by (simp add: op_event_def Let_def split: if_splits)
  qed
qed

lemma op_event_rep:
  assumes "op_event op pe e s = Inr s'" and "rep s tr" and "Kind e \<in> set eventKinds"
    and "Kind e \<noteq> ''PROCESS_EXIT''" and "Kind e \<noteq> ''CLEANUP_COMPLETE''"
  shows "rep s' (tr @ [Kind e])"
proof -
  consider (open1) "terminal s = ''''" "Kind e \<in> set progress"
    | (ends) "terminal s = ''''" "s' = finish e s" "Kind e \<in> set terminalKinds"
    | (after) "terminal s \<noteq> ''''" "s' = s" "Kind e = ''LATE'' \<and> terminal s \<noteq> ''MATCHED'' \<and> terminal s \<noteq> ''UNMATCHED''
        \<or> Kind e = ''DID_OPEN_COMPLETE'' \<and> terminal s = ''MATCHED''"
    using op_event_group [OF assms(1,3-5)] by blast
  then show ?thesis
  proof cases
    case open1
    from rep_open [OF assms(2) open1(1)] obtain n where n: "n \<le> 4" "tr = take n progress" "dispatch s = (1 \<le> n)"
        "written s = (2 \<le> n)" "body s = (3 \<le> n)" "decoded s = (4 \<le> n)" by blast
    from open1(2) consider "Kind e = ''DISPATCH''" | "Kind e = ''REQUEST_WRITE_COMPLETE''" | "Kind e = ''RESPONSE_BODY''"
      | "Kind e = ''RESPONSE_DECODED''" unfolding progress_def by auto
    then have "n < 4 \<and> Kind e = progress ! n \<and> terminal s' = '''' \<and> dispatch s' = (1 \<le> Suc n) \<and> written s' = (2 \<le> Suc n) \<and>
        body s' = (3 \<le> Suc n) \<and> decoded s' = (4 \<le> Suc n)"
    proof cases
      case 1
      with assms(1) open1(1) n have "n = 0" "s' = s\<lparr>dispatch := True\<rparr>"
        by (auto simp: op_event_def Let_def split: if_splits)
      with 1 n open1(1) show ?thesis by (simp add: progress_def)
    next
      case 2
      with assms(1) open1(1) n have "n = 1" "s' = s\<lparr>written := True\<rparr>"
        by (auto simp: op_event_def Let_def split: if_splits)
      with 2 n open1(1) show ?thesis by (simp add: progress_def)
    next
      case 3
      with assms(1) open1(1) n have "n = 2" "s' = s\<lparr>body := True\<rparr>"
        by (auto simp: op_event_def Let_def split: if_splits)
      with 3 n open1(1) show ?thesis by (simp add: progress_def)
    next
      case 4
      with assms(1) open1(1) n have "n = 3" "s' = s\<lparr>decoded := True\<rparr>"
        by (auto simp: op_event_def Let_def split: if_splits)
      with 4 n open1(1) show ?thesis by (simp add: progress_def)
    qed
    with rep_advance [OF assms(2) open1(1), of n s'] n show ?thesis by simp
  next
    case ends
    from rep_open [OF assms(2) ends(1)] obtain n where n: "n \<le> 4" "tr = take n progress" "dispatch s = (1 \<le> n)"
        "written s = (2 \<le> n)" "body s = (3 \<le> n)" "decoded s = (4 \<le> n)" by blast
    have "term_at n (Kind e)"
      using ends(3) assms(1) ends(1) n unfolding terminalKinds_def op_event_def Let_def term_at_def
      by (simp, elim disjE) (auto split: if_splits)
    with rep_finish [of n s e] n ends(2) show ?thesis by simp
  next
    case after
    show ?thesis
      unfolding after(2)
      by (rule rep_tail [OF assms(2) after(1)]) (use after(3) in \<open>auto simp: tail_ok_def split: if_splits\<close>)
  qed
qed

section \<open>The scan\<close>

text \<open>The scan invariant after a prefix of the events.\<close>

definition scan_ok :: "(string \<rightharpoonup> Operation) \<Rightarrow> Event list \<Rightarrow> scan \<Rightarrow> bool" where
  "scan_ok ops es c \<longleftrightarrow>
     sorted_wrt (<) (map Sequence es) \<and> (\<forall>e \<in> set es. 0 < Sequence e \<and> Sequence e \<le> previous c) \<and>
     (\<forall>oid. oid \<noteq> '''' \<longrightarrow> rep (case states c oid of None \<Rightarrow> newState | Some s \<Rightarrow> s) (trace oid es)) \<and>
     filter (\<lambda>e. Kind e = ''PROCESS_EXIT'') es = filter (\<lambda>e. Kind e = ''PROCESS_EXIT'' \<and> Sequence e = processExit c) es \<and>
     (processExit c = 0 \<longrightarrow> cleanup c = 0) \<and>
     (processExit c \<noteq> 0 \<longrightarrow> (\<exists>e \<in> set es. Kind e = ''PROCESS_EXIT'' \<and> Sequence e = processExit c)) \<and>
     (cleanup c \<noteq> 0 \<longrightarrow> processExit c < cleanup c \<and> (\<exists>e \<in> set es. Kind e = ''CLEANUP_COMPLETE'' \<and> Sequence e = cleanup c))"

lemma scan_ok_init: "scan_ok ops [] scan0"
  by (simp add: scan_ok_def scan0_def trace_def rep_new)

lemma trace_snoc: "trace oid (es @ [e]) = trace oid es @ (if EOperationID e = oid then [Kind e] else [])"
  by (simp add: trace_def)

lemma sorted_snoc:
  "sorted_wrt (<) (map Sequence es) \<Longrightarrow> (\<forall>e \<in> set es. Sequence e \<le> p) \<Longrightarrow> p < Sequence x \<Longrightarrow>
     sorted_wrt (<) (map Sequence (es @ [x]))"
  by (auto simp: sorted_wrt_append intro: le_less_trans)

lemma event_step_ok:
  assumes "event_step ops e c = Inr c'" and "scan_ok ops es c" and "ops '''' = None"
  shows "scan_ok ops (es @ [e]) c'"
proof -
  have seq: "0 < Sequence e" "previous c < Sequence e" "Kind e \<in> set eventKinds"
    using assms(1) by (auto simp: event_step_def word_neq_0_conv split: if_splits)
  have old: "\<forall>x \<in> set es. 0 < Sequence x \<and> Sequence x \<le> previous c" and srt: "sorted_wrt (<) (map Sequence es)"
    using assms(2) by (auto simp: scan_ok_def)
  have srt': "sorted_wrt (<) (map Sequence (es @ [e]))"
    using sorted_snoc [OF srt _ seq(2)] old by blast
  have fresh: "\<forall>x \<in> set (es @ [e]). 0 < Sequence x \<and> Sequence x \<le> Sequence e"
    using old seq by (auto intro: order.trans less_imp_le)
  have prev: "previous c' = Sequence e"
    using assms(1) by (auto simp: event_step_def Let_def split: if_splits option.splits sum.splits)
  have before: "\<forall>x \<in> set es. Sequence x < Sequence e" using old seq(2) by (auto intro: le_less_trans)
  consider (exit) "Kind e = ''PROCESS_EXIT''" "EOperationID e = ''''" "processExit c = 0"
      "c' = c\<lparr>previous := Sequence e, processExit := Sequence e\<rparr>"
    | (clean) "Kind e = ''CLEANUP_COMPLETE''" "EOperationID e = ''''" "processExit c \<noteq> 0" "cleanup c = 0"
      "c' = c\<lparr>previous := Sequence e, cleanup := Sequence e\<rparr>"
    | (op) op s' where "Kind e \<noteq> ''PROCESS_EXIT''" "Kind e \<noteq> ''CLEANUP_COMPLETE''" "ops (EOperationID e) = Some op"
      "op_event op (processExit c) e (case states c (EOperationID e) of None \<Rightarrow> newState | Some s \<Rightarrow> s) = Inr s'"
      "c' = c\<lparr>previous := Sequence e, states := (states c)(EOperationID e \<mapsto> s')\<rparr>"
    using assms(1) by (auto simp: event_step_def Let_def split: if_splits option.splits sum.splits)
  then show ?thesis
  proof cases
    case exit
    have "filter (\<lambda>x. Kind x = ''PROCESS_EXIT'') es = []"
      using assms(2) exit(3) old unfolding scan_ok_def by (auto simp: filter_empty_conv)
    moreover have "filter (\<lambda>x. Kind x = ''PROCESS_EXIT'' \<and> Sequence x = Sequence e) es = []"
      using before by (auto simp: filter_empty_conv)
    ultimately show ?thesis
      using assms(2) exit srt' fresh seq(1) unfolding scan_ok_def by (auto simp: trace_snoc)
  next
    case clean
    then have "processExit c < Sequence e"
      using assms(2) before unfolding scan_ok_def by (metis (no_types, lifting))
    with assms(2) clean srt' fresh show ?thesis unfolding scan_ok_def by (auto simp: trace_snoc)
  next
    case op
    have "EOperationID e \<noteq> ''''" using op(3) assms(3) by auto
    then have "rep (case states c (EOperationID e) of None \<Rightarrow> newState | Some s \<Rightarrow> s) (trace (EOperationID e) es)"
      using assms(2) unfolding scan_ok_def by blast
    from op_event_rep [OF op(4) this seq(3) op(1,2)] have r: "rep s' (trace (EOperationID e) (es @ [e]))"
      by (simp add: trace_snoc)
    with assms(2) op srt' fresh show ?thesis unfolding scan_ok_def by (auto simp: trace_snoc)
  qed
qed

lemma scan_events_ok:
  "scan_events ops es c = Inr c' \<Longrightarrow> scan_ok ops pre c \<Longrightarrow> ops '''' = None \<Longrightarrow> scan_ok ops (pre @ es) c'"
proof (induction es arbitrary: c pre)
  case (Cons e es)
  then obtain c1 where "event_step ops e c = Inr c1" "scan_events ops es c1 = Inr c'"
    by (auto split: sum.splits)
  with Cons.IH [of c1 "pre @ [e]"] event_step_ok Cons.prems show ?case by auto
qed simp

lemma scan_events_keys:
  "scan_events ops es c = Inr c' \<Longrightarrow> e \<in> set es \<Longrightarrow> Kind e \<notin> {''PROCESS_EXIT'', ''CLEANUP_COMPLETE''} \<Longrightarrow>
     \<exists>op. ops (EOperationID e) = Some op \<and> EHandle e = Handle op"
proof (induction es arbitrary: c)
  case (Cons x es)
  then obtain c1 where s: "event_step ops x c = Inr c1" "scan_events ops es c1 = Inr c'"
    by (auto split: sum.splits)
  show ?case
  proof (cases "e = x")
    case True
    with s(1) Cons.prems(3) show ?thesis
      by (auto simp: event_step_def Let_def split: if_splits option.splits sum.splits)
  next
    case False
    with Cons s(2) show ?thesis by auto
  qed
qed simp

section \<open>What an accepted document says\<close>

lemma check_operations_ok:
  "check_operations docs xs ops handles = Inr ops' \<Longrightarrow>
     (\<forall>x \<in> set xs. validID (OperationID x) \<and> ops' (OperationID x) = Some x) \<and>
     (\<forall>oid x. ops oid = Some x \<longrightarrow> ops' oid = Some x) \<and> dom ops' = dom ops \<union> OperationID ` set xs"
proof (induction docs xs ops handles rule: check_operations.induct)
  case (2 docs x xs ops handles)
  then have g: "validID (OperationID x)" "ops (OperationID x) = None"
    and r: "check_operations docs xs (ops(OperationID x \<mapsto> x)) (insert (Handle x) handles) = Inr ops'"
    by (auto split: if_splits)
  from "2.IH" [OF _ _ _ r] "2.prems" have
    "\<forall>y \<in> set xs. validID (OperationID y) \<and> ops' (OperationID y) = Some y"
    "\<forall>oid y. (ops(OperationID x \<mapsto> x)) oid = Some y \<longrightarrow> ops' oid = Some y"
    "dom ops' = dom (ops(OperationID x \<mapsto> x)) \<union> OperationID ` set xs"
    by (auto split: if_splits)
  with g show ?case by (auto split: if_splits) (metis option.distinct(1))
qed simp

lemma check_terminals_ok:
  "check_terminals d docs sts os = Inr () \<Longrightarrow> op \<in> set os \<Longrightarrow>
     \<exists>s. sts (OperationID op) = Some s \<and> dispatch s \<and> terminal s \<in> set terminalKinds"
  by (induction d docs sts os rule: check_terminals.induct) (auto split: option.splits if_splits)

lemma filter_one: "distinct (map f es) \<Longrightarrow> length (filter (\<lambda>e. P e \<and> f e = n) es) \<le> 1"
proof (induction es)
  case (Cons e es)
  have "filter (\<lambda>x. P x \<and> f x = n) es = []" if "f e = n"
    using Cons.prems that by (force simp: filter_empty_conv image_iff)
  with Cons show ?case by auto
qed simp

lemma validID_Nil: "\<not> validID ''''"
  by (simp add: validID_def)

lemma rep_complete: "rep s tr \<Longrightarrow> dispatch s \<Longrightarrow> terminal s \<in> set terminalKinds \<Longrightarrow> complete_trace tr"
proof -
  assume r: "rep s tr" and d: "dispatch s" and t: "terminal s \<in> set terminalKinds"
  have "terminal s \<noteq> ''''" using t by (auto simp: terminalKinds_def)
  with r d obtain n tail where "n \<le> 4" "1 \<le> n" "tr = take n progress @ terminal s # tail"
      "term_at n (terminal s)" "tail_ok (terminal s) tail"
    unfolding rep_def by auto
  then show ?thesis unfolding complete_trace_def by blast
qed

lemma validateModel_parts:
  assumes "validateModel d = Inr ()"
  obtains docs ops c where "check_header d = Inr ()" "check_documents (Documents d) Map.empty = Inr docs"
    "check_operations docs (Operations d) Map.empty {} = Inr ops" "check_initialize d ops = Inr ()"
    "check_references ops (Documents d) = Inr ()" "scan_events ops (Events d) scan0 = Inr c"
    "check_terminals d docs (states c) (Operations d) = Inr ()" "check_init_terminal d (states c) = Inr ()"
    "check_process c = Inr ()"
  using assms unfolding validateModel_def by auto

text \<open>
  C35: a document that \<open>validateModel\<close> accepts tells one coherent story. Event sequences strictly
  increase; every event other than process exit and cleanup belongs to a listed operation and carries
  its handle; the events of each operation form a complete lifecycle with exactly one terminal event;
  there is at most one process exit, and a cleanup follows it.
\<close>

theorem validateModel_story:
  assumes "validateModel d = Inr ()"
  shows "sorted_wrt (<) (map Sequence (Events d))
    \<and> (\<forall>op \<in> set (Operations d). complete_trace (trace (OperationID op) (Events d)))
    \<and> (\<forall>e \<in> set (Events d). Kind e \<in> {''PROCESS_EXIT'', ''CLEANUP_COMPLETE''} \<or>
         (\<exists>op \<in> set (Operations d). EOperationID e = OperationID op \<and> EHandle e = Handle op))
    \<and> length (filter (\<lambda>e. Kind e = ''PROCESS_EXIT'') (Events d)) \<le> 1
    \<and> (\<forall>x \<in> set (Events d). Kind x = ''PROCESS_EXIT'' \<longrightarrow>
         (\<exists>y \<in> set (Events d). Kind y = ''CLEANUP_COMPLETE'' \<and> Sequence x < Sequence y))"
proof -
  from assms obtain docs ops c where
    o: "check_operations docs (Operations d) Map.empty {} = Inr ops" and
    s: "scan_events ops (Events d) scan0 = Inr c" and
    t: "check_terminals d docs (states c) (Operations d) = Inr ()" and
    p: "check_process c = Inr ()" by (rule validateModel_parts)
  note ops = check_operations_ok [OF o]
  have nil: "ops '''' = None"
  proof (rule ccontr)
    assume "ops '''' \<noteq> None"
    then have "'''' \<in> OperationID ` set (Operations d)" using ops by auto
    with ops validID_Nil show False by (metis imageE)
  qed
  have ok: "scan_ok ops (Events d) c" using scan_events_ok [OF s scan_ok_init nil] by simp
  have traces: "complete_trace (trace (OperationID op) (Events d))" if opin: "op \<in> set (Operations d)" for op
  proof -
    obtain st where "states c (OperationID op) = Some st" "dispatch st" "terminal st \<in> set terminalKinds"
      using check_terminals_ok [OF t opin] by blast
    moreover have "OperationID op \<noteq> ''''" using ops opin validID_Nil by metis
    then have "rep (case states c (OperationID op) of None \<Rightarrow> newState | Some s \<Rightarrow> s) (trace (OperationID op) (Events d))"
      using ok unfolding scan_ok_def by blast
    ultimately show ?thesis by (auto intro: rep_complete)
  qed
  have keys: "\<exists>op \<in> set (Operations d). EOperationID e = OperationID op \<and> EHandle e = Handle op"
    if e: "e \<in> set (Events d)" "Kind e \<notin> {''PROCESS_EXIT'', ''CLEANUP_COMPLETE''}" for e
  proof -
    obtain op where op: "ops (EOperationID e) = Some op" "EHandle e = Handle op"
      using scan_events_keys [OF s e] by blast
    then have "EOperationID e \<in> OperationID ` set (Operations d)" using ops by (auto simp: dom_def)
    then obtain op' where "op' \<in> set (Operations d)" "EOperationID e = OperationID op'" by blast
    with ops op show ?thesis by (metis option.sel)
  qed
  have srt: "sorted_wrt (<) (map Sequence (Events d))" using ok by (simp add: scan_ok_def)
  then have dist: "distinct (map Sequence (Events d))" by (simp add: strict_sorted_iff)
  have one: "length (filter (\<lambda>e. Kind e = ''PROCESS_EXIT'') (Events d)) \<le> 1"
  proof -
    have "filter (\<lambda>e. Kind e = ''PROCESS_EXIT'') (Events d) =
        filter (\<lambda>e. Kind e = ''PROCESS_EXIT'' \<and> Sequence e = processExit c) (Events d)"
      using ok unfolding scan_ok_def by blast
    then show ?thesis using filter_one [OF dist, of "\<lambda>e. Kind e = ''PROCESS_EXIT''" "processExit c"] by simp
  qed
  have cleanup: "\<exists>y \<in> set (Events d). Kind y = ''CLEANUP_COMPLETE'' \<and> Sequence x < Sequence y"
    if x: "x \<in> set (Events d)" "Kind x = ''PROCESS_EXIT''" for x
  proof -
    have "x \<in> set (filter (\<lambda>e. Kind e = ''PROCESS_EXIT'') (Events d))" using x by simp
    then have "x \<in> set (filter (\<lambda>e. Kind e = ''PROCESS_EXIT'' \<and> Sequence e = processExit c) (Events d))"
      using ok unfolding scan_ok_def by metis
    then have px: "Sequence x = processExit c" by simp
    have "processExit c \<noteq> 0" using ok x(1) px unfolding scan_ok_def by auto
    then have nz: "cleanup c \<noteq> 0" using p by (auto simp: check_process_def split: if_splits)
    have "cleanup c \<noteq> 0 \<longrightarrow> processExit c < cleanup c \<and>
        (\<exists>e \<in> set (Events d). Kind e = ''CLEANUP_COMPLETE'' \<and> Sequence e = cleanup c)"
      using ok unfolding scan_ok_def by blast
    with nz px show ?thesis by auto
  qed
  from srt traces keys one cleanup show ?thesis by blast
qed

lemma header_not_nil: "check_header d \<noteq> Inl NilDereference"
  by (simp add: check_header_def Let_def)

lemma documents_not_nil: "check_documents xs docs \<noteq> Inl NilDereference"
  by (induction xs arbitrary: docs) auto

lemma operations_not_nil: "check_operations docs xs ops hs \<noteq> Inl NilDereference"
  by (induction xs arbitrary: ops hs) auto

lemma initialize_not_nil: "check_initialize d ops \<noteq> Inl NilDereference"
  by (simp add: check_initialize_def Let_def)

lemma references_not_nil: "check_references ops xs \<noteq> Inl NilDereference"
  by (induction ops xs rule: check_references.induct) auto

lemma op_event_not_nil: "op_event op pe e s \<noteq> Inl NilDereference"
  by (simp add: op_event_def Let_def)

lemma case_not_nil: "x \<noteq> Inl n \<Longrightarrow> (case x of Inl err \<Rightarrow> Inl err | Inr v \<Rightarrow> Inr (f v)) \<noteq> Inl n"
  by (cases x) auto

lemma event_step_not_nil: "event_step ops e c \<noteq> Inl NilDereference"
  unfolding event_step_def Let_def by (simp add: case_not_nil [OF op_event_not_nil] split: option.split)

lemma scan_not_nil: "scan_events ops es c \<noteq> Inl NilDereference"
  by (induction es arbitrary: c) (auto simp: event_step_not_nil split: sum.splits dest: sym)

lemma andThen_step: "andThen x f = Inl err \<Longrightarrow> x \<noteq> Inl err \<Longrightarrow> \<exists>a. x = Inr a \<and> f a = Inl err"
  by (simp add: andThen_Inl)

lemma terminals_not_nil: "check_terminals d docs sts os \<noteq> Inl NilDereference"
  by (induction d docs sts os rule: check_terminals.induct) (auto split: option.splits)

lemma process_not_nil: "check_process c \<noteq> Inl NilDereference"
  by (simp add: check_process_def)

definition sample_digest :: string where
  "sample_digest = ''sha256:'' @ replicate 64 CHR ''0''"

definition sample_event :: "u64 \<Rightarrow> string \<Rightarrow> Event" where
  "sample_event n k = \<lparr>Sequence = n, EOperationID = ''op'', EHandle = 7, Kind = k\<rparr>"

definition sample_model :: DocumentModel where
  "sample_model = \<lparr>SchemaVersion = SchemaVersionText,
     DAttempt = \<lparr>AttemptID = ''a'', ManagerID = ''m'', ProcessID = ''p'', Generation = 1\<rparr>,
     DInitialize = \<lparr>IOperationID = ''op'', IStatus = ''FAILED'', DocumentSymbolCapability = False\<rparr>,
     Documents = [],
     Operations = [\<lparr>OperationID = ''op'', Handle = 7, Method = ''initialize'', ODocumentID = ''''\<rparr>],
     Events = [sample_event 1 ''DISPATCH'', sample_event 2 ''TERMINAL_TIMEOUT'', sample_event 4 ''LATE''],
     DRetention = \<lparr>RStatus = ''AVAILABLE'', RetainedRecords = 4, OmittedRecords = 0, EvictedRecords = 0,
       Truncated = False, RMaxRecords = 64, RMaxBytes = 65536, RMaxStringBytes = 4096\<rparr>,
     Artifact = \<lparr>Schema = PublicV3Schema, Length = 10, SHA256 = sample_digest, PublicationSHA256 = ''''\<rparr>\<rparr>"

lemma sample_digest_ok: "validDigest sample_digest" "length sample_digest = 71"
  by (simp_all add: validDigest_def sample_digest_def is_hex_def list_all_iff)

lemma sample_header: "check_header sample_model = Inr ()"
  by (simp add: check_header_def Let_def stringsBounded_def sample_model_def sample_event_def sample_digest_ok
      validID_def is_alnum_def record_count_def MaxRecords_def MaxBytes_def MaxStringBytes_def
      SchemaVersionText_def PublicV3Schema_def)

lemma sample_valid: "validateModel sample_model = Inr ()"
  unfolding validateModel_def sample_header
  by (simp add: sample_model_def sample_event_def andThen_def validID_def is_alnum_def methods_def check_initialize_def
      event_step_def eventKinds_def op_event_def Let_def scan0_def newState_def finish_def terminalKinds_def
      check_init_terminal_def check_process_def word_le_nat_alt)

theorem validateModel_story_witness:
  "complete_trace (trace ''op'' (Events sample_model))"
  using validateModel_story [OF sample_valid] by (simp add: sample_model_def)

text \<open>
  C36: the validator never dereferences a missing state. The only unchecked map access, the state of
  the initialize operation, is reached after every listed operation has been shown to have one.
\<close>

theorem validateModel_no_nil: "validateModel d \<noteq> Inl NilDereference"
proof
  assume "validateModel d = Inl NilDereference"
  from andThen_step [OF this [unfolded validateModel_def] header_not_nil] obtain docs where
    h1: "andThen (check_operations docs (Operations d) Map.empty {}) (\<lambda>ops.
     andThen (check_initialize d ops) (\<lambda>_.
     andThen (check_references ops (Documents d)) (\<lambda>_.
     andThen (scan_events ops (Events d) scan0) (\<lambda>c.
     andThen (check_terminals d docs (states c) (Operations d)) (\<lambda>_.
     andThen (check_init_terminal d (states c)) (\<lambda>_. check_process c)))))) = Inl NilDereference"
    using andThen_step [OF _ documents_not_nil] by blast
  from andThen_step [OF h1 operations_not_nil] obtain ops where
    o: "check_operations docs (Operations d) Map.empty {} = Inr ops" and
    h2: "andThen (check_initialize d ops) (\<lambda>_.
     andThen (check_references ops (Documents d)) (\<lambda>_.
     andThen (scan_events ops (Events d) scan0) (\<lambda>c.
     andThen (check_terminals d docs (states c) (Operations d)) (\<lambda>_.
     andThen (check_init_terminal d (states c)) (\<lambda>_. check_process c))))) = Inl NilDereference" by blast
  from andThen_step [OF h2 initialize_not_nil] have i: "check_initialize d ops = Inr ()" and
    h3: "andThen (check_references ops (Documents d)) (\<lambda>_.
     andThen (scan_events ops (Events d) scan0) (\<lambda>c.
     andThen (check_terminals d docs (states c) (Operations d)) (\<lambda>_.
     andThen (check_init_terminal d (states c)) (\<lambda>_. check_process c)))) = Inl NilDereference" by auto
  from andThen_step [OF h3 references_not_nil] have
    h4: "andThen (scan_events ops (Events d) scan0) (\<lambda>c.
     andThen (check_terminals d docs (states c) (Operations d)) (\<lambda>_.
     andThen (check_init_terminal d (states c)) (\<lambda>_. check_process c))) = Inl NilDereference" by blast
  from andThen_step [OF h4 scan_not_nil] obtain c where
    h5: "andThen (check_terminals d docs (states c) (Operations d)) (\<lambda>_.
     andThen (check_init_terminal d (states c)) (\<lambda>_. check_process c)) = Inl NilDereference" by blast
  from andThen_step [OF h5 terminals_not_nil] have t: "check_terminals d docs (states c) (Operations d) = Inr ()"
    and n: "check_init_terminal d (states c) = Inl NilDereference"
    using process_not_nil by (auto simp: andThen_Inl)
  from n have st: "IStatus (DInitialize d) \<noteq> ''OMITTED''" and none: "states c (IOperationID (DInitialize d)) = None"
    by (auto simp: check_init_terminal_def Let_def split: if_splits option.splits)
  from i st have "ops (IOperationID (DInitialize d)) \<noteq> None"
    by (auto simp: check_initialize_def Let_def split: if_splits option.splits)
  then have "IOperationID (DInitialize d) \<in> OperationID ` set (Operations d)"
    using check_operations_ok [OF o] by (auto simp: dom_def)
  then obtain op where "op \<in> set (Operations d)" "IOperationID (DInitialize d) = OperationID op" by blast
  with check_terminals_ok [OF t] none show False by fastforce
qed

end
