(* ===== verification/Relations.thy ===== *)
theory Relations
  imports Go_Json Go_Map
begin

text \<open>
  Package \<open>internal/relations\<close>. \<open>support.go\<close>: \<open>MinimumDependence\<close> checks the upstream graph of
  observations for missing references and cycles and partitions the observations into dependence
  classes with a union-find structure. \<open>observation_semantics.go\<close>: validation and identity of semantic
  observations, coverage accounting, canonical lists of contributing observations.

  The Go code ranges over the map \<open>byID\<close> three times, each time in an order of the runtime's choice: the
  model takes the order \<open>visits\<close> of the cycle check and the order \<open>order\<close> of the grouping as arguments
  (the loop between them initialises \<open>parent\<close>, and its order leaves no trace). The depth-first search recurses at most once per observation, so its recursion
  is bounded by fuel, one more than the number of observations; \<^const>\<open>None\<close> stands for exhausted fuel.
  \<open>find\<close> is a \<open>partial_function\<close>, so that a chase that does not end would be \<^const>\<open>None\<close>.
\<close>

record Observation =
  ID :: string
  UpstreamObservationIDs :: "string list"
  ExecutionID :: string
  ResponseID :: string
  ReceiptID :: string

datatype dependence_error =
    MissingID
  | DuplicateID string
  | MissingUpstream string string
  | Cyclic string

fun index_observations :: "Observation list \<Rightarrow> (string \<rightharpoonup> Observation) \<Rightarrow> dependence_error + (string \<rightharpoonup> Observation)" where
  "index_observations [] byID = Inr byID"
| "index_observations (x # xs) byID =
     (if ID x = '''' then Inl MissingID
      else if byID (ID x) \<noteq> None then Inl (DuplicateID (ID x))
      else index_observations xs (byID(ID x \<mapsto> x)))"

fun missing_upstream :: "(string \<rightharpoonup> Observation) \<Rightarrow> Observation list \<Rightarrow> dependence_error option" where
  "missing_upstream byID [] = None"
| "missing_upstream byID (x # xs) =
     (case find (\<lambda>u. byID u = None) (UpstreamObservationIDs x) of
        Some u \<Rightarrow> Some (MissingUpstream u (ID x))
      | None \<Rightarrow> missing_upstream byID xs)"

section \<open>Cycle check\<close>

datatype mark = White | Gray | Black

definition upstream :: "(string \<rightharpoonup> Observation) \<Rightarrow> string \<Rightarrow> string list" where
  "upstream byID i = (case byID i of None \<Rightarrow> [] | Some x \<Rightarrow> UpstreamObservationIDs x)"

text \<open>\<open>visit\<close> and its loop over the upstream identifiers.\<close>

fun visit :: "(string \<rightharpoonup> Observation) \<Rightarrow> nat \<Rightarrow> string \<Rightarrow> (string \<Rightarrow> mark)
      \<Rightarrow> (dependence_error + (string \<Rightarrow> mark)) option"
  and visit_all :: "(string \<rightharpoonup> Observation) \<Rightarrow> nat \<Rightarrow> string list \<Rightarrow> (string \<Rightarrow> mark)
      \<Rightarrow> (dependence_error + (string \<Rightarrow> mark)) option" where
  "visit byID 0 i state = None"
| "visit byID (Suc n) i state =
     (case state i of
        Gray \<Rightarrow> Some (Inl (Cyclic i))
      | Black \<Rightarrow> Some (Inr state)
      | White \<Rightarrow>
          (case visit_all byID n (upstream byID i) (state(i := Gray)) of
             None \<Rightarrow> None
           | Some (Inl err) \<Rightarrow> Some (Inl err)
           | Some (Inr state') \<Rightarrow> Some (Inr (state'(i := Black)))))"
| "visit_all byID n [] state = Some (Inr state)"
| "visit_all byID n (i # is) state =
     (case visit byID n i state of
        None \<Rightarrow> None
      | Some (Inl err) \<Rightarrow> Some (Inl err)
      | Some (Inr state') \<Rightarrow> visit_all byID n is state')"

section \<open>Union-find\<close>

definition pget :: "(string \<rightharpoonup> string) \<Rightarrow> string \<Rightarrow> string" where
  "pget parent i = (case parent i of None \<Rightarrow> '''' | Some p \<Rightarrow> p)"

partial_function (option) uf_find :: "(string \<rightharpoonup> string) \<Rightarrow> string \<Rightarrow> (string \<times> (string \<rightharpoonup> string)) option" where
  "uf_find parent i =
     (if pget parent i \<noteq> i then
        Option.bind (uf_find parent (pget parent i)) (\<lambda>(r, parent'). Some (r, parent'(i \<mapsto> r)))
      else Some (i, parent))"

declare uf_find.simps [code]

definition union :: "string \<Rightarrow> string \<Rightarrow> (string \<rightharpoonup> string) \<Rightarrow> (string \<rightharpoonup> string) option" where
  "union a b parent =
     (case uf_find parent a of
        None \<Rightarrow> None
      | Some (ra, p1) \<Rightarrow>
          (case uf_find p1 b of
             None \<Rightarrow> None
           | Some (rb, p2) \<Rightarrow>
               Some (if ra = rb then p2 else if ra < rb then p2(rb \<mapsto> ra) else p2(ra \<mapsto> rb))))"

text \<open>\<open>share\<close>: the first holder of a non-empty key is remembered, later holders join it.\<close>

definition share :: "string \<Rightarrow> string \<Rightarrow> (string \<rightharpoonup> string) \<times> (string \<rightharpoonup> string)
    \<Rightarrow> ((string \<rightharpoonup> string) \<times> (string \<rightharpoonup> string)) option" where
  "share k i s =
     (case s of (index, parent) \<Rightarrow>
        if k = '''' then Some (index, parent)
        else case index k of
            Some first \<Rightarrow> map_option (\<lambda>p. (index, p)) (union first i parent)
          | None \<Rightarrow> Some (index(k \<mapsto> i), parent))"

fun union_all :: "string \<Rightarrow> string list \<Rightarrow> (string \<rightharpoonup> string) \<Rightarrow> (string \<rightharpoonup> string) option" where
  "union_all i [] parent = Some parent"
| "union_all i (u # us) parent =
     (case union i u parent of None \<Rightarrow> None | Some p \<Rightarrow> union_all i us p)"

record sharing =
  byExecution :: "string \<rightharpoonup> string"
  byResponse :: "string \<rightharpoonup> string"
  byReceipt :: "string \<rightharpoonup> string"

fun join_observations :: "Observation list \<Rightarrow> sharing \<Rightarrow> (string \<rightharpoonup> string) \<Rightarrow> (string \<rightharpoonup> string) option" where
  "join_observations [] s parent = Some parent"
| "join_observations (x # xs) s parent =
     (case share (ExecutionID x) (ID x) (byExecution s, parent) of
        None \<Rightarrow> None
      | Some (e, p1) \<Rightarrow>
          (case share (ResponseID x) (ID x) (byResponse s, p1) of
             None \<Rightarrow> None
           | Some (r, p2) \<Rightarrow>
               (case share (ReceiptID x) (ID x) (byReceipt s, p2) of
                  None \<Rightarrow> None
                | Some (c, p3) \<Rightarrow>
                    (case union_all (ID x) (UpstreamObservationIDs x) p3 of
                       None \<Rightarrow> None
                     | Some p4 \<Rightarrow>
                         join_observations xs \<lparr>byExecution = e, byResponse = r, byReceipt = c\<rparr> p4))))"

section \<open>Classes\<close>

fun group_roots :: "string list \<Rightarrow> (string, string list) go_map \<Rightarrow> (string \<rightharpoonup> string)
    \<Rightarrow> (string, string list) go_map option" where
  "group_roots [] grouped parent = Some grouped"
| "group_roots (i # is) grouped parent =
     (case uf_find parent i of
        None \<Rightarrow> None
      | Some (r, p) \<Rightarrow>
          group_roots is
            (AList.update r ((case map_of grouped r of None \<Rightarrow> [] | Some ms \<Rightarrow> ms) @ [i]) grouped) p)"

definition empty_sharing :: sharing where
  "empty_sharing = \<lparr>byExecution = Map.empty, byResponse = Map.empty, byReceipt = Map.empty\<rparr>"

definition MinimumDependence :: "string list \<Rightarrow> string list \<Rightarrow> Observation list \<Rightarrow> (dependence_error + string list list) option" where
  "MinimumDependence visits order obs =
     (case index_observations obs Map.empty of
        Inl err \<Rightarrow> Some (Inl err)
      | Inr byID \<Rightarrow>
          (case missing_upstream byID obs of
             Some err \<Rightarrow> Some (Inl err)
           | None \<Rightarrow>
               (case visit_all byID (Suc (length obs)) visits (\<lambda>_. White) of
                  None \<Rightarrow> None
                | Some (Inl err) \<Rightarrow> Some (Inl err)
                | Some (Inr _) \<Rightarrow>
                    (case join_observations obs empty_sharing (\<lambda>i. if i \<in> set order then Some i else None) of
                       None \<Rightarrow> None
                     | Some parent \<Rightarrow>
                         (case group_roots order [] parent of
                            None \<Rightarrow> None
                          | Some grouped \<Rightarrow> Some (Inr (sort_key hd (map (sort \<circ> snd) grouped))))))))"

section \<open>Observation semantics\<close>

definition ObservationSchemaV1 :: string where
  "ObservationSchemaV1 = ''lsp-trace.observation.v1''"

definition relationKinds :: "string list" where
  "relationKinds = [''CALLS'', ''BINDS_ARGUMENT'', ''PASSES_CALLBACK'', ''INVOKES_TASK'', ''TRIGGERS_RELOAD'',
     ''UPDATES_STATE'', ''RENDERS_FROM'']"

definition kind_Valid :: "string \<Rightarrow> bool" where
  "kind_Valid k \<longleftrightarrow> k \<in> set relationKinds"

definition authority_Valid :: "string \<Rightarrow> bool" where
  "authority_Valid a \<longleftrightarrow> a = ''SERVER_REPORTED'' \<or> a = ''SOURCE_DERIVED_ADAPTER'' \<or> a = ''CALLER_ASSERTED''"

definition ProhibitedClaims :: "string list" where
  "ProhibitedClaims = [''runtime_execution'', ''callback_invocation'', ''repaint'', ''feature_identity'',
     ''whole_source_completeness'']"

record ProducerIdentity =
  Name :: string
  Version :: string

record Endpoint =
  NodeID :: string
  Role :: string

record SourceAnchor =
  URI :: string
  Revision :: string
  Blob :: string
  StartLine :: int
  StartCharacter :: int
  EndLine :: int
  EndCharacter :: int

record SemanticObservation =
  SchemaVersion :: string
  OKind :: string
  Authority :: string
  Provider :: ProducerIdentity
  From :: Endpoint
  To :: Endpoint
  Anchors :: "SourceAnchor list"
  Supports :: "string list"
  DoesNotSupport :: "string list"
  RequestID :: string
  Timestamp :: string

definition endpointRoles :: "string \<Rightarrow> string \<times> string" where
  "endpointRoles k =
     (if k = ''CALLS'' then (''CALLER'', ''CALLEE'')
      else if k = ''BINDS_ARGUMENT'' then (''SOURCE_EXPRESSION'', ''BOUND_ARGUMENT'')
      else if k = ''PASSES_CALLBACK'' then (''CALLABLE_REFERENCE'', ''CALLBACK_PARAMETER'')
      else if k = ''INVOKES_TASK'' then (''TASK_INVOCATION'', ''TASK'')
      else if k = ''TRIGGERS_RELOAD'' then (''RELOAD_REQUEST'', ''RELOAD_TARGET'')
      else if k = ''UPDATES_STATE'' then (''STATE_PRODUCER'', ''STATE_VALUE'')
      else if k = ''RENDERS_FROM'' then (''RENDER_EXPRESSION'', ''READ_VALUE'')
      else ('''', ''''))"

datatype observation_error =
    UnsupportedSchema string | UnknownKind string | UnknownAuthority string | CallsNotServerReported
  | ProviderIdentityMissing | InvalidEndpoints string | AnchorRequired | AnchorIdentity | AnchorRange
  | CannotSupport string | MissingProhibited string

fun check_anchors :: "SourceAnchor list \<Rightarrow> observation_error option" where
  "check_anchors [] = None"
| "check_anchors (a # as) =
     (if URI a = '''' \<or> Revision a = '''' \<or> Blob a = '''' then Some AnchorIdentity
      else if StartLine a < 0 \<or> StartCharacter a < 0 \<or> EndLine a < StartLine a \<or> EndCharacter a < 0
        then Some AnchorRange
      else check_anchors as)"

definition observation_Validate :: "SemanticObservation \<Rightarrow> observation_error option" where
  "observation_Validate ob =
     (if SchemaVersion ob \<noteq> ObservationSchemaV1 then Some (UnsupportedSchema (SchemaVersion ob))
      else if \<not> kind_Valid (OKind ob) then Some (UnknownKind (OKind ob))
      else if \<not> authority_Valid (Authority ob) then Some (UnknownAuthority (Authority ob))
      else if OKind ob = ''CALLS'' \<and> Authority ob \<noteq> ''SERVER_REPORTED'' then Some CallsNotServerReported
      else if Name (Provider ob) = '''' \<or> Version (Provider ob) = '''' then Some ProviderIdentityMissing
      else if NodeID (From ob) = '''' \<or> NodeID (To ob) = '''' \<or> Role (From ob) \<noteq> fst (endpointRoles (OKind ob))
          \<or> Role (To ob) \<noteq> snd (endpointRoles (OKind ob)) then Some (InvalidEndpoints (OKind ob))
      else if Authority ob = ''SOURCE_DERIVED_ADAPTER'' \<and> Anchors ob = [] then Some AnchorRequired
      else case check_anchors (Anchors ob) of
          Some err \<Rightarrow> Some err
        | None \<Rightarrow>
            (case find (\<lambda>c. c \<in> set ProhibitedClaims) (Supports ob) of
               Some c \<Rightarrow> Some (CannotSupport c)
             | None \<Rightarrow>
                 (case find (\<lambda>c. c \<notin> set (DoesNotSupport ob)) ProhibitedClaims of
                    Some c \<Rightarrow> Some (MissingProhibited c)
                  | None \<Rightarrow> None)))"

definition anchor_json :: "SourceAnchor \<Rightarrow> string" where
  "anchor_json a = json_object
     [json_field ''URI'' (json_string (URI a)), json_field ''Revision'' (json_string (Revision a)),
      json_field ''Blob'' (json_string (Blob a)), json_field ''StartLine'' (dec_int (StartLine a)),
      json_field ''StartCharacter'' (dec_int (StartCharacter a)), json_field ''EndLine'' (dec_int (EndLine a)),
      json_field ''EndCharacter'' (dec_int (EndCharacter a))]"

definition endpoint_json :: "Endpoint \<Rightarrow> string" where
  "endpoint_json p = json_object [json_field ''node_id'' (json_string (NodeID p)), json_field ''role'' (json_string (Role p))]"

text \<open>
  The bytes \<open>CanonicalID\<close> hashes: the identity fields and the anchors sorted by their own JSON. With no
  anchors the copied slice is nil and marshals to \<open>null\<close>.
\<close>

definition identity_json :: "SemanticObservation \<Rightarrow> string" where
  "identity_json ob = json_object
     [json_field ''SchemaVersion'' (json_string (SchemaVersion ob)), json_field ''Kind'' (json_string (OKind ob)),
      json_field ''Authority'' (json_string (Authority ob)),
      json_field ''Provider'' (json_object [json_field ''name'' (json_string (Name (Provider ob))),
                                            json_field ''version'' (json_string (Version (Provider ob)))]),
      json_field ''From'' (endpoint_json (From ob)), json_field ''To'' (endpoint_json (To ob)),
      json_field ''Anchors''
        (if Anchors ob = [] then ''null''
         else ''['' @ json_join (map anchor_json (sort_key anchor_json (Anchors ob))) @ '']'')]"

definition CanonicalID :: "(string \<Rightarrow> string) \<Rightarrow> SemanticObservation \<Rightarrow> observation_error + string" where
  "CanonicalID digest ob =
     (case observation_Validate ob of
        Some err \<Rightarrow> Inl err
      | None \<Rightarrow> Inr (''sha256:'' @ digest (identity_json ob)))"

record Coverage =
  CStatus :: string
  Denominator :: "string list"
  Covered :: "string list"
  CoveredCount :: int

datatype coverage_error =
    UnknownCoverageStatus string | DenominatorRequired | InvalidDenominatorMember string
  | OutsideDenominator string | DuplicateCovered string | CoveredCountMismatch | DenominatorNotExhausted

fun check_denominator :: "string list \<Rightarrow> string set \<Rightarrow> coverage_error option" where
  "check_denominator [] seen = None"
| "check_denominator (i # is) seen =
     (if i = '''' \<or> i \<in> seen then Some (InvalidDenominatorMember i) else check_denominator is (insert i seen))"

fun check_covered :: "string set \<Rightarrow> string list \<Rightarrow> string set \<Rightarrow> coverage_error option" where
  "check_covered den [] seen = None"
| "check_covered den (i # is) seen =
     (if i \<notin> den then Some (OutsideDenominator i)
      else if i \<in> seen then Some (DuplicateCovered i)
      else check_covered den is (insert i seen))"

definition coverage_Validate :: "Coverage \<Rightarrow> coverage_error option" where
  "coverage_Validate c =
     (if CStatus c \<notin> {''COMPLETE_WITHIN_BOUNDS'', ''PARTIAL'', ''UNKNOWN''} then Some (UnknownCoverageStatus (CStatus c))
      else if Denominator c = [] then Some DenominatorRequired
      else case check_denominator (Denominator c) {} of
          Some err \<Rightarrow> Some err
        | None \<Rightarrow>
            (case check_covered (set (Denominator c)) (Covered c) {} of
               Some err \<Rightarrow> Some err
             | None \<Rightarrow>
                 if CoveredCount c \<noteq> int (length (Covered c)) then Some CoveredCountMismatch
                 else if CStatus c = ''COMPLETE_WITHIN_BOUNDS'' \<and> length (Covered c) \<noteq> length (Denominator c)
                   then Some DenominatorNotExhausted
                 else None))"

definition failure_Valid :: "string \<Rightarrow> bool" where
  "failure_Valid f \<longleftrightarrow> f \<in> {''PREPARE_RETURNED_NO_ITEM'', ''RELATION_NOT_SUPPORTED'', ''ADAPTER_NOT_AVAILABLE'',
     ''NO_RELATIONS_WITHIN_BOUNDS'', ''TRANSPORT_FAILED'', ''TRUNCATED''}"

datatype contributing_error = NoContributors | EmptyContributor | DuplicateContributor string

text \<open>The scan of the sorted copy; the first argument is the previous element.\<close>

fun scan_sorted :: "string option \<Rightarrow> string list \<Rightarrow> contributing_error option" where
  "scan_sorted prev [] = None"
| "scan_sorted prev (i # is) =
     (if i = '''' then Some EmptyContributor
      else if prev = Some i then Some (DuplicateContributor i)
      else scan_sorted (Some i) is)"

definition CanonicalContributingObservationIDs :: "string list \<Rightarrow> contributing_error + string list" where
  "CanonicalContributingObservationIDs ids =
     (if ids = [] then Inl NoContributors
      else case scan_sorted None (sort ids) of Some err \<Rightarrow> Inl err | None \<Rightarrow> Inr (sort ids))"

end
