(* ===== verification/Disjoint_Classes.thy ===== *)
theory Disjoint_Classes
  imports Main
begin

text \<open>
  Interface of a union-find structure, stated for any representation \<open>'p\<close> of a partition of \<open>K\<close>: \<open>ok p f\<close>
  says that \<open>p\<close> represents the partition whose classes are the fibres of \<open>f\<close>, and the provider promises
  that a union merges two fibres and nothing else. The client result is that a structure built by any
  sequence of unions represents the equivalence closure of the pairs that were joined.
\<close>

definition eqcl :: "('k \<times> 'k) set \<Rightarrow> ('k \<times> 'k) set" where
  "eqcl S = (S \<union> S\<inverse>)\<^sup>*"

lemma eqcl_refl [simp]: "(x, x) \<in> eqcl S"
  by (simp add: eqcl_def)

lemma eqcl_in: "(x, y) \<in> S \<Longrightarrow> (x, y) \<in> eqcl S"
  by (auto simp: eqcl_def)

lemma eqcl_sym: "(x, y) \<in> eqcl S \<Longrightarrow> (y, x) \<in> eqcl S"
  unfolding eqcl_def by (metis converse_Un converse_converse rtrancl_converseI sup_commute)

lemma eqcl_trans: "(x, y) \<in> eqcl S \<Longrightarrow> (y, z) \<in> eqcl S \<Longrightarrow> (x, z) \<in> eqcl S"
  by (auto simp: eqcl_def)

lemma eqcl_mono: "S \<subseteq> T \<Longrightarrow> eqcl S \<subseteq> eqcl T"
  unfolding eqcl_def by (rule rtrancl_mono) blast

lemma eqcl_least:
  assumes s: "S \<subseteq> eqcl T"
  shows "eqcl S \<subseteq> eqcl T"
proof -
  have "S\<inverse> \<subseteq> eqcl T"
  proof
    fix p assume "p \<in> S\<inverse>"
    then obtain x y where "p = (x, y)" "(y, x) \<in> eqcl T" using s by (cases p) auto
    then show "p \<in> eqcl T" using eqcl_sym [of y x T] by simp
  qed
  with s have "S \<union> S\<inverse> \<subseteq> eqcl T" by simp
  then have "(S \<union> S\<inverse>)\<^sup>* \<subseteq> (eqcl T)\<^sup>*" by (rule rtrancl_mono)
  then show ?thesis by (simp add: eqcl_def)
qed

lemma eqcl_kernel:
  assumes "\<And>x y. (x, y) \<in> S \<Longrightarrow> f x = f y" and "(x, y) \<in> eqcl S"
  shows "f x = f y"
  using assms(2) unfolding eqcl_def
  by (induction rule: rtrancl_induct) (auto dest: assms(1))

lemma eqcl_closed:
  assumes "S \<subseteq> K \<times> K" and "(x, y) \<in> eqcl S"
  shows "x \<in> K \<longleftrightarrow> y \<in> K"
  using assms(2) unfolding eqcl_def
  by (induction rule: rtrancl_induct) (use assms(1) in auto)

locale disjoint_sets =
  fixes K :: "'k set"
    and ok :: "'p \<Rightarrow> ('k \<Rightarrow> 'k) \<Rightarrow> bool"
    and un :: "'k \<Rightarrow> 'k \<Rightarrow> 'p \<Rightarrow> 'p option"
  assumes un_ok: "ok p f \<Longrightarrow> a \<in> K \<Longrightarrow> b \<in> K \<Longrightarrow>
    \<exists>p' g. un a b p = Some p' \<and> ok p' g \<and>
      (\<forall>x \<in> K. \<forall>y \<in> K. g x = g y \<longleftrightarrow> f x = f y \<or> f x = f a \<and> f y = f b \<or> f x = f b \<and> f y = f a)"
begin

definition realises :: "'p \<Rightarrow> ('k \<times> 'k) set \<Rightarrow> bool" where
  "realises p S \<longleftrightarrow> S \<subseteq> K \<times> K \<and> (\<exists>f. ok p f \<and> (\<forall>x \<in> K. \<forall>y \<in> K. f x = f y \<longleftrightarrow> (x, y) \<in> eqcl S))"

lemma realises_union:
  assumes "realises p S" and ab: "a \<in> K" "b \<in> K"
  shows "\<exists>p'. un a b p = Some p' \<and> realises p' (insert (a, b) S)"
proof -
  let ?S = "insert (a, b) S"
  from assms(1) obtain f where S: "S \<subseteq> K \<times> K" and f: "ok p f"
    and e: "\<And>x y. x \<in> K \<Longrightarrow> y \<in> K \<Longrightarrow> f x = f y \<longleftrightarrow> (x, y) \<in> eqcl S"
    unfolding realises_def by blast
  from un_ok [OF f ab] obtain p' g where p': "un a b p = Some p'" "ok p' g"
    and g: "\<And>x y. x \<in> K \<Longrightarrow> y \<in> K \<Longrightarrow>
      g x = g y \<longleftrightarrow> f x = f y \<or> f x = f a \<and> f y = f b \<or> f x = f b \<and> f y = f a"
    by blast
  have up: "(x, y) \<in> eqcl S \<Longrightarrow> (x, y) \<in> eqcl ?S" for x y using eqcl_mono [of S ?S] by blast
  have join: "(a, b) \<in> eqcl ?S" "(b, a) \<in> eqcl ?S" by (auto intro: eqcl_in eqcl_sym)
  have "g x = g y \<longleftrightarrow> (x, y) \<in> eqcl ?S" if xy: "x \<in> K" "y \<in> K" for x y
  proof
    assume "g x = g y"
    then consider "f x = f y" | "f x = f a" "f y = f b" | "f x = f b" "f y = f a" using g xy by blast
    then show "(x, y) \<in> eqcl ?S"
    proof cases
      case 1
      with e xy up show ?thesis by blast
    next
      case 2
      with e xy ab have "(x, a) \<in> eqcl ?S" "(b, y) \<in> eqcl ?S" using up eqcl_sym by metis+
      with join show ?thesis by (blast intro: eqcl_trans)
    next
      case 3
      with e xy ab have "(x, b) \<in> eqcl ?S" "(a, y) \<in> eqcl ?S" using up eqcl_sym by metis+
      with join show ?thesis by (blast intro: eqcl_trans)
    qed
  next
    assume "(x, y) \<in> eqcl ?S"
    moreover have "g u = g v" if "(u, v) \<in> ?S" for u v
    proof (cases "(u, v) = (a, b)")
      case True
      with g ab show ?thesis by auto
    next
      case False
      with that S have "(u, v) \<in> S" "u \<in> K" "v \<in> K" by auto
      with e [of u v] eqcl_in [of u v S] g [of u v] show ?thesis by simp
    qed
    ultimately show "g x = g y" by (rule eqcl_kernel [rotated])
  qed
  with p' S ab show ?thesis unfolding realises_def by blast
qed

end

end
