(* ===== verification/Dependence_Classes.thy ===== *)
theory Dependence_Classes
  imports Relations Disjoint_Classes
begin

text \<open>
  Correctness of \<open>MinimumDependence\<close>: the depth-first search accepts exactly the acyclic upstream
  graphs, the union-find structure implements the interface \<open>disjoint_sets\<close>, and the classes returned
  are the equivalence classes of the dependence relation.
\<close>

section \<open>Union-find\<close>

text \<open>\<open>f\<close> gives the root of every identifier; parents never lie above their children.\<close>

definition uf_ok :: "string set \<Rightarrow> (string \<rightharpoonup> string) \<Rightarrow> (string \<Rightarrow> string) \<Rightarrow> bool" where
  "uf_ok K p f \<longleftrightarrow> (\<forall>x \<in> K. pget p x \<in> K \<and> pget p x \<le> x \<and> f x \<in> K \<and> f x \<le> x \<and> f (pget p x) = f x \<and>
     pget p (f x) = f x \<and> (pget p x = x \<longrightarrow> f x = x))"

lemma uf_root: "uf_ok K p f \<Longrightarrow> x \<in> K \<Longrightarrow> f (f x) = f x"
  unfolding uf_ok_def by metis

lemma pget_upd [simp]: "pget (p(x \<mapsto> v)) y = (if y = x then v else pget p y)"
  by (simp add: pget_def)

lemma uf_ok_compress: "uf_ok K p f \<Longrightarrow> x \<in> K \<Longrightarrow> uf_ok K (p(x \<mapsto> f x)) f"
  using uf_root [of K p f x] unfolding uf_ok_def by auto

lemma uf_find_ok:
  assumes "finite K" and "uf_ok K p f" and "x \<in> K"
  shows "\<exists>p'. uf_find p x = Some (f x, p') \<and> uf_ok K p' f"
  using assms(2,3)
proof (induction "card {y \<in> K. y < x}" arbitrary: x rule: less_induct)
  case less
  show ?case
  proof (cases "pget p x = x")
    case True
    with less.prems have "f x = x" by (auto simp: uf_ok_def)
    with True less.prems show ?thesis by (subst uf_find.simps) auto
  next
    case False
    let ?y = "pget p x"
    have y: "?y \<in> K" "?y < x" "f ?y = f x"
      using less.prems False by (auto simp: uf_ok_def order_less_le)
    have "{z \<in> K. z < ?y} \<subset> {z \<in> K. z < x}" using y by auto
    then have "card {z \<in> K. z < ?y} < card {z \<in> K. z < x}"
      by (rule psubset_card_mono [rotated]) (use assms(1) in simp)
    from less.hyps [OF this less.prems(1) y(1)] obtain p' where
      p': "uf_find p ?y = Some (f x, p')" "uf_ok K p' f" using y(3) by auto
    have "uf_find p x = Some (f x, p'(x \<mapsto> f x))"
      using False p'(1) by (subst uf_find.simps) simp
    with uf_ok_compress [OF p'(2) less.prems(2)] show ?thesis by blast
  qed
qed

lemma uf_ok_link:
  assumes "uf_ok K p f" and "ra \<in> K" "rb \<in> K" "f ra = ra" "f rb = rb" "ra < rb"
  shows "uf_ok K (p(rb \<mapsto> ra)) (\<lambda>x. if f x = rb then ra else f x)"
  unfolding uf_ok_def
proof
  fix x
  assume x: "x \<in> K"
  let ?p = "p(rb \<mapsto> ra)" and ?g = "\<lambda>x. if f x = rb then ra else f x"
  have u: "pget p x \<in> K" "pget p x \<le> x" "f x \<in> K" "f x \<le> x" "f (pget p x) = f x" "pget p (f x) = f x"
      "pget p x = x \<longrightarrow> f x = x"
    using bspec [OF assms(1) [unfolded uf_ok_def] x] by simp_all
  have ra: "pget p ra = ra"
    using bspec [OF assms(1) [unfolded uf_ok_def] assms(2)] assms(4) by simp
  have ne: "ra \<noteq> rb" "ra \<le> rb" using assms(6) by auto
  have "f x = rb \<Longrightarrow> ra \<le> x" using u(4) ne(2) by auto
  with u ra ne assms show "pget ?p x \<in> K \<and> pget ?p x \<le> x \<and> ?g x \<in> K \<and> ?g x \<le> x \<and> ?g (pget ?p x) = ?g x \<and>
     pget ?p (?g x) = ?g x \<and> (pget ?p x = x \<longrightarrow> ?g x = x)"
    by (cases "x = rb") simp_all
qed

lemma union_ok:
  assumes "finite K" and "uf_ok K p f" and "a \<in> K" "b \<in> K"
  shows "\<exists>p' g. union a b p = Some p' \<and> uf_ok K p' g \<and>
      (\<forall>x \<in> K. \<forall>y \<in> K. g x = g y \<longleftrightarrow> f x = f y \<or> f x = f a \<and> f y = f b \<or> f x = f b \<and> f y = f a)"
proof -
  from uf_find_ok [OF assms(1,2,3)] obtain p1 where p1: "uf_find p a = Some (f a, p1)" "uf_ok K p1 f" by blast
  from uf_find_ok [OF assms(1) p1(2) assms(4)] obtain p2 where
    p2: "uf_find p1 b = Some (f b, p2)" "uf_ok K p2 f" by blast
  have roots: "f a \<in> K" "f b \<in> K" "f (f a) = f a" "f (f b) = f b"
    using assms uf_root by (auto simp: uf_ok_def)
  consider "f a = f b" | "f a < f b" | "f b < f a" by fastforce
  then show ?thesis
  proof cases
    case 1
    then have "union a b p = Some p2" using p1 p2 by (simp add: union_def)
    with p2(2) 1 show ?thesis by auto
  next
    case 2
    then have "union a b p = Some (p2(f b \<mapsto> f a))" using p1 p2 by (auto simp: union_def)
    with uf_ok_link [OF p2(2) roots 2] 2 show ?thesis
      by (intro exI [of _ "p2(f b \<mapsto> f a)"] exI [of _ "\<lambda>x. if f x = f b then f a else f x"]) auto
  next
    case 3
    then have "union a b p = Some (p2(f a \<mapsto> f b))" using p1 p2 by (auto simp: union_def)
    with uf_ok_link [OF p2(2) roots(2,1,4,3) 3] 3 show ?thesis
      by (intro exI [of _ "p2(f a \<mapsto> f b)"] exI [of _ "\<lambda>x. if f x = f a then f b else f x"]) auto
  qed
qed

interpretation uf: disjoint_sets "set xs" "uf_ok (set xs)" union for xs
  by unfold_locales (rule union_ok; simp)

lemma realises_init: "uf.realises xs (\<lambda>i. if i \<in> set xs then Some i else None) {}"
proof -
  have "uf_ok (set xs) (\<lambda>i. if i \<in> set xs then Some i else None) id"
    by (auto simp: uf_ok_def pget_def)
  moreover have "id x = id y \<longleftrightarrow> (x, y) \<in> eqcl {}" for x y :: string
    by (auto simp: eqcl_def)
  ultimately show ?thesis unfolding uf.realises_def by blast
qed

section \<open>Joining observations\<close>

text \<open>The pairs a shared key joins, and the bookkeeping of \<open>share\<close> for one kind of key.\<close>

definition shared :: "(Observation \<Rightarrow> string) \<Rightarrow> Observation list \<Rightarrow> (string \<rightharpoonup> string) \<Rightarrow> (string \<times> string) set \<Rightarrow> bool" where
  "shared k pre index S \<longleftrightarrow>
     (\<forall>v i. index v = Some i \<longrightarrow> (\<exists>x \<in> set pre. ID x = i \<and> k x = v \<and> v \<noteq> '''')) \<and>
     (\<forall>x \<in> set pre. k x \<noteq> '''' \<longrightarrow> (\<exists>i. index (k x) = Some i \<and> (i, ID x) \<in> eqcl S))"

definition same_key :: "(Observation \<Rightarrow> string) \<Rightarrow> Observation list \<Rightarrow> (string \<times> string) set" where
  "same_key k obs = {(ID x, ID y) | x y. x \<in> set obs \<and> y \<in> set obs \<and> k x = k y \<and> k x \<noteq> ''''}"

lemma shared_mono: "shared k pre index S \<Longrightarrow> S \<subseteq> T \<Longrightarrow> shared k pre index T"
  unfolding shared_def using eqcl_mono [of S T] by blast

lemma shared_same_key: "shared k obs index S \<Longrightarrow> same_key k obs \<subseteq> eqcl S"
proof
  fix p
  assume s: "shared k obs index S" and "p \<in> same_key k obs"
  then obtain x y where p: "p = (ID x, ID y)" "x \<in> set obs" "y \<in> set obs" "k x = k y" "k x \<noteq> ''''"
    by (auto simp: same_key_def)
  with s obtain i where "index (k x) = Some i" "(i, ID x) \<in> eqcl S" "(i, ID y) \<in> eqcl S"
    unfolding shared_def by (metis option.sel)
  with p show "p \<in> eqcl S" by (auto intro: eqcl_trans eqcl_sym)
qed

lemma share_ok:
  assumes "shared k pre index S" and "uf.realises ids p S" and "ID ` set (pre @ [x]) \<subseteq> set ids"
  shows "\<exists>index' p' T. share (k x) (ID x) (index, p) = Some (index', p') \<and> uf.realises ids p' (S \<union> T) \<and>
    T \<subseteq> same_key k (pre @ [x]) \<and> shared k (pre @ [x]) index' (S \<union> T)"
proof (cases "k x = ''''")
  case True
  with assms show ?thesis
    by (intro exI [of _ index] exI [of _ p] exI [of _ "{}"]) (auto simp: share_def shared_def)
next
  case False
  show ?thesis
  proof (cases "index (k x)")
    case None
    have "shared k (pre @ [x]) (index(k x \<mapsto> ID x)) S"
      using assms(1) None False unfolding shared_def by auto
    with None False assms(2) show ?thesis
      by (intro exI [of _ "index(k x \<mapsto> ID x)"] exI [of _ p] exI [of _ "{}"]) (auto simp: share_def)
  next
    case (Some i)
    with assms(1) obtain y where y: "y \<in> set pre" "ID y = i" "k y = k x" unfolding shared_def by blast
    have "i \<in> set ids" "ID x \<in> set ids" using y assms(3) by auto
    from uf.realises_union [OF assms(2) this] obtain p' where
      p': "union i (ID x) p = Some p'" "uf.realises ids p' (insert (i, ID x) S)" by blast
    have "shared k (pre @ [x]) index (insert (i, ID x) S)"
      using shared_mono [OF assms(1), of "insert (i, ID x) S"] Some y False eqcl_in [of i "ID x" "insert (i, ID x) S"]
      unfolding shared_def by auto
    moreover have "(i, ID x) \<in> same_key k (pre @ [x])"
      unfolding same_key_def using y False by (intro CollectI exI [of _ y] exI [of _ x]) auto
    ultimately show ?thesis
      using p' Some False
      by (intro exI [of _ index] exI [of _ p'] exI [of _ "{(i, ID x)}"]) (auto simp: share_def)
  qed
qed

lemma union_all_ok:
  "uf.realises ids p S \<Longrightarrow> i \<in> set ids \<Longrightarrow> set us \<subseteq> set ids \<Longrightarrow>
     \<exists>p'. union_all i us p = Some p' \<and> uf.realises ids p' (S \<union> {i} \<times> set us)"
proof (induction us arbitrary: p S)
  case (Cons u us)
  then obtain p1 where p1: "union i u p = Some p1" "uf.realises ids p1 (insert (i, u) S)"
    using uf.realises_union [of ids p S i u] by auto
  from Cons.IH [OF p1(2)] Cons.prems obtain p' where
    "union_all i us p1 = Some p'" "uf.realises ids p' (insert (i, u) S \<union> {i} \<times> set us)" by auto
  moreover have "insert (i, u) S \<union> {i} \<times> set us = S \<union> {i} \<times> set (u # us)" by auto
  ultimately show ?case using p1(1) by auto
qed simp

definition up_rel :: "Observation list \<Rightarrow> (string \<times> string) set" where
  "up_rel obs = {(ID x, u) | x u. x \<in> set obs \<and> u \<in> set (UpstreamObservationIDs x)}"

text \<open>The dependence relation: a shared execution, response or receipt, or an upstream reference.\<close>

definition dep_rel :: "Observation list \<Rightarrow> (string \<times> string) set" where
  "dep_rel obs = same_key ExecutionID obs \<union> same_key ResponseID obs \<union> same_key ReceiptID obs \<union> up_rel obs"

definition joined :: "Observation list \<Rightarrow> sharing \<Rightarrow> (string \<times> string) set \<Rightarrow> bool" where
  "joined pre s S \<longleftrightarrow> shared ExecutionID pre (byExecution s) S \<and> shared ResponseID pre (byResponse s) S \<and>
     shared ReceiptID pre (byReceipt s) S \<and> up_rel pre \<subseteq> S \<and> S \<subseteq> dep_rel pre"

lemma rel_snoc:
  "same_key k pre \<subseteq> same_key k (pre @ [x])"
  "up_rel (pre @ [x]) = up_rel pre \<union> {ID x} \<times> set (UpstreamObservationIDs x)"
  by (auto simp: same_key_def up_rel_def)

lemma join_ok:
  assumes "joined pre s S" and "uf.realises ids p S"
    and "ID ` set (pre @ xs) \<subseteq> set ids" and "\<forall>x \<in> set xs. set (UpstreamObservationIDs x) \<subseteq> set ids"
  shows "\<exists>p' s' S'. join_observations xs s p = Some p' \<and> uf.realises ids p' S' \<and> joined (pre @ xs) s' S'"
  using assms
proof (induction xs arbitrary: pre s S p)
  case Nil
  then show ?case by auto
next
  case (Cons x xs)
  have ids: "ID ` set (pre @ [x]) \<subseteq> set ids" using Cons.prems(3) by auto
  note j = Cons.prems(1) [unfolded joined_def]
  from share_ok [of ExecutionID pre "byExecution s" S, OF _ Cons.prems(2) ids] j obtain e p1 T1 where
    1: "share (ExecutionID x) (ID x) (byExecution s, p) = Some (e, p1)" "uf.realises ids p1 (S \<union> T1)"
      "T1 \<subseteq> same_key ExecutionID (pre @ [x])" "shared ExecutionID (pre @ [x]) e (S \<union> T1)" by blast
  have "shared ResponseID pre (byResponse s) (S \<union> T1)" using j shared_mono by blast
  from share_ok [OF this 1(2) ids] obtain r p2 T2 where
    2: "share (ResponseID x) (ID x) (byResponse s, p1) = Some (r, p2)" "uf.realises ids p2 (S \<union> T1 \<union> T2)"
      "T2 \<subseteq> same_key ResponseID (pre @ [x])" "shared ResponseID (pre @ [x]) r (S \<union> T1 \<union> T2)" by blast
  have "shared ReceiptID pre (byReceipt s) (S \<union> T1 \<union> T2)" using j shared_mono [of ReceiptID] by blast
  from share_ok [OF this 2(2) ids] obtain c p3 T3 where
    3: "share (ReceiptID x) (ID x) (byReceipt s, p2) = Some (c, p3)" "uf.realises ids p3 (S \<union> T1 \<union> T2 \<union> T3)"
      "T3 \<subseteq> same_key ReceiptID (pre @ [x])" "shared ReceiptID (pre @ [x]) c (S \<union> T1 \<union> T2 \<union> T3)" by blast
  let ?S = "S \<union> T1 \<union> T2 \<union> T3 \<union> {ID x} \<times> set (UpstreamObservationIDs x)"
  from union_all_ok [OF 3(2), of "ID x" "UpstreamObservationIDs x"] Cons.prems(3,4) obtain p4 where
    4: "union_all (ID x) (UpstreamObservationIDs x) p3 = Some p4" "uf.realises ids p4 ?S" by auto
  have "joined (pre @ [x]) \<lparr>byExecution = e, byResponse = r, byReceipt = c\<rparr> ?S"
    unfolding joined_def
  proof (intro conjI)
    show "shared ExecutionID (pre @ [x]) (byExecution \<lparr>byExecution = e, byResponse = r, byReceipt = c\<rparr>) ?S"
      using shared_mono [OF 1(4), of ?S] by auto
    show "shared ResponseID (pre @ [x]) (byResponse \<lparr>byExecution = e, byResponse = r, byReceipt = c\<rparr>) ?S"
      using shared_mono [OF 2(4), of ?S] by auto
    show "shared ReceiptID (pre @ [x]) (byReceipt \<lparr>byExecution = e, byResponse = r, byReceipt = c\<rparr>) ?S"
      using shared_mono [OF 3(4), of ?S] by auto
    show "up_rel (pre @ [x]) \<subseteq> ?S" using j by (auto simp: rel_snoc(2))
    show "?S \<subseteq> dep_rel (pre @ [x])"
      using j 1(3) 2(3) 3(3) rel_snoc(1) [of ExecutionID pre x] rel_snoc(1) [of ResponseID pre x]
        rel_snoc(1) [of ReceiptID pre x] unfolding dep_rel_def rel_snoc(2) by blast
  qed
  from Cons.IH [OF this 4(2)] Cons.prems(3,4) 1(1) 2(1) 3(1) 4(1) show ?case by auto
qed

lemma joined_closure:
  assumes "joined obs s S"
  shows "eqcl S = eqcl (dep_rel obs)"
proof
  show "eqcl S \<subseteq> eqcl (dep_rel obs)" using assms by (intro eqcl_mono) (simp add: joined_def)
  have "up_rel obs \<subseteq> eqcl S" using assms eqcl_in [of _ _ S] unfolding joined_def by (auto simp: subset_iff)
  then have "dep_rel obs \<subseteq> eqcl S"
    using assms unfolding joined_def dep_rel_def by (intro Un_least) (blast dest: shared_same_key)+
  then show "eqcl (dep_rel obs) \<subseteq> eqcl S" by (rule eqcl_least)
qed

section \<open>Cycle check\<close>

definition up_of :: "(string \<rightharpoonup> Observation) \<Rightarrow> (string \<times> string) set" where
  "up_of byID = {(i, u). u \<in> set (upstream byID i)}"

text \<open>Black observations are finished: everything upstream of them is Black and they lie on no cycle.\<close>

definition finished :: "(string \<rightharpoonup> Observation) \<Rightarrow> (string \<Rightarrow> mark) \<Rightarrow> bool" where
  "finished byID st \<longleftrightarrow> (\<forall>i. st i = Black \<longrightarrow> (\<forall>u. (i, u) \<in> up_of byID \<longrightarrow> st u = Black) \<and> (i, i) \<notin> (up_of byID)\<^sup>+)"

definition advances :: "(string \<Rightarrow> mark) \<Rightarrow> (string \<Rightarrow> mark) \<Rightarrow> bool" where
  "advances st st' \<longleftrightarrow> (\<forall>j. (st' j = Gray \<longleftrightarrow> st j = Gray) \<and> (st j = Black \<longrightarrow> st' j = Black))"

lemma advances_refl [simp]: "advances st st"
  by (simp add: advances_def)

lemma advances_trans: "advances a b \<Longrightarrow> advances b c \<Longrightarrow> advances a c"
  by (simp add: advances_def)

lemma finished_reach:
  assumes "finished byID st" and "st u = Black" and "(u, v) \<in> (up_of byID)\<^sup>*"
  shows "st v = Black"
  using assms(3,2) by (induction rule: rtrancl_induct) (use assms(1) in \<open>auto simp: finished_def\<close>)

lemma finish_one:
  assumes "finished byID st" and "st i \<noteq> Black" and "\<forall>u \<in> set (upstream byID i). st u = Black"
  shows "finished byID (st(i := Black))"
proof -
  have "(i, i) \<notin> (up_of byID)\<^sup>+"
  proof
    assume "(i, i) \<in> (up_of byID)\<^sup>+"
    then obtain u where "(i, u) \<in> up_of byID" "(u, i) \<in> (up_of byID)\<^sup>*" by (meson tranclD)
    then have "st i = Black" using finished_reach [OF assms(1), of u i] assms(3) by (simp add: up_of_def)
    with assms(2) show False by simp
  qed
  then show ?thesis using assms(1,3) unfolding finished_def by (auto simp: up_of_def)
qed

definition whites :: "string set \<Rightarrow> (string \<Rightarrow> mark) \<Rightarrow> string set" where
  "whites K st = {i \<in> K. st i = White}"

lemma whites_advance:
  assumes "finite K" and "advances st st'"
  shows "card (whites K st') \<le> card (whites K st)"
proof (rule card_mono)
  show "finite (whites K st)" using assms(1) by (simp add: whites_def)
  have "st j = White" if "st' j = White" for j
    using assms(2) that unfolding advances_def by (cases "st j") (metis mark.distinct)+
  then show "whites K st' \<subseteq> whites K st" unfolding whites_def by blast
qed

lemma whites_gray:
  assumes "finite K" and "i \<in> K" and "st i = White"
  shows "card (whites K (st(i := Gray))) < card (whites K st)"
proof (rule psubset_card_mono)
  show "finite (whites K st)" using assms(1) by (simp add: whites_def)
  show "whites K (st(i := Gray)) \<subset> whites K st" using assms(2,3) by (auto simp: whites_def)
qed

text \<open>What a search from \<open>is\<close> promises: it returns, and it ends with all of \<open>is\<close> Black or on a cycle.\<close>

definition searched :: "(string \<rightharpoonup> Observation) \<Rightarrow> string list \<Rightarrow> (string \<Rightarrow> mark)
    \<Rightarrow> (dependence_error + (string \<Rightarrow> mark)) option \<Rightarrow> bool" where
  "searched byID is st r \<longleftrightarrow>
     (case r of None \<Rightarrow> False
      | Some (Inl err) \<Rightarrow> \<exists>c. err = Cyclic c \<and> (c, c) \<in> (up_of byID)\<^sup>+
      | Some (Inr st') \<Rightarrow> finished byID st' \<and> advances st st' \<and> (\<forall>i \<in> set is. st' i = Black))"

definition ready :: "(string \<rightharpoonup> Observation) \<Rightarrow> string set \<Rightarrow> nat \<Rightarrow> string list \<Rightarrow> (string \<Rightarrow> mark) \<Rightarrow> bool" where
  "ready byID K n is st \<longleftrightarrow> finished byID st \<and> set is \<subseteq> K \<and> card (whites K st) < n \<and>
     (\<forall>j. st j = Gray \<longrightarrow> (\<forall>i \<in> set is. (j, i) \<in> (up_of byID)\<^sup>+))"

lemma ready_upstream:
  assumes "finite K" and "up_of byID \<subseteq> K \<times> K" and "ready byID K (Suc n) [i] st" and "st i = White"
  shows "ready byID K n (upstream byID i) (st(i := Gray))"
proof -
  have i: "i \<in> K" and fin: "finished byID st" and w: "card (whites K st) < Suc n"
    and g: "\<And>j. st j = Gray \<Longrightarrow> (j, i) \<in> (up_of byID)\<^sup>+"
    using assms(3) by (auto simp: ready_def)
  have "set (upstream byID i) \<subseteq> K" using assms(2) by (auto simp: up_of_def)
  moreover have black: "(st(i := Gray)) j = Black \<longleftrightarrow> st j = Black" for j
    using assms(4) by (cases "j = i") simp_all
  have "finished byID (st(i := Gray))" using fin by (simp only: finished_def black)
  moreover have "(j, u) \<in> (up_of byID)\<^sup>+" if "(st(i := Gray)) j = Gray" "u \<in> set (upstream byID i)" for j u
  proof -
    have "(i, u) \<in> up_of byID" using that(2) by (simp add: up_of_def)
    then show ?thesis using that(1) g [of j] by (cases "j = i") (auto intro: trancl_into_trancl)
  qed
  ultimately show ?thesis using whites_gray [of K i st] assms(1,4) i w unfolding ready_def by auto
qed

lemma visit_step:
  assumes "finite K" and "up_of byID \<subseteq> K \<times> K"
    and all: "\<And>is st. ready byID K n is st \<Longrightarrow> searched byID is st (visit_all byID n is st)"
    and ready: "ready byID K (Suc n) [i] st"
  shows "searched byID [i] st (visit byID (Suc n) i st)"
proof (cases "st i")
  case White
  from all [OF ready_upstream [OF assms(1,2) ready White]]
  have s: "searched byID (upstream byID i) (st(i := Gray)) (visit_all byID n (upstream byID i) (st(i := Gray)))" .
  show ?thesis
  proof (cases "visit_all byID n (upstream byID i) (st(i := Gray))")
    case None
    with s show ?thesis by (simp add: searched_def)
  next
    case (Some r)
    show ?thesis
    proof (cases r)
      case (Inl err)
      with s Some White show ?thesis by (simp add: searched_def)
    next
      case (Inr st')
      with s Some have f: "finished byID st'" "advances (st(i := Gray)) st'" "\<forall>u \<in> set (upstream byID i). st' u = Black"
        by (simp_all add: searched_def)
      have "st' i = Gray" using f(2) by (simp add: advances_def)
      then have "finished byID (st'(i := Black))" using finish_one [OF f(1) _ f(3)] by simp
      moreover have "advances st (st'(i := Black))" using f(2) White by (auto simp: advances_def)
      ultimately show ?thesis using Some Inr White by (simp add: searched_def)
    qed
  qed
next
  case Gray
  with ready show ?thesis by (auto simp: ready_def searched_def)
next
  case Black
  with ready show ?thesis by (auto simp: ready_def searched_def)
qed

lemma ready_next:
  assumes "finite K" and "ready byID K n (i # is) st" and "finished byID st'" and "advances st st'"
  shows "ready byID K n is st'"
  using assms(2-4) whites_advance [OF assms(1,4)] unfolding ready_def advances_def by auto

lemma visit_all_step:
  assumes "finite K"
    and one: "\<And>i st. ready byID K n [i] st \<Longrightarrow> searched byID [i] st (visit byID n i st)"
  shows "ready byID K n is st \<Longrightarrow> searched byID is st (visit_all byID n is st)"
proof (induction "is" arbitrary: st)
  case Nil
  then show ?case by (simp add: ready_def searched_def)
next
  case (Cons i "is")
  then have "ready byID K n [i] st" by (simp add: ready_def)
  note s = one [OF this]
  show ?case
  proof (cases "visit byID n i st")
    case None
    with s show ?thesis by (simp add: searched_def)
  next
    case (Some r)
    show ?thesis
    proof (cases r)
      case (Inl err)
      with s Some show ?thesis by (simp add: searched_def)
    next
      case (Inr st')
      with s Some have f: "finished byID st'" "advances st st'" "st' i = Black" by (simp_all add: searched_def)
      from Cons.IH [OF ready_next [OF assms(1) Cons.prems f(1,2)]] f Some Inr show ?thesis
        by (auto simp: searched_def advances_def split: option.splits sum.splits)
    qed
  qed
qed

lemma visit_all_searched:
  assumes "finite K" and "up_of byID \<subseteq> K \<times> K"
  shows "ready byID K n is st \<Longrightarrow> searched byID is st (visit_all byID n is st)"
proof (induction n arbitrary: "is" st)
  case 0
  then show ?case by (simp add: ready_def)
next
  case (Suc n)
  show ?case by (rule visit_all_step [OF assms(1) visit_step [OF assms Suc.IH] Suc.prems])
qed

section \<open>Validation of the input\<close>

lemma index_observations_Inr:
  "index_observations xs byID = Inr m \<Longrightarrow>
     '''' \<notin> ID ` set xs \<and> distinct (map ID xs) \<and> (\<forall>x \<in> set xs. byID (ID x) = None) \<and>
     (\<forall>i x. m i = Some x \<longleftrightarrow> byID i = Some x \<or> x \<in> set xs \<and> ID x = i)"
proof (induction xs arbitrary: byID)
  case (Cons x xs)
  then have "index_observations xs (byID(ID x \<mapsto> x)) = Inr m" and n: "ID x \<noteq> ''''" "byID (ID x) = None"
    by (auto split: if_splits)
  from Cons.IH [OF this(1)] have h: "'''' \<notin> ID ` set xs" "distinct (map ID xs)"
    "\<forall>y \<in> set xs. (byID(ID x \<mapsto> x)) (ID y) = None"
    "\<forall>i y. m i = Some y \<longleftrightarrow> (byID(ID x \<mapsto> x)) i = Some y \<or> y \<in> set xs \<and> ID y = i" by auto
  have ne: "\<forall>y \<in> set xs. ID y \<noteq> ID x \<and> byID (ID y) = None" using h(3) by (auto split: if_splits)
  have "m i = Some y \<longleftrightarrow> byID i = Some y \<or> y \<in> set (x # xs) \<and> ID y = i" for i y
    using h(4) n(2) ne by (cases "i = ID x") auto
  with h(1,2) n ne show ?case by (auto simp: image_iff)
qed simp

lemma index_observations_Inl:
  "index_observations xs byID = Inl err \<Longrightarrow>
     err = MissingID \<and> '''' \<in> ID ` set xs \<or>
     (\<exists>i. err = DuplicateID i \<and> i \<in> ID ` set xs \<and> (byID i \<noteq> None \<or> \<not> distinct (map ID xs)))"
proof (induction xs arbitrary: byID)
  case (Cons x xs)
  show ?case
  proof (cases "ID x = '''' \<or> byID (ID x) \<noteq> None")
    case True
    with Cons.prems show ?thesis by (auto split: if_splits)
  next
    case False
    with Cons.prems have "index_observations xs (byID(ID x \<mapsto> x)) = Inl err" by auto
    from Cons.IH [OF this] show ?thesis by (auto split: if_splits simp: image_iff)
  qed
qed simp

lemma find_sound: "find P xs = Some u \<Longrightarrow> u \<in> set xs \<and> P u"
  by (auto simp: find_Some_iff)

lemma missing_upstream_None:
  "missing_upstream byID xs = None \<longleftrightarrow> (\<forall>x \<in> set xs. \<forall>u \<in> set (UpstreamObservationIDs x). byID u \<noteq> None)"
  by (induction xs) (auto simp: find_None_iff split: option.splits dest!: find_sound)

lemma missing_upstream_Some:
  "missing_upstream byID xs = Some err \<Longrightarrow>
     \<exists>x \<in> set xs. \<exists>u \<in> set (UpstreamObservationIDs x). byID u = None \<and> err = MissingUpstream u (ID x)"
proof (induction xs)
  case (Cons x xs)
  show ?case
  proof (cases "find (\<lambda>u. byID u = None) (UpstreamObservationIDs x)")
    case None
    with Cons show ?thesis by auto
  next
    case (Some u)
    then have "u \<in> set (UpstreamObservationIDs x)" "byID u = None" by (auto simp: find_Some_iff)
    with Some Cons.prems show ?thesis by auto
  qed
qed simp

lemma up_of_index:
  assumes "\<And>i x. byID i = Some x \<longleftrightarrow> x \<in> set obs \<and> ID x = i"
  shows "up_of byID = up_rel obs"
proof -
  have "(i, u) \<in> up_of byID \<longleftrightarrow> (\<exists>x. byID i = Some x \<and> u \<in> set (UpstreamObservationIDs x))" for i u
    by (cases "byID i") (simp_all add: up_of_def upstream_def)
  then have "(i, u) \<in> up_of byID \<longleftrightarrow> (i, u) \<in> up_rel obs" for i u
    unfolding up_rel_def assms by auto
  then show ?thesis by auto
qed

section \<open>Grouping\<close>

definition grouping :: "(string \<Rightarrow> string) \<Rightarrow> string list \<Rightarrow> (string, string list) go_map \<Rightarrow> bool" where
  "grouping f pre g \<longleftrightarrow> distinct (map fst g) \<and>
     (\<forall>r. map_of g r = (if r \<in> f ` set pre then Some (filter (\<lambda>i. f i = r) pre) else None))"

lemma grouping_snoc:
  assumes "grouping f pre g"
  shows "grouping f (pre @ [i])
    (AList.update (f i) ((case map_of g (f i) of None \<Rightarrow> [] | Some ms \<Rightarrow> ms) @ [i]) g)"
proof -
  have n: "filter (\<lambda>j. f j = f i) pre = []" if "f i \<notin> f ` set pre"
    using that by (metis (mono_tags, lifting) filter_False image_eqI)
  then show ?thesis using assms unfolding grouping_def
    by (auto simp: update_conv' distinct_update split: option.splits)
qed

lemma group_roots_ok:
  assumes "finite K" and "uf_ok K p f" and "set xs \<subseteq> K" and "grouping f pre g"
  shows "\<exists>g'. group_roots xs g p = Some g' \<and> grouping f (pre @ xs) g'"
  using assms(2-)
proof (induction xs arbitrary: pre g p)
  case (Cons i xs)
  from uf_find_ok [OF assms(1) Cons.prems(1)] Cons.prems(2) obtain p' where
    p': "uf_find p i = Some (f i, p')" "uf_ok K p' f" by auto
  from Cons.IH [OF p'(2) _ grouping_snoc [OF Cons.prems(3), of i]] Cons.prems(2) p'(1)
  show ?case by simp
qed simp

lemma grouping_entries:
  assumes "grouping f xs g"
  shows "(r, ms) \<in> set g \<longleftrightarrow> r \<in> f ` set xs \<and> ms = filter (\<lambda>i. f i = r) xs"
  using assms map_of_eq_Some_iff [of g r ms] unfolding grouping_def by (auto split: if_splits)

text \<open>The classes built from a grouping: sorted, disjoint, ordered by their first member.\<close>

definition classes_of :: "(string, string list) go_map \<Rightarrow> string list list" where
  "classes_of g = sort_key hd (map (sort \<circ> snd) g)"

lemma classes_members:
  assumes "grouping f xs g"
  shows "set (classes_of g) = (\<lambda>r. sort (filter (\<lambda>i. f i = r) xs)) ` f ` set xs"
proof -
  have "set g = (\<lambda>r. (r, filter (\<lambda>i. f i = r) xs)) ` f ` set xs"
    using grouping_entries [OF assms] by (auto simp: image_iff)
  then show ?thesis by (auto simp: classes_of_def image_iff)
qed

lemma classes_hd:
  assumes "grouping f xs g" and "(r, ms) \<in> set g"
  shows "ms \<noteq> [] \<and> hd (sort ms) \<in> set xs \<and> f (hd (sort ms)) = r"
proof -
  from grouping_entries [OF assms(1)] assms(2) have r: "r \<in> f ` set xs" "ms = filter (\<lambda>i. f i = r) xs" by auto
  then have ne: "ms \<noteq> []" by (auto simp: filter_empty_conv)
  have "set (sort ms) \<noteq> {}" using ne by simp
  then have "sort ms \<noteq> []" by fastforce
  then have "hd (sort ms) \<in> set (sort ms)" by (rule hd_in_set)
  with r ne show ?thesis by auto
qed

lemma classes_heads:
  assumes "grouping f xs g"
  shows "sorted_wrt (<) (map hd (classes_of g))"
proof -
  have "map (f \<circ> hd \<circ> sort \<circ> snd) g = map fst g"
    using classes_hd [OF assms] by (auto intro!: map_cong)
  moreover have "distinct (map fst g)" using assms by (simp add: grouping_def)
  ultimately have "distinct (map (f \<circ> hd \<circ> sort \<circ> snd) g)" by (simp only:)
  then have "distinct (map f (map hd (map (sort \<circ> snd) g)))" by (simp add: comp_assoc)
  then have "distinct (map hd (map (sort \<circ> snd) g))" by (simp only: distinct_map)
  then have "distinct (map hd (classes_of g))"
    unfolding classes_of_def by (metis distinct_map set_sort distinct_sort)
  moreover have "sorted (map hd (classes_of g))" by (simp add: classes_of_def)
  ultimately show ?thesis by (simp add: strict_sorted_iff)
qed

section \<open>The partition\<close>

definition well_formed :: "Observation list \<Rightarrow> bool" where
  "well_formed obs \<longleftrightarrow> '''' \<notin> ID ` set obs \<and> distinct (map ID obs) \<and> Range (up_rel obs) \<subseteq> ID ` set obs \<and> acyclic (up_rel obs)"

definition partition_of :: "Observation list \<Rightarrow> string list list \<Rightarrow> bool" where
  "partition_of obs classes \<longleftrightarrow>
     (\<forall>c \<in> set classes. c \<noteq> [] \<and> sorted_wrt (<) c) \<and> sorted_wrt (<) (map hd classes) \<and>
     set ` set classes = (ID ` set obs) // eqcl (dep_rel obs)"

lemma dep_rel_within:
  assumes "Range (up_rel obs) \<subseteq> ID ` set obs"
  shows "dep_rel obs \<subseteq> (ID ` set obs) \<times> (ID ` set obs)"
  using assms unfolding dep_rel_def same_key_def up_rel_def by (auto simp: Range_iff image_iff) blast

lemma classes_partition:
  assumes g: "grouping f order g" and order: "set order = ID ` set obs" "distinct order"
    and f: "\<And>x y. x \<in> set order \<Longrightarrow> y \<in> set order \<Longrightarrow> f x = f y \<longleftrightarrow> (x, y) \<in> eqcl (dep_rel obs)"
    and within: "dep_rel obs \<subseteq> set order \<times> set order"
  shows "partition_of obs (classes_of g)"
  unfolding partition_of_def
proof (intro conjI)
  show "\<forall>c \<in> set (classes_of g). c \<noteq> [] \<and> sorted_wrt (<) c"
  proof
    fix c
    assume "c \<in> set (classes_of g)"
    with classes_members [OF g] obtain i where i: "i \<in> set order" "c = sort (filter (\<lambda>j. f j = f i) order)" by auto
    then have "i \<in> set c" by simp
    moreover have "sorted c" "distinct c" using i(2) order(2) by simp_all
    ultimately show "c \<noteq> [] \<and> sorted_wrt (<) c" by (auto simp: strict_sorted_iff)
  qed
  show "sorted_wrt (<) (map hd (classes_of g))" by (rule classes_heads [OF g])
  have cls: "eqcl (dep_rel obs) `` {x} = {y \<in> set order. f y = f x}" if "x \<in> set order" for x
    using that f eqcl_closed [OF within] by (auto 4 3 dest: eqcl_sym)
  have "set ` set (classes_of g) = (\<lambda>x. {y \<in> set order. f y = f x}) ` set order"
    by (simp add: classes_members [OF g] image_image)
  also have "\<dots> = (\<lambda>x. eqcl (dep_rel obs) `` {x}) ` set order" using cls by (intro image_cong) auto
  finally show "set ` set (classes_of g) = (ID ` set obs) // eqcl (dep_rel obs)"
    using order(1) by (auto simp: quotient_def)
qed

lemma up_rel_Range: "Range (up_rel obs) \<subseteq> K \<longleftrightarrow> (\<forall>x \<in> set obs. set (UpstreamObservationIDs x) \<subseteq> K)"
  unfolding up_rel_def by blast

lemma length_dom:
  assumes "distinct (map ID obs)"
  shows "card (ID ` set obs) = length obs"
  using distinct_card [OF assms] by simp

lemma cycle_check:
  assumes byID: "\<And>i x. byID i = Some x \<longleftrightarrow> x \<in> set obs \<and> ID x = i"
    and obs: "distinct (map ID obs)" "Range (up_rel obs) \<subseteq> ID ` set obs" and v: "set visits = ID ` set obs"
  shows "if acyclic (up_rel obs) then \<exists>st. visit_all byID (Suc (length obs)) visits (\<lambda>_. White) = Some (Inr st)
    else \<exists>c. visit_all byID (Suc (length obs)) visits (\<lambda>_. White) = Some (Inl (Cyclic c)) \<and> (c, c) \<in> (up_rel obs)\<^sup>+"
proof -
  let ?K = "ID ` set obs" and ?r = "visit_all byID (Suc (length obs)) visits (\<lambda>_. White)"
  note R = up_of_index [OF byID]
  have "up_of byID \<subseteq> ?K \<times> ?K" using obs(2) unfolding R up_rel_Range by (auto simp: up_rel_def)
  moreover have "ready byID ?K (Suc (length obs)) visits (\<lambda>_. White)"
    using v length_dom [OF obs(1)] by (simp add: ready_def finished_def whites_def)
  ultimately have s: "searched byID visits (\<lambda>_. White) ?r" by (intro visit_all_searched) auto
  show ?thesis
  proof (cases "\<exists>st. ?r = Some (Inr st)")
    case True
    then obtain st where st: "?r = Some (Inr st)" by blast
    with s have f: "finished byID st" "\<forall>i \<in> ?K. st i = Black" using v by (simp_all add: searched_def)
    have "(i, i) \<notin> (up_rel obs)\<^sup>+" for i
    proof
      assume c: "(i, i) \<in> (up_rel obs)\<^sup>+"
      then obtain u where "(i, u) \<in> up_rel obs" by (meson tranclD)
      then have "i \<in> ?K" by (auto simp: up_rel_def)
      with f(2) have "st i = Black" by blast
      with f(1) c show False by (simp add: finished_def R)
    qed
    then show ?thesis using st by (simp add: acyclic_def)
  next
    case False
    with s obtain c where "?r = Some (Inl (Cyclic c))" "(c, c) \<in> (up_rel obs)\<^sup>+"
      by (auto simp: searched_def R split: option.splits sum.splits)
    then show ?thesis by (auto simp: acyclic_def)
  qed
qed

lemma union_find_classes:
  assumes order: "set order = ID ` set obs" "distinct order" and r: "Range (up_rel obs) \<subseteq> ID ` set obs"
  shows "\<exists>parent g. join_observations obs empty_sharing (\<lambda>i. if i \<in> set order then Some i else None) = Some parent \<and>
    group_roots order [] parent = Some g \<and> partition_of obs (classes_of g)"
proof -
  have "joined [] empty_sharing {}"
    by (simp add: joined_def shared_def empty_sharing_def up_rel_def)
  moreover have "\<forall>x \<in> set obs. set (UpstreamObservationIDs x) \<subseteq> set order"
    using r unfolding order(1) up_rel_Range .
  ultimately obtain parent s S where p: "join_observations obs empty_sharing
      (\<lambda>i. if i \<in> set order then Some i else None) = Some parent" "uf.realises order parent S" "joined obs s S"
    using join_ok [of "[]" empty_sharing "{}" order _ obs, OF _ realises_init] order(1) by auto
  from p(2) obtain f where f: "uf_ok (set order) parent f"
    "\<forall>x \<in> set order. \<forall>y \<in> set order. f x = f y \<longleftrightarrow> (x, y) \<in> eqcl S" unfolding uf.realises_def by blast
  have "grouping f [] []" by (simp add: grouping_def)
  from group_roots_ok [OF _ f(1) subset_refl this] obtain g where
    g: "group_roots order [] parent = Some g" "grouping f order g" by auto
  have "partition_of obs (classes_of g)"
    using classes_partition [OF g(2) order, of ] f(2) dep_rel_within [OF r] unfolding joined_closure [OF p(3)] order(1)
    by blast
  with p(1) g(1) show ?thesis by blast
qed

text \<open>
  C37. Whatever order the runtime iterates the map in, \<open>MinimumDependence\<close> returns. On a well-formed
  input (identifiers present and distinct, upstream references resolved, no cycle) it returns the
  partition of the observations into the classes of the least equivalence that relates observations with
  a common non-empty execution, response or receipt and an observation with its upstream observations:
  classes strictly sorted, ordered by first member, nothing twice. On any other input it returns an
  error, and the error it returns names a defect the input has.
\<close>

theorem MinimumDependence_correct:
  assumes "set visits = ID ` set obs" and "set order = ID ` set obs" and "distinct order"
  shows "case MinimumDependence visits order obs of
      None \<Rightarrow> False
    | Some (Inr classes) \<Rightarrow> well_formed obs \<and> partition_of obs classes
    | Some (Inl MissingID) \<Rightarrow> '''' \<in> ID ` set obs
    | Some (Inl (DuplicateID i)) \<Rightarrow> i \<in> ID ` set obs \<and> \<not> distinct (map ID obs)
    | Some (Inl (MissingUpstream u i)) \<Rightarrow> (i, u) \<in> up_rel obs \<and> u \<notin> ID ` set obs
    | Some (Inl (Cyclic i)) \<Rightarrow> (i, i) \<in> (up_rel obs)\<^sup>+"
proof (cases "index_observations obs Map.empty")
  case (Inl err)
  with index_observations_Inl [OF Inl] show ?thesis by (auto simp: MinimumDependence_def)
next
  case (Inr byID)
  from index_observations_Inr [OF Inr] have obs: "'''' \<notin> ID ` set obs" "distinct (map ID obs)"
    and m: "\<And>i x. byID i = Some x \<longleftrightarrow> x \<in> set obs \<and> ID x = i" by auto
  have dom: "byID u = None \<longleftrightarrow> u \<notin> ID ` set obs" for u
    using m [of u] by (metis image_iff not_None_eq)
  show ?thesis
  proof (cases "missing_upstream byID obs")
    case (Some err)
    from missing_upstream_Some [OF Some] Some Inr dom show ?thesis
      by (auto simp: MinimumDependence_def up_rel_def)
  next
    case None
    then have r: "Range (up_rel obs) \<subseteq> ID ` set obs"
      using dom by (auto simp: missing_upstream_None up_rel_def)
    note c = cycle_check [OF m obs(2) r assms(1)]
    show ?thesis
    proof (cases "acyclic (up_rel obs)")
      case True
      with c obtain st where "visit_all byID (Suc (length obs)) visits (\<lambda>_. White) = Some (Inr st)" by auto
      moreover from union_find_classes [OF assms(2,3) r] obtain parent g where
        "join_observations obs empty_sharing (\<lambda>i. if i \<in> set order then Some i else None) = Some parent"
        "group_roots order [] parent = Some g" "partition_of obs (classes_of g)" by blast
      ultimately show ?thesis using None Inr obs r True
        by (simp add: MinimumDependence_def well_formed_def classes_of_def)
    next
      case False
      with c None Inr show ?thesis by (auto simp: MinimumDependence_def)
    qed
  qed
qed

definition dep_example :: "Observation list" where
  "dep_example =
     [\<lparr>ID = ''a'', UpstreamObservationIDs = [], ExecutionID = ''e'', ResponseID = '''', ReceiptID = ''''\<rparr>,
      \<lparr>ID = ''b'', UpstreamObservationIDs = [''a''], ExecutionID = '''', ResponseID = '''', ReceiptID = ''''\<rparr>,
      \<lparr>ID = ''c'', UpstreamObservationIDs = [], ExecutionID = ''f'', ResponseID = '''', ReceiptID = ''''\<rparr>]"

lemma MinimumDependence_correct_witness:
  "MinimumDependence [''c'', ''b'', ''a''] [''b'', ''a'', ''c''] dep_example = Some (Inr [[''a'', ''b''], [''c'']]) \<and>
   well_formed dep_example \<and> partition_of dep_example [[''a'', ''b''], [''c'']]"
proof -
  have e: "MinimumDependence [''c'', ''b'', ''a''] [''b'', ''a'', ''c''] dep_example = Some (Inr [[''a'', ''b''], [''c'']])"
    by code_simp
  then show ?thesis
    using MinimumDependence_correct [of "[''c'', ''b'', ''a'']" dep_example "[''b'', ''a'', ''c'']"]
    by (auto simp: dep_example_def)
qed

end
