(* ===== verification/Observation_Properties.thy ===== *)
theory Observation_Properties
  imports Relations
begin

text \<open>
  Properties of the observation semantics of \<open>internal/relations\<close>: what coverage accounting accepts,
  and which parts of an observation its canonical identity depends on.
\<close>

section \<open>Coverage\<close>

lemma check_denominator_None:
  "check_denominator xs seen = None \<longleftrightarrow> '''' \<notin> set xs \<and> distinct xs \<and> set xs \<inter> seen = {}"
  by (induction xs arbitrary: seen) auto

lemma check_covered_None:
  "check_covered den xs seen = None \<longleftrightarrow> set xs \<subseteq> den \<and> distinct xs \<and> set xs \<inter> seen = {}"
  by (induction xs arbitrary: seen) auto

lemma exhausted:
  assumes "distinct xs" "distinct ys" "set xs \<subseteq> set ys"
  shows "length xs = length ys \<longleftrightarrow> set xs = set ys"
  using assms by (metis card_subset_eq distinct_card finite_set)

text \<open>
  Coverage accounting accepts exactly the consistent records: a known status, a non-empty
  denominator of distinct non-empty members, distinct covered members taken from the denominator and
  counted correctly; and the status may be complete only when every member of the denominator is covered.
\<close>

theorem coverage_Validate_iff:
  "coverage_Validate c = None \<longleftrightarrow>
     CStatus c \<in> {''COMPLETE_WITHIN_BOUNDS'', ''PARTIAL'', ''UNKNOWN''} \<and>
     Denominator c \<noteq> [] \<and> '''' \<notin> set (Denominator c) \<and> distinct (Denominator c) \<and>
     distinct (Covered c) \<and> set (Covered c) \<subseteq> set (Denominator c) \<and> CoveredCount c = int (card (set (Covered c))) \<and>
     (if CStatus c = ''COMPLETE_WITHIN_BOUNDS'' then set (Covered c) = set (Denominator c) else True)"
proof -
  define known where "known = (CStatus c \<in> {''COMPLETE_WITHIN_BOUNDS'', ''PARTIAL'', ''UNKNOWN''})"
  define complete where "complete = (CStatus c = ''COMPLETE_WITHIN_BOUNDS'')"
  note names = known_def [symmetric] complete_def [symmetric]
  have "coverage_Validate c = None \<longleftrightarrow> known \<and> Denominator c \<noteq> [] \<and>
     check_denominator (Denominator c) {} = None \<and> check_covered (set (Denominator c)) (Covered c) {} = None \<and>
     CoveredCount c = int (length (Covered c)) \<and> (complete \<longrightarrow> length (Covered c) = length (Denominator c))"
    unfolding coverage_Validate_def names by (simp split: option.split)
  then show ?thesis
    using exhausted [of "Covered c" "Denominator c"] distinct_card [of "Covered c"]
    unfolding names check_denominator_None check_covered_None by (cases complete) auto
qed

section \<open>Contributors\<close>

lemma scan_sorted_None:
  assumes "sorted xs" and "\<And>p. prev = Some p \<Longrightarrow> \<forall>x \<in> set xs. p \<le> x"
  shows "scan_sorted prev xs = None \<longleftrightarrow> '''' \<notin> set xs \<and> distinct xs \<and> (\<forall>p. prev = Some p \<longrightarrow> p \<notin> set xs)"
  using assms
proof (induction xs arbitrary: prev)
  case (Cons x xs)
  have IH: "scan_sorted (Some x) xs = None \<longleftrightarrow> '''' \<notin> set xs \<and> distinct xs \<and> x \<notin> set xs"
    using Cons.IH [of "Some x"] Cons.prems(1) by auto
  have prev: "p = x" if "prev = Some p" "p \<in> set xs" for p
  proof (rule antisym)
    show "p \<le> x" using Cons.prems(2) [OF that(1)] by simp
    show "x \<le> p" using Cons.prems(1) that(2) by simp
  qed
  show ?case
  proof (cases "prev = None \<or> prev = Some x")
    case True
    with IH show ?thesis by auto
  next
    case False
    then obtain p where p: "prev = Some p" "p \<noteq> x" by auto
    with prev have "p \<notin> set xs" by blast
    with p IH show ?thesis by auto
  qed
qed simp

text \<open>
  The canonical list of contributing observations is the sorted list of the identifiers; it exists
  exactly when there is one, none is empty and none occurs twice, so it is the same for every order in
  which the contributors are given.
\<close>

theorem CanonicalContributing_iff:
  "(CanonicalContributingObservationIDs ids = Inr xs) =
     (ids \<noteq> [] \<and> '''' \<notin> set ids \<and> distinct ids \<and> xs = sorted_list_of_set (set ids))"
proof -
  have "distinct ids \<Longrightarrow> sort ids = sorted_list_of_set (set ids)"
    by (simp add: sorted_list_of_set_sort_remdups distinct_remdups_id)
  then show ?thesis
    using scan_sorted_None [of "sort ids" None]
    by (auto simp: CanonicalContributingObservationIDs_def split: option.splits)
qed

section \<open>Identity and claims\<close>

lemma sort_key_map: "map f (sort_key f xs) = sort (map f xs)"
  by (intro properties_for_sort [symmetric]) simp_all

lemma identity_json_order:
  assumes "mset as = mset (Anchors ob)"
  shows "identity_json (ob\<lparr>Anchors := as, Supports := ss, DoesNotSupport := ds, RequestID := r, Timestamp := t\<rparr>) = identity_json ob"
proof -
  have "mset (map anchor_json as) = mset (map anchor_json (Anchors ob))" by (simp add: assms)
  then have "sort (map anchor_json as) = sort (map anchor_json (Anchors ob))"
    by (metis properties_for_sort mset_sort sorted_sort)
  moreover have "as = [] \<longleftrightarrow> Anchors ob = []" using assms by (metis mset_zero_iff)
  ultimately show ?thesis by (simp add: identity_json_def sort_key_map)
qed

text \<open>
  C38. The canonical identity of an observation does not depend on the order of its source anchors, on
  the claims it lists, or on the request and the time it was made: two valid observations that differ only
  there have the same identity, whatever the digest.
\<close>

theorem CanonicalID_stable:
  assumes "observation_Validate ob = None" and "mset as = mset (Anchors ob)"
    and "observation_Validate (ob\<lparr>Anchors := as, Supports := ss, DoesNotSupport := ds, RequestID := r, Timestamp := t\<rparr>) = None"
  shows "CanonicalID digest (ob\<lparr>Anchors := as, Supports := ss, DoesNotSupport := ds, RequestID := r, Timestamp := t\<rparr>)
    = CanonicalID digest ob"
  using assms identity_json_order [OF assms(2)] by (simp add: CanonicalID_def)

definition example_anchor :: "int \<Rightarrow> SourceAnchor" where
  "example_anchor n = \<lparr>URI = ''file:///a'', Revision = ''r'', Blob = ''b'', StartLine = n, StartCharacter = 0,
     EndLine = n, EndCharacter = 1\<rparr>"

definition example_observation :: SemanticObservation where
  "example_observation = \<lparr>SchemaVersion = ObservationSchemaV1, OKind = ''CALLS'', Authority = ''SERVER_REPORTED'',
     Provider = \<lparr>Name = ''gopls'', Version = ''1''\<rparr>, From = \<lparr>NodeID = ''f'', Role = ''CALLER''\<rparr>,
     To = \<lparr>NodeID = ''g'', Role = ''CALLEE''\<rparr>, Anchors = [example_anchor 1, example_anchor 2], Supports = [],
     DoesNotSupport = ProhibitedClaims, RequestID = ''q1'', Timestamp = ''t1''\<rparr>"

lemma CanonicalID_stable_witness:
  "CanonicalID (\<lambda>s. s) (example_observation\<lparr>Anchors := [example_anchor 2, example_anchor 1], Supports := [''x''],
      DoesNotSupport := rev ProhibitedClaims, RequestID := ''q2'', Timestamp := ''t2''\<rparr>)
    = CanonicalID (\<lambda>s. s) example_observation"
proof (rule CanonicalID_stable)
  show "observation_Validate example_observation = None" by code_simp
  show "mset [example_anchor 2, example_anchor 1] = mset (Anchors example_observation)"
    by (simp add: example_observation_def)
  show "observation_Validate (example_observation\<lparr>Anchors := [example_anchor 2, example_anchor 1], Supports := [''x''],
      DoesNotSupport := rev ProhibitedClaims, RequestID := ''q2'', Timestamp := ''t2''\<rparr>) = None" by code_simp
qed

end
