(* ===== verification/Call_Graph.thy ===== *)
theory Call_Graph
  imports Go_Json Go_Map "HOL-Library.Product_Lexorder"
begin

text \<open>
  Package \<open>internal/graph\<close>, files \<open>graph.go\<close> and \<open>result.go\<close>: the nodes, edges and boundaries of a trace,
  their identities, and the canonical form of a result (\<open>Canonicalize\<close>) and of the union of several
  results (\<open>MergeResults\<close>).

  SHA-256 (in hexadecimal) and \<open>net/url\<close> are not part of the program and are collected in the record
  \<open>env\<close>: \<open>Sha\<close> is the digest of a byte string, \<open>AbsURL\<close> says that \<open>url.Parse\<close> succeeds and \<open>IsAbs\<close> holds,
  and \<open>LowerURL\<close> is \<open>String()\<close> of the parsed absolute URL with scheme and host in lower case and without
  fragment. \<open>sort.Slice\<close> by a comparison function is \<^const>\<open>sort_key\<close> on the tuple the function compares; on
  elements that compare equal, whose order Go does not specify, the model keeps the given order.
\<close>

record env =
  Sha :: "string \<Rightarrow> string"
  AbsURL :: "string \<Rightarrow> bool"
  LowerURL :: "string \<Rightarrow> string"

section \<open>Nodes and edges\<close>

record Position =
  Line :: u32
  Character :: u32

record Range =
  Start :: Position
  End :: Position

record Item =
  Name :: string
  Kind :: int
  Detail :: string
  URI :: string
  IRange :: Range
  SelectionRange :: Range
  Data :: string

record Node = Item +
  ID :: string

record Edge =
  ERelationID :: string
  EExecutionBundleID :: string
  CallerNodeID :: string
  CalleeNodeID :: string
  CallSites :: "Range list"

definition lessPosition :: "Position \<Rightarrow> Position \<Rightarrow> bool" where
  "lessPosition a b \<longleftrightarrow> Line a < Line b \<or> Line a = Line b \<and> Character a < Character b"

definition ValidateItem :: "env \<Rightarrow> 'a Item_scheme \<Rightarrow> string option" where
  "ValidateItem E item =
     (if Name item = '''' then Some ''missing item name''
      else if \<not> AbsURL E (URI item) then Some ''invalid item URI''
      else if lessPosition (End (IRange item)) (Start (IRange item)) then Some ''item range end precedes start''
      else if lessPosition (End (SelectionRange item)) (Start (SelectionRange item)) \<or>
              lessPosition (Start (SelectionRange item)) (Start (IRange item)) \<or>
              lessPosition (End (IRange item)) (End (SelectionRange item))
        then Some ''selection range is outside item range''
      else None)"

definition ValidateRange :: "Range \<Rightarrow> string option" where
  "ValidateRange r =
     (if lessPosition (End r) (Start r) then Some ''call-site range end precedes start'' else None)"

definition RangeContains :: "Range \<Rightarrow> Range \<Rightarrow> bool" where
  "RangeContains outer inner \<longleftrightarrow>
     \<not> lessPosition (Start inner) (Start outer) \<and> \<not> lessPosition (End outer) (End inner)"

definition SameNodeIdentity :: "Node \<Rightarrow> Node \<Rightarrow> bool" where
  "SameNodeIdentity a b \<longleftrightarrow>
     ID a = ID b \<and> Name a = Name b \<and> Kind a = Kind b \<and> Detail a = Detail b \<and> URI a = URI b \<and>
     IRange a = IRange b \<and> SelectionRange a = SelectionRange b"

definition position_json :: "Position \<Rightarrow> string" where
  "position_json p = json_object
     [json_field ''line'' (dec (unat (Line p))), json_field ''character'' (dec (unat (Character p)))]"

definition range_json :: "Range \<Rightarrow> string" where
  "range_json r = json_object
     [json_field ''start'' (position_json (Start r)), json_field ''end'' (position_json (End r))]"

definition node_identity_json :: "Item \<Rightarrow> string" where
  "node_identity_json item = json_object
     [json_field ''name'' (json_string (Name item)), json_field ''kind'' (dec_int (Kind item)),
      json_field ''detail'' (json_string (Detail item)), json_field ''uri'' (json_string (URI item)),
      json_field ''range'' (range_json (IRange item)),
      json_field ''selection_range'' (range_json (SelectionRange item))]"

definition NewNode :: "env \<Rightarrow> Item \<Rightarrow> Node" where
  "NewNode E item = Item.extend item \<lparr>ID = Sha E (node_identity_json item)\<rparr>"

type_synonym range_order = "u32 \<times> u32 \<times> u32 \<times> u32"

text \<open>\<open>lessRange\<close> compares these tuples.\<close>

definition range_key :: "Range \<Rightarrow> range_order" where
  "range_key r = (Line (Start r), Character (Start r), Line (End r), Character (End r))"

definition lessRange :: "Range \<Rightarrow> Range \<Rightarrow> bool" where
  "lessRange a b =
     (if Line (Start a) \<noteq> Line (Start b) then Line (Start a) < Line (Start b)
      else if Character (Start a) \<noteq> Character (Start b) then Character (Start a) < Character (Start b)
      else if Line (End a) \<noteq> Line (End b) then Line (End a) < Line (End b)
      else Character (End a) < Character (End b))"

text \<open>The set of the ranges, sorted by \<open>lessRange\<close>.\<close>

definition mergeRanges :: "Range list \<Rightarrow> Range list \<Rightarrow> Range list" where
  "mergeRanges a b = sort_key range_key (remdups (a @ b))"

definition domainDigest :: "env \<Rightarrow> string \<Rightarrow> string \<Rightarrow> string" where
  "domainDigest E domain payload = ''sha256:'' @ Sha E (domain @ [CHR 0x00] @ payload)"

definition evidenceClassForKind :: "string \<Rightarrow> string" where
  "evidenceClassForKind kind =
     (if kind = ''CALL_RELATION'' then ''SERVER_REPORTED_CALL_HIERARCHY'' else ''DISCOVERY_NOMINATION'')"

definition evidenceRoleForKind :: "string \<Rightarrow> string" where
  "evidenceRoleForKind kind = (if kind = ''CALL_RELATION'' then ''CALL_SUPPORT'' else ''DISCOVERY_ONLY'')"

definition supportForKind :: "string \<Rightarrow> int" where
  "supportForKind kind = (if kind = ''CALL_RELATION'' then 1 else 0)"

type_synonym node_id = string

definition canonicalRelationID :: "env \<Rightarrow> string \<Rightarrow> string \<Rightarrow> string
    \<Rightarrow> node_id \<Rightarrow> node_id \<Rightarrow> node_id \<Rightarrow> node_id \<Rightarrow> node_id \<Rightarrow> string" where
  "canonicalRelationID E kind direction locator candidateID interfaceID implementationID callerID calleeID =
     domainDigest E ''lsp-trace:evidence-relation:v2'' (json_object
       [json_field ''version'' (json_string ''lsp-trace.evidence-relation.v3''),
        json_field ''evidence_class'' (json_string (evidenceClassForKind kind)),
        json_field ''relation_kind'' (json_string kind), json_field ''direction'' (json_string direction),
        json_field ''locator'' (json_string locator), json_field ''candidate_node_id'' (json_string candidateID),
        json_field ''interface_node_id'' (json_string interfaceID),
        json_field ''implementation_node_id'' (json_string implementationID),
        json_field ''caller_node_id'' (json_string callerID), json_field ''callee_node_id'' (json_string calleeID)])"

definition callRelationID :: "env \<Rightarrow> string \<Rightarrow> string \<Rightarrow> string" where
  "callRelationID E caller callee =
     canonicalRelationID E ''CALL_RELATION'' ''CALLER_TO_CALLEE'' (caller @ ''->'' @ callee) '''' '''' '''' caller callee"

fun merge_into :: "Edge list \<Rightarrow> Edge \<Rightarrow> Edge list" where
  "merge_into [] edge = [edge\<lparr>CallSites := mergeRanges [] (CallSites edge)\<rparr>]"
| "merge_into (e # es) edge =
     (if CallerNodeID e = CallerNodeID edge \<and> CalleeNodeID e = CalleeNodeID edge
      then e\<lparr>CallSites := mergeRanges (CallSites e) (CallSites edge)\<rparr> # es
      else e # merge_into es edge)"

definition MergeEdge :: "env \<Rightarrow> Edge list \<Rightarrow> Edge \<Rightarrow> Edge list" where
  "MergeEdge E edges edge =
     merge_into edges (edge\<lparr>ERelationID := callRelationID E (CallerNodeID edge) (CalleeNodeID edge)\<rparr>)"

section \<open>Results\<close>

datatype Reason =
    NoIncomingCalls | ServerReportedNoIncoming | PrepareReturnedNoItem | IncomingReturnedNull | ExternalURI
  | UnsupportedCallHierarchy | ServerError | InvalidServerResponse | RequestTimeout | GlobalTimeout
  | Cancelled | MaxDepth | MaxNodes | NodeIDCollision

fun reason_text :: "Reason \<Rightarrow> string" where
  "reason_text NoIncomingCalls = ''NO_INCOMING_CALLS''"
| "reason_text ServerReportedNoIncoming = ''SERVER_REPORTED_NO_INCOMING_CALLS''"
| "reason_text PrepareReturnedNoItem = ''PREPARE_RETURNED_NO_ITEM''"
| "reason_text IncomingReturnedNull = ''INCOMING_RETURNED_NULL''"
| "reason_text ExternalURI = ''EXTERNAL_URI''"
| "reason_text UnsupportedCallHierarchy = ''UNSUPPORTED_CALL_HIERARCHY''"
| "reason_text ServerError = ''SERVER_ERROR''"
| "reason_text InvalidServerResponse = ''INVALID_SERVER_RESPONSE''"
| "reason_text RequestTimeout = ''REQUEST_TIMEOUT''"
| "reason_text GlobalTimeout = ''GLOBAL_TIMEOUT''"
| "reason_text Cancelled = ''CANCELLED''"
| "reason_text MaxDepth = ''MAX_DEPTH''"
| "reason_text MaxNodes = ''MAX_NODES''"
| "reason_text NodeIDCollision = ''NODE_ID_COLLISION''"

record Boundary =
  BNodeID :: string
  BReason :: Reason
  BMessage :: string
  BProvenance :: string

datatype DiagnosticCategory = NoCategory | UnresolvedCall | DynamicCall

fun category_text :: "DiagnosticCategory \<Rightarrow> string" where
  "category_text NoCategory = ''''"
| "category_text UnresolvedCall = ''UNRESOLVED_CALL''"
| "category_text DynamicCall = ''DYNAMIC_CALL''"

record Diagnostic =
  Phase :: string
  Method :: string
  DNodeID :: string
  Category :: DiagnosticCategory
  DMessage :: string

record CapabilityQuality =
  Advertised :: bool
  PrepareSucceeded :: bool
  IncomingRequestSuccesses :: int
  IncomingEdges :: int
  CrossFileEdges :: int
  CrossModuleEdges :: string
  UnresolvedCalls :: int
  DynamicCalls :: int

record Summary =
  NodeCount :: int
  EdgeCount :: int
  TerminalCount :: int
  CycleCount :: int
  Complete :: bool
  Truncated :: bool

record Target =
  TURI :: string
  TLine :: int
  TColumn :: int

record SeedFailure =
  FPhase :: string
  FMessage :: string

record SeedResult =
  Label :: string
  Requested :: Target
  PreparedTargetIDs :: "string list"
  ReachedNodeIDs :: "string list"
  ReachedRelationIDs :: "string list"
  ReachedEdges :: "Edge list"
  SFailure :: "SeedFailure option"

record SourceCustodyEvidence =
  Class :: string
  SourceContentSHA256 :: string
  HostReceiptID :: string
  AuthenticatedAnalyzedSourceIdentity :: bool
  ClaimCeilingText :: string

record SiblingCandidate =
  SRelationID :: string
  SExecutionBundleID :: string
  SeedURI :: string
  SeedLabel :: string
  SeedLabels :: "string list"
  Origin :: Node
  Declaration :: "Node option"
  Candidate :: Node
  Direction :: string
  SKind :: string
  SeedIdentity :: string
  ProviderEvidence :: go_strings
  LSPEvidence :: go_strings
  SourceDigests :: go_strings
  Custody :: SourceCustodyEvidence

record DispatchRelationship =
  DRelationID :: string
  DExecutionBundleID :: string
  DSeedLabel :: string
  DSeedLabels :: "string list"
  Interface :: Node
  Implementation :: Node

record SliceLayer =
  Depth :: int
  NodeIDs :: "string list"

record SlicePreparationDisposition =
  DName :: string
  DKind :: int
  DSelectionRange :: Range
  DStatus :: string
  PreparedItemIDs :: "string list"
  PMessage :: string

record SlicePreparationAccounting =
  DocumentSymbols :: int
  Attempted :: int
  Prepared :: int
  NotPreparable :: int
  Failed :: int

record SlicePreparationEvidence =
  PComplete :: bool
  Accounting :: SlicePreparationAccounting
  Dispositions :: "SlicePreparationDisposition list"

record SliceEvidence =
  StartMode :: string
  SourceURI :: string
  DownDepth :: int
  UpDepth :: int
  StartingNodeIDs :: "string list"
  Layers :: "SliceLayer list"
  FrontierNodeIDs :: "string list"
  OutgoingTerminalNodeIDs :: "string list"
  UpwardStartNodeIDs :: "string list"
  OutgoingRelationIDs :: "string list"
  TraversalComplete :: bool
  Preparation :: "SlicePreparationEvidence option"

text \<open>
  The fields of \<open>Result\<close> that the modelled code reads or writes; \<open>Invocation\<close> and \<open>Tool\<close> describe the
  command that ran and are only marshalled.
\<close>

record Result =
  SchemaVersion :: string
  CallHierarchyProvider :: bool
  Targets :: "string list"
  Nodes :: "Node list"
  Edges :: "Edge list"
  Terminals :: "Boundary list"
  Frontier :: "Boundary list"
  Diagnostics :: "Diagnostic list"
  RSummary :: Summary
  Quality :: CapabilityQuality
  SiblingCandidates :: "SiblingCandidate list"
  DispatchRelationships :: "DispatchRelationship list"
  Seeds :: "SeedResult list"
  Slice :: "SliceEvidence option"

definition SchemaVersionV1 :: string where "SchemaVersionV1 = ''lsp-trace.graph.v1''"
definition SchemaVersionV3 :: string where "SchemaVersionV3 = ''lsp-trace.graph.v3''"
definition SchemaVersionV5 :: string where "SchemaVersionV5 = ''lsp-trace.graph.v5''"
definition Unknown :: string where "Unknown = ''UNKNOWN''"

definition zeroSummary :: Summary where
  "zeroSummary = \<lparr>NodeCount = 0, EdgeCount = 0, TerminalCount = 0, CycleCount = 0, Complete = False, Truncated = False\<rparr>"

definition zeroQuality :: CapabilityQuality where
  "zeroQuality = \<lparr>Advertised = False, PrepareSucceeded = False, IncomingRequestSuccesses = 0, IncomingEdges = 0,
     CrossFileEdges = 0, CrossModuleEdges = '''', UnresolvedCalls = 0, DynamicCalls = 0\<rparr>"

text \<open>The result both \<open>Incoming\<close> and \<open>MergeResults\<close> start from, up to the schema version.\<close>

definition emptyResult :: "string \<Rightarrow> Result" where
  "emptyResult version = \<lparr>SchemaVersion = version, CallHierarchyProvider = False, Targets = [], Nodes = [], Edges = [],
     Terminals = [], Frontier = [], Diagnostics = [], RSummary = zeroSummary\<lparr>Complete := True\<rparr>,
     Quality = zeroQuality\<lparr>CrossModuleEdges := Unknown\<rparr>, SiblingCandidates = [], DispatchRelationships = [],
     Seeds = [], Slice = None\<rparr>"

section \<open>Canonical form\<close>

definition json_bool :: "bool \<Rightarrow> string" where
  "json_bool b = (if b then ''true'' else ''false'')"

definition omitempty :: "string \<Rightarrow> string \<Rightarrow> string list" where
  "omitempty k v = (if v = '''' then [] else [json_field k (json_string v)])"

definition custody_json :: "SourceCustodyEvidence \<Rightarrow> string" where
  "custody_json c = json_object
     ([json_field ''class'' (json_string (Class c))] @ omitempty ''source_content_sha256'' (SourceContentSHA256 c) @
      omitempty ''host_receipt_id'' (HostReceiptID c) @
      [json_field ''authenticated_analyzed_source_identity'' (json_bool (AuthenticatedAnalyzedSourceIdentity c)),
       json_field ''claim_ceiling'' (json_string (ClaimCeilingText c))])"

definition nodeID :: "Node option \<Rightarrow> string" where
  "nodeID n = (case n of None \<Rightarrow> '''' | Some m \<Rightarrow> ID m)"

definition canonicalSiblingRelationIDFor :: "env \<Rightarrow> string \<Rightarrow> string \<Rightarrow> SiblingCandidate \<Rightarrow> string" where
  "canonicalSiblingRelationIDFor E version domain c = domainDigest E domain (json_object
     [json_field ''Version'' (json_string version), json_field ''Bundle'' (json_string (SExecutionBundleID c)),
      json_field ''Origin'' (json_string (ID (Origin c))), json_field ''Declaration'' (json_string (nodeID (Declaration c))),
      json_field ''Candidate'' (json_string (ID (Candidate c))), json_field ''Direction'' (json_string (Direction c)),
      json_field ''Kind'' (json_string (SKind c)), json_field ''SeedIdentity'' (json_string (SeedIdentity c)),
      json_field ''Custody'' (custody_json (Custody c)),
      json_field ''ProviderEvidence'' (json_strings (ProviderEvidence c)),
      json_field ''LSPEvidence'' (json_strings (LSPEvidence c)),
      json_field ''SourceDigests'' (json_strings (SourceDigests c))])"

definition canonicalSiblingRelationID :: "env \<Rightarrow> SiblingCandidate \<Rightarrow> string" where
  "canonicalSiblingRelationID E c =
     canonicalSiblingRelationIDFor E ''lsp-trace.sibling-relation.v2'' ''lsp-trace:sibling-relation:v2'' c"

text \<open>\<open>uniqueStrings\<close> drops adjacent repetitions.\<close>

definition uniqueStrings :: "string list \<Rightarrow> string list" where
  "uniqueStrings xs = remdups_adj xs"

definition sortedUnique :: "string list \<Rightarrow> string list" where
  "sortedUnique xs = uniqueStrings (sort xs)"

definition canonical_edge :: "env \<Rightarrow> Edge \<Rightarrow> Edge" where
  "canonical_edge E e = e\<lparr>ERelationID := callRelationID E (CallerNodeID e) (CalleeNodeID e),
     CallSites := mergeRanges [] (CallSites e)\<rparr>"

definition canonical_sibling :: "env \<Rightarrow> SiblingCandidate \<Rightarrow> SiblingCandidate" where
  "canonical_sibling E c =
     (let c1 = c\<lparr>Direction := (if Direction c = '''' then ''SIBLING'' else Direction c),
                SKind := (if SKind c = '''' then ''TOPMOST_SIBLING'' else SKind c),
                SeedIdentity := (if SeedIdentity c = '''' then ID (Origin c) else SeedIdentity c),
                ProviderEvidence := map_option uniqueStrings (ProviderEvidence c),
                LSPEvidence := map_option uniqueStrings (LSPEvidence c),
                SourceDigests := map_option uniqueStrings (SourceDigests c)\<rparr>
      in c1\<lparr>SRelationID := canonicalSiblingRelationID E c1,
            SeedLabels := sortedUnique (SeedLabels c @ (if SeedLabel c = '''' then [] else [SeedLabel c]))\<rparr>)"

definition canonical_dispatch :: "env \<Rightarrow> DispatchRelationship \<Rightarrow> DispatchRelationship" where
  "canonical_dispatch E d =
     d\<lparr>DRelationID := canonicalRelationID E ''DISPATCH_ASSOCIATION'' ''ASSOCIATION''
                        (ID (Interface d) @ ''->'' @ ID (Implementation d)) '''' (ID (Interface d)) (ID (Implementation d)) '''' '''',
       DSeedLabels := uniqueStrings (DSeedLabels d @ (if DSeedLabel d = '''' then [] else [DSeedLabel d]))\<rparr>"

fun merge_siblings :: "SiblingCandidate list \<Rightarrow> SiblingCandidate list" where
  "merge_siblings (x # y # ys) =
     (if SRelationID y \<noteq> SRelationID x then x # merge_siblings (y # ys)
      else merge_siblings (x\<lparr>SeedLabels := uniqueStrings (SeedLabels x @ SeedLabels y)\<rparr> # ys))"
| "merge_siblings xs = xs"

fun merge_dispatch :: "DispatchRelationship list \<Rightarrow> DispatchRelationship list" where
  "merge_dispatch (x # y # ys) =
     (if DRelationID y \<noteq> DRelationID x then x # merge_dispatch (y # ys)
      else merge_dispatch (x\<lparr>DSeedLabels := uniqueStrings (DSeedLabels x @ DSeedLabels y)\<rparr> # ys))"
| "merge_dispatch xs = xs"

definition node_key :: "Node \<Rightarrow> string \<times> range_order \<times> range_order \<times> int \<times> string \<times> string \<times> string" where
  "node_key n = (URI n, range_key (SelectionRange n), range_key (IRange n), Kind n, Name n, Detail n, ID n)"

definition edge_key :: "Edge \<Rightarrow> string \<times> string" where
  "edge_key e = (CallerNodeID e, CalleeNodeID e)"

definition boundary_key :: "Boundary \<Rightarrow> string \<times> string \<times> string" where
  "boundary_key b = (BNodeID b, reason_text (BReason b), BMessage b)"

definition diagnostic_key :: "Diagnostic \<Rightarrow> string \<times> string \<times> string \<times> string \<times> string" where
  "diagnostic_key d = (Phase d, Method d, DNodeID d, category_text (Category d), DMessage d)"

definition disposition_key :: "SlicePreparationDisposition \<Rightarrow> u32 \<times> u32 \<times> int \<times> string" where
  "disposition_key d = (Line (Start (DSelectionRange d)), Character (Start (DSelectionRange d)), DKind d, DName d)"

definition canonical_preparation :: "SlicePreparationEvidence \<Rightarrow> SlicePreparationEvidence" where
  "canonical_preparation p = p\<lparr>Dispositions := sort_key disposition_key
     (map (\<lambda>d. d\<lparr>PreparedItemIDs := sortedUnique (PreparedItemIDs d)\<rparr>) (Dispositions p))\<rparr>"

definition canonical_slice :: "SliceEvidence \<Rightarrow> SliceEvidence" where
  "canonical_slice s = s\<lparr>StartingNodeIDs := sortedUnique (StartingNodeIDs s),
     FrontierNodeIDs := sortedUnique (FrontierNodeIDs s),
     OutgoingTerminalNodeIDs := sortedUnique (OutgoingTerminalNodeIDs s),
     UpwardStartNodeIDs := sortedUnique (UpwardStartNodeIDs s),
     OutgoingRelationIDs := sortedUnique (OutgoingRelationIDs s),
     Preparation := map_option canonical_preparation (Preparation s),
     Layers := map (\<lambda>l. l\<lparr>NodeIDs := sortedUnique (NodeIDs l)\<rparr>) (Layers s)\<rparr>"

definition canonical_seed :: "SeedResult \<Rightarrow> SeedResult" where
  "canonical_seed s = s\<lparr>PreparedTargetIDs := sortedUnique (PreparedTargetIDs s),
     ReachedNodeIDs := sortedUnique (ReachedNodeIDs s), ReachedRelationIDs := sortedUnique (ReachedRelationIDs s)\<rparr>"

definition boundaryProvenance :: "Reason \<Rightarrow> string" where
  "boundaryProvenance r =
     (if r = ServerReportedNoIncoming \<or> r = IncomingReturnedNull then ''SERVER_REPORTED'' else ''CLIENT_DERIVED'')"

definition terminal_provenance :: "Boundary \<Rightarrow> Boundary" where
  "terminal_provenance b = (if BProvenance b = '''' then b\<lparr>BProvenance := boundaryProvenance (BReason b)\<rparr> else b)"

definition frontier_provenance :: "Boundary \<Rightarrow> Boundary" where
  "frontier_provenance b = (if BProvenance b = '''' then b\<lparr>BProvenance := ''CLIENT_DERIVED''\<rparr> else b)"

definition canonicalURI :: "env \<Rightarrow> string \<Rightarrow> string" where
  "canonicalURI E raw =
     (if raw = '''' then ''lsp-trace://absent''
      else if \<not> AbsURL E raw then ''lsp-trace://invalid/'' @ domainDigest E ''lsp-trace:invalid-locator:v1'' raw
      else LowerURL E raw)"

definition canonicalIncomingRequestSuccesses :: "Result \<Rightarrow> int" where
  "canonicalIncomingRequestSuccesses r =
     int (card (set (filter (\<lambda>i. i \<noteq> '''') (map CalleeNodeID (Edges r) @
       map BNodeID (filter (\<lambda>b. BReason b \<in> {NoIncomingCalls, ServerReportedNoIncoming, IncomingReturnedNull}) (Terminals r))))))"

definition blockingPhases :: "string list" where
  "blockingPhases = [''invocation'', ''source'', ''trace'', ''spawn'', ''initialize'', ''prepare'', ''didOpen'', ''open'', ''shutdown'']"

definition naturalReasons :: "Reason list" where
  "naturalReasons = [NoIncomingCalls, ServerReportedNoIncoming, PrepareReturnedNoItem, IncomingReturnedNull, ExternalURI]"

definition canonicalTraversalComplete :: "Result \<Rightarrow> bool" where
  "canonicalTraversalComplete r \<longleftrightarrow>
     \<not> (Truncated (RSummary r) \<or> Frontier r \<noteq> [] \<or> UnresolvedCalls (Quality r) > 0) \<and>
     (\<forall>s \<in> set (Seeds r). SFailure s = None) \<and>
     (\<forall>d \<in> set (Diagnostics r). Phase d \<notin> set blockingPhases) \<and>
     (\<forall>b \<in> set (Terminals r). BReason b \<in> set naturalReasons)"

definition node_uri :: "env \<Rightarrow> Node list \<Rightarrow> string \<Rightarrow> string option" where
  "node_uri E nodes = map_of (rev (map (\<lambda>n. (ID n, canonicalURI E (URI n))) nodes))"

definition cross_file :: "env \<Rightarrow> Node list \<Rightarrow> Edge \<Rightarrow> bool" where
  "cross_file E nodes e =
     (case node_uri E nodes (CallerNodeID e) of
        None \<Rightarrow> False
      | Some a \<Rightarrow> (case node_uri E nodes (CalleeNodeID e) of None \<Rightarrow> False | Some b \<Rightarrow> a \<noteq> b))"

section \<open>Cycles\<close>

text \<open>
  \<open>cycleCount\<close> is Tarjan's algorithm. The stack has its top first; \<^const>\<open>None\<close> stands for exhausted fuel and
  for popping an empty stack, which panics in Go. A visit indexes a vertex that had no index, so the
  nesting depth is at most the number of vertices: the nodes and the end points of edges.
\<close>

record tarjan =
  t_index :: nat
  indices :: "string \<rightharpoonup> nat"
  lowlink :: "string \<rightharpoonup> nat"
  onStack :: "string \<Rightarrow> bool"
  stack :: "string list"
  cycles :: int

definition adj :: "Edge list \<Rightarrow> string \<Rightarrow> string list" where
  "adj edges v = map CalleeNodeID (filter (\<lambda>e. CallerNodeID e = v) edges)"

definition selfLoop :: "Edge list \<Rightarrow> string \<Rightarrow> bool" where
  "selfLoop edges v \<longleftrightarrow> (\<exists>e \<in> set edges. CallerNodeID e = CalleeNodeID e \<and> CallerNodeID e = v)"

definition low :: "tarjan \<Rightarrow> string \<Rightarrow> nat" where
  "low t v = (case lowlink t v of None \<Rightarrow> 0 | Some n \<Rightarrow> n)"

definition ind :: "tarjan \<Rightarrow> string \<Rightarrow> nat" where
  "ind t v = (case indices t v of None \<Rightarrow> 0 | Some n \<Rightarrow> n)"

fun pop_component :: "string \<Rightarrow> nat \<Rightarrow> tarjan \<Rightarrow> string list \<Rightarrow> (nat \<times> tarjan) option" where
  "pop_component v sz t [] = None"
| "pop_component v sz t (w # ws) =
     (let t' = t\<lparr>stack := ws, onStack := (onStack t)(w := False)\<rparr> in
      if w = v then Some (Suc sz, t') else pop_component v (Suc sz) t' ws)"

definition finish_visit :: "Edge list \<Rightarrow> string \<Rightarrow> tarjan \<Rightarrow> tarjan option" where
  "finish_visit edges v t =
     (if low t v \<noteq> ind t v then Some t
      else case pop_component v 0 t (stack t) of
          None \<Rightarrow> None
        | Some (sz, t') \<Rightarrow> Some (if sz > 1 \<or> selfLoop edges v then t'\<lparr>cycles := cycles t' + 1\<rparr> else t'))"

definition start_visit :: "string \<Rightarrow> tarjan \<Rightarrow> tarjan" where
  "start_visit v t = t\<lparr>indices := (indices t)(v \<mapsto> t_index t), lowlink := (lowlink t)(v \<mapsto> t_index t),
     t_index := Suc (t_index t), stack := v # stack t, onStack := (onStack t)(v := True)\<rparr>"

fun tarjan_visit :: "Edge list \<Rightarrow> nat \<Rightarrow> string \<Rightarrow> tarjan \<Rightarrow> tarjan option"
  and tarjan_succs :: "Edge list \<Rightarrow> nat \<Rightarrow> string \<Rightarrow> string list \<Rightarrow> tarjan \<Rightarrow> tarjan option" where
  "tarjan_visit edges 0 v t = None"
| "tarjan_visit edges (Suc n) v t =
     (case tarjan_succs edges n v (adj edges v) (start_visit v t) of
        None \<Rightarrow> None
      | Some t' \<Rightarrow> finish_visit edges v t')"
| "tarjan_succs edges n v [] t = Some t"
| "tarjan_succs edges n v (w # ws) t =
     (if indices t w = None then
        (case tarjan_visit edges n w t of
           None \<Rightarrow> None
         | Some t' \<Rightarrow>
             tarjan_succs edges n v ws
               (if low t' w < low t' v then t'\<lparr>lowlink := (lowlink t')(v \<mapsto> low t' w)\<rparr> else t'))
      else
        tarjan_succs edges n v ws
          (if onStack t w \<and> ind t w < low t v then t\<lparr>lowlink := (lowlink t)(v \<mapsto> ind t w)\<rparr> else t))"

fun tarjan_all :: "Edge list \<Rightarrow> nat \<Rightarrow> string list \<Rightarrow> tarjan \<Rightarrow> tarjan option" where
  "tarjan_all edges n [] t = Some t"
| "tarjan_all edges n (v # vs) t =
     (if indices t v \<noteq> None then tarjan_all edges n vs t
      else case tarjan_visit edges n v t of None \<Rightarrow> None | Some t' \<Rightarrow> tarjan_all edges n vs t')"

definition cycleCount :: "Node list \<Rightarrow> Edge list \<Rightarrow> int option" where
  "cycleCount nodes edges =
     map_option cycles
       (tarjan_all edges (Suc (length nodes + length edges)) (map ID nodes)
          \<lparr>t_index = 0, indices = Map.empty, lowlink = Map.empty, onStack = (\<lambda>_. False), stack = [], cycles = 0\<rparr>)"

section \<open>Canonicalize and MergeResults\<close>

text \<open>
  The loop of \<open>Canonicalize\<close> over the edges and relations, and the sorting of every list. The count of
  cycles always exists (\<open>cycleCount_correct\<close> in theory \<open>Cycle_Count\<close>).
\<close>

definition canonical_lists :: "env \<Rightarrow> Result \<Rightarrow> Result" where
  "canonical_lists E r =
     r\<lparr>Nodes := sort_key node_key (Nodes r),
       Edges := sort_key edge_key (map (canonical_edge E) (Edges r)),
       Targets := sortedUnique (Targets r),
       Slice := map_option canonical_slice (Slice r),
       DispatchRelationships := merge_dispatch (sort_key DRelationID (map (canonical_dispatch E) (DispatchRelationships r))),
       SiblingCandidates := merge_siblings (sort_key SRelationID (map (canonical_sibling E) (SiblingCandidates r))),
       Seeds := sort_key Label (map canonical_seed (Seeds r)),
       Terminals := map terminal_provenance (sort_key boundary_key (Terminals r)),
       Frontier := map frontier_provenance (sort_key boundary_key (Frontier r)),
       Diagnostics := sort_key diagnostic_key (Diagnostics r)\<rparr>"

definition canonical_summary :: "Result \<Rightarrow> Result" where
  "canonical_summary r =
     r\<lparr>RSummary := (RSummary r)\<lparr>NodeCount := int (length (Nodes r)), EdgeCount := int (length (Edges r)),
         TerminalCount := int (length (Terminals r)),
         CycleCount := (case cycleCount (Nodes r) (Edges r) of None \<Rightarrow> 0 | Some n \<Rightarrow> n)\<rparr>\<rparr>"

definition canonical_quality :: "env \<Rightarrow> Result \<Rightarrow> Result" where
  "canonical_quality E r =
     (let r1 = r\<lparr>Quality :=
            \<lparr>Advertised = CallHierarchyProvider r, PrepareSucceeded = (Targets r \<noteq> []),
             IncomingRequestSuccesses = canonicalIncomingRequestSuccesses r,
             IncomingEdges = int (length (Edges r)),
             CrossFileEdges = int (length (filter (cross_file E (Nodes r)) (Edges r))),
             CrossModuleEdges = Unknown,
             UnresolvedCalls = int (length (filter (\<lambda>d. Category d = UnresolvedCall) (Diagnostics r))),
             DynamicCalls = int (length (filter (\<lambda>d. Category d = DynamicCall) (Diagnostics r)))\<rparr>\<rparr>
      in r1\<lparr>RSummary := (RSummary r1)\<lparr>Complete := canonicalTraversalComplete r1\<rparr>\<rparr>)"

definition Canonicalize :: "env \<Rightarrow> Result \<Rightarrow> Result" where
  "Canonicalize E r =
     (let r1 = canonical_summary (canonical_lists E r) in
      if SchemaVersion r1 \<noteq> SchemaVersionV1 then canonical_quality E r1 else r1)"

fun uniqueBoundaries_loop :: "Boundary set \<Rightarrow> Boundary list \<Rightarrow> Boundary list" where
  "uniqueBoundaries_loop seen [] = []"
| "uniqueBoundaries_loop seen (b # bs) =
     (if b \<in> seen then uniqueBoundaries_loop seen bs else b # uniqueBoundaries_loop (insert b seen) bs)"

definition uniqueBoundaries :: "Boundary list \<Rightarrow> Boundary list" where
  "uniqueBoundaries bs = uniqueBoundaries_loop {} bs"

fun uniqueDiagnostics_loop :: "Diagnostic set \<Rightarrow> Diagnostic list \<Rightarrow> Diagnostic list" where
  "uniqueDiagnostics_loop seen [] = []"
| "uniqueDiagnostics_loop seen (d # ds) =
     (if d \<in> seen then uniqueDiagnostics_loop seen ds else d # uniqueDiagnostics_loop (insert d seen) ds)"

definition uniqueDiagnostics :: "Diagnostic list \<Rightarrow> Diagnostic list" where
  "uniqueDiagnostics ds = uniqueDiagnostics_loop {} ds"

text \<open>The nodes collected so far, by identifier, and the result under construction.\<close>

fun merge_nodes :: "Node list \<Rightarrow> (string, Node) go_map \<Rightarrow> Result \<Rightarrow> (string, Node) go_map \<times> Result" where
  "merge_nodes [] nodes out = (nodes, out)"
| "merge_nodes (n # ns) nodes out =
     (case map_of nodes (ID n) of
        None \<Rightarrow> merge_nodes ns (AList.update (ID n) n nodes) out
      | Some m \<Rightarrow>
          if SameNodeIdentity m n then merge_nodes ns (AList.update (ID n) n nodes) out
          else merge_nodes ns nodes
            (out\<lparr>Terminals := Terminals out @ [\<lparr>BNodeID = ID n, BReason = NodeIDCollision, BMessage = '''', BProvenance = ''''\<rparr>],
                 RSummary := (RSummary out)\<lparr>Complete := False\<rparr>\<rparr>))"

definition merge_result :: "env \<Rightarrow> Result \<Rightarrow> (string, Node) go_map \<times> Result \<Rightarrow> (string, Node) go_map \<times> Result" where
  "merge_result E r s =
     (case s of (nodes, out) \<Rightarrow>
        (let q = Quality out; qr = Quality r;
             out1 = out\<lparr>SchemaVersion := (if SchemaVersion out = '''' \<and> SchemaVersion r \<noteq> '''' then SchemaVersion r else SchemaVersion out),
               CallHierarchyProvider := (CallHierarchyProvider out \<or> CallHierarchyProvider r),
               Quality := q\<lparr>Advertised := (Advertised q \<or> Advertised qr),
                            PrepareSucceeded := (PrepareSucceeded q \<or> PrepareSucceeded qr),
                            IncomingRequestSuccesses := IncomingRequestSuccesses q + IncomingRequestSuccesses qr,
                            CrossFileEdges := CrossFileEdges q + CrossFileEdges qr\<rparr>,
               RSummary := (RSummary out)\<lparr>Complete := (Complete (RSummary out) \<and> Complete (RSummary r)),
                                         Truncated := (Truncated (RSummary out) \<or> Truncated (RSummary r))\<rparr>,
               Targets := Targets out @ Targets r, Seeds := Seeds out @ Seeds r,
               SiblingCandidates := SiblingCandidates out @ SiblingCandidates r,
               DispatchRelationships := DispatchRelationships out @ DispatchRelationships r,
               Terminals := Terminals out @ Terminals r, Frontier := Frontier out @ Frontier r,
               Diagnostics := Diagnostics out @ Diagnostics r\<rparr>;
             (nodes', out2) = merge_nodes (Nodes r) nodes out1
         in (nodes', out2\<lparr>Edges := fold (\<lambda>e es. MergeEdge E es e) (Edges r) (Edges out2)\<rparr>)))"

text \<open>\<open>MergeResults\<close>; the Go code appends the collected nodes in map order, and \<open>Canonicalize\<close> sorts them.\<close>

definition MergeResults :: "env \<Rightarrow> Result list \<Rightarrow> Result" where
  "MergeResults E results =
     (case fold (merge_result E) results ([], emptyResult '''') of (nodes, out) \<Rightarrow>
        Canonicalize E (out\<lparr>Nodes := Nodes out @ map snd nodes,
          Terminals := uniqueBoundaries (Terminals out), Frontier := uniqueBoundaries (Frontier out),
          Diagnostics := uniqueDiagnostics (Diagnostics out),
          SchemaVersion := (if SchemaVersion out = '''' then SchemaVersionV3 else SchemaVersion out)\<rparr>))"

end
