(* ===== verification/Cycle_Count.thy ===== *)
theory Cycle_Count
  imports Call_Graph
begin

text \<open>
  The count of cycles of \<open>internal/graph\<close> (\<open>cycleCount\<close>, Tarjan's algorithm): it returns within the model's
  fuel, it never pops an empty stack, and it counts the strongly connected components that contain a cycle.

  \<open>indexed\<close>, \<open>linked\<close> and \<open>counted\<close> are the invariant of the search; the set \<open>G\<close> holds the vertices whose
  visit has begun and not ended.
\<close>

definition succ_rel :: "Edge list \<Rightarrow> (string \<times> string) set" where
  "succ_rel edges = {(u, w). w \<in> set (adj edges u)}"

definition scc :: "Edge list \<Rightarrow> string \<Rightarrow> string set" where
  "scc edges u = {w. (u, w) \<in> (succ_rel edges)\<^sup>* \<and> (w, u) \<in> (succ_rel edges)\<^sup>*}"

definition cyclic :: "Edge list \<Rightarrow> string \<Rightarrow> bool" where
  "cyclic edges u \<longleftrightarrow> (u, u) \<in> (succ_rel edges)\<^sup>+"

abbreviation visited :: "tarjan \<Rightarrow> string set" where
  "visited t \<equiv> dom (indices t)"

definition popped :: "tarjan \<Rightarrow> string set" where
  "popped t = visited t - set (stack t)"

definition indexed :: "tarjan \<Rightarrow> bool" where
  "indexed t \<longleftrightarrow> finite (visited t) \<and> (\<forall>v \<in> visited t. ind t v < t_index t) \<and> sorted_wrt (\<lambda>a b. ind t b < ind t a) (stack t) \<and>
     set (stack t) \<subseteq> visited t \<and> (\<forall>v. onStack t v \<longleftrightarrow> v \<in> set (stack t))"

definition linked :: "Edge list \<Rightarrow> string set \<Rightarrow> tarjan \<Rightarrow> bool" where
  "linked edges G t \<longleftrightarrow> G \<subseteq> set (stack t) \<and>
     (\<forall>u \<in> visited t - G. succ_rel edges `` {u} \<subseteq> visited t) \<and>
     (\<forall>x \<in> set (stack t). \<forall>y \<in> set (stack t). ind t x \<le> ind t y \<longrightarrow> (x, y) \<in> (succ_rel edges)\<^sup>*) \<and>
     (\<forall>y \<in> set (stack t). \<exists>g \<in> G. ind t g \<le> ind t y \<and> (y, g) \<in> (succ_rel edges)\<^sup>*)"

definition counted :: "Edge list \<Rightarrow> tarjan \<Rightarrow> bool" where
  "counted edges t \<longleftrightarrow> succ_rel edges `` popped t \<subseteq> popped t \<and>
     cycles t = int (card (scc edges ` {u \<in> popped t. cyclic edges u}))"

lemma linked_reach:
  "linked edges G t \<Longrightarrow> x \<in> set (stack t) \<Longrightarrow> y \<in> set (stack t) \<Longrightarrow> ind t x \<le> ind t y \<Longrightarrow> (x, y) \<in> (succ_rel edges)\<^sup>*"
  unfolding linked_def by blast

text \<open>The old part of the state is kept, the new part of the stack is new.\<close>

definition extends :: "tarjan \<Rightarrow> tarjan \<Rightarrow> bool" where
  "extends t t' \<longleftrightarrow> (\<forall>u \<in> visited t. indices t' u = indices t u \<and> lowlink t' u = lowlink t u)"

text \<open>
  What holds while the successors of \<open>v\<close> are examined: \<open>t0\<close> is the state before the visit of \<open>v\<close>, \<open>s\<close> what was
  pushed above \<open>v\<close>.
\<close>

definition visiting :: "Edge list \<Rightarrow> string set \<Rightarrow> string \<Rightarrow> tarjan \<Rightarrow> string list \<Rightarrow> tarjan \<Rightarrow> bool" where
  "visiting edges G v t0 s t \<longleftrightarrow> indexed t \<and> linked edges (insert v G) t \<and> counted edges t \<and> extends t0 t \<and>
     G \<subseteq> set (stack t0) \<and> set (stack t0) \<subseteq> visited t0 \<and>
     v \<notin> visited t0 \<and> v \<in> visited t \<and> visited t \<subseteq> visited t0 \<union> (succ_rel edges)\<^sup>* `` {v} \<and>
     ind t v = t_index t0 \<and> low t v \<le> ind t v \<and>
     (\<exists>y \<in> set (stack t). ind t y = low t v \<and> (v, y) \<in> (succ_rel edges)\<^sup>*) \<and>
     stack t = s @ v # stack t0 \<and> set s \<inter> visited t0 = {} \<and>
     (\<forall>x \<in> set s. \<forall>y \<in> set (stack t0). (x, y) \<in> succ_rel edges \<longrightarrow> low t v \<le> ind t y)"

definition examined :: "string \<Rightarrow> tarjan \<Rightarrow> string set \<Rightarrow> tarjan \<Rightarrow> bool" where
  "examined v t0 D t \<longleftrightarrow> (\<forall>w \<in> D. w \<in> visited t \<and> (w \<in> set (stack t0) \<longrightarrow> low t v \<le> ind t w))"

text \<open>What a visit of \<open>v\<close> promises.\<close>

definition visit_done :: "Edge list \<Rightarrow> string set \<Rightarrow> string \<Rightarrow> tarjan \<Rightarrow> tarjan \<Rightarrow> bool" where
  "visit_done edges G v t t' \<longleftrightarrow> indexed t' \<and> linked edges G t' \<and> counted edges t' \<and> extends t t' \<and>
     v \<in> visited t' \<and> visited t' \<subseteq> visited t \<union> (succ_rel edges)\<^sup>* `` {v} \<and> ind t' v = t_index t \<and>
     low t' v \<le> ind t' v \<and>
     (low t' v < ind t' v \<longrightarrow> (\<exists>y \<in> set (stack t'). ind t' y = low t' v \<and> (v, y) \<in> (succ_rel edges)\<^sup>*)) \<and>
     (\<exists>s. stack t' = s @ stack t \<and> set s \<inter> visited t = {} \<and>
        (\<forall>x \<in> set s. \<forall>y \<in> set (stack t). (x, y) \<in> succ_rel edges \<longrightarrow> low t' v \<le> ind t' y))"

definition may_visit :: "Edge list \<Rightarrow> string set \<Rightarrow> string \<Rightarrow> tarjan \<Rightarrow> bool" where
  "may_visit edges G v t \<longleftrightarrow> indexed t \<and> linked edges G t \<and> counted edges t \<and> v \<notin> visited t \<and>
     (\<forall>g \<in> G. (g, v) \<in> (succ_rel edges)\<^sup>*)"

section \<open>Beginning a visit\<close>

lemma ind_start [simp]: "ind (start_visit v t) w = (if w = v then t_index t else ind t w)"
  by (simp add: ind_def start_visit_def)

lemma low_start [simp]: "low (start_visit v t) w = (if w = v then t_index t else low t w)"
  by (simp add: low_def start_visit_def)

lemma start_visit_fields [simp]:
  "visited (start_visit v t) = insert v (visited t)" "stack (start_visit v t) = v # stack t"
  "t_index (start_visit v t) = Suc (t_index t)" "cycles (start_visit v t) = cycles t"
  "onStack (start_visit v t) w = (w = v \<or> onStack t w)"
  by (auto simp: start_visit_def)

lemma start_indexed:
  assumes "indexed t" and "v \<notin> visited t"
  shows "indexed (start_visit v t)"
proof -
  have "v \<notin> set (stack t)" using assms by (auto simp: indexed_def)
  then have "sorted_wrt (\<lambda>a b. ind (start_visit v t) b < ind (start_visit v t) a) (stack t)"
    using assms(1) by (auto simp: indexed_def intro: sorted_wrt_mono_rel)
  then show ?thesis using assms by (auto simp: indexed_def less_Suc_eq)
qed

lemma start_linked:
  assumes "may_visit edges G v t"
  shows "linked edges (insert v G) (start_visit v t)"
proof -
  let ?R = "succ_rel edges" and ?t = "start_visit v t"
  from assms have ix: "indexed t" and nv: "v \<notin> visited t" and gv: "\<forall>g \<in> G. (g, v) \<in> ?R\<^sup>*"
    and G: "G \<subseteq> set (stack t)" and cl: "\<forall>u \<in> visited t - G. ?R `` {u} \<subseteq> visited t"
    and f: "\<forall>x \<in> set (stack t). \<forall>y \<in> set (stack t). ind t x \<le> ind t y \<longrightarrow> (x, y) \<in> ?R\<^sup>*"
    and g: "\<forall>y \<in> set (stack t). \<exists>g \<in> G. ind t g \<le> ind t y \<and> (y, g) \<in> ?R\<^sup>*"
    by (simp_all add: may_visit_def linked_def)
  have nst: "v \<notin> set (stack t)" and lt: "\<And>x. x \<in> set (stack t) \<Longrightarrow> ind t x < t_index t"
    using ix nv by (auto simp: indexed_def)
  have "(x, y) \<in> ?R\<^sup>*" if xy: "x \<in> set (v # stack t)" "y \<in> set (v # stack t)" "ind ?t x \<le> ind ?t y" for x y
  proof (cases "y = v")
    case True
    show ?thesis
    proof (cases "x = v")
      case False
      with xy g obtain h where "h \<in> G" "(x, h) \<in> ?R\<^sup>*" by auto
      with gv True show ?thesis by (meson rtrancl_trans)
    qed (simp add: True)
  next
    case False
    then have y: "y \<in> set (stack t)" using xy(2) by simp
    with False xy(3) lt [OF y] have "x \<noteq> v" by auto
    with xy False y f show ?thesis by auto
  qed
  moreover have "\<exists>h \<in> insert v G. ind ?t h \<le> ind ?t y \<and> (y, h) \<in> ?R\<^sup>*" if y: "y \<in> set (v # stack t)" for y
  proof (cases "y = v")
    case False
    with y g obtain h where h: "h \<in> G" "ind t h \<le> ind t y" "(y, h) \<in> ?R\<^sup>*" by auto
    then have "h \<noteq> v" using G nst by auto
    with h False show ?thesis by (intro bexI [of _ h]) auto
  qed auto
  moreover have "?R `` {u} \<subseteq> insert v (visited t)" if "u \<in> insert v (visited t) - insert v G" for u
    using that cl by blast
  ultimately show ?thesis using G unfolding linked_def start_visit_fields by auto
qed

lemma start_visiting:
  assumes "may_visit edges G v t"
  shows "visiting edges G v t [] (start_visit v t)"
proof -
  from assms have nv: "v \<notin> visited t" and ix: "indexed t" and c: "counted edges t"
    and G: "G \<subseteq> set (stack t)" by (simp_all add: may_visit_def linked_def)
  have st: "set (stack t) \<subseteq> visited t" using ix by (simp add: indexed_def)
  have "popped (start_visit v t) = popped t" using nv by (auto simp: popped_def)
  then have "counted edges (start_visit v t)" using c by (simp add: counted_def)
  moreover have "extends t (start_visit v t)" using nv by (auto simp: extends_def start_visit_def)
  ultimately show ?thesis
    using start_indexed [OF ix nv] start_linked [OF assms] nv G st unfolding visiting_def by auto
qed

section \<open>Examining a successor\<close>

definition relax :: "string \<Rightarrow> nat \<Rightarrow> tarjan \<Rightarrow> tarjan" where
  "relax v n t = t\<lparr>lowlink := (lowlink t)(v \<mapsto> n)\<rparr>"

lemma relax_fields [simp]:
  "indices (relax v n t) = indices t" "stack (relax v n t) = stack t" "t_index (relax v n t) = t_index t"
  "cycles (relax v n t) = cycles t" "onStack (relax v n t) = onStack t"
  "lowlink (relax v n t) = (lowlink t)(v \<mapsto> n)"
  "ind (relax v n t) w = ind t w" "low (relax v n t) w = (if w = v then n else low t w)"
  by (simp_all add: relax_def ind_def low_def)

lemma relax_invariant [simp]:
  "indexed (relax v n t) = indexed t" "linked edges G (relax v n t) = linked edges G t"
  "counted edges (relax v n t) = counted edges t"
  by (simp_all add: indexed_def linked_def counted_def popped_def)

lemma relax_visiting:
  assumes "visiting edges G v t0 s t" and "n \<le> low t v"
    and "y \<in> set (stack t)" "ind t y = n" "(v, y) \<in> (succ_rel edges)\<^sup>*"
  shows "visiting edges G v t0 s (relax v n t)"
proof -
  have "extends t0 (relax v n t)" using assms(1) by (auto simp: visiting_def extends_def)
  moreover have "\<forall>x \<in> set s. \<forall>y \<in> set (stack t0). (x, y) \<in> succ_rel edges \<longrightarrow> n \<le> ind t y"
    using assms(1,2) unfolding visiting_def by (meson le_trans)
  moreover have "\<exists>y \<in> set (stack t). ind t y = n \<and> (v, y) \<in> (succ_rel edges)\<^sup>*" using assms(3-5) by blast
  moreover have "n \<le> ind t v" using assms(1,2) by (simp add: visiting_def)
  ultimately show ?thesis using assms(1) unfolding visiting_def by simp
qed

lemma relax_examined:
  assumes "examined v t0 D t" and "n \<le> low t v"
  shows "examined v t0 D (relax v n t)"
  using assms unfolding examined_def by fastforce

text \<open>A successor that was visited before.\<close>

lemma examine_old:
  assumes v: "visiting edges G v t0 s t" and e: "examined v t0 D t" and w: "(v, w) \<in> succ_rel edges" "w \<in> visited t"
  defines "t' \<equiv> (if onStack t w \<and> ind t w < low t v then relax v (ind t w) t else t)"
  shows "visiting edges G v t0 s t' \<and> examined v t0 (insert w D) t'"
proof (cases "onStack t w \<and> ind t w < low t v")
  case True
  then have "w \<in> set (stack t)" using v by (simp add: visiting_def indexed_def)
  with True relax_visiting [OF v, of "ind t w" w] relax_examined [OF e, of "ind t w"] w show ?thesis
    by (auto simp: t'_def examined_def)
next
  case False
  have "set (stack t0) \<subseteq> set (stack t)" using v by (auto simp: visiting_def)
  with False v have "w \<in> set (stack t0) \<Longrightarrow> low t v \<le> ind t w"
    by (auto simp: visiting_def indexed_def)
  then have "examined v t0 (insert w D) t" using e w by (simp add: examined_def)
  moreover have "t' = t" unfolding t'_def using False by (rule if_not_P)
  ultimately show ?thesis using v by simp
qed

lemma may_visit_successor:
  assumes v: "visiting edges G v t0 s t" and w: "(v, w) \<in> succ_rel edges" "w \<notin> visited t"
  shows "may_visit edges (insert v G) w t"
proof -
  let ?R = "succ_rel edges"
  have ix: "indexed t" and l: "linked edges (insert v G) t" and c: "counted edges t"
    and st: "stack t = s @ v # stack t0" and G: "G \<subseteq> set (stack t0)"
    using v by (simp_all add: visiting_def)
  have "(g, v) \<in> ?R\<^sup>*" if "g \<in> insert v G" for g
  proof (cases "g = v")
    case False
    then have g: "g \<in> set (stack t0)" using that G by auto
    then have "ind t g < ind t v" using ix st by (auto simp: indexed_def sorted_wrt_append)
    with l g st show ?thesis by (simp add: linked_def)
  qed simp
  then have "(g, w) \<in> ?R\<^sup>*" if "g \<in> insert v G" for g
    using that w(1) by (meson rtrancl.rtrancl_into_rtrancl)
  with ix l c w(2) show ?thesis by (simp add: may_visit_def)
qed

lemma extends_trans: "extends t0 t \<Longrightarrow> visited t0 \<subseteq> visited t \<Longrightarrow> extends t t' \<Longrightarrow> extends t0 t'"
  unfolding extends_def by (metis subsetD)

lemma extends_visited: "extends t t' \<Longrightarrow> visited t \<subseteq> visited t'"
  by (auto simp: extends_def dom_def)

lemma extends_ind: "extends t t' \<Longrightarrow> u \<in> visited t \<Longrightarrow> ind t' u = ind t u \<and> low t' u = low t u"
  by (simp add: extends_def ind_def low_def)

text \<open>A successor that is visited now.\<close>

lemma examine_new_visiting:
  assumes v: "visiting edges G v t0 s t" and w: "(v, w) \<in> succ_rel edges"
    and d: "visit_done edges (insert v G) w t t'"
  shows "\<exists>s'. stack t' = s' @ stack t \<and> set s' \<inter> visited t = {} \<and>
    visiting edges G v t0 (s' @ s) (if low t' w < low t' v then relax v (low t' w) t' else t')"
proof -
  let ?R = "succ_rel edges"
  from d have ix: "indexed t'" and lk: "linked edges (insert v G) t'" and ct: "counted edges t'" and ex: "extends t t'"
    and wv: "visited t' \<subseteq> visited t \<union> ?R\<^sup>* `` {w}" and iw: "ind t' w = t_index t" and lw: "low t' w \<le> ind t' w"
    and reach: "low t' w < ind t' w \<longrightarrow> (\<exists>y \<in> set (stack t'). ind t' y = low t' w \<and> (w, y) \<in> ?R\<^sup>*)"
    by (simp_all add: visit_done_def)
  from d obtain s' where s': "stack t' = s' @ stack t" "set s' \<inter> visited t = {}"
    "\<forall>x \<in> set s'. \<forall>y \<in> set (stack t). (x, y) \<in> ?R \<longrightarrow> low t' w \<le> ind t' y" by (auto simp: visit_done_def)
  from v have ex0: "extends t0 t" and st: "stack t = s @ v # stack t0" and vv: "v \<in> visited t" and ixt: "indexed t"
    and sv: "set (stack t) \<subseteq> visited t" "set s \<inter> visited t0 = {}" and lv: "low t v \<le> ind t v"
    and B: "\<forall>x \<in> set s. \<forall>y \<in> set (stack t0). (x, y) \<in> ?R \<longrightarrow> low t v \<le> ind t y"
    and V: "visited t \<subseteq> visited t0 \<union> ?R\<^sup>* `` {v}"
    unfolding visiting_def indexed_def by blast+
  note old = extends_ind [OF ex]
  have vs: "visited t0 \<subseteq> visited t" by (rule extends_visited [OF ex0])
  have iv: "ind t' v = ind t v" "low t' v = low t v" using old [OF vv] by auto
  have lt: "ind t v < t_index t" using ixt vv by (simp add: indexed_def)
  have newB: "\<forall>x \<in> set (s' @ s). \<forall>y \<in> set (stack t0). (x, y) \<in> ?R \<longrightarrow> min (low t' w) (low t' v) \<le> ind t' y"
  proof (intro ballI impI)
    fix x y assume x: "x \<in> set (s' @ s)" and y: "y \<in> set (stack t0)" and R: "(x, y) \<in> ?R"
    have yt: "y \<in> set (stack t)" "y \<in> visited t" using y st sv(1) by auto
    show "min (low t' w) (low t' v) \<le> ind t' y"
    proof (cases "x \<in> set s'")
      case True
      with s'(3) yt R have "low t' w \<le> ind t' y" by blast
      then show ?thesis by (rule min.coboundedI1)
    next
      case False
      with x B y R have "low t v \<le> ind t y" by auto
      with old [OF yt(2)] iv have "low t' v \<le> ind t' y" by simp
      then show ?thesis by (rule min.coboundedI2)
    qed
  qed
  have Vn: "visited t' \<subseteq> visited t0 \<union> ?R\<^sup>* `` {v}"
    using wv V w by (auto intro: converse_rtrancl_into_rtrancl)
  have reachv: "\<exists>y \<in> set (stack t'). ind t' y = low t' v \<and> (v, y) \<in> ?R\<^sup>*"
  proof -
    from v obtain y where "y \<in> set (stack t)" "ind t y = low t v" "(v, y) \<in> ?R\<^sup>*" unfolding visiting_def by blast
    with old [of y] sv(1) iv s'(1) show ?thesis by auto
  qed
  have "set s' \<inter> visited t0 = {}" using s'(2) vs by blast
  then have new: "set (s' @ s) \<inter> visited t0 = {}" using sv(2) by auto
  have v0: "ind t v = t_index t0" "G \<subseteq> set (stack t0)" "set (stack t0) \<subseteq> visited t0" "v \<notin> visited t0"
    using v unfolding visiting_def by blast+
  have stk: "stack t' = (s' @ s) @ v # stack t0" using s'(1) st by simp
  have i0: "ind t' v = t_index t0" "low t' v \<le> ind t' v" using iv v0(1) lv by simp_all
  have vt: "v \<in> visited t'" using vv extends_visited [OF ex] by blast
  note base = ix lk ct extends_trans [OF ex0 vs ex] vt i0(1) stk new v0(2-4) i0(2)
  have "visiting edges G v t0 (s' @ s) (if low t' w < low t' v then relax v (low t' w) t' else t')"
  proof (cases "low t' w < low t' v")
    case True
    then have "low t' w < ind t' w" using iv lv lt iw by linarith
    with reach obtain y where y: "y \<in> set (stack t')" "ind t' y = low t' w" "(w, y) \<in> ?R\<^sup>*" by blast
    have vy: "(v, y) \<in> ?R\<^sup>*" using w y(3) by (rule converse_rtrancl_into_rtrancl)
    have "extends t0 (relax v (low t' w) t')" using base(4,11) by (auto simp: extends_def)
    moreover have "\<forall>x \<in> set (s' @ s). \<forall>y \<in> set (stack t0). (x, y) \<in> ?R \<longrightarrow> low t' w \<le> ind t' y"
      using newB True by (simp add: min_def)
    ultimately have "visiting edges G v t0 (s' @ s) (relax v (low t' w) t')"
      using base Vn y vy True unfolding visiting_def by auto
    with True show ?thesis by simp
  next
    case False
    then have m: "min (low t' w) (low t' v) = low t' v" by simp
    have "\<forall>x \<in> set (s' @ s). \<forall>y \<in> set (stack t0). (x, y) \<in> ?R \<longrightarrow> low t' v \<le> ind t' y"
      using newB unfolding m .
    then have "visiting edges G v t0 (s' @ s) t'" using base Vn reachv unfolding visiting_def by blast
    with False show ?thesis by simp
  qed
  with s'(1,2) show ?thesis by blast
qed

lemma examine_new:
  assumes v: "visiting edges G v t0 s t" and e: "examined v t0 D t" and w: "(v, w) \<in> succ_rel edges" "w \<notin> visited t"
    and d: "visit_done edges (insert v G) w t t'"
  defines "t'' \<equiv> (if low t' w < low t' v then relax v (low t' w) t' else t')"
  shows "\<exists>s'. visiting edges G v t0 s' t'' \<and> examined v t0 (insert w D) t''"
proof -
  have ex: "extends t t'" and wv: "w \<in> visited t'" using d by (simp_all add: visit_done_def)
  have vv: "v \<in> visited t" and st: "set (stack t0) \<subseteq> visited t"
    using v extends_visited [of t0 t] unfolding visiting_def by blast+
  have "u \<in> visited t'' \<and> (u \<in> set (stack t0) \<longrightarrow> low t'' v \<le> ind t'' u)" if "u \<in> insert w D" for u
  proof (cases "u = w")
    case True
    then show ?thesis using wv w(2) st by (auto simp: t''_def)
  next
    case False
    with that e have u: "u \<in> visited t" "u \<in> set (stack t0) \<longrightarrow> low t v \<le> ind t u" by (auto simp: examined_def)
    then show ?thesis using extends_ind [OF ex u(1)] extends_ind [OF ex vv] extends_visited [OF ex]
      by (auto simp: t''_def)
  qed
  then have "examined v t0 (insert w D) t''" by (simp add: examined_def)
  with examine_new_visiting [OF v w(1) d] show ?thesis unfolding t''_def by blast
qed

section \<open>Ending a visit\<close>

lemma visiting_succs:
  assumes "visiting edges G v t0 s t" and "examined v t0 (set (adj edges v)) t"
  shows "succ_rel edges `` {v} \<subseteq> visited t" "\<And>x y. x \<in> set (s @ [v]) \<Longrightarrow> y \<in> set (stack t0) \<Longrightarrow> (x, y) \<in> succ_rel edges \<Longrightarrow> low t v \<le> ind t y"
  using assms by (auto simp: visiting_def examined_def succ_rel_def)

text \<open>The vertex stays on the stack: it reaches an older open vertex.\<close>

lemma finish_open:
  assumes v: "visiting edges G v t0 s t" and e: "examined v t0 (set (adj edges v)) t" and l: "low t v < ind t v"
  shows "visit_done edges G v t0 t"
proof -
  let ?R = "succ_rel edges"
  from v have lk: "linked edges (insert v G) t" and G: "G \<subseteq> set (stack t0)" and st: "stack t = s @ v # stack t0"
    unfolding visiting_def by blast+
  from v obtain y1 where y1: "y1 \<in> set (stack t)" "ind t y1 = low t v" "(v, y1) \<in> ?R\<^sup>*" unfolding visiting_def by blast
  from lk y1(1) obtain g1 where g1: "g1 \<in> insert v G" "ind t g1 \<le> ind t y1" "(y1, g1) \<in> ?R\<^sup>*"
    unfolding linked_def by blast
  have "g1 \<noteq> v" using g1(2) y1(2) l by auto
  then have g1G: "g1 \<in> G" and vg1: "(v, g1) \<in> ?R\<^sup>*" using g1 y1(3) by auto
  have "\<exists>g \<in> G. ind t g \<le> ind t y \<and> (y, g) \<in> ?R\<^sup>*" if y: "y \<in> set (stack t)" for y
  proof -
    from lk y obtain g where g: "g \<in> insert v G" "ind t g \<le> ind t y" "(y, g) \<in> ?R\<^sup>*" unfolding linked_def by blast
    show ?thesis
    proof (cases "g = v")
      case True
      then have "(y, g1) \<in> ?R\<^sup>*" "ind t g1 \<le> ind t y" using g vg1 g1(2) y1(2) l by auto
      with g1G show ?thesis by blast
    qed (use g in blast)
  qed
  then have "linked edges G t"
    using lk visiting_succs(1) [OF v e] unfolding linked_def by blast
  moreover have "\<exists>s'. stack t = s' @ stack t0 \<and> set s' \<inter> visited t0 = {} \<and>
      (\<forall>x \<in> set s'. \<forall>y \<in> set (stack t0). (x, y) \<in> ?R \<longrightarrow> low t v \<le> ind t y)"
    using v visiting_succs(2) [OF v e] by (intro exI [of _ "s @ [v]"]) (auto simp: visiting_def)
  ultimately show ?thesis using v unfolding visiting_def visit_done_def by blast
qed

lemma component_closed:
  assumes v: "visiting edges G v t0 s t" and e: "examined v t0 (set (adj edges v)) t" and l: "low t v = ind t v"
  shows "succ_rel edges `` (popped t \<union> set (s @ [v])) \<subseteq> popped t \<union> set (s @ [v])"
proof -
  let ?R = "succ_rel edges"
  from v have ix: "indexed t" and lk: "linked edges (insert v G) t" and ct: "counted edges t" and G: "G \<subseteq> set (stack t0)"
    and st: "stack t = s @ v # stack t0" and new: "set s \<inter> visited t0 = {}" and st0: "set (stack t0) \<subseteq> visited t0"
    unfolding visiting_def by blast+
  have "y \<in> popped t \<union> set (s @ [v])" if x: "x \<in> set (s @ [v])" and R: "(x, y) \<in> ?R" for x y
  proof -
    have "x \<in> visited t" using x ix st by (auto simp: indexed_def)
    moreover have "x \<in> G \<Longrightarrow> False" if "x \<noteq> v"
    proof -
      have "x \<in> set s" using that x by simp
      then show "x \<in> G \<Longrightarrow> False" using G new st0 by blast
    qed
    ultimately have yv: "y \<in> visited t" using lk visiting_succs(1) [OF v e] R unfolding linked_def by blast
    have "y \<notin> set (stack t0)"
    proof
      assume y: "y \<in> set (stack t0)"
      then have "ind t v \<le> ind t y" using visiting_succs(2) [OF v e x y R] l by simp
      moreover have "ind t y < ind t v" using ix st y by (auto simp: indexed_def sorted_wrt_append)
      ultimately show False by simp
    qed
    then show ?thesis using yv st by (auto simp: popped_def)
  qed
  then show ?thesis using ct unfolding counted_def by blast
qed

lemma closed_reach:
  assumes "R `` P \<subseteq> P" and "x \<in> P" and "(x, y) \<in> R\<^sup>*"
  shows "y \<in> P"
  using assms(3,2) by (induction rule: rtrancl_induct) (use assms(1) in auto)

lemma component_scc:
  assumes v: "visiting edges G v t0 s t" and e: "examined v t0 (set (adj edges v)) t" and l: "low t v = ind t v"
  shows "set (s @ [v]) = scc edges v"
proof
  let ?R = "succ_rel edges"
  from v have ix: "indexed t" and lk: "linked edges (insert v G) t" and ct: "counted edges t" and G: "G \<subseteq> set (stack t0)"
    and st: "stack t = s @ v # stack t0"
    unfolding visiting_def by blast+
  show "set (s @ [v]) \<subseteq> scc edges v"
  proof
    fix x assume x: "x \<in> set (s @ [v])"
    then have xs: "x \<in> set (stack t)" and vx: "ind t v \<le> ind t x"
      using ix st by (auto simp: indexed_def sorted_wrt_append dest: less_imp_le)
    have 1: "(v, x) \<in> ?R\<^sup>*" using linked_reach [OF lk _ xs vx] st by simp
    from lk xs obtain g where g: "g \<in> insert v G" "(x, g) \<in> ?R\<^sup>*" unfolding linked_def by blast
    have "(g, v) \<in> ?R\<^sup>*"
    proof (cases "g = v")
      case False
      then have "g \<in> set (stack t0)" using g G by auto
      then have "ind t g < ind t v" "g \<in> set (stack t)" using ix st by (auto simp: indexed_def sorted_wrt_append)
      then show ?thesis using linked_reach [OF lk, of g v] st by simp
    qed simp
    with 1 g(2) show "x \<in> scc edges v" by (auto simp: scc_def)
  qed
  show "scc edges v \<subseteq> set (s @ [v])"
  proof
    fix z assume "z \<in> scc edges v"
    then have vz: "(v, z) \<in> ?R\<^sup>*" and zv: "(z, v) \<in> ?R\<^sup>*" by (auto simp: scc_def)
    have "z \<in> popped t \<union> set (s @ [v])"
      by (rule closed_reach [OF component_closed [OF v e l] _ vz]) simp
    moreover have "z \<notin> popped t"
    proof
      assume "z \<in> popped t"
      then have "v \<in> popped t" using closed_reach [OF _ _ zv] ct unfolding counted_def by blast
      then show False using st by (simp add: popped_def)
    qed
    ultimately show "z \<in> set (s @ [v])" by blast
  qed
qed

lemma pop_component_append:
  assumes "v \<notin> set zs"
  shows "pop_component v sz t (zs @ v # ys) =
    Some (sz + Suc (length zs), t\<lparr>stack := ys, onStack := (\<lambda>w. w \<notin> set (zs @ [v]) \<and> onStack t w)\<rparr>)"
  using assms
proof (induction zs arbitrary: sz t)
  case Nil
  have "(onStack t)(v := False) = (\<lambda>w. w \<noteq> v \<and> onStack t w)" by (rule ext) simp
  then show ?case by (simp add: Let_def)
next
  case (Cons z zs)
  let ?t = "t\<lparr>stack := zs @ v # ys, onStack := (onStack t)(z := False)\<rparr>"
  have "(\<lambda>w. w \<notin> set (zs @ [v]) \<and> onStack ?t w) = (\<lambda>w. w \<notin> set ((z # zs) @ [v]) \<and> onStack t w)" by (rule ext) simp
  then show ?case using Cons.IH [of "Suc sz" ?t] Cons.prems by (auto simp: Let_def)
qed

text \<open>A component contains a cycle when it has two vertices or an edge from its vertex to itself.\<close>

lemma cyclic_scc:
  assumes "(u, w) \<in> (succ_rel edges)\<^sup>*" "(w, u) \<in> (succ_rel edges)\<^sup>*" "u \<noteq> w"
  shows "cyclic edges u"
proof -
  have "(u, w) \<in> (succ_rel edges)\<^sup>+" using assms(1,3) by (simp add: rtrancl_eq_or_trancl)
  with assms(2) show ?thesis unfolding cyclic_def by simp
qed

lemma scc_eq: "w \<in> scc edges u \<Longrightarrow> scc edges w = scc edges u"
  unfolding scc_def by (auto intro: rtrancl_trans)

lemma scc_self [simp]: "u \<in> scc edges u"
  by (simp add: scc_def)

lemma scc_cyclic_iff:
  assumes "w \<in> scc edges u"
  shows "cyclic edges w \<longleftrightarrow> cyclic edges u"
proof -
  have "cyclic edges b" if "cyclic edges a" "(a, b) \<in> (succ_rel edges)\<^sup>*" "(b, a) \<in> (succ_rel edges)\<^sup>*" for a b
    using that unfolding cyclic_def by (meson rtrancl_trancl_trancl trancl_rtrancl_trancl)
  with assms show ?thesis unfolding scc_def by blast
qed

lemma component_cyclic:
  assumes c: "set (s @ [v]) = scc edges v" and d: "distinct (s @ [v])"
  shows "Suc (length s) > 1 \<or> selfLoop edges v \<longleftrightarrow> cyclic edges v"
proof (cases s)
  case Nil
  have loop: "selfLoop edges v \<longleftrightarrow> (v, v) \<in> succ_rel edges"
    by (auto simp: selfLoop_def succ_rel_def adj_def image_iff)
  have "(v, v) \<in> succ_rel edges" if "(v, v) \<in> (succ_rel edges)\<^sup>+"
  proof -
    from that obtain w where w: "(v, w) \<in> succ_rel edges" "(w, v) \<in> (succ_rel edges)\<^sup>*" by (meson tranclD)
    then have "w \<in> scc edges v" by (auto simp: scc_def)
    moreover have "scc edges v = {v}" using c Nil by simp
    ultimately show ?thesis using w(1) by simp
  qed
  with Nil loop show ?thesis by (auto simp: cyclic_def)
next
  case (Cons w ws)
  then have "w \<in> set (s @ [v])" and ne: "w \<noteq> v" using d by auto
  then have "w \<in> scc edges v" by (simp only: c)
  then have "cyclic edges v" using cyclic_scc [of v w edges] ne by (simp add: scc_def)
  with Cons show ?thesis by simp
qed

lemma count_component:
  assumes closed: "succ_rel edges `` P \<subseteq> P" and C: "C = scc edges v" "v \<notin> P" and fin: "finite P"
  shows "card (scc edges ` {u \<in> P \<union> C. cyclic edges u}) =
    card (scc edges ` {u \<in> P. cyclic edges u}) + (if cyclic edges v then 1 else 0)"
proof -
  have C1: "scc edges u = C" "cyclic edges u \<longleftrightarrow> cyclic edges v" if "u \<in> C" for u
    using that C(1) scc_eq scc_cyclic_iff by blast+
  have vC: "v \<in> C" using C(1) by simp
  have split: "scc edges ` {u \<in> P \<union> C. cyclic edges u} =
      scc edges ` {u \<in> P. cyclic edges u} \<union> scc edges ` {u \<in> C. cyclic edges u}" by blast
  have "scc edges ` {u \<in> C. cyclic edges u} = (if cyclic edges v then {C} else {})"
  proof (cases "cyclic edges v")
    case True
    with C1(2) have "{u \<in> C. cyclic edges u} = C" by blast
    with True C1(1) vC show ?thesis by auto
  next
    case False
    with C1(2) have "{u \<in> C. cyclic edges u} = {}" by blast
    with False show ?thesis by simp
  qed
  moreover have "C \<notin> scc edges ` {u \<in> P. cyclic edges u}"
  proof
    assume "C \<in> scc edges ` {u \<in> P. cyclic edges u}"
    then obtain u where u: "u \<in> P" "C = scc edges u" by blast
    then have "v \<in> scc edges u" using vC by simp
    then have "v \<in> P" using closed_reach [OF closed u(1)] by (simp add: scc_def)
    with C(2) show False by simp
  qed
  ultimately show ?thesis using fin unfolding split by simp
qed

lemma sorted_wrt_distinct: "sorted_wrt (\<lambda>a b. (f b :: nat) < f a) xs \<Longrightarrow> distinct xs"
  by (induction xs) auto

text \<open>The vertex is the first of its component, which is taken from the stack.\<close>

lemma finish_pop:
  assumes v: "visiting edges G v t0 s t" and e: "examined v t0 (set (adj edges v)) t" and l: "low t v = ind t v"
    and g0: "linked edges G t0"
  shows "\<exists>t'. finish_visit edges v t = Some t' \<and> visit_done edges G v t0 t'"
proof -
  let ?R = "succ_rel edges" and ?C = "set (s @ [v])"
  from v have ix: "indexed t" and lk: "linked edges (insert v G) t" and ct: "counted edges t" and ex: "extends t0 t"
    and G: "G \<subseteq> set (stack t0)" and st0: "set (stack t0) \<subseteq> visited t0" and vv: "v \<in> visited t" and nv: "v \<notin> visited t0"
    and V: "visited t \<subseteq> visited t0 \<union> ?R\<^sup>* `` {v}" and iv: "ind t v = t_index t0"
    and st: "stack t = s @ v # stack t0"
    unfolding visiting_def by blast+
  have sw: "sorted_wrt (\<lambda>a b. ind t b < ind t a) (s @ v # stack t0)" and on: "\<And>w. onStack t w \<longleftrightarrow> w \<in> set (stack t)"
    and sv: "set (stack t) \<subseteq> visited t" and fin: "finite (visited t)" and lt: "\<forall>u \<in> visited t. ind t u < t_index t"
    using ix st by (simp_all add: indexed_def)
  have below: "ind t y < ind t v" if "y \<in> set (stack t0)" for y using sw that by (simp add: sorted_wrt_append)
  have "distinct (s @ v # stack t0)" using sw by (rule sorted_wrt_distinct)
  then have dist: "distinct (s @ [v])" "v \<notin> set s" "?C \<inter> set (stack t0) = {}" by auto
  define t1 where "t1 = t\<lparr>stack := stack t0, onStack := (\<lambda>w. w \<notin> ?C \<and> onStack t w)\<rparr>"
  define t2 where "t2 = (if Suc (length s) > 1 \<or> selfLoop edges v then t1\<lparr>cycles := cycles t1 + 1\<rparr> else t1)"
  have fv: "finish_visit edges v t = Some t2"
    using l st pop_component_append [OF dist(2), of 0 t "stack t0"] by (simp add: finish_visit_def t1_def t2_def)
  have f2 [simp]: "indices t2 = indices t" "lowlink t2 = lowlink t" "stack t2 = stack t0" "t_index t2 = t_index t"
    "onStack t2 = (\<lambda>w. w \<notin> ?C \<and> onStack t w)" "ind t2 w = ind t w" "low t2 w = low t w" for w
    by (simp_all add: t1_def t2_def ind_def low_def)
  have pop2: "popped t2 = popped t \<union> ?C"
    using sv dist(3) st by (auto simp: popped_def)
  have "indexed t2"
    using fin lt sw sv st dist(3) on by (auto simp: indexed_def sorted_wrt_append)
  moreover have "linked edges G t2"
  proof -
    have "\<exists>g \<in> G. ind t g \<le> ind t y \<and> (y, g) \<in> ?R\<^sup>*" if y: "y \<in> set (stack t0)" for y
    proof -
      from lk y st obtain g where g: "g \<in> insert v G" "ind t g \<le> ind t y" "(y, g) \<in> ?R\<^sup>*"
        unfolding linked_def by (metis append_Cons append_assoc in_set_conv_decomp list.set_intros(2) Un_iff set_append)
      have "g \<noteq> v" using g(2) below [OF y] by auto
      with g show ?thesis by blast
    qed
    moreover have "?R `` {u} \<subseteq> visited t" if "u \<in> visited t - G" for u
      using that lk visiting_succs(1) [OF v e] unfolding linked_def by (cases "u = v") blast+
    moreover have "(x, y) \<in> ?R\<^sup>*" if "x \<in> set (stack t0)" "y \<in> set (stack t0)" "ind t x \<le> ind t y" for x y
      using linked_reach [OF lk, of x y] that st by simp
    ultimately show ?thesis using G unfolding linked_def by simp
  qed
  moreover have "counted edges t2"
  proof -
    have cl: "?R `` popped t \<subseteq> popped t" and n: "cycles t = int (card (scc edges ` {u \<in> popped t. cyclic edges u}))"
      using ct unfolding counted_def by blast+
    have "v \<notin> popped t" "finite (popped t)" using st fin by (auto simp: popped_def)
    from count_component [OF cl component_scc [OF v e l] this]
    have "int (card (scc edges ` {u \<in> popped t2. cyclic edges u})) = cycles t + (if cyclic edges v then 1 else 0)"
      unfolding pop2 n by simp
    moreover have "cycles t2 = cycles t + (if cyclic edges v then 1 else 0)"
      using component_cyclic [OF component_scc [OF v e l] dist(1)] by (simp add: t1_def t2_def)
    ultimately show ?thesis using component_closed [OF v e l] unfolding counted_def pop2 by simp
  qed
  moreover have "extends t0 t2" using ex by (simp add: extends_def)
  ultimately have "visit_done edges G v t0 t2" using vv V iv l unfolding visit_done_def by simp
  with fv show ?thesis by blast
qed

section \<open>The search\<close>

definition white :: "string set \<Rightarrow> tarjan \<Rightarrow> string set" where
  "white K t = K - visited t"

lemma white_mono: "finite K \<Longrightarrow> extends t t' \<Longrightarrow> card (white K t') \<le> card (white K t)"
  using extends_visited [of t t'] by (intro card_mono) (auto simp: white_def)

lemma white_start: "finite K \<Longrightarrow> v \<in> K \<Longrightarrow> v \<notin> visited t \<Longrightarrow> card (white K (start_visit v t)) < card (white K t)"
  by (intro psubset_card_mono) (auto simp: white_def)

lemma tarjan_succs_ok:
  assumes fin: "finite K"
    and one: "\<And>G w t. may_visit edges G w t \<Longrightarrow> w \<in> K \<Longrightarrow> card (white K t) < n \<Longrightarrow>
      \<exists>t'. tarjan_visit edges n w t = Some t' \<and> visit_done edges G w t t'"
  shows "visiting edges G v t0 s t \<Longrightarrow> examined v t0 D t \<Longrightarrow> card (white K t) < n \<Longrightarrow>
    set ws \<subseteq> K \<Longrightarrow> {v} \<times> set ws \<subseteq> succ_rel edges \<Longrightarrow>
    \<exists>s' t'. tarjan_succs edges n v ws t = Some t' \<and> visiting edges G v t0 s' t' \<and> examined v t0 (D \<union> set ws) t'"
proof (induction ws arbitrary: s t D)
  case Nil
  then show ?case by auto
next
  case (Cons w ws)
  have R: "(v, w) \<in> succ_rel edges" and K: "w \<in> K" "set ws \<subseteq> K" "{v} \<times> set ws \<subseteq> succ_rel edges" using Cons.prems by auto
  have un: "D \<union> set (w # ws) = insert w D \<union> set ws" by simp
  show ?case
  proof (cases "w \<in> visited t")
    case True
    let ?t = "if onStack t w \<and> ind t w < low t v then relax v (ind t w) t else t"
    have "visiting edges G v t0 s ?t" "examined v t0 (insert w D) ?t"
      using examine_old [OF Cons.prems(1,2) R True] by blast+
    moreover have "card (white K ?t) < n" using Cons.prems(3) by (simp add: white_def)
    ultimately show ?thesis using Cons.IH [of s ?t "insert w D"] K True unfolding un by (auto simp: relax_def)
  next
    case False
    from one [OF may_visit_successor [OF Cons.prems(1) R False] K(1) Cons.prems(3)] obtain t' where
      t': "tarjan_visit edges n w t = Some t'" "visit_done edges (insert v G) w t t'" by blast
    let ?t = "if low t' w < low t' v then relax v (low t' w) t' else t'"
    from examine_new [OF Cons.prems(1,2) R False t'(2)] obtain s' where
      s': "visiting edges G v t0 s' ?t" "examined v t0 (insert w D) ?t" by blast
    have "card (white K t') \<le> card (white K t)" using white_mono [OF fin] t'(2) by (simp add: visit_done_def)
    then have "card (white K ?t) < n" using Cons.prems(3) by (simp add: white_def)
    with Cons.IH [OF s' this K(2,3)] t'(1) False show ?thesis unfolding un by (auto simp: relax_def)
  qed
qed

lemma tarjan_visit_ok:
  assumes fin: "finite K" and RK: "succ_rel edges `` K \<subseteq> K"
  shows "may_visit edges G v t \<Longrightarrow> v \<in> K \<Longrightarrow> card (white K t) < n \<Longrightarrow>
    \<exists>t'. tarjan_visit edges n v t = Some t' \<and> visit_done edges G v t t'"
proof (induction n arbitrary: G v t)
  case 0
  then show ?case by simp
next
  case (Suc n)
  have nv: "v \<notin> visited t" and g0: "linked edges G t" using Suc.prems(1) by (simp_all add: may_visit_def)
  have w: "card (white K (start_visit v t)) < n" using white_start [OF fin Suc.prems(2) nv] Suc.prems(3) by simp
  have a: "set (adj edges v) \<subseteq> K" "{v} \<times> set (adj edges v) \<subseteq> succ_rel edges"
    using RK Suc.prems(2) by (auto simp: succ_rel_def)
  have "examined v t {} (start_visit v t)" by (simp add: examined_def)
  from tarjan_succs_ok [OF fin Suc.IH start_visiting [OF Suc.prems(1)] this w a] obtain s' t' where
    t': "tarjan_succs edges n v (adj edges v) (start_visit v t) = Some t'" "visiting edges G v t s' t'"
    "examined v t (set (adj edges v)) t'" by auto
  have "low t' v \<le> ind t' v" using t'(2) unfolding visiting_def by blast
  then consider "low t' v < ind t' v" | "low t' v = ind t' v" by linarith
  then show ?case
  proof cases
    case 1
    with finish_open [OF t'(2,3)] t'(1) show ?thesis by (simp add: finish_visit_def)
  next
    case 2
    from finish_pop [OF t'(2,3) 2 g0] t'(1) show ?thesis by auto
  qed
qed

lemma linked_empty: "linked edges {} t \<Longrightarrow> stack t = []"
  unfolding linked_def by (cases "stack t") auto

definition search_ok :: "Edge list \<Rightarrow> string set \<Rightarrow> tarjan \<Rightarrow> bool" where
  "search_ok edges V t \<longleftrightarrow> indexed t \<and> linked edges {} t \<and> counted edges t \<and> V \<subseteq> visited t \<and> visited t \<subseteq> (succ_rel edges)\<^sup>* `` V"

lemma tarjan_all_ok:
  assumes fin: "finite K" and RK: "succ_rel edges `` K \<subseteq> K" and n: "card K < n"
  shows "search_ok edges V t \<Longrightarrow> set vs \<subseteq> K \<Longrightarrow>
    \<exists>t'. tarjan_all edges n vs t = Some t' \<and> search_ok edges (V \<union> set vs) t'"
proof (induction vs arbitrary: t V)
  case Nil
  then show ?case by auto
next
  case (Cons v vs)
  have un: "V \<union> set (v # vs) = insert v V \<union> set vs" and K: "v \<in> K" "set vs \<subseteq> K" using Cons.prems(2) by auto
  show ?case
  proof (cases "indices t v = None")
    case True
    then have "may_visit edges {} v t" using Cons.prems(1) by (simp add: may_visit_def search_ok_def domIff)
    moreover have "card (white K t) < n" using n card_mono [OF fin, of "white K t"] by (auto simp: white_def)
    ultimately obtain t' where t': "tarjan_visit edges n v t = Some t'" "visit_done edges {} v t t'"
      using tarjan_visit_ok [OF fin RK _ K(1)] by blast
    then have "search_ok edges (insert v V) t'"
      using Cons.prems(1) extends_visited [of t t'] unfolding search_ok_def visit_done_def by blast
    from Cons.IH [OF this K(2)] t'(1) True show ?thesis unfolding un by simp
  next
    case False
    then have "search_ok edges (insert v V) t" using Cons.prems(1) unfolding search_ok_def by blast
    from Cons.IH [OF this K(2)] False show ?thesis unfolding un by simp
  qed
qed

text \<open>
  C4. The cycle count of a result is the number of strongly connected components that contain a cycle,
  among the vertices reachable from the nodes along call edges; the search always returns it, whatever
  nodes and edges it is given.
\<close>

theorem cycleCount_correct:
  "cycleCount nodes edges =
     Some (int (card (scc edges ` {u \<in> (succ_rel edges)\<^sup>* `` (ID ` set nodes). cyclic edges u})))"
proof -
  let ?R = "succ_rel edges" and ?ids = "map ID nodes"
  define K where "K = set (?ids @ map CalleeNodeID edges)"
  define t0 where "t0 = \<lparr>t_index = 0, indices = Map.empty, lowlink = Map.empty, onStack = (\<lambda>_. False), stack = [], cycles = 0\<rparr>"
  have "search_ok edges {} t0"
    by (simp add: search_ok_def t0_def indexed_def linked_def counted_def popped_def)
  moreover have "card K \<le> length nodes + length edges" unfolding K_def by (rule order_trans [OF card_length]) simp
  moreover have "?R `` K \<subseteq> K" by (auto simp: K_def succ_rel_def adj_def)
  moreover have "finite K" "set ?ids \<subseteq> K" by (simp_all add: K_def)
  ultimately obtain t where t: "tarjan_all edges (Suc (length nodes + length edges)) ?ids t0 = Some t"
    "search_ok edges (set ?ids) t"
    using tarjan_all_ok [of K edges "Suc (length nodes + length edges)" "{}" t0 ?ids] by auto
  have st: "stack t = []" and ct: "counted edges t" using t(2) linked_empty by (auto simp: search_ok_def)
  have cl: "?R `` visited t \<subseteq> visited t" using ct st by (simp add: counted_def popped_def)
  have "?R\<^sup>* `` set ?ids \<subseteq> visited t"
    using t(2) closed_reach [OF cl] unfolding search_ok_def by blast
  then have "visited t = ?R\<^sup>* `` (ID ` set nodes)" using t(2) by (auto simp: search_ok_def)
  then show ?thesis
    using t(1) ct st by (simp add: cycleCount_def t0_def counted_def popped_def)
qed

end
