(* ===== verification/Call_Graph_Properties.thy ===== *)
theory Call_Graph_Properties
  imports Call_Graph
begin

text \<open>
  Properties of the canonical form of \<open>internal/graph\<close>: it does not depend on the order in which a
  traversal or a map iteration delivered nodes, edges, targets and diagnostics, canonicalizing twice is
  canonicalizing once, and a merge unites edges and nodes without losing call sites.
\<close>

section \<open>Sorting\<close>

lemma sort_key_perm:
  assumes "mset xs = mset ys" and "inj_on k (set ys)"
  shows "sort_key k xs = sort_key k ys"
proof -
  have "set xs = set ys" using assms(1) by (metis set_mset_mset)
  with assms show ?thesis by (intro sort_key_inj_key_eq) simp_all
qed

lemma sort_key_sorted: "sorted (map k xs) \<Longrightarrow> sort_key k xs = xs"
proof (induction xs)
  case (Cons x xs)
  then have "sort_key k xs = xs" and "\<forall>y \<in> set xs. k x \<le> k y" by simp_all
  then show ?case by (cases xs) simp_all
qed simp

lemma sort_key_idem [simp]: "sort_key k (sort_key k xs) = sort_key k xs"
  by (rule sort_key_sorted) simp

lemma range_key_inj: "range_key a = range_key b \<longleftrightarrow> a = b"
  by (auto simp: range_key_def)

lemma mergeRanges_set [simp]: "set (mergeRanges a b) = set a \<union> set b"
  by (simp add: mergeRanges_def)

lemma mergeRanges_props: "distinct (mergeRanges a b)" "sorted (map range_key (mergeRanges a b))"
  by (simp_all add: mergeRanges_def)

lemma mergeRanges_idem [simp]: "mergeRanges [] (mergeRanges [] xs) = mergeRanges [] xs"
  by (simp add: mergeRanges_def distinct_remdups_id)

lemma remdups_adj_idem: "remdups_adj (remdups_adj xs) = remdups_adj xs"
proof (induction xs rule: remdups_adj.induct)
  case (3 x y xs)
  show ?case
  proof (cases "x = y")
    case False
    obtain zs where "remdups_adj (y # xs) = y # zs" by (metis remdups_adj_Cons_alt)
    with 3(2) [OF False] False show ?thesis by simp
  qed (use 3 in simp)
qed simp_all

lemma sortedUnique_idem [simp]: "sortedUnique (sortedUnique xs) = sortedUnique xs"
proof -
  have "sorted (remdups_adj (sort xs))" by (simp add: sorted_remdups_adj)
  then show ?thesis by (simp add: sortedUnique_def uniqueStrings_def sorted_sort_id remdups_adj_idem)
qed

lemma sortedUnique_perm: "mset xs = mset ys \<Longrightarrow> sortedUnique xs = sortedUnique ys"
  unfolding sortedUnique_def by (metis properties_for_sort mset_sort sorted_sort)

text \<open>The order \<open>lessRange\<close> is the order of the keys.\<close>

lemma lessRange_key: "lessRange a b \<longleftrightarrow> range_key a < range_key b"
  by (auto simp: lessRange_def range_key_def)

section \<open>Order independence\<close>

lemma diagnostic_key_inj: "inj_on diagnostic_key A"
proof (rule inj_onI)
  fix a b
  assume "diagnostic_key a = diagnostic_key b"
  moreover have "category_text x = category_text y \<longleftrightarrow> x = y" for x y
    by (cases x; cases y) simp_all
  ultimately show "a = b" by (simp add: diagnostic_key_def)
qed

lemma node_key_inj: "distinct (map ID ns) \<Longrightarrow> inj_on node_key (set ns)"
  unfolding node_key_def by (auto simp: inj_on_def distinct_map)

lemma edges_perm:
  assumes "mset es = mset es'" and "distinct (map edge_key es')"
  shows "sort_key edge_key (map (canonical_edge E) es) = sort_key edge_key (map (canonical_edge E) es')"
proof (rule sort_key_perm)
  show "mset (map (canonical_edge E) es) = mset (map (canonical_edge E) es')" by (simp add: assms(1))
  have "edge_key (canonical_edge E e) = edge_key e" for e by (simp add: edge_key_def canonical_edge_def)
  then show "inj_on edge_key (set (map (canonical_edge E) es'))"
    using assms(2) by (auto simp: inj_on_def distinct_map)
qed

lemma Canonicalize_lists_eq:
  "canonical_lists E r = canonical_lists E r' \<Longrightarrow> Canonicalize E r = Canonicalize E r'"
  by (simp add: Canonicalize_def)

text \<open>
  C24. The canonical form of a result whose node identifiers and whose edges are distinct, as those of a
  traversal are, does not depend on the order of its nodes, edges, targets and diagnostics, so it is the same for every order in which the runtime iterates the map of seen nodes.
\<close>

theorem Canonicalize_order:
  assumes "mset ns = mset (Nodes r)" "distinct (map ID (Nodes r))" "mset es = mset (Edges r)"
    "distinct (map edge_key (Edges r))" "mset ts = mset (Targets r)" "mset ds = mset (Diagnostics r)"
  shows "Canonicalize E (r\<lparr>Nodes := ns, Edges := es, Targets := ts, Diagnostics := ds\<rparr>) = Canonicalize E r"
proof (rule Canonicalize_lists_eq)
  have "sort_key node_key ns = sort_key node_key (Nodes r)"
    by (rule sort_key_perm [OF assms(1) node_key_inj [OF assms(2)]])
  moreover have "sort_key diagnostic_key ds = sort_key diagnostic_key (Diagnostics r)"
    by (rule sort_key_perm [OF assms(6) diagnostic_key_inj])
  moreover note edges_perm [OF assms(3,4)] sortedUnique_perm [OF assms(5)]
  ultimately show "canonical_lists E (r\<lparr>Nodes := ns, Edges := es, Targets := ts, Diagnostics := ds\<rparr>) = canonical_lists E r"
    by (simp add: canonical_lists_def)
qed

definition sample_env :: env where
  "sample_env = \<lparr>Sha = (\<lambda>s. ''0''), AbsURL = (\<lambda>u. u \<noteq> ''''), LowerURL = id\<rparr>"

definition sample_range :: Range where
  "sample_range = \<lparr>Start = \<lparr>Line = 0, Character = 0\<rparr>, End = \<lparr>Line = 1, Character = 0\<rparr>\<rparr>"

definition sample_node :: "string \<Rightarrow> Node" where
  "sample_node i = \<lparr>Name = i, Kind = 12, Detail = '''', URI = ''file:///a'', IRange = sample_range,
     SelectionRange = sample_range, Data = '''', ID = i\<rparr>"

lemma Canonicalize_order_witness:
  "Canonicalize sample_env ((emptyResult SchemaVersionV3)\<lparr>Nodes := [sample_node ''b'', sample_node ''a''], Edges := [],
      Targets := [''b'', ''a''], Diagnostics := []\<rparr>)
   = Canonicalize sample_env ((emptyResult SchemaVersionV3)\<lparr>Nodes := [sample_node ''a'', sample_node ''b''],
      Targets := [''a'', ''b'']\<rparr>)"
  using Canonicalize_order [of "[sample_node ''b'', sample_node ''a'']"
      "(emptyResult SchemaVersionV3)\<lparr>Nodes := [sample_node ''a'', sample_node ''b''], Targets := [''a'', ''b'']\<rparr>"
      "[]" "[''b'', ''a'']" "[]" sample_env]
  by (simp add: emptyResult_def sample_node_def)

section \<open>Idempotence\<close>

lemma canonical_edge_idem [simp]: "canonical_edge E (canonical_edge E e) = canonical_edge E e"
  by (simp add: canonical_edge_def)

lemma canonical_seed_idem [simp]: "canonical_seed (canonical_seed s) = canonical_seed s"
  by (simp add: canonical_seed_def)

lemma map_sort_key:
  assumes "\<And>x. k (f x) = k x"
  shows "map f (sort_key k xs) = sort_key k (map f xs)"
proof -
  have ins: "map f (insort_key k x ys) = insort_key k (f x) (map f ys)" for x ys
    by (induction ys) (simp_all add: assms)
  show ?thesis by (induction xs) (simp_all add: ins)
qed

lemma canonical_preparation_idem [simp]: "canonical_preparation (canonical_preparation p) = canonical_preparation p"
proof -
  let ?f = "\<lambda>d. d\<lparr>PreparedItemIDs := sortedUnique (PreparedItemIDs d)\<rparr>"
  have "map ?f (sort_key disposition_key (map ?f (Dispositions p))) = sort_key disposition_key (map ?f (Dispositions p))"
    by (subst map_sort_key) (simp_all add: disposition_key_def comp_def)
  then show ?thesis by (simp add: canonical_preparation_def)
qed

lemma canonical_slice_idem [simp]: "canonical_slice (canonical_slice s) = canonical_slice s"
  by (simp add: canonical_slice_def option.map_comp comp_def)

lemma provenance_idem [simp]:
  "terminal_provenance (terminal_provenance b) = terminal_provenance b"
  "frontier_provenance (frontier_provenance b) = frontier_provenance b"
  "boundary_key (terminal_provenance b) = boundary_key b" "boundary_key (frontier_provenance b) = boundary_key b"
  by (simp_all add: terminal_provenance_def frontier_provenance_def boundary_key_def boundaryProvenance_def)

lemma canonical_lists_idem:
  assumes "SiblingCandidates r = []" "DispatchRelationships r = []"
  shows "canonical_lists E (canonical_lists E r) = canonical_lists E r"
proof -
  have "edge_key (canonical_edge E e) = edge_key e" for e by (simp add: edge_key_def canonical_edge_def)
  moreover have "Label (canonical_seed s) = Label s" for s by (simp add: canonical_seed_def)
  ultimately show ?thesis using assms
    by (simp add: canonical_lists_def map_sort_key comp_def option.map_comp)
qed

lemma canonical_lists_updates [simp]:
  "canonical_lists E (r\<lparr>RSummary := a\<rparr>) = (canonical_lists E r)\<lparr>RSummary := a\<rparr>"
  "canonical_lists E (r\<lparr>Quality := q\<rparr>) = (canonical_lists E r)\<lparr>Quality := q\<rparr>"
  by (simp_all add: canonical_lists_def)

lemma successes_updates [simp]:
  "canonicalIncomingRequestSuccesses (r\<lparr>RSummary := a\<rparr>) = canonicalIncomingRequestSuccesses r"
  "canonicalIncomingRequestSuccesses (r\<lparr>Quality := q\<rparr>) = canonicalIncomingRequestSuccesses r"
  by (simp_all add: canonicalIncomingRequestSuccesses_def)

lemma canonical_summary_keeps:
  "canonical_lists E r = r \<Longrightarrow> canonical_lists E (canonical_summary r) = canonical_summary r"
  "canonical_lists E r = r \<Longrightarrow> canonical_lists E (canonical_quality E r) = canonical_quality E r"
  "canonical_summary (canonical_summary r) = canonical_summary r"
  "canonical_summary (canonical_quality E (canonical_summary r)) = canonical_quality E (canonical_summary r)"
  by (simp_all add: canonical_summary_def canonical_quality_def Let_def)

lemma canonical_quality_idem: "canonical_quality E (canonical_quality E r) = canonical_quality E r"
  by (simp add: canonical_quality_def Let_def canonicalTraversalComplete_def)

lemma canonical_schema [simp]:
  "SchemaVersion (canonical_summary r) = SchemaVersion r" "SchemaVersion (canonical_quality E r) = SchemaVersion r"
  by (simp_all add: canonical_summary_def canonical_quality_def Let_def)

lemma canonical_tail:
  assumes "canonical_lists E l = l"
  shows "Canonicalize E (Canonicalize E l) = Canonicalize E l"
proof (cases "SchemaVersion l = SchemaVersionV1")
  case True
  have "Canonicalize E l = canonical_summary l" using assms True by (simp add: Canonicalize_def)
  then show ?thesis using assms True by (simp add: Canonicalize_def canonical_summary_keeps)
next
  case False
  have "Canonicalize E l = canonical_quality E (canonical_summary l)"
    using assms False by (simp add: Canonicalize_def)
  then show ?thesis using assms False
    by (simp add: Canonicalize_def canonical_summary_keeps canonical_quality_idem)
qed

text \<open>
  C25. Canonicalizing a canonical result changes nothing, for results without sibling candidates and
  dispatch relationships.
\<close>

theorem Canonicalize_idem:
  assumes "SiblingCandidates r = []" "DispatchRelationships r = []"
  shows "Canonicalize E (Canonicalize E r) = Canonicalize E r"
proof -
  let ?l = "canonical_lists E r"
  have l: "canonical_lists E ?l = ?l" by (rule canonical_lists_idem [OF assms])
  then have "Canonicalize E r = Canonicalize E ?l" by (intro Canonicalize_lists_eq) simp
  with canonical_tail [OF l] show ?thesis by simp
qed

lemma Canonicalize_idem_witness:
  "Canonicalize sample_env (Canonicalize sample_env ((emptyResult SchemaVersionV3)\<lparr>Nodes := [sample_node ''b'', sample_node ''a'']\<rparr>))
   = Canonicalize sample_env ((emptyResult SchemaVersionV3)\<lparr>Nodes := [sample_node ''b'', sample_node ''a'']\<rparr>)"
  by (rule Canonicalize_idem) (simp_all add: emptyResult_def)

section \<open>Merging\<close>

definition sites :: "Edge list \<Rightarrow> string \<times> string \<Rightarrow> Range set" where
  "sites es k = (\<Union>e \<in> {e \<in> set es. edge_key e = k}. set (CallSites e))"

lemma merge_into_keys:
  "edge_key ` set (merge_into es e) = insert (edge_key e) (edge_key ` set es)"
  by (induction es) (auto simp: edge_key_def)

lemma merge_into_distinct: "distinct (map edge_key es) \<Longrightarrow> distinct (map edge_key (merge_into es e))"
proof (induction es)
  case (Cons x es)
  show ?case
  proof (cases "edge_key x = edge_key e")
    case True
    with Cons.prems show ?thesis by (auto simp: edge_key_def)
  next
    case False
    then have m: "merge_into (x # es) e = x # merge_into es e" by (auto simp: edge_key_def)
    have "edge_key x \<notin> edge_key ` set (merge_into es e)" using False Cons.prems by (simp add: merge_into_keys)
    with Cons m show ?thesis by simp
  qed
qed (simp add: edge_key_def)

lemma merge_into_sites: "sites (merge_into es e) k = sites es k \<union> (if edge_key e = k then set (CallSites e) else {})"
proof (induction es)
  case Nil
  then show ?case by (auto simp: sites_def edge_key_def)
next
  case (Cons x es)
  have split: "sites (y # ys) k = (if edge_key y = k then set (CallSites y) else {}) \<union> sites ys k" for y ys
    by (auto simp: sites_def)
  show ?case
  proof (cases "edge_key x = edge_key e")
    case True
    then have "merge_into (x # es) e = x\<lparr>CallSites := mergeRanges (CallSites x) (CallSites e)\<rparr> # es" by (simp add: edge_key_def)
    with True show ?thesis by (auto simp: split edge_key_def)
  next
    case False
    then have "merge_into (x # es) e = x # merge_into es e" by (auto simp: edge_key_def)
    with Cons show ?thesis by (auto simp: split)
  qed
qed

text \<open>The edges after a merge of \<open>es\<close> into \<open>acc\<close>.\<close>

definition merged :: "Edge list \<Rightarrow> Edge list \<Rightarrow> Edge list \<Rightarrow> bool" where
  "merged acc es out \<longleftrightarrow> distinct (map edge_key out) \<and> edge_key ` set out = edge_key ` set acc \<union> edge_key ` set es \<and>
     (\<forall>k. sites out k = sites acc k \<union> sites es k)"

lemma fold_MergeEdge:
  assumes "distinct (map edge_key acc)"
  shows "merged acc es (fold (\<lambda>e es. MergeEdge E es e) es acc)"
  using assms
proof (induction es arbitrary: acc)
  case Nil
  then show ?case by (simp add: merged_def sites_def)
next
  case (Cons e es)
  let ?e = "e\<lparr>ERelationID := callRelationID E (CallerNodeID e) (CalleeNodeID e)\<rparr>"
  have k: "edge_key ?e = edge_key e" "CallSites ?e = CallSites e" by (simp_all add: edge_key_def)
  have "merged (merge_into acc ?e) es (fold (\<lambda>e es. MergeEdge E es e) (e # es) acc)"
    using Cons.IH [OF merge_into_distinct [OF Cons.prems, of ?e]] by (simp add: MergeEdge_def)
  moreover have "sites (e # es) k = (if edge_key e = k then set (CallSites e) else {}) \<union> sites es k" for k
    by (auto simp: sites_def)
  ultimately show ?case unfolding merged_def merge_into_keys merge_into_sites k by auto
qed

lemma merge_nodes_edges [simp]:
  "Edges (snd (merge_nodes ns nodes out)) = Edges out"
  "SiblingCandidates (snd (merge_nodes ns nodes out)) = SiblingCandidates out"
  by (induction ns nodes out rule: merge_nodes.induct) (auto split: option.splits)

lemma merge_result_edges:
  "Edges (snd (merge_result E r (nodes, out))) = fold (\<lambda>e es. MergeEdge E es e) (Edges r) (Edges out)"
  by (simp add: merge_result_def Let_def split_beta)

definition all_edges :: "Result list \<Rightarrow> Edge list" where
  "all_edges rs = concat (map Edges rs)"

lemma fold_merge_result_edges:
  assumes "distinct (map edge_key (Edges out))"
  shows "merged (Edges out) (all_edges rs) (Edges (snd (fold (merge_result E) rs (nodes, out))))"
  using assms
proof (induction rs arbitrary: nodes out)
  case Nil
  then show ?case by (simp add: merged_def all_edges_def sites_def)
next
  case (Cons r rs)
  let ?s = "merge_result E r (nodes, out)"
  have m: "merged (Edges out) (Edges r) (Edges (snd ?s))"
    unfolding merge_result_edges by (rule fold_MergeEdge [OF Cons.prems])
  then have "distinct (map edge_key (Edges (snd ?s)))" by (simp add: merged_def)
  from Cons.IH [OF this, of "fst ?s"]
  have "merged (Edges (snd ?s)) (all_edges rs) (Edges (snd (fold (merge_result E) (r # rs) (nodes, out))))" by simp
  moreover have "sites (all_edges (r # rs)) k = sites (Edges r) k \<union> sites (all_edges rs) k" for k
    by (auto simp: sites_def all_edges_def)
  moreover have "edge_key ` set (all_edges (r # rs)) = edge_key ` set (Edges r) \<union> edge_key ` set (all_edges rs)"
    by (auto simp: all_edges_def)
  ultimately show ?case using m unfolding merged_def by (simp add: Un_assoc)
qed

lemma Canonicalize_fields:
  "Nodes (Canonicalize E r) = sort_key node_key (Nodes r)"
  "Edges (Canonicalize E r) = sort_key edge_key (map (canonical_edge E) (Edges r))"
  by (simp_all add: Canonicalize_def Let_def canonical_quality_def canonical_summary_def canonical_lists_def)

text \<open>
  C26. A merge of results has one edge per pair of caller and callee that some result relates, its call
  sites are the call sites any result reports for that pair, without repetition and in source order, and
  the edges are in the order of their keys.
\<close>

theorem MergeResults_edges:
  "(let es = Edges (MergeResults E rs) in
     sorted_wrt (<) (map edge_key es) \<and> edge_key ` set es = edge_key ` set (all_edges rs) \<and>
     (\<forall>k. sites es k = sites (all_edges rs) k) \<and>
     list_all (\<lambda>e. distinct (CallSites e) \<and> sorted (map range_key (CallSites e)) \<and>
        ERelationID e = callRelationID E (CallerNodeID e) (CalleeNodeID e)) es)"
proof -
  define out where "out = snd (fold (merge_result E) rs ([], emptyResult ''''))"
  define es where "es = Edges (MergeResults E rs)"
  have es: "es = sort_key edge_key (map (canonical_edge E) (Edges out))"
    by (simp add: es_def MergeResults_def out_def Canonicalize_fields split_beta)
  have "distinct (map edge_key (Edges (emptyResult '''')))" by (simp add: emptyResult_def)
  from fold_merge_result_edges [OF this, of rs E "[]"]
  have m: "merged [] (all_edges rs) (Edges out)" by (simp add: out_def emptyResult_def)
  have k: "edge_key (canonical_edge E e) = edge_key e" for e by (simp add: edge_key_def canonical_edge_def)
  have keys: "edge_key ` set es = edge_key ` set (all_edges rs)"
    using m by (simp add: es merged_def image_image k)
  have "distinct (map edge_key (map (canonical_edge E) (Edges out)))" using m by (simp add: merged_def comp_def k)
  then have "distinct (map edge_key es)" unfolding es by (metis distinct_map distinct_sort set_sort)
  moreover have "sorted (map edge_key es)" by (simp add: es)
  ultimately have s: "sorted_wrt (<) (map edge_key es)" by (simp add: strict_sorted_iff)
  have "sites es k = sites (Edges out) k" for k
    unfolding sites_def es by (auto simp: k canonical_edge_def [of E] edge_key_def)
  then have si: "\<forall>k. sites es k = sites (all_edges rs) k" using m by (simp add: merged_def sites_def [of "[]"])
  have "list_all (\<lambda>e. distinct (CallSites e) \<and> sorted (map range_key (CallSites e)) \<and>
      ERelationID e = callRelationID E (CallerNodeID e) (CalleeNodeID e)) es"
    by (auto simp: es list_all_iff canonical_edge_def mergeRanges_props)
  with s keys si show ?thesis by (simp add: es_def [symmetric] Let_def)
qed

end
