(* ===== verification/Traverse.thy ===== *)
theory Traverse
  imports Call_Graph
begin

text \<open>
  Package \<open>internal/traverse\<close>: the bounded traversal of incoming calls (\<open>Incoming\<close>, \<open>IncomingPrepared\<close>) and
  the nomination of sibling declarations.

  The language server and the context are parameters. A server may answer the same request differently
  at different times, so \<open>IncomingCalls k\<close> is its behaviour on the \<open>k\<close>-th incoming-calls request of the
  traversal (the state lists the items of the requests made so far), and \<open>CtxErr k\<close> is what \<open>ctx.Err()\<close> returns at the \<open>k\<close>-th iteration of the loop. Whether an error
  \<open>Is\<close> a deadline or a cancellation, and its text, are its only observable parts. The loop ends when the
  queue is empty; a server that reports new callers for ever keeps it running when neither bound is set,
  so it is a \<open>partial_function\<close> and \<^const>\<open>None\<close> stands for not returning.
\<close>

record go_error =
  IsDeadline :: bool
  IsCanceled :: bool
  ErrText :: string

record CallHierarchyItem =
  c_Name :: string
  c_Kind :: int
  c_Tags :: "int list"
  c_Detail :: string
  c_URI :: string
  c_Range :: Range
  c_SelectionRange :: Range
  c_Data :: string

record CallHierarchyIncomingCall =
  From :: CallHierarchyItem
  FromRanges :: "Range list"

datatype DocumentSymbol =
  DocumentSymbol (sym_Name: string) (sym_Detail: string) (sym_Kind: int) (sym_Range: Range)
    (sym_SelectionRange: Range) (sym_Children: "DocumentSymbol list") (sym_Flat: bool) (sym_ContainerName: string)

record Client =
  PrepareCallHierarchy :: "go_error + CallHierarchyItem list"
  IncomingCalls :: "nat \<Rightarrow> CallHierarchyItem \<Rightarrow> go_error + CallHierarchyIncomingCall list \<times> bool"
  SupportsDocumentSymbols :: bool
  DocSymbols :: "nat \<Rightarrow> string \<Rightarrow> go_error + DocumentSymbol list"
  CtxErr :: "nat \<Rightarrow> go_error option"

record SiblingEvidence =
  ev_SeedURI :: string
  ev_SeedLabel :: string
  ev_SeedIdentity :: string
  ev_SourceDigest :: string
  ev_ProviderRef :: string
  ev_Revision :: string
  ev_Custody :: string

record Options =
  o_MaxDepth :: int
  o_MaxNodes :: int
  o_NodeFactory :: "(Item \<Rightarrow> Node) option"
  o_SchemaVersion :: string
  o_IncludeTopmostSiblings :: bool
  o_SiblingEvidence :: SiblingEvidence

definition siblingCustodyEvidence :: "SiblingEvidence \<Rightarrow> SourceCustodyEvidence" where
  "siblingCustodyEvidence ev =
     \<lparr>Class = (if ev_Custody ev = ''VERIFIED_HOST'' then ''VERIFIED_HOST''
               else if ev_Custody ev = ''CALLER_ASSERTED'' \<or> ev_Custody ev = ''CALLER_ASSERTED_LOCAL'' then ''CALLER_ASSERTED_LOCAL''
               else if ev_Custody ev = ''LSP_SUPPLIED'' \<or> ev_Custody ev = ''LSP_SUPPLIED_UNAUTHENTICATED''
                 then ''LSP_SUPPLIED_UNAUTHENTICATED''
               else ''UNKNOWN''),
      SourceContentSHA256 = ev_SourceDigest ev, HostReceiptID = '''', AuthenticatedAnalyzedSourceIdentity = False,
      ClaimCeilingText = ''NO_AUTHENTICATED_ANALYZED_SOURCE_IDENTITY''\<rparr>"

definition rng :: "Range \<Rightarrow> Range" where
  "rng r = \<lparr>Start = \<lparr>Line = Line (Start r), Character = Character (Start r)\<rparr>,
            End = \<lparr>Line = Line (End r), Character = Character (End r)\<rparr>\<rparr>"

definition node :: "CallHierarchyItem \<Rightarrow> (Item \<Rightarrow> Node) \<Rightarrow> Node" where
  "node i factory = factory \<lparr>Name = c_Name i, Kind = c_Kind i, Detail = c_Detail i, URI = c_URI i,
     IRange = rng (c_Range i), SelectionRange = rng (c_SelectionRange i), Data = c_Data i\<rparr>"

definition symbolItem :: "string \<Rightarrow> DocumentSymbol \<Rightarrow> Item" where
  "symbolItem uri s = \<lparr>Name = sym_Name s, Kind = sym_Kind s, Detail = sym_Detail s, URI = uri,
     IRange = rng (sym_Range s), SelectionRange = rng (sym_SelectionRange s), Data = ''''\<rparr>"

section \<open>Siblings\<close>

text \<open>The address of a symbol in the forest stands for the pointer to it; \<open>[]\<close> is the nil parent.\<close>

record declarationT =
  d_symbol :: DocumentSymbol
  d_parent :: "nat list"

function flattenSymbols :: "DocumentSymbol list \<Rightarrow> nat list \<Rightarrow> nat \<Rightarrow> declarationT list" where
  "flattenSymbols [] parent i = []"
| "flattenSymbols (s # ss) parent i =
     \<lparr>d_symbol = s, d_parent = parent\<rparr> # flattenSymbols (sym_Children s) (parent @ [i]) 0
       @ flattenSymbols ss parent (Suc i)"
  by pat_completeness auto
termination
proof (relation "measure (\<lambda>(ss, _, _). size_list size ss)")
  fix s :: DocumentSymbol and ss and parent :: "nat list" and i :: nat
  show "((sym_Children s, parent @ [i], 0), (s # ss, parent, i)) \<in> measure (\<lambda>(ss, _, _). size_list size ss)"
    by (cases s) simp
qed simp_all

definition matchingDeclarations :: "CallHierarchyItem \<Rightarrow> declarationT list \<Rightarrow> declarationT list" where
  "matchingDeclarations seed ds =
     filter (\<lambda>d. c_Kind seed = sym_Kind (d_symbol d) \<and> c_Range seed = sym_Range (d_symbol d) \<and>
                 c_SelectionRange seed = sym_SelectionRange (d_symbol d)) ds"

definition sameDeclaration :: "DocumentSymbol \<Rightarrow> DocumentSymbol \<Rightarrow> bool" where
  "sameDeclaration a b \<longleftrightarrow>
     sym_Kind a = sym_Kind b \<and> sym_Range a = sym_Range b \<and> sym_SelectionRange a = sym_SelectionRange b"

definition callableKind :: "int \<Rightarrow> bool" where
  "callableKind kind \<longleftrightarrow> kind = 6 \<or> kind = 9 \<or> kind = 12"

definition add_diagnostic :: "string \<Rightarrow> string \<Rightarrow> string \<Rightarrow> string \<Rightarrow> Result \<Rightarrow> Result" where
  "add_diagnostic phase meth nid msg r = r\<lparr>Diagnostics := Diagnostics r @
     [\<lparr>Phase = phase, Method = meth, DNodeID = nid, Category = NoCategory, DMessage = msg\<rparr>]\<rparr>"

definition boundary :: "string \<Rightarrow> Reason \<Rightarrow> string \<Rightarrow> Boundary" where
  "boundary nid reason msg = \<lparr>BNodeID = nid, BReason = reason, BMessage = msg, BProvenance = ''''\<rparr>"

definition add_terminal :: "Boundary \<Rightarrow> Result \<Rightarrow> Result" where
  "add_terminal b r = r\<lparr>Terminals := Terminals r @ [b]\<rparr>"

definition add_frontier :: "Boundary list \<Rightarrow> Result \<Rightarrow> Result" where
  "add_frontier bs r = r\<lparr>Frontier := Frontier r @ bs\<rparr>"

definition incomplete :: "Result \<Rightarrow> Result" where
  "incomplete r = r\<lparr>RSummary := (RSummary r)\<lparr>Complete := False\<rparr>\<rparr>"

definition truncated :: "Result \<Rightarrow> Result" where
  "truncated r = r\<lparr>RSummary := (RSummary r)\<lparr>Complete := False, Truncated := True\<rparr>\<rparr>"

definition documentSymbolMethod :: string where "documentSymbolMethod = ''textDocument/documentSymbol''"
definition prepareMethod :: string where "prepareMethod = ''textDocument/prepareCallHierarchy''"
definition incomingMethod :: string where "incomingMethod = ''callHierarchy/incomingCalls''"

definition siblingCandidate :: "SiblingEvidence \<Rightarrow> string \<Rightarrow> Node \<Rightarrow> Node \<Rightarrow> SiblingCandidate" where
  "siblingCandidate ev uri origin cand =
     \<lparr>SRelationID = '''', SExecutionBundleID = '''', SeedURI = uri, SeedLabel = ev_SeedLabel ev, SeedLabels = [],
      Origin = origin, Declaration = None, Candidate = cand, Direction = ''SIBLING'', SKind = ''TOPMOST_SIBLING'',
      SeedIdentity = ev_SeedIdentity ev, ProviderEvidence = Some [ev_ProviderRef ev],
      LSPEvidence = Some [documentSymbolMethod, prepareMethod],
      SourceDigests = Some [''candidate='' @ ev_SourceDigest ev, ''origin='' @ ev_SourceDigest ev],
      Custody = siblingCustodyEvidence ev\<rparr>"

text \<open>The body of the loop over the seeds.\<close>

definition seed_siblings :: "env \<Rightarrow> (Item \<Rightarrow> Node) \<Rightarrow> SiblingEvidence \<Rightarrow> CallHierarchyItem
    \<Rightarrow> go_error + DocumentSymbol list \<Rightarrow> Result \<Rightarrow> Result" where
  "seed_siblings E newNode ev seed answer r =
     (case answer of
        Inl err \<Rightarrow> add_diagnostic ''siblings'' documentSymbolMethod '''' (ErrText err) r
      | Inr symbols \<Rightarrow>
          (let flat = flattenSymbols symbols [] 0 in
           case matchingDeclarations seed flat of
             [m] \<Rightarrow>
               if \<not> callableKind (sym_Kind (d_symbol m)) then
                 add_diagnostic ''siblings'' documentSymbolMethod '''' ''UNSUPPORTED_SEED_DECLARATION_KIND'' r
               else
                 (let origin = newNode (symbolItem (c_URI seed) (d_symbol m));
                      chosen = filter (\<lambda>d. d_parent d = d_parent m \<and> callableKind (sym_Kind (d_symbol d)) \<and>
                                 \<not> sameDeclaration (d_symbol d) (d_symbol m)) flat;
                      candidates = filter (\<lambda>c. ValidateItem E c = None)
                                     (map (\<lambda>d. newNode (symbolItem (c_URI seed) (d_symbol d))) chosen)
                  in r\<lparr>SiblingCandidates := SiblingCandidates r @ map (siblingCandidate ev (c_URI seed) origin) candidates\<rparr>)
           | [] \<Rightarrow> add_diagnostic ''siblings'' documentSymbolMethod '''' ''UNRESOLVED_SEED_DECLARATION'' r
           | _ \<Rightarrow> add_diagnostic ''siblings'' documentSymbolMethod '''' ''AMBIGUOUS_SEED_DECLARATION'' r))"

fun siblings_loop :: "env \<Rightarrow> (Item \<Rightarrow> Node) \<Rightarrow> SiblingEvidence \<Rightarrow> Client \<Rightarrow> nat \<Rightarrow> CallHierarchyItem list \<Rightarrow> Result \<Rightarrow> Result" where
  "siblings_loop E newNode ev client k [] r = r"
| "siblings_loop E newNode ev client k (seed # seeds) r =
     siblings_loop E newNode ev client (Suc k) seeds
       (seed_siblings E newNode ev seed (DocSymbols client k (c_URI seed)) r)"

section \<open>The traversal\<close>

record queued =
  q_item :: CallHierarchyItem
  q_node :: Node
  q_depth :: int

record tstate =
  result :: Result
  seen :: "(string, Node) go_map"
  expanded :: "string set"
  edgeIndex :: "string \<times> string \<rightharpoonup> nat"
  queue :: "queued list"
  requests :: "CallHierarchyItem list"
  turns :: nat

fun enqueue_items :: "env \<Rightarrow> (Item \<Rightarrow> Node) \<Rightarrow> CallHierarchyItem list \<Rightarrow> tstate \<Rightarrow> tstate" where
  "enqueue_items E newNode [] st = st"
| "enqueue_items E newNode (item # items) st =
     enqueue_items E newNode items
       (let n = node item newNode in
        case ValidateItem E n of
          Some err \<Rightarrow>
            st\<lparr>result := incomplete (add_diagnostic ''prepare'' prepareMethod (ID n) err
                 (add_terminal (boundary '''' InvalidServerResponse err) (result st)))\<rparr>
        | None \<Rightarrow>
            (let st1 = (if map_of (seen st) (ID n) = None
                        then st\<lparr>seen := AList.update (ID n) n (seen st),
                                queue := queue st @ [\<lparr>q_item = item, q_node = n, q_depth = 0\<rparr>]\<rparr>
                        else st)
             in st1\<lparr>result := (result st1)\<lparr>Targets := Targets (result st1) @ [ID n]\<rparr>\<rparr>))"

definition queue_key :: "queued \<Rightarrow> int \<times> string" where
  "queue_key q = (q_depth q, ID (q_node q))"

definition omittedCallerBoundary :: "env \<Rightarrow> string \<Rightarrow> string list \<Rightarrow> Boundary" where
  "omittedCallerBoundary E nid reported =
     (let out = uniqueStrings (sort reported);
          digest = Sha E (''['' @ json_join (map json_string out) @ '']'')
      in boundary nid MaxNodes
           (''callers omitted by node bound: reports='' @ dec (length reported) @ '' unique_callers='' @
            dec (length out) @ '' ids_digest=sha256:'' @ digest @ '' identities=OMITTED_FROM_BOUNDED_FRONTIER''))"

text \<open>A caller the server response does not support: a terminal and a diagnostic.\<close>

definition reject_caller :: "queued \<Rightarrow> Node \<Rightarrow> string \<Rightarrow> tstate \<Rightarrow> tstate" where
  "reject_caller q caller err st =
     st\<lparr>result := incomplete (add_diagnostic ''traverse'' incomingMethod (ID (q_node q)) err
          (add_terminal (boundary (ID (q_node q)) InvalidServerResponse
             (''rejected incoming caller '' @ ID caller @ '': '' @ err)) (result st)))\<rparr>"

text \<open>Record a call: a new edge, or call sites added to the edge that exists.\<close>

definition record_edge :: "queued \<Rightarrow> Node \<Rightarrow> Range list \<Rightarrow> tstate \<Rightarrow> tstate" where
  "record_edge q caller ranges st =
     (let key = (ID caller, ID (q_node q)); r = result st in
      case edgeIndex st key of
        Some i \<Rightarrow>
          st\<lparr>result := r\<lparr>Edges := (Edges r)[i := (Edges r ! i)\<lparr>CallSites := CallSites (Edges r ! i) @ ranges\<rparr>]\<rparr>\<rparr>
      | None \<Rightarrow>
          st\<lparr>edgeIndex := (edgeIndex st)(key \<mapsto> length (Edges r)),
             result := r\<lparr>Edges := Edges r @ [\<lparr>ERelationID = '''', EExecutionBundleID = '''', CallerNodeID = ID caller,
                                          CalleeNodeID = ID (q_node q), CallSites = ranges\<rparr>],
                        Quality := (if URI caller \<noteq> URI (q_node q)
                                    then (Quality r)\<lparr>CrossFileEdges := CrossFileEdges (Quality r) + 1\<rparr> else Quality r)\<rparr>\<rparr>)"

text \<open>The body of the loop over the reported calls; the second component collects the omitted callers.\<close>

definition add_call :: "env \<Rightarrow> (Item \<Rightarrow> Node) \<Rightarrow> Options \<Rightarrow> queued \<Rightarrow> CallHierarchyIncomingCall
    \<Rightarrow> tstate \<times> string list \<Rightarrow> tstate \<times> string list" where
  "add_call E newNode opts q call s =
     (case s of (st, omitted) \<Rightarrow>
       (let caller = node (From call) newNode in
        case ValidateItem E caller of
          Some err \<Rightarrow> (reject_caller q caller err st, omitted)
        | None \<Rightarrow>
            (case find (\<lambda>r. ValidateRange (rng r) \<noteq> None) (FromRanges call) of
               Some bad \<Rightarrow> (reject_caller q caller (the (ValidateRange (rng bad))) st, omitted)
             | None \<Rightarrow>
                 (let st1 = (if \<exists>r \<in> set (FromRanges call). \<not> RangeContains (rng (c_Range (From call))) (rng r)
                             then st\<lparr>result := add_diagnostic ''traverse'' incomingMethod (ID caller)
                                         ''SERVER_CALL_SITE_OUTSIDE_CALLER_RANGE'' (result st)\<rparr>
                             else st)
                  in case map_of (seen st1) (ID caller) of
                       Some existing \<Rightarrow>
                         if \<not> SameNodeIdentity existing caller
                         then (st1\<lparr>result := incomplete (add_terminal (boundary (ID caller) NodeIDCollision '''') (result st1))\<rparr>, omitted)
                         else (record_edge q caller (map rng (FromRanges call)) st1, omitted)
                     | None \<Rightarrow>
                         if o_MaxNodes opts > 0 \<and> int (length (seen st1)) \<ge> o_MaxNodes opts
                         then (st1\<lparr>result := truncated (result st1)\<rparr>, omitted @ [ID caller])
                         else (record_edge q caller (map rng (FromRanges call))
                                 (st1\<lparr>seen := AList.update (ID caller) caller (seen st1),
                                      queue := queue st1 @ [\<lparr>q_item = From call, q_node = caller, q_depth = q_depth q + 1\<rparr>]\<rparr>),
                               omitted)))))"

definition add_calls :: "env \<Rightarrow> (Item \<Rightarrow> Node) \<Rightarrow> Options \<Rightarrow> queued \<Rightarrow> CallHierarchyIncomingCall list \<Rightarrow> tstate \<Rightarrow> tstate" where
  "add_calls E newNode opts q calls st =
     (case fold (add_call E newNode opts q) calls (st, []) of (st', omitted) \<Rightarrow>
        if omitted \<noteq> []
        then st'\<lparr>result := add_frontier [omittedCallerBoundary E (ID (q_node q)) omitted] (result st')\<rparr>
        else st')"

text \<open>The reason a failed request is reported with; a cancellation overrides a deadline.\<close>

definition failure_reason :: "go_error \<Rightarrow> Reason" where
  "failure_reason err = (if IsCanceled err then Cancelled else if IsDeadline err then RequestTimeout else ServerError)"

definition expand :: "env \<Rightarrow> (Item \<Rightarrow> Node) \<Rightarrow> Options \<Rightarrow> Client \<Rightarrow> queued \<Rightarrow> tstate \<Rightarrow> tstate" where
  "expand E newNode opts client q st =
     (let nid = ID (q_node q);
          answer = IncomingCalls client (length (requests st)) (q_item q);
          st1 = st\<lparr>expanded := insert nid (expanded st), requests := requests st @ [q_item q]\<rparr>
      in case answer of
           Inl err \<Rightarrow>
             st1\<lparr>result := incomplete (add_diagnostic ''traverse'' incomingMethod nid (ErrText err)
                   (add_terminal (boundary nid (failure_reason err) (ErrText err)) (result st1)))\<rparr>
         | Inr (calls, wasNull) \<Rightarrow>
             (let r = result st1;
                  st2 = st1\<lparr>result := r\<lparr>Quality := (Quality r)\<lparr>IncomingRequestSuccesses := IncomingRequestSuccesses (Quality r) + 1\<rparr>\<rparr>\<rparr>
              in if wasNull then st2\<lparr>result := add_terminal (boundary nid IncomingReturnedNull '''') (result st2)\<rparr>
                 else if calls = [] then st2\<lparr>result := add_terminal (boundary nid ServerReportedNoIncoming '''') (result st2)\<rparr>
                 else add_calls E newNode opts q calls st2))"

text \<open>One iteration of the main loop; the first component says that the loop breaks.\<close>

definition turn :: "env \<Rightarrow> (Item \<Rightarrow> Node) \<Rightarrow> Options \<Rightarrow> Client \<Rightarrow> tstate \<Rightarrow> bool \<times> tstate" where
  "turn E newNode opts client st =
     (let sorted_queue = sort_key queue_key (queue st);
          q = hd sorted_queue;
          st1 = st\<lparr>queue := tl sorted_queue, turns := Suc (turns st)\<rparr>;
          nid = ID (q_node q)
      in case CtxErr client (turns st) of
           Some err \<Rightarrow>
             (let reason = (if IsDeadline err then GlobalTimeout else Cancelled);
                  pending = filter (\<lambda>p. ID (q_node p) \<notin> expanded st1) (queue st1)
              in (True, st1\<lparr>result := add_frontier
                    (boundary nid reason (ErrText err) # map (\<lambda>p. boundary (ID (q_node p)) reason (ErrText err)) pending)
                    (incomplete (result st1))\<rparr>))
         | None \<Rightarrow>
             if nid \<in> expanded st1 then (False, st1)
             else if o_MaxDepth opts > 0 \<and> q_depth q \<ge> o_MaxDepth opts
               then (False, st1\<lparr>result := truncated (add_frontier [boundary nid MaxDepth ''''] (result st1))\<rparr>)
             else (False, expand E newNode opts client q st1))"

partial_function (option) traverse_loop :: "env \<Rightarrow> (Item \<Rightarrow> Node) \<Rightarrow> Options \<Rightarrow> Client \<Rightarrow> tstate \<Rightarrow> tstate option" where
  "traverse_loop E newNode opts client st =
     (if queue st = [] then Some st
      else (let t = turn E newNode opts client st in
            if fst t then Some (snd t) else traverse_loop E newNode opts client (snd t)))"

declare traverse_loop.simps [code]

definition prepare_failed :: "go_error \<Rightarrow> Result \<Rightarrow> Result" where
  "prepare_failed err r =
     (let r1 = incomplete (add_diagnostic ''prepare'' prepareMethod '''' (ErrText err) r) in
      if IsDeadline err then add_terminal (boundary '''' RequestTimeout (ErrText err)) r1
      else if IsCanceled err then add_terminal (boundary '''' Cancelled (ErrText err)) r1
      else r1)"

definition start_state :: "Result \<Rightarrow> tstate" where
  "start_state r = \<lparr>result = r, seen = [], expanded = {}, edgeIndex = Map.empty, queue = [], requests = [], turns = 0\<rparr>"

definition newNode_of :: "env \<Rightarrow> Options \<Rightarrow> Item \<Rightarrow> Node" where
  "newNode_of E opts = (case o_NodeFactory opts of None \<Rightarrow> NewNode E | Some f \<Rightarrow> f)"

text \<open>
  \<open>Incoming\<close>: \<open>Incoming_run\<close> gives the result together with the items of the incoming-calls requests that
  were made for it, in order. The collected nodes are appended in map order by the Go code and sorted by
  \<open>Canonicalize\<close>.
\<close>

definition Incoming_run :: "env \<Rightarrow> Client \<Rightarrow> Options \<Rightarrow> (Result \<times> CallHierarchyItem list) option" where
  "Incoming_run E client opts =
     (let version = (if o_SchemaVersion opts = '''' then SchemaVersionV3 else o_SchemaVersion opts);
          r0 = emptyResult version;
          newNode = newNode_of E opts
      in case PrepareCallHierarchy client of
           Inl err \<Rightarrow> Some (Canonicalize E (prepare_failed err r0), [])
         | Inr items \<Rightarrow>
             (let r1 = r0\<lparr>Quality := (Quality r0)\<lparr>PrepareSucceeded := True\<rparr>\<rparr>;
                  r2 = (if o_IncludeTopmostSiblings opts \<and> SupportsDocumentSymbols client
                        then siblings_loop E newNode (o_SiblingEvidence opts) client 0 items r1 else r1)
              in if items = [] then Some (Canonicalize E (add_terminal (boundary '''' PrepareReturnedNoItem '''') r2), [])
                 else
                   map_option
                     (\<lambda>st. (Canonicalize E ((result st)\<lparr>Nodes := Nodes (result st) @ map snd (seen st)\<rparr>), requests st))
                     (traverse_loop E newNode opts client (enqueue_items E newNode items (start_state r2)))))"

definition Incoming :: "env \<Rightarrow> Client \<Rightarrow> Options \<Rightarrow> Result option" where
  "Incoming E client opts = map_option fst (Incoming_run E client opts)"

definition IncomingPrepared :: "env \<Rightarrow> Client \<Rightarrow> CallHierarchyItem list \<Rightarrow> Options \<Rightarrow> Result option" where
  "IncomingPrepared E client items opts = Incoming E (client\<lparr>PrepareCallHierarchy := Inr items\<rparr>) opts"

end
