(* ===== verification/Traverse_Properties.thy ===== *)
theory Traverse_Properties
  imports Traverse Call_Graph_Properties "HOL-Library.Sublist"
begin

text \<open>
  Correctness of the traversal of incoming calls. The state of the loop is abstracted to what the
  correctness argument needs (\<open>view\<close>); every operation of the model is shown to have a simple effect on the
  abstraction, and the invariant \<open>view_ok\<close> is proved for these effects.
\<close>

section \<open>Abstraction\<close>

record aview =
  a_seen :: "(string, Node) go_map"
  a_queue :: "queued list"
  a_expanded :: "string set"
  a_requests :: "CallHierarchyItem list"
  a_targets :: "string set"
  a_edges :: "(string \<times> string) set"
  a_frontier :: "string set"
  a_hurt :: bool

text \<open>A result that cannot be reported as complete: a frontier, or an end that is not a natural one.\<close>

definition hurt :: "Result \<Rightarrow> bool" where
  "hurt r \<longleftrightarrow> Frontier r \<noteq> [] \<or> (\<exists>b \<in> set (Terminals r). BReason b \<notin> set naturalReasons)"

definition view :: "tstate \<Rightarrow> aview" where
  "view st = \<lparr>a_seen = seen st, a_queue = queue st, a_expanded = expanded st, a_requests = requests st,
     a_targets = set (Targets (result st)), a_edges = edge_key ` set (Edges (result st)),
     a_frontier = BNodeID ` set (Frontier (result st)), a_hurt = hurt (result st)\<rparr>"

definition index_ok :: "tstate \<Rightarrow> bool" where
  "index_ok st \<longleftrightarrow> distinct (map edge_key (Edges (result st))) \<and>
     (\<forall>k i. edgeIndex st k = Some i \<longleftrightarrow> i < length (Edges (result st)) \<and> edge_key (Edges (result st) ! i) = k)"

lemmas effect_defs = add_diagnostic_def add_terminal_def add_frontier_def incomplete_def truncated_def boundary_def

lemma record_edge_view:
  assumes "index_ok st"
  shows "index_ok (record_edge q caller rs st) \<and>
    view (record_edge q caller rs st) = (view st)\<lparr>a_edges := insert (ID caller, ID (q_node q)) (a_edges (view st))\<rparr>"
proof (cases "edgeIndex st (ID caller, ID (q_node q))")
  case None
  let ?es = "Edges (result st)" and ?k = "(ID caller, ID (q_node q))"
  have new: "?k \<notin> edge_key ` set ?es"
  proof
    assume "?k \<in> edge_key ` set ?es"
    then obtain i where "i < length ?es" "edge_key (?es ! i) = ?k" by (metis imageE in_set_conv_nth)
    then have "edgeIndex st ?k = Some i" using assms unfolding index_ok_def by blast
    with None show False by simp
  qed
  let ?e = "\<lparr>ERelationID = '''', EExecutionBundleID = '''', CallerNodeID = ID caller, CalleeNodeID = ID (q_node q), CallSites = rs\<rparr>"
  have ke: "edge_key ?e = ?k" by (simp add: edge_key_def)
  have "((edgeIndex st)(?k \<mapsto> length ?es)) k = Some i \<longleftrightarrow> i < length (?es @ [?e]) \<and> edge_key ((?es @ [?e]) ! i) = k" for k i
  proof (cases "i < length ?es")
    case True
    then have "edge_key (?es ! i) \<noteq> ?k" using new by (metis image_eqI nth_mem)
    moreover have "edgeIndex st k = Some i \<longleftrightarrow> edge_key (?es ! i) = k" using assms True unfolding index_ok_def by blast
    ultimately show ?thesis using True by (auto simp: nth_append)
  next
    case False
    then have "edgeIndex st k \<noteq> Some i" using assms unfolding index_ok_def by blast
    with False ke show ?thesis by (auto simp: nth_append)
  qed
  then have "index_ok (record_edge q caller rs st)"
    using assms None new ke unfolding record_edge_def Let_def index_ok_def by simp
  moreover have "view (record_edge q caller rs st) = (view st)\<lparr>a_edges := insert ?k (a_edges (view st))\<rparr>"
    using None ke by (simp add: record_edge_def Let_def view_def hurt_def)
  ultimately show ?thesis by simp
next
  case (Some i)
  let ?es = "Edges (result st)"
  let ?e = "(?es ! i)\<lparr>CallSites := CallSites (?es ! i) @ rs\<rparr>"
  have i: "i < length ?es" "edge_key (?es ! i) = (ID caller, ID (q_node q))"
    using assms Some by (auto simp: index_ok_def)
  have k: "edge_key ?e = edge_key (?es ! i)" by (simp add: edge_key_def)
  have m: "map edge_key (?es[i := ?e]) = map edge_key ?es"
    using i k by (metis list_update_id map_update)
  then have same: "edge_key ` set (?es[i := ?e]) = edge_key ` set ?es" by (metis list.set_map)
  have nth: "edge_key (?es[i := ?e] ! j) = edge_key (?es ! j)" if "j < length ?es" for j
    using m that by (metis length_list_update nth_map)
  have "(ID caller, ID (q_node q)) \<in> edge_key ` set ?es" using i by (metis image_eqI nth_mem)
  then have "insert (ID caller, ID (q_node q)) (edge_key ` set ?es) = edge_key ` set ?es" by blast
  note full = this
  define es' where "es' = ?es[i := ?e]"
  have re: "record_edge q caller rs st = st\<lparr>result := (result st)\<lparr>Edges := es'\<rparr>\<rparr>"
    using Some by (simp add: record_edge_def Let_def es'_def)
  have "j < length es' \<and> edge_key (es' ! j) = k \<longleftrightarrow> j < length ?es \<and> edge_key (?es ! j) = k" for j k
    using nth [of j] by (auto simp: es'_def)
  then have "index_ok (record_edge q caller rs st)"
    using assms m unfolding re index_ok_def es'_def [symmetric] by simp
  moreover have "view (record_edge q caller rs st) = (view st)\<lparr>a_edges := insert (ID caller, ID (q_node q)) (a_edges (view st))\<rparr>"
    using full same unfolding re es'_def [symmetric] by (simp add: view_def hurt_def)
  ultimately show ?thesis by simp
qed

text \<open>The four outcomes of one reported call.\<close>

inductive call_effect :: "(Item \<Rightarrow> Node) \<Rightarrow> Options \<Rightarrow> queued \<Rightarrow> CallHierarchyIncomingCall \<Rightarrow> aview \<times> bool \<Rightarrow> aview \<times> bool \<Rightarrow> bool"
  for newNode opts q call where
  reject: "call_effect newNode opts q call (a, om) (a\<lparr>a_hurt := True\<rparr>, om)"
| omit: "call_effect newNode opts q call (a, om) (a, True)"
| known: "map_of (a_seen a) (ID (node (From call) newNode)) \<noteq> None \<Longrightarrow>
    call_effect newNode opts q call (a, om)
      (a\<lparr>a_edges := insert (ID (node (From call) newNode), ID (q_node q)) (a_edges a)\<rparr>, om)"
| fresh: "map_of (a_seen a) (ID (node (From call) newNode)) = None \<Longrightarrow>
    o_MaxNodes opts \<le> 0 \<or> int (length (a_seen a)) < o_MaxNodes opts \<Longrightarrow>
    call_effect newNode opts q call (a, om)
      (a\<lparr>a_edges := insert (ID (node (From call) newNode), ID (q_node q)) (a_edges a),
         a_seen := AList.update (ID (node (From call) newNode)) (node (From call) newNode) (a_seen a),
         a_queue := a_queue a @ [\<lparr>q_item = From call, q_node = node (From call) newNode, q_depth = q_depth q + 1\<rparr>]\<rparr>, om)"

lemma add_call_effect:
  assumes "index_ok st"
  shows "index_ok (fst (add_call E newNode opts q call (st, om))) \<and>
    call_effect newNode opts q call (view st, om \<noteq> [])
      (view (fst (add_call E newNode opts q call (st, om))), snd (add_call E newNode opts q call (st, om)) \<noteq> [])"
proof -
  let ?caller = "node (From call) newNode" and ?r = "add_call E newNode opts q call (st, om)"
  have rej: "index_ok (reject_caller q ?caller err st)" "view (reject_caller q ?caller err st) = (view st)\<lparr>a_hurt := True\<rparr>" for err
    using assms by (auto simp: reject_caller_def effect_defs index_ok_def view_def hurt_def naturalReasons_def)
  show ?thesis
  proof (cases "ValidateItem E ?caller")
    case (Some err)
    then show ?thesis using rej call_effect.reject by (simp add: add_call_def)
  next
    case None
    note valid = None
    show ?thesis
    proof (cases "find (\<lambda>r. ValidateRange (rng r) \<noteq> None) (FromRanges call)")
      case (Some bad)
      then show ?thesis using rej valid call_effect.reject by (simp add: add_call_def)
    next
      case None
      define st1 where "st1 = (if \<exists>r \<in> set (FromRanges call). \<not> RangeContains (rng (c_Range (From call))) (rng r)
          then st\<lparr>result := add_diagnostic ''traverse'' incomingMethod (ID ?caller)
                 ''SERVER_CALL_SITE_OUTSIDE_CALLER_RANGE'' (result st)\<rparr> else st)"
      have v1: "view st1 = view st" "index_ok st1" "seen st1 = seen st"
        using assms by (simp_all add: st1_def view_def index_ok_def add_diagnostic_def hurt_def)
      have r: "?r = (case map_of (seen st1) (ID ?caller) of
           Some existing \<Rightarrow>
             if \<not> SameNodeIdentity existing ?caller
             then (st1\<lparr>result := incomplete (add_terminal (boundary (ID ?caller) NodeIDCollision '''') (result st1))\<rparr>, om)
             else (record_edge q ?caller (map rng (FromRanges call)) st1, om)
         | None \<Rightarrow>
             if o_MaxNodes opts > 0 \<and> int (length (seen st1)) \<ge> o_MaxNodes opts
             then (st1\<lparr>result := truncated (result st1)\<rparr>, om @ [ID ?caller])
             else (record_edge q ?caller (map rng (FromRanges call))
                     (st1\<lparr>seen := AList.update (ID ?caller) ?caller (seen st1),
                          queue := queue st1 @ [\<lparr>q_item = From call, q_node = ?caller, q_depth = q_depth q + 1\<rparr>]\<rparr>), om))"
        using valid None unfolding add_call_def st1_def by (simp add: Let_def)
      show ?thesis
      proof (cases "map_of (seen st1) (ID ?caller)")
        case (Some existing)
        show ?thesis
        proof (cases "SameNodeIdentity existing ?caller")
          case True
          have "?r = (record_edge q ?caller (map rng (FromRanges call)) st1, om)" using r Some True by simp
          with record_edge_view [OF v1(2)] v1 Some show ?thesis
            using call_effect.known [of "view st" call newNode opts q "om \<noteq> []"] by (simp add: view_def)
        next
          case False
          let ?st = "st1\<lparr>result := incomplete (add_terminal (boundary (ID ?caller) NodeIDCollision '''') (result st1))\<rparr>"
          have "?r = (?st, om)" using r Some False by simp
          moreover have "view ?st = (view st1)\<lparr>a_hurt := True\<rparr>" "index_ok ?st"
            using v1(2) by (auto simp: view_def effect_defs hurt_def naturalReasons_def index_ok_def)
          ultimately show ?thesis using v1 call_effect.reject by simp
        qed
      next
        case None
        show ?thesis
        proof (cases "o_MaxNodes opts > 0 \<and> int (length (seen st1)) \<ge> o_MaxNodes opts")
          case True
          then have "?r = (st1\<lparr>result := truncated (result st1)\<rparr>, om @ [ID ?caller])" using r None by simp
          moreover have "view (st1\<lparr>result := truncated (result st1)\<rparr>) = view st1" "index_ok (st1\<lparr>result := truncated (result st1)\<rparr>)"
            using v1(2) by (simp_all add: view_def truncated_def hurt_def index_ok_def)
          ultimately show ?thesis using v1 call_effect.omit by simp
        next
          case False
          let ?st = "st1\<lparr>seen := AList.update (ID ?caller) ?caller (seen st1),
              queue := queue st1 @ [\<lparr>q_item = From call, q_node = ?caller, q_depth = q_depth q + 1\<rparr>]\<rparr>"
          have rr: "?r = (record_edge q ?caller (map rng (FromRanges call)) ?st, om)" using r None False by (simp only: option.case if_False)
          have "index_ok ?st" using v1(2) by (simp add: index_ok_def)
          from record_edge_view [OF this] rr v1 None False show ?thesis
            using call_effect.fresh [of "view st" call newNode opts q "om \<noteq> []"] by (auto simp: view_def)
        qed
      qed
    qed
  qed
qed

section \<open>Invariant\<close>

abbreviation a_keys :: "aview \<Rightarrow> string set" where
  "a_keys a \<equiv> fst ` set (a_seen a)"

abbreviation q_id :: "queued \<Rightarrow> string" where
  "q_id q \<equiv> ID (q_node q)"

text \<open>The server reported a call from \<open>c\<close> when it was asked about \<open>d\<close>, in one of the requests \<open>asked\<close>.\<close>

definition reported :: "Client \<Rightarrow> (Item \<Rightarrow> Node) \<Rightarrow> CallHierarchyItem list \<Rightarrow> string \<Rightarrow> string \<Rightarrow> bool" where
  "reported client newNode asked c d \<longleftrightarrow>
     (\<exists>k < length asked. \<exists>calls. IncomingCalls client k (asked ! k) = Inr (calls, False) \<and> ID (node (asked ! k) newNode) = d \<and>
        (\<exists>call \<in> set calls. ID (node (From call) newNode) = c))"

text \<open>The server was asked about \<open>i\<close>, and its answer is in the result unless the result is not complete.\<close>

definition answered :: "Client \<Rightarrow> (Item \<Rightarrow> Node) \<Rightarrow> aview \<Rightarrow> string \<Rightarrow> bool" where
  "answered client newNode a i \<longleftrightarrow>
     (\<exists>k < length (a_requests a). ID (node (a_requests a ! k) newNode) = i \<and>
        (a_hurt a \<or> (\<exists>calls wasNull. IncomingCalls client k (a_requests a ! k) = Inr (calls, wasNull) \<and>
           (wasNull \<or> (\<forall>call \<in> set calls. (ID (node (From call) newNode), i) \<in> a_edges a)))))"

definition queue_ok :: "(Item \<Rightarrow> Node) \<Rightarrow> aview \<Rightarrow> bool" where
  "queue_ok newNode a \<longleftrightarrow> distinct (map q_id (a_queue a)) \<and> q_id ` set (a_queue a) \<subseteq> a_keys a \<and>
     (\<forall>q \<in> set (a_queue a). q_node q = node (q_item q) newNode) \<and> q_id ` set (a_queue a) \<inter> a_expanded a = {}"

definition keys_ok :: "aview \<Rightarrow> bool" where
  "keys_ok a \<longleftrightarrow> distinct (mkeys (a_seen a)) \<and> (\<forall>p \<in> set (a_seen a). ID (snd p) = fst p) \<and>
     a_expanded a \<subseteq> a_keys a \<and> a_targets a \<subseteq> a_keys a \<and> a_edges a \<subseteq> a_keys a \<times> a_keys a \<and>
     (\<forall>i \<in> a_keys a. \<exists>t \<in> a_targets a. (i, t) \<in> (a_edges a)\<^sup>*) \<and>
     a_keys a \<subseteq> q_id ` set (a_queue a) \<union> a_expanded a \<union> a_frontier a"

text \<open>The set \<open>X\<close> holds the node whose answer is being processed.\<close>

definition log_ok :: "Client \<Rightarrow> (Item \<Rightarrow> Node) \<Rightarrow> string set \<Rightarrow> aview \<Rightarrow> bool" where
  "log_ok client newNode X a \<longleftrightarrow> (\<forall>i \<in> a_expanded a - X. answered client newNode a i) \<and>
     (\<forall>(c, d) \<in> a_edges a. reported client newNode (a_requests a) c d)"

definition view_ok :: "Client \<Rightarrow> (Item \<Rightarrow> Node) \<Rightarrow> string set \<Rightarrow> aview \<Rightarrow> bool" where
  "view_ok client newNode X a \<longleftrightarrow> queue_ok newNode a \<and> keys_ok a \<and> log_ok client newNode X a"

lemma prefix_nth: "prefix xs ys \<Longrightarrow> k < length xs \<Longrightarrow> k < length ys \<and> ys ! k = xs ! k"
  by (auto simp: prefix_def nth_append)

lemma answered_mono:
  assumes "answered client newNode a i" and "prefix (a_requests a) (a_requests a')" "a_hurt a \<longrightarrow> a_hurt a'" "a_edges a \<subseteq> a_edges a'"
  shows "answered client newNode a' i"
proof -
  from assms(1) obtain k where k: "k < length (a_requests a)" "ID (node (a_requests a ! k) newNode) = i"
    "a_hurt a \<or> (\<exists>calls wasNull. IncomingCalls client k (a_requests a ! k) = Inr (calls, wasNull) \<and>
           (wasNull \<or> (\<forall>call \<in> set calls. (ID (node (From call) newNode), i) \<in> a_edges a)))"
    unfolding answered_def by blast
  have "k < length (a_requests a')" "a_requests a' ! k = a_requests a ! k" using prefix_nth [OF assms(2) k(1)] by auto
  with k(2,3) assms(3,4) show ?thesis unfolding answered_def by (intro exI [of _ k]) fastforce
qed

lemma reported_mono:
  assumes "reported client newNode asked c d" and "prefix asked asked'"
  shows "reported client newNode asked' c d"
proof -
  from assms(1) obtain k calls where k: "k < length asked" "IncomingCalls client k (asked ! k) = Inr (calls, False)"
    "ID (node (asked ! k) newNode) = d" "\<exists>call \<in> set calls. ID (node (From call) newNode) = c"
    unfolding reported_def by blast
  with prefix_nth [OF assms(2) k(1)] show ?thesis unfolding reported_def by (intro exI [of _ k]) auto
qed

lemma ok_updates [simp]:
  "queue_ok newNode (a\<lparr>a_hurt := b\<rparr>) = queue_ok newNode a" "keys_ok (a\<lparr>a_hurt := b\<rparr>) = keys_ok a"
  "queue_ok newNode (a\<lparr>a_edges := es\<rparr>) = queue_ok newNode a" "queue_ok newNode (a\<lparr>a_requests := n\<rparr>) = queue_ok newNode a"
  "queue_ok newNode (a\<lparr>a_targets := ts\<rparr>) = queue_ok newNode a"
  "keys_ok (a\<lparr>a_requests := n\<rparr>) = keys_ok a" "queue_ok newNode (a\<lparr>a_frontier := fs\<rparr>) = queue_ok newNode a"
  unfolding queue_ok_def keys_ok_def by simp_all

lemma log_ok_mono:
  assumes "log_ok client newNode X a" and "a_expanded a' \<subseteq> a_expanded a" and "prefix (a_requests a) (a_requests a')"
    "a_hurt a \<longrightarrow> a_hurt a'" "a_edges a \<subseteq> a_edges a'"
    and "\<And>c d. (c, d) \<in> a_edges a' - a_edges a \<Longrightarrow> reported client newNode (a_requests a') c d"
  shows "log_ok client newNode X a'"
  using assms answered_mono [of client newNode a _ a'] reported_mono [of client newNode "a_requests a" _ _ "a_requests a'"]
  unfolding log_ok_def by blast

lemma keys_update: "fst ` set (AList.update k v m) = insert k (fst ` set m)"
  by (simp add: update_conv' dom_map_of_conv_image_fst [symmetric])

text \<open>What every outcome of a reported call keeps, and what it achieves.\<close>

definition grows :: "aview \<times> bool \<Rightarrow> aview \<times> bool \<Rightarrow> bool" where
  "grows s s' \<longleftrightarrow> a_expanded (fst s') = a_expanded (fst s) \<and> a_requests (fst s') = a_requests (fst s) \<and>
     a_edges (fst s) \<subseteq> a_edges (fst s') \<and> (a_hurt (fst s) \<longrightarrow> a_hurt (fst s')) \<and> (snd s \<longrightarrow> snd s')"

lemma call_effect_grows: "call_effect newNode opts q call s s' \<Longrightarrow> grows s s'"
  by (induction rule: call_effect.induct) (auto simp: grows_def)

lemma call_effect_target:
  "call_effect newNode opts q call s s' \<Longrightarrow>
     (ID (node (From call) newNode), q_id q) \<in> a_edges (fst s') \<or> a_hurt (fst s') \<or> snd s'"
  by (induction rule: call_effect.induct) auto

lemma call_effect_ok:
  assumes "call_effect newNode opts q call s s'" and "view_ok client newNode {q_id q} (fst s)"
    and q: "q_id q \<in> a_expanded (fst s)" and rep: "reported client newNode (a_requests (fst s)) (ID (node (From call) newNode)) (q_id q)"
  shows "view_ok client newNode {q_id q} (fst s')"
  using assms
proof (induction rule: call_effect.induct)
  case (reject a om)
  then show ?case
    using log_ok_mono [of client newNode "{q_id q}" a "a\<lparr>a_hurt := True\<rparr>"] by (simp add: view_ok_def)
next
  case (omit a om)
  then show ?case by simp
next
  case (known a om)
  let ?c = "ID (node (From call) newNode)"
  let ?a = "a\<lparr>a_edges := insert (?c, q_id q) (a_edges a)\<rparr>"
  have ok: "queue_ok newNode a" "keys_ok a" "log_ok client newNode {q_id q} a" using known.prems(1) by (simp_all add: view_ok_def)
  have "?c \<in> a_keys a" using known.hyps by (simp add: mkeys_in)
  moreover have "q_id q \<in> a_keys a" using ok(2) known.prems(2) by (auto simp: keys_ok_def)
  moreover have "(a_edges a)\<^sup>* \<subseteq> (a_edges ?a)\<^sup>*" by (rule rtrancl_mono) auto
  ultimately have "keys_ok ?a" using ok(2) unfolding keys_ok_def by simp blast
  moreover have "log_ok client newNode {q_id q} ?a"
    by (rule log_ok_mono [OF ok(3)]) (use known.prems(3) in auto)
  ultimately show ?case using ok(1) by (simp add: view_ok_def)
next
  case (fresh a om)
  let ?n = "node (From call) newNode"
  let ?q = "\<lparr>q_item = From call, q_node = ?n, q_depth = q_depth q + 1\<rparr>"
  let ?a = "a\<lparr>a_edges := insert (ID ?n, q_id q) (a_edges a), a_seen := AList.update (ID ?n) ?n (a_seen a),
      a_queue := a_queue a @ [?q]\<rparr>"
  have ok: "queue_ok newNode a" "keys_ok a" "log_ok client newNode {q_id q} a" using fresh.prems(1) by (simp_all add: view_ok_def)
  have new: "ID ?n \<notin> a_keys a" using fresh.hyps(1) by (simp add: map_of_eq_None_iff)
  have qk: "q_id q \<in> a_keys a" using ok(2) fresh.prems(2) by (auto simp: keys_ok_def)
  have keys: "a_keys ?a = insert (ID ?n) (a_keys a)" by (simp add: keys_update)
  have "queue_ok newNode ?a"
  proof -
    have q: "distinct (map q_id (a_queue a))" "q_id ` set (a_queue a) \<subseteq> a_keys a"
      "\<forall>q \<in> set (a_queue a). q_node q = node (q_item q) newNode" "q_id ` set (a_queue a) \<inter> a_expanded a = {}"
      using ok(1) unfolding queue_ok_def by blast+
    have nq: "ID ?n \<notin> q_id ` set (a_queue a)" using new q(2) by blast
    have "a_expanded a \<subseteq> a_keys a" using ok(2) by (simp add: keys_ok_def)
    with new have ne: "ID ?n \<notin> a_expanded a" by blast
    show ?thesis unfolding queue_ok_def keys
    proof (intro conjI)
      show "distinct (map q_id (a_queue ?a))" using q(1) nq by simp
      show "q_id ` set (a_queue ?a) \<subseteq> insert (ID ?n) (a_keys a)" using q(2) by auto
      show "\<forall>q \<in> set (a_queue ?a). q_node q = node (q_item q) newNode" using q(3) by simp
      show "q_id ` set (a_queue ?a) \<inter> a_expanded ?a = {}" using q(4) ne by auto
    qed
  qed
  moreover have "keys_ok ?a"
  proof -
    have mono: "(a_edges a)\<^sup>* \<subseteq> (a_edges ?a)\<^sup>*" by (rule rtrancl_mono) auto
    have "\<exists>t \<in> a_targets a. (i, t) \<in> (a_edges ?a)\<^sup>*" if i: "i \<in> insert (ID ?n) (a_keys a)" for i
    proof (cases "i = ID ?n")
      case True
      from ok(2) qk obtain t where t: "t \<in> a_targets a" "(q_id q, t) \<in> (a_edges a)\<^sup>*" unfolding keys_ok_def by blast
      have "(ID ?n, q_id q) \<in> a_edges ?a" by simp
      with t mono True show ?thesis by (meson converse_rtrancl_into_rtrancl subsetD)
    next
      case False
      with i ok(2) mono show ?thesis unfolding keys_ok_def by blast
    qed
    moreover have "distinct (mkeys (a_seen ?a))" using ok(2) by (simp add: keys_ok_def distinct_update)
    moreover have "\<forall>p \<in> set (a_seen ?a). ID (snd p) = fst p"
      using ok(2) set_update_subset [of "ID ?n" ?n "a_seen a"] unfolding keys_ok_def by auto
    ultimately show ?thesis using ok(2) qk unfolding keys_ok_def keys by auto
  qed
  moreover have "log_ok client newNode {q_id q} ?a"
    by (rule log_ok_mono [OF ok(3)]) (use fresh.prems(3) in auto)
  ultimately show ?case by (simp add: view_ok_def)
qed

section \<open>The loop keeps the invariant\<close>

lemma fold_calls_ok:
  assumes "index_ok st" and "view_ok client newNode {q_id q} (view st)" and "q_id q \<in> a_expanded (view st)"
    and "\<And>call. call \<in> set calls \<Longrightarrow> reported client newNode (a_requests (view st)) (ID (node (From call) newNode)) (q_id q)"
  shows "case fold (add_call E newNode opts q) calls (st, om) of (st', om') \<Rightarrow>
    index_ok st' \<and> view_ok client newNode {q_id q} (view st') \<and> grows (view st, om \<noteq> []) (view st', om' \<noteq> []) \<and>
    (\<forall>call \<in> set calls. (ID (node (From call) newNode), q_id q) \<in> a_edges (view st') \<or> a_hurt (view st') \<or> om' \<noteq> [])"
  using assms
proof (induction calls arbitrary: st om)
  case Nil
  then show ?case by (simp add: grows_def)
next
  case (Cons call calls)
  let ?s = "add_call E newNode opts q call (st, om)"
  from add_call_effect [OF Cons.prems(1), of E newNode opts q call om]
  have i: "index_ok (fst ?s)" and e: "call_effect newNode opts q call (view st, om \<noteq> []) (view (fst ?s), snd ?s \<noteq> [])" by auto
  from call_effect_grows [OF e] have g: "grows (view st, om \<noteq> []) (view (fst ?s), snd ?s \<noteq> [])" .
  from call_effect_ok [OF e, of client] Cons.prems have v: "view_ok client newNode {q_id q} (view (fst ?s))" by simp
  from call_effect_target [OF e] have t: "(ID (node (From call) newNode), q_id q) \<in> a_edges (view (fst ?s)) \<or>
      a_hurt (view (fst ?s)) \<or> snd ?s \<noteq> []" by simp
  have "q_id q \<in> a_expanded (view (fst ?s))" "a_requests (view (fst ?s)) = a_requests (view st)"
    using g Cons.prems(3) by (auto simp: grows_def)
  note IH = Cons.IH [OF i v this(1), of "snd ?s"]
  obtain st' om' where f: "fold (add_call E newNode opts q) calls ?s = (st', om')" by fastforce
  have "index_ok st' \<and> view_ok client newNode {q_id q} (view st') \<and> grows (view (fst ?s), snd ?s \<noteq> []) (view st', om' \<noteq> []) \<and>
    (\<forall>call \<in> set calls. (ID (node (From call) newNode), q_id q) \<in> a_edges (view st') \<or> a_hurt (view st') \<or> om' \<noteq> [])"
    using IH f \<open>a_requests (view (fst ?s)) = a_requests (view st)\<close> Cons.prems(4) by simp
  then show ?case using f g t unfolding grows_def by auto
qed

lemma view_ok_close:
  assumes "view_ok client newNode {i} a" and "answered client newNode a i"
  shows "view_ok client newNode {} a"
  using assms unfolding view_ok_def log_ok_def by blast

lemma view_fields [simp]:
  "a_seen (view st) = seen st" "a_queue (view st) = queue st" "a_expanded (view st) = expanded st"
  "a_requests (view st) = requests st" "a_hurt (view st) = hurt (result st)"
  "a_targets (view st) = set (Targets (result st))" "a_edges (view st) = edge_key ` set (Edges (result st))"
  "a_frontier (view st) = BNodeID ` set (Frontier (result st))"
  by (simp_all add: view_def)

lemma add_calls_ok:
  assumes i: "index_ok st" and v: "view_ok client newNode {q_id q} (view st)" and x: "q_id q \<in> expanded st"
    and k: "k < length (requests st)" "requests st ! k = q_item q" "IncomingCalls client k (q_item q) = Inr (calls, False)" "q_node q = node (q_item q) newNode"
  shows "index_ok (add_calls E newNode opts q calls st) \<and> view_ok client newNode {} (view (add_calls E newNode opts q calls st))"
proof -
  let ?nid = "q_id q"
  have rep: "reported client newNode (requests st) (ID (node (From call) newNode)) ?nid" if "call \<in> set calls" for call
    unfolding reported_def using k that by (intro exI [of _ k]) auto
  obtain st' om where f: "fold (add_call E newNode opts q) calls (st, []) = (st', om)" by fastforce
  have i': "index_ok st'" and v': "view_ok client newNode {?nid} (view st')"
    and g: "grows (view st, False) (view st', om \<noteq> [])"
    and t: "\<forall>call \<in> set calls. (ID (node (From call) newNode), ?nid) \<in> a_edges (view st') \<or> a_hurt (view st') \<or> om \<noteq> []"
    using fold_calls_ok [OF i v, where E = E and opts = opts and om = "[]" and calls = calls] x rep f by simp_all
  have n: "requests st' = requests st" using g by (simp add: grows_def)
  let ?st = "add_calls E newNode opts q calls st"
  have "index_ok ?st" using i' f by (simp add: add_calls_def add_frontier_def index_ok_def)
  moreover have "view_ok client newNode {} (view ?st)"
  proof (cases "om = []")
    case True
    then have st: "?st = st'" using f by (simp add: add_calls_def)
    have "answered client newNode (view st') ?nid"
      unfolding answered_def using k n t True by (intro exI [of _ k] conjI) auto
    with v' st show ?thesis using view_ok_close by simp
  next
    case False
    let ?b = "omittedCallerBoundary E ?nid om"
    have st: "?st = st'\<lparr>result := add_frontier [?b] (result st')\<rparr>" using f False by (simp add: add_calls_def)
    have a: "view ?st = (view st')\<lparr>a_hurt := True, a_frontier := insert (BNodeID ?b) (a_frontier (view st'))\<rparr>"
      by (simp add: st view_def add_frontier_def hurt_def)
    have "log_ok client newNode {?nid} (view ?st)"
      unfolding a by (rule log_ok_mono [of _ _ _ "view st'"]) (use v' in \<open>auto simp: view_ok_def\<close>)
    moreover have "keys_ok (view ?st)" using v' unfolding a view_ok_def keys_ok_def by auto
    moreover have "queue_ok newNode (view ?st)" using v' unfolding a view_ok_def by simp
    ultimately have "view_ok client newNode {?nid} (view ?st)" by (simp add: view_ok_def)
    moreover have "answered client newNode (view ?st) ?nid"
      unfolding answered_def a using k n by (intro exI [of _ k] conjI) auto
    ultimately show ?thesis by (rule view_ok_close)
  qed
  ultimately show ?thesis by simp
qed

text \<open>Taking the first queued node.\<close>

lemma pop_facts:
  assumes "queue_ok newNode a" and "mset (q # rest) = mset (a_queue a)"
  shows "q_node q = node (q_item q) newNode" "q_id q \<notin> a_expanded a" "q_id q \<in> a_keys a" "q_id q \<notin> q_id ` set rest"
    "distinct (map q_id rest)" "set rest \<subseteq> set (a_queue a)" "q_id ` set (a_queue a) = insert (q_id q) (q_id ` set rest)"
proof -
  have s: "set (a_queue a) = insert q (set rest)" using assms(2) by (metis list.set(2) set_mset_mset)
  have "distinct (map q_id (q # rest))"
    using assms unfolding queue_ok_def by (metis mset_eq_imp_distinct_iff mset_map)
  then show "q_id q \<notin> q_id ` set rest" "distinct (map q_id rest)" by simp_all
  show "q_node q = node (q_item q) newNode" "q_id q \<notin> a_expanded a" "q_id q \<in> a_keys a"
    using assms(1) s unfolding queue_ok_def by blast+
  show "set rest \<subseteq> set (a_queue a)" "q_id ` set (a_queue a) = insert (q_id q) (q_id ` set rest)" using s by auto
qed

lemma answered_updates [simp]:
  "answered client newNode (a\<lparr>a_expanded := S\<rparr>) i = answered client newNode a i"
  "answered client newNode (a\<lparr>a_queue := qs\<rparr>) i = answered client newNode a i"
  by (simp_all add: answered_def)

lemma pop_expand:
  assumes "view_ok client newNode {} a" and "mset (q # rest) = mset (a_queue a)"
  shows "view_ok client newNode {q_id q}
    (a\<lparr>a_queue := rest, a_expanded := insert (q_id q) (a_expanded a), a_requests := a_requests a @ [q_item q]\<rparr>)"
    (is "view_ok client newNode _ ?a")
proof -
  have ok: "queue_ok newNode a" "keys_ok a" "log_ok client newNode {} a" using assms(1) by (simp_all add: view_ok_def)
  note p = pop_facts [OF ok(1) assms(2)]
  have q: "q_id ` set (a_queue a) \<subseteq> a_keys a" "\<forall>q \<in> set (a_queue a). q_node q = node (q_item q) newNode"
    "q_id ` set (a_queue a) \<inter> a_expanded a = {}" using ok(1) unfolding queue_ok_def by blast+
  have "queue_ok newNode ?a"
    unfolding queue_ok_def
  proof (intro conjI)
    show "distinct (map q_id (a_queue ?a))" using p(5) by simp
    show "q_id ` set (a_queue ?a) \<subseteq> a_keys ?a" using q(1) p(7) by auto
    show "\<forall>q \<in> set (a_queue ?a). q_node q = node (q_item q) newNode" using q(2) p(6) by auto
    show "q_id ` set (a_queue ?a) \<inter> a_expanded ?a = {}" using q(3) p(4,7) by auto
  qed
  moreover have "keys_ok ?a" using ok(2) p(3,7) unfolding keys_ok_def by simp
  moreover have "log_ok client newNode {q_id q} ?a"
  proof -
    let ?b = "a\<lparr>a_requests := a_requests a @ [q_item q]\<rparr>"
    have "log_ok client newNode {} ?b" by (rule log_ok_mono [OF ok(3)]) auto
    then have "answered client newNode ?b i" if "i \<in> a_expanded a" for i using that unfolding log_ok_def by simp
    moreover have "answered client newNode ?a i = answered client newNode ?b i" for i by (simp add: answered_def)
    ultimately show ?thesis using \<open>log_ok client newNode {} ?b\<close> unfolding log_ok_def by simp
  qed
  ultimately show ?thesis by (simp add: view_ok_def)
qed

lemma pop_frontier:
  assumes "view_ok client newNode {} a" and "mset (q # rest) = mset (a_queue a)" and "q_id q \<in> F"
  shows "view_ok client newNode {} (a\<lparr>a_queue := rest, a_frontier := a_frontier a \<union> F, a_hurt := True\<rparr>)"
    (is "view_ok client newNode _ ?a")
proof -
  have ok: "queue_ok newNode a" "keys_ok a" "log_ok client newNode {} a" using assms(1) by (simp_all add: view_ok_def)
  note p = pop_facts [OF ok(1) assms(2)]
  have q: "q_id ` set (a_queue a) \<subseteq> a_keys a" "\<forall>q \<in> set (a_queue a). q_node q = node (q_item q) newNode"
    "q_id ` set (a_queue a) \<inter> a_expanded a = {}" using ok(1) unfolding queue_ok_def by blast+
  have "queue_ok newNode ?a"
    unfolding queue_ok_def
  proof (intro conjI)
    show "distinct (map q_id (a_queue ?a))" using p(5) by simp
    show "q_id ` set (a_queue ?a) \<subseteq> a_keys ?a" using q(1) p(7) by auto
    show "\<forall>q \<in> set (a_queue ?a). q_node q = node (q_item q) newNode" using q(2) p(6) by auto
    show "q_id ` set (a_queue ?a) \<inter> a_expanded ?a = {}" using q(3) p(7) by auto
  qed
  moreover have "keys_ok ?a"
  proof -
    have "a_keys a \<subseteq> q_id ` set (a_queue a) \<union> a_expanded a \<union> a_frontier a" using ok(2) by (simp add: keys_ok_def)
    then have "a_keys a \<subseteq> insert (q_id q) (q_id ` set rest) \<union> a_expanded a \<union> a_frontier a" by (simp only: p(7))
    then have "a_keys a \<subseteq> q_id ` set rest \<union> a_expanded a \<union> (a_frontier a \<union> F)" using assms(3) by auto
    then show ?thesis using ok(2) unfolding keys_ok_def by simp
  qed
  moreover have "log_ok client newNode {} ?a"
    by (rule log_ok_mono [of _ _ _ a]) (use ok(3) in auto)
  ultimately show ?thesis by (simp add: view_ok_def)
qed

lemma expand_ok:
  assumes i: "index_ok st" and v: "view_ok client newNode {} (view st)" and m: "mset (q # rest) = mset (queue st)"
  shows "index_ok (expand E newNode opts client q (st\<lparr>queue := rest, turns := n\<rparr>)) \<and>
    view_ok client newNode {} (view (expand E newNode opts client q (st\<lparr>queue := rest, turns := n\<rparr>)))"
proof -
  let ?nid = "q_id q" and ?k = "length (requests st)"
  have qn: "q_node q = node (q_item q) newNode"
    using pop_facts(1) [of newNode "view st" q rest] v m by (simp add: view_ok_def)
  define st1 where "st1 = st\<lparr>queue := rest, turns := n, expanded := insert ?nid (expanded st), requests := requests st @ [q_item q]\<rparr>"
  have v1: "view_ok client newNode {?nid} (view st1)"
    using pop_expand [OF v, of q rest] m by (simp add: st1_def view_def)
  have i1: "index_ok st1" using i by (simp add: st1_def index_ok_def)
  let ?st = "expand E newNode opts client q (st\<lparr>queue := rest, turns := n\<rparr>)"
  show ?thesis
  proof (cases "IncomingCalls client ?k (q_item q)")
    case (Inl err)
    let ?r = "incomplete (add_diagnostic ''traverse'' incomingMethod ?nid (ErrText err)
                   (add_terminal (boundary ?nid (failure_reason err) (ErrText err)) (result st1)))"
    have st: "?st = st1\<lparr>result := ?r\<rparr>" using Inl by (simp add: expand_def Let_def st1_def)
    have "failure_reason err \<notin> set naturalReasons" by (simp add: failure_reason_def naturalReasons_def)
    then have a: "view ?st = (view st1)\<lparr>a_hurt := True\<rparr>" by (simp add: st view_def effect_defs hurt_def)
    have "log_ok client newNode {?nid} (view ?st)"
      unfolding a by (rule log_ok_mono [of _ _ _ "view st1"]) (use v1 in \<open>auto simp: view_ok_def\<close>)
    then have "view_ok client newNode {?nid} (view ?st)" using v1 by (simp add: view_ok_def a)
    moreover have "answered client newNode (view ?st) ?nid"
      unfolding answered_def a using qn by (intro exI [of _ ?k] conjI) (auto simp: st1_def)
    ultimately have "view_ok client newNode {} (view ?st)" by (rule view_ok_close)
    moreover have "index_ok ?st" using i1 by (simp add: st index_ok_def effect_defs)
    ultimately show ?thesis by simp
  next
    case (Inr answer)
    obtain calls wasNull where ans: "answer = (calls, wasNull)" by fastforce
    let ?r = "result st1"
    define st2 where "st2 = st1\<lparr>result := ?r\<lparr>Quality := (Quality ?r)\<lparr>IncomingRequestSuccesses := IncomingRequestSuccesses (Quality ?r) + 1\<rparr>\<rparr>\<rparr>"
    have v2: "view st2 = view st1" "index_ok st2" using i1 by (simp_all add: st2_def view_def hurt_def index_ok_def)
    have natural: "view_ok client newNode {} (view (st2\<lparr>result := add_terminal (boundary ?nid reason '''') (result st2)\<rparr>)) \<and>
        index_ok (st2\<lparr>result := add_terminal (boundary ?nid reason '''') (result st2)\<rparr>)"
      if "reason \<in> set naturalReasons" "wasNull \<or> calls = []" for reason
    proof -
      have "view (st2\<lparr>result := add_terminal (boundary ?nid reason '''') (result st2)\<rparr>) = view st1"
        using that(1) v2(1) by (auto simp: view_def effect_defs hurt_def st2_def)
      moreover have "answered client newNode (view st1) ?nid"
        unfolding answered_def using qn Inr ans that(2)
        by (intro exI [of _ ?k] conjI) (auto simp: st1_def)
      ultimately show ?thesis using view_ok_close [OF v1] v2(2) by (simp add: index_ok_def effect_defs)
    qed
    show ?thesis
    proof (cases "wasNull \<or> calls = []")
      case True
      then have "?st = st2\<lparr>result := add_terminal (boundary ?nid IncomingReturnedNull '''') (result st2)\<rparr> \<or>
          ?st = st2\<lparr>result := add_terminal (boundary ?nid ServerReportedNoIncoming '''') (result st2)\<rparr>"
        using Inr ans by (auto simp: expand_def Let_def st1_def st2_def)
      then show ?thesis
        using natural [of IncomingReturnedNull] natural [of ServerReportedNoIncoming] True by (auto simp: naturalReasons_def)
    next
      case False
      then have "?st = add_calls E newNode opts q calls st2"
        using Inr ans by (simp add: expand_def Let_def st1_def st2_def)
      moreover have "?nid \<in> expanded st2" "?k < length (requests st2)" "requests st2 ! ?k = q_item q" by (simp_all add: st2_def st1_def)
      ultimately show ?thesis
        using add_calls_ok [OF v2(2), of client newNode q ?k calls E opts] v1 v2(1) Inr ans False qn by simp
    qed
  qed
qed

lemma turn_ok:
  assumes i: "index_ok st" and v: "view_ok client newNode {} (view st)" and ne: "queue st \<noteq> []"
  shows "index_ok (snd (turn E newNode opts client st)) \<and> view_ok client newNode {} (view (snd (turn E newNode opts client st)))"
proof -
  have "sort_key queue_key (queue st) \<noteq> []" using ne by (metis set_empty2 set_sort)
  then obtain q rest where qr: "sort_key queue_key (queue st) = q # rest" by (cases "sort_key queue_key (queue st)") auto
  then have m: "mset (q # rest) = mset (queue st)" by (metis mset_sort)
  then have mv: "mset (q # rest) = mset (a_queue (view st))" by simp
  let ?st = "st\<lparr>queue := rest, turns := Suc (turns st)\<rparr>" and ?t = "turn E newNode opts client st"
  have nx: "q_id q \<notin> expanded st" using pop_facts(2) [of newNode, OF _ mv] v by (simp add: view_ok_def)
  show ?thesis
  proof (cases "CtxErr client (turns st)")
    case (Some err)
    let ?reason = "if IsDeadline err then GlobalTimeout else Cancelled"
    let ?bs = "boundary (q_id q) ?reason (ErrText err) # map (\<lambda>p. boundary (q_id p) ?reason (ErrText err)) (filter (\<lambda>p. q_id p \<notin> expanded st) rest)"
    have t: "snd ?t = ?st\<lparr>result := add_frontier ?bs (incomplete (result st))\<rparr>"
      using Some qr by (simp add: turn_def Let_def)
    have "view (snd ?t) = (view st)\<lparr>a_queue := rest, a_frontier := a_frontier (view st) \<union> BNodeID ` set ?bs, a_hurt := True\<rparr>"
      by (simp add: t view_def add_frontier_def incomplete_def hurt_def image_Un)
    moreover have "q_id q \<in> BNodeID ` set ?bs" by (simp add: boundary_def)
    ultimately have "view_ok client newNode {} (view (snd ?t))"
      using pop_frontier [OF v mv, of "BNodeID ` set ?bs"] by (simp only:)
    moreover have "index_ok (snd ?t)" using i by (simp add: t index_ok_def add_frontier_def incomplete_def)
    ultimately show ?thesis by simp
  next
    case None
    show ?thesis
    proof (cases "o_MaxDepth opts > 0 \<and> q_depth q \<ge> o_MaxDepth opts")
      case True
      have t: "snd ?t = ?st\<lparr>result := truncated (add_frontier [boundary (q_id q) MaxDepth ''''] (result st))\<rparr>"
        using None True qr nx by (simp add: turn_def Let_def)
      have "view (snd ?t) = (view st)\<lparr>a_queue := rest, a_frontier := a_frontier (view st) \<union> {q_id q}, a_hurt := True\<rparr>"
        by (simp add: t view_def add_frontier_def truncated_def hurt_def boundary_def)
      then have "view_ok client newNode {} (view (snd ?t))" using pop_frontier [OF v mv, of "{q_id q}"] by simp
      moreover have "index_ok (snd ?t)" using i by (simp add: t index_ok_def add_frontier_def truncated_def)
      ultimately show ?thesis by simp
    next
      case False
      have "snd ?t = expand E newNode opts client q ?st"
        using None False qr nx by (auto simp: turn_def Let_def)
      then show ?thesis using expand_ok [OF i v m, of E opts "Suc (turns st)"] by simp
    qed
  qed
qed

section \<open>Before and after the loop\<close>

lemma enqueue_one:
  assumes v: "view_ok client newNode {} a" and n: "n = node item newNode"
  defines "a' \<equiv> (if map_of (a_seen a) (ID n) = None
      then a\<lparr>a_seen := AList.update (ID n) n (a_seen a), a_queue := a_queue a @ [\<lparr>q_item = item, q_node = n, q_depth = 0\<rparr>]\<rparr>
      else a)"
  shows "view_ok client newNode {} (a'\<lparr>a_targets := insert (ID n) (a_targets a')\<rparr>)"
proof -
  have ok: "queue_ok newNode a" "keys_ok a" "log_ok client newNode {} a" using v by (simp_all add: view_ok_def)
  have q: "distinct (map q_id (a_queue a))" "q_id ` set (a_queue a) \<subseteq> a_keys a"
    "\<forall>q \<in> set (a_queue a). q_node q = node (q_item q) newNode" "q_id ` set (a_queue a) \<inter> a_expanded a = {}"
    using ok(1) unfolding queue_ok_def by blast+
  have k: "distinct (mkeys (a_seen a))" "\<forall>p \<in> set (a_seen a). ID (snd p) = fst p" "a_expanded a \<subseteq> a_keys a"
    "a_targets a \<subseteq> a_keys a" "a_edges a \<subseteq> a_keys a \<times> a_keys a"
    "\<forall>i \<in> a_keys a. \<exists>t \<in> a_targets a. (i, t) \<in> (a_edges a)\<^sup>*"
    "a_keys a \<subseteq> q_id ` set (a_queue a) \<union> a_expanded a \<union> a_frontier a"
    using ok(2) unfolding keys_ok_def by blast+
  let ?b = "a'\<lparr>a_targets := insert (ID n) (a_targets a')\<rparr>"
  have log: "log_ok client newNode {} ?b"
    by (rule log_ok_mono [OF ok(3)]) (auto simp: a'_def)
  show ?thesis
  proof (cases "map_of (a_seen a) (ID n)")
    case None
    let ?q = "\<lparr>q_item = item, q_node = n, q_depth = 0\<rparr>"
    have a': "a' = a\<lparr>a_seen := AList.update (ID n) n (a_seen a), a_queue := a_queue a @ [?q]\<rparr>" using None by (simp add: a'_def)
    have new: "ID n \<notin> a_keys a" using None by (simp add: map_of_eq_None_iff)
    have keys: "a_keys ?b = insert (ID n) (a_keys a)" by (simp add: a' keys_update)
    have "queue_ok newNode ?b"
      unfolding queue_ok_def keys
    proof (intro conjI)
      show "distinct (map q_id (a_queue ?b))" using q(1,2) new by (auto simp: a')
      show "q_id ` set (a_queue ?b) \<subseteq> insert (ID n) (a_keys a)" using q(2) by (auto simp: a')
      show "\<forall>q \<in> set (a_queue ?b). q_node q = node (q_item q) newNode" using q(3) n by (simp add: a')
      show "q_id ` set (a_queue ?b) \<inter> a_expanded ?b = {}" using q(4) k(3) new by (auto simp: a')
    qed
    moreover have "keys_ok ?b"
      unfolding keys_ok_def keys
    proof (intro conjI)
      show "distinct (mkeys (a_seen ?b))" using k(1) by (simp add: a' distinct_update)
      show "\<forall>p \<in> set (a_seen ?b). ID (snd p) = fst p"
        using k(2) set_update_subset [of "ID n" n "a_seen a"] by (auto simp: a')
      show "a_expanded ?b \<subseteq> insert (ID n) (a_keys a)" "a_targets ?b \<subseteq> insert (ID n) (a_keys a)"
        "a_edges ?b \<subseteq> insert (ID n) (a_keys a) \<times> insert (ID n) (a_keys a)" using k(3,4,5) by (auto simp: a')
      show "\<forall>i \<in> insert (ID n) (a_keys a). \<exists>t \<in> a_targets ?b. (i, t) \<in> (a_edges ?b)\<^sup>*"
        using k(6) by (simp add: a')
      show "insert (ID n) (a_keys a) \<subseteq> q_id ` set (a_queue ?b) \<union> a_expanded ?b \<union> a_frontier ?b"
        using k(7) by (auto simp: a')
    qed
    ultimately show ?thesis using log by (simp add: view_ok_def)
  next
    case (Some m)
    then have a': "a' = a" and old: "ID n \<in> a_keys a" by (simp_all add: a'_def mkeys_in)
    have "queue_ok newNode ?b" using ok(1) by (simp add: a')
    moreover have "keys_ok ?b" unfolding keys_ok_def using k old by (simp add: a')
    ultimately show ?thesis using log by (simp add: view_ok_def)
  qed
qed

lemma enqueue_items_ok:
  "index_ok st \<Longrightarrow> view_ok client newNode {} (view st) \<Longrightarrow>
     index_ok (enqueue_items E newNode items st) \<and> view_ok client newNode {} (view (enqueue_items E newNode items st))"
proof (induction items arbitrary: st)
  case (Cons item items)
  let ?n = "node item newNode"
  show ?case
  proof (cases "ValidateItem E ?n")
    case (Some err)
    let ?st = "st\<lparr>result := incomplete (add_diagnostic ''prepare'' prepareMethod (ID ?n) err
                 (add_terminal (boundary '''' InvalidServerResponse err) (result st)))\<rparr>"
    have "view ?st = (view st)\<lparr>a_hurt := True\<rparr>" by (simp add: view_def effect_defs hurt_def naturalReasons_def)
    moreover have "log_ok client newNode {} ((view st)\<lparr>a_hurt := True\<rparr>)"
      by (rule log_ok_mono [of _ _ _ "view st"]) (use Cons.prems(2) in \<open>auto simp: view_ok_def\<close>)
    ultimately have "view_ok client newNode {} (view ?st)" using Cons.prems(2) by (simp add: view_ok_def)
    moreover have "index_ok ?st" using Cons.prems(1) by (simp add: index_ok_def effect_defs)
    ultimately show ?thesis using Cons.IH [of ?st] Some by simp
  next
    case None
    define st1 where "st1 = (if map_of (seen st) (ID ?n) = None
        then st\<lparr>seen := AList.update (ID ?n) ?n (seen st), queue := queue st @ [\<lparr>q_item = item, q_node = ?n, q_depth = 0\<rparr>]\<rparr>
        else st)"
    define st2 where "st2 = st1\<lparr>result := (result st1)\<lparr>Targets := Targets (result st1) @ [ID ?n]\<rparr>\<rparr>"
    have e: "enqueue_items E newNode (item # items) st = enqueue_items E newNode items st2"
      using None by (simp add: Let_def st1_def st2_def)
    let ?a = "if map_of (a_seen (view st)) (ID ?n) = None
      then (view st)\<lparr>a_seen := AList.update (ID ?n) ?n (a_seen (view st)),
             a_queue := a_queue (view st) @ [\<lparr>q_item = item, q_node = ?n, q_depth = 0\<rparr>]\<rparr>
      else view st"
    have "view st2 = ?a\<lparr>a_targets := insert (ID ?n) (a_targets ?a)\<rparr>"
      by (simp add: st2_def st1_def view_def hurt_def)
    with enqueue_one [OF Cons.prems(2) refl, of item] have "view_ok client newNode {} (view st2)" by simp
    moreover have "index_ok st2" using Cons.prems(1) by (simp add: st2_def st1_def index_ok_def)
    ultimately show ?thesis using Cons.IH [of st2] e by simp
  qed
qed simp

lemma siblings_keep:
  "Edges (siblings_loop E newNode ev client k items r) = Edges r"
  "Targets (siblings_loop E newNode ev client k items r) = Targets r"
  "Nodes (siblings_loop E newNode ev client k items r) = Nodes r"
  "SchemaVersion (siblings_loop E newNode ev client k items r) = SchemaVersion r"
  "Frontier (siblings_loop E newNode ev client k items r) = Frontier r"
  "Terminals (siblings_loop E newNode ev client k items r) = Terminals r"
proof -
  let ?same = "\<lambda>r r'. Edges r' = Edges r \<and> Targets r' = Targets r \<and> Nodes r' = Nodes r \<and>
    SchemaVersion r' = SchemaVersion r \<and> Frontier r' = Frontier r \<and> Terminals r' = Terminals r"
  have "?same r (seed_siblings E newNode ev seed answer r)" for seed answer r
    by (simp add: seed_siblings_def add_diagnostic_def Let_def split: sum.split list.split)
  then have "?same r (siblings_loop E newNode ev client k items r)"
    by (induction items arbitrary: k r) simp_all
  then show "Edges (siblings_loop E newNode ev client k items r) = Edges r"
    "Targets (siblings_loop E newNode ev client k items r) = Targets r"
    "Nodes (siblings_loop E newNode ev client k items r) = Nodes r"
    "SchemaVersion (siblings_loop E newNode ev client k items r) = SchemaVersion r"
    "Frontier (siblings_loop E newNode ev client k items r) = Frontier r"
    "Terminals (siblings_loop E newNode ev client k items r) = Terminals r" by simp_all
qed

lemma start_ok:
  assumes "Edges r = []" "Targets r = []"
  shows "index_ok (start_state r) \<and> view_ok client newNode {} (view (start_state r))"
  using assms by (simp add: start_state_def index_ok_def view_ok_def queue_ok_def keys_ok_def log_ok_def view_def)

text \<open>The loop ends with an empty queue, or early with a frontier.\<close>

definition settled :: "tstate \<Rightarrow> bool" where
  "settled st \<longleftrightarrow> queue st = [] \<or> hurt (result st)"

lemma turn_break: "fst (turn E newNode opts client st) \<Longrightarrow> hurt (result (snd (turn E newNode opts client st)))"
  by (auto simp: turn_def Let_def add_frontier_def hurt_def split: option.splits if_splits)

lemmas traverse_loop_induct = traverse_loop.raw_induct [rotated, consumes 1, case_names turn]

lemma traverse_loop_ok:
  "traverse_loop E newNode opts client st = Some st' \<Longrightarrow> index_ok st \<Longrightarrow> view_ok client newNode {} (view st) \<Longrightarrow>
     index_ok st' \<and> view_ok client newNode {} (view st') \<and> settled st'"
proof (induction E newNode opts client st st' rule: traverse_loop_induct)
  case (turn loop E newNode opts client st st')
  show ?case
  proof (cases "queue st = []")
    case True
    with turn show ?thesis by (simp add: settled_def)
  next
    case False
    let ?t = "turn E newNode opts client st"
    from turn_ok [OF turn(3,4) False] have t: "index_ok (snd ?t)" "view_ok client newNode {} (view (snd ?t))" by auto
    show ?thesis
    proof (cases "fst ?t")
      case True
      with turn(2) False t turn_break [OF True] show ?thesis by (simp add: Let_def settled_def)
    next
      case stop: False
      with turn(2) False have "loop E newNode opts client (snd ?t) = Some st'" by (simp add: Let_def)
      from turn(1) [OF this t] show ?thesis .
    qed
  qed
qed

section \<open>Termination\<close>

definition mu :: "nat \<Rightarrow> tstate \<Rightarrow> nat" where
  "mu B st = 2 * (B - length (seen st)) + length (queue st)"

definition bounded :: "nat \<Rightarrow> tstate \<Rightarrow> bool" where
  "bounded B st \<longleftrightarrow> length (seen st) \<le> B"

lemma call_effect_mu:
  assumes "call_effect newNode opts q call s s'" and "length (a_seen (fst s)) \<le> B" and "0 < o_MaxNodes opts" "o_MaxNodes opts \<le> int B"
  shows "length (a_seen (fst s')) \<le> B \<and>
    2 * (B - length (a_seen (fst s'))) + length (a_queue (fst s')) \<le> 2 * (B - length (a_seen (fst s))) + length (a_queue (fst s))"
  using assms
proof (induction rule: call_effect.induct)
  case (fresh a om)
  then have l: "length (AList.update (ID (node (From call) newNode)) (node (From call) newNode) (a_seen a)) = Suc (length (a_seen a))"
    by (simp add: length_update_new)
  from fresh have "length (a_seen a) < B" by auto
  then show ?case unfolding fst_conv aview.simps aview.update_convs by (simp add: l)
qed auto

lemma fold_calls_mu:
  assumes "0 < o_MaxNodes opts" "o_MaxNodes opts \<le> int B"
  shows "index_ok st \<Longrightarrow> bounded B st \<Longrightarrow>
    bounded B (fst (fold (add_call E newNode opts q) calls (st, om))) \<and>
    mu B (fst (fold (add_call E newNode opts q) calls (st, om))) \<le> mu B st"
proof (induction calls arbitrary: st om)
  case (Cons call calls)
  let ?s = "add_call E newNode opts q call (st, om)"
  from add_call_effect [OF Cons.prems(1), of E newNode opts q call om]
  have i: "index_ok (fst ?s)" and e: "call_effect newNode opts q call (view st, om \<noteq> []) (view (fst ?s), snd ?s \<noteq> [])" by auto
  from call_effect_mu [OF e _ assms] Cons.prems(2) have "bounded B (fst ?s)" "mu B (fst ?s) \<le> mu B st"
    by (simp_all add: bounded_def mu_def)
  with Cons.IH [OF i, of "snd ?s"] show ?case by (metis fold_simps(2) order_trans prod.collapse)
qed simp

lemma expand_mu:
  assumes "0 < o_MaxNodes opts" "o_MaxNodes opts \<le> int B" and i: "index_ok st" and b: "bounded B st"
  shows "bounded B (expand E newNode opts client q st) \<and> mu B (expand E newNode opts client q st) \<le> mu B st"
proof -
  have add: "bounded B (add_calls E newNode opts q calls st') \<and> mu B (add_calls E newNode opts q calls st') \<le> mu B st'"
    if "index_ok st'" "bounded B st'" for calls st'
    using fold_calls_mu [OF assms(1,2) that, of E newNode q calls "[]"]
    by (simp add: add_calls_def split_beta bounded_def mu_def)
  define st2 where "st2 = (let r = result st in st\<lparr>expanded := insert (q_id q) (expanded st), requests := requests st @ [q_item q],
    result := r\<lparr>Quality := (Quality r)\<lparr>IncomingRequestSuccesses := IncomingRequestSuccesses (Quality r) + 1\<rparr>\<rparr>\<rparr>)"
  have s2: "index_ok st2" "bounded B st2" "mu B st2 = mu B st"
    using i b by (simp_all add: st2_def Let_def index_ok_def bounded_def mu_def)
  show ?thesis
  proof (cases "IncomingCalls client (length (requests st)) (q_item q)")
    case (Inl err)
    then show ?thesis using b by (simp add: expand_def Let_def bounded_def mu_def)
  next
    case (Inr answer)
    obtain calls wasNull where ans: "answer = (calls, wasNull)" by fastforce
    show ?thesis
    proof (cases "wasNull \<or> calls = []")
      case True
      then show ?thesis using Inr ans b by (auto simp: expand_def Let_def bounded_def mu_def)
    next
      case False
      then have "expand E newNode opts client q st = add_calls E newNode opts q calls st2"
        using Inr ans by (simp add: expand_def Let_def st2_def)
      with add [OF s2(1,2), of calls] s2(3) show ?thesis by simp
    qed
  qed
qed

lemma turn_mu:
  assumes "0 < o_MaxNodes opts" "o_MaxNodes opts \<le> int B" and i: "index_ok st" and b: "bounded B st" and ne: "queue st \<noteq> []"
  shows "bounded B (snd (turn E newNode opts client st)) \<and> mu B (snd (turn E newNode opts client st)) < mu B st"
proof -
  have "sort_key queue_key (queue st) \<noteq> []" using ne by (metis set_empty2 set_sort)
  then obtain q rest where qr: "sort_key queue_key (queue st) = q # rest" by (cases "sort_key queue_key (queue st)") auto
  have len: "length (queue st) = Suc (length rest)" using qr by (metis length_Cons length_sort)
  let ?st = "st\<lparr>queue := rest, turns := Suc (turns st)\<rparr>"
  have "index_ok ?st" "bounded B ?st" using i b by (simp_all add: index_ok_def bounded_def)
  note e = expand_mu [OF assms(1,2) this, of E newNode client q]
  have m: "mu B ?st < mu B st" using len by (simp add: mu_def)
  have same: "bounded B (?st\<lparr>result := r\<rparr>)" "mu B (?st\<lparr>result := r\<rparr>) < mu B st" for r
    using b m by (simp_all add: bounded_def mu_def)
  have "snd (turn E newNode opts client st) = expand E newNode opts client q ?st \<or>
      (\<exists>r. snd (turn E newNode opts client st) = ?st\<lparr>result := r\<rparr>) \<or> snd (turn E newNode opts client st) = ?st"
    using qr by (auto simp: turn_def Let_def split: option.splits)
  then show ?thesis using e same m \<open>bounded B ?st\<close> by auto
qed

lemma traverse_loop_returns:
  assumes "0 < o_MaxNodes opts" "o_MaxNodes opts \<le> int B" and "index_ok st" and "view_ok client newNode {} (view st)" and "bounded B st"
  shows "\<exists>st'. traverse_loop E newNode opts client st = Some st' \<and> bounded B st'"
  using assms(3-)
proof (induction "mu B st" arbitrary: st rule: less_induct)
  case less
  show ?case
  proof (cases "queue st = []")
    case True
    with less.prems show ?thesis by (subst traverse_loop.simps) simp
  next
    case False
    let ?t = "turn E newNode opts client st"
    note m = turn_mu [OF assms(1,2) less.prems(1,3) False, of E newNode client]
    note v = turn_ok [OF less.prems(1,2) False, of E opts]
    show ?thesis
    proof (cases "fst ?t")
      case True
      with False m show ?thesis by (subst traverse_loop.simps) (simp add: Let_def)
    next
      case stop: False
      from less.hyps [of "snd ?t"] m v obtain st' where "traverse_loop E newNode opts client (snd ?t) = Some st'" "bounded B st'" by blast
      with False stop show ?thesis by (subst traverse_loop.simps) (simp add: Let_def)
    qed
  qed
qed


section \<open>Results\<close>

text \<open>The traversal never touches the list of nodes nor the schema version nor the targets.\<close>

definition kept :: "Result \<Rightarrow> Result \<Rightarrow> bool" where
  "kept r r' \<longleftrightarrow> Nodes r' = Nodes r \<and> SchemaVersion r' = SchemaVersion r \<and> Targets r' = Targets r"

lemma kept_refl [simp]: "kept r r"
  by (simp add: kept_def)

lemma kept_trans: "kept a b \<Longrightarrow> kept b c \<Longrightarrow> kept a c"
  by (simp add: kept_def)

lemma add_call_kept: "kept (result (fst s)) (result (fst (add_call E newNode opts q call s)))"
  by (cases s) (simp add: add_call_def kept_def reject_caller_def effect_defs record_edge_def Let_def split: option.split)

lemma fold_call_kept: "kept (result (fst s)) (result (fst (fold (add_call E newNode opts q) calls s)))"
proof (induction calls arbitrary: s)
  case (Cons call calls)
  show ?case
    using kept_trans [OF add_call_kept [of s E newNode opts q call] Cons.IH [of "add_call E newNode opts q call s"]] by simp
qed simp

lemma expand_kept: "kept (result st) (result (expand E newNode opts client q st))"
proof -
  have "kept (result st') (result (add_calls E newNode opts q calls st'))" for calls st'
    using fold_call_kept [of "(st', [])" E newNode opts q calls]
    by (simp add: add_calls_def split_beta kept_def add_frontier_def)
  then show ?thesis
    by (simp add: expand_def Let_def kept_def effect_defs split: sum.split prod.split)
qed

lemma turn_kept: "kept (result st) (result (snd (turn E newNode opts client st)))"
  using expand_kept by (simp add: turn_def Let_def kept_def effect_defs split: option.split)

lemma loop_kept: "traverse_loop E newNode opts client st = Some st' \<Longrightarrow> kept (result st) (result st')"
proof (induction E newNode opts client st st' rule: traverse_loop_induct)
  case (turn loop E newNode opts client st st')
  then show ?case using turn_kept [of st E newNode opts client]
    by (auto simp: Let_def split: if_splits intro: kept_trans)
qed

lemma enqueue_kept:
  "Nodes (result (enqueue_items E newNode items st)) = Nodes (result st) \<and>
   SchemaVersion (result (enqueue_items E newNode items st)) = SchemaVersion (result st) \<and>
   set (Targets (result st)) \<subseteq> set (Targets (result (enqueue_items E newNode items st)))"
proof (induction items arbitrary: st)
  case (Cons item items)
  let ?st = "enqueue_items E newNode [item] st"
  have "Nodes (result ?st) = Nodes (result st) \<and> SchemaVersion (result ?st) = SchemaVersion (result st) \<and>
      set (Targets (result st)) \<subseteq> set (Targets (result ?st))"
    by (auto simp: Let_def effect_defs split: option.split)
  moreover have "enqueue_items E newNode (item # items) st = enqueue_items E newNode items ?st" by simp
  ultimately show ?case using Cons.IH [of ?st] by (metis order_trans)
qed simp

lemma enqueue_length: "length (seen (enqueue_items E newNode items st)) \<le> length (seen st) + length items"
proof (induction items arbitrary: st)
  case (Cons item items)
  let ?st = "let n = node item newNode in
        case ValidateItem E n of
          Some err \<Rightarrow>
            st\<lparr>result := incomplete (add_diagnostic ''prepare'' prepareMethod (ID n) err
                 (add_terminal (boundary '''' InvalidServerResponse err) (result st)))\<rparr>
        | None \<Rightarrow>
            (let st1 = (if map_of (seen st) (ID n) = None
                        then st\<lparr>seen := AList.update (ID n) n (seen st),
                                queue := queue st @ [\<lparr>q_item = item, q_node = n, q_depth = 0\<rparr>]\<rparr>
                        else st)
             in st1\<lparr>result := (result st1)\<lparr>Targets := Targets (result st1) @ [ID n]\<rparr>\<rparr>)"
  have "length (seen ?st) \<le> Suc (length (seen st))"
    by (simp add: Let_def length_update_le split: option.split)
  then show ?case using Cons.IH [of ?st] by simp
qed simp

text \<open>
  A result that is hurt says that it is not complete, before \<open>Canonicalize\<close> sees it: a schema of version 1
  keeps this flag, the others compute it again.
\<close>

definition honest :: "Result \<Rightarrow> bool" where
  "honest r \<longleftrightarrow> (hurt r \<longrightarrow> \<not> Complete (RSummary r))"

definition honest_calls :: "tstate \<times> string list \<Rightarrow> bool" where
  "honest_calls s \<longleftrightarrow> honest (result (fst s)) \<and> (snd s \<noteq> [] \<longrightarrow> \<not> Complete (RSummary (result (fst s))))"

lemma honest_simps [simp]:
  "honest (incomplete r)" "honest (truncated r)" "\<not> Complete (RSummary (incomplete r))" "\<not> Complete (RSummary (truncated r))"
  "honest (add_diagnostic phase meth i m r) = honest r" "Complete (RSummary (add_diagnostic phase meth i m r)) = Complete (RSummary r)"
  "honest (result (record_edge q caller rs st)) = honest (result st)"
  "Complete (RSummary (result (record_edge q caller rs st))) = Complete (RSummary (result st))"
  by (simp_all add: honest_def hurt_def effect_defs record_edge_def Let_def split: option.split)

lemma add_call_honest: "honest_calls s \<Longrightarrow> honest_calls (add_call E newNode opts q call s)"
  by (cases s) (simp add: add_call_def honest_calls_def reject_caller_def Let_def split: option.split)

lemma fold_call_honest: "honest_calls s \<Longrightarrow> honest_calls (fold (add_call E newNode opts q) calls s)"
  by (induction calls arbitrary: s) (simp_all add: add_call_honest)

lemma add_calls_honest:
  assumes "honest (result st)"
  shows "honest (result (add_calls E newNode opts q calls st))"
  using fold_call_honest [of "(st, [])" E newNode opts q calls] assms
  by (auto simp: add_calls_def honest_calls_def honest_def hurt_def add_frontier_def split: prod.split)

lemma expand_honest:
  assumes "honest (result st)"
  shows "honest (result (expand E newNode opts client q st))"
proof -
  have "honest (r\<lparr>Quality := v\<rparr>) = honest r" for r v by (simp add: honest_def hurt_def)
  moreover have "honest (add_terminal (boundary i reason m) r)" if "honest r" "reason \<in> set naturalReasons" for i reason m r
    using that by (auto simp: honest_def hurt_def effect_defs)
  moreover have "honest (incomplete r)" for r by (simp add: honest_def incomplete_def)
  ultimately show ?thesis
    using assms by (simp add: expand_def Let_def add_calls_honest naturalReasons_def split: sum.split prod.split)
qed

lemma turn_honest: "honest (result st) \<Longrightarrow> honest (result (snd (turn E newNode opts client st)))"
  by (simp add: turn_def Let_def expand_honest split: option.split) (simp add: honest_def effect_defs)

lemma loop_honest: "traverse_loop E newNode opts client st = Some st' \<Longrightarrow> honest (result st) \<Longrightarrow> honest (result st')"
proof (induction E newNode opts client st st' rule: traverse_loop_induct)
  case (turn loop E newNode opts client st st')
  then show ?case using turn_honest [of st E newNode opts client] by (auto simp: Let_def split: if_splits)
qed

lemma enqueue_honest: "honest (result st) \<Longrightarrow> honest (result (enqueue_items E newNode items st))"
  by (induction items arbitrary: st) (simp_all add: honest_def hurt_def effect_defs Let_def split: option.split)

text \<open>Every result is the canonical form of a state that satisfies the invariant and is settled.\<close>

definition final_state :: "Client \<Rightarrow> (Item \<Rightarrow> Node) \<Rightarrow> string \<Rightarrow> tstate \<Rightarrow> bool" where
  "final_state client newNode version st \<longleftrightarrow> index_ok st \<and> view_ok client newNode {} (view st) \<and> settled st \<and>
     Nodes (result st) = [] \<and> SchemaVersion (result st) = version \<and> honest (result st)"

definition collect :: "tstate \<Rightarrow> Result" where
  "collect st = (result st)\<lparr>Nodes := Nodes (result st) @ map snd (seen st)\<rparr>"

definition version_of :: "Options \<Rightarrow> string" where
  "version_of opts = (if o_SchemaVersion opts = '''' then SchemaVersionV3 else o_SchemaVersion opts)"

definition siblings_of :: "env \<Rightarrow> Client \<Rightarrow> Options \<Rightarrow> CallHierarchyItem list \<Rightarrow> Result" where
  "siblings_of E client opts items =
     (let r0 = emptyResult (version_of opts); r1 = r0\<lparr>Quality := (Quality r0)\<lparr>PrepareSucceeded := True\<rparr>\<rparr>
      in if o_IncludeTopmostSiblings opts \<and> SupportsDocumentSymbols client
         then siblings_loop E (newNode_of E opts) (o_SiblingEvidence opts) client 0 items r1 else r1)"

lemma siblings_of_fields:
  "Edges (siblings_of E client opts items) = []" "Targets (siblings_of E client opts items) = []"
  "Nodes (siblings_of E client opts items) = []" "SchemaVersion (siblings_of E client opts items) = version_of opts"
  "honest (siblings_of E client opts items)"
  by (simp_all add: siblings_of_def Let_def siblings_keep emptyResult_def honest_def hurt_def)

lemma quiet_start:
  assumes "Edges r = []" "Targets r = []" "Nodes r = []" "honest r"
  shows "final_state client newNode (SchemaVersion r) (start_state r) \<and> collect (start_state r) = r \<and> requests (start_state r) = []"
  using start_ok [OF assms(1,2), of client newNode] assms(3,4)
  by (simp add: final_state_def settled_def start_state_def collect_def)

lemma loop_start:
  fixes E :: env and newNode :: "Item \<Rightarrow> Node" and items :: "CallHierarchyItem list" and client :: Client
  assumes "Edges r = []" "Targets r = []" "Nodes r = []" "honest r"
  defines "st \<equiv> enqueue_items E newNode items (start_state r)"
  shows "index_ok st \<and> view_ok client newNode {} (view st) \<and> Nodes (result st) = [] \<and>
    SchemaVersion (result st) = SchemaVersion r \<and> length (seen st) \<le> length items \<and> honest (result st)"
proof (intro conjI)
  show "index_ok st" "view_ok client newNode {} (view st)"
    using enqueue_items_ok [of "start_state r" client newNode E items] start_ok [OF assms(1,2), of client newNode]
    by (simp_all add: st_def)
  show "Nodes (result st) = []" "SchemaVersion (result st) = SchemaVersion r"
    using enqueue_kept [of E newNode items "start_state r"] assms(3) by (simp_all add: st_def start_state_def)
  show "length (seen st) \<le> length items"
    using enqueue_length [of E newNode items "start_state r"] by (simp add: st_def start_state_def)
  show "honest (result st)"
    using enqueue_honest [of "start_state r" E newNode items] assms(4) by (simp add: st_def start_state_def)
qed

lemma Incoming_run_unfold:
  "Incoming_run E client opts =
     (case PrepareCallHierarchy client of
        Inl err \<Rightarrow> Some (Canonicalize E (prepare_failed err (emptyResult (version_of opts))), [])
      | Inr items \<Rightarrow>
          if items = []
          then Some (Canonicalize E (add_terminal (boundary '''' PrepareReturnedNoItem '''') (siblings_of E client opts items)), [])
          else map_option (\<lambda>st. (Canonicalize E (collect st), requests st))
                 (traverse_loop E (newNode_of E opts) opts client
                    (enqueue_items E (newNode_of E opts) items (start_state (siblings_of E client opts items)))))"
  by (simp add: Incoming_run_def Let_def version_of_def siblings_of_def collect_def split: sum.split)

lemma Incoming_final:
  assumes "Incoming_run E client opts = Some (r, asked)"
  shows "\<exists>st. r = Canonicalize E (collect st) \<and> asked = requests st \<and>
    final_state client (newNode_of E opts) (version_of opts) st"
proof (cases "PrepareCallHierarchy client")
  case (Inl err)
  let ?r = "prepare_failed err (emptyResult (version_of opts))"
  have "Edges ?r = []" "Targets ?r = []" "Nodes ?r = []" "SchemaVersion ?r = version_of opts" "honest ?r"
    by (simp_all add: prepare_failed_def Let_def effect_defs emptyResult_def honest_def)
  with quiet_start [of ?r client "newNode_of E opts"] assms Inl show ?thesis
    by (intro exI [of _ "start_state ?r"]) (simp add: Incoming_run_unfold)
next
  case (Inr items)
  let ?r = "siblings_of E client opts items"
  note s = siblings_of_fields [of E client opts items]
  show ?thesis
  proof (cases "items = []")
    case True
    let ?r' = "add_terminal (boundary '''' PrepareReturnedNoItem '''') ?r"
    have "Edges ?r' = []" "Targets ?r' = []" "Nodes ?r' = []" "SchemaVersion ?r' = version_of opts" "honest ?r'"
      using s by (simp_all add: effect_defs honest_def hurt_def naturalReasons_def)
    with quiet_start [of ?r' client "newNode_of E opts"] assms Inr True show ?thesis
      by (intro exI [of _ "start_state ?r'"]) (simp add: Incoming_run_unfold)
  next
    case False
    let ?st = "enqueue_items E (newNode_of E opts) items (start_state ?r)"
    have l: "index_ok ?st" "view_ok client (newNode_of E opts) {} (view ?st)" "Nodes (result ?st) = []"
      "SchemaVersion (result ?st) = SchemaVersion ?r" "honest (result ?st)"
      using loop_start [OF s(1,2,3,5), where E = E and newNode = "newNode_of E opts" and items = items and client = client] by blast+
    from assms Inr False obtain st where st: "traverse_loop E (newNode_of E opts) opts client ?st = Some st"
      "r = Canonicalize E (collect st)" "asked = requests st" by (auto simp: Incoming_run_unfold)
    from traverse_loop_ok [OF st(1) l(1,2)] loop_kept [OF st(1)] loop_honest [OF st(1) l(5)] l(3,4) s(4) st(2,3) show ?thesis
      by (auto simp: final_state_def kept_def)
  qed
qed

section \<open>Correctness of the traversal\<close>

lemma canonical_set [simp]:
  "set (Nodes (Canonicalize E r)) = set (Nodes r)" "set (Targets (Canonicalize E r)) = set (Targets r)"
  "edge_key ` set (Edges (Canonicalize E r)) = edge_key ` set (Edges r)"
proof -
  have "edge_key (canonical_edge E e) = edge_key e" for e by (simp add: edge_key_def canonical_edge_def)
  then show "edge_key ` set (Edges (Canonicalize E r)) = edge_key ` set (Edges r)"
    by (simp add: Canonicalize_fields image_image)
  show "set (Nodes (Canonicalize E r)) = set (Nodes r)" by (simp add: Canonicalize_fields)
  show "set (Targets (Canonicalize E r)) = set (Targets r)"
    by (simp add: Canonicalize_def Let_def canonical_quality_def canonical_summary_def canonical_lists_def
        sortedUnique_def uniqueStrings_def)
qed

lemma canonical_complete:
  assumes "Complete (RSummary (Canonicalize E r))" and "honest r"
  shows "\<not> hurt r"
proof (cases "SchemaVersion r = SchemaVersionV1")
  case True
  have "SchemaVersion (canonical_lists E r) = SchemaVersion r" "RSummary (canonical_lists E r) = RSummary r"
    by (simp_all add: canonical_lists_def)
  with True have "Complete (RSummary (Canonicalize E r)) = Complete (RSummary r)"
    by (simp add: Canonicalize_def canonical_summary_def Let_def)
  with assms show ?thesis by (simp add: honest_def)
next
  case False
  let ?l = "canonical_lists E r"
  have "SchemaVersion ?l = SchemaVersion r" by (simp add: canonical_lists_def)
  with assms False have c: "canonicalTraversalComplete ((canonical_summary ?l)\<lparr>Quality := Quality (canonical_quality E (canonical_summary ?l))\<rparr>)"
    by (simp add: Canonicalize_def canonical_quality_def Let_def)
  then have "Frontier ?l = []" "\<forall>b \<in> set (Terminals ?l). BReason b \<in> set naturalReasons"
    by (simp_all add: canonicalTraversalComplete_def canonical_summary_def)
  moreover have "BReason (terminal_provenance b) = BReason b" for b by (simp add: terminal_provenance_def)
  moreover have "sort_key boundary_key (Frontier r) = [] \<longleftrightarrow> Frontier r = []" by (metis length_0_conv length_sort)
  ultimately show ?thesis by (simp add: canonical_lists_def hurt_def)
qed

lemma final_keys:
  assumes "final_state client newNode version st"
  shows "ID ` set (Nodes (collect st)) = a_keys (view st)" "distinct (map ID (Nodes (collect st)))"
proof -
  have n: "Nodes (collect st) = map snd (seen st)" using assms by (simp add: final_state_def collect_def)
  have k: "distinct (mkeys (seen st))" "\<forall>p \<in> set (seen st). ID (snd p) = fst p"
    using assms by (simp_all add: final_state_def view_ok_def keys_ok_def)
  have m: "map ID (Nodes (collect st)) = mkeys (seen st)" using n k(2) by simp
  then show "distinct (map ID (Nodes (collect st)))" using k(1) by simp
  show "ID ` set (Nodes (collect st)) = a_keys (view st)" using m by (metis list.set_map view_fields(1))
qed

text \<open>
  C2. Whatever the server answers, a trace that is returned is sound: node identifiers are unique and
  edges are sorted and unique; every end point and every target is a node; every node reaches a target
  along the edges; and every edge is a call the server reported in its answer to one of the requests the
  traversal made, a request about the callee.
\<close>

theorem Incoming_sound:
  assumes "Incoming_run E client opts = Some (r, asked)"
  shows "distinct (map ID (Nodes r)) \<and> sorted_wrt (<) (map edge_key (Edges r)) \<and>
    set (Targets r) \<subseteq> ID ` set (Nodes r) \<and> edge_key ` set (Edges r) \<subseteq> (ID ` set (Nodes r)) \<times> (ID ` set (Nodes r)) \<and>
    (\<forall>n \<in> set (Nodes r). \<exists>t \<in> set (Targets r). (ID n, t) \<in> (edge_key ` set (Edges r))\<^sup>*) \<and>
    (\<forall>e \<in> set (Edges r). reported client (newNode_of E opts) asked (CallerNodeID e) (CalleeNodeID e))"
proof -
  from Incoming_final [OF assms] obtain st where r: "r = Canonicalize E (collect st)"
    and asked: "asked = requests st" and f: "final_state client (newNode_of E opts) (version_of opts) st" by blast
  have k: "keys_ok (view st)" "log_ok client (newNode_of E opts) {} (view st)" "index_ok st"
    using f by (simp_all add: final_state_def view_ok_def)
  have fields: "Targets (collect st) = Targets (result st)" "Edges (collect st) = Edges (result st)" by (simp_all add: collect_def)
  note keys = final_keys [OF f]
  have "distinct (map ID (Nodes r))"
    using keys(2) unfolding r Canonicalize_fields by (metis distinct_map distinct_sort set_sort)
  moreover have "sorted_wrt (<) (map edge_key (Edges r))"
  proof -
    have "map edge_key (map (canonical_edge E) (Edges (collect st))) = map edge_key (Edges (result st))"
      by (simp add: fields edge_key_def canonical_edge_def)
    then have "distinct (map edge_key (map (canonical_edge E) (Edges (collect st))))" using k(3) by (simp add: index_ok_def)
    then have "distinct (map edge_key (Edges r))" unfolding r Canonicalize_fields by (metis distinct_map distinct_sort set_sort)
    moreover have "sorted (map edge_key (Edges r))" by (simp add: r Canonicalize_fields)
    ultimately show ?thesis by (simp add: strict_sorted_iff)
  qed
  moreover have "set (Targets r) \<subseteq> ID ` set (Nodes r)" "edge_key ` set (Edges r) \<subseteq> (ID ` set (Nodes r)) \<times> (ID ` set (Nodes r))"
    using k(1) unfolding r canonical_set keys(1) fields keys_ok_def by simp_all
  moreover have "\<exists>t \<in> set (Targets r). (ID n, t) \<in> (edge_key ` set (Edges r))\<^sup>*" if "n \<in> set (Nodes r)" for n
  proof -
    have "ID n \<in> a_keys (view st)" using that keys(1) unfolding r canonical_set by blast
    then have "\<exists>t \<in> a_targets (view st). (ID n, t) \<in> (a_edges (view st))\<^sup>*" using k(1) unfolding keys_ok_def by blast
    then show ?thesis unfolding r canonical_set fields by simp
  qed
  moreover have "reported client (newNode_of E opts) asked (CallerNodeID e) (CalleeNodeID e)" if "e \<in> set (Edges r)" for e
  proof -
    have "edge_key e \<in> edge_key ` set (Edges r)" using that by simp
    then have "edge_key e \<in> a_edges (view st)" unfolding r canonical_set fields by simp
    then show ?thesis using k(2) asked unfolding log_ok_def edge_key_def by auto
  qed
  ultimately show ?thesis by blast
qed

text \<open>
  C1. A trace that says it is complete is complete: every node of the trace is the subject of a request the
  traversal made for incoming calls, the server answered that request, and every caller it reported in the
  answer has an edge to the node. Nothing a bound, an error, a cancellation or a rejected response left out
  can go unreported. This holds for every version of the schema.
\<close>

theorem Incoming_complete:
  assumes "Incoming_run E client opts = Some (r, asked)" and "Complete (RSummary r)"
  shows "\<forall>n \<in> set (Nodes r). \<exists>k < length asked. \<exists>calls wasNull.
    ID (node (asked ! k) (newNode_of E opts)) = ID n \<and> IncomingCalls client k (asked ! k) = Inr (calls, wasNull) \<and>
    (wasNull \<or> (\<forall>call \<in> set calls. (ID (node (From call) (newNode_of E opts)), ID n) \<in> edge_key ` set (Edges r)))"
proof
  fix n assume n: "n \<in> set (Nodes r)"
  from Incoming_final [OF assms(1)] obtain st where r: "r = Canonicalize E (collect st)" and asked: "asked = requests st"
    and f: "final_state client (newNode_of E opts) (version_of opts) st" by blast
  have "honest (collect st)" using f by (simp add: final_state_def collect_def honest_def hurt_def)
  with assms(2) have "\<not> hurt (collect st)" unfolding r by (rule canonical_complete)
  then have nh: "\<not> hurt (result st)" by (simp add: hurt_def collect_def)
  then have q: "queue st = []" and fr: "Frontier (result st) = []"
    using f by (auto simp: final_state_def settled_def hurt_def)
  have "ID n \<in> a_keys (view st)" using n final_keys(1) [OF f] unfolding r canonical_set by blast
  moreover have "a_keys (view st) \<subseteq> q_id ` set (queue st) \<union> expanded st \<union> BNodeID ` set (Frontier (result st))"
    using f by (simp add: final_state_def view_ok_def keys_ok_def)
  ultimately have "ID n \<in> expanded st" using q fr by auto
  then have "answered client (newNode_of E opts) (view st) (ID n)"
    using f by (simp add: final_state_def view_ok_def log_ok_def)
  then show "\<exists>k < length asked. \<exists>calls wasNull.
    ID (node (asked ! k) (newNode_of E opts)) = ID n \<and> IncomingCalls client k (asked ! k) = Inr (calls, wasNull) \<and>
    (wasNull \<or> (\<forall>call \<in> set calls. (ID (node (From call) (newNode_of E opts)), ID n) \<in> edge_key ` set (Edges r)))"
    using nh unfolding r asked canonical_set answered_def by (auto simp: collect_def)
qed

lemma Incoming_ends:
  assumes "0 < o_MaxNodes opts"
  shows "\<exists>r. Incoming E client opts = Some r \<and>
    int (length (Nodes r)) \<le> max (o_MaxNodes opts) (case PrepareCallHierarchy client of Inl _ \<Rightarrow> 0 | Inr items \<Rightarrow> int (length items))"
proof (cases "PrepareCallHierarchy client")
  case (Inl err)
  then show ?thesis using assms
    by (simp add: Incoming_def Incoming_run_unfold Canonicalize_fields prepare_failed_def Let_def effect_defs emptyResult_def)
next
  case (Inr items)
  let ?r = "siblings_of E client opts items"
  note s = siblings_of_fields [of E client opts items]
  show ?thesis
  proof (cases "items = []")
    case True
    then show ?thesis using assms Inr s(3) by (simp add: Incoming_def Incoming_run_unfold Canonicalize_fields add_terminal_def)
  next
    case False
    let ?st = "enqueue_items E (newNode_of E opts) items (start_state ?r)"
    define B where "B = max (nat (o_MaxNodes opts)) (length items)"
    have l: "index_ok ?st" "view_ok client (newNode_of E opts) {} (view ?st)" "Nodes (result ?st) = []"
      "SchemaVersion (result ?st) = SchemaVersion ?r" "length (seen ?st) \<le> length items"
      using loop_start [OF s(1,2,3,5), where E = E and newNode = "newNode_of E opts" and items = items and client = client] by blast+
    have "bounded B ?st" using l(5) by (simp add: bounded_def B_def)
    moreover have "o_MaxNodes opts \<le> int B" using assms by (simp add: B_def)
    ultimately obtain st where st: "traverse_loop E (newNode_of E opts) opts client ?st = Some st" "bounded B st"
      using traverse_loop_returns [OF assms _ l(1,2)] by blast
    have "Nodes (result st) = []" using loop_kept [OF st(1)] l(3) by (simp add: kept_def)
    then have "length (Nodes (Canonicalize E (collect st))) \<le> B" using st(2) by (simp add: Canonicalize_fields collect_def bounded_def)
    with st(1) Inr False assms show ?thesis by (auto simp: Incoming_def Incoming_run_unfold B_def)
  qed
qed

text \<open>
  C3. With a positive node bound the traversal always returns, whatever the server reports, and the trace
  has at most as many nodes as the larger of the bound and the number of prepared items. The bound is
  checked for reported callers only: the prepared items all become nodes, so the bound alone does not
  limit the trace.
\<close>

theorem Incoming_returns:
  assumes "0 < o_MaxNodes opts"
  shows "\<exists>r. Incoming E client opts = Some r \<and>
    int (length (Nodes r)) \<le> max (o_MaxNodes opts) (case PrepareCallHierarchy client of Inl _ \<Rightarrow> 0 | Inr items \<Rightarrow> int (length items))"
  by (rule Incoming_ends [OF assms])

text \<open>The prepared items with a valid node are all targets, and so nodes, whatever the bound.\<close>

lemma enqueue_targets:
  "item \<in> set items \<Longrightarrow> ValidateItem E (node item newNode) = None \<Longrightarrow>
     ID (node item newNode) \<in> set (Targets (result (enqueue_items E newNode items st)))"
proof (induction items arbitrary: st)
  case (Cons i items)
  show ?case
  proof (cases "item = i")
    case True
    let ?n = "node i newNode"
    let ?st = "let st1 = (if map_of (seen st) (ID ?n) = None
        then st\<lparr>seen := AList.update (ID ?n) ?n (seen st), queue := queue st @ [\<lparr>q_item = i, q_node = ?n, q_depth = 0\<rparr>]\<rparr> else st)
      in st1\<lparr>result := (result st1)\<lparr>Targets := Targets (result st1) @ [ID ?n]\<rparr>\<rparr>"
    have "ID ?n \<in> set (Targets (result ?st))" by (simp add: Let_def)
    with enqueue_kept [of E newNode items ?st] have "ID ?n \<in> set (Targets (result (enqueue_items E newNode items ?st)))" by blast
    then show ?thesis using True Cons.prems(2) by (simp add: Let_def)
  next
    case False
    with Cons.prems have "item \<in> set items" by simp
    from Cons.IH [OF this Cons.prems(2)] show ?thesis by simp
  qed
qed simp

lemma prepared_items_are_nodes:
  assumes "Incoming E client opts = Some r" and "PrepareCallHierarchy client = Inr items" and "item \<in> set items"
    and "ValidateItem E (node item (newNode_of E opts)) = None"
  shows "ID (node item (newNode_of E opts)) \<in> ID ` set (Nodes r)"
proof -
  let ?st = "enqueue_items E (newNode_of E opts) items (start_state (siblings_of E client opts items))"
  have "items \<noteq> []" using assms(3) by auto
  with assms(1,2) obtain st where st: "traverse_loop E (newNode_of E opts) opts client ?st = Some st" "r = Canonicalize E (collect st)"
    "Incoming_run E client opts = Some (r, requests st)" by (auto simp: Incoming_def Incoming_run_unfold)
  have "ID (node item (newNode_of E opts)) \<in> set (Targets (result ?st))" by (rule enqueue_targets [OF assms(3,4)])
  then have "ID (node item (newNode_of E opts)) \<in> set (Targets r)"
    using loop_kept [OF st(1)] unfolding st(2) canonical_set by (auto simp: kept_def collect_def)
  moreover have "set (Targets r) \<subseteq> ID ` set (Nodes r)"
  proof -
    from Incoming_final [OF st(3)] obtain st' where f: "r = Canonicalize E (collect st')"
      "final_state client (newNode_of E opts) (version_of opts) st'" by blast
    then have "keys_ok (view st')" by (simp add: final_state_def view_ok_def)
    then show ?thesis unfolding f(1) canonical_set final_keys(1) [OF f(2)] by (simp add: keys_ok_def collect_def)
  qed
  ultimately show ?thesis by blast
qed

section \<open>A run\<close>

text \<open>A caller \<open>b\<close> calls the target \<open>a\<close>; the server reports no caller of \<open>b\<close>.\<close>

definition sample_item :: "string \<Rightarrow> CallHierarchyItem" where
  "sample_item i = \<lparr>c_Name = i, c_Kind = 12, c_Tags = [], c_Detail = '''', c_URI = ''file:///a'', c_Range = sample_range,
     c_SelectionRange = sample_range, c_Data = ''''\<rparr>"

definition sample_client :: Client where
  "sample_client = \<lparr>PrepareCallHierarchy = Inr [sample_item ''a''],
     IncomingCalls = (\<lambda>k item. Inr (if c_Name item = ''a'' then [\<lparr>From = sample_item ''b'', FromRanges = [sample_range]\<rparr>] else [], False)),
     SupportsDocumentSymbols = False, DocSymbols = (\<lambda>k uri. Inr []), CtxErr = (\<lambda>k. None)\<rparr>"

definition sample_options :: Options where
  "sample_options = \<lparr>o_MaxDepth = 0, o_MaxNodes = 10, o_NodeFactory = Some (\<lambda>i. sample_node (Name i)), o_SchemaVersion = '''',
     o_IncludeTopmostSiblings = False,
     o_SiblingEvidence = \<lparr>ev_SeedURI = '''', ev_SeedLabel = '''', ev_SeedIdentity = '''', ev_SourceDigest = '''',
       ev_ProviderRef = '''', ev_Revision = '''', ev_Custody = ''''\<rparr>\<rparr>"

definition sample_trace :: Result where
  "sample_trace = (emptyResult SchemaVersionV3)\<lparr>Targets := [''a''], Nodes := [sample_node ''a'', sample_node ''b''],
     Edges := [\<lparr>ERelationID = '''', EExecutionBundleID = '''', CallerNodeID = ''b'', CalleeNodeID = ''a'', CallSites = [sample_range]\<rparr>],
     Terminals := [boundary ''b'' ServerReportedNoIncoming ''''],
     Quality := zeroQuality\<lparr>PrepareSucceeded := True, IncomingRequestSuccesses := 2, CrossModuleEdges := Unknown\<rparr>\<rparr>"

lemma sample_loop:
  "map_option (\<lambda>st. (collect st, requests st)) (traverse_loop sample_env (newNode_of sample_env sample_options) sample_options sample_client
     (enqueue_items sample_env (newNode_of sample_env sample_options) [sample_item ''a'']
        (start_state (siblings_of sample_env sample_client sample_options [sample_item ''a'']))))
   = Some (sample_trace, [sample_item ''a'', sample_item ''b''])"
  by code_simp

lemma sample_run:
  "Incoming_run sample_env sample_client sample_options
   = Some (Canonicalize sample_env sample_trace, [sample_item ''a'', sample_item ''b''])"
proof -
  have "PrepareCallHierarchy sample_client = Inr [sample_item ''a'']" by (simp add: sample_client_def)
  then show ?thesis using sample_loop by (auto simp: Incoming_run_unfold)
qed

lemma sample_complete: "Complete (RSummary (Canonicalize sample_env sample_trace))"
  by code_simp

lemma sample_nodes: "map ID (Nodes (Canonicalize sample_env sample_trace)) = [''a'', ''b'']"
  by code_simp

lemma sample_bound: "0 < o_MaxNodes sample_options"
  by (simp add: sample_options_def)

lemma Incoming_sound_witness:
  "distinct (map ID (Nodes (Canonicalize sample_env sample_trace)))"
  using Incoming_sound [OF sample_run] by blast

lemma Incoming_complete_witness:
  "Complete (RSummary (Canonicalize sample_env sample_trace)) \<and>
   (\<exists>k < 2. \<exists>calls wasNull. ID (node ([sample_item ''a'', sample_item ''b''] ! k) (newNode_of sample_env sample_options)) = ''b'' \<and>
     IncomingCalls sample_client k ([sample_item ''a'', sample_item ''b''] ! k) = Inr (calls, wasNull))"
proof -
  have "''b'' \<in> set (map ID (Nodes (Canonicalize sample_env sample_trace)))" unfolding sample_nodes by simp
  then obtain n where n: "n \<in> set (Nodes (Canonicalize sample_env sample_trace))" "ID n = ''b''" by auto
  from bspec [OF Incoming_complete [OF sample_run sample_complete] n(1)] n(2) show ?thesis
    using sample_complete by (auto simp: numeral_2_eq_2)
qed

lemma Incoming_returns_witness: "\<exists>r. Incoming sample_env sample_client sample_options = Some r \<and> int (length (Nodes r)) \<le> 10"
  using Incoming_returns [OF sample_bound, of sample_env sample_client]
  by (simp add: sample_client_def sample_options_def)

end
