(* ===== verification/Slicer.thy ===== *)
theory Slicer
  imports Traverse
begin

text \<open>
  Package \<open>internal/slicer\<close>: the discovery of a slice. \<open>Discover\<close> prepares a call-hierarchy item for every symbol
  of a document, follows outgoing calls breadth first down to \<open>DownDepth\<close> and reports the nodes by layer;
  \<open>DiscoverPrepared\<close> does so from prepared items.

  The language server and the context are parameters, as in theory \<open>Traverse\<close>: the \<open>k\<close>-th request of a kind is
  answered by the behaviour at index \<open>k\<close>. Unlike the incoming traversal the loop ends without a node
  bound: every queue entry lies one level below the entry that produced it, and entries at \<open>DownDepth\<close> are not
  expanded.
\<close>

record CallHierarchyOutgoingCall =
  To :: CallHierarchyItem
  ToRanges :: "Range list"

record SliceClient =
  sc_SupportsDocumentSymbols :: bool
  sc_DocumentSymbols :: "go_error + DocumentSymbol list"
  sc_PrepareCallHierarchy :: "nat \<Rightarrow> Position \<Rightarrow> go_error + CallHierarchyItem list"
  sc_OutgoingCalls :: "nat \<Rightarrow> CallHierarchyItem \<Rightarrow> go_error + CallHierarchyOutgoingCall list \<times> bool"
  sc_CtxErr :: "nat \<Rightarrow> go_error option"

record LayerT =
  l_Depth :: nat
  l_NodeIDs :: "string list"

record PreparationDisposition =
  p_Name :: string
  p_Kind :: int
  p_SelectionRange :: Range
  p_Status :: string
  p_PreparedItemIDs :: "string list"
  p_Message :: string

record PreparationAccounting =
  pa_DocumentSymbols :: int
  pa_Attempted :: int
  pa_Prepared :: int
  pa_NotPreparable :: int
  pa_Failed :: int

record Discovery =
  dc_SourceURI :: string
  dc_Dispositions :: "PreparationDisposition list"
  dc_Accounting :: PreparationAccounting
  dc_CensusComplete :: bool
  dc_TraversalComplete :: bool
  dc_StartNodeIDs :: "string list"
  dc_Layers :: "LayerT list"
  dc_FrontierItems :: "CallHierarchyItem list"
  dc_OutgoingTerminalItems :: "CallHierarchyItem list"
  dc_UpwardStartItems :: "CallHierarchyItem list"
  dc_Nodes :: "Node list"
  dc_Edges :: "Edge list"
  dc_Diagnostics :: "Diagnostic list"
  dc_Complete :: bool
  dc_Truncated :: bool

record SliceOptions =
  so_DownDepth :: int
  so_MaxNodes :: int

definition SameSemanticLocation :: "Node \<Rightarrow> Node \<Rightarrow> bool" where
  "SameSemanticLocation a b \<longleftrightarrow>
     (Name a, Kind a, URI a, SelectionRange a) = (Name b, Kind b, URI b, SelectionRange b)"

definition slice_node :: "env \<Rightarrow> CallHierarchyItem \<Rightarrow> Node" where
  "slice_node E item = node item (NewNode E)"

definition item_key :: "env \<Rightarrow> CallHierarchyItem \<Rightarrow> string" where
  "item_key E item = ID (slice_node E item)"

definition callee_key :: "env \<Rightarrow> CallHierarchyOutgoingCall \<Rightarrow> string" where
  "callee_key E call = ID (slice_node E (To call))"

function flatten_symbols :: "DocumentSymbol list \<Rightarrow> DocumentSymbol list" where
  "flatten_symbols [] = []"
| "flatten_symbols (s # ss) = s # flatten_symbols (sym_Children s) @ flatten_symbols ss"
  by pat_completeness auto
termination
proof (relation "measure (size_list size)")
  fix s :: DocumentSymbol and ss
  show "(sym_Children s, s # ss) \<in> measure (size_list size)" by (cases s) simp
qed simp_all

definition symbol_key :: "DocumentSymbol \<Rightarrow> u32 \<times> u32 \<times> int \<times> string" where
  "symbol_key s = (Line (Start (sym_SelectionRange s)), Character (Start (sym_SelectionRange s)), sym_Kind s, sym_Name s)"

definition emptyDiscovery :: "string \<Rightarrow> Discovery" where
  "emptyDiscovery uri = \<lparr>dc_SourceURI = uri, dc_Dispositions = [],
     dc_Accounting = \<lparr>pa_DocumentSymbols = 0, pa_Attempted = 0, pa_Prepared = 0, pa_NotPreparable = 0, pa_Failed = 0\<rparr>,
     dc_CensusComplete = True, dc_TraversalComplete = True, dc_StartNodeIDs = [], dc_Layers = [], dc_FrontierItems = [],
     dc_OutgoingTerminalItems = [], dc_UpwardStartItems = [], dc_Nodes = [], dc_Edges = [], dc_Diagnostics = [],
     dc_Complete = True, dc_Truncated = False\<rparr>"

definition outgoingMethod :: string where "outgoingMethod = ''callHierarchy/outgoingCalls''"

definition slice_diagnostic :: "string \<Rightarrow> string \<Rightarrow> string \<Rightarrow> string \<Rightarrow> Discovery \<Rightarrow> Discovery" where
  "slice_diagnostic phase meth nid msg d = d\<lparr>dc_Diagnostics := dc_Diagnostics d @
     [\<lparr>Phase = phase, Method = meth, DNodeID = nid, Category = NoCategory, DMessage = msg\<rparr>]\<rparr>"

definition not_complete :: "Discovery \<Rightarrow> Discovery" where
  "not_complete d = d\<lparr>dc_Complete := False\<rparr>"

definition slice_truncated :: "Discovery \<Rightarrow> Discovery" where
  "slice_truncated d = d\<lparr>dc_Complete := False, dc_Truncated := True\<rparr>"

section \<open>Preparation\<close>

text \<open>The maps of \<open>Discover\<close>, its queue, and the number of requests and of context queries so far.\<close>

record dstate =
  discovery :: Discovery
  itemsByID :: "(string, CallHierarchyItem) go_map"
  nodesByID :: "(string, Node) go_map"
  depthByID :: "string \<Rightarrow> nat"
  d_queue :: "queued list"
  d_expanded :: "string set"
  d_prepares :: nat
  d_requests :: "CallHierarchyItem list"
  d_checks :: nat

definition discover_start :: "Discovery \<Rightarrow> dstate" where
  "discover_start d = \<lparr>discovery = d, itemsByID = [], nodesByID = [], depthByID = (\<lambda>_. 0), d_queue = [], d_expanded = {},
     d_prepares = 0, d_requests = [], d_checks = 0\<rparr>"

definition at_bound :: "SliceOptions \<Rightarrow> dstate \<Rightarrow> bool" where
  "at_bound opts st \<longleftrightarrow> so_MaxNodes opts > 0 \<and> int (length (itemsByID st)) \<ge> so_MaxNodes opts"

text \<open>A new node: the three maps and the queue.\<close>

definition admit_node :: "CallHierarchyItem \<Rightarrow> Node \<Rightarrow> nat \<Rightarrow> dstate \<Rightarrow> dstate" where
  "admit_node item n depth st =
     st\<lparr>itemsByID := AList.update (ID n) item (itemsByID st), nodesByID := AList.update (ID n) n (nodesByID st),
        depthByID := (depthByID st)(ID n := depth),
        d_queue := d_queue st @ [\<lparr>q_item = item, q_node = n, q_depth = int depth\<rparr>]\<rparr>"

text \<open>The body of the loop over the items prepared for a symbol.\<close>

definition prepare_item :: "env \<Rightarrow> SliceOptions \<Rightarrow> CallHierarchyItem \<Rightarrow> dstate \<times> PreparationDisposition
    \<Rightarrow> dstate \<times> PreparationDisposition" where
  "prepare_item E opts item s =
     (case s of (st, disposition) \<Rightarrow>
       (let n = slice_node E item in
        case ValidateItem E n of
          Some err \<Rightarrow>
            (st\<lparr>discovery := slice_diagnostic ''slice-prepare'' prepareMethod (ID n) err (not_complete (discovery st))\<rparr>,
             disposition\<lparr>p_Message := err\<rparr>)
        | None \<Rightarrow>
            if (case map_of (nodesByID st) (ID n) of None \<Rightarrow> False | Some existing \<Rightarrow> \<not> SameNodeIdentity existing n)
            then (st\<lparr>discovery := slice_diagnostic ''slice-prepare'' prepareMethod (ID n) ''conflicting prepared node identity''
                        (not_complete (discovery st))\<rparr>,
                  disposition\<lparr>p_Message := ''conflicting prepared node identity''\<rparr>)
            else
              (let disposition1 = disposition\<lparr>p_PreparedItemIDs := p_PreparedItemIDs disposition @ [ID n]\<rparr> in
               if map_of (itemsByID st) (ID n) \<noteq> None then (st, disposition1)
               else if at_bound opts st then (st\<lparr>discovery := slice_truncated (discovery st)\<rparr>, disposition1)
               else
                 (let st1 = admit_node item n 0 st in
                  (st1\<lparr>discovery := (discovery st1)\<lparr>dc_StartNodeIDs := dc_StartNodeIDs (discovery st1) @ [ID n]\<rparr>\<rparr>,
                   disposition1)))))"

definition account :: "(PreparationAccounting \<Rightarrow> PreparationAccounting) \<Rightarrow> Discovery \<Rightarrow> Discovery" where
  "account f d = d\<lparr>dc_Accounting := f (dc_Accounting d)\<rparr>"

definition dispose :: "PreparationDisposition \<Rightarrow> Discovery \<Rightarrow> Discovery" where
  "dispose p d = d\<lparr>dc_Dispositions := dc_Dispositions d @ [p]\<rparr>"

text \<open>A disposition with a message is counted as failed although it was counted as prepared first.\<close>

definition finish_disposition :: "dstate \<times> PreparationDisposition \<Rightarrow> dstate" where
  "finish_disposition s =
     (case s of (st, p) \<Rightarrow>
       (let d = discovery st;
            p1 = (if p_Message p \<noteq> '''' then p\<lparr>p_Status := ''failed''\<rparr> else p);
            d1 = (if p_Message p \<noteq> ''''
                  then (account (\<lambda>a. a\<lparr>pa_Prepared := pa_Prepared a - 1, pa_Failed := pa_Failed a + 1\<rparr>) d)\<lparr>dc_CensusComplete := False\<rparr>
                  else d)
        in st\<lparr>discovery := dispose (p1\<lparr>p_PreparedItemIDs := sort (p_PreparedItemIDs p1)\<rparr>) d1\<rparr>))"

definition prepare_symbol :: "env \<Rightarrow> SliceOptions \<Rightarrow> SliceClient \<Rightarrow> DocumentSymbol \<Rightarrow> dstate \<Rightarrow> dstate" where
  "prepare_symbol E opts client symbol st =
     (let p = \<lparr>p_Name = sym_Name symbol, p_Kind = sym_Kind symbol, p_SelectionRange = sym_SelectionRange symbol,
               p_Status = '''', p_PreparedItemIDs = [], p_Message = ''''\<rparr>;
          st1 = st\<lparr>discovery := account (\<lambda>a. a\<lparr>pa_Attempted := pa_Attempted a + 1\<rparr>) (discovery st),
                   d_prepares := Suc (d_prepares st)\<rparr>;
          d1 = discovery st1
      in case sc_PrepareCallHierarchy client (d_prepares st) (Start (sym_SelectionRange symbol)) of
           Inl err \<Rightarrow>
             st1\<lparr>discovery := dispose (p\<lparr>p_Status := ''failed'', p_Message := ErrText err\<rparr>)
                  (slice_diagnostic ''slice-prepare'' prepareMethod '''' (ErrText err)
                    ((account (\<lambda>a. a\<lparr>pa_Failed := pa_Failed a + 1\<rparr>) d1)\<lparr>dc_CensusComplete := False, dc_Complete := False\<rparr>))\<rparr>
         | Inr items \<Rightarrow>
             if items = []
             then st1\<lparr>discovery := dispose (p\<lparr>p_Status := ''not_preparable''\<rparr>)
                    (account (\<lambda>a. a\<lparr>pa_NotPreparable := pa_NotPreparable a + 1\<rparr>) d1)\<rparr>
             else finish_disposition (fold (prepare_item E opts) items
                    (st1\<lparr>discovery := account (\<lambda>a. a\<lparr>pa_Prepared := pa_Prepared a + 1\<rparr>) d1\<rparr>, p\<lparr>p_Status := ''prepared''\<rparr>)))"

section \<open>Outgoing calls\<close>

definition omittedCalleeDiagnostic :: "env \<Rightarrow> string \<Rightarrow> string list \<Rightarrow> Discovery \<Rightarrow> Discovery" where
  "omittedCalleeDiagnostic E nid reported =
     (let out = uniqueStrings (sort reported);
          digest = Sha E (''['' @ json_join (map json_string out) @ '']'')
      in slice_diagnostic ''slice-traverse'' outgoingMethod nid
           (''callees omitted by node bound: reports='' @ dec (length reported) @ '' unique_callees='' @
            dec (length out) @ '' ids_digest=sha256:'' @ digest @ '' identities=OMITTED_FROM_BOUNDED_SLICE''))"

text \<open>A callee is the one known node at the same semantic location, when there is exactly one.\<close>

definition resolve_callee :: "(string, Node) go_map \<Rightarrow> Node \<Rightarrow> Node" where
  "resolve_callee nodes callee =
     (case filter (\<lambda>n. SameSemanticLocation n callee) (map snd nodes) of [m] \<Rightarrow> m | _ \<Rightarrow> callee)"

definition outgoing_failed :: "queued \<Rightarrow> string \<Rightarrow> dstate \<Rightarrow> dstate" where
  "outgoing_failed q msg st =
     st\<lparr>discovery := slice_diagnostic ''slice-outgoing'' outgoingMethod (ID (q_node q)) msg (not_complete (discovery st))\<rparr>"

definition link :: "env \<Rightarrow> queued \<Rightarrow> Node \<Rightarrow> Range list \<Rightarrow> dstate \<Rightarrow> dstate" where
  "link E q callee ranges st =
     st\<lparr>discovery := (discovery st)\<lparr>dc_Edges := MergeEdge E (dc_Edges (discovery st))
          \<lparr>ERelationID = '''', EExecutionBundleID = '''', CallerNodeID = ID (q_node q), CalleeNodeID = ID callee, CallSites = ranges\<rparr>\<rparr>\<rparr>"

text \<open>The body of the loop over the reported calls; the second component collects the omitted callees.\<close>

definition add_callee :: "env \<Rightarrow> SliceOptions \<Rightarrow> queued \<Rightarrow> CallHierarchyOutgoingCall \<Rightarrow> dstate \<times> string list \<Rightarrow> dstate \<times> string list" where
  "add_callee E opts q call s =
     (case s of (st, omitted) \<Rightarrow>
       (let callee = resolve_callee (nodesByID st) (slice_node E (To call)); ranges = map rng (ToRanges call) in
        case ValidateItem E callee of
          Some err \<Rightarrow> (outgoing_failed q err st, omitted)
        | None \<Rightarrow>
            (case find (\<lambda>r. ValidateRange r \<noteq> None) ranges of
               Some bad \<Rightarrow> (outgoing_failed q (the (ValidateRange bad)) st, omitted)
             | None \<Rightarrow>
                 if map_of (itemsByID st) (ID callee) \<noteq> None then (link E q callee ranges st, omitted)
                 else if at_bound opts st
                   then (st\<lparr>discovery := slice_truncated (discovery st)\<rparr>, omitted @ [ID callee])
                 else (link E q callee ranges (admit_node (To call) callee (Suc (nat (q_depth q))) st), omitted))))"

definition expand_outgoing :: "env \<Rightarrow> SliceOptions \<Rightarrow> SliceClient \<Rightarrow> queued \<Rightarrow> dstate \<Rightarrow> dstate" where
  "expand_outgoing E opts client q st =
     (let nid = ID (q_node q);
          st1 = st\<lparr>d_expanded := insert nid (d_expanded st), d_requests := d_requests st @ [q_item q]\<rparr>
      in case sc_OutgoingCalls client (length (d_requests st)) (q_item q) of
           Inl err \<Rightarrow> outgoing_failed q (ErrText err) st1
         | Inr (calls, wasNull) \<Rightarrow>
             if wasNull then outgoing_failed q ''server returned null'' st1
             else if calls = []
               then st1\<lparr>discovery := (discovery st1)\<lparr>dc_OutgoingTerminalItems := dc_OutgoingTerminalItems (discovery st1) @ [q_item q]\<rparr>\<rparr>
             else
               (case fold (add_callee E opts q) (sort_key (callee_key E) calls) (st1, []) of
                  (st2, omitted) \<Rightarrow>
                    if omitted \<noteq> [] then st2\<lparr>discovery := omittedCalleeDiagnostic E nid omitted (discovery st2)\<rparr> else st2))"

text \<open>One iteration of the main loop; the first component says that the loop breaks.\<close>

definition discover_turn :: "env \<Rightarrow> SliceOptions \<Rightarrow> SliceClient \<Rightarrow> dstate \<Rightarrow> bool \<times> dstate" where
  "discover_turn E opts client st =
     (let sorted_queue = sort_key queue_key (d_queue st);
          q = hd sorted_queue;
          st1 = st\<lparr>d_queue := tl sorted_queue\<rparr>
      in if q_depth q \<ge> so_DownDepth opts \<or> ID (q_node q) \<in> d_expanded st1 then (False, st1)
         else
           (let st2 = st1\<lparr>d_checks := Suc (d_checks st1)\<rparr> in
            case sc_CtxErr client (d_checks st1) of
              Some err \<Rightarrow>
                (True, st2\<lparr>discovery := slice_diagnostic ''slice-outgoing'' outgoingMethod (ID (q_node q)) (ErrText err)
                              (slice_truncated (discovery st2))\<rparr>)
            | None \<Rightarrow> (False, expand_outgoing E opts client q st2)))"

section \<open>Termination of the loop\<close>

text \<open>An entry of the queue weighs the number of levels below it.\<close>

definition levels_left :: "SliceOptions \<Rightarrow> dstate \<Rightarrow> nat multiset" where
  "levels_left opts st = image_mset (\<lambda>q. nat (so_DownDepth opts - q_depth q)) (mset (d_queue st))"

lemma add_callee_queue:
  "\<exists>new. d_queue (fst (add_callee E opts q call s)) = d_queue (fst s) @ new \<and>
     (\<forall>p \<in> set new. q_depth p = int (Suc (nat (q_depth q))))"
  by (cases s)
    (auto simp: add_callee_def Let_def outgoing_failed_def link_def admit_node_def split: option.split)

lemma fold_callee_queue:
  "\<exists>new. d_queue (fst (fold (add_callee E opts q) calls s)) = d_queue (fst s) @ new \<and>
     (\<forall>p \<in> set new. q_depth p = int (Suc (nat (q_depth q))))"
proof (induction calls arbitrary: s)
  case (Cons call calls)
  obtain new where new: "d_queue (fst (add_callee E opts q call s)) = d_queue (fst s) @ new"
    "\<forall>p \<in> set new. q_depth p = int (Suc (nat (q_depth q)))" using add_callee_queue by blast
  obtain new' where new': "d_queue (fst (fold (add_callee E opts q) calls (add_callee E opts q call s))) =
      d_queue (fst (add_callee E opts q call s)) @ new'"
    "\<forall>p \<in> set new'. q_depth p = int (Suc (nat (q_depth q)))" using Cons.IH by blast
  show ?case using new new' by (intro exI [of _ "new @ new'"]) auto
qed simp

lemma expand_outgoing_queue:
  "\<exists>new. d_queue (expand_outgoing E opts client q st) = d_queue st @ new \<and>
     (\<forall>p \<in> set new. q_depth p = int (Suc (nat (q_depth q))))"
proof -
  let ?st = "st\<lparr>d_expanded := insert (ID (q_node q)) (d_expanded st), d_requests := d_requests st @ [q_item q]\<rparr>"
  show ?thesis
  proof (cases "sc_OutgoingCalls client (length (d_requests st)) (q_item q)")
    case (Inl err)
    then show ?thesis by (intro exI [of _ "[]"]) (simp add: expand_outgoing_def outgoing_failed_def)
  next
    case (Inr b)
    obtain calls wasNull where b: "b = (calls, wasNull)" by (cases b)
    let ?calls = "sort_key (callee_key E) calls"
    obtain new where new: "d_queue (fst (fold (add_callee E opts q) ?calls (?st, []))) = d_queue st @ new"
      "\<forall>p \<in> set new. q_depth p = int (Suc (nat (q_depth q)))"
      using fold_callee_queue [of E opts q ?calls "(?st, [])"] by auto
    show ?thesis
    proof (cases "wasNull \<or> calls = []")
      case True
      then show ?thesis using Inr b by (intro exI [of _ "[]"]) (auto simp: expand_outgoing_def outgoing_failed_def Let_def)
    next
      case False
      then show ?thesis using Inr b new
        by (intro exI [of _ new]) (simp add: expand_outgoing_def Let_def split_beta)
    qed
  qed
qed

lemma discover_turn_decreases:
  assumes "d_queue st \<noteq> []"
  shows "(levels_left opts (snd (discover_turn E opts client st)), levels_left opts st) \<in> mult less_than"
proof -
  define s where "s = sort_key queue_key (d_queue st)"
  define q where "q = hd s"
  have s: "s = q # tl s" using assms by (simp add: s_def q_def) (metis length_0_conv length_sort list.collapse)
  have left: "levels_left opts st = image_mset (\<lambda>q. nat (so_DownDepth opts - q_depth q)) (mset (tl s)) + {#nat (so_DownDepth opts - q_depth q)#}"
  proof -
    have "mset (d_queue st) = mset s" by (simp add: s_def)
    also have "\<dots> = add_mset q (mset (tl s))" using s by (metis mset.simps(2))
    finally show ?thesis by (simp add: levels_left_def)
  qed
  have "\<exists>new. d_queue (snd (discover_turn E opts client st)) = tl s @ new \<and>
    (\<forall>p \<in> set new. nat (so_DownDepth opts - q_depth p) < nat (so_DownDepth opts - q_depth q))"
  proof (cases "q_depth q \<ge> so_DownDepth opts \<or> ID (q_node q) \<in> d_expanded st \<or> sc_CtxErr client (d_checks st) \<noteq> None")
    case True
    then show ?thesis
      by (intro exI [of _ "[]"]) (auto simp: discover_turn_def Let_def s_def [symmetric] q_def [symmetric] slice_diagnostic_def)
  next
    case False
    let ?st = "st\<lparr>d_queue := tl s, d_checks := Suc (d_checks st)\<rparr>"
    obtain new where "d_queue (expand_outgoing E opts client q ?st) = tl s @ new" "\<forall>p \<in> set new. q_depth p = int (Suc (nat (q_depth q)))"
      using expand_outgoing_queue [of E opts client q ?st] by auto
    with False show ?thesis
      by (intro exI [of _ new]) (auto simp: discover_turn_def Let_def s_def [symmetric] q_def [symmetric])
  qed
  then obtain new where new: "d_queue (snd (discover_turn E opts client st)) = tl s @ new"
    "\<forall>p \<in> set new. nat (so_DownDepth opts - q_depth p) < nat (so_DownDepth opts - q_depth q)" by blast
  have "levels_left opts (snd (discover_turn E opts client st)) =
    image_mset (\<lambda>q. nat (so_DownDepth opts - q_depth q)) (mset (tl s)) + image_mset (\<lambda>q. nat (so_DownDepth opts - q_depth q)) (mset new)"
    by (simp add: levels_left_def new(1))
  then show ?thesis unfolding left using new(2) by (simp only:) (rule one_step_implies_mult; auto)
qed

function discover_loop :: "env \<Rightarrow> SliceOptions \<Rightarrow> SliceClient \<Rightarrow> dstate \<Rightarrow> dstate" where
  "discover_loop E opts client st =
     (if d_queue st = [] then st
      else (let t = discover_turn E opts client st in if fst t then snd t else discover_loop E opts client (snd t)))"
  by pat_completeness auto
termination
  by (relation "inv_image (mult less_than) (\<lambda>(E, opts, client, st). levels_left opts st)")
    (auto simp: wf_mult discover_turn_decreases)

declare discover_loop.simps [simp del]

section \<open>Discover\<close>

text \<open>The layer of every node, sorted; a layer exists up to the greatest depth.\<close>

definition layers_of :: "dstate \<Rightarrow> LayerT list" where
  "layers_of st =
     (let ids = map fst (nodesByID st); top = fold (\<lambda>i m. max m (Suc (depthByID st i))) ids 0
      in map (\<lambda>k. \<lparr>l_Depth = k, l_NodeIDs = sort (filter (\<lambda>i. depthByID st i = k) ids)\<rparr>) [0..<top])"

definition item_of :: "dstate \<Rightarrow> string \<Rightarrow> CallHierarchyItem" where
  "item_of st i = the (map_of (itemsByID st) i)"

definition collect_discovery :: "env \<Rightarrow> SliceOptions \<Rightarrow> dstate \<Rightarrow> Discovery" where
  "collect_discovery E opts st =
     (let d = discovery st;
          frontier = sort_key (item_key E) (map (item_of st) (filter (\<lambda>i. int (depthByID st i) = so_DownDepth opts) (map fst (nodesByID st))));
          terminal = sort_key (item_key E) (dc_OutgoingTerminalItems d);
          upward = fold (\<lambda>item. AList.update (item_key E item) item) (frontier @ terminal) []
      in d\<lparr>dc_Nodes := sort_key ID (map snd (nodesByID st)), dc_Layers := layers_of st, dc_FrontierItems := frontier,
           dc_StartNodeIDs := sort (dc_StartNodeIDs d), dc_OutgoingTerminalItems := terminal,
           dc_UpwardStartItems := map snd (sort_key fst upward), dc_Edges := sort_key edge_key (dc_Edges d)\<rparr>)"

definition close_discovery :: "SliceClient \<Rightarrow> nat \<Rightarrow> Discovery \<Rightarrow> Discovery" where
  "close_discovery client k d =
     (let cancelled = (case sc_CtxErr client k of None \<Rightarrow> False | Some err \<Rightarrow> IsCanceled err)
      in d\<lparr>dc_Complete := (dc_Complete d \<and> \<not> cancelled),
           dc_TraversalComplete := (dc_TraversalComplete d \<and> \<not> cancelled \<and> \<not> dc_Truncated d \<and>
             (\<forall>g \<in> set (dc_Diagnostics d). Phase g \<noteq> ''slice-outgoing''))\<rparr>)"

definition prepare_all :: "env \<Rightarrow> SliceOptions \<Rightarrow> SliceClient \<Rightarrow> DocumentSymbol list \<Rightarrow> Discovery \<Rightarrow> dstate" where
  "prepare_all E opts client symbols d =
     (let flat = flatten_symbols symbols
      in fold (prepare_symbol E opts client) (sort_key symbol_key flat)
           (discover_start (account (\<lambda>a. a\<lparr>pa_DocumentSymbols := int (length flat)\<rparr>) d)))"

text \<open>
  \<open>Discover\<close>: \<open>Discover_run\<close> gives the discovery together with the items of the outgoing-calls requests that
  were made for it, in order.
\<close>

definition Discover_run :: "env \<Rightarrow> SliceClient \<Rightarrow> string \<Rightarrow> SliceOptions \<Rightarrow> Discovery \<times> CallHierarchyItem list" where
  "Discover_run E client uri opts =
     (let d = emptyDiscovery uri in
      if \<not> sc_SupportsDocumentSymbols client
      then (slice_diagnostic ''slice-symbols'' documentSymbolMethod '''' ''document symbols unsupported'' (not_complete d), [])
      else case sc_DocumentSymbols client of
          Inl err \<Rightarrow> (slice_diagnostic ''slice-symbols'' documentSymbolMethod '''' (ErrText err) (not_complete d), [])
        | Inr symbols \<Rightarrow>
            (let st = discover_loop E opts client (prepare_all E opts client symbols d)
             in (close_discovery client (d_checks st) (collect_discovery E opts st), d_requests st)))"

definition Discover :: "env \<Rightarrow> SliceClient \<Rightarrow> string \<Rightarrow> SliceOptions \<Rightarrow> Discovery" where
  "Discover E client uri opts = fst (Discover_run E client uri opts)"

text \<open>\<open>DiscoverPrepared\<close>: the items are presented as symbols, one per line, and prepared by line
  (fewer than \<open>2^32\<close> items, the number of lines).\<close>

definition prepared_symbol :: "nat \<Rightarrow> CallHierarchyItem \<Rightarrow> DocumentSymbol" where
  "prepared_symbol i item =
     (let p = \<lparr>Line = of_nat i, Character = 0\<rparr>; r = \<lparr>Start = p, End = p\<rparr>
      in DocumentSymbol (c_Name item) '''' (c_Kind item) r r [] False '''')"

definition DiscoverPrepared :: "env \<Rightarrow> SliceClient \<Rightarrow> CallHierarchyItem list \<Rightarrow> SliceOptions \<Rightarrow> Discovery" where
  "DiscoverPrepared E client items opts =
     Discover E
       (client\<lparr>sc_SupportsDocumentSymbols := True,
          sc_DocumentSymbols := Inr (map (\<lambda>i. prepared_symbol i (items ! i)) [0..<length items]),
          sc_PrepareCallHierarchy := (\<lambda>k p. Inr (if unat (Line p) < length items then [items ! unat (Line p)] else []))\<rparr>)
       ''lsp-trace://prepared-starts'' opts"

end
