(* ===== verification/Slicer_Properties.thy ===== *)
theory Slicer_Properties
  imports Slicer Call_Graph_Properties
begin

text \<open>
  Correctness of the discovery of a slice: the accounting of the preparation, the layers as distances
  from the starting nodes, and what a discovery that says it is complete contains.
\<close>

section \<open>Preparation accounting\<close>

text \<open>What the accounting must add up to.\<close>

definition with_status :: "string \<Rightarrow> Discovery \<Rightarrow> int" where
  "with_status s d = int (length (filter (\<lambda>p. p_Status p = s) (dc_Dispositions d)))"

definition census_ok :: "Discovery \<Rightarrow> bool" where
  "census_ok d \<longleftrightarrow>
     pa_Attempted (dc_Accounting d) = int (length (dc_Dispositions d)) \<and>
     pa_Attempted (dc_Accounting d) = pa_Prepared (dc_Accounting d) + pa_NotPreparable (dc_Accounting d) + pa_Failed (dc_Accounting d) \<and>
     pa_Prepared (dc_Accounting d) = with_status ''prepared'' d \<and>
     pa_NotPreparable (dc_Accounting d) = with_status ''not_preparable'' d \<and>
     pa_Failed (dc_Accounting d) = with_status ''failed'' d \<and>
     (dc_CensusComplete d \<longleftrightarrow> pa_Failed (dc_Accounting d) = 0)"

definition census :: "Discovery \<Rightarrow> PreparationDisposition list \<times> PreparationAccounting \<times> bool" where
  "census d = (dc_Dispositions d, dc_Accounting d, dc_CensusComplete d)"

lemma census_ok_cong: "census d = census d' \<Longrightarrow> census_ok d = census_ok d'"
  by (simp add: census_def census_ok_def with_status_def)

lemma census_fields: "census d = census d' \<longleftrightarrow>
    dc_Dispositions d = dc_Dispositions d' \<and> dc_Accounting d = dc_Accounting d' \<and> dc_CensusComplete d = dc_CensusComplete d'"
  by (auto simp: census_def)

lemmas slice_effects = slice_diagnostic_def not_complete_def slice_truncated_def admit_node_def outgoing_failed_def link_def

lemma prepare_item_census:
  "census (discovery (fst (prepare_item E opts item s))) = census (discovery (fst s)) \<and>
   p_Status (snd (prepare_item E opts item s)) = p_Status (snd s)"
  by (cases s) (simp add: prepare_item_def Let_def census_def slice_effects split: option.split)

lemma fold_item_census:
  "census (discovery (fst (fold (prepare_item E opts) items s))) = census (discovery (fst s)) \<and>
   p_Status (snd (fold (prepare_item E opts) items s)) = p_Status (snd s)"
proof (induction items arbitrary: s)
  case (Cons item items)
  then show ?case using prepare_item_census [of E opts item s] by simp
qed simp

lemma finish_disposition_census:
  assumes "census (discovery st) = (ds, a\<lparr>pa_Attempted := pa_Attempted a + 1, pa_Prepared := pa_Prepared a + 1\<rparr>, c)"
    and "census_ok d" "census d = (ds, a, c)" "p_Status p = ''prepared''"
  shows "census_ok (discovery (finish_disposition (st, p)))"
  using assms by (auto simp: finish_disposition_def Let_def census_def census_ok_def with_status_def account_def dispose_def)

lemma prepare_symbol_census:
  assumes "census_ok (discovery st)"
  shows "census_ok (discovery (prepare_symbol E opts client symbol st))"
proof (cases "sc_PrepareCallHierarchy client (d_prepares st) (Start (sym_SelectionRange symbol))")
  case (Inl err)
  with assms show ?thesis
    by (auto simp: prepare_symbol_def Let_def census_ok_def with_status_def account_def dispose_def slice_diagnostic_def)
next
  case (Inr items)
  show ?thesis
  proof (cases "items = []")
    case True
    with assms Inr show ?thesis
      by (auto simp: prepare_symbol_def Let_def census_ok_def with_status_def account_def dispose_def)
  next
    case False
    let ?d = "discovery st"
    let ?p = "\<lparr>p_Name = sym_Name symbol, p_Kind = sym_Kind symbol, p_SelectionRange = sym_SelectionRange symbol,
               p_Status = ''prepared'', p_PreparedItemIDs = [], p_Message = ''''\<rparr>"
    let ?st = "st\<lparr>d_prepares := Suc (d_prepares st),
      discovery := account (\<lambda>a. a\<lparr>pa_Prepared := pa_Prepared a + 1\<rparr>) (account (\<lambda>a. a\<lparr>pa_Attempted := pa_Attempted a + 1\<rparr>) ?d)\<rparr>"
    obtain st' p' where f: "fold (prepare_item E opts) items (?st, ?p) = (st', p')" by (cases "fold (prepare_item E opts) items (?st, ?p)")
    have "census (discovery st') = (dc_Dispositions ?d, (dc_Accounting ?d)\<lparr>pa_Attempted := pa_Attempted (dc_Accounting ?d) + 1,
        pa_Prepared := pa_Prepared (dc_Accounting ?d) + 1\<rparr>, dc_CensusComplete ?d)" "p_Status p' = ''prepared''"
      using fold_item_census [of E opts items "(?st, ?p)"] f by (simp_all add: census_def account_def)
    moreover have "census ?d = (dc_Dispositions ?d, dc_Accounting ?d, dc_CensusComplete ?d)" by (simp add: census_def)
    moreover have "prepare_symbol E opts client symbol st = finish_disposition (st', p')"
      using Inr False f by (simp add: prepare_symbol_def Let_def)
    ultimately show ?thesis using finish_disposition_census [of st' _ _ _ ?d p'] assms by simp
  qed
qed

lemma prepare_symbol_attempted:
  "pa_Attempted (dc_Accounting (discovery (prepare_symbol E opts client symbol st))) = pa_Attempted (dc_Accounting (discovery st)) + 1 \<and>
   pa_DocumentSymbols (dc_Accounting (discovery (prepare_symbol E opts client symbol st))) = pa_DocumentSymbols (dc_Accounting (discovery st))"
proof -
  have "dc_Accounting (discovery (fst s')) = dc_Accounting (discovery (fst s))" if "s' = fold (prepare_item E opts) items s" for items s s'
    using fold_item_census [of E opts items s] that by (simp add: census_fields)
  then show ?thesis
    by (auto simp: prepare_symbol_def Let_def finish_disposition_def account_def dispose_def slice_diagnostic_def split_beta
        split: sum.split)
qed

lemma fold_symbol_census:
  assumes "census_ok (discovery st)"
  shows "census_ok (discovery (fold (prepare_symbol E opts client) symbols st)) \<and>
    pa_Attempted (dc_Accounting (discovery (fold (prepare_symbol E opts client) symbols st))) =
      pa_Attempted (dc_Accounting (discovery st)) + int (length symbols) \<and>
    pa_DocumentSymbols (dc_Accounting (discovery (fold (prepare_symbol E opts client) symbols st))) =
      pa_DocumentSymbols (dc_Accounting (discovery st))"
  using assms
proof (induction symbols arbitrary: st)
  case (Cons symbol symbols)
  show ?case
    using Cons.IH [OF prepare_symbol_census [OF Cons.prems, of E opts client symbol]]
      prepare_symbol_attempted [of E opts client symbol st] by simp
qed simp

text \<open>The loop over outgoing calls leaves the census alone.\<close>

lemma add_callee_census: "census (discovery (fst (add_callee E opts q call s))) = census (discovery (fst s))"
  by (cases s) (simp add: add_callee_def Let_def census_def slice_effects split: option.split)

lemma fold_callee_census: "census (discovery (fst (fold (add_callee E opts q) calls s))) = census (discovery (fst s))"
  by (induction calls arbitrary: s) (simp_all add: add_callee_census)

lemma expand_outgoing_census: "census (discovery (expand_outgoing E opts client q st)) = census (discovery st)"
proof -
  have keep: "census (discovery (fst (fold (add_callee E opts q) calls (st', om)))) = census (discovery st')" for calls st' om
    using fold_callee_census [of E opts q calls "(st', om)"] by simp
  have "census (discovery st2) = census (discovery st')" if "fold (add_callee E opts q) calls (st', om) = (st2, om2)" for calls st' st2 om om2
    using keep [of calls st' om] that by simp
  from this [unfolded census_def] show ?thesis
    by (auto simp: expand_outgoing_def Let_def census_def outgoing_failed_def slice_diagnostic_def not_complete_def
        omittedCalleeDiagnostic_def split: sum.split prod.split)
qed

lemma discover_turn_census: "census (discovery (snd (discover_turn E opts client st))) = census (discovery st)"
  by (simp add: discover_turn_def Let_def expand_outgoing_census split: option.split)
    (simp add: census_def slice_diagnostic_def slice_truncated_def)

lemma discover_loop_census: "census (discovery (discover_loop E opts client st)) = census (discovery st)"
proof (induction E opts client st rule: discover_loop.induct)
  case (1 E opts client st)
  show ?case
    using "1.IH" discover_turn_census [of E opts client st]
    by (subst discover_loop.simps) (simp add: Let_def)
qed

text \<open>
  C23. The preparation is accounted for: every document symbol is attempted exactly once and has exactly
  one disposition, the counts are the counts of the dispositions, and the census is complete exactly when
  no symbol failed.
\<close>

theorem Discover_census:
  assumes "sc_SupportsDocumentSymbols client" and "sc_DocumentSymbols client = Inr symbols"
  shows "let d = Discover E client uri opts in
    pa_DocumentSymbols (dc_Accounting d) = int (length (flatten_symbols symbols)) \<and>
    pa_Attempted (dc_Accounting d) = pa_DocumentSymbols (dc_Accounting d) \<and> census_ok d"
proof -
  let ?d = "Discover E client uri opts" and ?st = "prepare_all E opts client symbols (emptyDiscovery uri)"
  let ?start = "discover_start (account (\<lambda>a. a\<lparr>pa_DocumentSymbols := int (length (flatten_symbols symbols))\<rparr>) (emptyDiscovery uri))"
  have start: "census_ok (discovery ?start)"
    by (simp add: discover_start_def census_ok_def account_def emptyDiscovery_def with_status_def)
  have acc: "census_ok (discovery ?st)" "pa_Attempted (dc_Accounting (discovery ?st)) = int (length (flatten_symbols symbols))"
    "pa_DocumentSymbols (dc_Accounting (discovery ?st)) = int (length (flatten_symbols symbols))"
    using fold_symbol_census [OF start, of E opts client "sort_key symbol_key (flatten_symbols symbols)"]
    by (simp_all add: prepare_all_def Let_def discover_start_def account_def emptyDiscovery_def)
  have "census ?d = census (discovery (discover_loop E opts client ?st))"
    using assms by (simp add: Discover_def Discover_run_def Let_def close_discovery_def collect_discovery_def census_def)
  then have "census ?d = census (discovery ?st)" using discover_loop_census by simp
  then show ?thesis using acc census_ok_cong [of ?d "discovery ?st"] by (simp add: census_fields Let_def)
qed

text \<open>
  Without document symbols nothing is discovered and the discovery is not complete; the two flags of
  the parts, of the preparation and of the traversal, stay set.
\<close>

lemma Discover_no_symbols:
  assumes "if sc_SupportsDocumentSymbols client then sc_DocumentSymbols client = Inl err else True"
  shows "let d = Discover E client uri opts in dc_Nodes d = [] \<and> dc_Edges d = [] \<and> dc_Dispositions d = [] \<and>
    length (dc_Diagnostics d) = 1 \<and> \<not> dc_Complete d \<and> dc_CensusComplete d \<and> dc_TraversalComplete d"
  using assms by (simp add: Discover_def Discover_run_def Let_def slice_diagnostic_def not_complete_def emptyDiscovery_def split: if_splits)

text \<open>A server without document symbols, and one that reports a single symbol that cannot be prepared.\<close>

definition silent_server :: SliceClient where
  "silent_server = \<lparr>sc_SupportsDocumentSymbols = False, sc_DocumentSymbols = Inr [],
     sc_PrepareCallHierarchy = (\<lambda>k p. Inr []), sc_OutgoingCalls = (\<lambda>k item. Inr ([], False)), sc_CtxErr = (\<lambda>k. None)\<rparr>"

definition one_symbol_server :: SliceClient where
  "one_symbol_server = silent_server\<lparr>sc_SupportsDocumentSymbols := True,
     sc_DocumentSymbols := Inr [DocumentSymbol ''f'' '''' 12 sample_range sample_range [] False '''']\<rparr>"

lemma Discover_census_witness:
  "pa_Attempted (dc_Accounting (Discover sample_env one_symbol_server ''file:///a'' \<lparr>so_DownDepth = 1, so_MaxNodes = 0\<rparr>)) = 1"
  using Discover_census [of one_symbol_server "[DocumentSymbol ''f'' '''' 12 sample_range sample_range [] False '''']"
      sample_env "''file:///a''" "\<lparr>so_DownDepth = 1, so_MaxNodes = 0\<rparr>"]
  by (simp add: one_symbol_server_def Let_def)

section \<open>Layers\<close>

text \<open>Nodes with their depth, the edges found so far and the starting nodes.\<close>

definition layering :: "string set \<Rightarrow> (string \<times> string) set \<Rightarrow> (string \<Rightarrow> nat) \<Rightarrow> string set \<Rightarrow> bool" where
  "layering K R depth S \<longleftrightarrow> R \<subseteq> K \<times> K \<and> S = {k \<in> K. depth k = 0} \<and>
     (\<forall>k \<in> K. \<forall>m. depth k = Suc m \<longrightarrow> (\<exists>u \<in> K. depth u = m \<and> (u, k) \<in> R)) \<and>
     (\<forall>u v. (u, v) \<in> R \<longrightarrow> depth v \<le> Suc (depth u))"

lemma layering_start:
  assumes "layering K R depth S" and "k \<notin> K"
  shows "layering (insert k K) R (depth(k := 0)) (insert k S)"
proof -
  have R: "u \<noteq> k" "v \<noteq> k" if "(u, v) \<in> R" for u v using assms that by (auto simp: layering_def)
  have old: "\<exists>u \<in> K. depth u = m \<and> (u, k') \<in> R" if "k' \<in> K" "depth k' = Suc m" for k' m
    using assms that by (simp add: layering_def)
  have "\<exists>u \<in> insert k K. (depth(k := 0)) u = m \<and> (u, k') \<in> R" if "k' \<in> insert k K" "(depth(k := 0)) k' = Suc m" for k' m
  proof -
    from that have "k' \<in> K" "depth k' = Suc m" by (auto split: if_splits)
    from old [OF this] obtain u where "u \<in> K" "depth u = m" "(u, k') \<in> R" by blast
    with R show ?thesis by (intro bexI [of _ u]) auto
  qed
  moreover have "(depth(k := 0)) v \<le> Suc ((depth(k := 0)) u)" if "(u, v) \<in> R" for u v
    using R [OF that] that assms by (auto simp: layering_def)
  moreover have "insert k S = {k' \<in> insert k K. (depth(k := 0)) k' = 0}" using assms by (auto simp: layering_def)
  ultimately show ?thesis using assms unfolding layering_def by blast
qed

lemma layering_link:
  assumes "layering K R depth S" and "u \<in> K" "v \<in> K" "depth v \<le> Suc (depth u)"
  shows "layering K (insert (u, v) R) depth S"
  using assms unfolding layering_def by blast

lemma layering_admit:
  assumes "layering K R depth S" and "u \<in> K" "k \<notin> K"
  shows "layering (insert k K) (insert (u, k) R) (depth(k := Suc (depth u))) S"
proof -
  have R: "a \<noteq> k" "b \<noteq> k" if "(a, b) \<in> R" for a b using assms that by (auto simp: layering_def)
  have uk: "u \<noteq> k" using assms by blast
  have old: "\<exists>a \<in> K. depth a = m \<and> (a, k') \<in> R" if "k' \<in> K" "depth k' = Suc m" for k' m
    using assms that by (simp add: layering_def)
  have "\<exists>a \<in> insert k K. (depth(k := Suc (depth u))) a = m \<and> (a, k') \<in> insert (u, k) R"
    if "k' \<in> insert k K" "(depth(k := Suc (depth u))) k' = Suc m" for k' m
  proof (cases "k' = k")
    case True
    with that uk assms(2) show ?thesis by (intro bexI [of _ u]) auto
  next
    case False
    with that have "k' \<in> K" "depth k' = Suc m" by auto
    from old [OF this] obtain a where "a \<in> K" "depth a = m" "(a, k') \<in> R" by blast
    with R show ?thesis by (intro bexI [of _ a]) auto
  qed
  moreover have "(depth(k := Suc (depth u))) b \<le> Suc ((depth(k := Suc (depth u))) a)" if "(a, b) \<in> insert (u, k) R" for a b
    using that R uk assms(1) by (auto simp: layering_def)
  moreover have "S = {k' \<in> insert k K. (depth(k := Suc (depth u))) k' = 0}" using assms by (auto simp: layering_def)
  moreover have "insert (u, k) R \<subseteq> insert k K \<times> insert k K" using assms by (auto simp: layering_def)
  ultimately show ?thesis unfolding layering_def by blast
qed

text \<open>The depth of a node is its distance from the starting nodes.\<close>

definition at_distance :: "(string \<times> string) set \<Rightarrow> string set \<Rightarrow> string \<Rightarrow> nat \<Rightarrow> bool" where
  "at_distance R S i k \<longleftrightarrow> (\<exists>s \<in> S. (s, i) \<in> R ^^ k) \<and> (\<forall>j < k. \<forall>s \<in> S. (s, i) \<notin> R ^^ j)"

lemma layering_path:
  assumes "layering K R depth S" "i \<in> K"
  shows "\<exists>s \<in> S. (s, i) \<in> R ^^ depth i"
  using assms(2)
proof (induction "depth i" arbitrary: i)
  case 0
  then show ?case using assms(1) by (auto simp: layering_def)
next
  case (Suc m)
  then obtain u where "u \<in> K" "depth u = m" "(u, i) \<in> R" using assms(1) unfolding layering_def by metis
  with Suc.hyps(1) [of u] obtain s where s: "s \<in> S" "(s, u) \<in> R ^^ m" by auto
  with \<open>(u, i) \<in> R\<close> have "(s, i) \<in> R ^^ Suc m" by auto
  with s(1) Suc.hyps(2) show ?case by metis
qed

lemma layering_reach:
  assumes "layering K R depth S" "s \<in> S" "(s, i) \<in> R ^^ j"
  shows "i \<in> K \<and> depth i \<le> j"
  using assms(3)
proof (induction j arbitrary: i)
  case 0
  then show ?case using assms(1,2) by (auto simp: layering_def)
next
  case (Suc j)
  then obtain u where u: "(s, u) \<in> R ^^ j" "(u, i) \<in> R" by auto
  with Suc.IH [of u] have "depth u \<le> j" by blast
  moreover have "depth i \<le> Suc (depth u)" "i \<in> K" using assms(1) u(2) by (auto simp: layering_def)
  ultimately show ?case by simp
qed

lemma layering_distance:
  assumes "layering K R depth S"
  shows "at_distance R S i k \<longleftrightarrow> i \<in> K \<and> depth i = k"
proof
  assume d: "at_distance R S i k"
  then obtain s where "s \<in> S" "(s, i) \<in> R ^^ k" by (auto simp: at_distance_def)
  with layering_reach [OF assms] have i: "i \<in> K" "depth i \<le> k" by blast+
  moreover from layering_path [OF assms i(1)] d have "\<not> depth i < k" by (auto simp: at_distance_def)
  ultimately show "i \<in> K \<and> depth i = k" by simp
next
  assume i: "i \<in> K \<and> depth i = k"
  then show "at_distance R S i k"
    using layering_path [OF assms, of i] layering_reach [OF assms, of _ i] unfolding at_distance_def by fastforce
qed

section \<open>The state of the loop\<close>

definition d_keys :: "dstate \<Rightarrow> string set" where
  "d_keys st = set (mkeys (nodesByID st))"

definition d_edges :: "dstate \<Rightarrow> (string \<times> string) set" where
  "d_edges st = edge_key ` set (dc_Edges (discovery st))"

abbreviation d_id :: "queued \<Rightarrow> string" where
  "d_id q \<equiv> ID (q_node q)"

text \<open>A discovery whose traversal cannot be reported as complete.\<close>

definition d_hurt :: "Discovery \<Rightarrow> bool" where
  "d_hurt d \<longleftrightarrow> dc_Truncated d \<or> (\<exists>g \<in> set (dc_Diagnostics d). Phase g = ''slice-outgoing'')"

definition shape :: "dstate \<Rightarrow> bool" where
  "shape st \<longleftrightarrow> mkeys (itemsByID st) = mkeys (nodesByID st) \<and> distinct (mkeys (nodesByID st)) \<and>
     (\<forall>p \<in> set (nodesByID st). ID (snd p) = fst p) \<and> distinct (map edge_key (dc_Edges (discovery st)))"

definition layered :: "dstate \<Rightarrow> bool" where
  "layered st \<longleftrightarrow> layering (d_keys st) (d_edges st) (depthByID st) (set (dc_StartNodeIDs (discovery st)))"

definition queue_good :: "env \<Rightarrow> dstate \<Rightarrow> bool" where
  "queue_good E st \<longleftrightarrow> (\<forall>q \<in> set (d_queue st). d_id q \<in> d_keys st \<and> q_depth q = int (depthByID st (d_id q)) \<and>
     slice_node E (q_item q) = q_node q)"

text \<open>Every node waits, was expanded, or lies too deep to be expanded.\<close>

definition covered :: "SliceOptions \<Rightarrow> string set \<Rightarrow> dstate \<Rightarrow> bool" where
  "covered opts X st \<longleftrightarrow> (\<forall>k \<in> d_keys st. k \<in> d_id ` set (d_queue st) \<or> k \<in> d_expanded st \<or> k \<in> X \<or>
     so_DownDepth opts \<le> int (depthByID st k))"

definition within :: "nat \<Rightarrow> dstate \<Rightarrow> bool" where
  "within n st \<longleftrightarrow> (\<forall>k \<in> d_keys st. depthByID st k \<le> n)"

text \<open>A reported call has an edge, to its callee or to the one node known at the same location.\<close>

definition linked_call :: "env \<Rightarrow> dstate \<Rightarrow> string \<Rightarrow> CallHierarchyOutgoingCall \<Rightarrow> bool" where
  "linked_call E st k call \<longleftrightarrow> (\<exists>n \<in> snd ` set (nodesByID st). (k, ID n) \<in> d_edges st \<and>
     (ID n = ID (slice_node E (To call)) \<or> SameSemanticLocation n (slice_node E (To call))))"

definition answered_out :: "env \<Rightarrow> SliceClient \<Rightarrow> dstate \<Rightarrow> string \<Rightarrow> bool" where
  "answered_out E client st k \<longleftrightarrow> (\<exists>j < length (d_requests st). \<exists>calls. ID (slice_node E (d_requests st ! j)) = k \<and>
     sc_OutgoingCalls client j (d_requests st ! j) = Inr (calls, False) \<and> (\<forall>call \<in> set calls. linked_call E st k call))"

definition logged :: "env \<Rightarrow> SliceClient \<Rightarrow> dstate \<Rightarrow> bool" where
  "logged E client st \<longleftrightarrow> (\<forall>k \<in> d_expanded st. d_hurt (discovery st) \<or> answered_out E client st k)"

definition grows_to :: "dstate \<Rightarrow> dstate \<Rightarrow> bool" where
  "grows_to st st' \<longleftrightarrow> set (nodesByID st) \<subseteq> set (nodesByID st') \<and> d_edges st \<subseteq> d_edges st' \<and>
     d_expanded st' = d_expanded st \<and> d_requests st' = d_requests st \<and> (d_hurt (discovery st) \<longrightarrow> d_hurt (discovery st'))"

lemma grows_refl [simp]: "grows_to st st"
  by (simp add: grows_to_def)

lemma grows_trans: "grows_to a b \<Longrightarrow> grows_to b c \<Longrightarrow> grows_to a c"
  unfolding grows_to_def by auto

lemma linked_call_mono: "grows_to st st' \<Longrightarrow> linked_call E st k call \<Longrightarrow> linked_call E st' k call"
  unfolding linked_call_def grows_to_def by blast

lemma answered_out_mono: "grows_to st st' \<Longrightarrow> answered_out E client st k \<Longrightarrow> answered_out E client st' k"
  unfolding answered_out_def using linked_call_mono [of st st'] by (auto simp: grows_to_def)

lemma logged_mono: "grows_to st st' \<Longrightarrow> logged E client st \<Longrightarrow> logged E client st'"
  unfolding logged_def using answered_out_mono by (auto simp: grows_to_def)

lemma mkeys_update_new: "map_of m k = None \<Longrightarrow> AList.update k v m = m @ [(k, v)]"
  by (induction m) (auto split: if_splits)

lemma shape_keys: "shape st \<Longrightarrow> map_of (itemsByID st) k = None \<longleftrightarrow> k \<notin> d_keys st"
proof -
  assume "shape st"
  then have "fst ` set (itemsByID st) = fst ` set (nodesByID st)" by (metis list.set_map shape_def)
  then show ?thesis by (simp add: map_of_eq_None_iff d_keys_def)
qed

text \<open>A new node.\<close>

lemma admit_fields:
  fixes item :: CallHierarchyItem and depth :: nat
  assumes "shape st" and "ID n \<notin> d_keys st"
  defines "st' \<equiv> admit_node item n depth st"
  shows "shape st'" "d_keys st' = insert (ID n) (d_keys st)" "d_edges st' = d_edges st" "nodesByID st' = nodesByID st @ [(ID n, n)]"
    "itemsByID st' = itemsByID st @ [(ID n, item)]"
    "depthByID st' = (depthByID st)(ID n := depth)" "d_queue st' = d_queue st @ [\<lparr>q_item = item, q_node = n, q_depth = int depth\<rparr>]"
    "d_expanded st' = d_expanded st" "discovery st' = discovery st" "d_requests st' = d_requests st"
proof -
  have "map_of (itemsByID st) (ID n) = None" using shape_keys [OF assms(1)] assms(2) by simp
  moreover have "map_of (nodesByID st) (ID n) = None" using assms(2) by (simp add: map_of_eq_None_iff d_keys_def)
  ultimately have u: "AList.update (ID n) item (itemsByID st) = itemsByID st @ [(ID n, item)]"
    "AList.update (ID n) n (nodesByID st) = nodesByID st @ [(ID n, n)]" by (simp_all add: mkeys_update_new)
  show "shape st'" using assms(1,2) by (auto simp: st'_def admit_node_def u shape_def d_keys_def)
  show "d_keys st' = insert (ID n) (d_keys st)" "d_edges st' = d_edges st" "nodesByID st' = nodesByID st @ [(ID n, n)]"
    "itemsByID st' = itemsByID st @ [(ID n, item)]"
    "depthByID st' = (depthByID st)(ID n := depth)" "d_queue st' = d_queue st @ [\<lparr>q_item = item, q_node = n, q_depth = int depth\<rparr>]"
    "d_expanded st' = d_expanded st" "discovery st' = discovery st" "d_requests st' = d_requests st"
    by (auto simp: st'_def admit_node_def u d_keys_def d_edges_def)
qed

text \<open>A new edge.\<close>

lemma link_fields:
  shows "shape st \<Longrightarrow> shape (link E q v rs st)" "d_keys (link E q v rs st) = d_keys st"
    "d_edges (link E q v rs st) = insert (d_id q, ID v) (d_edges st)" "nodesByID (link E q v rs st) = nodesByID st"
    "depthByID (link E q v rs st) = depthByID st" "d_queue (link E q v rs st) = d_queue st"
    "d_expanded (link E q v rs st) = d_expanded st" "d_hurt (discovery (link E q v rs st)) = d_hurt (discovery st)"
    "dc_StartNodeIDs (discovery (link E q v rs st)) = dc_StartNodeIDs (discovery st)" "d_requests (link E q v rs st) = d_requests st"
proof -
  have [simp]: "edge_key \<lparr>ERelationID = i, EExecutionBundleID = b, CallerNodeID = a, CalleeNodeID = c, CallSites = s\<rparr> = (a, c)" for i b a c s
    by (simp add: edge_key_def)
  show "shape st \<Longrightarrow> shape (link E q v rs st)" "d_keys (link E q v rs st) = d_keys st"
    "d_edges (link E q v rs st) = insert (d_id q, ID v) (d_edges st)" "nodesByID (link E q v rs st) = nodesByID st"
    "depthByID (link E q v rs st) = depthByID st" "d_queue (link E q v rs st) = d_queue st"
    "d_expanded (link E q v rs st) = d_expanded st" "d_hurt (discovery (link E q v rs st)) = d_hurt (discovery st)"
    "dc_StartNodeIDs (discovery (link E q v rs st)) = dc_StartNodeIDs (discovery st)" "d_requests (link E q v rs st) = d_requests st"
    by (simp_all add: link_def shape_def d_keys_def d_edges_def d_hurt_def MergeEdge_def merge_into_keys merge_into_distinct)
qed

section \<open>One reported call\<close>

definition unmoved :: "dstate \<Rightarrow> dstate \<Rightarrow> bool" where
  "unmoved st st' \<longleftrightarrow> nodesByID st' = nodesByID st \<and> itemsByID st' = itemsByID st \<and> depthByID st' = depthByID st \<and>
     d_queue st' = d_queue st \<and> d_expanded st' = d_expanded st \<and> d_requests st' = d_requests st \<and> dc_Edges (discovery st') = dc_Edges (discovery st) \<and>
     dc_StartNodeIDs (discovery st') = dc_StartNodeIDs (discovery st) \<and> (d_hurt (discovery st) \<longrightarrow> d_hurt (discovery st'))"

lemma unmoved_keeps:
  assumes "unmoved st st'"
  shows "shape st' = shape st" "layered st' = layered st" "queue_good E st' = queue_good E st" "covered opts X st' = covered opts X st"
    "within n st' = within n st" "grows_to st st'" "d_keys st' = d_keys st" "depthByID st' = depthByID st" "d_queue st' = d_queue st"
  using assms
  by (simp_all add: unmoved_def shape_def layered_def queue_good_def covered_def within_def grows_to_def d_keys_def d_edges_def)

inductive callee_effect :: "env \<Rightarrow> queued \<Rightarrow> CallHierarchyOutgoingCall \<Rightarrow> dstate \<Rightarrow> dstate \<Rightarrow> bool"
  for E q call st where
  hurtful: "unmoved st st' \<Longrightarrow> d_hurt (discovery st') \<Longrightarrow> callee_effect E q call st st'"
| known: "n \<in> snd ` set (nodesByID st) \<Longrightarrow> ID n = ID (slice_node E (To call)) \<or> SameSemanticLocation n (slice_node E (To call)) \<Longrightarrow>
    callee_effect E q call st (link E q n rs st)"
| fresh: "n = slice_node E (To call) \<Longrightarrow> ID n \<notin> d_keys st \<Longrightarrow>
    callee_effect E q call st (link E q n rs (admit_node (To call) n (Suc (nat (q_depth q))) st))"

lemma resolve_callee_cases:
  obtains "resolve_callee nodes callee = callee"
  | n where "resolve_callee nodes callee = n" "n \<in> snd ` set nodes" "SameSemanticLocation n callee"
proof (cases "filter (\<lambda>n. SameSemanticLocation n callee) (map snd nodes)")
  case (Cons m ms)
  then have "m \<in> set (filter (\<lambda>n. SameSemanticLocation n callee) (map snd nodes))" by simp
  then have m: "m \<in> snd ` set nodes" "SameSemanticLocation m callee" by auto
  then show ?thesis using that Cons by (cases ms) (simp_all add: resolve_callee_def)
qed (simp add: that resolve_callee_def)

lemma add_callee_effect:
  assumes "shape st"
  shows "callee_effect E q call st (fst (add_callee E opts q call (st, om)))"
proof -
  let ?c = "slice_node E (To call)"
  define v where "v = resolve_callee (nodesByID st) ?c"
  have bad: "callee_effect E q call st (outgoing_failed q msg st)" for msg
    by (rule callee_effect.hurtful) (auto simp: unmoved_def outgoing_failed_def slice_effects d_hurt_def)
  have trunc: "callee_effect E q call st (st\<lparr>discovery := slice_truncated (discovery st)\<rparr>)"
    by (rule callee_effect.hurtful) (auto simp: unmoved_def slice_effects d_hurt_def)
  have known: "callee_effect E q call st (link E q v rs st)" if "ID v \<in> d_keys st" for rs
  proof -
    from that obtain p where p: "p \<in> set (nodesByID st)" "fst p = ID v" by (auto simp: d_keys_def)
    then have "ID (snd p) = ID v" using assms by (simp add: shape_def)
    then have "link E q v rs st = link E q (snd p) rs st" by (simp add: link_def)
    moreover have "\<exists>n \<in> snd ` set (nodesByID st). link E q v rs st = link E q n rs st \<and> (ID n = ID ?c \<or> SameSemanticLocation n ?c)"
    proof (rule resolve_callee_cases [of "nodesByID st" ?c])
      assume "resolve_callee (nodesByID st) ?c = ?c"
      then show ?thesis using p \<open>ID (snd p) = ID v\<close> \<open>link E q v rs st = link E q (snd p) rs st\<close> by (auto simp: v_def)
    next
      fix n assume "resolve_callee (nodesByID st) ?c = n" "n \<in> snd ` set (nodesByID st)" "SameSemanticLocation n ?c"
      then show ?thesis by (intro bexI [of _ n]) (simp_all add: v_def)
    qed
    ultimately show ?thesis by (metis callee_effect.known)
  qed
  have fresh: "callee_effect E q call st (link E q v rs (admit_node (To call) v (Suc (nat (q_depth q))) st))" if "ID v \<notin> d_keys st" for rs
  proof (rule resolve_callee_cases [of "nodesByID st" ?c])
    assume "resolve_callee (nodesByID st) ?c = ?c"
    then show ?thesis using that by (auto simp: v_def intro: callee_effect.fresh)
  next
    fix n assume "resolve_callee (nodesByID st) ?c = n" "n \<in> snd ` set (nodesByID st)"
    then obtain p where "p \<in> set (nodesByID st)" "snd p = v" by (auto simp: v_def)
    then have "ID v \<in> d_keys st" using assms unfolding shape_def d_keys_def by force
    with that show ?thesis by blast
  qed
  show ?thesis using bad trunc known fresh shape_keys [OF assms, of "ID v"]
    by (simp add: add_callee_def Let_def v_def [symmetric] split: option.split)
qed

section \<open>The calls of one node\<close>

text \<open>What holds while the calls reported for the entry \<open>q\<close> of depth \<open>d\<close> are processed.\<close>

definition calling :: "env \<Rightarrow> SliceOptions \<Rightarrow> SliceClient \<Rightarrow> queued \<Rightarrow> nat \<Rightarrow> dstate \<Rightarrow> bool" where
  "calling E opts client q d st \<longleftrightarrow> shape st \<and> layered st \<and> queue_good E st \<and> covered opts {d_id q} st \<and> within (Suc d) st \<and>
     d_id q \<in> d_keys st \<and> depthByID st (d_id q) = d \<and> (\<forall>p \<in> set (d_queue st). int d \<le> q_depth p)"

lemma calling_link:
  assumes c: "calling E opts client q d st" and n: "n \<in> snd ` set (nodesByID st)"
  shows "calling E opts client q d (link E q n rs st) \<and> grows_to st (link E q n rs st)"
proof -
  have s: "shape st" "layered st" "queue_good E st" "covered opts {d_id q} st" "within (Suc d) st" "d_id q \<in> d_keys st"
    "depthByID st (d_id q) = d" "\<forall>p \<in> set (d_queue st). int d \<le> q_depth p"
    using c by (simp_all add: calling_def)
  from n s(1) have k: "ID n \<in> d_keys st" by (force simp: shape_def d_keys_def)
  have "depthByID st (ID n) \<le> Suc (depthByID st (d_id q))" using s(5,7) k by (simp add: within_def)
  then have "layered (link E q n rs st)"
    using layering_link [OF s(2) [unfolded layered_def] s(6) k] by (simp add: layered_def link_fields)
  with s have "calling E opts client q d (link E q n rs st)"
    by (simp add: calling_def queue_good_def covered_def within_def link_fields)
  then show ?thesis by (auto simp: grows_to_def link_fields)
qed

lemma calling_admit:
  fixes rs :: "Range list"
  assumes c: "calling E opts client q d st" and n: "ID n \<notin> d_keys st" "n = slice_node E item" "q_depth q = int d"
  defines "st' \<equiv> link E q n rs (admit_node item n (Suc (nat (q_depth q))) st)"
  shows "calling E opts client q d st' \<and> grows_to st st'"
proof -
  have s: "shape st" "layered st" "queue_good E st" "covered opts {d_id q} st" "within (Suc d) st" "d_id q \<in> d_keys st"
    "depthByID st (d_id q) = d" "\<forall>p \<in> set (d_queue st). int d \<le> q_depth p"
    using c by (simp_all add: calling_def)
  let ?a = "admit_node item n (Suc (nat (q_depth q))) st"
  note a = admit_fields [OF s(1) n(1), of item "Suc (nat (q_depth q))"]
  have dd: "nat (q_depth q) = d" using n(3) by simp
  have neq: "d_id q \<noteq> ID n" using s(6) n(1) by metis
  have f: "d_keys st' = insert (ID n) (d_keys st)" "d_edges st' = insert (d_id q, ID n) (d_edges st)"
    "depthByID st' = (depthByID st)(ID n := Suc d)" "d_queue st' = d_queue st @ [\<lparr>q_item = item, q_node = n, q_depth = int (Suc d)\<rparr>]"
    "d_expanded st' = d_expanded st" "nodesByID st' = nodesByID st @ [(ID n, n)]" "shape st'"
    "dc_StartNodeIDs (discovery st') = dc_StartNodeIDs (discovery st)" "d_hurt (discovery st') = d_hurt (discovery st)"
    "d_requests st' = d_requests st"
    using a dd by (simp_all add: st'_def link_fields)
  have "layered st'"
    using layering_admit [OF s(2) [unfolded layered_def] s(6) n(1)] s(7) unfolding layered_def f by simp
  moreover have "queue_good E st'" using s(3) n(1,2) unfolding queue_good_def f by auto
  moreover have "covered opts {d_id q} st'" using s(4) n(1) unfolding covered_def f by auto
  moreover have "within (Suc d) st'" using s(5) unfolding within_def f by simp
  moreover have "\<forall>p \<in> set (d_queue st'). int d \<le> q_depth p" using s(8) unfolding f by simp
  ultimately have "calling E opts client q d st'" using s(6,7) f(7) neq unfolding calling_def f by simp
  moreover have "grows_to st st'" unfolding grows_to_def f by auto
  ultimately show ?thesis by blast
qed

lemma add_callee_calling:
  fixes call :: CallHierarchyOutgoingCall and om :: "string list"
  assumes c: "calling E opts client q d st" and q: "q_depth q = int d"
  defines "st' \<equiv> fst (add_callee E opts q call (st, om))"
  shows "calling E opts client q d st' \<and> grows_to st st' \<and> (d_hurt (discovery st') \<or> linked_call E st' (d_id q) call)"
proof -
  have "shape st" using c by (simp add: calling_def)
  from add_callee_effect [OF this, of E q call opts om] have "callee_effect E q call st st'" by (simp add: st'_def)
  then show ?thesis
  proof cases
    case hurtful
    then have "calling E opts client q d st'" using c unmoved_keeps [OF hurtful(1)] by (simp add: calling_def)
    then show ?thesis using hurtful unmoved_keeps(6) by blast
  next
    case (known n rs)
    then have "linked_call E st' (d_id q) call" by (auto simp: linked_call_def link_fields)
    then show ?thesis using calling_link [OF c known(2)] known(1) by blast
  next
    case (fresh n rs)
    have s: "shape st" using c by (simp add: calling_def)
    have "n \<in> snd ` set (nodesByID st')" "(d_id q, ID n) \<in> d_edges st'"
      using admit_fields [OF s fresh(3)] by (simp_all add: fresh(1) link_fields)
    then have "linked_call E st' (d_id q) call" using fresh(2) unfolding linked_call_def by (intro bexI [of _ n]) simp_all
    then show ?thesis using calling_admit [OF c fresh(3,2) q] fresh(1) by blast
  qed
qed

lemma fold_callee_calling:
  fixes calls :: "CallHierarchyOutgoingCall list"
  assumes "calling E opts client q d (fst s)" and q: "q_depth q = int d"
  defines "s' \<equiv> fold (add_callee E opts q) calls s"
  shows "calling E opts client q d (fst s') \<and> grows_to (fst s) (fst s') \<and>
    (\<forall>call \<in> set calls. d_hurt (discovery (fst s')) \<or> linked_call E (fst s') (d_id q) call)"
  using assms(1) unfolding s'_def
proof (induction calls arbitrary: s)
  case (Cons call calls)
  let ?s = "add_callee E opts q call s"
  let ?s' = "fold (add_callee E opts q) calls ?s"
  have 1: "calling E opts client q d (fst ?s)" "grows_to (fst s) (fst ?s)" "d_hurt (discovery (fst ?s)) \<or> linked_call E (fst ?s) (d_id q) call"
    using add_callee_calling [of E opts client q d "fst s" call "snd s"] Cons.prems q by auto
  note 2 = Cons.IH [OF 1(1)]
  have g: "grows_to (fst ?s) (fst ?s')" using 2 by blast
  then have "d_hurt (discovery (fst ?s)) \<Longrightarrow> d_hurt (discovery (fst ?s'))" by (simp add: grows_to_def)
  then have "d_hurt (discovery (fst ?s')) \<or> linked_call E (fst ?s') (d_id q) call"
    using 1(3) linked_call_mono [OF g] by blast
  moreover have "grows_to (fst s) (fst ?s')" using 1(2) 2 grows_trans by blast
  ultimately show ?case using 2 by auto
qed simp

section \<open>The loop\<close>

definition shallow :: "SliceOptions \<Rightarrow> dstate \<Rightarrow> bool" where
  "shallow opts st \<longleftrightarrow> (\<forall>k \<in> d_keys st. int (depthByID st k) \<le> max 0 (so_DownDepth opts))"

definition disc_ok :: "env \<Rightarrow> SliceOptions \<Rightarrow> SliceClient \<Rightarrow> dstate \<Rightarrow> bool" where
  "disc_ok E opts client st \<longleftrightarrow> shape st \<and> layered st \<and> queue_good E st \<and> covered opts {} st \<and> logged E client st \<and>
     shallow opts st \<and> (\<forall>q \<in> set (d_queue st). within (Suc (nat (q_depth q))) st)"

text \<open>What remains when the loop ends.\<close>

definition disc_final :: "env \<Rightarrow> SliceOptions \<Rightarrow> SliceClient \<Rightarrow> dstate \<Rightarrow> bool" where
  "disc_final E opts client st \<longleftrightarrow> shape st \<and> layered st \<and> logged E client st \<and> shallow opts st \<and>
     (d_hurt (discovery st) \<or> (\<forall>k \<in> d_keys st. k \<in> d_expanded st \<or> so_DownDepth opts \<le> int (depthByID st k)))"

lemma unmoved_ok:
  assumes "unmoved st st'"
  shows "disc_ok E opts client st \<Longrightarrow> disc_ok E opts client st'" "shallow opts st' = shallow opts st"
    "logged E client st \<Longrightarrow> logged E client st'"
proof -
  note u = unmoved_keeps [OF assms]
  show "shallow opts st' = shallow opts st" by (simp add: shallow_def u)
  show "logged E client st \<Longrightarrow> logged E client st'" using logged_mono u(6) by blast
  then show "disc_ok E opts client st \<Longrightarrow> disc_ok E opts client st'" by (simp add: disc_ok_def u shallow_def)
qed

lemma calling_done:
  assumes c: "calling E opts client q d st" and "d_id q \<in> d_expanded st" "logged E client st" "int d < so_DownDepth opts"
  shows "disc_ok E opts client st"
proof -
  have s: "shape st" "layered st" "queue_good E st" "covered opts {d_id q} st" "within (Suc d) st"
    "\<forall>p \<in> set (d_queue st). int d \<le> q_depth p"
    using c by (simp_all add: calling_def)
  have "covered opts {} st" using s(4) assms(2) by (auto simp: covered_def)
  moreover have "shallow opts st" using s(5) assms(4) by (force simp: shallow_def within_def)
  moreover have "within (Suc (nat (q_depth p))) st" if "p \<in> set (d_queue st)" for p
  proof -
    have "d \<le> nat (q_depth p)" using s(6) that by fastforce
    with s(5) show ?thesis by (auto simp: within_def intro: le_trans)
  qed
  ultimately show ?thesis using s assms(3) by (simp add: disc_ok_def)
qed

lemma expand_outgoing_ok:
  assumes c: "calling E opts client q d st" and l: "logged E client st" and q: "q_depth q = int d" "slice_node E (q_item q) = q_node q"
    and d: "int d < so_DownDepth opts"
  shows "disc_ok E opts client (expand_outgoing E opts client q st)"
proof -
  define st1 where "st1 = st\<lparr>d_expanded := insert (d_id q) (d_expanded st), d_requests := d_requests st @ [q_item q]\<rparr>"
  have f: "d_keys st1 = d_keys st" "d_edges st1 = d_edges st" "nodesByID st1 = nodesByID st" "depthByID st1 = depthByID st"
    "d_queue st1 = d_queue st" "discovery st1 = discovery st" "itemsByID st1 = itemsByID st" "d_expanded st1 = insert (d_id q) (d_expanded st)"
    "d_requests st1 = d_requests st @ [q_item q]"
    by (simp_all add: st1_def d_keys_def d_edges_def)
  have c1: "calling E opts client q d st1"
    using c unfolding calling_def shape_def layered_def queue_good_def covered_def within_def f by blast
  have old: "d_hurt (discovery st1) \<or> answered_out E client st1 k" if "k \<in> d_expanded st" for k
  proof (cases "d_hurt (discovery st)")
    case False
    with l that have "answered_out E client st k" by (simp add: logged_def)
    then obtain j calls where j: "j < length (d_requests st)" "ID (slice_node E (d_requests st ! j)) = k"
      "sc_OutgoingCalls client j (d_requests st ! j) = Inr (calls, False)" "\<forall>call \<in> set calls. linked_call E st k call"
      unfolding answered_out_def by blast
    have "\<forall>call \<in> set calls. linked_call E st1 k call" using j(4) unfolding linked_call_def f by blast
    with j(1-3) show ?thesis unfolding answered_out_def f by (intro disjI2 exI [of _ j]) (simp add: nth_append)
  qed (simp add: f)
  have ok: "disc_ok E opts client st2"
    if m: "calling E opts client q d st2" "grows_to st1 st2" "d_hurt (discovery st2) \<or> answered_out E client st2 (d_id q)" for st2
  proof (rule calling_done [OF m(1)])
    have e: "d_expanded st2 = d_expanded st1" "d_hurt (discovery st1) \<Longrightarrow> d_hurt (discovery st2)" using m(2) by (simp_all add: grows_to_def)
    show "d_id q \<in> d_expanded st2" by (simp add: e f)
    have "d_hurt (discovery st2) \<or> answered_out E client st2 k" if "k \<in> d_expanded st" for k
      using old [OF that] e(2) answered_out_mono [OF m(2)] by blast
    then show "logged E client st2" using m(3) unfolding logged_def e(1) f(8) by blast
  qed (rule d)
  have failed: "disc_ok E opts client (outgoing_failed q msg st1)" for msg
  proof (rule ok)
    have u: "unmoved st1 (outgoing_failed q msg st1)" "d_hurt (discovery (outgoing_failed q msg st1))"
      by (auto simp: unmoved_def outgoing_failed_def slice_effects d_hurt_def)
    then show "grows_to st1 (outgoing_failed q msg st1)" using unmoved_keeps(6) by blast
    show "calling E opts client q d (outgoing_failed q msg st1)" using c1 unmoved_keeps [OF u(1)] by (simp add: calling_def)
    show "d_hurt (discovery (outgoing_failed q msg st1)) \<or> answered_out E client (outgoing_failed q msg st1) (d_id q)" using u(2) by simp
  qed
  show ?thesis
  proof (cases "sc_OutgoingCalls client (length (d_requests st)) (q_item q)")
    case (Inl err)
    then show ?thesis using failed by (simp add: expand_outgoing_def st1_def)
  next
    case (Inr b)
    obtain calls wasNull where b: "b = (calls, wasNull)" by (cases b)
    show ?thesis
    proof (cases wasNull)
      case True
      then show ?thesis using Inr b failed by (simp add: expand_outgoing_def st1_def)
    next
      case False
      let ?calls = "sort_key (callee_key E) calls"
      obtain st2 om where f2: "fold (add_callee E opts q) ?calls (st1, []) = (st2, om)" by (cases "fold (add_callee E opts q) ?calls (st1, [])")
      have m: "calling E opts client q d st2" "grows_to st1 st2" "\<forall>call \<in> set ?calls. d_hurt (discovery st2) \<or> linked_call E st2 (d_id q) call"
        using fold_callee_calling [of E opts client q d "(st1, [])" ?calls] c1 q(1) f2 by auto
      have "d_hurt (discovery st2) \<or> answered_out E client st2 (d_id q)"
      proof (cases "d_hurt (discovery st2)")
        case False
        have "ID (slice_node E (q_item q)) = d_id q" using q(2) by simp
        moreover have "\<forall>call \<in> set calls. linked_call E st2 (d_id q) call" using m(3) False by simp
        moreover have "d_requests st2 = d_requests st @ [q_item q]" using m(2) f(9) by (simp add: grows_to_def)
        ultimately show ?thesis using Inr b \<open>\<not> wasNull\<close> unfolding answered_out_def
          by (intro disjI2 exI [of _ "length (d_requests st)"]) simp
      qed simp
      with ok m have ok2: "disc_ok E opts client st2" by blast
      show ?thesis
      proof (cases "calls = []")
        case True
        have "unmoved st1 (expand_outgoing E opts client q st)"
          using Inr b False True by (simp add: expand_outgoing_def st1_def [symmetric] unmoved_def d_hurt_def Let_def f(6))
        moreover have "st2 = st1" using f2 True by simp
        ultimately show ?thesis using ok2 unmoved_ok(1) by blast
      next
        case nonempty: False
        have "unmoved st2 (expand_outgoing E opts client q st)"
          using Inr b False nonempty f2
          by (simp add: expand_outgoing_def st1_def [symmetric] unmoved_def d_hurt_def Let_def omittedCalleeDiagnostic_def slice_diagnostic_def)
        then show ?thesis using ok2 unmoved_ok(1) by blast
      qed
    qed
  qed
qed

lemma discover_turn_ok:
  assumes ok: "disc_ok E opts client st" and ne: "d_queue st \<noteq> []"
  shows "if fst (discover_turn E opts client st) then disc_final E opts client (snd (discover_turn E opts client st))
    else disc_ok E opts client (snd (discover_turn E opts client st))"
proof -
  define s where "s = sort_key queue_key (d_queue st)"
  define q where "q = hd s"
  define st1 where "st1 = st\<lparr>d_queue := tl s\<rparr>"
  have "length s \<noteq> 0" using ne by (simp add: s_def)
  then have s: "s = q # tl s" by (cases s) (simp_all add: q_def)
  have set_s: "set s = set (d_queue st)" by (simp add: s_def)
  have q: "q \<in> set (d_queue st)" and tl: "set (tl s) \<subseteq> set (d_queue st)" and all: "set (d_queue st) = insert q (set (tl s))"
    using s set_s by (metis list.set_intros(1), metis set_subset_Cons, metis list.simps(15))
  have "sorted (map queue_key s)" by (simp add: s_def)
  then have "\<forall>p \<in> set (tl s). queue_key q \<le> queue_key p" using s by (metis (no_types, lifting) list.map(2) sorted_simps(2) image_eqI list.set_map)
  then have least: "\<forall>p \<in> set (tl s). q_depth q \<le> q_depth p" by (auto simp: queue_key_def less_eq_prod_def)
  have inv: "shape st" "layered st" "queue_good E st" "covered opts {} st" "logged E client st" "shallow opts st"
    "\<forall>q \<in> set (d_queue st). within (Suc (nat (q_depth q))) st"
    using ok by (simp_all add: disc_ok_def)
  have qg: "d_id q \<in> d_keys st" "q_depth q = int (depthByID st (d_id q))" "slice_node E (q_item q) = q_node q"
    using inv(3) q by (simp_all add: queue_good_def)
  have f: "d_keys st1 = d_keys st" "d_edges st1 = d_edges st" "nodesByID st1 = nodesByID st" "itemsByID st1 = itemsByID st"
    "depthByID st1 = depthByID st" "d_queue st1 = tl s" "d_expanded st1 = d_expanded st" "discovery st1 = discovery st" "d_checks st1 = d_checks st"
    "d_requests st1 = d_requests st"
    by (simp_all add: st1_def d_keys_def d_edges_def)
  have keep: "shape st1" "layered st1" "queue_good E st1" "logged E client st1" "shallow opts st1"
    "\<forall>p \<in> set (d_queue st1). within (Suc (nat (q_depth p))) st1"
    using inv tl unfolding shape_def layered_def queue_good_def logged_def answered_out_def linked_call_def shallow_def within_def f by blast+
  have cov: "covered opts {d_id q} st1" using inv(4) unfolding covered_def f all by auto
  let ?st2 = "st1\<lparr>d_checks := Suc (d_checks st1)\<rparr>"
  let ?st3 = "\<lambda>err. ?st2\<lparr>discovery := slice_diagnostic ''slice-outgoing'' outgoingMethod (d_id q) (ErrText err) (slice_truncated (discovery ?st2))\<rparr>"
  have turn: "discover_turn E opts client st =
      (if so_DownDepth opts \<le> q_depth q \<or> d_id q \<in> d_expanded st1 then (False, st1)
       else case sc_CtxErr client (d_checks st1) of Some err \<Rightarrow> (True, ?st3 err) | None \<Rightarrow> (False, expand_outgoing E opts client q ?st2))"
    by (simp only: discover_turn_def Let_def s_def [symmetric] q_def [symmetric] st1_def [symmetric])
  show ?thesis
  proof (cases "so_DownDepth opts \<le> q_depth q \<or> d_id q \<in> d_expanded st1")
    case True
    then have "covered opts {} st1" using cov qg(2) by (auto simp: covered_def f)
    with keep have "disc_ok E opts client st1" by (simp add: disc_ok_def)
    then show ?thesis unfolding turn if_P [OF True] by simp
  next
    case False
    have u: "unmoved st1 ?st2" by (simp add: unmoved_def)
    show ?thesis
    proof (cases "sc_CtxErr client (d_checks st1)")
      case None
      let ?d = "depthByID st (d_id q)"
      have "within (Suc (nat (q_depth q))) st" using inv(7) q by blast
      then have "within (Suc ?d) st1" using qg(2) by (simp add: within_def f)
      then have "calling E opts client q ?d st1" using keep(1-3) cov qg least unfolding calling_def f by simp
      then have "calling E opts client q ?d ?st2" using unmoved_keeps [OF u] by (simp add: calling_def)
      moreover have "int ?d < so_DownDepth opts" using False qg(2) by simp
      ultimately have "disc_ok E opts client (expand_outgoing E opts client q ?st2)"
        using expand_outgoing_ok unmoved_ok(3) [OF u keep(4)] qg(2,3) by blast
      then show ?thesis unfolding turn if_not_P [OF False] None by simp
    next
      case (Some err)
      have u: "unmoved st1 (?st3 err)" "d_hurt (discovery (?st3 err))" by (auto simp: unmoved_def slice_effects d_hurt_def)
      have "disc_final E opts client (?st3 err)"
        using keep unmoved_keeps [OF u(1)] unmoved_ok(2,3) [OF u(1)] u(2) unfolding disc_final_def by simp
      then show ?thesis unfolding turn if_not_P [OF False] Some by simp
    qed
  qed
qed

lemma discover_loop_ok: "disc_ok E opts client st \<Longrightarrow> disc_final E opts client (discover_loop E opts client st)"
proof (induction E opts client st rule: discover_loop.induct)
  case (1 E opts client st)
  show ?case
  proof (cases "d_queue st = []")
    case True
    then have "disc_final E opts client st" using "1.prems" by (simp add: disc_ok_def disc_final_def covered_def)
    then show ?thesis using True by (simp add: discover_loop.simps)
  next
    case False
    note t = discover_turn_ok [OF "1.prems" False]
    show ?thesis
    proof (cases "fst (discover_turn E opts client st)")
      case True
      then show ?thesis using t False by (subst discover_loop.simps) (simp add: Let_def)
    next
      case go: False
      with t have "disc_ok E opts client (snd (discover_turn E opts client st))" by simp
      from "1.IH" [OF False refl go this] show ?thesis using False go by (subst discover_loop.simps) (simp add: Let_def)
    qed
  qed
qed

section \<open>The preparation\<close>

definition starting :: "env \<Rightarrow> SliceOptions \<Rightarrow> dstate \<Rightarrow> bool" where
  "starting E opts st \<longleftrightarrow> shape st \<and> layered st \<and> queue_good E st \<and> covered opts {} st \<and> d_expanded st = {} \<and> within 0 st"

lemma starting_ok: "starting E opts st \<Longrightarrow> disc_ok E opts client st"
  by (simp add: starting_def disc_ok_def logged_def shallow_def within_def)

lemma starting_unmoved:
  assumes "unmoved st st'" and "starting E opts st"
  shows "starting E opts st'"
proof -
  have "d_expanded st' = d_expanded st" using assms(1) by (simp add: unmoved_def)
  then show ?thesis using assms(2) unmoved_keeps [OF assms(1)] by (simp add: starting_def)
qed

lemma starting_admit:
  assumes s: "starting E opts st" and n: "ID n \<notin> d_keys st" "n = slice_node E item"
  defines "st1 \<equiv> admit_node item n 0 st"
  shows "starting E opts (st1\<lparr>discovery := (discovery st1)\<lparr>dc_StartNodeIDs := dc_StartNodeIDs (discovery st1) @ [ID n]\<rparr>\<rparr>)" (is "starting E opts ?st")
proof -
  have i: "shape st" "layered st" "queue_good E st" "covered opts {} st" "d_expanded st = {}" "within 0 st"
    using s by (simp_all add: starting_def)
  note a = admit_fields [OF i(1) n(1), of item 0, folded st1_def]
  have f: "d_keys ?st = insert (ID n) (d_keys st)" "d_edges ?st = d_edges st" "depthByID ?st = (depthByID st)(ID n := 0)"
    "d_queue ?st = d_queue st @ [\<lparr>q_item = item, q_node = n, q_depth = 0\<rparr>]" "d_expanded ?st = {}"
    "set (dc_StartNodeIDs (discovery ?st)) = insert (ID n) (set (dc_StartNodeIDs (discovery st)))"
    using a i(5) by (simp_all add: d_keys_def d_edges_def)
  have "shape ?st" using a(1) by (simp add: shape_def)
  moreover have "layered ?st" using layering_start [OF i(2) [unfolded layered_def] n(1)] unfolding layered_def f .
  moreover have "queue_good E ?st" using i(3) n unfolding queue_good_def f by auto
  moreover have "covered opts {} ?st" using i(4,5) n(1) unfolding covered_def f by auto
  moreover have "within 0 ?st" using i(6) unfolding within_def f by simp
  ultimately show ?thesis using f(5) by (simp add: starting_def)
qed

lemma prepare_item_starting:
  assumes "starting E opts (fst s)"
  shows "starting E opts (fst (prepare_item E opts item s))"
proof -
  obtain st p where s: "s = (st, p)" by (cases s)
  have st: "starting E opts st" "shape st" using assms s by (simp_all add: starting_def)
  have u: "starting E opts (st\<lparr>discovery := slice_diagnostic ph m i e (not_complete (discovery st))\<rparr>)"
    "starting E opts (st\<lparr>discovery := slice_truncated (discovery st)\<rparr>)" for ph m i e
    by (rule starting_unmoved [OF _ st(1)]; auto simp: unmoved_def slice_effects d_hurt_def)+
  have a: "starting E opts (let st1 = admit_node item n 0 st in
      st1\<lparr>discovery := (discovery st1)\<lparr>dc_StartNodeIDs := dc_StartNodeIDs (discovery st1) @ [ID n]\<rparr>\<rparr>)"
    if "map_of (itemsByID st) (ID n) = None" "n = slice_node E item" for n
    using starting_admit [OF st(1), of n item] that shape_keys [OF st(2)] by (simp add: Let_def)
  show ?thesis using st(1) u a by (simp add: prepare_item_def s Let_def split: option.split)
qed

lemma fold_item_starting: "starting E opts (fst s) \<Longrightarrow> starting E opts (fst (fold (prepare_item E opts) items s))"
  by (induction items arbitrary: s) (simp_all add: prepare_item_starting)

lemma unmoved_discovery:
  assumes "dc_Edges d = dc_Edges (discovery st)" "dc_StartNodeIDs d = dc_StartNodeIDs (discovery st)"
    "dc_Truncated d = dc_Truncated (discovery st)" "set (dc_Diagnostics (discovery st)) \<subseteq> set (dc_Diagnostics d)"
  shows "unmoved st (st\<lparr>discovery := d\<rparr>)" "unmoved st (st\<lparr>d_prepares := k, discovery := d\<rparr>)"
  using assms by (auto simp: unmoved_def d_hurt_def)

lemma prepare_symbol_starting:
  assumes st: "starting E opts st"
  shows "starting E opts (prepare_symbol E opts client symbol st)"
proof (cases "sc_PrepareCallHierarchy client (d_prepares st) (Start (sym_SelectionRange symbol))")
  case (Inl err)
  then show ?thesis
    by (auto simp: prepare_symbol_def Let_def account_def dispose_def slice_diagnostic_def
        intro!: starting_unmoved [OF unmoved_discovery(2) st])
next
  case (Inr items)
  show ?thesis
  proof (cases "items = []")
    case True
    with Inr show ?thesis
      by (auto simp: prepare_symbol_def Let_def account_def dispose_def intro!: starting_unmoved [OF unmoved_discovery(2) st])
  next
    case False
    let ?d = "discovery st"
    let ?p = "\<lparr>p_Name = sym_Name symbol, p_Kind = sym_Kind symbol, p_SelectionRange = sym_SelectionRange symbol,
               p_Status = ''prepared'', p_PreparedItemIDs = [], p_Message = ''''\<rparr>"
    let ?st = "st\<lparr>d_prepares := Suc (d_prepares st),
      discovery := account (\<lambda>a. a\<lparr>pa_Prepared := pa_Prepared a + 1\<rparr>) (account (\<lambda>a. a\<lparr>pa_Attempted := pa_Attempted a + 1\<rparr>) ?d)\<rparr>"
    obtain st' p' where f: "fold (prepare_item E opts) items (?st, ?p) = (st', p')" by (cases "fold (prepare_item E opts) items (?st, ?p)")
    have "starting E opts ?st" by (auto simp: account_def intro!: starting_unmoved [OF unmoved_discovery(2) st])
    then have "starting E opts st'" using fold_item_starting [of E opts "(?st, ?p)" items] f by simp
    moreover have "unmoved st' (finish_disposition (st', p'))"
      by (auto simp: finish_disposition_def Let_def account_def dispose_def intro!: unmoved_discovery(1))
    moreover have "prepare_symbol E opts client symbol st = finish_disposition (st', p')"
      using Inr False f by (simp add: prepare_symbol_def Let_def)
    ultimately show ?thesis using starting_unmoved by metis
  qed
qed

lemma prepare_all_ok: "disc_ok E opts client (prepare_all E opts client symbols (emptyDiscovery uri))"
proof -
  have "starting E opts st \<Longrightarrow> starting E opts (fold (prepare_symbol E opts client) syms st)" for st syms
    by (induction syms arbitrary: st) (simp_all add: prepare_symbol_starting)
  moreover have "starting E opts (discover_start (account f (emptyDiscovery uri)))" for f
    by (simp add: starting_def discover_start_def emptyDiscovery_def account_def shape_def layered_def layering_def queue_good_def
        covered_def within_def d_keys_def d_edges_def)
  ultimately show ?thesis by (simp add: prepare_all_def Let_def starting_ok)
qed

section \<open>Correctness of the discovery\<close>

definition in_layer :: "Discovery \<Rightarrow> string \<Rightarrow> nat \<Rightarrow> bool" where
  "in_layer d i k \<longleftrightarrow> (\<exists>l \<in> set (dc_Layers d). l_Depth l = k \<and> i \<in> set (l_NodeIDs l))"

lemma fold_max_ge: "m \<le> fold (\<lambda>i m. max m (Suc (f i))) is m"
proof (induction "is" arbitrary: m)
  case (Cons i "is")
  have "m \<le> max m (Suc (f i))" by simp
  also have "\<dots> \<le> fold (\<lambda>i m. max m (Suc (f i))) is (max m (Suc (f i)))" by (rule Cons.IH)
  finally show ?case by simp
qed simp

lemma fold_max_less: "i \<in> set is \<Longrightarrow> f i < fold (\<lambda>i m. max m (Suc (f i))) is m"
proof (induction "is" arbitrary: m)
  case (Cons j "is")
  then show ?case using fold_max_ge [of "max m (Suc (f j))" f "is"] by auto
qed simp

lemma fold_max_le: "(\<And>i. i \<in> set is \<Longrightarrow> f i \<le> b) \<Longrightarrow> m \<le> Suc b \<Longrightarrow> fold (\<lambda>i m. max m (Suc (f i))) is m \<le> Suc b"
  by (induction "is" arbitrary: m) simp_all

lemma layers_of_facts:
  shows "map l_Depth (layers_of st) = [0..<length (layers_of st)]"
    "(\<exists>l \<in> set (layers_of st). l_Depth l = k \<and> i \<in> set (l_NodeIDs l)) \<longleftrightarrow> i \<in> d_keys st \<and> depthByID st i = k"
    "shallow opts st \<Longrightarrow> int (length (layers_of st)) \<le> max 0 (so_DownDepth opts) + 1"
proof -
  show "map l_Depth (layers_of st) = [0..<length (layers_of st)]" by (simp add: layers_of_def Let_def comp_def)
  show "(\<exists>l \<in> set (layers_of st). l_Depth l = k \<and> i \<in> set (l_NodeIDs l)) \<longleftrightarrow> i \<in> d_keys st \<and> depthByID st i = k"
    using fold_max_less [of i "map fst (nodesByID st)" "depthByID st" 0] by (auto simp: layers_of_def Let_def d_keys_def)
  assume "shallow opts st"
  then have "depthByID st i \<le> nat (max 0 (so_DownDepth opts))" if "i \<in> set (map fst (nodesByID st))" for i
    using that by (fastforce simp: shallow_def d_keys_def)
  then have "length (layers_of st) \<le> Suc (nat (max 0 (so_DownDepth opts)))"
    using fold_max_le [of "map fst (nodesByID st)" "depthByID st" "nat (max 0 (so_DownDepth opts))" 0] by (simp add: layers_of_def Let_def)
  then show "int (length (layers_of st)) \<le> max 0 (so_DownDepth opts) + 1" by linarith
qed

lemma Discover_cases:
  obtains (none) "dc_Nodes (Discover E client uri opts) = []" "dc_Edges (Discover E client uri opts) = []"
      "dc_Layers (Discover E client uri opts) = []" "dc_StartNodeIDs (Discover E client uri opts) = []"
  | (run) st where "disc_final E opts client st"
      "Discover_run E client uri opts = (close_discovery client (d_checks st) (collect_discovery E opts st), d_requests st)"
proof (cases "sc_SupportsDocumentSymbols client \<and> (\<exists>symbols. sc_DocumentSymbols client = Inr symbols)")
  case True
  then obtain symbols where s: "sc_DocumentSymbols client = Inr symbols" by blast
  from True s discover_loop_ok [OF prepare_all_ok] show ?thesis
    by (intro run [of "discover_loop E opts client (prepare_all E opts client symbols (emptyDiscovery uri))"])
      (simp_all add: Discover_run_def Let_def)
next
  case False
  then show ?thesis
    by (intro none; cases "sc_DocumentSymbols client";
        auto simp: Discover_def Discover_run_def Let_def slice_diagnostic_def not_complete_def emptyDiscovery_def)
qed

lemma collect_fields:
  "dc_Nodes (close_discovery client k (collect_discovery E opts st)) = sort_key ID (map snd (nodesByID st))"
  "dc_Edges (close_discovery client k (collect_discovery E opts st)) = sort_key edge_key (dc_Edges (discovery st))"
  "dc_Layers (close_discovery client k (collect_discovery E opts st)) = layers_of st"
  "set (dc_StartNodeIDs (close_discovery client k (collect_discovery E opts st))) = set (dc_StartNodeIDs (discovery st))"
  by (simp_all add: close_discovery_def collect_discovery_def Let_def)

text \<open>
  C6. The layers of a discovery are the distances: whatever the server answers, the layer of a node is
  its distance from the starting nodes along the reported edges, every node is in a layer, no layer lies
  below the requested depth, node identifiers are unique, and the edges are sorted, unique and between nodes.
\<close>

theorem Discover_layers:
  "let d = Discover E client uri opts; R = edge_key ` set (dc_Edges d); S = set (dc_StartNodeIDs d) in
     distinct (map ID (dc_Nodes d)) \<and> sorted_wrt (<) (map edge_key (dc_Edges d)) \<and>
     R \<subseteq> (ID ` set (dc_Nodes d)) \<times> (ID ` set (dc_Nodes d)) \<and>
     map l_Depth (dc_Layers d) = [0..<length (dc_Layers d)] \<and> int (length (dc_Layers d)) \<le> max 0 (so_DownDepth opts) + 1 \<and>
     (\<forall>i k. in_layer d i k \<longleftrightarrow> at_distance R S i k) \<and> ID ` set (dc_Nodes d) = {i. \<exists>k. in_layer d i k}"
proof (rule Discover_cases [of E client uri opts])
  assume "dc_Nodes (Discover E client uri opts) = []" "dc_Edges (Discover E client uri opts) = []"
    "dc_Layers (Discover E client uri opts) = []" "dc_StartNodeIDs (Discover E client uri opts) = []"
  then show ?thesis by (simp add: in_layer_def at_distance_def Let_def)
next
  fix st assume f: "disc_final E opts client st"
    and run: "Discover_run E client uri opts = (close_discovery client (d_checks st) (collect_discovery E opts st), d_requests st)"
  have d: "Discover E client uri opts = close_discovery client (d_checks st) (collect_discovery E opts st)"
    using run by (simp add: Discover_def)
  have i: "shape st" "layered st" "shallow opts st" using f by (simp_all add: disc_final_def)
  have n: "map ID (map snd (nodesByID st)) = mkeys (nodesByID st)" using i(1) by (simp add: shape_def)
  then have ids: "ID ` set (map snd (nodesByID st)) = d_keys st" by (metis d_keys_def list.set_map)
  have "distinct (map ID (sort_key ID (map snd (nodesByID st))))"
    using n i(1) unfolding shape_def by (metis distinct_map distinct_sort set_sort)
  moreover have "sorted_wrt (<) (map edge_key (sort_key edge_key (dc_Edges (discovery st))))"
  proof -
    have "distinct (map edge_key (sort_key edge_key (dc_Edges (discovery st))))"
      using i(1) unfolding shape_def by (metis distinct_map distinct_sort set_sort)
    then show ?thesis by (simp add: strict_sorted_iff)
  qed
  moreover have "d_edges st \<subseteq> d_keys st \<times> d_keys st" using i(2) by (simp add: layered_def layering_def)
  moreover have "(\<exists>l \<in> set (layers_of st). l_Depth l = k \<and> j \<in> set (l_NodeIDs l)) \<longleftrightarrow>
      at_distance (d_edges st) (set (dc_StartNodeIDs (discovery st))) j k" for j k
    using layers_of_facts(2) layering_distance [OF i(2) [unfolded layered_def]] by simp
  moreover have "d_keys st = {j. \<exists>k. \<exists>l \<in> set (layers_of st). l_Depth l = k \<and> j \<in> set (l_NodeIDs l)}"
    using layers_of_facts(2) by auto
  ultimately show ?thesis using layers_of_facts(1) layers_of_facts(3) [OF i(3)] ids
    unfolding d Let_def in_layer_def collect_fields by (simp add: d_edges_def)
qed

text \<open>
  C5. A discovery that says its traversal is complete is complete: every node in a layer above the requested
  depth is the subject of a request the discovery made for outgoing calls, the server answered that request,
  and every call it reported in the answer has an edge, to the reported callee or to a node at the same
  semantic location.
\<close>

theorem Discover_complete:
  assumes "Discover_run E client uri opts = (d, asked)" and "dc_TraversalComplete d" and "in_layer d i k"
    and "int k < so_DownDepth opts"
  shows "\<exists>j < length asked. \<exists>calls. ID (slice_node E (asked ! j)) = i \<and>
    sc_OutgoingCalls client j (asked ! j) = Inr (calls, False) \<and>
    (\<forall>call \<in> set calls. \<exists>n \<in> set (dc_Nodes d). (i, ID n) \<in> edge_key ` set (dc_Edges d) \<and>
       (ID n = ID (slice_node E (To call)) \<or> SameSemanticLocation n (slice_node E (To call))))"
proof (rule Discover_cases [of E client uri opts])
  assume "dc_Layers (Discover E client uri opts) = []"
  with assms(1,3) show ?thesis by (simp add: in_layer_def Discover_def)
next
  fix st assume f: "disc_final E opts client st"
    and run: "Discover_run E client uri opts = (close_discovery client (d_checks st) (collect_discovery E opts st), d_requests st)"
  have d: "d = close_discovery client (d_checks st) (collect_discovery E opts st)" and asked: "asked = d_requests st"
    using run assms(1) by simp_all
  have "\<not> d_hurt (discovery st)"
    using assms(2) unfolding d by (auto simp: close_discovery_def collect_discovery_def d_hurt_def Let_def)
  moreover have "i \<in> d_keys st" "depthByID st i = k"
    using assms(3) layers_of_facts(2) [of st k i] unfolding d in_layer_def collect_fields by blast+
  ultimately have "answered_out E client st i" using f assms(4) by (auto simp: disc_final_def logged_def)
  then show ?thesis unfolding d asked collect_fields answered_out_def linked_call_def d_edges_def by simp
qed

text \<open>A server that reports one function, which calls itself.\<close>

definition recursive_item :: CallHierarchyItem where
  "recursive_item = \<lparr>c_Name = ''f'', c_Kind = 12, c_Tags = [], c_Detail = '''', c_URI = ''file:///a'', c_Range = sample_range,
     c_SelectionRange = sample_range, c_Data = ''''\<rparr>"

definition recursive_server :: SliceClient where
  "recursive_server = one_symbol_server\<lparr>sc_PrepareCallHierarchy := (\<lambda>k p. Inr [recursive_item]),
     sc_OutgoingCalls := (\<lambda>k item. Inr ([\<lparr>To = recursive_item, ToRanges = [sample_range]\<rparr>], False))\<rparr>"

definition one_level :: SliceOptions where
  "one_level = \<lparr>so_DownDepth = 1, so_MaxNodes = 0\<rparr>"

lemma recursive_valid: "ValidateItem sample_env (slice_node sample_env recursive_item) = None" "ValidateRange (rng sample_range) = None"
  by code_simp+

lemma same_refl: "SameNodeIdentity n n" "SameSemanticLocation n n"
  by (simp_all add: SameNodeIdentity_def SameSemanticLocation_def)

lemmas run_defs = Discover_def Discover_run_def prepare_all_def prepare_symbol_def prepare_item_def finish_disposition_def account_def dispose_def
  admit_node_def at_bound_def discover_start_def emptyDiscovery_def discover_turn_def expand_outgoing_def add_callee_def resolve_callee_def
  link_def close_discovery_def collect_discovery_def layers_of_def recursive_server_def one_symbol_server_def silent_server_def
  one_level_def Let_def

lemma recursive_run:
  "Discover_run sample_env recursive_server ''file:///a'' one_level =
     (Discover sample_env recursive_server ''file:///a'' one_level, [recursive_item])"
  "dc_TraversalComplete (Discover sample_env recursive_server ''file:///a'' one_level)"
  "list_ex (\<lambda>l. l_Depth l = 0 \<and> ID (slice_node sample_env recursive_item) \<in> set (l_NodeIDs l))
     (dc_Layers (Discover sample_env recursive_server ''file:///a'' one_level))"
  by (simp_all add: run_defs discover_loop.simps recursive_valid same_refl)

lemma Discover_complete_witness:
  "\<exists>n \<in> set (dc_Nodes (Discover sample_env recursive_server ''file:///a'' one_level)).
     (ID (slice_node sample_env recursive_item), ID n) \<in>
       edge_key ` set (dc_Edges (Discover sample_env recursive_server ''file:///a'' one_level))"
proof -
  have "in_layer (Discover sample_env recursive_server ''file:///a'' one_level) (ID (slice_node sample_env recursive_item)) 0"
    using recursive_run(3) by (simp add: in_layer_def list_ex_iff)
  moreover have "int 0 < so_DownDepth one_level" by (simp add: one_level_def)
  moreover have "set calls \<noteq> {}" if "sc_OutgoingCalls recursive_server j item = Inr (calls, False)" for j item calls
    using that by (auto simp: recursive_server_def)
  ultimately show ?thesis using Discover_complete [OF recursive_run(1,2)] by (metis all_not_in_conv)
qed

end
