(* ===== verification/Reconcile.thy ===== *)
theory Reconcile
  imports Slicer Call_Graph_Properties
begin

text \<open>
  Package \<open>internal/graph\<close>, file \<open>reconcile.go\<close>: \<open>ReconcileIncomingAliases\<close> replaces the nodes of an incoming trace
  by the presentation of the same symbol in an outgoing one before the two are merged.

  The groups of aliases are visited in the order of the nodes; Go visits them in map order, and the result
  is the same because identifiers are unique and \<open>Canonicalize\<close> sorts the diagnostics. The compaction of the
  raw \<open>data\<close> member by \<open>json.Marshal\<close> is the parameter \<open>compact\<close>, which fails on text that is not JSON: the Go
  code ignores the error and prints nothing. It only reaches the text of a diagnostic.
\<close>

type_synonym location = "string \<times> int \<times> string \<times> Range"

definition semanticLocation :: "Node \<Rightarrow> location" where
  "semanticLocation n = (Name n, Kind n, URI n, SelectionRange n)"

definition exactDeclaration :: "Node \<Rightarrow> location \<times> Range" where
  "exactDeclaration n = (semanticLocation n, IRange n)"

definition item_json :: "(string \<Rightarrow> string option) \<Rightarrow> Node \<Rightarrow> string" where
  "item_json compact n =
     (let item = (\<lambda>data. json_object
        ([json_field ''name'' (json_string (Name n)), json_field ''kind'' (dec_int (Kind n))] @ omitempty ''detail'' (Detail n) @
         [json_field ''uri'' (json_string (URI n)), json_field ''range'' (range_json (IRange n)),
          json_field ''selection_range'' (range_json (SelectionRange n))] @ data))
      in if Data n = '''' then item []
         else case compact (Data n) of None \<Rightarrow> '''' | Some data \<Rightarrow> item [json_field ''data'' data])"

type_synonym replacing = "(string, Node) go_map \<times> Diagnostic list"

definition replace_alias :: "(string \<Rightarrow> string option) \<Rightarrow> Node \<Rightarrow> Node \<Rightarrow> replacing \<Rightarrow> replacing" where
  "replace_alias compact canonical alias s =
     (case s of (replacements, diagnostics) \<Rightarrow>
       (AList.update (ID alias) canonical replacements,
        diagnostics @ [\<lparr>Phase = ''slice-reconcile'', Method = incomingMethod, DNodeID = ID canonical, Category = NoCategory,
          DMessage = ''INCOMING_SYMBOL_ALIAS_RECONCILED: incoming='' @ item_json compact alias\<rparr>]))"

text \<open>The first loop: several incoming presentations of one exact declaration become the one with the least identifier.\<close>

definition reconcile_group :: "(string \<Rightarrow> string option) \<Rightarrow> Node list \<Rightarrow> location \<times> Range \<Rightarrow> replacing \<Rightarrow> replacing" where
  "reconcile_group compact nodes key s =
     (case sort_key ID (filter (\<lambda>n. exactDeclaration n = key) nodes) of
        canonical # aliases \<Rightarrow> fold (replace_alias compact canonical) (filter (\<lambda>n. ID n \<noteq> ID canonical) aliases) s
      | [] \<Rightarrow> s)"

definition reconcile_groups :: "(string \<Rightarrow> string option) \<Rightarrow> Node list \<Rightarrow> replacing \<Rightarrow> replacing" where
  "reconcile_groups compact nodes = fold (reconcile_group compact nodes) (remdups (map exactDeclaration nodes))"

text \<open>The second loop: a node with exactly one outgoing node at its location becomes that node.\<close>

definition matches :: "Node list \<Rightarrow> Node \<Rightarrow> Node list" where
  "matches outgoing n = filter (\<lambda>m. semanticLocation m = semanticLocation n) outgoing"

definition reconcile_node :: "(string \<Rightarrow> string option) \<Rightarrow> Node list \<Rightarrow> Node \<Rightarrow> replacing \<Rightarrow> replacing" where
  "reconcile_node compact outgoing n s =
     (case matches outgoing n of
        [m] \<Rightarrow> if ID m = ID n then s else replace_alias compact m n s
      | _ \<Rightarrow> s)"

definition replacements_of :: "(string \<Rightarrow> string option) \<Rightarrow> Result \<Rightarrow> Result \<Rightarrow> replacing" where
  "replacements_of compact outgoing incoming =
     fold (reconcile_node compact (Nodes outgoing)) (Nodes incoming)
       (reconcile_groups compact (Nodes incoming) ([], Diagnostics incoming))"

definition rewrite_id :: "(string, Node) go_map \<Rightarrow> string \<Rightarrow> string" where
  "rewrite_id replacements i = (case map_of replacements i of None \<Rightarrow> i | Some n \<Rightarrow> ID n)"

definition replace_node :: "(string, Node) go_map \<Rightarrow> Node \<Rightarrow> Node" where
  "replace_node replacements n = (case map_of replacements (ID n) of None \<Rightarrow> n | Some m \<Rightarrow> m)"

fun keep_first :: "string set \<Rightarrow> Node list \<Rightarrow> Node list" where
  "keep_first known [] = []"
| "keep_first known (n # ns) = (if ID n \<in> known then keep_first known ns else n # keep_first (insert (ID n) known) ns)"

definition rewrite_edge :: "(string, Node) go_map \<Rightarrow> Edge \<Rightarrow> Edge" where
  "rewrite_edge rs e = e\<lparr>CallerNodeID := rewrite_id rs (CallerNodeID e), CalleeNodeID := rewrite_id rs (CalleeNodeID e)\<rparr>"

definition rewrite_seed :: "(string, Node) go_map \<Rightarrow> SeedResult \<Rightarrow> SeedResult" where
  "rewrite_seed rs s = s\<lparr>PreparedTargetIDs := map (rewrite_id rs) (PreparedTargetIDs s),
     ReachedNodeIDs := map (rewrite_id rs) (ReachedNodeIDs s), ReachedEdges := map (rewrite_edge rs) (ReachedEdges s)\<rparr>"

definition rewrite_result :: "(string, Node) go_map \<Rightarrow> Result \<Rightarrow> Result" where
  "rewrite_result rs r =
     r\<lparr>Nodes := keep_first {} (map (replace_node rs) (Nodes r)), Edges := map (rewrite_edge rs) (Edges r),
       Targets := map (rewrite_id rs) (Targets r),
       Terminals := map (\<lambda>b. b\<lparr>BNodeID := rewrite_id rs (BNodeID b)\<rparr>) (Terminals r),
       Frontier := map (\<lambda>b. b\<lparr>BNodeID := rewrite_id rs (BNodeID b)\<rparr>) (Frontier r),
       Diagnostics := map (\<lambda>d. d\<lparr>DNodeID := rewrite_id rs (DNodeID d)\<rparr>) (Diagnostics r),
       Seeds := map (rewrite_seed rs) (Seeds r)\<rparr>"

definition ReconcileIncomingAliases :: "env \<Rightarrow> (string \<Rightarrow> string option) \<Rightarrow> Result \<Rightarrow> Result \<Rightarrow> Result" where
  "ReconcileIncomingAliases E compact outgoing incoming =
     (case replacements_of compact outgoing incoming of (rs, diagnostics) \<Rightarrow>
        let r = incoming\<lparr>Diagnostics := diagnostics\<rparr>
        in if rs = [] then r else Canonicalize E (rewrite_result rs r))"

section \<open>The replacements\<close>

text \<open>What a replacement may be: another presentation of the same symbol, known to one of the two traces.\<close>

definition sane :: "Node list \<Rightarrow> Node list \<Rightarrow> (string, Node) go_map \<Rightarrow> bool" where
  "sane outgoing nodes rs \<longleftrightarrow> (\<forall>i m. map_of rs i = Some m \<longrightarrow>
     (\<exists>n \<in> set nodes. ID n = i \<and> semanticLocation m = semanticLocation n \<and> (m \<in> set nodes \<or> matches outgoing n = [m])))"

lemma fold_alias_fst:
  "map_of (fst (fold (replace_alias compact c) as s)) i = (if i \<in> ID ` set as then Some c else map_of (fst s) i)"
proof (induction as arbitrary: s)
  case (Cons a as)
  then show ?case by (cases s) (auto simp: replace_alias_def)
qed simp

lemma reconcile_group_fst:
  "map_of (fst (reconcile_group compact nodes key s)) i =
     (case sort_key ID (filter (\<lambda>n. exactDeclaration n = key) nodes) of
        [] \<Rightarrow> map_of (fst s) i
      | c # as \<Rightarrow> if i \<in> ID ` set as \<and> i \<noteq> ID c then Some c else map_of (fst s) i)"
  by (auto simp: reconcile_group_def fold_alias_fst split: list.split)

lemma reconcile_group_sane:
  assumes "sane outgoing nodes (fst s)"
  shows "sane outgoing nodes (fst (reconcile_group compact nodes key s))"
proof (cases "sort_key ID (filter (\<lambda>n. exactDeclaration n = key) nodes)")
  case (Cons c as)
  have g: "set (c # as) = {n \<in> set nodes. exactDeclaration n = key}" using arg_cong [OF Cons, of set] by auto
  then have "c \<in> set nodes" "exactDeclaration c = key" by auto
  moreover have "n \<in> set nodes \<and> exactDeclaration n = key" if "n \<in> set as" for n using g that by auto
  ultimately show ?thesis using assms unfolding sane_def reconcile_group_fst Cons
    by (auto simp: exactDeclaration_def split: if_splits)
qed (use assms in \<open>simp add: sane_def reconcile_group_fst\<close>)

lemma reconcile_groups_sane:
  assumes "sane outgoing nodes (fst s)"
  shows "sane outgoing nodes (fst (reconcile_groups compact nodes s))"
proof -
  have "sane outgoing nodes (fst s) \<Longrightarrow> sane outgoing nodes (fst (fold (reconcile_group compact nodes) ks s))" for ks
    by (induction ks arbitrary: s) (simp_all add: reconcile_group_sane)
  with assms show ?thesis by (simp add: reconcile_groups_def)
qed

lemma matches_location: "matches outgoing n = [m] \<Longrightarrow> semanticLocation m = semanticLocation n"
proof -
  assume "matches outgoing n = [m]"
  then have "m \<in> set (matches outgoing n)" by simp
  then show ?thesis by (simp add: matches_def)
qed

lemma matches_cong: "semanticLocation m = semanticLocation n \<Longrightarrow> matches outgoing m = matches outgoing n"
  by (simp add: matches_def)

lemma reconcile_node_fst:
  "map_of (fst (reconcile_node compact outgoing n s)) i =
     (if i = ID n \<and> (\<exists>m. matches outgoing n = [m] \<and> ID m \<noteq> ID n) then Some (hd (matches outgoing n)) else map_of (fst s) i)"
  by (cases s) (auto simp: reconcile_node_def replace_alias_def split: list.split)

lemma reconcile_node_sane:
  assumes "sane outgoing nodes (fst s)" "n \<in> set nodes"
  shows "sane outgoing nodes (fst (reconcile_node compact outgoing n s))"
  using assms matches_location [of outgoing n] unfolding sane_def reconcile_node_fst by (auto split: if_splits)

text \<open>The second loop decides for every node with one outgoing presentation.\<close>

lemma reconcile_nodes_fst:
  assumes "distinct (map ID ns)" "n \<in> set ns" "matches outgoing n = [m]"
  shows "map_of (fst (fold (reconcile_node compact outgoing) ns s)) (ID n) = (if ID m \<noteq> ID n then Some m else map_of (fst s) (ID n))"
  using assms(1,2)
proof (induction ns arbitrary: s)
  case (Cons x ns)
  have rest: "map_of (fst (fold (reconcile_node compact outgoing) ys s)) i = map_of (fst s) i" if "i \<notin> ID ` set ys" for ys i s
    using that by (induction ys arbitrary: s) (auto simp: reconcile_node_fst)
  show ?case
  proof (cases "x = n")
    case True
    then have "ID n \<notin> ID ` set ns" using Cons.prems(1) by auto
    then show ?thesis using assms(3) True by (simp add: rest reconcile_node_fst)
  next
    case False
    then have n: "n \<in> set ns" using Cons.prems by simp
    then have "ID n \<in> ID ` set ns" by simp
    then have "ID n \<noteq> ID x" using Cons.prems(1) by auto
    with n show ?thesis using Cons.IH [of "reconcile_node compact outgoing x s"] Cons.prems(1) by (simp add: reconcile_node_fst)
  qed
qed simp

lemma replacements_facts:
  fixes compact :: "string \<Rightarrow> string option" and outgoing :: Result
  assumes "distinct (map ID (Nodes incoming))"
  defines "rs \<equiv> fst (replacements_of compact outgoing incoming)"
  shows "sane (Nodes outgoing) (Nodes incoming) rs"
    "n \<in> set (Nodes incoming) \<Longrightarrow> matches (Nodes outgoing) n = [m] \<Longrightarrow>
       map_of rs (ID n) = (if ID m \<noteq> ID n then Some m else map_of (fst (reconcile_groups compact (Nodes incoming) ([], Diagnostics incoming))) (ID n))"
proof -
  let ?s = "reconcile_groups compact (Nodes incoming) ([], Diagnostics incoming)"
  have "sane (Nodes outgoing) (Nodes incoming) (fst ?s)" by (rule reconcile_groups_sane) (simp add: sane_def)
  moreover have "sane (Nodes outgoing) (Nodes incoming) (fst (fold (reconcile_node compact (Nodes outgoing)) ns s))"
    if "sane (Nodes outgoing) (Nodes incoming) (fst s)" "set ns \<subseteq> set (Nodes incoming)" for ns s
    using that by (induction ns arbitrary: s) (simp_all add: reconcile_node_sane)
  ultimately show "sane (Nodes outgoing) (Nodes incoming) rs" by (simp add: rs_def replacements_of_def)
  show "map_of rs (ID n) = (if ID m \<noteq> ID n then Some m else map_of (fst ?s) (ID n))"
    if "n \<in> set (Nodes incoming)" "matches (Nodes outgoing) n = [m]"
    using reconcile_nodes_fst [OF assms(1) that] by (simp add: rs_def replacements_of_def)
qed

lemma reconcile_groups_least:
  assumes "distinct (map ID nodes)" "x \<in> set nodes" "\<forall>a \<in> set nodes. exactDeclaration a = exactDeclaration x \<longrightarrow> ID x \<le> ID a"
    and "map_of (fst s) (ID x) = None"
  shows "map_of (fst (reconcile_groups compact nodes s)) (ID x) = None"
proof -
  have one: "map_of (fst (reconcile_group compact nodes key s)) (ID x) = None" if "map_of (fst s) (ID x) = None" for key s
  proof (cases "sort_key ID (filter (\<lambda>n. exactDeclaration n = key) nodes)")
    case (Cons c as)
    have g: "set (c # as) = {n \<in> set nodes. exactDeclaration n = key}" using arg_cong [OF Cons, of set] by auto
    have "sorted (map ID (sort_key ID (filter (\<lambda>n. exactDeclaration n = key) nodes)))" by simp
    then have c: "\<forall>a \<in> set as. ID c \<le> ID a" unfolding Cons by simp
    have "ID x = ID c" if a: "a \<in> set as" "ID a = ID x" for a
    proof -
      have "a \<in> set nodes" using g a(1) by auto
      with a(2) assms(1,2) have "a = x" by (metis distinct_map inj_on_def)
      with a(1) g have "exactDeclaration x = key" "c \<in> set nodes" "exactDeclaration c = key" by auto
      with assms(3) have "ID x \<le> ID c" by simp
      with c a show ?thesis by force
    qed
    then show ?thesis using that unfolding reconcile_group_fst Cons by auto
  qed (simp add: that reconcile_group_fst)
  have "map_of (fst (fold (reconcile_group compact nodes) ks s)) (ID x) = None" if "map_of (fst s) (ID x) = None" for ks s
    using that by (induction ks arbitrary: s) (simp_all add: one)
  then show ?thesis using assms(4) by (simp add: reconcile_groups_def)
qed

section \<open>The rewritten trace\<close>

lemma keep_first_ids: "ID ` set (keep_first known ns) = ID ` set ns - known"
  by (induction ns arbitrary: known) auto

lemma keep_first_subset: "set (keep_first known ns) \<subseteq> set ns"
  by (induction ns arbitrary: known) auto

lemma rewrite_replace: "ID (replace_node rs n) = rewrite_id rs (ID n)"
  by (simp add: replace_node_def rewrite_id_def split: option.split)

lemma Canonicalize_sets:
  "set (Nodes (Canonicalize E r)) = set (Nodes r)" "edge_key ` set (Edges (Canonicalize E r)) = edge_key ` set (Edges r)"
  "set (Targets (Canonicalize E r)) = set (Targets r)"
proof -
  have "edge_key (canonical_edge E e) = edge_key e" for e by (simp add: edge_key_def canonical_edge_def)
  then show "edge_key ` set (Edges (Canonicalize E r)) = edge_key ` set (Edges r)"
    by (simp add: Canonicalize_fields image_image)
  show "set (Nodes (Canonicalize E r)) = set (Nodes r)" by (simp add: Canonicalize_fields)
  show "set (Targets (Canonicalize E r)) = set (Targets r)"
    by (simp add: Canonicalize_def Let_def canonical_quality_def canonical_summary_def canonical_lists_def
        sortedUnique_def uniqueStrings_def)
qed

lemma rewrite_nothing [simp]:
  "rewrite_id [] i = i" "replace_node [] n = n" "map_prod (rewrite_id []) (rewrite_id []) p = p"
  by (simp_all add: rewrite_id_def replace_node_def map_prod_def split_beta)

lemma reconciled_sets:
  fixes compact :: "string \<Rightarrow> string option" and outgoing incoming :: Result
  defines "rs \<equiv> fst (replacements_of compact outgoing incoming)"
  shows "set (Nodes (ReconcileIncomingAliases E compact outgoing incoming)) \<subseteq> replace_node rs ` set (Nodes incoming)"
    "ID ` set (Nodes (ReconcileIncomingAliases E compact outgoing incoming)) = rewrite_id rs ` ID ` set (Nodes incoming)"
    "edge_key ` set (Edges (ReconcileIncomingAliases E compact outgoing incoming)) =
       map_prod (rewrite_id rs) (rewrite_id rs) ` edge_key ` set (Edges incoming)"
    "set (Targets (ReconcileIncomingAliases E compact outgoing incoming)) = rewrite_id rs ` set (Targets incoming)"
proof -
  obtain ds where r: "replacements_of compact outgoing incoming = (rs, ds)" by (cases "replacements_of compact outgoing incoming") (simp add: rs_def)
  have e: "edge_key (rewrite_edge rs e) = map_prod (rewrite_id rs) (rewrite_id rs) (edge_key e)" for e
    by (simp add: edge_key_def rewrite_edge_def)
  show "set (Nodes (ReconcileIncomingAliases E compact outgoing incoming)) \<subseteq> replace_node rs ` set (Nodes incoming)"
    using keep_first_subset [of "{}" "map (replace_node rs) (Nodes incoming)"]
    by (cases "rs = []") (simp_all add: ReconcileIncomingAliases_def r Let_def Canonicalize_sets rewrite_result_def image_iff replace_node_def subset_iff)
  show "ID ` set (Nodes (ReconcileIncomingAliases E compact outgoing incoming)) = rewrite_id rs ` ID ` set (Nodes incoming)"
    by (simp add: ReconcileIncomingAliases_def r Let_def Canonicalize_sets rewrite_result_def keep_first_ids image_image rewrite_replace)
  show "edge_key ` set (Edges (ReconcileIncomingAliases E compact outgoing incoming)) =
       map_prod (rewrite_id rs) (rewrite_id rs) ` edge_key ` set (Edges incoming)"
    by (simp add: ReconcileIncomingAliases_def r Let_def Canonicalize_sets rewrite_result_def image_image e)
  show "set (Targets (ReconcileIncomingAliases E compact outgoing incoming)) = rewrite_id rs ` set (Targets incoming)"
    by (simp add: ReconcileIncomingAliases_def r Let_def Canonicalize_sets rewrite_result_def)
qed

text \<open>
  C40. Reconciliation keeps the trace closed: when the edges and targets of the incoming trace are nodes of
  it, the edges and targets of the reconciled trace are nodes of the reconciled trace.
\<close>

theorem Reconcile_closed:
  assumes "edge_key ` set (Edges incoming) \<subseteq> (ID ` set (Nodes incoming)) \<times> (ID ` set (Nodes incoming))"
    and "set (Targets incoming) \<subseteq> ID ` set (Nodes incoming)"
  shows "let r = ReconcileIncomingAliases E compact outgoing incoming in
    edge_key ` set (Edges r) \<subseteq> (ID ` set (Nodes r)) \<times> (ID ` set (Nodes r)) \<and> set (Targets r) \<subseteq> ID ` set (Nodes r)"
proof -
  have "map_prod f f ` (K \<times> K) = f ` K \<times> f ` K" for f :: "string \<Rightarrow> string" and K by auto
  then show ?thesis using assms image_mono [OF assms(1)] image_mono [OF assms(2)]
    unfolding Let_def reconciled_sets by metis
qed

text \<open>
  C39. A node of an incoming trace whose location has exactly one outgoing node is presented as that node
  afterwards, provided the node identifiers of the incoming trace are distinct and no outgoing presentation
  itself occurs in the incoming trace below another alias of the same declaration.
\<close>

theorem Reconcile_presents_outgoing:
  assumes "distinct (map ID (Nodes incoming))"
    and "\<forall>n \<in> set (Nodes incoming). \<forall>m. matches (Nodes outgoing) n = [m] \<and> ID m = ID n \<longrightarrow>
      (\<forall>a \<in> set (Nodes incoming). exactDeclaration a = exactDeclaration n \<longrightarrow> ID n \<le> ID a)"
    and "n \<in> set (Nodes (ReconcileIncomingAliases E compact outgoing incoming))" and "matches (Nodes outgoing) n = [m]"
  shows "ID n = ID m"
proof -
  let ?rs = "fst (replacements_of compact outgoing incoming)" and ?s = "reconcile_groups compact (Nodes incoming) ([], Diagnostics incoming)"
  note facts = replacements_facts [OF assms(1), where compact = compact and outgoing = outgoing]
  from assms(3) reconciled_sets(1) obtain o' where o': "o' \<in> set (Nodes incoming)" "n = replace_node ?rs o'" by blast
  have loc: "semanticLocation n = semanticLocation o'"
  proof (cases "map_of ?rs (ID o')")
    case (Some k)
    then obtain x where "x \<in> set (Nodes incoming)" "ID x = ID o'" "semanticLocation k = semanticLocation x" using facts(1) unfolding sane_def by blast
    moreover from this have "x = o'" using assms(1) o'(1) by (metis distinct_map inj_on_def)
    ultimately show ?thesis using Some o'(2) by (simp add: replace_node_def)
  qed (simp add: o'(2) replace_node_def)
  with assms(4) have m: "matches (Nodes outgoing) o' = [m]" using matches_cong by metis
  show ?thesis
  proof (cases "ID m = ID o'")
    case False
    then have "map_of ?rs (ID o') = Some m" using facts(2) [OF o'(1) m] by simp
    then show ?thesis using o'(2) by (simp add: replace_node_def)
  next
    case True
    have "map_of (fst ?s) (ID o') = None"
      by (rule reconcile_groups_least [OF assms(1) o'(1)]) (use assms(2) o'(1) m True in auto)
    then have "map_of ?rs (ID o') = None" using facts(2) [OF o'(1) m] True by simp
    then show ?thesis using o'(2) True by (simp add: replace_node_def)
  qed
qed

section \<open>Instances\<close>

definition alias_node :: "string \<Rightarrow> string \<Rightarrow> Node" where
  "alias_node i detail = (sample_node i)\<lparr>Name := ''f'', Detail := detail\<rparr>"

definition call_edge :: "string \<Rightarrow> string \<Rightarrow> Edge" where
  "call_edge a b = \<lparr>ERelationID = '''', EExecutionBundleID = '''', CallerNodeID = a, CalleeNodeID = b, CallSites = []\<rparr>"

definition outgoing_b :: Result where
  "outgoing_b = (emptyResult SchemaVersionV3)\<lparr>Nodes := [alias_node ''b'' ''y'']\<rparr>"

definition incoming_a :: Result where
  "incoming_a = (emptyResult SchemaVersionV3)\<lparr>Nodes := [alias_node ''a'' ''x'', sample_node ''c''], Edges := [call_edge ''c'' ''a''], Targets := [''a'']\<rparr>"

definition incoming_ab :: Result where
  "incoming_ab = (emptyResult SchemaVersionV3)\<lparr>Nodes := [alias_node ''a'' ''x'', alias_node ''b'' ''y'', sample_node ''c''],
     Edges := [call_edge ''c'' ''b''], Targets := [''b'']\<rparr>"

lemma replacements_a: "fst (replacements_of Some outgoing_b incoming_a) = [(''a'', alias_node ''b'' ''y'')]"
  by code_simp

lemma replacements_ab: "map (\<lambda>p. (fst p, ID (snd p))) (fst (replacements_of Some outgoing_b incoming_ab)) = [(''b'', ''a''), (''a'', ''b'')]"
  by code_simp

lemma rewrite_id_map: "rewrite_id rs i = (case map_of (map (\<lambda>p. (fst p, ID (snd p))) rs) i of None \<Rightarrow> i | Some j \<Rightarrow> j)"
  by (induction rs) (auto simp: rewrite_id_def split: prod.split)

lemma incoming_a_closed:
  "edge_key ` set (Edges incoming_a) \<subseteq> (ID ` set (Nodes incoming_a)) \<times> (ID ` set (Nodes incoming_a))"
  "set (Targets incoming_a) \<subseteq> ID ` set (Nodes incoming_a)"
  by (simp_all add: incoming_a_def emptyResult_def alias_node_def sample_node_def call_edge_def edge_key_def)

lemma Reconcile_closed_witness:
  "set (Targets (ReconcileIncomingAliases sample_env Some outgoing_b incoming_a)) \<subseteq>
     ID ` set (Nodes (ReconcileIncomingAliases sample_env Some outgoing_b incoming_a))"
  using Reconcile_closed [OF incoming_a_closed, of sample_env Some outgoing_b] by (simp only: Let_def)

lemma reconciled_a: "alias_node ''b'' ''y'' \<in> set (Nodes (ReconcileIncomingAliases sample_env Some outgoing_b incoming_a))"
proof -
  obtain ds where "replacements_of Some outgoing_b incoming_a = ([(''a'', alias_node ''b'' ''y'')], ds)"
    using replacements_a by (metis prod.collapse)
  then have "set (Nodes (ReconcileIncomingAliases sample_env Some outgoing_b incoming_a)) =
      set (keep_first {} (map (replace_node [(''a'', alias_node ''b'' ''y'')]) (Nodes incoming_a)))"
    by (simp add: ReconcileIncomingAliases_def Let_def Canonicalize_sets rewrite_result_def)
  then show ?thesis by (simp add: incoming_a_def replace_node_def alias_node_def sample_node_def)
qed

lemma outgoing_b_matches: "matches (Nodes outgoing_b) n = (if semanticLocation n = semanticLocation (alias_node ''b'' ''y'') then [alias_node ''b'' ''y''] else [])"
  by (auto simp: matches_def outgoing_b_def)

lemma Reconcile_presents_outgoing_witness:
  "alias_node ''b'' ''y'' \<in> set (Nodes (ReconcileIncomingAliases sample_env Some outgoing_b incoming_a)) \<and>
   matches (Nodes outgoing_b) (alias_node ''b'' ''y'') = [alias_node ''b'' ''y''] \<and> ID (alias_node ''b'' ''y'') = ''b''"
proof -
  let ?n = "alias_node ''b'' ''y''" and ?r = "ReconcileIncomingAliases sample_env Some outgoing_b incoming_a"
  have "?n \<in> set (Nodes ?r)" by (rule reconciled_a)
  moreover have "distinct (map ID (Nodes incoming_a))" by code_simp
  moreover have "\<forall>n \<in> set (Nodes incoming_a). \<forall>m. matches (Nodes outgoing_b) n = [m] \<and> ID m = ID n \<longrightarrow>
      (\<forall>a \<in> set (Nodes incoming_a). exactDeclaration a = exactDeclaration n \<longrightarrow> ID n \<le> ID a)"
    by (simp add: incoming_a_def outgoing_b_def matches_def semanticLocation_def alias_node_def sample_node_def)
  moreover have "matches (Nodes outgoing_b) ?n = [?n]" by (simp add: outgoing_b_matches)
  ultimately show ?thesis using Reconcile_presents_outgoing [of incoming_a outgoing_b ?n sample_env Some ?n]
    by (simp add: alias_node_def sample_node_def)
qed

text \<open>
  The proviso of the previous property is needed: when the incoming trace holds the outgoing
  presentation \<open>b\<close> and an alias \<open>a\<close> with a lesser identifier, the two are exchanged instead of being identified;
  both remain, and an edge to \<open>b\<close> becomes an edge to \<open>a\<close>.
\<close>

lemma Reconcile_exchanges:
  "let r = ReconcileIncomingAliases sample_env Some outgoing_b incoming_ab in
     ID ` set (Nodes r) = {''a'', ''b'', ''c''} \<and> edge_key ` set (Edges incoming_ab) = {(''c'', ''b'')} \<and>
     edge_key ` set (Edges r) = {(''c'', ''a'')}"
proof -
  have "ID ` set (Nodes incoming_ab) = {''a'', ''b'', ''c''}" "edge_key ` set (Edges incoming_ab) = {(''c'', ''b'')}"
    by (simp_all add: incoming_ab_def alias_node_def sample_node_def call_edge_def edge_key_def)
  moreover have "rewrite_id (fst (replacements_of Some outgoing_b incoming_ab)) i = (if i = ''b'' then ''a'' else if i = ''a'' then ''b'' else i)" for i
    by (simp add: rewrite_id_map replacements_ab)
  ultimately show ?thesis unfolding Let_def reconciled_sets by (simp add: insert_commute)
qed

end
