(* ===== verification/Bounded_Analysis.thy ===== *)
theory Bounded_Analysis
  imports Retained_Path
begin

text \<open>
  Package \<open>internal/boundedanalysis\<close>: the analysis of retained calls. \<open>project\<close> turns the admitted tables into
  nodes and edges; \<open>run\<close> finds a shortest path (theory \<open>Retained_Path\<close>), or the weakly or strongly connected
  components by breadth-first sweeps and Kosaraju's algorithm, within a budget of work; \<open>prove\<close> checks a
  completed answer in another way, partitions by the connectivity of each block and the acyclicity of
  the quotient.

  The admission of the input bytes is a hypothesis on the tables. SHA-256 in hexadecimal is the
  parameter \<open>sha\<close>. The context is a predicate on the number of times it was polled, as in \<open>Retained_Path\<close>.
  \<open>normalize\<close> only lets a positive \<open>MaxWork\<close> pass and \<open>tick\<close> never decrements zero, so \<open>left\<close> is a natural number.
  Identifiers come from decoded JSON and are valid UTF-8, on which \<open>canonical\<close> encodes a list of strings
  as \<open>json.Marshal\<close> does. Group identifiers and first members are distinct, so that the order \<open>sort.Slice\<close> gives is
  that of a stable sort.
\<close>

text \<open>Of the evidence, the constants, the input bytes and the seal are left out.\<close>

record Parameters =
  Operation :: string
  PStart :: string
  PEnd :: string
  Mode :: string
  MaxWork :: int

record Component =
  CompID :: string
  Members :: "string list"

record Evidence =
  BasisDigest :: string
  EvParameters :: Parameters
  EvNodes :: "string list"
  EvEdges :: "Edge list"
  EvStatus :: string
  EvReason :: string
  EvPath :: Path
  Components :: "Component list"

text \<open>The rows of the retained tables that the projection reads.\<close>

record Group =
  g_ContextID :: string
  g_RelationID :: string
  g_ExecutionBundleID :: string
  g_CallerNodeID :: string
  g_CalleeNodeID :: string
  g_CallsiteState :: string
  g_OccurrenceIDs :: "string list"

record Tables =
  Endpoints :: "string list"
  Groups :: "Group list"
  Occurrences :: "string list"

definition MaxWorkLimit :: int where "MaxWorkLimit = 1000000"
definition MaxNodesLimit :: nat where "MaxNodesLimit = 4096"
definition MaxEdgesLimit :: nat where "MaxEdgesLimit = 8192"

section \<open>Parameters and projection\<close>

datatype parameter_error =
    WorkRange
  | ProjectForbids
  | PathRequires
  | ComponentsRequire
  | UnknownOperation

definition normalize :: "Parameters \<Rightarrow> parameter_error + Parameters" where
  "normalize p0 =
     (let p = (if MaxWork p0 = 0 then p0\<lparr>MaxWork := MaxWorkLimit\<rparr> else p0) in
      if MaxWork p < 1 \<or> MaxWork p > MaxWorkLimit then Inl WorkRange
      else if Operation p = ''PROJECT'' then
        (if PStart p \<noteq> '''' \<or> PEnd p \<noteq> '''' \<or> Mode p \<noteq> '''' then Inl ProjectForbids else Inr p)
      else if Operation p = ''PATH'' then
        (if PStart p = '''' \<or> PEnd p = '''' \<or> Mode p \<noteq> '''' then Inl PathRequires else Inr p)
      else if Operation p = ''COMPONENTS'' then
        (if PStart p \<noteq> '''' \<or> PEnd p \<noteq> '''' \<or> (Mode p \<noteq> ''WEAK'' \<and> Mode p \<noteq> ''STRONG'') then Inl ComponentsRequire else Inr p)
      else Inl UnknownOperation)"

definition project_edge :: "Group \<Rightarrow> Edge" where
  "project_edge g = \<lparr>GroupID = g_RelationID g, ContextID = g_ContextID g, ExecutionBundleID = g_ExecutionBundleID g,
     Caller = g_CallerNodeID g, Callee = g_CalleeNodeID g, Weight = 1, CallsiteState = g_CallsiteState g,
     EdgeOccurrenceIDs = Some (g_OccurrenceIDs g)\<rparr>"

text \<open>\<open>project\<close> after admission; the error is the first missing end point of a path.\<close>

definition project :: "string \<Rightarrow> Tables \<Rightarrow> Parameters \<Rightarrow> string + Evidence" where
  "project basis t p =
     (let nodes = sort (Endpoints t);
          e = \<lparr>BasisDigest = basis, EvParameters = p, EvNodes = nodes,
               EvEdges = sort_key GroupID (map project_edge (Groups t)), EvStatus = ''COMPLETE'', EvReason = '''',
               EvPath = emptyPath, Components = []\<rparr>
      in if Operation p = ''PATH'' \<and> PStart p \<notin> set nodes then Inl (PStart p)
         else if Operation p = ''PATH'' \<and> PEnd p \<notin> set nodes then Inl (PEnd p)
         else Inr e)"

section \<open>Components\<close>

record budget =
  polls :: nat
  left :: nat
  reason :: string

definition tick :: "go_context \<Rightarrow> budget \<Rightarrow> bool \<times> budget" where
  "tick cancelled b =
     (let b' = b\<lparr>polls := Suc (polls b)\<rparr> in
      if cancelled (polls b) then (False, b'\<lparr>reason := ''CANCELLED''\<rparr>)
      else if left b = 0 then (False, b'\<lparr>reason := ''LIMIT''\<rparr>)
      else (True, b'\<lparr>left := left b - 1\<rparr>))"

lemma tick_left: "tick cancelled b = (ok, b') \<Longrightarrow> left b' \<le> left b \<and> (ok \<longrightarrow> left b' < left b)"
  by (auto simp: tick_def Let_def split: if_splits)

text \<open>The iterative postorder search. A frame is a node and the index of its next edge; the top of the stack is first.\<close>

type_synonym frame = "string \<times> nat"

function dfs_loop :: "go_context \<Rightarrow> adjacency \<Rightarrow> frame list \<Rightarrow> string set \<Rightarrow> string list \<Rightarrow> budget \<Rightarrow> bool \<times> string set \<times> string list \<times> budget" where
  "dfs_loop cancelled out [] seen order b = (True, seen, order, b)"
| "dfs_loop cancelled out ((v, i) # stack) seen order b =
     (case tick cancelled b of (ok, b1) \<Rightarrow>
        if \<not> ok then (False, seen, order, b1)
        else if i = length (out v) then dfs_loop cancelled out stack seen (order @ [v]) b1
        else if Callee (out v ! i) \<notin> seen
          then dfs_loop cancelled out ((Callee (out v ! i), 0) # (v, Suc i) # stack) (insert (Callee (out v ! i)) seen) order b1
        else dfs_loop cancelled out ((v, Suc i) # stack) seen order b1)"
  by pat_completeness auto
termination
  by (relation "measure (\<lambda>(cancelled, out, stack, seen, order, b). left b)") (auto dest!: tick_left [OF sym])

declare dfs_loop.simps(2) [simp del]

fun dfs_roots :: "go_context \<Rightarrow> adjacency \<Rightarrow> string list \<Rightarrow> string set \<Rightarrow> string list \<Rightarrow> budget \<Rightarrow> bool \<times> string list \<times> budget" where
  "dfs_roots cancelled out [] seen order b = (True, order, b)"
| "dfs_roots cancelled out (root # roots) seen order b =
     (case tick cancelled b of (ok, b1) \<Rightarrow>
        if \<not> ok then (False, order, b1)
        else if root \<in> seen then dfs_roots cancelled out roots seen order b1
        else case dfs_loop cancelled out [(root, 0)] (insert root seen) order b1 of (ok2, seen', order', b2) \<Rightarrow>
          if \<not> ok2 then (False, order', b2) else dfs_roots cancelled out roots seen' order' b2)"

text \<open>The loop over the edges at a queue entry: \<open>far\<close> is \<open>Caller\<close> or \<open>Callee\<close>; new nodes are appended to the queue.\<close>

fun sweep_edges :: "go_context \<Rightarrow> (Edge \<Rightarrow> string) \<Rightarrow> Edge list \<Rightarrow> string set \<Rightarrow> string list \<Rightarrow> budget
    \<Rightarrow> bool \<times> string set \<times> string list \<times> budget" where
  "sweep_edges cancelled far [] seen new b = (True, seen, new, b)"
| "sweep_edges cancelled far (e # es) seen new b =
     (case tick cancelled b of (ok, b1) \<Rightarrow>
        if \<not> ok then (False, seen, new, b1)
        else if far e \<notin> seen then sweep_edges cancelled far es (insert (far e) seen) (new @ [far e]) b1
        else sweep_edges cancelled far es seen new b1)"

lemma sweep_edges_left: "sweep_edges cancelled far es seen new b = (ok, seen', new', b') \<Longrightarrow> left b' \<le> left b"
proof (induction es arbitrary: seen new b)
  case (Cons e es)
  obtain ok1 b1 where t: "tick cancelled b = (ok1, b1)" by fastforce
  have "left b' \<le> left b1" using Cons.prems Cons.IH t by (cases ok1; cases "far e \<in> seen") auto
  with tick_left [OF t] show ?case by simp
qed simp

text \<open>The edges visited from one entry: incoming ones, and outgoing ones when the mode is weak.\<close>

definition sweep_node :: "go_context \<Rightarrow> adjacency \<Rightarrow> adjacency \<Rightarrow> bool \<Rightarrow> string \<Rightarrow> string set \<Rightarrow> budget
    \<Rightarrow> bool \<times> string set \<times> string list \<times> budget" where
  "sweep_node cancelled out inn weak v seen b =
     (case sweep_edges cancelled Caller (inn v) seen [] b of (ok, seen1, new1, b1) \<Rightarrow>
        if \<not> ok \<or> \<not> weak then (ok, seen1, new1, b1)
        else sweep_edges cancelled Callee (out v) seen1 new1 b1)"

text \<open>The breadth-first sweep; the queue is split into the entries before \<open>head\<close> and the rest.\<close>

lemma sweep_node_left: "sweep_node cancelled out inn weak v seen b = (ok, seen', new, b') \<Longrightarrow> left b' \<le> left b"
proof -
  assume y: "sweep_node cancelled out inn weak v seen b = (ok, seen', new, b')"
  obtain ok3 seen3 new3 b3 where s: "sweep_edges cancelled Caller (inn v) seen [] b = (ok3, seen3, new3, b3)" by (metis prod_cases4)
  have "left b' \<le> left b3"
    using y s sweep_edges_left [of cancelled Callee "out v" seen3 new3 b3 ok seen' new b'] by (auto simp: sweep_node_def split: if_splits)
  with sweep_edges_left [OF s] show ?thesis by simp
qed

function sweep :: "go_context \<Rightarrow> adjacency \<Rightarrow> adjacency \<Rightarrow> bool \<Rightarrow> string list \<Rightarrow> string list \<Rightarrow> string set \<Rightarrow> budget
    \<Rightarrow> bool \<times> string set \<times> string list \<times> budget" where
  "sweep cancelled out inn weak past [] seen b = (True, seen, past, b)"
| "sweep cancelled out inn weak past (v # q) seen b =
     (case tick cancelled b of (ok, b1) \<Rightarrow>
        if \<not> ok then (False, seen, past @ v # q, b1)
        else case sweep_node cancelled out inn weak v seen b1 of (ok2, seen', new, b2) \<Rightarrow>
          if \<not> ok2 then (False, seen', past @ v # q @ new, b2)
          else sweep cancelled out inn weak (past @ [v]) (q @ new) seen' b2)"
  by pat_completeness auto
termination
  by (relation "measure (\<lambda>(cancelled, out, inn, weak, past, q, seen, b). left b)")
    (auto dest!: tick_left [OF sym] sweep_node_left [OF sym])

declare sweep.simps(2) [simp del]

definition component_id :: "(string \<Rightarrow> string) \<Rightarrow> string \<Rightarrow> string \<Rightarrow> string list \<Rightarrow> string" where
  "component_id sha basis mode members =
     ''sha256:'' @ sha (''lsp-trace.bounded-retained-analysis.v1:component'' @ [CHR 0x00] @
       ''['' @ json_join [json_string basis, json_string mode, json_strings (Some members)] @ '']'')"

fun sweep_roots :: "go_context \<Rightarrow> (string list \<Rightarrow> string) \<Rightarrow> adjacency \<Rightarrow> adjacency \<Rightarrow> bool \<Rightarrow> string list \<Rightarrow> string set
    \<Rightarrow> Component list \<Rightarrow> budget \<Rightarrow> bool \<times> Component list \<times> budget" where
  "sweep_roots cancelled ident out inn weak [] seen cs b = (True, cs, b)"
| "sweep_roots cancelled ident out inn weak (root # roots) seen cs b =
     (case tick cancelled b of (ok, b1) \<Rightarrow>
        if \<not> ok then (False, cs, b1)
        else if root \<in> seen then sweep_roots cancelled ident out inn weak roots seen cs b1
        else case sweep cancelled out inn weak [] [root] (insert root seen) b1 of (ok2, seen', queue, b2) \<Rightarrow>
          if \<not> ok2 then (False, cs, b2)
          else sweep_roots cancelled ident out inn weak roots seen' (cs @ [\<lparr>CompID = ident (sort queue), Members = sort queue\<rparr>]) b2)"

definition components :: "go_context \<Rightarrow> (string \<Rightarrow> string) \<Rightarrow> Evidence \<Rightarrow> adjacency \<Rightarrow> adjacency \<Rightarrow> budget \<Rightarrow> Component list \<times> budget" where
  "components cancelled sha e out inn b =
     (let mode = Mode (EvParameters e) in
      case (if mode = ''STRONG'' then (case dfs_roots cancelled out (EvNodes e) {} [] b of (ok, post, b') \<Rightarrow> (ok, rev post, b'))
            else (True, EvNodes e, b)) of
        (ok, order, b1) \<Rightarrow>
          if \<not> ok then (Components e, b1)
          else case sweep_roots cancelled (component_id sha (BasisDigest e) mode) out inn (mode = ''WEAK'') order {} (Components e) b1 of
              (ok2, cs, b2) \<Rightarrow> (if ok2 then sort_key (\<lambda>c. hd (Members c)) cs else cs, b2))"

section \<open>The operations\<close>

text \<open>\<open>for range xs { if !b.tick() { break } }\<close>\<close>

fun tick_all :: "go_context \<Rightarrow> 'a list \<Rightarrow> budget \<Rightarrow> budget" where
  "tick_all cancelled [] b = b"
| "tick_all cancelled (x # xs) b = (case tick cancelled b of (ok, b') \<Rightarrow> if ok then tick_all cancelled xs b' else b')"

definition spent :: "budget \<Rightarrow> Evidence \<Rightarrow> Evidence" where
  "spent b e = (if reason b \<noteq> ''''
     then e\<lparr>EvStatus := ''INCOMPLETE'', EvReason := reason b, EvPath := emptyPath, Components := []\<rparr> else e)"

text \<open>\<open>run\<close>; the outer \<^const>\<open>None\<close> is a path reconstruction that does not end (see \<open>Retained_Path\<close>), \<open>Inl\<close> is the error of \<open>Search\<close>.\<close>

definition run :: "go_context \<Rightarrow> (string \<Rightarrow> string) \<Rightarrow> Evidence \<Rightarrow> (string + Evidence) option" where
  "run cancelled sha e =
     (let p = EvParameters e in
      if Operation p = ''PATH'' then
        (case Search cancelled (EvNodes e) (EvEdges e) (PStart p) (PEnd p) \<lparr>Polls = 0, Left = MaxWork p, BudgetReason = ''''\<rparr> of
           None \<Rightarrow> None
         | Some (Inl err) \<Rightarrow> Some (Inl err)
         | Some (Inr (r, _)) \<Rightarrow> Some (Inr (e\<lparr>EvStatus := Status r, EvReason := Reason r, EvPath := ResultPath r\<rparr>)))
      else
        (let b = \<lparr>polls = 1, left = nat (MaxWork p), reason = ''''\<rparr>; (out, inn) = Indexes (EvEdges e) in
         if cancelled 0 then Some (Inr (e\<lparr>EvStatus := ''INCOMPLETE'', EvReason := ''CANCELLED''\<rparr>))
         else if Operation p = ''PROJECT'' then
           (let b1 = tick_all cancelled (EvNodes e) b;
                b2 = (if reason b1 = '''' then tick_all cancelled (EvEdges e) b1 else b1);
                b3 = (if cancelled (polls b2) then b2\<lparr>reason := ''CANCELLED''\<rparr> else b2)
            in Some (Inr (spent b3 e)))
         else if Operation p = ''COMPONENTS'' then
           (case components cancelled sha e out inn b of (cs, b1) \<Rightarrow> Some (Inr (spent b1 (e\<lparr>Components := cs\<rparr>))))
         else Some (Inr (spent b e))))"

section \<open>The check of a partition\<close>

datatype partition_error =
    EmptyComponent
  | OverlappingPartition
  | IncompletePartition
  | LostNode
  | NotConnected
  | WeakSplit
  | QuotientCycle
  | PathError prove_error

fun add_members :: "nat \<Rightarrow> string list \<Rightarrow> (string \<rightharpoonup> nat) \<Rightarrow> (string \<rightharpoonup> nat) option" where
  "add_members i [] m = Some m"
| "add_members i (v # vs) m = (if m v \<noteq> None then None else add_members i vs (m(v \<mapsto> i)))"

fun membership_of :: "nat \<Rightarrow> Component list \<Rightarrow> (string \<rightharpoonup> nat) \<Rightarrow> partition_error + (string \<rightharpoonup> nat)" where
  "membership_of i [] m = Inr m"
| "membership_of i (c # cs) m =
     (if Members c = [] then Inl EmptyComponent
      else case add_members i (Members c) m of
          None \<Rightarrow> Inl OverlappingPartition
        | Some m' \<Rightarrow> membership_of (Suc i) cs m')"

text \<open>A missing key reads as zero.\<close>

definition block :: "(string \<rightharpoonup> nat) \<Rightarrow> string \<Rightarrow> nat" where
  "block m v = (case m v of None \<Rightarrow> 0 | Some i \<Rightarrow> i)"

fun visit_block :: "(string \<rightharpoonup> nat) \<Rightarrow> nat \<Rightarrow> string list \<Rightarrow> string set \<Rightarrow> string list \<Rightarrow> string set \<times> string list" where
  "visit_block m i [] seen new = (seen, new)"
| "visit_block m i (v # vs) seen new =
     (if block m v = i \<and> v \<notin> seen then visit_block m i vs (insert v seen) (new @ [v]) else visit_block m i vs seen new)"

lemma visit_block_new:
  "visit_block m i vs seen new = (seen', new') \<Longrightarrow>
     \<exists>add. new' = new @ add \<and> distinct add \<and> set add = {v \<in> set vs. block m v = i} - seen \<and> seen' = seen \<union> set add"
proof (induction vs arbitrary: seen new)
  case (Cons v vs)
  show ?case
  proof (cases "block m v = i \<and> v \<notin> seen")
    case True
    with Cons.prems have "visit_block m i vs (insert v seen) (new @ [v]) = (seen', new')" by simp
    from Cons.IH [OF this] obtain add where "new' = (new @ [v]) @ add" "distinct add"
      "set add = {v \<in> set vs. block m v = i} - insert v seen" "seen' = insert v seen \<union> set add" by blast
    with True show ?thesis by (intro exI [of _ "v # add"]) auto
  next
    case False
    with Cons.prems have "visit_block m i vs seen new = (seen', new')" by (auto split: if_splits)
    from Cons.IH [OF this] obtain add where "new' = new @ add" "distinct add" "set add = {v \<in> set vs. block m v = i} - seen" "seen' = seen \<union> set add"
      by blast
    with False show ?thesis by (intro exI [of _ add]) auto
  qed
qed simp

definition block_neighbours :: "Edge list \<Rightarrow> bool \<Rightarrow> bool \<Rightarrow> string \<Rightarrow> string list" where
  "block_neighbours edges forward backward v =
     (if forward then map Callee (fst (Indexes edges) v) else []) @ (if backward then map Caller (snd (Indexes edges) v) else [])"

lemma set_block_neighbours:
  "set (block_neighbours edges forward backward v) =
     (if forward then {Callee e |e. e \<in> set edges \<and> Caller e = v} else {}) \<union>
     (if backward then {Caller e |e. e \<in> set edges \<and> Callee e = v} else {})"
  by (auto simp: block_neighbours_def)

abbreviation endpoints :: "Edge list \<Rightarrow> string set" where
  "endpoints edges \<equiv> Caller ` set edges \<union> Callee ` set edges"

lemma connect_decreases:
  assumes "visit_block m i (block_neighbours edges forward backward v) seen [] = (seen', new)"
  shows "card (endpoints edges - seen') + length new = card (endpoints edges - seen)"
proof -
  from visit_block_new [OF assms] have n: "distinct new" "seen' = seen \<union> set new" "set new \<subseteq> endpoints edges - seen"
    by (auto simp: set_block_neighbours split: if_splits)
  let ?F = "endpoints edges - seen"
  have "card (?F - set new) = card ?F - length new" using n by (simp add: card_Diff_subset distinct_card)
  moreover have "length new \<le> card ?F" using card_mono [OF _ n(3)] n(1) by (simp add: distinct_card)
  moreover have "endpoints edges - seen' = ?F - set new" using n(2) by auto
  ultimately show ?thesis by simp
qed

function connect :: "Edge list \<Rightarrow> bool \<Rightarrow> bool \<Rightarrow> (string \<rightharpoonup> nat) \<Rightarrow> nat \<Rightarrow> string list \<Rightarrow> string set \<Rightarrow> string set" where
  "connect edges forward backward m i [] seen = seen"
| "connect edges forward backward m i (v # q) seen =
     (case visit_block m i (block_neighbours edges forward backward v) seen [] of
        (seen', new) \<Rightarrow> connect edges forward backward m i (q @ new) seen')"
  by pat_completeness auto
termination
  by (relation "measure (\<lambda>(edges, forward, backward, m, i, q, seen). card (endpoints edges - seen) + length q)")
    (auto dest: connect_decreases [OF sym])

declare connect.simps(2) [simp del]

text \<open>The passes over one component: forward, and backward when strong; both directions at once when weak.\<close>

definition connected :: "Edge list \<Rightarrow> bool \<Rightarrow> (string \<rightharpoonup> nat) \<Rightarrow> nat \<Rightarrow> Component \<Rightarrow> bool" where
  "connected edges strong m i c =
     (let start = hd (Members c);
          reach = (\<lambda>forward backward. card (connect edges forward backward m i [start] {start}) = length (Members c))
      in if strong then reach True False \<and> reach False True else reach True True)"

fun all_connected :: "Edge list \<Rightarrow> bool \<Rightarrow> (string \<rightharpoonup> nat) \<Rightarrow> nat \<Rightarrow> Component list \<Rightarrow> bool" where
  "all_connected edges strong m i [] = True"
| "all_connected edges strong m i (c # cs) = (connected edges strong m i c \<and> all_connected edges strong m (Suc i) cs)"

text \<open>The quotient: the blocks an edge leads to, and the number of edges that enter a block.\<close>

definition cross :: "(string \<rightharpoonup> nat) \<Rightarrow> Edge \<Rightarrow> bool" where
  "cross m e \<longleftrightarrow> block m (Caller e) \<noteq> block m (Callee e)"

definition quotient :: "(string \<rightharpoonup> nat) \<Rightarrow> Edge list \<Rightarrow> nat \<Rightarrow> nat list" where
  "quotient m edges a = map (\<lambda>e. block m (Callee e)) (filter (\<lambda>e. cross m e \<and> block m (Caller e) = a) edges)"

definition degrees :: "(string \<rightharpoonup> nat) \<Rightarrow> Edge list \<Rightarrow> nat \<Rightarrow> int list" where
  "degrees m edges n = map (\<lambda>b. int (length (filter (\<lambda>e. cross m e \<and> block m (Callee e) = b) edges))) [0..<n]"

fun lower :: "nat list \<Rightarrow> int list \<Rightarrow> nat list \<Rightarrow> int list \<times> nat list" where
  "lower [] degree new = (degree, new)"
| "lower (v # vs) degree new =
     (if v < length degree then
        (let degree' = degree[v := degree ! v - 1] in lower vs degree' (if degree' ! v = 0 then new @ [v] else new))
      else lower vs degree new)"

definition weight_left :: "int list \<Rightarrow> nat" where
  "weight_left degree = sum_list (map nat degree)"

lemma weight_left_lower: "v < length degree \<Longrightarrow> weight_left (degree[v := degree ! v - 1]) = weight_left degree - (if degree ! v > 0 then 1 else 0)"
proof (induction degree arbitrary: v)
  case (Cons d degree)
  have pos: "degree ! w > 0 \<Longrightarrow> w < length degree \<Longrightarrow> weight_left degree \<ge> 1" for w
    using member_le_sum_list [of "nat (degree ! w)" "map nat degree"] by (simp add: weight_left_def)
  show ?case
  proof (cases v)
    case 0
    then show ?thesis by (auto simp: weight_left_def nat_diff_distrib)
  next
    case (Suc w)
    with Cons.prems Cons.IH [of w] pos [of w] show ?thesis by (auto simp: weight_left_def)
  qed
qed simp

lemma lower_weight: "lower vs degree new = (degree', new') \<Longrightarrow> weight_left degree' + length new' \<le> weight_left degree + length new"
proof (induction vs arbitrary: degree new)
  case (Cons v vs)
  show ?case
  proof (cases "v < length degree")
    case True
    let ?d = "degree[v := degree ! v - 1]"
    have "lower vs ?d (if ?d ! v = 0 then new @ [v] else new) = (degree', new')" using Cons.prems True by (simp add: Let_def)
    from Cons.IH [OF this] have "weight_left degree' + length new' \<le> weight_left ?d + length (if ?d ! v = 0 then new @ [v] else new)" .
    moreover have "degree ! v > 0 \<Longrightarrow> weight_left degree \<ge> 1"
      using True member_le_sum_list [of "nat (degree ! v)" "map nat degree"] by (simp add: weight_left_def)
    ultimately show ?thesis using weight_left_lower [OF True] True by (auto split: if_splits)
  next
    case False
    with Cons show ?thesis by simp
  qed
qed simp

text \<open>Kahn's loop; the result is the whole queue.\<close>

function topological :: "(nat \<Rightarrow> nat list) \<Rightarrow> nat list \<Rightarrow> nat list \<Rightarrow> int list \<Rightarrow> nat list" where
  "topological quot past [] degree = past"
| "topological quot past (x # q) degree =
     (case lower (quot x) degree [] of (degree', new) \<Rightarrow> topological quot (past @ [x]) (q @ new) degree')"
  by pat_completeness auto
termination
  by (relation "measure (\<lambda>(quot, past, q, degree). weight_left degree + length q)") (auto dest: lower_weight [OF sym])

declare topological.simps(2) [simp del]

definition prove_partition :: "string list \<Rightarrow> Edge list \<Rightarrow> string \<Rightarrow> Component list \<Rightarrow> partition_error + unit" where
  "prove_partition nodes edges mode cs =
     (case membership_of 0 cs Map.empty of
        Inl err \<Rightarrow> Inl err
      | Inr m \<Rightarrow>
          if length (concat (map Members cs)) \<noteq> length nodes then Inl IncompletePartition
          else if \<exists>v \<in> set nodes. m v = None then Inl LostNode
          else if \<not> all_connected edges (mode = ''STRONG'') m 0 cs then Inl NotConnected
          else if mode = ''WEAK'' \<and> (\<exists>e \<in> set edges. cross m e) then Inl WeakSplit
          else
            (let degree = degrees m edges (length cs);
                 q = filter (\<lambda>i. degree ! i = 0) [0..<length cs]
             in if length (topological (quotient m edges) [] q degree) \<noteq> length cs then Inl QuotientCycle else Inr ()))"

definition prove_evidence :: "Evidence \<Rightarrow> partition_error + unit" where
  "prove_evidence e =
     (let p = EvParameters e in
      if Operation p = ''PROJECT'' then Inr ()
      else if Operation p = ''PATH'' then
        (case Prove (EvEdges e) (PStart p) (PEnd p) (EvStatus e) (EvPath e) of Inl err \<Rightarrow> Inl (PathError err) | Inr _ \<Rightarrow> Inr ())
      else prove_partition (EvNodes e) (EvEdges e) (Mode p) (Components e))"

end
