(* ===== verification/Component_Search.thy ===== *)
theory Component_Search
  imports Bounded_Analysis
begin

text \<open>
  Correctness of the search for components of theory \<open>Bounded_Analysis\<close>: a completed search returns the
  classes of mutual reachability (strong) or of undirected reachability (weak), and work linear in
  the size of the graph completes it.
\<close>

section \<open>Reachability\<close>

definition calls :: "Edge list \<Rightarrow> (string \<times> string) set" where
  "calls edges = {(Caller e, Callee e) |e. e \<in> set edges}"

definition mutual :: "(string \<times> string) set \<Rightarrow> (string \<times> string) set" where
  "mutual R = {(u, v). (u, v) \<in> R\<^sup>* \<and> (v, u) \<in> R\<^sup>*}"

definition undirected :: "(string \<times> string) set \<Rightarrow> (string \<times> string) set" where
  "undirected R = (R \<union> R\<inverse>)\<^sup>*"

lemma mutual_equiv: "equiv UNIV (mutual R)"
  unfolding mutual_def by (intro equivI refl_onI symI transI) (auto intro: rtrancl_trans)

lemma undirected_equiv: "equiv UNIV (undirected R)"
proof (intro equivI refl_onI symI transI)
  have "sym ((R \<union> R\<inverse>)\<^sup>*)" by (rule sym_rtrancl) (auto simp: sym_def)
  then show "(y, x) \<in> undirected R" if "(x, y) \<in> undirected R" for x y using that unfolding undirected_def sym_def by blast
qed (auto simp: undirected_def)

lemma mutual_trans: "(a, b) \<in> mutual R \<Longrightarrow> (b, c) \<in> mutual R \<Longrightarrow> (a, c) \<in> mutual R"
  by (auto simp: mutual_def)

lemma mutual_sym: "(a, b) \<in> mutual R \<Longrightarrow> (b, a) \<in> mutual R"
  by (auto simp: mutual_def)

lemma calls_out: "(v, w) \<in> calls edges \<longleftrightarrow> (\<exists>e \<in> set (fst (Indexes edges) v). Callee e = w)"
  by (auto simp: calls_def)

section \<open>The postorder search\<close>

abbreviation gray :: "frame list \<Rightarrow> string set" where
  "gray stack \<equiv> fst ` set stack"

text \<open>
  The state of the search: finished nodes are in the order, the rest of the seen nodes on the stack. The
  successors of a finished node, and those of a node on the stack before its index, are seen; every node
  on the stack calls the one above it.
\<close>

definition searching :: "Edge list \<Rightarrow> frame list \<Rightarrow> string set \<Rightarrow> string list \<Rightarrow> bool" where
  "searching edges stack seen order \<longleftrightarrow>
     seen = set order \<union> gray stack \<and> distinct order \<and> distinct (map fst stack) \<and> set order \<inter> gray stack = {} \<and>
     (\<forall>b \<in> set order. \<forall>w. (b, w) \<in> calls edges \<longrightarrow> w \<in> seen) \<and>
     (\<forall>f \<in> set stack. snd f \<le> length (fst (Indexes edges) (fst f)) \<and>
        (\<forall>j < snd f. Callee (fst (Indexes edges) (fst f) ! j) \<in> seen)) \<and>
     successively (\<lambda>f g. (fst g, fst f) \<in> calls edges) stack"

text \<open>A finished node that reaches an unfinished one is mutually reachable with a node on the stack.\<close>

definition anchored :: "Edge list \<Rightarrow> frame list \<Rightarrow> string list \<Rightarrow> bool" where
  "anchored edges stack order \<longleftrightarrow> (\<forall>v \<in> set order. \<forall>x. (v, x) \<in> (calls edges)\<^sup>* \<and> x \<notin> set order \<longrightarrow>
     (\<exists>t \<in> gray stack. (v, t) \<in> mutual (calls edges)))"

text \<open>
  A finished node that reaches one finished later is mutually reachable with a node on the stack or with
  one finished at least as late.
\<close>

definition overtaken :: "Edge list \<Rightarrow> frame list \<Rightarrow> string list \<Rightarrow> bool" where
  "overtaken edges stack order \<longleftrightarrow> (\<forall>i j. i < j \<and> j < length order \<and> (order ! i, order ! j) \<in> (calls edges)\<^sup>* \<longrightarrow>
     (\<exists>t \<in> gray stack. (order ! i, t) \<in> mutual (calls edges)) \<or>
     (\<exists>k. j \<le> k \<and> k < length order \<and> (order ! i, order ! k) \<in> mutual (calls edges)))"

lemma stack_reaches_top:
  "successively (\<lambda>f g. (fst g, fst f) \<in> R) (f # stack) \<Longrightarrow> g \<in> gray stack \<Longrightarrow> (g, fst f) \<in> R\<^sup>*"
proof (induction stack arbitrary: f)
  case (Cons h stack)
  then have h: "(fst h, fst f) \<in> R" "successively (\<lambda>f g. (fst g, fst f) \<in> R) (h # stack)" by auto
  show ?case
  proof (cases "g = fst h")
    case False
    then have "(g, fst h) \<in> R\<^sup>*" using Cons.IH [OF h(2)] Cons.prems(2) by auto
    with h(1) show ?thesis by (rule rtrancl_into_rtrancl [rotated])
  qed (use h in auto)
qed simp

text \<open>A path that leaves the finished nodes enters the stack.\<close>

lemma leaves_finished:
  assumes closed: "\<forall>b \<in> B. \<forall>w. (b, w) \<in> R \<longrightarrow> w \<in> B \<union> G" and p: "(b, x) \<in> R\<^sup>*" and b: "b \<in> B" "x \<notin> B"
  shows "\<exists>g \<in> G. (b, g) \<in> R\<^sup>*"
  using p b(2)
proof (induction rule: rtrancl_induct)
  case base
  then show ?case using b(1) by blast
next
  case (step y z)
  show ?case
  proof (cases "y \<in> B")
    case True
    then have "z \<in> G" using closed step.hyps(2) step.prems by blast
    then show ?thesis using step.hyps by (meson rtrancl.rtrancl_into_rtrancl)
  next
    case False
    then show ?thesis by (rule step.IH)
  qed
qed

lemma finish_searching:
  assumes s: "searching edges ((v, i) # stack) seen order" and i: "i = length (fst (Indexes edges) v)"
  shows "searching edges stack seen (order @ [v])"
proof -
  have "w \<in> seen" if "(v, w) \<in> calls edges" for w
    using that s i unfolding searching_def by (metis (no_types, lifting) calls_out fst_conv in_set_conv_nth list.set_intros(1) snd_conv)
  moreover have "successively (\<lambda>f g. (fst g, fst f) \<in> calls edges) stack"
    using s by (cases stack) (auto simp: searching_def)
  ultimately show ?thesis using s unfolding searching_def by auto
qed

lemma finish_anchored:
  assumes s: "searching edges ((v, i) # stack) seen order" and i: "i = length (fst (Indexes edges) v)"
    and a: "anchored edges ((v, i) # stack) order"
  shows "anchored edges stack (order @ [v])"
proof -
  let ?R = "calls edges"
  have s': "\<forall>b \<in> set (order @ [v]). \<forall>w. (b, w) \<in> ?R \<longrightarrow> w \<in> set (order @ [v]) \<union> gray stack"
    using finish_searching [OF s i] unfolding searching_def by blast
  have below: "(g, v) \<in> ?R\<^sup>*" if "g \<in> gray stack" for g
    using stack_reaches_top [of ?R "(v, i)" stack g] s that by (simp add: searching_def)
  have v: "\<exists>t \<in> gray stack. (v, t) \<in> mutual ?R" if "(v, x) \<in> ?R\<^sup>*" "x \<notin> set (order @ [v])" for x
    using leaves_finished [OF s' that(1) _ that(2)] below by (auto simp: mutual_def)
  have "\<exists>t \<in> gray stack. (u, t) \<in> mutual ?R" if u: "u \<in> set order" "(u, x) \<in> ?R\<^sup>*" "x \<notin> set (order @ [v])" for u x
  proof -
    have "x \<notin> set order" using u(3) by simp
    then have "\<exists>t \<in> gray ((v, i) # stack). (u, t) \<in> mutual ?R" using a u(1,2) unfolding anchored_def by blast
    then obtain t where t: "t \<in> insert v (gray stack)" "(u, t) \<in> mutual ?R" by auto
    show ?thesis
    proof (cases "t = v")
      case True
      then have "(v, x) \<in> ?R\<^sup>*" using t(2) u(2) by (auto simp: mutual_def)
      from v [OF this u(3)] show ?thesis using t(2) True mutual_trans by blast
    qed (use t in blast)
  qed
  with v show ?thesis unfolding anchored_def by auto
qed

lemma finish_overtaken:
  assumes s: "searching edges ((v, i) # stack) seen order" and a: "anchored edges ((v, i) # stack) order"
    and o: "overtaken edges ((v, i) # stack) order"
  shows "overtaken edges stack (order @ [v])"
  unfolding overtaken_def
proof (intro allI impI)
  let ?R = "calls edges" and ?o = "order @ [v]"
  fix k j assume kj: "k < j \<and> j < length ?o \<and> (?o ! k, ?o ! j) \<in> ?R\<^sup>*"
  then have k: "k < length order" "?o ! k = order ! k" by (auto simp: nth_append)
  have "(\<exists>t \<in> insert v (gray stack). (order ! k, t) \<in> mutual ?R) \<or>
      (\<exists>l. j \<le> l \<and> l < length order \<and> (order ! k, order ! l) \<in> mutual ?R)"
  proof (cases "j < length order")
    case True
    with kj k o show ?thesis unfolding overtaken_def by (auto simp: nth_append)
  next
    case False
    then have "?o ! j = v" using kj by (simp add: nth_append)
    moreover have "v \<notin> set order" using s by (auto simp: searching_def)
    ultimately show ?thesis using a kj k unfolding anchored_def by fastforce
  qed
  then show "(\<exists>t \<in> gray stack. (?o ! k, t) \<in> mutual ?R) \<or> (\<exists>l. j \<le> l \<and> l < length ?o \<and> (?o ! k, ?o ! l) \<in> mutual ?R)"
  proof (elim disjE bexE exE)
    fix t assume t: "t \<in> insert v (gray stack)" "(order ! k, t) \<in> mutual ?R"
    show ?thesis
    proof (cases "t = v")
      case True
      then have "(?o ! k, ?o ! length order) \<in> mutual ?R" using t(2) k by simp
      moreover have "j \<le> length order" using kj by simp
      ultimately show ?thesis by auto
    qed (use t k in auto)
  next
    fix l assume "j \<le> l \<and> l < length order \<and> (order ! k, order ! l) \<in> mutual ?R"
    then show ?thesis using k by (intro disjI2 exI [of _ l]) (auto simp: nth_append)
  qed
qed

definition dfs_ok :: "Edge list \<Rightarrow> frame list \<Rightarrow> string set \<Rightarrow> string list \<Rightarrow> bool" where
  "dfs_ok edges stack seen order \<longleftrightarrow> searching edges stack seen order \<and> anchored edges stack order \<and> overtaken edges stack order"

lemma dfs_finish:
  assumes "dfs_ok edges ((v, i) # stack) seen order" and "i = length (fst (Indexes edges) v)"
  shows "dfs_ok edges stack seen (order @ [v])"
  using assms finish_searching finish_anchored finish_overtaken unfolding dfs_ok_def by blast

lemma dfs_advance:
  assumes "dfs_ok edges ((v, i) # stack) seen order" and i: "i \<noteq> length (fst (Indexes edges) v)"
    and "Callee (fst (Indexes edges) v ! i) \<in> seen"
  shows "dfs_ok edges ((v, Suc i) # stack) seen order"
proof -
  have "searching edges ((v, i) # stack) seen order" using assms by (simp add: dfs_ok_def)
  moreover have "successively (\<lambda>f g. (fst g, fst f) \<in> calls edges) ((v, i) # stack) =
      successively (\<lambda>f g. (fst g, fst f) \<in> calls edges) ((v, Suc i) # stack)" by (cases stack) auto
  ultimately have "searching edges ((v, Suc i) # stack) seen order"
    using i assms(3) unfolding searching_def by (auto simp: less_Suc_eq)
  then show ?thesis using assms(1) by (simp add: dfs_ok_def anchored_def overtaken_def)
qed

lemma dfs_push:
  assumes "dfs_ok edges ((v, i) # stack) seen order" and i: "i \<noteq> length (fst (Indexes edges) v)"
    and w: "w = Callee (fst (Indexes edges) v ! i)" "w \<notin> seen"
  shows "dfs_ok edges ((w, 0) # (v, Suc i) # stack) (insert w seen) order"
proof -
  let ?R = "calls edges"
  have s: "searching edges ((v, i) # stack) seen order" using assms by (simp add: dfs_ok_def)
  then have "i < length (fst (Indexes edges) v)" using i unfolding searching_def by auto
  then have "(v, w) \<in> ?R" using w(1) calls_out nth_mem by blast
  moreover have "successively (\<lambda>f g. (fst g, fst f) \<in> ?R) ((v, i) # stack) = successively (\<lambda>f g. (fst g, fst f) \<in> ?R) ((v, Suc i) # stack)"
    by (cases stack) auto
  ultimately have "searching edges ((w, 0) # (v, Suc i) # stack) (insert w seen) order"
    using s w i unfolding searching_def by (auto simp: less_Suc_eq)
  then show ?thesis using assms(1) unfolding dfs_ok_def anchored_def overtaken_def by (simp; blast)
qed

lemma dfs_loop_ok:
  assumes "dfs_loop cancelled (fst (Indexes edges)) stack seen order b = (True, seen', order', b')" and "dfs_ok edges stack seen order"
  shows "dfs_ok edges [] seen' order' \<and> seen \<subseteq> seen' \<and> seen' \<subseteq> seen \<union> endpoints edges"
  using assms
proof (induction cancelled "fst (Indexes edges)" stack seen order b rule: dfs_loop.induct)
  case (1 cancelled seen order b)
  then show ?case by simp
next
  case (2 cancelled v i stack seen order b)
  obtain ok b1 where t: "tick cancelled b = (ok, b1)" by fastforce
  with "2.prems"(1) have ok by (cases ok) (auto simp: dfs_loop.simps)
  note IH = "2.hyps" [OF t [symmetric]]
  consider (finish) "i = length (fst (Indexes edges) v)"
    | (push) "i \<noteq> length (fst (Indexes edges) v)" "Callee (fst (Indexes edges) v ! i) \<notin> seen"
    | (advance) "i \<noteq> length (fst (Indexes edges) v)" "Callee (fst (Indexes edges) v ! i) \<in> seen" by blast
  then show ?case
  proof cases
    case finish
    with IH(1) dfs_finish [OF "2.prems"(2) finish] "2.prems"(1) t \<open>ok\<close> show ?thesis by (simp add: dfs_loop.simps)
  next
    case push
    have "i < length (fst (Indexes edges) v)" using push(1) "2.prems"(2) by (auto simp: dfs_ok_def searching_def)
    then have "fst (Indexes edges) v ! i \<in> set edges" using nth_mem by fastforce
    with push IH(2) dfs_push [OF "2.prems"(2) push(1) refl push(2)] "2.prems"(1) t \<open>ok\<close> show ?thesis by (simp add: dfs_loop.simps; blast)
  next
    case advance
    with IH(3) dfs_advance [OF "2.prems"(2)] "2.prems"(1) t \<open>ok\<close> show ?thesis by (simp add: dfs_loop.simps)
  qed
qed

lemma dfs_roots_ok:
  assumes "dfs_roots cancelled (fst (Indexes edges)) roots seen order b = (True, order', b')" and "dfs_ok edges [] seen order"
  shows "\<exists>seen'. dfs_ok edges [] seen' order' \<and> seen \<union> set roots \<subseteq> seen' \<and> seen' \<subseteq> seen \<union> set roots \<union> endpoints edges"
  using assms
proof (induction roots arbitrary: seen order b)
  case (Cons root roots)
  obtain ok b1 where t: "tick cancelled b = (ok, b1)" by fastforce
  with Cons.prems(1) have ok by (cases ok) auto
  show ?case
  proof (cases "root \<in> seen")
    case True
    with Cons.prems(1) t \<open>ok\<close> have "dfs_roots cancelled (fst (Indexes edges)) roots seen order b1 = (True, order', b')" by simp
    from Cons.IH [OF this Cons.prems(2)] show ?thesis using True by (elim exE, intro exI) (simp; blast)
  next
    case False
    obtain ok2 seen2 order2 b2 where l: "dfs_loop cancelled (fst (Indexes edges)) [(root, 0)] (insert root seen) order b1 = (ok2, seen2, order2, b2)"
      by (metis prod_cases4)
    with Cons.prems(1) t \<open>ok\<close> False have ok2 by (cases ok2) auto
    have root: "dfs_ok edges [(root, 0)] (insert root seen) order"
      using Cons.prems(2) False unfolding dfs_ok_def searching_def anchored_def overtaken_def by auto
    have "dfs_loop cancelled (fst (Indexes edges)) [(root, 0)] (insert root seen) order b1 = (True, seen2, order2, b2)"
      using l \<open>ok2\<close> by simp
    from dfs_loop_ok [OF this root]
    have d: "dfs_ok edges [] seen2 order2" "insert root seen \<subseteq> seen2" "seen2 \<subseteq> insert root seen \<union> endpoints edges" by simp_all
    have "dfs_roots cancelled (fst (Indexes edges)) roots seen2 order2 b2 = (True, order', b')" using Cons.prems(1) t \<open>ok\<close> False l \<open>ok2\<close> by simp
    from Cons.IH [OF this d(1)] obtain seen' where "dfs_ok edges [] seen' order'" "seen2 \<union> set roots \<subseteq> seen'" "seen' \<subseteq> seen2 \<union> set roots \<union> endpoints edges"
      by blast
    with d(2,3) show ?thesis by (intro exI [of _ seen'] conjI) (simp, (simp; blast)+)
  qed
qed auto

section \<open>The sweeps\<close>

text \<open>The nodes a sweep visits from a node.\<close>

definition around :: "Edge list \<Rightarrow> bool \<Rightarrow> string \<Rightarrow> string set" where
  "around edges weak v = {w. (w, v) \<in> calls edges} \<union> (if weak then {w. (v, w) \<in> calls edges} else {})"

lemma sweep_edges_new:
  "sweep_edges cancelled far es seen new b = (True, seen', new', b') \<Longrightarrow>
     \<exists>add. new' = new @ add \<and> distinct add \<and> set add = far ` set es - seen \<and> seen' = seen \<union> far ` set es"
proof (induction es arbitrary: seen new b)
  case (Cons e es)
  obtain ok b1 where t: "tick cancelled b = (ok, b1)" by fastforce
  with Cons.prems have ok by (cases ok) auto
  show ?case
  proof (cases "far e \<in> seen")
    case True
    with Cons.prems t \<open>ok\<close> have "sweep_edges cancelled far es seen new b1 = (True, seen', new', b')" by simp
    from Cons.IH [OF this] show ?thesis using True by auto
  next
    case False
    with Cons.prems t \<open>ok\<close> have "sweep_edges cancelled far es (insert (far e) seen) (new @ [far e]) b1 = (True, seen', new', b')" by simp
    from Cons.IH [OF this] obtain add where "new' = (new @ [far e]) @ add" "distinct add" "set add = far ` set es - insert (far e) seen"
      "seen' = insert (far e) seen \<union> far ` set es" by blast
    with False show ?thesis by (intro exI [of _ "far e # add"]) auto
  qed
qed simp

lemma sweep_node_new:
  assumes "sweep_node cancelled (fst (Indexes edges)) (snd (Indexes edges)) weak v seen b = (True, seen', new, b')"
  shows "distinct new \<and> set new = around edges weak v - seen \<and> seen' = seen \<union> around edges weak v"
proof -
  obtain ok seen1 new1 b1 where s: "sweep_edges cancelled Caller (snd (Indexes edges) v) seen [] b = (ok, seen1, new1, b1)" by (metis prod_cases4)
  with assms have ok by (cases ok) (auto simp: sweep_node_def)
  with s have "sweep_edges cancelled Caller (snd (Indexes edges) v) seen [] b = (True, seen1, new1, b1)" by simp
  from sweep_edges_new [OF this] have 1: "distinct new1" "set new1 = {w. (w, v) \<in> calls edges} - seen" "seen1 = seen \<union> {w. (w, v) \<in> calls edges}"
    by (auto simp: calls_def)
  show ?thesis
  proof (cases weak)
    case False
    with assms s 1 show ?thesis by (auto simp: sweep_node_def around_def)
  next
    case True
    with assms s \<open>ok\<close> have "sweep_edges cancelled Callee (fst (Indexes edges) v) seen1 new1 b1 = (True, seen', new, b')" by (simp add: sweep_node_def)
    from sweep_edges_new [OF this] obtain add where add: "new = new1 @ add" "distinct add"
      "set add = Callee ` set (fst (Indexes edges) v) - seen1" "seen' = seen1 \<union> Callee ` set (fst (Indexes edges) v)" by blast
    moreover have "Callee ` set (fst (Indexes edges) v) = {w. (v, w) \<in> calls edges}" by (auto simp: calls_def)
    ultimately have "set add = {w. (v, w) \<in> calls edges} - seen1" "seen' = seen1 \<union> {w. (v, w) \<in> calls edges}" by simp_all
    with add(1,2) 1 True show ?thesis by (auto simp: around_def)
  qed
qed

text \<open>What a sweep from \<open>root\<close> gathers when the nodes of \<open>S\<close> were seen before.\<close>

definition gathered :: "Edge list \<Rightarrow> bool \<Rightarrow> string \<Rightarrow> string set \<Rightarrow> string set \<Rightarrow> bool" where
  "gathered edges weak root S Q \<longleftrightarrow> root \<in> Q \<and> Q \<inter> S = {} \<and> (\<forall>v \<in> Q. around edges weak v \<subseteq> S \<union> Q) \<and>
     (\<forall>v \<in> Q. (root, v) \<in> {(a, c). c \<in> around edges weak a}\<^sup>*)"

lemma sweep_gathers:
  assumes "sweep cancelled (fst (Indexes edges)) (snd (Indexes edges)) weak past q seen b = (True, seen', queue, b')"
    and "seen = S \<union> set (past @ q)" "S \<inter> set (past @ q) = {}" "distinct (past @ q)" "root \<in> set (past @ q)"
    and "\<forall>v \<in> set past. around edges weak v \<subseteq> seen" "\<forall>v \<in> set (past @ q). (root, v) \<in> {(a, c). c \<in> around edges weak a}\<^sup>*"
  shows "distinct queue \<and> seen' = S \<union> set queue \<and> gathered edges weak root S (set queue)"
  using assms
proof (induction cancelled "fst (Indexes edges)" "snd (Indexes edges)" weak past q seen b rule: sweep.induct)
  case (1 cancelled weak past seen b)
  then show ?case by (auto simp: gathered_def)
next
  case (2 cancelled weak past v q seen b)
  obtain ok b1 where t: "tick cancelled b = (ok, b1)" by fastforce
  with "2.prems"(1) have ok by (cases ok) (auto simp: sweep.simps)
  obtain ok2 seen2 new b2 where n: "sweep_node cancelled (fst (Indexes edges)) (snd (Indexes edges)) weak v seen b1 = (ok2, seen2, new, b2)"
    by (metis prod_cases4)
  with "2.prems"(1) t \<open>ok\<close> have ok2 by (cases ok2) (auto simp: sweep.simps)
  have new: "distinct new" "set new = around edges weak v - seen" "seen2 = seen \<union> around edges weak v"
    using sweep_node_new [of cancelled edges weak v seen b1 seen2 new b2] n \<open>ok2\<close> by auto
  have step: "(root, w) \<in> {(a, c). c \<in> around edges weak a}\<^sup>*" if "w \<in> set new" for w
  proof -
    have "(root, v) \<in> {(a, c). c \<in> around edges weak a}\<^sup>*" using "2.prems"(7) by simp
    moreover have "(v, w) \<in> {(a, c). c \<in> around edges weak a}" using that new(2) by simp
    ultimately show ?thesis by (rule rtrancl_into_rtrancl)
  qed
  have run: "sweep cancelled (fst (Indexes edges)) (snd (Indexes edges)) weak (past @ [v]) (q @ new) seen2 b2 = (True, seen', queue, b')"
    using "2.prems"(1) t \<open>ok\<close> n \<open>ok2\<close> by (simp add: sweep.simps)
  show ?case
  proof (rule "2.hyps" [OF t [symmetric] _ n [symmetric] refl refl _ run])
    show "\<not> \<not> ok" "\<not> \<not> ok2" using \<open>ok\<close> \<open>ok2\<close> by simp_all
    show "seen2 = S \<union> set ((past @ [v]) @ q @ new)" using "2.prems"(2) new by auto
    show "S \<inter> set ((past @ [v]) @ q @ new) = {}" using "2.prems"(2,3) new(2) by auto
    show "distinct ((past @ [v]) @ q @ new)" using "2.prems"(2,4) new(1,2) by auto
    show "root \<in> set ((past @ [v]) @ q @ new)" using "2.prems"(5) by auto
    show "\<forall>u \<in> set (past @ [v]). around edges weak u \<subseteq> seen2" using "2.prems"(6) new(3) by auto
    show "\<forall>u \<in> set ((past @ [v]) @ q @ new). (root, u) \<in> {(a, c). c \<in> around edges weak a}\<^sup>*" using "2.prems"(7) step by auto
  qed
qed

text \<open>The classes the sweeps are to find; \<open>exact\<close> says that a sweep from the next root finds its class.\<close>

definition exact :: "Edge list \<Rightarrow> bool \<Rightarrow> (string \<times> string) set \<Rightarrow> string list \<Rightarrow> bool" where
  "exact edges weak C order \<longleftrightarrow> (\<forall>before root after S Q. order = before @ root # after \<longrightarrow> set before \<subseteq> S \<longrightarrow> C `` S \<subseteq> S \<longrightarrow>
     root \<notin> S \<longrightarrow> gathered edges weak root S Q \<longrightarrow> Q = C `` {root})"

definition found :: "(string \<times> string) set \<Rightarrow> string set \<Rightarrow> Component list \<Rightarrow> bool" where
  "found C S cs \<longleftrightarrow> distinct (concat (map Members cs)) \<and> S = set (concat (map Members cs)) \<and>
     (\<forall>c \<in> set cs. sorted (Members c) \<and> (\<exists>v \<in> set (Members c). set (Members c) = C `` {v}))"

lemma sweep_roots_found:
  assumes "sweep_roots cancelled ident (fst (Indexes edges)) (snd (Indexes edges)) weak after S cs b = (True, cs', b')"
    and "exact edges weak C order" "equiv UNIV C" "order = before @ after" "set before \<subseteq> S" "found C S cs" "S \<subseteq> C `` set order"
  shows "\<exists>S'. set order \<subseteq> S' \<and> S' \<subseteq> C `` set order \<and> found C S' cs'"
  using assms(1,4,5,6,7)
proof (induction after arbitrary: before S cs b)
  case Nil
  then show ?case by auto
next
  case (Cons root after)
  obtain ok b1 where t: "tick cancelled b = (ok, b1)" by fastforce
  with Cons.prems(1) have ok by (cases ok) auto
  have o: "order = (before @ [root]) @ after" using Cons.prems(2) by simp
  show ?case
  proof (cases "root \<in> S")
    case True
    with Cons.prems(1) t \<open>ok\<close> have "sweep_roots cancelled ident (fst (Indexes edges)) (snd (Indexes edges)) weak after S cs b1 = (True, cs', b')" by simp
    from Cons.IH [OF this o] show ?thesis using True Cons.prems by simp
  next
    case False
    obtain ok2 S2 queue b2 where s: "sweep cancelled (fst (Indexes edges)) (snd (Indexes edges)) weak [] [root] (insert root S) b1 = (ok2, S2, queue, b2)"
      by (metis prod_cases4)
    with Cons.prems(1) t \<open>ok\<close> False have ok2 by (cases ok2) auto
    with s have "sweep cancelled (fst (Indexes edges)) (snd (Indexes edges)) weak [] [root] (insert root S) b1 = (True, S2, queue, b2)" by simp
    from sweep_gathers [OF this, of S root] False have g: "distinct queue" "S2 = S \<union> set queue" "gathered edges weak root S (set queue)" by auto
    have classes: "\<exists>v. c = C `` {v}" if "c \<in> set ` Members ` set cs" for c using Cons.prems(4) that by (auto simp: found_def)
    have "C `` S \<subseteq> S"
    proof
      fix w assume "w \<in> C `` S"
      then obtain u where u: "u \<in> S" "(u, w) \<in> C" by blast
      then obtain c where c: "c \<in> set cs" "u \<in> set (Members c)" using Cons.prems(4) by (auto simp: found_def)
      then obtain v where "set (Members c) = C `` {v}" using Cons.prems(4) by (auto simp: found_def)
      then have "w \<in> set (Members c)" using c(2) u(2) assms(3) by (auto elim: equivE dest: transD)
      then show "w \<in> S" using c(1) Cons.prems(4) by (auto simp: found_def)
    qed
    then have Q: "set queue = C `` {root}"
      using assms(2) Cons.prems(2,3) False g(3) unfolding exact_def by blast
    let ?c = "\<lparr>CompID = ident (sort queue), Members = sort queue\<rparr>"
    have f: "found C S2 (cs @ [?c])"
      using Cons.prems(4) g Q unfolding found_def gathered_def by auto
    have r: "sweep_roots cancelled ident (fst (Indexes edges)) (snd (Indexes edges)) weak after S2 (cs @ [?c]) b2 = (True, cs', b')"
      using Cons.prems(1) t \<open>ok\<close> False s \<open>ok2\<close> by simp
    have "set (before @ [root]) \<subseteq> S2" using Cons.prems(3) g by (auto simp: gathered_def)
    moreover have "S2 \<subseteq> C `` set order" using Cons.prems(2,5) g(2) Q by auto
    ultimately show ?thesis using Cons.IH [OF r o _ f] by simp
  qed
qed

text \<open>Everything mutually reachable with a node is found by following the calls inside its class.\<close>

lemma mutual_converse: "mutual (R\<inverse>) = mutual R"
  by (auto simp: mutual_def rtrancl_converse)

lemma inside_class:
  "(s, y) \<in> R\<^sup>* \<Longrightarrow> (y, s) \<in> R\<^sup>* \<Longrightarrow> (s, y) \<in> {(a, c) \<in> R. c \<in> mutual R `` {s}}\<^sup>*"
proof (induction rule: rtrancl_induct)
  case (step y z)
  then have "(y, s) \<in> R\<^sup>*" by (meson converse_rtrancl_into_rtrancl)
  with step have "(s, y) \<in> {(a, c) \<in> R. c \<in> mutual R `` {s}}\<^sup>*" by blast
  moreover have "(y, z) \<in> {(a, c) \<in> R. c \<in> mutual R `` {s}}"
    using step by (auto simp: mutual_def intro: rtrancl_into_rtrancl)
  ultimately show ?case by (rule rtrancl_into_rtrancl)
qed simp

text \<open>A gathered set holds what its closure reaches without passing through a node seen before.\<close>

lemma gathered_closure:
  assumes "gathered edges weak root S Q" and "(root, v) \<in> {(a, c). c \<in> around edges weak a \<and> c \<notin> S}\<^sup>*"
  shows "v \<in> Q"
  using assms(2) by induction (use assms(1) in \<open>auto simp: gathered_def\<close>)

lemma around_strong: "{(a, c). c \<in> around edges False a} = (calls edges)\<inverse>"
  by (auto simp: around_def)

lemma around_weak: "{(a, c). c \<in> around edges True a} = calls edges \<union> (calls edges)\<inverse>"
  by (auto simp: around_def)

lemma exact_strong:
  assumes ok: "dfs_ok edges [] seen order" and all: "endpoints edges \<subseteq> set order"
  shows "exact edges False (mutual (calls edges)) (rev order)"
  unfolding exact_def
proof (intro allI impI)
  fix before root after S Q
  let ?R = "calls edges"
  assume o: "rev order = before @ root # after" and S: "set before \<subseteq> S" "mutual ?R `` S \<subseteq> S" "root \<notin> S"
    and g: "gathered edges False root S Q"
  have order: "order = rev after @ root # rev before" using arg_cong [OF o, of rev] by simp
  have "v \<in> mutual ?R `` {root}" if v: "v \<in> Q" for v
  proof -
    have "(root, v) \<in> (?R\<inverse>)\<^sup>*" using g v by (simp add: gathered_def around_strong)
    then have r: "(v, root) \<in> ?R\<^sup>*" by (simp add: rtrancl_converse)
    have "v \<in> set order"
    proof (cases "v = root")
      case False
      then obtain w where "(v, w) \<in> ?R" using r by (meson converse_rtranclE)
      then show ?thesis using all by (auto simp: calls_def)
    qed (simp add: order)
    then obtain i where i: "i < length order" "order ! i = v" by (auto simp: in_set_conv_nth)
    have vS: "v \<notin> S" using g v by (auto simp: gathered_def)
    have later: "order ! k \<in> S" if "length after < k" "k < length order" for k
    proof -
      have "order ! k = rev before ! (k - Suc (length after))" using that unfolding order by (simp add: nth_append nth_Cons')
      moreover have "k - Suc (length after) < length before" using that unfolding order by simp
      ultimately show ?thesis using S(1) nth_mem [of _ "rev before"] by fastforce
    qed
    have root: "order ! length after = root" "length after < length order" by (simp_all add: order nth_append)
    show ?thesis
    proof (cases "i < length after")
      case True
      then have "\<exists>k. length after \<le> k \<and> k < length order \<and> (v, order ! k) \<in> mutual ?R"
        using ok r root i unfolding dfs_ok_def overtaken_def by fastforce
      then obtain k where k: "length after \<le> k" "k < length order" "(v, order ! k) \<in> mutual ?R" by blast
      then have "order ! k \<notin> S" using S(2) vS mutual_sym by blast
      with later [of k] k have "k = length after" by fastforce
      with k(3) root show ?thesis using mutual_sym by auto
    next
      case False
      with later [of i] i vS have "i = length after" by fastforce
      then show ?thesis using i root by (auto simp: mutual_def)
    qed
  qed
  moreover have "v \<in> Q" if v: "v \<in> mutual ?R `` {root}" for v
  proof -
    have "(root, v) \<in> {(a, c) \<in> ?R\<inverse>. c \<in> mutual (?R\<inverse>) `` {root}}\<^sup>*"
      using v by (intro inside_class) (auto simp: mutual_def rtrancl_converse)
    moreover have "c \<notin> S" if "(root, c) \<in> mutual ?R" for c using S(2,3) mutual_sym [OF that] by blast
    then have "{(a, c) \<in> ?R\<inverse>. c \<in> mutual (?R\<inverse>) `` {root}} \<subseteq> {(a, c). c \<in> around edges False a \<and> c \<notin> S}"
      by (auto simp: mutual_converse around_def)
    ultimately show ?thesis using gathered_closure [OF g] rtrancl_mono by blast
  qed
  ultimately show "Q = mutual ?R `` {root}" by blast
qed

lemma exact_weak: "exact edges True (undirected (calls edges)) order"
  unfolding exact_def
proof (intro allI impI)
  fix before root after S Q
  let ?U = "calls edges \<union> (calls edges)\<inverse>"
  assume S: "undirected (calls edges) `` S \<subseteq> S" "root \<notin> S" and g: "gathered edges True root S Q"
  have "v \<in> Q" if "(root, v) \<in> ?U\<^sup>*" for v
    using that
  proof induction
    case base
    then show ?case using g by (simp add: gathered_def)
  next
    case (step y z)
    have "z \<notin> S"
    proof
      assume "z \<in> S"
      moreover have "(root, z) \<in> undirected (calls edges)" using step unfolding undirected_def by (meson rtrancl_into_rtrancl)
      ultimately show False using S undirected_equiv [of "calls edges"] by (auto elim!: equivE dest: symD)
    qed
    moreover have "z \<in> around edges True y" using step(2) by (auto simp: around_def)
    ultimately show ?case using g step.IH by (auto simp: gathered_def)
  qed
  moreover have "(root, v) \<in> ?U\<^sup>*" if "v \<in> Q" for v using g that by (simp add: gathered_def around_weak)
  ultimately show "Q = undirected (calls edges) `` {root}" by (auto simp: undirected_def)
qed

section \<open>The reason of a budget\<close>

text \<open>A loop that completes leaves the reason as it was; one that stops gives one.\<close>

definition settles :: "bool \<Rightarrow> budget \<Rightarrow> budget \<Rightarrow> bool" where
  "settles ok b b' \<longleftrightarrow> (if ok then reason b' = reason b else reason b' \<noteq> '''')"

lemma settles_trans: "settles True b b1 \<Longrightarrow> settles ok b1 b2 \<Longrightarrow> settles ok b b2"
  by (auto simp: settles_def)

lemma settles_refl [simp]: "settles True b b"
  by (simp add: settles_def)

lemma tick_settles: "tick cancelled b = (ok, b') \<Longrightarrow> settles ok b b'"
  by (auto simp: tick_def settles_def Let_def split: if_splits)

lemma dfs_loop_settles: "dfs_loop cancelled out stack seen order b = (ok, seen', order', b') \<Longrightarrow> settles ok b b'"
proof (induction cancelled out stack seen order b rule: dfs_loop.induct)
  case (2 cancelled out v i stack seen order b)
  obtain ok1 b1 where t: "tick cancelled b = (ok1, b1)" by fastforce
  show ?case
  proof (cases ok1)
    case True
    with "2.IH" [OF t [symmetric]] "2.prems" t have "settles ok b1 b'" by (auto simp: dfs_loop.simps split: if_splits)
    with tick_settles [OF t] True show ?thesis by (simp add: settles_trans)
  qed (use "2.prems" t tick_settles [OF t] in \<open>auto simp: dfs_loop.simps\<close>)
qed simp

lemma dfs_roots_settles: "dfs_roots cancelled out roots seen order b = (ok, order', b') \<Longrightarrow> settles ok b b'"
proof (induction roots arbitrary: seen order b)
  case (Cons root roots)
  obtain ok1 b1 where t: "tick cancelled b = (ok1, b1)" by fastforce
  obtain ok2 seen2 order2 b2 where l: "dfs_loop cancelled out [(root, 0)] (insert root seen) order b1 = (ok2, seen2, order2, b2)"
    by (metis prod_cases4)
  show ?case
    using Cons.prems Cons.IH tick_settles [OF t] dfs_loop_settles [OF l] t l
    by (cases ok1; cases ok2; cases "root \<in> seen") (auto intro: settles_trans)
qed simp

lemma sweep_edges_settles: "sweep_edges cancelled far es seen new b = (ok, seen', new', b') \<Longrightarrow> settles ok b b'"
proof (induction es arbitrary: seen new b)
  case (Cons e es)
  obtain ok1 b1 where t: "tick cancelled b = (ok1, b1)" by fastforce
  show ?case
    using Cons.prems Cons.IH tick_settles [OF t] t by (cases ok1; cases "far e \<in> seen") (auto intro: settles_trans)
qed simp

lemma sweep_node_settles: "sweep_node cancelled out inn weak v seen b = (ok, seen', new, b') \<Longrightarrow> settles ok b b'"
  by (auto simp: sweep_node_def split: prod.splits if_splits dest!: sweep_edges_settles intro: settles_trans)

lemma sweep_settles: "sweep cancelled out inn weak past q seen b = (ok, seen', queue, b') \<Longrightarrow> settles ok b b'"
proof (induction cancelled out inn weak past q seen b rule: sweep.induct)
  case (2 cancelled out inn weak past v q seen b)
  obtain ok1 b1 where t: "tick cancelled b = (ok1, b1)" by fastforce
  obtain ok2 seen2 new b2 where n: "sweep_node cancelled out inn weak v seen b1 = (ok2, seen2, new, b2)" by (metis prod_cases4)
  have "settles ok b2 b'" if "ok1" "ok2"
    using "2.IH" [OF t [symmetric] _ n [symmetric] refl refl] that "2.prems" t n by (auto simp: sweep.simps)
  then show ?case
    using "2.prems" tick_settles [OF t] sweep_node_settles [OF n] t n
    by (cases ok1; cases ok2) (auto simp: sweep.simps intro: settles_trans)
qed simp

lemma sweep_roots_settles: "sweep_roots cancelled ident out inn weak roots seen cs b = (ok, cs', b') \<Longrightarrow> settles ok b b'"
proof (induction roots arbitrary: seen cs b)
  case (Cons root roots)
  obtain ok1 b1 where t: "tick cancelled b = (ok1, b1)" by fastforce
  obtain ok2 seen2 queue b2 where s: "sweep cancelled out inn weak [] [root] (insert root seen) b1 = (ok2, seen2, queue, b2)"
    by (metis prod_cases4)
  show ?case
    using Cons.prems Cons.IH tick_settles [OF t] sweep_settles [OF s] t s
    by (cases ok1; cases ok2; cases "root \<in> seen") (auto intro: settles_trans)
qed simp

section \<open>The components\<close>

definition class_of :: "string \<Rightarrow> Edge list \<Rightarrow> (string \<times> string) set" where
  "class_of mode edges = (if mode = ''STRONG'' then mutual (calls edges) else undirected (calls edges))"

lemma class_of_equiv: "equiv UNIV (class_of mode edges)"
  by (simp add: class_of_def mutual_equiv undirected_equiv)

text \<open>The components partition the nodes into the classes.\<close>

definition partitions :: "(string \<times> string) set \<Rightarrow> string list \<Rightarrow> Component list \<Rightarrow> bool" where
  "partitions C nodes cs \<longleftrightarrow> distinct (concat (map Members cs)) \<and> set (concat (map Members cs)) = set nodes \<and>
     (\<forall>c \<in> set cs. \<exists>v \<in> set (Members c). set (Members c) = C `` {v})"

lemma class_of_nodes:
  assumes "endpoints edges \<subseteq> set nodes" and "v \<in> set nodes" and "(v, w) \<in> class_of mode edges"
  shows "w \<in> set nodes"
proof -
  let ?U = "calls edges \<union> (calls edges)\<inverse>"
  have "(v, w) \<in> ?U\<^sup>*" using assms(3) rtrancl_mono [of "calls edges" ?U] by (auto simp: class_of_def mutual_def undirected_def split: if_splits)
  then show ?thesis by induction (use assms(1,2) in \<open>auto simp: calls_def\<close>)
qed

lemma distinct_concat_perm: "mset xs = mset ys \<Longrightarrow> distinct (concat (map f xs)) = distinct (concat (map f ys))"
proof -
  assume "mset xs = mset ys"
  then have "mset (concat (map f xs)) = mset (concat (map f ys))"
    by (metis (no_types, lifting) map_map mset_concat mset_map sum_mset_sum_list)
  then show ?thesis by (metis mset_eq_imp_distinct_iff)
qed

lemma components_partition:
  assumes run: "components cancelled sha e (fst (Indexes (EvEdges e))) (snd (Indexes (EvEdges e))) b = (cs, b')"
    and b: "reason b = ''''" "reason b' = ''''" and e: "Components e = []" "endpoints (EvEdges e) \<subseteq> set (EvNodes e)"
    and mode: "Mode (EvParameters e) \<in> {''STRONG'', ''WEAK''}"
  shows "partitions (class_of (Mode (EvParameters e)) (EvEdges e)) (EvNodes e) cs \<and>
    (\<forall>c \<in> set cs. sorted (Members c)) \<and> sorted (map (\<lambda>c. hd (Members c)) cs)"
proof -
  let ?E = "EvEdges e" and ?m = "Mode (EvParameters e)"
  let ?C = "class_of ?m ?E"
  define first where "first = (if ?m = ''STRONG'' then (case dfs_roots cancelled (fst (Indexes ?E)) (EvNodes e) {} [] b of (ok, post, b') \<Rightarrow> (ok, rev post, b'))
            else (True, EvNodes e, b))"
  obtain ok order b1 where f: "first = (ok, order, b1)" by (metis prod_cases3)
  have "settles ok b b1"
    using f unfolding first_def by (auto split: if_splits prod.splits dest: dfs_roots_settles)
  obtain ok2 cs2 b2 where s: "sweep_roots cancelled (component_id sha (BasisDigest e) ?m) (fst (Indexes ?E)) (snd (Indexes ?E)) (?m = ''WEAK'') order {} [] b1 = (ok2, cs2, b2)"
    by (metis prod_cases3)
  have r: "components cancelled sha e (fst (Indexes ?E)) (snd (Indexes ?E)) b =
      (if \<not> ok then ([], b1) else (if ok2 then sort_key (\<lambda>c. hd (Members c)) cs2 else cs2, b2))"
    using f s e(1) unfolding components_def first_def by (simp add: Let_def)
  have ok using \<open>settles ok b b1\<close> r run b by (cases ok) (auto simp: settles_def)
  moreover have ok2 using sweep_roots_settles [OF s] r run b \<open>ok\<close> by (cases ok2) (auto simp: settles_def)
  ultimately have cs: "cs = sort_key (\<lambda>c. hd (Members c)) cs2" using r run by simp
  have order: "set order = set (EvNodes e) \<and> exact ?E (?m = ''WEAK'') ?C order"
  proof (cases "?m = ''STRONG''")
    case True
    then obtain post where p: "dfs_roots cancelled (fst (Indexes ?E)) (EvNodes e) {} [] b = (True, post, b1)" "order = rev post"
      using f \<open>ok\<close> unfolding first_def by (auto split: prod.splits)
    have "dfs_ok ?E [] {} []" by (simp add: dfs_ok_def searching_def anchored_def overtaken_def)
    then obtain seen where d: "dfs_ok ?E [] seen post" "set (EvNodes e) \<subseteq> seen" "seen \<subseteq> set (EvNodes e) \<union> endpoints ?E"
      using dfs_roots_ok [OF p(1)] by auto
    moreover have "seen = set post" using d(1) by (simp add: dfs_ok_def searching_def)
    ultimately have "set post = set (EvNodes e)" using e(2) by blast
    then show ?thesis using exact_strong [OF d(1)] e(2) True p(2) by (simp add: class_of_def)
  next
    case False
    with f mode show ?thesis unfolding first_def by (auto simp: class_of_def exact_weak)
  qed
  have "found ?C {} []" by (simp add: found_def)
  with sweep_roots_found [of cancelled "component_id sha (BasisDigest e) ?m" ?E "?m = ''WEAK''" order "{}" "[]" b1 cs2 b2 ?C order "[]"]
    s \<open>ok2\<close> order class_of_equiv [of ?m ?E]
  obtain S where S: "set (EvNodes e) \<subseteq> S" "S \<subseteq> ?C `` set (EvNodes e)" "found ?C S cs2" by auto
  have "S = set (EvNodes e)" using S class_of_nodes [OF e(2)] by auto
  with S(3) have "partitions ?C (EvNodes e) cs2" "\<forall>c \<in> set cs2. sorted (Members c)" by (auto simp: found_def partitions_def)
  moreover have "distinct (concat (map Members cs)) = distinct (concat (map Members cs2))" unfolding cs by (rule distinct_concat_perm) simp
  ultimately show ?thesis unfolding cs partitions_def by simp
qed

end
