(* ===== verification/Component_Work.thy ===== *)
theory Component_Work
  imports Component_Search
begin

text \<open>
  How much work the search for components takes: without cancellation, a budget of two per edge and four per
  node completes it. The lemmas carry a slack \<open>k\<close>: what is left after a loop whose cost is covered.
\<close>

abbreviation never :: go_context where
  "never \<equiv> \<lambda>_. False"

lemma tick_works: "Suc k \<le> left b \<Longrightarrow> \<exists>b'. tick never b = (True, b') \<and> k \<le> left b'"
  by (auto simp: tick_def Let_def)

lemma sweep_edges_works:
  "length es + k \<le> left b \<Longrightarrow> \<exists>seen' new' b'. sweep_edges never far es seen new b = (True, seen', new', b') \<and> k \<le> left b'"
proof (induction es arbitrary: seen new b)
  case (Cons e es)
  then obtain b1 where b1: "tick never b = (True, b1)" "length es + k \<le> left b1" using tick_works [of "length es + k" b] by auto
  from Cons.IH [OF b1(2)] b1(1) show ?case by (cases "far e \<in> seen") auto
qed simp

definition sweep_cost :: "adjacency \<Rightarrow> adjacency \<Rightarrow> bool \<Rightarrow> string \<Rightarrow> nat" where
  "sweep_cost out inn weak v = length (inn v) + (if weak then length (out v) else 0)"

lemma sweep_node_works:
  assumes "sweep_cost out inn weak v + k \<le> left b"
  shows "\<exists>seen' new b'. sweep_node never out inn weak v seen b = (True, seen', new, b') \<and> k \<le> left b'"
proof -
  have "length (inn v) + ((if weak then length (out v) else 0) + k) \<le> left b" using assms by (simp add: sweep_cost_def)
  from sweep_edges_works [OF this, of Caller seen "[]"] obtain seen1 new1 b1
    where s: "sweep_edges never Caller (inn v) seen [] b = (True, seen1, new1, b1)" "(if weak then length (out v) else 0) + k \<le> left b1" by blast
  show ?thesis
  proof (cases weak)
    case True
    with sweep_edges_works [of "out v" k b1 Callee seen1 new1] s show ?thesis by (auto simp: sweep_node_def)
  qed (use s in \<open>auto simp: sweep_node_def\<close>)
qed

text \<open>The cost of the nodes of a finite set that were not seen.\<close>

definition unseen :: "(string \<Rightarrow> nat) \<Rightarrow> string set \<Rightarrow> string set \<Rightarrow> nat" where
  "unseen cost N seen = (\<Sum>v \<in> N - seen. Suc (cost v))"

lemma unseen_split:
  assumes "finite N" and "distinct new" and "set new \<subseteq> N - seen"
  shows "unseen cost N seen = sum_list (map (\<lambda>v. Suc (cost v)) new) + unseen cost N (seen \<union> set new)"
proof -
  have "(\<Sum>v \<in> N - seen. Suc (cost v)) = (\<Sum>v \<in> (N - seen) - set new. Suc (cost v)) + (\<Sum>v \<in> set new. Suc (cost v))"
    using assms by (intro sum.subset_diff) auto
  moreover have "(N - seen) - set new = N - (seen \<union> set new)" by blast
  ultimately show ?thesis using assms(2) by (simp add: unseen_def sum_list_distinct_conv_sum_set)
qed

lemma around_endpoints: "around edges weak v \<subseteq> endpoints edges"
  by (auto simp: around_def calls_def)

lemma sweep_works:
  assumes "finite N" "endpoints edges \<subseteq> N"
    and "sum_list (map (\<lambda>v. Suc (sweep_cost (fst (Indexes edges)) (snd (Indexes edges)) weak v)) q) +
      unseen (sweep_cost (fst (Indexes edges)) (snd (Indexes edges)) weak) N seen + k \<le> left b"
  shows "\<exists>seen' queue b'. sweep never (fst (Indexes edges)) (snd (Indexes edges)) weak past q seen b = (True, seen', queue, b') \<and>
    unseen (sweep_cost (fst (Indexes edges)) (snd (Indexes edges)) weak) N seen' + k \<le> left b'"
  using assms(3)
proof (induction never "fst (Indexes edges)" "snd (Indexes edges)" weak past q seen b rule: sweep.induct)
  case (1 weak past seen b)
  then show ?case by simp
next
  case (2 weak past v q seen b)
  let ?c = "sweep_cost (fst (Indexes edges)) (snd (Indexes edges)) weak"
  let ?rest = "sum_list (map (\<lambda>v. Suc (?c v)) q) + unseen ?c N seen + k"
  obtain b1 where t: "tick never b = (True, b1)" "?c v + ?rest \<le> left b1"
    using tick_works [of "?c v + ?rest" b] "2.prems" by auto
  obtain seen2 new b2 where n: "sweep_node never (fst (Indexes edges)) (snd (Indexes edges)) weak v seen b1 = (True, seen2, new, b2)" "?rest \<le> left b2"
    using sweep_node_works [OF t(2), of seen] by blast
  have new: "distinct new" "set new = around edges weak v - seen" "seen2 = seen \<union> around edges weak v"
    using sweep_node_new [OF n(1)] by simp_all
  then have "unseen ?c N seen = sum_list (map (\<lambda>v. Suc (?c v)) new) + unseen ?c N (seen \<union> set new)"
    using subset_trans [OF around_endpoints [of edges weak v] assms(2)] assms(1) by (intro unseen_split) auto
  moreover have "seen \<union> set new = seen2" using new by blast
  ultimately have "sum_list (map (\<lambda>v. Suc (?c v)) (q @ new)) + unseen ?c N seen2 + k \<le> left b2" using n(2) by simp
  from "2.hyps" [OF t(1) [symmetric] _ n(1) [symmetric] refl refl _ this] t(1) n(1) show ?case by (simp add: sweep.simps)
qed

lemma sweep_roots_works:
  assumes "finite N" "endpoints edges \<subseteq> N" "set roots \<subseteq> N"
    and "length roots + unseen (sweep_cost (fst (Indexes edges)) (snd (Indexes edges)) weak) N seen \<le> left b"
  shows "\<exists>cs' b'. sweep_roots never ident (fst (Indexes edges)) (snd (Indexes edges)) weak roots seen cs b = (True, cs', b')"
  using assms(3,4)
proof (induction roots arbitrary: seen cs b)
  case (Cons root roots)
  let ?c = "sweep_cost (fst (Indexes edges)) (snd (Indexes edges)) weak"
  obtain b1 where t: "tick never b = (True, b1)" "length roots + unseen ?c N seen \<le> left b1"
    using tick_works [of "length roots + unseen ?c N seen" b] Cons.prems by auto
  show ?case
  proof (cases "root \<in> seen")
    case True
    with Cons.IH [OF _ t(2)] Cons.prems(1) t(1) show ?thesis by simp
  next
    case False
    then have "unseen ?c N seen = Suc (?c root) + unseen ?c N (insert root seen)"
      using unseen_split [OF assms(1), of "[root]" seen ?c] Cons.prems(1) by simp
    with t(2) have "sum_list (map (\<lambda>v. Suc (?c v)) [root]) + unseen ?c N (insert root seen) + length roots \<le> left b1" by simp
    from sweep_works [OF assms(1,2) this] obtain seen2 queue b2
      where s: "sweep never (fst (Indexes edges)) (snd (Indexes edges)) weak [] [root] (insert root seen) b1 = (True, seen2, queue, b2)"
        "unseen ?c N seen2 + length roots \<le> left b2" by blast
    with Cons.IH [of seen2 b2] Cons.prems(1) t(1) False show ?thesis by simp
  qed
qed simp

text \<open>The postorder search: a frame costs one per edge still to look at and one to finish.\<close>

definition frames_cost :: "adjacency \<Rightarrow> frame list \<Rightarrow> nat" where
  "frames_cost out stack = sum_list (map (\<lambda>(v, i). Suc (length (out v) - i)) stack)"

lemma dfs_loop_works:
  assumes "finite N" "endpoints edges \<subseteq> N"
    and "frames_cost (fst (Indexes edges)) stack + unseen (\<lambda>v. length (fst (Indexes edges) v)) N seen + k \<le> left b"
    and "\<forall>(v, i) \<in> set stack. i \<le> length (fst (Indexes edges) v)"
  shows "\<exists>seen' order' b'. dfs_loop never (fst (Indexes edges)) stack seen order b = (True, seen', order', b') \<and>
    unseen (\<lambda>v. length (fst (Indexes edges) v)) N seen' + k \<le> left b'"
  using assms(3,4)
proof (induction never "fst (Indexes edges)" stack seen order b rule: dfs_loop.induct)
  case (1 seen order b)
  then show ?case by (simp add: frames_cost_def)
next
  case (2 v i stack seen order b)
  let ?out = "fst (Indexes edges)" and ?c = "\<lambda>v. length (fst (Indexes edges) v)"
  let ?rest = "(?c v - i) + frames_cost ?out stack + unseen ?c N seen + k"
  obtain b1 where t: "tick never b = (True, b1)" "?rest \<le> left b1"
    using tick_works [of ?rest b] "2.prems"(1) by (auto simp: frames_cost_def)
  note IH = "2.hyps" [OF t(1) [symmetric]]
  consider (finish) "i = ?c v" | (push) "i \<noteq> ?c v" "Callee (?out v ! i) \<notin> seen" | (advance) "i \<noteq> ?c v" "Callee (?out v ! i) \<in> seen" by blast
  then show ?case
  proof cases
    case finish
    with IH(1) t "2.prems"(2) show ?thesis by (simp add: dfs_loop.simps)
  next
    case push
    let ?w = "Callee (?out v ! i)"
    have i: "i < ?c v" using push(1) "2.prems"(2) by auto
    then have "?out v ! i \<in> set edges" using nth_mem by fastforce
    then have "?w \<in> N - seen" using assms(2) push(2) by auto
    then have "unseen ?c N seen = Suc (?c ?w) + unseen ?c N (insert ?w seen)"
      using unseen_split [OF assms(1), of "[?w]" seen ?c] by simp
    then have "frames_cost ?out ((?w, 0) # (v, Suc i) # stack) + unseen ?c N (insert ?w seen) + k \<le> left b1"
      using t(2) i by (simp add: frames_cost_def)
    with IH(2) t(1) "2.prems"(2) push i show ?thesis by (simp add: dfs_loop.simps)
  next
    case advance
    then have i: "i < ?c v" using "2.prems"(2) by auto
    then have "frames_cost ?out ((v, Suc i) # stack) + unseen ?c N seen + k \<le> left b1" using t(2) by (simp add: frames_cost_def)
    with IH(3) t(1) "2.prems"(2) advance i show ?thesis by (simp add: dfs_loop.simps)
  qed
qed

lemma dfs_roots_works:
  assumes "finite N" "endpoints edges \<subseteq> N" "set roots \<subseteq> N"
    and "length roots + unseen (\<lambda>v. length (fst (Indexes edges) v)) N seen + k \<le> left b"
  shows "\<exists>order' b'. dfs_roots never (fst (Indexes edges)) roots seen order b = (True, order', b') \<and> k \<le> left b'"
  using assms(3,4)
proof (induction roots arbitrary: seen order b)
  case (Cons root roots)
  let ?c = "\<lambda>v. length (fst (Indexes edges) v)"
  obtain b1 where t: "tick never b = (True, b1)" "length roots + unseen ?c N seen + k \<le> left b1"
    using tick_works [of "length roots + unseen ?c N seen + k" b] Cons.prems by auto
  show ?case
  proof (cases "root \<in> seen")
    case True
    with Cons.IH [OF _ t(2)] Cons.prems(1) t(1) show ?thesis by simp
  next
    case False
    then have "unseen ?c N seen = Suc (?c root) + unseen ?c N (insert root seen)"
      using unseen_split [OF assms(1), of "[root]" seen ?c] Cons.prems(1) by simp
    with t(2) have "frames_cost (fst (Indexes edges)) [(root, 0)] + unseen ?c N (insert root seen) + (length roots + k) \<le> left b1"
      by (simp add: frames_cost_def)
    from dfs_loop_works [OF assms(1,2) this, of order] obtain seen2 order2 b2
      where "dfs_loop never (fst (Indexes edges)) [(root, 0)] (insert root seen) order b1 = (True, seen2, order2, b2)"
        "unseen ?c N seen2 + (length roots + k) \<le> left b2" by auto
    with Cons.IH [of seen2 b2] Cons.prems(1) t(1) False show ?thesis by simp
  qed
qed simp

text \<open>Every edge has one caller and one callee.\<close>

lemma sum_filter_edges: "finite N \<Longrightarrow> (\<Sum>v \<in> N. length (filter (\<lambda>e. f e = v) edges)) \<le> length edges"
proof (induction edges)
  case (Cons e edges)
  have "(\<Sum>v \<in> N. length (filter (\<lambda>e. f e = v) (e # edges))) =
      (\<Sum>v \<in> N. (if f e = v then 1 else 0)) + (\<Sum>v \<in> N. length (filter (\<lambda>e. f e = v) edges))"
    unfolding sum.distrib [symmetric] by (rule sum.cong) auto
  also have "(\<Sum>v \<in> N. (if f e = v then 1 else 0)) \<le> (1::nat)" using Cons.prems by simp
  finally show ?case using Cons by simp
qed simp

lemma unseen_out: "unseen (\<lambda>v. length (fst (Indexes edges) v)) (set nodes) {} \<le> length nodes + length edges"
proof -
  have "unseen (\<lambda>v. length (fst (Indexes edges) v)) (set nodes) {} = card (set nodes) + (\<Sum>v \<in> set nodes. length (filter (\<lambda>e. Caller e = v) edges))"
    by (simp add: unseen_def sum_Suc Indexes_out add.commute)
  then show ?thesis using sum_filter_edges [of "set nodes" Caller edges] card_length [of nodes] by simp
qed

lemma unseen_sweep:
  "unseen (sweep_cost (fst (Indexes edges)) (snd (Indexes edges)) weak) (set nodes) {} \<le> length nodes + (if weak then 2 else 1) * length edges"
proof -
  let ?i = "\<Sum>v \<in> set nodes. length (filter (\<lambda>e. Callee e = v) edges)" and ?o = "\<Sum>v \<in> set nodes. length (filter (\<lambda>e. Caller e = v) edges)"
  have "unseen (sweep_cost (fst (Indexes edges)) (snd (Indexes edges)) weak) (set nodes) {} = card (set nodes) + (?i + (if weak then ?o else 0))"
    by (simp add: unseen_def sum_Suc sweep_cost_def Indexes_out Indexes_in sum.distrib add.commute)
  then show ?thesis
    using sum_filter_edges [of "set nodes" Caller edges] sum_filter_edges [of "set nodes" Callee edges] card_length [of nodes] by simp
qed

lemma components_completes:
  assumes e: "endpoints (EvEdges e) \<subseteq> set (EvNodes e)" and work: "4 * length (EvNodes e) + 2 * length (EvEdges e) \<le> left b"
    and b: "reason b = ''''"
  shows "reason (snd (components never sha e (fst (Indexes (EvEdges e))) (snd (Indexes (EvEdges e))) b)) = ''''"
proof -
  let ?E = "EvEdges e" and ?N = "set (EvNodes e)" and ?m = "Mode (EvParameters e)"
  have "\<exists>order b1. (if ?m = ''STRONG'' then (case dfs_roots never (fst (Indexes ?E)) (EvNodes e) {} [] b of (ok, post, b') \<Rightarrow> (ok, rev post, b'))
      else (True, EvNodes e, b)) = (True, order, b1) \<and> length order + length (EvNodes e) + (if ?m = ''WEAK'' then 2 else 1) * length ?E \<le> left b1
      \<and> set order \<subseteq> ?N \<and> reason b1 = ''''"
  proof (cases "?m = ''STRONG''")
    case True
    have "length (EvNodes e) + unseen (\<lambda>v. length (fst (Indexes ?E) v)) ?N {} + (2 * length (EvNodes e) + length ?E) \<le> left b"
      using unseen_out [of ?E "EvNodes e"] work by simp
    from dfs_roots_works [OF finite_set e subset_refl this, of "[]"] obtain post b1
      where d: "dfs_roots never (fst (Indexes ?E)) (EvNodes e) {} [] b = (True, post, b1)" "2 * length (EvNodes e) + length ?E \<le> left b1" by blast
    have "dfs_ok ?E [] {} []" by (simp add: dfs_ok_def searching_def anchored_def overtaken_def)
    from dfs_roots_ok [OF d(1) this] obtain seen where s: "dfs_ok ?E [] seen post" "seen \<subseteq> ?N \<union> endpoints ?E" by auto
    then have post: "distinct post" "set post \<subseteq> ?N" using e by (auto simp: dfs_ok_def searching_def)
    then have "length post \<le> length (EvNodes e)"
      using distinct_card [OF post(1)] card_mono [OF finite_set post(2)] card_length [of "EvNodes e"] by simp
    then show ?thesis using d True post(2) dfs_roots_settles [OF d(1)] b by (simp add: settles_def)
  next
    case False
    then show ?thesis using work b by auto
  qed
  then obtain order b1 where o: "(if ?m = ''STRONG'' then (case dfs_roots never (fst (Indexes ?E)) (EvNodes e) {} [] b of (ok, post, b') \<Rightarrow> (ok, rev post, b'))
      else (True, EvNodes e, b)) = (True, order, b1)" "length order + length (EvNodes e) + (if ?m = ''WEAK'' then 2 else 1) * length ?E \<le> left b1"
      "set order \<subseteq> ?N" "reason b1 = ''''" by blast
  have "length order + unseen (sweep_cost (fst (Indexes ?E)) (snd (Indexes ?E)) (?m = ''WEAK'')) ?N {} \<le> left b1"
    using o(2) unseen_sweep [of ?E "?m = ''WEAK''" "EvNodes e"] by simp
  from sweep_roots_works [OF finite_set e o(3) this] obtain cs b2
    where s: "sweep_roots never (component_id sha (BasisDigest e) ?m) (fst (Indexes ?E)) (snd (Indexes ?E)) (?m = ''WEAK'') order {} (Components e) b1 = (True, cs, b2)"
    by blast
  with sweep_roots_settles [OF s] o show ?thesis unfolding components_def by (simp add: Let_def settles_def)
qed

section \<open>Runs\<close>

lemma run_components:
  assumes "Operation (EvParameters e) = ''COMPONENTS''" and "\<not> cancelled 0"
    and "components cancelled sha e (fst (Indexes (EvEdges e))) (snd (Indexes (EvEdges e)))
      \<lparr>polls = 1, left = nat (MaxWork (EvParameters e)), reason = ''''\<rparr> = (cs, b)"
  shows "run cancelled sha e = Some (Inr (spent b (e\<lparr>Components := cs\<rparr>)))"
  using assms by (cases "Indexes (EvEdges e)") (simp add: run_def Let_def)

lemma run_components_complete:
  assumes "Operation (EvParameters e) = ''COMPONENTS''" and "run cancelled sha e = Some (Inr e')" and "EvStatus e' = ''COMPLETE''"
  obtains cs b where "components cancelled sha e (fst (Indexes (EvEdges e))) (snd (Indexes (EvEdges e)))
      \<lparr>polls = 1, left = nat (MaxWork (EvParameters e)), reason = ''''\<rparr> = (cs, b)" and "reason b = ''''" and "e' = e\<lparr>Components := cs\<rparr>"
proof -
  obtain cs b where c: "components cancelled sha e (fst (Indexes (EvEdges e))) (snd (Indexes (EvEdges e)))
      \<lparr>polls = 1, left = nat (MaxWork (EvParameters e)), reason = ''''\<rparr> = (cs, b)" by fastforce
  have "\<not> cancelled 0" using assms by (auto simp: run_def Let_def split: prod.splits)
  from run_components [OF assms(1) this c] assms(2,3) have "reason b = ''''" "e' = e\<lparr>Components := cs\<rparr>"
    by (auto simp: spent_def split: if_splits)
  with c that show ?thesis by blast
qed

lemma tick_all_works: "length xs + k \<le> left b \<Longrightarrow> k \<le> left (tick_all never xs b) \<and> reason (tick_all never xs b) = reason b"
proof (induction xs arbitrary: b)
  case (Cons x xs)
  then obtain b1 where t: "tick never b = (True, b1)" "length xs + k \<le> left b1" using tick_works [of "length xs + k" b] by auto
  with Cons.IH [OF t(2)] tick_settles [OF t(1)] show ?case by (simp add: settles_def)
qed simp

text \<open>The edges of a projection connect its nodes when the groups of the tables connect their end points.\<close>

lemma project_edges:
  assumes "project basis t p = Inr e"
  shows "EvParameters e = p" "EvStatus e = ''COMPLETE''" "Components e = []" "BasisDigest e = basis"
    "set (EvNodes e) = set (Endpoints t)" "length (EvNodes e) = length (Endpoints t)" "distinct (Endpoints t) \<Longrightarrow> distinct (EvNodes e)"
    "length (EvEdges e) = length (Groups t)" "endpoints (EvEdges e) = g_CallerNodeID ` set (Groups t) \<union> g_CalleeNodeID ` set (Groups t)"
  using assms by (auto simp: project_def Let_def project_edge_def image_image image_Un split: if_splits)

lemma normalize_components:
  assumes "normalize p0 = Inr p" and "Operation p = ''COMPONENTS''"
  shows "Mode p \<in> {''STRONG'', ''WEAK''}" "1 \<le> MaxWork p" "MaxWork p \<le> MaxWorkLimit"
  using assms by (auto simp: normalize_def Let_def split: if_splits)

end
