(* ===== verification/Partition_Check.thy ===== *)
theory Partition_Check
  imports Component_Search
begin

text \<open>
  The check of a partition of theory \<open>Bounded_Analysis\<close> is exact: it accepts the components that partition
  the nodes into classes of mutual (strong) or undirected (weak) reachability, and nothing else. Blocks are
  checked by reachability inside them, maximality by Kahn's algorithm on the quotient.
\<close>

section \<open>Kahn's algorithm\<close>

lemma lower_spec:
  assumes "lower vs degree new = (degree', new')" and "\<forall>v \<in> set vs. v < length degree \<and> int (count_list vs v) \<le> degree ! v"
  shows "length degree' = length degree \<and> (\<forall>v < length degree. degree' ! v = degree ! v - int (count_list vs v)) \<and>
    (\<exists>add. new' = new @ add \<and> distinct add \<and> set add = {v \<in> set vs. degree' ! v = 0})"
  using assms
proof (induction vs arbitrary: degree new)
  case (Cons v vs)
  let ?d = "degree[v := degree ! v - 1]"
  have v: "v < length degree" "int (count_list vs v) + 1 \<le> degree ! v" using Cons.prems(2) by auto
  have l: "lower vs ?d (if ?d ! v = 0 then new @ [v] else new) = (degree', new')" using Cons.prems(1) v(1) by (simp add: Let_def)
  have "\<forall>w \<in> set vs. w < length ?d \<and> int (count_list vs w) \<le> ?d ! w" using Cons.prems(2) v by (auto simp: nth_list_update)
  from Cons.IH [OF l this] obtain add where IH: "length degree' = length degree" "\<forall>w < length degree. degree' ! w = ?d ! w - int (count_list vs w)"
    "new' = (if ?d ! v = 0 then new @ [v] else new) @ add" "distinct add" "set add = {w \<in> set vs. degree' ! w = 0}" by auto
  have d: "\<forall>w < length degree. degree' ! w = degree ! w - int (count_list (v # vs) w)" using IH(2) v(1) by (auto simp: nth_list_update)
  have "\<exists>add. new' = new @ add \<and> distinct add \<and> set add = {w \<in> set (v # vs). degree' ! w = 0}"
  proof (cases "?d ! v = 0")
    case True
    then have "count_list vs v = 0" using v by simp
    then have "v \<notin> set vs" by (simp add: count_list_0_iff)
    moreover have "degree' ! v = 0" using IH(2) v(1) True \<open>count_list vs v = 0\<close> by simp
    ultimately show ?thesis using True IH(3-5) by (intro exI [of _ "v # add"]) auto
  next
    case False
    have "v \<in> set vs" if "degree' ! v = 0"
    proof (rule ccontr)
      assume "v \<notin> set vs"
      then have "count_list vs v = 0" by (simp add: count_list_0_iff)
      then show False using IH(2) v(1) that False by simp
    qed
    then show ?thesis using False IH(3-5) by (intro exI [of _ add]) auto
  qed
  with IH(1) d show ?case by simp
qed simp

text \<open>
  The state of the loop over a list of arcs: the degree of a vertex counts the arcs from vertices not yet
  taken, the queue holds the vertices of degree zero, and each vertex stands behind its predecessors.
\<close>

definition arcs_into :: "(nat \<times> nat) list \<Rightarrow> nat set \<Rightarrow> nat \<Rightarrow> nat" where
  "arcs_into qs past v = length (filter (\<lambda>(a, c). c = v \<and> a \<notin> past) qs)"

definition kahn :: "(nat \<times> nat) list \<Rightarrow> nat \<Rightarrow> nat list \<Rightarrow> nat list \<Rightarrow> int list \<Rightarrow> bool" where
  "kahn qs n past q degree \<longleftrightarrow> length degree = n \<and> distinct (past @ q) \<and> set (past @ q) \<subseteq> {..<n} \<and>
     (\<forall>v < n. degree ! v = int (arcs_into qs (set past) v) \<and> (v \<in> set (past @ q) \<longleftrightarrow> degree ! v = 0)) \<and>
     (\<forall>k < length (past @ q). \<forall>a. (a, (past @ q) ! k) \<in> set qs \<longrightarrow> a \<in> set (take k past))"

definition targets :: "(nat \<times> nat) list \<Rightarrow> nat \<Rightarrow> nat list" where
  "targets qs a = map snd (filter (\<lambda>p. fst p = a) qs)"

lemma arcs_into_take:
  "x \<notin> past \<Longrightarrow> arcs_into qs past v = arcs_into qs (insert x past) v + count_list (targets qs x) v"
  unfolding arcs_into_def targets_def by (induction qs) auto

lemma arcs_into_zero: "arcs_into qs past v = 0 \<longleftrightarrow> (\<forall>a. (a, v) \<in> set qs \<longrightarrow> a \<in> past)"
  unfolding arcs_into_def by (auto simp: filter_empty_conv)

lemma kahn_step:
  assumes k: "kahn qs n past (x # q) degree" and qs: "snd ` set qs \<subseteq> {..<n}" and l: "lower (targets qs x) degree [] = (degree', new)"
  shows "kahn qs n (past @ [x]) (q @ new) degree'"
proof -
  have x: "x \<notin> set past" using k by (auto simp: kahn_def)
  have deg: "degree ! v = int (arcs_into qs (insert x (set past)) v) + int (count_list (targets qs x) v)" if "v < n" for v
    using k that arcs_into_take [OF x, of qs v] by (simp add: kahn_def)
  have "\<forall>v \<in> set (targets qs x). v < length degree \<and> int (count_list (targets qs x) v) \<le> degree ! v"
  proof
    fix v assume "v \<in> set (targets qs x)"
    then have "v < n" using qs by (auto simp: targets_def)
    then show "v < length degree \<and> int (count_list (targets qs x) v) \<le> degree ! v" using deg [of v] k by (simp add: kahn_def)
  qed
  from lower_spec [OF l this] have L: "length degree' = n" "\<And>v. v < n \<Longrightarrow> degree' ! v = int (arcs_into qs (insert x (set past)) v)"
    "distinct new" "set new = {v \<in> set (targets qs x). degree' ! v = 0}" using k deg by (auto simp: kahn_def)
  have zero: "v < n \<Longrightarrow> v \<in> set (past @ x # q) \<longleftrightarrow> degree ! v = 0" for v using k by (simp add: kahn_def)
  have tn: "v < n" if "v \<in> set (targets qs x)" for v using that qs by (auto simp: targets_def)
  have fresh: "v \<notin> set (past @ x # q)" if "v \<in> set new" for v
  proof
    assume v: "v \<in> set (past @ x # q)"
    have t: "v \<in> set (targets qs x)" using that L(4) by simp
    then have "degree ! v = 0" using zero [OF tn [OF t]] v by blast
    then have "count_list (targets qs x) v = 0" using deg [OF tn [OF t]] by simp
    then show False using t by (simp add: count_list_0_iff)
  qed
  have "set new \<inter> set (past @ x # q) = {}" using fresh by blast
  then have dist: "distinct ((past @ [x]) @ q @ new)" using k L(3) by (auto simp: kahn_def)
  have sub: "set ((past @ [x]) @ q @ new) \<subseteq> {..<n}" using k tn L(4) by (auto simp: kahn_def)
  have mem: "v \<in> set ((past @ [x]) @ q @ new) \<longleftrightarrow> degree' ! v = 0" if "v < n" for v
  proof
    assume "v \<in> set ((past @ [x]) @ q @ new)"
    then have "v \<in> set new \<or> degree ! v = 0" using zero [OF that] by auto
    then show "degree' ! v = 0" using L(4) L(2) [OF that] deg [OF that] by auto
  next
    assume z: "degree' ! v = 0"
    show "v \<in> set ((past @ [x]) @ q @ new)"
    proof (cases "v \<in> set (targets qs x)")
      case False
      then have "degree ! v = 0" using z L(2) [OF that] deg [OF that] by (simp add: count_list_0_iff)
      then show ?thesis using zero [OF that] by auto
    qed (use z L(4) in simp)
  qed
  have "a \<in> set (take j (past @ [x]))" if j: "j < length ((past @ [x]) @ q @ new)" and a: "(a, ((past @ [x]) @ q @ new) ! j) \<in> set qs" for j a
  proof (cases "j < length (past @ x # q)")
    case True
    moreover have "(past @ [x]) @ q @ new = (past @ x # q) @ new" by simp
    ultimately have "((past @ [x]) @ q @ new) ! j = (past @ x # q) ! j" by (metis nth_append)
    then have "a \<in> set (take j past)" using k True a unfolding kahn_def by metis
    then show ?thesis by auto
  next
    case False
    let ?v = "((past @ [x]) @ q @ new) ! j"
    have "?v \<in> set new" using False j by (auto simp: nth_append nth_Cons')
    then have "degree' ! ?v = 0" "?v < n" using L(4) tn by auto
    then have "a \<in> insert x (set past)" using L(2) arcs_into_zero a by force
    then show ?thesis using False by simp
  qed
  then show ?thesis unfolding kahn_def using L(1,2) dist sub mem by simp
qed

lemma kahn_loop:
  assumes "kahn qs n past q degree" and "snd ` set qs \<subseteq> {..<n}"
  shows "\<exists>degree'. kahn qs n (topological (targets qs) past q degree) [] degree'"
  using assms(1)
proof (induction "targets qs" past q degree rule: topological.induct)
  case (1 past degree)
  then show ?case by auto
next
  case (2 past x q degree)
  obtain degree' new where l: "lower (targets qs x) degree [] = (degree', new)" by fastforce
  from "2.hyps" [OF l [symmetric] kahn_step [OF "2.prems" assms(2) l]] l show ?case by (simp add: topological.simps)
qed

text \<open>The loop takes every vertex exactly when the arcs have no cycle.\<close>

lemma kahn_all_acyclic:
  assumes "kahn qs n past [] degree" and "length past = n" and "fst ` set qs \<subseteq> {..<n}" "snd ` set qs \<subseteq> {..<n}"
  shows "acyclic (set qs)"
proof -
  have all: "set past = {..<n}" using assms(1,2) by (metis append_Nil2 card_lessThan card_subset_eq distinct_card finite_lessThan kahn_def)
  have less: "\<exists>i j. i < j \<and> j < length past \<and> past ! i = a \<and> past ! j = c" if "(a, c) \<in> (set qs)\<^sup>+" for a c
    using that
  proof induction
    case (base c)
    then have "c \<in> set past" using assms(4) all by force
    then obtain j where j: "j < length past" "past ! j = c" by (auto simp: in_set_conv_nth)
    then have "a \<in> set (take j past)" using assms(1) base unfolding kahn_def by auto
    then obtain i where "i < j" "past ! i = a" using j(1) by (auto simp: in_set_conv_nth)
    then show ?case using j by blast
  next
    case (step c d)
    then obtain i j where ij: "i < j" "j < length past" "past ! i = a" "past ! j = c" by blast
    have "d \<in> set past" using step(2) assms(4) all by force
    then obtain l where l: "l < length past" "past ! l = d" by (auto simp: in_set_conv_nth)
    then have "c \<in> set (take l past)" using assms(1) step(2) unfolding kahn_def by auto
    then obtain j' where "j' < l" "past ! j' = c" using l(1) by (auto simp: in_set_conv_nth)
    moreover have "distinct past" using assms(1) by (simp add: kahn_def)
    ultimately have "j < l" using ij(2,4) l(1) by (metis nth_eq_iff_index_eq order.strict_trans)
    then have "i < l" using ij(1) by simp
    then show ?case using ij(3) l by blast
  qed
  have "distinct past" using assms(1) by (simp add: kahn_def)
  then show ?thesis unfolding acyclic_def using less by (metis nth_eq_iff_index_eq order.strict_trans less_irrefl)
qed

lemma acyclic_kahn_all:
  assumes "kahn qs n past [] degree" and "acyclic (set qs)" and "fst ` set qs \<subseteq> {..<n}"
  shows "length past = n"
proof -
  have "wf (set qs)" using assms(2) by (simp add: finite_acyclic_wf)
  have "v \<in> set past" if "v < n" for v
    using \<open>wf (set qs)\<close> that
  proof (induction rule: wf_induct_rule)
    case (less v)
    then have "arcs_into qs (set past) v = 0" using assms(3) unfolding arcs_into_zero by force
    then show ?case using assms(1) less.prems by (simp add: kahn_def)
  qed
  then have "set past = {..<n}" using assms(1) by (auto simp: kahn_def)
  then show ?thesis using assms(1) by (metis append_Nil2 card_lessThan distinct_card kahn_def)
qed

section \<open>The membership table\<close>

lemma add_members_Some:
  "add_members i vs m = (if distinct vs \<and> (\<forall>v \<in> set vs. m v = None) then Some (\<lambda>v. if v \<in> set vs then Some i else m v) else None)"
  by (induction vs arbitrary: m) (auto simp: fun_eq_iff)

lemma membership_of_accepts:
  "(\<exists>m'. membership_of i cs m = Inr m') \<longleftrightarrow>
     (\<forall>c \<in> set cs. Members c \<noteq> []) \<and> distinct (concat (map Members cs)) \<and> set (concat (map Members cs)) \<inter> dom m = {}"
proof (induction cs arbitrary: i m)
  case (Cons c cs)
  show ?case
  proof (cases "distinct (Members c) \<and> (\<forall>v \<in> set (Members c). m v = None)")
    case True
    then have "set (Members c) \<inter> dom m = {}" by auto
    moreover have "dom (\<lambda>v. if v \<in> set (Members c) then Some i else m v) = set (Members c) \<union> dom m" by (auto split: if_splits)
    ultimately show ?thesis using Cons.IH [of "Suc i" "\<lambda>v. if v \<in> set (Members c) then Some i else m v"] True
      by (simp add: add_members_Some Int_Un_distrib Int_commute Un_Int_distrib; blast)
  next
    case False
    then have "add_members i (Members c) m = None" unfolding add_members_Some by (rule if_not_P)
    then show ?thesis using False by auto
  qed
qed simp

lemma membership_of_labels:
  assumes "membership_of i cs m = Inr m'"
  shows "m' v = Some k \<longleftrightarrow> m v = Some k \<or> (\<exists>j < length cs. k = i + j \<and> v \<in> set (Members (cs ! j)))"
  using assms
proof (induction cs arbitrary: i m)
  case (Cons c cs)
  then have c: "distinct (Members c) \<and> (\<forall>v \<in> set (Members c). m v = None)"
    and r: "membership_of (Suc i) cs (\<lambda>v. if v \<in> set (Members c) then Some i else m v) = Inr m'"
    by (auto simp: add_members_Some split: if_splits)
  have "(\<exists>j < length (c # cs). k = i + j \<and> v \<in> set (Members ((c # cs) ! j))) \<longleftrightarrow>
      k = i \<and> v \<in> set (Members c) \<or> (\<exists>j < length cs. k = Suc i + j \<and> v \<in> set (Members (cs ! j)))"
    by (auto simp: less_Suc_eq_0_disj)
  with Cons.IH [OF r] c show ?case by auto
qed simp

definition labelled :: "string list \<Rightarrow> Component list \<Rightarrow> (string \<rightharpoonup> nat) \<Rightarrow> bool" where
  "labelled nodes cs m \<longleftrightarrow> (\<forall>c \<in> set cs. Members c \<noteq> []) \<and> distinct (concat (map Members cs)) \<and> set (concat (map Members cs)) = set nodes \<and>
     (\<forall>v k. m v = Some k \<longleftrightarrow> k < length cs \<and> v \<in> set (Members (cs ! k)))"

lemma labelled_iff:
  assumes "distinct nodes"
  shows "membership_of 0 cs Map.empty = Inr m \<and> length (concat (map Members cs)) = length nodes \<and> (\<forall>v \<in> set nodes. m v \<noteq> None) \<longleftrightarrow>
    labelled nodes cs m" (is "?l \<longleftrightarrow> ?r")
proof
  assume l: ?l
  then have "m v = Some k \<longleftrightarrow> k < length cs \<and> v \<in> set (Members (cs ! k))" for v k using membership_of_labels [of 0 cs Map.empty m v k] by auto
  moreover have d: "(\<forall>c \<in> set cs. Members c \<noteq> []) \<and> distinct (concat (map Members cs))" using l membership_of_accepts [of 0 cs Map.empty] by auto
  moreover have "set nodes \<subseteq> set (concat (map Members cs))"
  proof
    fix v assume "v \<in> set nodes"
    then obtain k where "m v = Some k" using l by fastforce
    then have "k < length cs" "v \<in> set (Members (cs ! k))" using calculation(1) by auto
    then show "v \<in> set (concat (map Members cs))" using nth_mem [of k cs] by auto
  qed
  then have "set nodes = set (concat (map Members cs))"
    using d l assms by (metis List.finite_set card_subset_eq distinct_card)
  ultimately show ?r by (simp add: labelled_def)
next
  assume r: ?r
  then obtain m' where m': "membership_of 0 cs Map.empty = Inr m'" using membership_of_accepts [of 0 cs Map.empty] by (auto simp: labelled_def)
  have "m' v = Some k \<longleftrightarrow> m v = Some k" for v k using membership_of_labels [OF m', of v k] r by (auto simp: labelled_def)
  then have "m' = m" by (metis not_Some_eq ext)
  moreover have "length (concat (map Members cs)) = length nodes" using r assms by (metis distinct_card labelled_def)
  moreover have "m v \<noteq> None" if "v \<in> set nodes" for v
  proof -
    have "v \<in> set (concat (map Members cs))" using that r by (metis labelled_def)
    then obtain c where "c \<in> set cs" "v \<in> set (Members c)" by auto
    then obtain k where "k < length cs" "v \<in> set (Members (cs ! k))" by (auto simp: in_set_conv_nth)
    then have "m v = Some k" using r by (simp add: labelled_def)
    then show ?thesis by simp
  qed
  ultimately show ?l using m' by blast
qed

lemma labelled_exists:
  assumes "\<forall>c \<in> set cs. Members c \<noteq> []" and "distinct (concat (map Members cs))" and "set (concat (map Members cs)) = set nodes"
  shows "\<exists>m. labelled nodes cs m"
proof -
  obtain m where m: "membership_of 0 cs Map.empty = Inr m" using assms membership_of_accepts [of 0 cs Map.empty] by auto
  have "m v = Some k \<longleftrightarrow> k < length cs \<and> v \<in> set (Members (cs ! k))" for v k using membership_of_labels [OF m, of v k] by auto
  with assms show ?thesis unfolding labelled_def by blast
qed

lemma labelled_block:
  assumes "labelled nodes cs m"
  shows "v \<in> set nodes \<Longrightarrow> block m v < length cs \<and> v \<in> set (Members (cs ! block m v))"
    and "k < length cs \<Longrightarrow> v \<in> set (Members (cs ! k)) \<Longrightarrow> block m v = k \<and> v \<in> set nodes"
proof -
  assume "v \<in> set nodes"
  then have "v \<in> set (concat (map Members cs))" using assms by (metis labelled_def)
  then obtain c where "c \<in> set cs" "v \<in> set (Members c)" by auto
  then obtain k where "k < length cs" "v \<in> set (Members (cs ! k))" by (auto simp: in_set_conv_nth)
  moreover from this have "m v = Some k" using assms by (simp add: labelled_def)
  ultimately show "block m v < length cs \<and> v \<in> set (Members (cs ! block m v))" by (simp add: block_def)
next
  assume k: "k < length cs" "v \<in> set (Members (cs ! k))"
  then have "m v = Some k" using assms by (simp add: labelled_def)
  moreover have "set (Members (cs ! k)) \<subseteq> set nodes" using assms k(1) nth_mem [of k cs] by (auto simp: labelled_def)
  ultimately show "block m v = k \<and> v \<in> set nodes" using k(2) by (auto simp: block_def)
qed

section \<open>Blocks\<close>

definition arrows :: "Edge list \<Rightarrow> bool \<Rightarrow> bool \<Rightarrow> (string \<times> string) set" where
  "arrows edges forward backward = (if forward then calls edges else {}) \<union> (if backward then (calls edges)\<inverse> else {})"

lemma block_neighbours_arrows: "w \<in> set (block_neighbours edges forward backward v) \<longleftrightarrow> (v, w) \<in> arrows edges forward backward"
  by (auto simp: set_block_neighbours arrows_def calls_def)

lemma connect_reaches:
  assumes "set q \<subseteq> seen" and "\<forall>v \<in> seen - set q. {(a, c) \<in> arrows edges forward backward. block m c = i} `` {v} \<subseteq> seen"
  shows "connect edges forward backward m i q seen = {(a, c) \<in> arrows edges forward backward. block m c = i}\<^sup>* `` seen"
  using assms
proof (induction edges forward backward m i q seen rule: connect.induct)
  case (1 edges forward backward m i seen)
  then have "{(a, c) \<in> arrows edges forward backward. block m c = i} `` seen \<subseteq> seen" by auto
  then show ?case by (simp add: Image_closed_trancl)
next
  case (2 edges forward backward m i v q seen)
  let ?D = "{(a, c) \<in> arrows edges forward backward. block m c = i}"
  obtain seen' new where s: "visit_block m i (block_neighbours edges forward backward v) seen [] = (seen', new)" by fastforce
  then have new: "set new = ?D `` {v} - seen" "seen' = seen \<union> set new"
    using visit_block_new [OF s] block_neighbours_arrows [of _ edges forward backward v] by auto
  have IH: "connect edges forward backward m i (q @ new) seen' = ?D\<^sup>* `` seen'"
  proof (rule "2.IH" [OF s [symmetric]])
    show "set (q @ new) \<subseteq> seen'" using "2.prems"(1) new by auto
    show "\<forall>u \<in> seen' - set (q @ new). ?D `` {u} \<subseteq> seen'"
    proof
      fix u assume "u \<in> seen' - set (q @ new)"
      then have u: "u \<in> seen" "u \<notin> set q" using new by auto
      show "?D `` {u} \<subseteq> seen'"
      proof (cases "u = v")
        case True
        then show ?thesis using new by blast
      next
        case False
        then have "?D `` {u} \<subseteq> seen" using "2.prems"(2) u by auto
        then show ?thesis using new by blast
      qed
    qed
  qed
  have "seen' \<subseteq> ?D\<^sup>* `` seen" using new "2.prems"(1) by auto
  then have "?D\<^sup>* `` seen' \<subseteq> ?D\<^sup>* `` seen" by (metis (no_types, lifting) Image_mono order_refl relcomp_Image rtrancl_idemp_self_comp)
  moreover have "?D\<^sup>* `` seen \<subseteq> ?D\<^sup>* `` seen'" using new(2) by auto
  ultimately show ?case using IH s by (simp add: connect.simps)
qed

text \<open>A pass over a block succeeds when it reaches the whole block from its first member.\<close>

definition spans :: "Edge list \<Rightarrow> bool \<Rightarrow> bool \<Rightarrow> string set \<Rightarrow> string \<Rightarrow> bool" where
  "spans edges forward backward B s \<longleftrightarrow> {(a, c) \<in> arrows edges forward backward. c \<in> B}\<^sup>* `` {s} = B"

lemma reach_spans:
  assumes l: "labelled nodes cs m" and e: "endpoints edges \<subseteq> set nodes" and i: "i < length cs" and s: "s \<in> set (Members (cs ! i))"
  shows "card (connect edges forward backward m i [s] {s}) = length (Members (cs ! i)) \<longleftrightarrow> spans edges forward backward (set (Members (cs ! i))) s"
proof -
  let ?B = "set (Members (cs ! i))" and ?A = "arrows edges forward backward"
  have "{(a, c) \<in> ?A. block m c = i} = {(a, c) \<in> ?A. c \<in> ?B}"
  proof -
    have "block m c = i \<longleftrightarrow> c \<in> ?B" if "(a, c) \<in> ?A" for a c
    proof -
      have "c \<in> set nodes" using that e by (auto simp: arrows_def calls_def split: if_splits)
      then show ?thesis using labelled_block [OF l] i by metis
    qed
    then show ?thesis by auto
  qed
  then have c: "connect edges forward backward m i [s] {s} = {(a, c) \<in> ?A. c \<in> ?B}\<^sup>* `` {s}" using connect_reaches [of "[s]" "{s}"] by simp
  have sub: "{(a, c) \<in> ?A. c \<in> ?B}\<^sup>* `` {s} \<subseteq> ?B"
  proof
    fix x assume "x \<in> {(a, c) \<in> ?A. c \<in> ?B}\<^sup>* `` {s}"
    then have "(s, x) \<in> {(a, c) \<in> ?A. c \<in> ?B}\<^sup>*" by simp
    then show "x \<in> ?B" by induction (use s in auto)
  qed
  have "distinct (Members (cs ! i))" using l i nth_mem [of i cs] by (auto simp: labelled_def distinct_concat_iff)
  then have "card ?B = length (Members (cs ! i))" by (rule distinct_card)
  then show ?thesis unfolding c spans_def using card_subset_eq [OF _ sub] by auto
qed

lemma all_connected_nth: "all_connected edges strong m i cs \<longleftrightarrow> (\<forall>j < length cs. connected edges strong m (i + j) (cs ! j))"
  by (induction cs arbitrary: i) (auto simp: less_Suc_eq_0_disj)

lemma all_connected_spans:
  assumes l: "labelled nodes cs m" and e: "endpoints edges \<subseteq> set nodes"
  shows "all_connected edges strong m 0 cs \<longleftrightarrow> (\<forall>c \<in> set cs. if strong
    then spans edges True False (set (Members c)) (hd (Members c)) \<and> spans edges False True (set (Members c)) (hd (Members c))
    else spans edges True True (set (Members c)) (hd (Members c)))"
proof -
  have hd: "hd (Members (cs ! j)) \<in> set (Members (cs ! j))" if "j < length cs" for j using l that nth_mem [of j cs] by (simp add: labelled_def)
  have "connected edges strong m j (cs ! j) \<longleftrightarrow> (if strong
    then spans edges True False (set (Members (cs ! j))) (hd (Members (cs ! j))) \<and> spans edges False True (set (Members (cs ! j))) (hd (Members (cs ! j)))
    else spans edges True True (set (Members (cs ! j))) (hd (Members (cs ! j))))" if "j < length cs" for j
    using reach_spans [OF l e that hd [OF that]] by (simp add: connected_def Let_def)
  then show ?thesis unfolding all_connected_nth all_set_conv_all_nth by auto
qed

section \<open>The quotient\<close>

definition arcs :: "(string \<rightharpoonup> nat) \<Rightarrow> Edge list \<Rightarrow> (nat \<times> nat) list" where
  "arcs m edges = map (\<lambda>e. (block m (Caller e), block m (Callee e))) (filter (cross m) edges)"

lemma quotient_targets: "quotient m edges = targets (arcs m edges)"
  by (rule ext) (simp add: quotient_def targets_def arcs_def filter_map o_def conj_commute)

lemma degrees_arcs: "degrees m edges n = map (\<lambda>b. int (arcs_into (arcs m edges) {} b)) [0..<n]"
  by (simp add: degrees_def arcs_into_def arcs_def filter_map o_def conj_commute)

lemma topological_acyclic:
  assumes l: "labelled nodes cs m" and e: "endpoints edges \<subseteq> set nodes" and d: "degree = degrees m edges (length cs)"
  shows "length (topological (quotient m edges) [] (filter (\<lambda>i. degree ! i = 0) [0..<length cs]) degree) = length cs \<longleftrightarrow>
    acyclic (set (arcs m edges))"
proof -
  let ?n = "length cs" and ?q = "filter (\<lambda>i. degree ! i = 0) [0..<length cs]" and ?qs = "arcs m edges"
  have in_cs: "block m v < ?n" if "v \<in> endpoints edges" for v using labelled_block(1) [OF l] e that by blast
  then have qs: "fst ` set ?qs \<subseteq> {..<?n}" "snd ` set ?qs \<subseteq> {..<?n}" by (auto simp: arcs_def)
  have "kahn ?qs ?n [] ?q degree"
  proof -
    have "a \<in> set (take k [])" if k: "k < length ?q" "(a, ?q ! k) \<in> set ?qs" for k a
    proof -
      have "?q ! k \<in> set ?q" using k(1) by (rule nth_mem)
      then have "arcs_into ?qs {} (?q ! k) = 0" by (auto simp: d degrees_arcs)
      with k(2) show ?thesis by (auto simp: arcs_into_zero)
    qed
    then show ?thesis unfolding kahn_def by (auto simp: d degrees_arcs)
  qed
  from kahn_loop [OF this qs(2)] obtain degree' where "kahn ?qs ?n (topological (targets ?qs) [] ?q degree) [] degree'" by blast
  then show ?thesis unfolding quotient_targets using kahn_all_acyclic [OF _ _ qs] acyclic_kahn_all [OF _ _ qs(1)] by blast
qed

lemma calls_arcs: "(u, v) \<in> (calls edges)\<^sup>* \<Longrightarrow> (block m u, block m v) \<in> (set (arcs m edges))\<^sup>*"
proof (induction rule: rtrancl_induct)
  case (step y z)
  then have "block m y = block m z \<or> (block m y, block m z) \<in> set (arcs m edges)"
    by (auto simp: calls_def arcs_def cross_def)
  with step.IH show ?case by (auto intro: rtrancl_into_rtrancl)
qed simp

text \<open>When every block lies in one class of mutual reachability, a path of the quotient lifts to a path of calls.\<close>

lemma arcs_lift:
  assumes "(x, y) \<in> (set (arcs m edges))\<^sup>*" and "\<And>u v. u \<in> B (block m u) \<Longrightarrow> v \<in> B (block m u) \<Longrightarrow> (u, v) \<in> (calls edges)\<^sup>*"
    and "\<And>v. v \<in> endpoints edges \<Longrightarrow> v \<in> B (block m v)" and "\<And>k v. v \<in> B k \<Longrightarrow> block m v = k"
    and u: "u \<in> B x" and v: "v \<in> B y"
  shows "(u, v) \<in> (calls edges)\<^sup>*"
  using assms(1) v
proof (induction arbitrary: v rule: rtrancl_induct)
  case base
  then show ?case using assms(2) [of u v] assms(4) [OF u] u by simp
next
  case (step y z)
  then obtain e where e: "e \<in> set edges" "y = block m (Caller e)" "z = block m (Callee e)" by (auto simp: arcs_def)
  then have "(u, Caller e) \<in> (calls edges)\<^sup>*" using step.IH assms(3) by simp
  moreover have "(Caller e, Callee e) \<in> calls edges" using e by (auto simp: calls_def)
  moreover have "(Callee e, v) \<in> (calls edges)\<^sup>*" using assms(2) [of "Callee e" v] assms(3) [of "Callee e"] e step.prems by simp
  ultimately show ?case by (meson rtrancl_trans rtrancl_into_rtrancl)
qed

lemma spans_reaches:
  assumes "spans edges forward backward B s" and "v \<in> B"
  shows "(s, v) \<in> (arrows edges forward backward)\<^sup>*"
proof -
  have "(s, v) \<in> {(a, c) \<in> arrows edges forward backward. c \<in> B}\<^sup>*" using assms by (auto simp: spans_def)
  then show ?thesis by (rule rtrancl_mono [THEN subsetD, rotated]) auto
qed

lemma spans_class:
  assumes "B = mutual (arrows edges forward backward) `` {s}"
  shows "spans edges forward backward B s"
proof -
  let ?A = "arrows edges forward backward"
  have "(s, v) \<in> {(a, c) \<in> ?A. c \<in> B}\<^sup>* \<Longrightarrow> v \<in> B" for v by (induction rule: rtrancl_induct) (auto simp: assms mutual_def)
  moreover have "(s, v) \<in> {(a, c) \<in> ?A. c \<in> B}\<^sup>*" if "v \<in> B" for v using inside_class [of s v ?A] that by (simp add: assms mutual_def)
  ultimately show ?thesis unfolding spans_def by blast
qed

lemma class_at: "equiv UNIV C \<Longrightarrow> s \<in> C `` {v} \<Longrightarrow> C `` {v} = C `` {s}"
  by (simp add: equiv_class_eq)

lemma class_members:
  assumes "equiv UNIV C" and "\<forall>c \<in> set cs. \<exists>v \<in> set (Members c). set (Members c) = C `` {v}" and "c \<in> set cs" and "s \<in> set (Members c)"
  shows "set (Members c) = C `` {s}"
proof -
  obtain v where v: "set (Members c) = C `` {v}" using assms(2,3) by blast
  then show ?thesis using class_at [OF assms(1), of s v] assms(4) by simp
qed

lemma classes_acyclic:
  assumes l: "labelled nodes cs m" and e: "endpoints edges \<subseteq> set nodes"
    and r: "\<forall>c \<in> set cs. \<exists>v \<in> set (Members c). set (Members c) = mutual (calls edges) `` {v}"
  shows "acyclic (set (arcs m edges))"
  unfolding acyclic_def
proof (intro allI notI)
  fix a assume "(a, a) \<in> (set (arcs m edges))\<^sup>+"
  then obtain c where c: "(a, c) \<in> set (arcs m edges)" "(c, a) \<in> (set (arcs m edges))\<^sup>*" by (meson tranclD)
  then obtain x where x: "x \<in> set edges" "cross m x" "a = block m (Caller x)" "c = block m (Callee x)" by (auto simp: arcs_def)
  let ?B = "\<lambda>k. if k < length cs then set (Members (cs ! k)) else {}"
  have in_B: "v \<in> ?B (block m v)" if "v \<in> endpoints edges" for v using labelled_block(1) [OF l, of v] that e by auto
  have "(Callee x, Caller x) \<in> (calls edges)\<^sup>*"
  proof (rule arcs_lift [OF c(2), of ?B])
    fix u v assume u: "u \<in> ?B (block m u)" "v \<in> ?B (block m u)"
    then have k: "block m u < length cs" by (auto split: if_splits)
    then have "set (Members (cs ! block m u)) = mutual (calls edges) `` {u}" using u class_members [OF mutual_equiv r, of "cs ! block m u" u] by simp
    then show "(u, v) \<in> (calls edges)\<^sup>*" using u k by (simp add: mutual_def)
  next
    show "v \<in> ?B (block m v)" if "v \<in> endpoints edges" for v using that by (rule in_B)
    show "block m v = k" if "v \<in> ?B k" for k v using that labelled_block(2) [OF l] by (auto split: if_splits)
    show "Callee x \<in> ?B c" "Caller x \<in> ?B a" using in_B [of "Callee x"] in_B [of "Caller x"] x by (auto split: if_splits)
  qed
  moreover have "(Caller x, Callee x) \<in> calls edges" using x(1) by (auto simp: calls_def)
  ultimately have "(Caller x, Callee x) \<in> mutual (calls edges)" by (auto simp: mutual_def)
  moreover have k: "block m (Caller x) < length cs" "Caller x \<in> set (Members (cs ! block m (Caller x)))"
    using labelled_block(1) [OF l, of "Caller x"] e x(1) by auto
  ultimately have "Callee x \<in> set (Members (cs ! block m (Caller x)))" using class_members [OF mutual_equiv r, of "cs ! block m (Caller x)" "Caller x"] by simp
  then have "block m (Callee x) = block m (Caller x)" using labelled_block(2) [OF l k(1)] by blast
  then show False using x(2) by (simp add: cross_def)
qed

lemma strong_classes:
  assumes l: "labelled nodes cs m" and e: "endpoints edges \<subseteq> set nodes"
  shows "(\<forall>c \<in> set cs. spans edges True False (set (Members c)) (hd (Members c)) \<and> spans edges False True (set (Members c)) (hd (Members c))) \<and>
      acyclic (set (arcs m edges)) \<longleftrightarrow> (\<forall>c \<in> set cs. \<exists>v \<in> set (Members c). set (Members c) = mutual (calls edges) `` {v})" (is "?l \<longleftrightarrow> ?r")
proof
  let ?R = "calls edges"
  assume l2: ?l
  show ?r
  proof
    fix c assume c: "c \<in> set cs"
    then obtain i where i: "i < length cs" "c = cs ! i" by (auto simp: in_set_conv_nth)
    let ?s = "hd (Members c)"
    have s: "?s \<in> set (Members c)" using l c by (simp add: labelled_def)
    have "(?s, v) \<in> mutual ?R" if "v \<in> set (Members c)" for v
    proof -
      have "(?s, v) \<in> (arrows edges True False)\<^sup>*" "(?s, v) \<in> (arrows edges False True)\<^sup>*" using l2 c that by (auto intro: spans_reaches)
      then show ?thesis by (simp add: arrows_def mutual_def rtrancl_converse)
    qed
    moreover have "v \<in> set (Members c)" if v: "(?s, v) \<in> mutual ?R" for v
    proof -
      have "?s \<in> set nodes" "block m ?s = i" using labelled_block(2) [OF l i(1)] s i(2) by auto
      then have "v \<in> set nodes" using class_of_nodes [OF e, of ?s v "''STRONG''"] v by (simp add: class_of_def)
      have "(block m ?s, block m v) \<in> (set (arcs m edges))\<^sup>*" "(block m v, block m ?s) \<in> (set (arcs m edges))\<^sup>*"
        using v calls_arcs by (auto simp: mutual_def)
      moreover have "antisym ((set (arcs m edges))\<^sup>*)" using l2 by (simp add: acyclic_impl_antisym_rtrancl)
      ultimately have "block m v = block m ?s" by (blast dest: antisymD)
      then show ?thesis using labelled_block(1) [OF l \<open>v \<in> set nodes\<close>] \<open>block m ?s = i\<close> i(2) by simp
    qed
    ultimately show "\<exists>v \<in> set (Members c). set (Members c) = mutual ?R `` {v}" using s by blast
  qed
next
  let ?R = "calls edges"
  assume r: ?r
  have "spans edges True False (set (Members c)) (hd (Members c)) \<and> spans edges False True (set (Members c)) (hd (Members c))" if c: "c \<in> set cs" for c
  proof -
    have "hd (Members c) \<in> set (Members c)" using l c by (simp add: labelled_def)
    from class_members [OF mutual_equiv r c this] show ?thesis
      by (intro conjI spans_class) (simp_all add: arrows_def mutual_converse)
  qed
  moreover have "acyclic (set (arcs m edges))" using classes_acyclic [OF l e r] .
  ultimately show ?l by blast
qed

lemma undirected_class: "mutual (arrows edges True True) = undirected (calls edges)"
proof -
  have "arrows edges True True = calls edges \<union> (calls edges)\<inverse>" by (simp add: arrows_def)
  moreover have "(v, u) \<in> undirected (calls edges)" if "(u, v) \<in> undirected (calls edges)" for u v
    using undirected_equiv [of "calls edges"] that by (auto elim!: equivE dest: symD)
  ultimately show ?thesis by (auto simp: mutual_def undirected_def)
qed

lemma weak_classes:
  assumes l: "labelled nodes cs m" and e: "endpoints edges \<subseteq> set nodes"
  shows "(\<forall>c \<in> set cs. spans edges True True (set (Members c)) (hd (Members c))) \<and> (\<forall>x \<in> set edges. \<not> cross m x) \<longleftrightarrow>
      (\<forall>c \<in> set cs. \<exists>v \<in> set (Members c). set (Members c) = undirected (calls edges) `` {v})" (is "?l \<longleftrightarrow> ?r")
proof
  assume l2: ?l
  show ?r
  proof
    fix c assume c: "c \<in> set cs"
    then obtain i where i: "i < length cs" "c = cs ! i" by (auto simp: in_set_conv_nth)
    let ?s = "hd (Members c)"
    have s: "?s \<in> set (Members c)" using l c by (simp add: labelled_def)
    have "(?s, v) \<in> undirected (calls edges)" if "v \<in> set (Members c)" for v
      using l2 c that spans_reaches [of edges True True "set (Members c)" ?s v] by (simp add: arrows_def undirected_def)
    moreover have "v \<in> set (Members c)" if "(?s, v) \<in> undirected (calls edges)" for v
      using that unfolding undirected_def
    proof induction
      case (step y z)
      have "z \<in> set nodes" using step(2) e by (auto simp: calls_def)
      moreover have "block m z = block m y" using step(2) l2 by (auto simp: calls_def cross_def)
      moreover have "block m y = i" using labelled_block(2) [OF l i(1)] step.IH i(2) by blast
      ultimately show ?case using labelled_block(1) [OF l] i(2) by metis
    qed (rule s)
    ultimately show "\<exists>v \<in> set (Members c). set (Members c) = undirected (calls edges) `` {v}" using s by blast
  qed
next
  assume r: ?r
  have "spans edges True True (set (Members c)) (hd (Members c))" if c: "c \<in> set cs" for c
  proof -
    have "hd (Members c) \<in> set (Members c)" using l c by (simp add: labelled_def)
    from class_members [OF undirected_equiv r c this] show ?thesis by (intro spans_class) (simp add: undirected_class)
  qed
  moreover have "\<not> cross m x" if x: "x \<in> set edges" for x
  proof -
    have k: "block m (Caller x) < length cs" "Caller x \<in> set (Members (cs ! block m (Caller x)))"
      using labelled_block(1) [OF l, of "Caller x"] e x by auto
    have "(Caller x, Callee x) \<in> undirected (calls edges)" using x by (auto simp: undirected_def calls_def)
    then have "Callee x \<in> set (Members (cs ! block m (Caller x)))"
      using class_members [OF undirected_equiv r _ k(2)] k(1) by simp
    then show ?thesis using labelled_block(2) [OF l k(1)] by (simp add: cross_def)
  qed
  ultimately show ?l by blast
qed

section \<open>The whole check\<close>

lemma prove_partition_accepts:
  "prove_partition nodes edges mode cs = Inr () \<longleftrightarrow> (\<exists>m. membership_of 0 cs Map.empty = Inr m \<and>
     length (concat (map Members cs)) = length nodes \<and> (\<forall>v \<in> set nodes. m v \<noteq> None) \<and> all_connected edges (mode = ''STRONG'') m 0 cs \<and>
     (mode = ''WEAK'' \<longrightarrow> (\<forall>x \<in> set edges. \<not> cross m x)) \<and>
     length (topological (quotient m edges) [] (filter (\<lambda>i. degrees m edges (length cs) ! i = 0) [0..<length cs]) (degrees m edges (length cs))) = length cs)"
  by (cases "membership_of 0 cs Map.empty") (auto simp: prove_partition_def Let_def)

lemma prove_partition_exact:
  assumes "distinct nodes" and "endpoints edges \<subseteq> set nodes" and "mode \<in> {''STRONG'', ''WEAK''}"
  shows "prove_partition nodes edges mode cs = Inr () \<longleftrightarrow> partitions (class_of mode edges) nodes cs"
proof -
  have "prove_partition nodes edges mode cs = Inr () \<longleftrightarrow> (\<exists>m. labelled nodes cs m \<and> all_connected edges (mode = ''STRONG'') m 0 cs \<and>
     (mode = ''WEAK'' \<longrightarrow> (\<forall>x \<in> set edges. \<not> cross m x)) \<and>
     length (topological (quotient m edges) [] (filter (\<lambda>i. degrees m edges (length cs) ! i = 0) [0..<length cs]) (degrees m edges (length cs))) = length cs)"
    unfolding prove_partition_accepts labelled_iff [OF assms(1), symmetric] by (simp only: conj_assoc)
  also have "\<dots> \<longleftrightarrow> (\<exists>m. labelled nodes cs m \<and> all_connected edges (mode = ''STRONG'') m 0 cs \<and>
     (mode = ''WEAK'' \<longrightarrow> (\<forall>x \<in> set edges. \<not> cross m x)) \<and> acyclic (set (arcs m edges)))"
    using topological_acyclic [OF _ assms(2) refl] by blast
  also have "\<dots> \<longleftrightarrow> (\<exists>m. labelled nodes cs m \<and> (\<forall>c \<in> set cs. \<exists>v \<in> set (Members c). set (Members c) = class_of mode edges `` {v}))"
  proof (rule ex_cong1, rule conj_cong [OF refl])
    fix m assume l: "labelled nodes cs m"
    show "all_connected edges (mode = ''STRONG'') m 0 cs \<and> (mode = ''WEAK'' \<longrightarrow> (\<forall>x \<in> set edges. \<not> cross m x)) \<and> acyclic (set (arcs m edges)) \<longleftrightarrow>
      (\<forall>c \<in> set cs. \<exists>v \<in> set (Members c). set (Members c) = class_of mode edges `` {v})"
    proof (cases "mode = ''STRONG''")
      case True
      then show ?thesis using strong_classes [OF l assms(2)] unfolding all_connected_spans [OF l assms(2)] by (simp add: class_of_def)
    next
      case False
      then have mode: "mode = ''WEAK''" using assms(3) by simp
      have "acyclic (set (arcs m edges))" if "\<forall>x \<in> set edges. \<not> cross m x"
      proof -
        have "arcs m edges = []" using that by (simp add: arcs_def filter_empty_conv)
        then show ?thesis by (simp add: acyclic_def)
      qed
      then show ?thesis using weak_classes [OF l assms(2)] mode unfolding all_connected_spans [OF l assms(2)] by (auto simp: class_of_def)
    qed
  qed
  also have "\<dots> \<longleftrightarrow> partitions (class_of mode edges) nodes cs"
  proof -
    have "\<exists>m. labelled nodes cs m" if p: "partitions (class_of mode edges) nodes cs"
      using p by (intro labelled_exists) (force simp: partitions_def)+
    then show ?thesis unfolding partitions_def labelled_def by blast
  qed
  finally show ?thesis .
qed

end
