(* ===== verification/Component_Properties.thy ===== *)
theory Component_Properties
  imports Component_Work Partition_Check
begin

text \<open>
  The properties of the bounded analysis: what a completed run answers, what its check accepts, that the
  check accepts every completed run, and that the default budget is enough for every admitted input.
\<close>

text \<open>
  What admission gives: end point identifiers are distinct, groups connect end points, and both tables are
  within the limits.
\<close>

definition admitted :: "Tables \<Rightarrow> bool" where
  "admitted t \<longleftrightarrow> distinct (Endpoints t) \<and>
     (\<forall>g \<in> set (Groups t). g_CallerNodeID g \<in> set (Endpoints t) \<and> g_CalleeNodeID g \<in> set (Endpoints t)) \<and>
     length (Endpoints t) \<le> MaxNodesLimit \<and> length (Groups t) \<le> MaxEdgesLimit"

lemma admitted_project:
  assumes "admitted t" and "project basis t p = Inr e"
  shows "distinct (EvNodes e)" "endpoints (EvEdges e) \<subseteq> set (EvNodes e)"
    "length (EvNodes e) \<le> MaxNodesLimit" "length (EvEdges e) \<le> MaxEdgesLimit"
  using assms(1) project_edges [OF assms(2)] by (auto simp: admitted_def)

lemma run_components_partition:
  assumes "normalize p0 = Inr p" and op: "Operation p = ''COMPONENTS''" and "admitted t" and pr: "project basis t p = Inr e"
    and "run cancelled sha e = Some (Inr e')" and "EvStatus e' = ''COMPLETE''"
  shows "e' = e\<lparr>Components := Components e'\<rparr> \<and> partitions (class_of (Mode p) (EvEdges e)) (EvNodes e) (Components e') \<and>
    (\<forall>c \<in> set (Components e'). sorted (Members c)) \<and> sorted (map (\<lambda>c. hd (Members c)) (Components e'))"
proof -
  have p: "EvParameters e = p" "Components e = []" using project_edges [OF pr] by simp_all
  obtain cs b where c: "components cancelled sha e (fst (Indexes (EvEdges e))) (snd (Indexes (EvEdges e)))
      \<lparr>polls = 1, left = nat (MaxWork (EvParameters e)), reason = ''''\<rparr> = (cs, b)" "reason b = ''''" "e' = e\<lparr>Components := cs\<rparr>"
    using run_components_complete [of e cancelled sha e'] assms(5,6) op p by metis
  from components_partition [OF c(1) _ c(2) p(2) admitted_project(2) [OF assms(3) pr]] normalize_components(1) [OF assms(1) op] c(3) p
  show ?thesis by simp
qed

lemma run_completes:
  assumes "normalize p0 = Inr p" and "MaxWork p0 = 0" and ad: "admitted t" and pr: "project basis t p = Inr e"
  shows "\<exists>e'. run never sha e = Some (Inr e') \<and> EvStatus e' \<noteq> ''INCOMPLETE''"
proof -
  have p: "EvParameters e = p" "EvStatus e = ''COMPLETE''" using project_edges [OF pr] by simp_all
  have w: "MaxWork p = 1000000" using assms(1,2) by (auto simp: normalize_def MaxWorkLimit_def Let_def split: if_splits)
  have size: "length (EvNodes e) \<le> 4096" "length (EvEdges e) \<le> 8192"
    using admitted_project(3,4) [OF ad pr] by (simp_all add: MaxNodesLimit_def MaxEdgesLimit_def)
  have "Operation p \<in> {''PROJECT'', ''PATH'', ''COMPONENTS''}" using assms(1) by (auto simp: normalize_def Let_def split: if_splits)
  then consider (project) "Operation p = ''PROJECT''" | (path) "Operation p = ''PATH''" | (components) "Operation p = ''COMPONENTS''" by blast
  then show ?thesis
  proof cases
    case project
    let ?b = "\<lparr>polls = 1, left = nat (MaxWork p), reason = ''''\<rparr>"
    have "length (EvNodes e) + length (EvEdges e) \<le> left ?b" using size w by simp
    from tick_all_works [OF this] have 1: "length (EvEdges e) \<le> left (tick_all never (EvNodes e) ?b)" "reason (tick_all never (EvNodes e) ?b) = ''''" by simp_all
    with tick_all_works [of "EvEdges e" 0 "tick_all never (EvNodes e) ?b"]
    have "reason (tick_all never (EvEdges e) (tick_all never (EvNodes e) ?b)) = ''''" by simp
    with 1 project p show ?thesis by (simp add: run_def spent_def split: prod.split)
  next
    case path
    let ?b = "\<lparr>Polls = 0, Left = MaxWork p, BudgetReason = ''''\<rparr>"
    have ends: "PStart p \<in> set (EvNodes e)" "PEnd p \<in> set (EvNodes e)" using pr path by (auto simp: project_def Let_def split: if_splits)
    from Search_answer [OF ends] obtain r b' where s: "Search never (EvNodes e) (EvEdges e) (PStart p) (PEnd p) ?b = Some (Inr (r, b'))"
      "Status r = ''INCOMPLETE'' \<longleftrightarrow> BudgetReason b' \<noteq> ''''" by blast
    have "BudgetReason b' = ''''" by (rule Search_no_stop [OF ends _ _ _ s(1)]) (use size w in simp_all)
    with s path p show ?thesis by (simp add: run_def)
  next
    case components
    let ?b = "\<lparr>polls = 1, left = nat (MaxWork p), reason = ''''\<rparr>"
    obtain cs b' where c: "components never sha e (fst (Indexes (EvEdges e))) (snd (Indexes (EvEdges e))) ?b = (cs, b')" by fastforce
    have "reason b' = ''''" using components_completes [OF admitted_project(2) [OF ad pr], of ?b sha] size w c by simp
    with run_components [of e never sha cs b'] components c p show ?thesis by (simp add: spent_def)
  qed
qed

lemma run_accepted:
  assumes "normalize p0 = Inr p" and ad: "admitted t" and pr: "project basis t p = Inr e"
    and r: "run cancelled sha e = Some (Inr e')" and "EvStatus e' \<noteq> ''INCOMPLETE''"
  shows "prove_evidence e' = Inr ()"
proof -
  have p: "EvParameters e = p" "EvStatus e = ''COMPLETE''" using project_edges [OF pr] by simp_all
  have "Operation p \<in> {''PROJECT'', ''PATH'', ''COMPONENTS''}" using assms(1) by (auto simp: normalize_def Let_def split: if_splits)
  then consider (project) "Operation p = ''PROJECT''" | (path) "Operation p = ''PATH''" | (components) "Operation p = ''COMPONENTS''" by blast
  then show ?thesis
  proof cases
    case project
    then have "EvParameters e' = p" using r p by (auto simp: run_def spent_def Let_def split: if_splits prod.splits)
    with project show ?thesis by (simp add: prove_evidence_def)
  next
    case path
    let ?b = "\<lparr>Polls = 0, Left = MaxWork p, BudgetReason = ''''\<rparr>"
    have ends: "PStart p \<in> set (EvNodes e)" "PEnd p \<in> set (EvNodes e)" using pr path by (auto simp: project_def Let_def split: if_splits)
    from Search_answer [OF ends] obtain s b' where s: "Search cancelled (EvNodes e) (EvEdges e) (PStart p) (PEnd p) ?b = Some (Inr (s, b'))"
      "search_answer (EvEdges e) (PStart p) (PEnd p) s" by blast
    with r path p have e': "e' = e\<lparr>EvStatus := Status s, EvReason := Reason s, EvPath := ResultPath s\<rparr>" by (simp add: run_def)
    with search_answer_accepted [OF s(2)] assms(5) path p show ?thesis by (simp add: prove_evidence_def)
  next
    case components
    have "EvStatus e' = ''COMPLETE''" using r p assms(5) components by (auto simp: run_def spent_def Let_def split: if_splits prod.splits)
    from run_components_partition [OF assms(1) components ad pr r this]
    have e': "e' = e\<lparr>Components := Components e'\<rparr>" and "partitions (class_of (Mode p) (EvEdges e)) (EvNodes e) (Components e')" by simp_all
    moreover have "EvParameters e' = p" "EvNodes e' = EvNodes e" "EvEdges e' = EvEdges e"
      using arg_cong [OF e', of EvParameters] arg_cong [OF e', of EvNodes] arg_cong [OF e', of EvEdges] p by simp_all
    ultimately show ?thesis
      using prove_partition_exact [OF admitted_project(1,2) [OF ad pr] normalize_components(1) [OF assms(1) components]] components
      by (simp add: prove_evidence_def)
  qed
qed

section \<open>Properties\<close>
text \<open>A cycle of two nodes that calls a third, used as the concrete instance of the properties.\<close>

definition sample_group :: "string \<Rightarrow> string \<Rightarrow> string \<Rightarrow> Group" where
  "sample_group g u v = \<lparr>g_ContextID = ''x'', g_RelationID = g, g_ExecutionBundleID = ''b'', g_CallerNodeID = u, g_CalleeNodeID = v,
     g_CallsiteState = ''EXACT'', g_OccurrenceIDs = [g]\<rparr>"

definition sample_tables :: Tables where
  "sample_tables = \<lparr>Endpoints = [''c'', ''a'', ''b''],
     Groups = [sample_group ''g3'' ''b'' ''c'', sample_group ''g1'' ''a'' ''b'', sample_group ''g2'' ''b'' ''a''],
     Occurrences = [''g1'', ''g2'', ''g3'']\<rparr>"

definition sample_parameters :: Parameters where
  "sample_parameters = \<lparr>Operation = ''COMPONENTS'', PStart = '''', PEnd = '''', Mode = ''STRONG'', MaxWork = 1000000\<rparr>"

definition sample_evidence :: Evidence where
  "sample_evidence = \<lparr>BasisDigest = ''d'', EvParameters = sample_parameters, EvNodes = [''a'', ''b'', ''c''],
     EvEdges = map project_edge [sample_group ''g1'' ''a'' ''b'', sample_group ''g2'' ''b'' ''a'', sample_group ''g3'' ''b'' ''c''],
     EvStatus = ''COMPLETE'', EvReason = '''', EvPath = emptyPath, Components = []\<rparr>"

definition sample_components :: "Component list" where
  "sample_components = map (\<lambda>vs. \<lparr>CompID = component_id (\<lambda>_. ''0'') ''d'' ''STRONG'' vs, Members = vs\<rparr>) [[''a'', ''b''], [''c'']]"

lemma sample_normalize: "normalize (sample_parameters\<lparr>MaxWork := 0\<rparr>) = Inr sample_parameters"
  by (simp add: normalize_def sample_parameters_def MaxWorkLimit_def Let_def)

lemma sample_admitted: "admitted sample_tables"
  by (simp add: admitted_def sample_tables_def sample_group_def MaxNodesLimit_def MaxEdgesLimit_def)

lemma sample_project: "project ''d'' sample_tables sample_parameters = Inr sample_evidence"
  by code_simp


lemma sample_prove: "prove_partition (EvNodes sample_evidence) (EvEdges sample_evidence) ''STRONG'' sample_components = Inr ()"
  by code_simp

lemma sample_completes: "\<exists>e'. run never (\<lambda>_. ''0'') sample_evidence = Some (Inr e') \<and> EvStatus e' = ''COMPLETE''"
proof -
  obtain e' where r: "run never (\<lambda>_. ''0'') sample_evidence = Some (Inr e')" "EvStatus e' \<noteq> ''INCOMPLETE''"
    using run_completes [OF sample_normalize _ sample_admitted sample_project] by auto
  then have "EvStatus e' = ''COMPLETE''"
    by (auto simp: run_def spent_def Let_def sample_evidence_def sample_parameters_def split: if_splits prod.splits)
  with r show ?thesis by blast
qed

text \<open>
  C12: a completed search for components answers with the components. Of the projected graph they are the
  classes of mutual reachability in mode STRONG and those of reachability ignoring direction in mode
  WEAK; every node is in exactly one, members are in order, components are in the order of their first member,
  and nothing else of the evidence changes.
\<close>

theorem run_components_correct:
  assumes "normalize p0 = Inr p" and "Operation p = ''COMPONENTS''" and "admitted t" and "project basis t p = Inr e"
    and "run cancelled sha e = Some (Inr e')" and "EvStatus e' = ''COMPLETE''"
  shows "e' = e\<lparr>Components := Components e'\<rparr> \<and> partitions (class_of (Mode p) (EvEdges e)) (EvNodes e) (Components e') \<and>
    (\<forall>c \<in> set (Components e'). sorted (Members c)) \<and> sorted (map (\<lambda>c. hd (Members c)) (Components e'))"
  using assms by (rule run_components_partition)

theorem run_components_correct_witness:
  "\<exists>e'. run never (\<lambda>_. ''0'') sample_evidence = Some (Inr e') \<and>
     partitions (class_of ''STRONG'' (EvEdges sample_evidence)) (EvNodes sample_evidence) (Components e')"
proof -
  obtain e' where r: "run never (\<lambda>_. ''0'') sample_evidence = Some (Inr e')" "EvStatus e' = ''COMPLETE''" using sample_completes by blast
  from run_components_correct [OF sample_normalize _ sample_admitted sample_project r] r show ?thesis
    by (auto simp: sample_parameters_def)
qed

text \<open>
  C13: the independent check of a partition is exact. On evidence projected from admitted tables it accepts
  the components of the graph in the requested mode, whatever produced them, and refuses every other list: a
  partition too fine or too coarse, an overlap, a lost node, an empty component.
\<close>

theorem prove_evidence_exact:
  assumes "normalize p0 = Inr p" and "Operation p = ''COMPONENTS''" and "admitted t" and "project basis t p = Inr e"
  shows "prove_evidence (e\<lparr>Components := cs\<rparr>) = Inr () \<longleftrightarrow> partitions (class_of (Mode p) (EvEdges e)) (EvNodes e) cs"
  using prove_partition_exact [OF admitted_project(1,2) [OF assms(3,4)] normalize_components(1) [OF assms(1,2)]] project_edges(1) [OF assms(4)] assms(2)
  by (simp add: prove_evidence_def)

theorem prove_evidence_exact_witness:
  "partitions (class_of ''STRONG'' (EvEdges sample_evidence)) (EvNodes sample_evidence) sample_components"
proof -
  have "prove_evidence (sample_evidence\<lparr>Components := sample_components\<rparr>) = Inr ()"
    using sample_prove by (simp add: prove_evidence_def sample_evidence_def sample_parameters_def)
  with prove_evidence_exact [OF sample_normalize _ sample_admitted sample_project, of sample_components] show ?thesis
    by (simp add: sample_parameters_def)
qed

text \<open>
  C14: the producer satisfies the check. Whatever the operation, the evidence of a run that was not
  interrupted is accepted by \<open>prove\<close>.
\<close>

theorem run_proved:
  assumes "normalize p0 = Inr p" and "admitted t" and "project basis t p = Inr e"
    and "run cancelled sha e = Some (Inr e')" and "EvStatus e' \<noteq> ''INCOMPLETE''"
  shows "prove_evidence e' = Inr ()"
  using assms by (rule run_accepted)

theorem run_proved_witness: "\<exists>e'. run never (\<lambda>_. ''0'') sample_evidence = Some (Inr e') \<and> prove_evidence e' = Inr ()"
proof -
  obtain e' where r: "run never (\<lambda>_. ''0'') sample_evidence = Some (Inr e')" "EvStatus e' = ''COMPLETE''" using sample_completes by blast
  from run_proved [OF sample_normalize sample_admitted sample_project r(1)] r show ?thesis by auto
qed

text \<open>
  C15: the default budget suffices. When the request leaves \<open>max_work\<close> at zero and the context is never
  cancelled, every operation on an admitted input completes.
\<close>

theorem run_default_completes:
  assumes "normalize p0 = Inr p" and "MaxWork p0 = 0" and "admitted t" and "project basis t p = Inr e"
  shows "\<exists>e'. run (\<lambda>_. False) sha e = Some (Inr e') \<and> EvStatus e' \<noteq> ''INCOMPLETE''"
  using assms by (rule run_completes)

theorem run_default_completes_witness: "\<exists>e'. run (\<lambda>_. False) (\<lambda>_. ''0'') sample_evidence = Some (Inr e') \<and> EvStatus e' \<noteq> ''INCOMPLETE''"
  by (rule run_default_completes [OF sample_normalize _ sample_admitted sample_project]) simp

end
