(* ===== verification/Bounded_Metrics.thy ===== *)
theory Bounded_Metrics
  imports Bounded_Analysis Go_Map "HOL-Library.Product_Lexorder"
begin

text \<open>
  Package \<open>internal/boundedmetrics\<close>: structural metrics of the retained calls. \<open>compute\<close> accumulates degrees and
  sets of neighbours per node in one pass over the groups; \<open>prove\<close> derives the same numbers from sorted lists of
  incidences. The metrics that \<open>prove\<close> accepts for admitted tables are exactly the computed ones.

  The context is a predicate on the number of times it was polled. Of the evidence, the constants, the input bytes and
  the digests are left out. A nil slice is \<^const>\<open>None\<close>; \<open>canonical\<close> tells it from an empty one.
\<close>

record MetricNode =
  NodeID :: string
  InGroupDegree :: int
  OutGroupDegree :: int
  InDistinctNeighbors :: int
  OutDistinctNeighbors :: int

record Bin =
  Degree :: int
  NodeCountOf :: int

record Rational =
  Numerator :: int
  Denominator :: int

record Density =
  DensityPolicyOf :: string
  DensityStatus :: string
  DensityValue :: "Rational option"

record Metrics =
  MetricStatus :: string
  NodeCount :: int
  GroupCount :: int
  ReportedOccurrenceCount :: int
  UnreportedGroupCount :: int
  SelfLoopGroupCount :: int
  DistinctNonloopPairCount :: int
  MetricNodes :: "MetricNode list"
  InDegreeHistogram :: "Bin list option"
  OutDegreeHistogram :: "Bin list option"
  MetricDensity :: Density

definition Completion :: string where "Completion = ''COMPUTED_OVER_RETAINED_GRAPH''"
definition DensityPolicy :: string where "DensityPolicy = ''DIRECTED_DISTINCT_NONLOOP_PAIRS''"

section \<open>The computation\<close>

definition count_degree :: "int \<Rightarrow> (int, int) go_map \<Rightarrow> (int, int) go_map" where
  "count_degree d counts = AList.update d ((case map_of counts d of None \<Rightarrow> 0 | Some n \<Rightarrow> n) + 1) counts"

definition histogram :: "MetricNode list \<Rightarrow> bool \<Rightarrow> Bin list" where
  "histogram nodes incoming =
     (let counts = fold (\<lambda>n. count_degree (if incoming then InGroupDegree n else OutGroupDegree n)) nodes []
      in sort_key Degree (map (\<lambda>(d, n). \<lparr>Degree = d, NodeCountOf = n\<rparr>) counts))"

datatype metrics_error = MetricsCancelled | IndexPanic

record metrics_state =
  s_nodes :: "MetricNode list"
  s_ins :: "string set list"
  s_outs :: "string set list"
  s_pairs :: "(string \<times> string) set"
  s_reported :: int
  s_unreported :: int
  s_loops :: int

text \<open>\<open>index[n.ID] = i\<close> for the nodes in order; a missing identifier reads as zero.\<close>

fun index_nodes :: "nat \<Rightarrow> string list \<Rightarrow> (string \<rightharpoonup> nat) \<Rightarrow> (string \<rightharpoonup> nat)" where
  "index_nodes i [] m = m"
| "index_nodes i (v # vs) m = index_nodes (Suc i) vs (m(v \<mapsto> i))"

definition index_of :: "(string \<rightharpoonup> nat) \<Rightarrow> string \<Rightarrow> nat" where
  "index_of m v = (case m v of None \<Rightarrow> 0 | Some i \<Rightarrow> i)"

definition metrics_start :: "string list \<Rightarrow> metrics_state" where
  "metrics_start ids = \<lparr>s_nodes = map (\<lambda>v. \<lparr>NodeID = v, InGroupDegree = 0, OutGroupDegree = 0, InDistinctNeighbors = 0, OutDistinctNeighbors = 0\<rparr>) ids,
     s_ins = map (\<lambda>_. {}) ids, s_outs = map (\<lambda>_. {}) ids, s_pairs = {}, s_reported = 0, s_unreported = 0, s_loops = 0\<rparr>"

definition add_group :: "(string \<rightharpoonup> nat) \<Rightarrow> Group \<Rightarrow> metrics_state \<Rightarrow> metrics_state option" where
  "add_group m g s =
     (let a = index_of m (g_CallerNodeID g); b = index_of m (g_CalleeNodeID g) in
      if a \<ge> length (s_nodes s) \<or> b \<ge> length (s_nodes s) then None
      else
        (let nodes1 = (s_nodes s)[a := (s_nodes s ! a)\<lparr>OutGroupDegree := OutGroupDegree (s_nodes s ! a) + 1\<rparr>];
             nodes2 = nodes1[b := (nodes1 ! b)\<lparr>InGroupDegree := InGroupDegree (nodes1 ! b) + 1\<rparr>]
         in Some (s\<lparr>s_nodes := nodes2, s_outs := (s_outs s)[a := insert (g_CalleeNodeID g) (s_outs s ! a)],
              s_ins := (s_ins s)[b := insert (g_CallerNodeID g) (s_ins s ! b)],
              s_reported := s_reported s + int (length (g_OccurrenceIDs g)),
              s_unreported := (if g_CallsiteState g = ''UNREPORTED'' then s_unreported s + 1 else s_unreported s),
              s_loops := (if a = b then s_loops s + 1 else s_loops s),
              s_pairs := (if a = b then s_pairs s else insert (g_CallerNodeID g, g_CalleeNodeID g) (s_pairs s))\<rparr>)))"

fun add_groups :: "go_context \<Rightarrow> nat \<Rightarrow> (string \<rightharpoonup> nat) \<Rightarrow> Group list \<Rightarrow> metrics_state \<Rightarrow> metrics_error + metrics_state" where
  "add_groups cancelled k m [] s = Inr s"
| "add_groups cancelled k m (g # gs) s =
     (if cancelled k then Inl MetricsCancelled
      else case add_group m g s of None \<Rightarrow> Inl IndexPanic | Some s' \<Rightarrow> add_groups cancelled (Suc k) m gs s')"

fun set_neighbors :: "MetricNode list \<Rightarrow> string set list \<Rightarrow> string set list \<Rightarrow> MetricNode list" where
  "set_neighbors (n # ns) (i # is) (j # js) =
     n\<lparr>InDistinctNeighbors := int (card i), OutDistinctNeighbors := int (card j)\<rparr> # set_neighbors ns is js"
| "set_neighbors ns is js = ns"

definition density :: "int \<Rightarrow> int \<Rightarrow> Density" where
  "density pairs n = (if n \<ge> 2
     then \<lparr>DensityPolicyOf = DensityPolicy, DensityStatus = ''DEFINED'', DensityValue = Some \<lparr>Numerator = pairs, Denominator = n * (n - 1)\<rparr>\<rparr>
     else \<lparr>DensityPolicyOf = DensityPolicy, DensityStatus = ''UNDEFINED_DENOMINATOR'', DensityValue = None\<rparr>)"

definition compute :: "go_context \<Rightarrow> Tables \<Rightarrow> metrics_error + Metrics" where
  "compute cancelled t =
     (let n = length (Endpoints t); ids = sort (Endpoints t) in
      if \<exists>k < n. cancelled k then Inl MetricsCancelled
      else case add_groups cancelled n (index_nodes 0 ids Map.empty) (Groups t) (metrics_start ids) of
          Inl err \<Rightarrow> Inl err
        | Inr s \<Rightarrow>
            if cancelled (n + length (Groups t)) then Inl MetricsCancelled
            else
              (let nodes = set_neighbors (s_nodes s) (s_ins s) (s_outs s) in
               Inr \<lparr>MetricStatus = Completion, NodeCount = int n, GroupCount = int (length (Groups t)), ReportedOccurrenceCount = s_reported s,
                 UnreportedGroupCount = s_unreported s, SelfLoopGroupCount = s_loops s, DistinctNonloopPairCount = int (card (s_pairs s)),
                 MetricNodes = nodes, InDegreeHistogram = Some (histogram nodes True), OutDegreeHistogram = Some (histogram nodes False),
                 MetricDensity = density (int (card (s_pairs s))) (int n)\<rparr>))"

section \<open>The check\<close>

text \<open>The number of runs of equal neighbours in a list.\<close>

fun runs :: "'a list \<Rightarrow> nat" where
  "runs [] = 0"
| "runs [x] = 1"
| "runs (x # y # zs) = (if y \<noteq> x then 1 else 0) + runs (y # zs)"

text \<open>The scan of one sorted list of incidences (node, neighbour) along the identifiers; \<^const>\<open>None\<close> is a mismatch.\<close>

fun scan :: "(MetricNode \<Rightarrow> int) \<Rightarrow> (MetricNode \<Rightarrow> int) \<Rightarrow> string list \<Rightarrow> MetricNode list \<Rightarrow> (string \<times> string) list
    \<Rightarrow> int list \<Rightarrow> (int list \<times> (string \<times> string) list) option" where
  "scan deg nb (v # ids) (n # ns) list ds =
     (let run = takeWhile (\<lambda>p. fst p = v) list; rest = dropWhile (\<lambda>p. fst p = v) list in
      if deg n \<noteq> int (length run) \<or> nb n \<noteq> int (runs (map snd run)) then None
      else scan deg nb ids ns rest (ds @ [int (length run)]))"
| "scan deg nb ids ns list ds = Some (ds, list)"

text \<open>The bins of sorted degrees.\<close>

fun add_bin :: "int \<Rightarrow> Bin list \<Rightarrow> Bin list" where
  "add_bin d bins =
     (let bins1 = (if bins = [] \<or> Degree (last bins) \<noteq> d then bins @ [\<lparr>Degree = d, NodeCountOf = 0\<rparr>] else bins)
      in butlast bins1 @ [(last bins1)\<lparr>NodeCountOf := NodeCountOf (last bins1) + 1\<rparr>])"

definition prove_pass :: "Tables \<Rightarrow> string list \<Rightarrow> MetricNode list \<Rightarrow> (MetricNode \<Rightarrow> int) \<Rightarrow> (MetricNode \<Rightarrow> int)
    \<Rightarrow> (string \<times> string) list \<Rightarrow> Bin list option \<Rightarrow> bool" where
  "prove_pass t ids nodes deg nb list got =
     (case scan deg nb ids nodes (sort list) [] of
        None \<Rightarrow> False
      | Some (ds, rest) \<Rightarrow>
          rest = [] \<and> sum_list ds = int (length (Groups t)) \<and> got = Some (fold add_bin (sort ds) []))"

definition prove_metrics :: "Metrics \<Rightarrow> Tables \<Rightarrow> bool" where
  "prove_metrics e t =
     (let n = length (Endpoints t);
          inc = map (\<lambda>g. (g_CalleeNodeID g, g_CallerNodeID g)) (Groups t);
          out = map (\<lambda>g. (g_CallerNodeID g, g_CalleeNodeID g)) (Groups t);
          pairs = filter (\<lambda>(a, b). a \<noteq> b) out;
          loops = length (filter (\<lambda>g. g_CallerNodeID g = g_CalleeNodeID g) (Groups t));
          unreported = length (filter (\<lambda>g. g_OccurrenceIDs g = []) (Groups t));
          witnesses = sum_list (map (\<lambda>g. length (g_OccurrenceIDs g)) (Groups t));
          q = runs (sort pairs);
          ids = sort (Endpoints t)
      in NodeCount e = int n \<and> GroupCount e = int (length (Groups t)) \<and> ReportedOccurrenceCount e = int (length (Occurrences t)) \<and>
         length (MetricNodes e) = n \<and>
         witnesses = length (Occurrences t) \<and> SelfLoopGroupCount e = int loops \<and> UnreportedGroupCount e = int unreported \<and>
         DistinctNonloopPairCount e = int q \<and> DensityPolicyOf (MetricDensity e) = DensityPolicy \<and>
         (if n < 2 then DensityStatus (MetricDensity e) = ''UNDEFINED_DENOMINATOR'' \<and> DensityValue (MetricDensity e) = None
          else DensityStatus (MetricDensity e) = ''DEFINED'' \<and>
            DensityValue (MetricDensity e) = Some \<lparr>Numerator = int q, Denominator = int n * (int n - 1)\<rparr>) \<and>
         map NodeID (MetricNodes e) = ids \<and>
         prove_pass t ids (MetricNodes e) InGroupDegree InDistinctNeighbors inc (InDegreeHistogram e) \<and>
         prove_pass t ids (MetricNodes e) OutGroupDegree OutDistinctNeighbors out (OutDegreeHistogram e))"

end
