(* ===== verification/Metrics_Properties.thy ===== *)
theory Metrics_Properties
  imports Bounded_Metrics
begin

text \<open>
  The metrics of theory \<open>Bounded_Metrics\<close> are determined: for admitted tables the computation returns the
  degrees, neighbour counts, histograms and density of the groups, and the check accepts nothing else.
\<close>

section \<open>What the metrics are\<close>

definition in_groups :: "Group list \<Rightarrow> string \<Rightarrow> Group list" where
  "in_groups gs v = filter (\<lambda>g. g_CalleeNodeID g = v) gs"

definition out_groups :: "Group list \<Rightarrow> string \<Rightarrow> Group list" where
  "out_groups gs v = filter (\<lambda>g. g_CallerNodeID g = v) gs"

definition metric_node :: "Group list \<Rightarrow> string \<Rightarrow> MetricNode" where
  "metric_node gs v = \<lparr>NodeID = v, InGroupDegree = int (length (in_groups gs v)), OutGroupDegree = int (length (out_groups gs v)),
     InDistinctNeighbors = int (card (g_CallerNodeID ` set (in_groups gs v))),
     OutDistinctNeighbors = int (card (g_CalleeNodeID ` set (out_groups gs v)))\<rparr>"

definition nonloop_pairs :: "Group list \<Rightarrow> (string \<times> string) set" where
  "nonloop_pairs gs = set (filter (\<lambda>(a, b). a \<noteq> b) (map (\<lambda>g. (g_CallerNodeID g, g_CalleeNodeID g)) gs))"

definition bins_of :: "int list \<Rightarrow> Bin list" where
  "bins_of ds = map (\<lambda>d. \<lparr>Degree = d, NodeCountOf = int (count_list ds d)\<rparr>) (sorted_list_of_set (set ds))"

definition metrics_of :: "Tables \<Rightarrow> Metrics" where
  "metrics_of t =
     (let gs = Groups t; n = int (length (Endpoints t)); nodes = map (metric_node gs) (sort (Endpoints t)); q = int (card (nonloop_pairs gs)) in
      \<lparr>MetricStatus = Completion, NodeCount = n, GroupCount = int (length gs), ReportedOccurrenceCount = int (length (Occurrences t)),
       UnreportedGroupCount = int (length (filter (\<lambda>g. g_OccurrenceIDs g = []) gs)),
       SelfLoopGroupCount = int (length (filter (\<lambda>g. g_CallerNodeID g = g_CalleeNodeID g) gs)), DistinctNonloopPairCount = q,
       MetricNodes = nodes, InDegreeHistogram = Some (bins_of (map InGroupDegree nodes)),
       OutDegreeHistogram = Some (bins_of (map OutGroupDegree nodes)), MetricDensity = density q n\<rparr>)"

text \<open>What the admission of the tables gives.\<close>

definition admitted_rows :: "Tables \<Rightarrow> bool" where
  "admitted_rows t \<longleftrightarrow> distinct (Endpoints t) \<and>
     (\<forall>g \<in> set (Groups t). g_CallerNodeID g \<in> set (Endpoints t) \<and> g_CalleeNodeID g \<in> set (Endpoints t) \<and>
        (g_CallsiteState g = ''UNREPORTED'' \<longleftrightarrow> g_OccurrenceIDs g = [])) \<and>
     sum_list (map (\<lambda>g. length (g_OccurrenceIDs g)) (Groups t)) = length (Occurrences t)"

section \<open>The computation\<close>

lemma index_nodes_other: "v \<notin> set vs \<Longrightarrow> index_nodes i vs m v = m v"
  by (induction vs arbitrary: i m) auto

lemma index_nodes_nth: "distinct vs \<Longrightarrow> k < length vs \<Longrightarrow> index_nodes i vs m (vs ! k) = Some (i + k)"
proof (induction vs arbitrary: i m k)
  case (Cons v vs)
  then show ?case by (cases k) (auto simp: index_nodes_other)
qed simp

definition state_of :: "string list \<Rightarrow> Group list \<Rightarrow> metrics_state" where
  "state_of ids gs = \<lparr>s_nodes = map (\<lambda>v. (metric_node gs v)\<lparr>InDistinctNeighbors := 0, OutDistinctNeighbors := 0\<rparr>) ids,
     s_ins = map (\<lambda>v. g_CallerNodeID ` set (in_groups gs v)) ids, s_outs = map (\<lambda>v. g_CalleeNodeID ` set (out_groups gs v)) ids,
     s_pairs = nonloop_pairs gs, s_reported = int (sum_list (map (\<lambda>g. length (g_OccurrenceIDs g)) gs)),
     s_unreported = int (length (filter (\<lambda>g. g_CallsiteState g = ''UNREPORTED'') gs)),
     s_loops = int (length (filter (\<lambda>g. g_CallerNodeID g = g_CalleeNodeID g) gs))\<rparr>"

lemma map_update_one:
  assumes "distinct ids" and "i < length ids" and "\<And>v. v \<noteq> ids ! i \<Longrightarrow> f' v = f v" and "x = f' (ids ! i)"
  shows "(map f ids)[i := x] = map f' ids"
proof (rule nth_equalityI)
  fix k assume "k < length ((map f ids)[i := x])"
  then show "(map f ids)[i := x] ! k = map f' ids ! k"
    using assms by (cases "k = i") (auto simp: nth_eq_iff_index_eq)
qed simp

lemma add_group_state:
  assumes ids: "distinct ids" and g: "g_CallerNodeID g \<in> set ids" "g_CalleeNodeID g \<in> set ids"
  shows "add_group (index_nodes 0 ids Map.empty) g (state_of ids gs) = Some (state_of ids (gs @ [g]))"
proof -
  obtain a b where a: "a < length ids" "ids ! a = g_CallerNodeID g" and b: "b < length ids" "ids ! b = g_CalleeNodeID g"
    using g by (auto simp: in_set_conv_nth)
  have i: "index_of (index_nodes 0 ids Map.empty) (g_CallerNodeID g) = a" "index_of (index_nodes 0 ids Map.empty) (g_CalleeNodeID g) = b"
    using index_nodes_nth [OF ids a(1), of 0 Map.empty] index_nodes_nth [OF ids b(1), of 0 Map.empty] a b by (simp_all add: index_of_def)
  have ab: "a = b \<longleftrightarrow> g_CallerNodeID g = g_CalleeNodeID g" using a b ids by (metis nth_eq_iff_index_eq)
  let ?n = "\<lambda>gs v. (metric_node gs v)\<lparr>InDistinctNeighbors := 0, OutDistinctNeighbors := 0\<rparr>"
  let ?n1 = "\<lambda>v. (?n gs v)\<lparr>OutGroupDegree := int (length (out_groups (gs @ [g]) v))\<rparr>"
  have 1: "(map (?n gs) ids)[a := (map (?n gs) ids ! a)\<lparr>OutGroupDegree := OutGroupDegree (map (?n gs) ids ! a) + 1\<rparr>] = map ?n1 ids"
    by (rule map_update_one [OF ids a(1)]) (use a in \<open>auto simp: metric_node_def out_groups_def\<close>)
  have 2: "(map ?n1 ids)[b := (map ?n1 ids ! b)\<lparr>InGroupDegree := InGroupDegree (map ?n1 ids ! b) + 1\<rparr>] = map (?n (gs @ [g])) ids"
    by (rule map_update_one [OF ids b(1)]) (use b in \<open>auto simp: metric_node_def in_groups_def\<close>)
  have 3: "(map (\<lambda>v. g_CalleeNodeID ` set (out_groups gs v)) ids)[a := insert (g_CalleeNodeID g) (map (\<lambda>v. g_CalleeNodeID ` set (out_groups gs v)) ids ! a)] =
      map (\<lambda>v. g_CalleeNodeID ` set (out_groups (gs @ [g]) v)) ids"
    by (rule map_update_one [OF ids a(1)]) (use a in \<open>auto simp: out_groups_def\<close>)
  have 4: "(map (\<lambda>v. g_CallerNodeID ` set (in_groups gs v)) ids)[b := insert (g_CallerNodeID g) (map (\<lambda>v. g_CallerNodeID ` set (in_groups gs v)) ids ! b)] =
      map (\<lambda>v. g_CallerNodeID ` set (in_groups (gs @ [g]) v)) ids"
    by (rule map_update_one [OF ids b(1)]) (use b in \<open>auto simp: in_groups_def\<close>)
  have 5: "nonloop_pairs (gs @ [g]) = (if a = b then nonloop_pairs gs else insert (g_CallerNodeID g, g_CalleeNodeID g) (nonloop_pairs gs))"
    unfolding nonloop_pairs_def ab by auto
  have "\<not> (length (s_nodes (state_of ids gs)) \<le> a \<or> length (s_nodes (state_of ids gs)) \<le> b)" using a(1) b(1) by (simp add: state_of_def)
  then show ?thesis
    unfolding add_group_def i Let_def if_not_P [OF \<open>\<not> (_ \<or> _)\<close>]
    by (simp only: state_of_def metrics_state.select_convs metrics_state.update_convs 1 2 3 4 5 ab) simp
qed

lemma add_groups_state:
  assumes "distinct ids" and "\<forall>g \<in> set gs. g_CallerNodeID g \<in> set ids \<and> g_CalleeNodeID g \<in> set ids" and "\<forall>k. \<not> cancelled k"
  shows "add_groups cancelled k (index_nodes 0 ids Map.empty) gs (state_of ids gs0) = Inr (state_of ids (gs0 @ gs))"
  using assms(2)
proof (induction gs arbitrary: k gs0)
  case (Cons g gs)
  then show ?case using add_group_state [OF assms(1), of g gs0] assms(3) by simp
qed simp

lemma set_neighbors_map:
  "set_neighbors (map f ids) (map i ids) (map j ids) =
     map (\<lambda>v. (f v)\<lparr>InDistinctNeighbors := int (card (i v)), OutDistinctNeighbors := int (card (j v))\<rparr>) ids"
  by (induction ids) auto

section \<open>Histograms\<close>

lemma sorted_list_of_set_snoc:
  assumes "\<forall>x \<in> set xs. x \<le> (d :: int)"
  shows "sorted_list_of_set (set xs \<union> {d}) = sorted_list_of_set (set xs - {d}) @ [d]"
proof -
  let ?ys = "sorted_list_of_set (set xs - {d}) @ [d]"
  have "sorted ?ys" "distinct ?ys" using assms by (auto simp: sorted_append)
  then have "sorted_list_of_set (set ?ys) = ?ys" by (rule sorted_list_of_set.idem_if_sorted_distinct)
  moreover have "set ?ys = set xs \<union> {d}" by auto
  ultimately show ?thesis by simp
qed

lemma bins_of_snoc:
  assumes "\<forall>x \<in> set xs. x \<le> d"
  shows "add_bin d (bins_of xs) = bins_of (xs @ [d])"
proof -
  let ?L = "sorted_list_of_set (set xs - {d})"
  let ?f = "\<lambda>xs c. \<lparr>Degree = c, NodeCountOf = int (count_list xs c)\<rparr>"
  have L: "map (?f (xs @ [d])) ?L = map (?f xs) ?L" by (rule map_cong) auto
  have new: "bins_of (xs @ [d]) = map (?f xs) ?L @ [\<lparr>Degree = d, NodeCountOf = int (count_list xs d) + 1\<rparr>]"
    using sorted_list_of_set_snoc [OF assms] L by (simp add: bins_of_def)
  show ?thesis
  proof (cases "d \<in> set xs")
    case True
    then have "bins_of xs = map (?f xs) ?L @ [?f xs d]"
      using sorted_list_of_set_snoc [OF assms] by (simp add: bins_of_def insert_absorb)
    then show ?thesis by (simp add: new)
  next
    case False
    then have "bins_of xs = map (?f xs) ?L" "count_list xs d = 0" by (simp_all add: bins_of_def count_list_0_iff)
    moreover have "map (?f xs) ?L \<noteq> [] \<Longrightarrow> Degree (last (map (?f xs) ?L)) \<noteq> d"
    proof -
      assume "map (?f xs) ?L \<noteq> []"
      then have L: "?L \<noteq> []" by simp
      then have "last ?L \<in> set ?L" by (rule last_in_set)
      then show ?thesis using L by (simp add: last_map)
    qed
    ultimately show ?thesis using new by (auto simp: Let_def)
  qed
qed

lemma fold_add_bin: "sorted xs \<Longrightarrow> fold add_bin xs [] = bins_of xs"
proof (induction xs rule: rev_induct)
  case Nil
  then show ?case by (simp add: bins_of_def)
next
  case (snoc d xs)
  then have "sorted xs" "\<forall>x \<in> set xs. x \<le> d" by (auto simp: sorted_append)
  with snoc.IH bins_of_snoc [of xs d] show ?case by (simp del: add_bin.simps)
qed

lemma bins_of_sort: "fold add_bin (sort ds) [] = bins_of ds"
proof -
  have "count_list (sort ds) d = count_list ds d" for d by (metis count_mset mset_sort)
  then show ?thesis by (simp add: fold_add_bin del: add_bin.simps) (simp add: bins_of_def)
qed

lemma fold_count_degree:
  "distinct (map fst (fold count_degree ds [])) \<and>
   (\<forall>d. map_of (fold count_degree ds []) d = (if d \<in> set ds then Some (int (count_list ds d)) else None))"
proof (induction ds rule: rev_induct)
  case (snoc d ds)
  then show ?case by (auto simp: count_degree_def distinct_update split: option.split)
qed simp

lemma degree_bins: "sort_key Degree (map (\<lambda>(d, n). \<lparr>Degree = d, NodeCountOf = n\<rparr>) (fold count_degree ds [])) = bins_of ds"
proof (rule map_sorted_distinct_set_unique [of Degree])
  let ?mk = "\<lambda>(d, n). \<lparr>Degree = d, NodeCountOf = n\<rparr>" and ?c = "fold count_degree ds []"
  have c: "distinct (map fst ?c)" using fold_count_degree [of ds] by blast
  have set_c: "(d, n) \<in> set ?c \<longleftrightarrow> d \<in> set ds \<and> n = int (count_list ds d)" for d n
    using map_of_eq_Some_iff [OF c, of d n] fold_count_degree [of ds] by (auto split: if_splits)
  have "map Degree (map ?mk ?c) = map fst ?c" by auto
  then have "mset (map Degree (sort_key Degree (map ?mk ?c))) = mset (map fst ?c)" by (metis mset_map mset_sort)
  then show "distinct (map Degree (sort_key Degree (map ?mk ?c)))" using c by (metis mset_eq_imp_distinct_iff)
  show s: "set (sort_key Degree (map ?mk ?c)) = set (bins_of ds)" using set_c by (force simp: bins_of_def)
  show "inj_on Degree (set (sort_key Degree (map ?mk ?c)) \<union> set (bins_of ds))"
    unfolding s by (auto simp: inj_on_def bins_of_def)
  show "sorted (map Degree (sort_key Degree (map ?mk ?c)))" by simp
  show "sorted (map Degree (bins_of ds))" "distinct (map Degree (bins_of ds))" by (simp_all add: bins_of_def o_def)
qed

lemma histogram_bins:
  "histogram nodes True = bins_of (map InGroupDegree nodes)" "histogram nodes False = bins_of (map OutGroupDegree nodes)"
  using degree_bins [of "map InGroupDegree nodes"] degree_bins [of "map OutGroupDegree nodes"]
  by (simp_all add: histogram_def fold_map o_def)

section \<open>The scans\<close>

lemma runs_sorted: "sorted (xs :: 'a :: linorder list) \<Longrightarrow> runs xs = card (set xs)"
proof (induction xs rule: runs.induct)
  case (3 x y zs)
  then have IH: "runs (y # zs) = card (set (y # zs))" by simp
  show ?case
  proof (cases "y = x")
    case True
    then show ?thesis using IH by simp
  next
    case False
    with "3.prems" have "x \<notin> set (y # zs)" by auto
    then show ?thesis using IH False by (simp del: runs.simps add: runs.simps(3))
  qed
qed simp_all

lemma sorted_run:
  fixes xs :: "(string \<times> string) list"
  assumes "sorted xs" and "\<forall>p \<in> set xs. v \<le> fst p"
  shows "takeWhile (\<lambda>p. fst p = v) xs = filter (\<lambda>p. fst p = v) xs \<and> dropWhile (\<lambda>p. fst p = v) xs = filter (\<lambda>p. fst p \<noteq> v) xs"
  using assms
proof (induction xs)
  case (Cons x xs)
  show ?case
  proof (cases "fst x = v")
    case True
    with Cons show ?thesis by simp
  next
    case False
    have "fst p \<noteq> v" if "p \<in> set xs" for p
    proof -
      have "x \<le> p" using Cons.prems(1) that by simp
      then have "fst x \<le> fst p" by (cases x; cases p) auto
      then show ?thesis using False Cons.prems(2) by auto
    qed
    then have "filter (\<lambda>p. fst p = v) xs = []" "filter (\<lambda>p. fst p \<noteq> v) xs = xs" by (simp_all add: filter_empty_conv filter_id_conv)
    with False show ?thesis by simp
  qed
qed simp

definition incident :: "(string \<times> string) list \<Rightarrow> string \<Rightarrow> string list" where
  "incident xs v = map snd (filter (\<lambda>p. fst p = v) xs)"

lemma scan_sorted:
  assumes "sorted xs" and "fst ` set xs \<subseteq> set ids" and "sorted ids" "distinct ids" and "length ns = length ids"
  shows "scan deg nb ids ns xs ds =
    (if list_all2 (\<lambda>v n. deg n = int (length (incident xs v)) \<and> nb n = int (card (set (incident xs v)))) ids ns
     then Some (ds @ map (\<lambda>v. int (length (incident xs v))) ids, []) else None)"
  using assms
proof (induction ids arbitrary: ns xs ds)
  case (Cons v ids)
  then obtain n ns' where ns: "ns = n # ns'" by (cases ns) auto
  have least: "\<forall>p \<in> set xs. v \<le> fst p" using Cons.prems(2,3) by fastforce
  have run: "takeWhile (\<lambda>p. fst p = v) xs = filter (\<lambda>p. fst p = v) xs" "dropWhile (\<lambda>p. fst p = v) xs = filter (\<lambda>p. fst p \<noteq> v) xs"
    using sorted_run [OF Cons.prems(1) least] by simp_all
  let ?rest = "filter (\<lambda>p. fst p \<noteq> v) xs"
  have "sorted (incident xs v)"
    unfolding incident_def using Cons.prems(1)
    by (induction xs) (auto simp: less_eq_prod_def)
  then have runs: "runs (incident xs v) = card (set (incident xs v))" by (rule runs_sorted)
  have "sorted ?rest" using Cons.prems(1) by (rule sorted_wrt_filter)
  moreover have "fst ` set ?rest \<subseteq> set ids" using Cons.prems(2) by auto
  ultimately have IH: "scan deg nb ids ns' ?rest ds' =
    (if list_all2 (\<lambda>v n. deg n = int (length (incident ?rest v)) \<and> nb n = int (card (set (incident ?rest v)))) ids ns'
     then Some (ds' @ map (\<lambda>v. int (length (incident ?rest v))) ids, []) else None)" for ds'
    using Cons.IH [of ?rest ns' ds'] Cons.prems(3-5) ns by simp
  have same: "incident ?rest w = incident xs w" if "w \<in> set ids" for w
    using that Cons.prems(4) by (auto simp: incident_def intro!: arg_cong [of _ _ "map snd"] filter_cong)
  have "list_all2 (\<lambda>v n. deg n = int (length (incident ?rest v)) \<and> nb n = int (card (set (incident ?rest v)))) ids ns' \<longleftrightarrow>
      list_all2 (\<lambda>v n. deg n = int (length (incident xs v)) \<and> nb n = int (card (set (incident xs v)))) ids ns'"
    by (intro list.rel_cong refl) (simp add: same)
  moreover have "map (\<lambda>v. int (length (incident ?rest v))) ids = map (\<lambda>v. int (length (incident xs v))) ids" using same by simp
  moreover have "length (filter (\<lambda>p. fst p = v) xs) = length (incident xs v)" by (simp add: incident_def)
  moreover have "runs (map snd (filter (\<lambda>p. fst p = v) xs)) = card (set (incident xs v))" using runs by (simp add: incident_def)
  ultimately show ?case unfolding ns scan.simps run Let_def by (simp add: IH)
qed simp

lemma incident_total:
  "distinct ids \<Longrightarrow> fst ` set xs \<subseteq> set ids \<Longrightarrow> sum_list (map (\<lambda>v. int (length (incident xs v))) ids) = int (length xs)"
proof (induction xs)
  case (Cons x xs)
  have "sum_list (map (\<lambda>v. if fst x = v then (1::int) else 0) ids) = 1"
    using Cons.prems by (simp add: sum_list_distinct_conv_sum_set)
  moreover have "(\<lambda>v. int (length (incident (x # xs) v))) = (\<lambda>v. (if fst x = v then 1 else 0) + int (length (incident xs v)))"
    by (auto simp: incident_def)
  ultimately show ?case using Cons by (simp only: sum_list_addf) simp
qed (simp add: incident_def sum_list_0)

lemma prove_pass_iff:
  assumes "distinct (Endpoints t)" and "fst ` set xs \<subseteq> set (Endpoints t)" and "length xs = length (Groups t)" and "length nodes = length (Endpoints t)"
  shows "prove_pass t (sort (Endpoints t)) nodes deg nb xs got \<longleftrightarrow>
    list_all2 (\<lambda>v n. deg n = int (length (incident xs v)) \<and> nb n = int (card (set (incident xs v)))) (sort (Endpoints t)) nodes \<and>
    got = Some (bins_of (map (\<lambda>v. int (length (incident xs v))) (sort (Endpoints t))))"
proof -
  let ?ids = "sort (Endpoints t)"
  have len: "length (incident (sort xs) v) = length (incident xs v)" "set (incident (sort xs) v) = set (incident xs v)" for v
    unfolding incident_def by (simp_all flip: size_mset add: mset_filter)
  have "scan deg nb ?ids nodes (sort xs) [] =
    (if list_all2 (\<lambda>v n. deg n = int (length (incident xs v)) \<and> nb n = int (card (set (incident xs v)))) ?ids nodes
     then Some (map (\<lambda>v. int (length (incident xs v))) ?ids, []) else None)"
    using scan_sorted [of "sort xs" ?ids nodes deg nb "[]"] assms by (simp add: len)
  moreover have "sum_list (map (\<lambda>v. int (length (incident xs v))) ?ids) = int (length (Groups t))"
    using incident_total [of ?ids xs] assms by simp
  ultimately show ?thesis unfolding prove_pass_def by (simp add: bins_of_sort del: add_bin.simps)
qed

section \<open>The check\<close>

lemma compute_metrics:
  assumes "admitted_rows t" and "\<forall>k. \<not> cancelled k"
  shows "compute cancelled t = Inr (metrics_of t)"
proof -
  let ?ids = "sort (Endpoints t)"
  have start: "metrics_start ?ids = state_of ?ids []"
    by (simp add: metrics_start_def state_of_def metric_node_def in_groups_def out_groups_def nonloop_pairs_def)
  have run: "add_groups cancelled (length (Endpoints t)) (index_nodes 0 ?ids Map.empty) (Groups t) (metrics_start ?ids) = Inr (state_of ?ids (Groups t))"
    unfolding start using add_groups_state [of ?ids "Groups t" cancelled "length (Endpoints t)" "[]"] assms by (simp add: admitted_rows_def)
  have nodes: "set_neighbors (s_nodes (state_of ?ids (Groups t))) (s_ins (state_of ?ids (Groups t))) (s_outs (state_of ?ids (Groups t))) =
      map (metric_node (Groups t)) ?ids"
    by (simp add: state_of_def set_neighbors_map metric_node_def)
  have "filter (\<lambda>g. g_CallsiteState g = ''UNREPORTED'') (Groups t) = filter (\<lambda>g. g_OccurrenceIDs g = []) (Groups t)"
    using assms(1) by (auto simp: admitted_rows_def intro: filter_cong)
  then show ?thesis
    using assms unfolding compute_def Let_def run
    by (simp add: nodes histogram_bins metrics_of_def Let_def) (simp add: state_of_def admitted_rows_def)
qed

lemma nodes_determined:
  assumes "length ns = length ids" and "map NodeID ns = ids"
  shows "list_all2 (\<lambda>v n. InGroupDegree n = int (length (in_groups gs v)) \<and> InDistinctNeighbors n = int (card (g_CallerNodeID ` set (in_groups gs v)))) ids ns \<and>
      list_all2 (\<lambda>v n. OutGroupDegree n = int (length (out_groups gs v)) \<and> OutDistinctNeighbors n = int (card (g_CalleeNodeID ` set (out_groups gs v)))) ids ns
    \<longleftrightarrow> ns = map (metric_node gs) ids"
  using assms
proof (induction ids ns rule: list_induct2')
  case (4 v ids n ns)
  then show ?case by (cases n) (auto simp: metric_node_def)
qed auto

lemma prove_passes:
  assumes "admitted_rows t" and True: "length (MetricNodes e) = length (Endpoints t) \<and> map NodeID (MetricNodes e) = sort (Endpoints t)"
  shows "prove_pass t (sort (Endpoints t)) (MetricNodes e) InGroupDegree InDistinctNeighbors (map (\<lambda>g. (g_CalleeNodeID g, g_CallerNodeID g)) (Groups t)) (InDegreeHistogram e) \<and>
    prove_pass t (sort (Endpoints t)) (MetricNodes e) OutGroupDegree OutDistinctNeighbors (map (\<lambda>g. (g_CallerNodeID g, g_CalleeNodeID g)) (Groups t)) (OutDegreeHistogram e) \<longleftrightarrow>
    MetricNodes e = map (metric_node (Groups t)) (sort (Endpoints t)) \<and> InDegreeHistogram e = Some (bins_of (map InGroupDegree (map (metric_node (Groups t)) (sort (Endpoints t))))) \<and>
    OutDegreeHistogram e = Some (bins_of (map OutGroupDegree (map (metric_node (Groups t)) (sort (Endpoints t)))))"
proof -
  let ?gs = "Groups t" and ?ids = "sort (Endpoints t)"
  let ?in = "map (\<lambda>g. (g_CalleeNodeID g, g_CallerNodeID g)) ?gs" and ?out = "map (\<lambda>g. (g_CallerNodeID g, g_CalleeNodeID g)) ?gs"
  have inc: "incident ?in v = map g_CallerNodeID (in_groups ?gs v)" "incident ?out v = map g_CalleeNodeID (out_groups ?gs v)" for v
    by (simp_all add: incident_def in_groups_def out_groups_def filter_map o_def)
  have ends: "fst ` set ?in \<subseteq> set (Endpoints t)" "fst ` set ?out \<subseteq> set (Endpoints t)" "distinct (Endpoints t)"
    using assms by (auto simp: admitted_rows_def)
  have degs: "map (\<lambda>v. int (length (in_groups ?gs v))) ?ids = map InGroupDegree (map (metric_node ?gs) ?ids)"
    "map (\<lambda>v. int (length (out_groups ?gs v))) ?ids = map OutGroupDegree (map (metric_node ?gs) ?ids)" by (simp_all add: metric_node_def)
  have "prove_pass t ?ids (MetricNodes e) InGroupDegree InDistinctNeighbors ?in (InDegreeHistogram e) \<longleftrightarrow>
      list_all2 (\<lambda>v n. InGroupDegree n = int (length (in_groups ?gs v)) \<and> InDistinctNeighbors n = int (card (g_CallerNodeID ` set (in_groups ?gs v)))) ?ids (MetricNodes e) \<and>
      InDegreeHistogram e = Some (bins_of (map InGroupDegree (map (metric_node ?gs) ?ids)))"
    using prove_pass_iff [OF ends(3,1), of "MetricNodes e" InGroupDegree InDistinctNeighbors "InDegreeHistogram e"] True
    by (simp only: inc degs length_map set_map)
  moreover have "prove_pass t ?ids (MetricNodes e) OutGroupDegree OutDistinctNeighbors ?out (OutDegreeHistogram e) \<longleftrightarrow>
      list_all2 (\<lambda>v n. OutGroupDegree n = int (length (out_groups ?gs v)) \<and> OutDistinctNeighbors n = int (card (g_CalleeNodeID ` set (out_groups ?gs v)))) ?ids (MetricNodes e) \<and>
      OutDegreeHistogram e = Some (bins_of (map OutGroupDegree (map (metric_node ?gs) ?ids)))"
    using prove_pass_iff [OF ends(3,2), of "MetricNodes e" OutGroupDegree OutDistinctNeighbors "OutDegreeHistogram e"] True
    by (simp only: inc degs length_map set_map)
  moreover note nodes_determined [of "MetricNodes e" ?ids ?gs]
  moreover have "length (MetricNodes e) = length ?ids" "map NodeID (MetricNodes e) = ?ids" using True by simp_all
  ultimately show ?thesis by argo
qed

lemma prove_metrics_determined:
  assumes "admitted_rows t"
  shows "prove_metrics e t \<longleftrightarrow> e\<lparr>MetricStatus := Completion\<rparr> = metrics_of t"
proof -
  let ?gs = "Groups t" and ?ids = "sort (Endpoints t)"
  let ?in = "map (\<lambda>g. (g_CalleeNodeID g, g_CallerNodeID g)) ?gs" and ?out = "map (\<lambda>g. (g_CallerNodeID g, g_CalleeNodeID g)) ?gs"
  have "runs (sort (filter (\<lambda>(a, b). a \<noteq> b) ?out)) = card (set (sort (filter (\<lambda>(a, b). a \<noteq> b) ?out)))" by (rule runs_sorted) simp
  also have "set (sort (filter (\<lambda>(a, b). a \<noteq> b) ?out)) = nonloop_pairs ?gs" by (auto simp: nonloop_pairs_def)
  finally have q: "runs (sort (filter (\<lambda>(a, b). a \<noteq> b) ?out)) = card (nonloop_pairs ?gs)" .
  show ?thesis
  proof (cases "length (MetricNodes e) = length (Endpoints t) \<and> map NodeID (MetricNodes e) = ?ids")
    case False
    have "MetricNodes e = map (metric_node ?gs) ?ids" if "e\<lparr>MetricStatus := Completion\<rparr> = metrics_of t"
      using arg_cong [OF that, of MetricNodes] by (simp add: metrics_of_def Let_def)
    moreover have "map NodeID (map (metric_node ?gs) ?ids) = ?ids" by (simp add: metric_node_def o_def)
    ultimately have "e\<lparr>MetricStatus := Completion\<rparr> \<noteq> metrics_of t" using False by (metis length_map length_sort)
    moreover have "\<not> prove_metrics e t" using False by (auto simp: prove_metrics_def Let_def)
    ultimately show ?thesis by simp
  next
    case True
    note passes = prove_passes [OF assms True]
    have "prove_metrics e t \<longleftrightarrow> NodeCount e = int (length (Endpoints t)) \<and> GroupCount e = int (length ?gs) \<and> ReportedOccurrenceCount e = int (length (Occurrences t)) \<and>
        SelfLoopGroupCount e = int (length (filter (\<lambda>g. g_CallerNodeID g = g_CalleeNodeID g) ?gs)) \<and>
        UnreportedGroupCount e = int (length (filter (\<lambda>g. g_OccurrenceIDs g = []) ?gs)) \<and> DistinctNonloopPairCount e = int (card (nonloop_pairs ?gs)) \<and>
        MetricDensity e = density (int (card (nonloop_pairs ?gs))) (int (length (Endpoints t))) \<and>
        MetricNodes e = map (metric_node ?gs) ?ids \<and> InDegreeHistogram e = Some (bins_of (map InGroupDegree (map (metric_node ?gs) ?ids))) \<and>
        OutDegreeHistogram e = Some (bins_of (map OutGroupDegree (map (metric_node ?gs) ?ids)))"
      unfolding prove_metrics_def Let_def q passes using True assms by (cases "MetricDensity e") (auto simp: admitted_rows_def density_def)
    also have "\<dots> \<longleftrightarrow> e\<lparr>MetricStatus := Completion\<rparr> = metrics_of t" by (cases e) (auto simp: metrics_of_def Let_def)
    finally show ?thesis .
  qed
qed

section \<open>Properties\<close>

text \<open>
  C16: the metrics of admitted tables are determined. The computation, when it is not cancelled, returns without an index
  out of range, and the independent check accepts a record of metrics exactly when it is the computed one, status
  aside: no degree, neighbour count, histogram, total or density can be altered without the check refusing it.
\<close>

theorem prove_metrics_exact:
  assumes "admitted_rows t" and "\<forall>k. \<not> cancelled k"
  shows "\<exists>m. compute cancelled t = Inr m \<and> (\<forall>e. prove_metrics e t \<longleftrightarrow> e\<lparr>MetricStatus := Completion\<rparr> = m)"
  using compute_metrics [OF assms] prove_metrics_determined [OF assms(1)] by auto

definition sample_rows :: Tables where
  "sample_rows = (let g = \<lambda>u v os. \<lparr>g_ContextID = ''x'', g_RelationID = u @ v, g_ExecutionBundleID = ''b'', g_CallerNodeID = u, g_CalleeNodeID = v,
       g_CallsiteState = (if os = [] then ''UNREPORTED'' else ''RETAINED_DISTINCT_RANGES''), g_OccurrenceIDs = os\<rparr>
     in \<lparr>Endpoints = [''b'', ''a''], Groups = [g ''a'' ''b'' [''o1''], g ''a'' ''b'' [], g ''b'' ''b'' [''o2'', ''o3'']],
         Occurrences = [''o1'', ''o2'', ''o3'']\<rparr>)"

theorem prove_metrics_exact_witness:
  "\<exists>m. compute (\<lambda>_. False) sample_rows = Inr m \<and> prove_metrics m sample_rows \<and> \<not> prove_metrics (m\<lparr>SelfLoopGroupCount := 0\<rparr>) sample_rows \<and>
     SelfLoopGroupCount m = 1 \<and> DistinctNonloopPairCount m = 1"
proof -
  have a: "admitted_rows sample_rows" by (simp add: admitted_rows_def sample_rows_def Let_def)
  obtain m where m: "compute (\<lambda>_. False) sample_rows = Inr m" "\<forall>e. prove_metrics e sample_rows \<longleftrightarrow> e\<lparr>MetricStatus := Completion\<rparr> = m"
    using prove_metrics_exact [OF a, of "\<lambda>_. False"] by auto
  have s: "m = metrics_of sample_rows" using m(1) compute_metrics [OF a, of "\<lambda>_. False"] by simp
  have "nonloop_pairs (Groups sample_rows) = {(''a'', ''b'')}" by (auto simp: nonloop_pairs_def sample_rows_def Let_def)
  then have f: "SelfLoopGroupCount m = 1" "DistinctNonloopPairCount m = 1" "MetricStatus m = Completion"
    by (simp_all add: s metrics_of_def Let_def) (simp add: sample_rows_def Let_def)
  have "m\<lparr>MetricStatus := Completion\<rparr> = m" using f(3) by (cases m) simp
  moreover have "m\<lparr>SelfLoopGroupCount := 0, MetricStatus := Completion\<rparr> \<noteq> m" using f(1) by (cases m) simp
  ultimately show ?thesis using m f by auto
qed

end
