(* ===== verification/Retained_Tables.thy ===== *)
theory Retained_Tables
  imports Call_Graph Bounded_Analysis
begin

text \<open>
  Package \<open>internal/retainedcalls\<close>, version 1 in \<open>export.go\<close>: \<open>extractTables\<close> flattens a native graph and its provenance into
  tables of endpoints, groups and occurrences, and \<open>Reconstruct\<close> checks the joins between the tables and rebuilds
  the graph from them alone. \<open>admit_tables\<close> adds the limits of \<open>AdmitRetained\<close> in \<open>internal/boundedanalysis\<close>. The receipt
  that a native graph carries is \<open>evidenceReceipt\<close> of \<open>internal/graph/result.go\<close>.

  SHA-256 in hexadecimal is the parameter \<open>sha\<close>. A native graph is given decoded, and the canonical encodings of the
  provenance are given as strings. Of a source receipt the identifier and the URI are modelled, which is what
  \<open>Reconstruct\<close> reads. \<open>reflect.DeepEqual\<close> tells a nil list from an empty one. Identifiers come from decoded JSON
  and are valid UTF-8. A Go \<open>int\<close> that is summed is a 64-bit word. The maps \<open>used\<close>, \<open>groups\<close> and \<open>sites\<close> are sets.
\<close>

section \<open>Tables\<close>

definition MaxRows :: nat where "MaxRows = 50000"

record EvidenceRelation =
  r_RelationID :: string
  r_RelationKind :: string
  r_EvidenceClass :: string
  r_EvidenceRole :: string
  r_Direction :: string
  r_Locator :: string
  r_SourceRevision :: string
  r_SupportContribution :: "64 word"
  r_SeedURI :: string
  r_SeedLabel :: string
  r_CandidateNodeID :: string
  r_InterfaceNodeID :: string
  r_ImplementationNodeID :: string
  r_CallerNodeID :: string
  r_CalleeNodeID :: string

record EvidenceReceipt =
  er_SupportTotal :: "64 word"
  er_Relations :: "EvidenceRelation list"

record SeedMembership =
  sm_MembershipID :: string
  sm_ExecutionBundleID :: string
  sm_SeedLabel :: string
  sm_SeedAt :: string
  sm_EvidenceKind :: string
  sm_EndpointID :: string

record Binding =
  b_Pointer :: string
  b_URI :: string
  b_Attribution :: string
  b_ReceiptIDs :: go_strings

record Receipt =
  rc_ID :: string
  rc_URI :: string

record Context =
  x_ID :: string
  x_GraphDigest :: string
  x_Envelope :: string
  x_Bundle :: string

record TableGroup =
  t_ContextID :: string
  t_RelationID :: string
  t_ExecutionBundleID :: string
  t_CallerNodeID :: string
  t_CalleeNodeID :: string
  t_Pointer :: string
  t_CallsiteState :: string
  t_OccurrenceIDs :: "string list"
  t_Receipt :: EvidenceRelation
  t_Memberships :: "SeedMembership list"
  t_OutgoingParticipation :: bool

record Occurrence =
  o_ID :: string
  o_ContextID :: string
  o_RelationID :: string
  o_CallerNodeID :: string
  o_CalleeNodeID :: string
  o_CallerURI :: string
  o_Range :: Range
  o_Binding :: Binding

record CallTables =
  ct_Contexts :: "Context list"
  ct_Endpoints :: "Node list"
  ct_Groups :: "TableGroup list"
  ct_Occurrences :: "Occurrence list"
  ct_NodeMemberships :: "SeedMembership list"
  ct_Bindings :: "Binding list"
  ct_Supply :: "Receipt option"
  ct_Captures :: "Receipt list"
  ct_SupportTotal :: "64 word"

record Projection =
  p_Endpoints :: "Node list"
  p_Edges :: "Call_Graph.Edge list"
  p_Receipt :: "EvidenceReceipt option"
  p_Memberships :: "SeedMembership list"
  p_Bindings :: "Binding list"
  p_Supply :: "Receipt option"
  p_Captures :: "Receipt list"

section \<open>Identities\<close>

definition position_json :: "Position \<Rightarrow> string" where
  "position_json p = json_object [json_field ''character'' (dec (unat (Character p))), json_field ''line'' (dec (unat (Line p)))]"

definition range_json :: "Range \<Rightarrow> string" where
  "range_json r = json_object [json_field ''end'' (position_json (End r)), json_field ''start'' (position_json (Start r))]"

definition occurrenceID :: "(string \<Rightarrow> string) \<Rightarrow> Occurrence \<Rightarrow> string" where
  "occurrenceID sha o' = ''sha256:'' @ sha (''lsp-trace.retained-calls.v1:occurrence'' @ [CHR 0x00] @
     ''['' @ json_join [json_string (o_ContextID o'), json_string (o_RelationID o'), json_string (o_CallerNodeID o'),
       json_string (o_CalleeNodeID o'), json_string (o_CallerURI o'), range_json (o_Range o')] @ '']'')"

section \<open>Reconstruction\<close>

datatype reconstruct_error =
    ContextOrRowBudget
  | DuplicateEndpoint
  | DuplicateOccurrence
  | OccurrenceIdentityMismatch
  | DuplicateSourceReceipt
  | MissingReceiptJoin
  | ReceiptURIMismatch
  | DuplicateBinding
  | DuplicateGroup
  | MissingEndpoint
  | CallsiteClassification
  | OccurrenceGroupJoin
  | OccurrenceBinding
  | GroupReceipt
  | GroupMembership
  | UnusedOccurrenceOrSupport
  | NodeGroupLimit

fun index_endpoints :: "Node list \<Rightarrow> (string \<rightharpoonup> Node) \<Rightarrow> reconstruct_error + (string \<rightharpoonup> Node)" where
  "index_endpoints [] m = Inr m"
| "index_endpoints (n # ns) m = (if m (ID n) \<noteq> None then Inl DuplicateEndpoint else index_endpoints ns (m(ID n \<mapsto> n)))"

fun index_occurrences :: "(string \<Rightarrow> string) \<Rightarrow> Occurrence list \<Rightarrow> (string \<rightharpoonup> Occurrence) \<Rightarrow> reconstruct_error + (string \<rightharpoonup> Occurrence)" where
  "index_occurrences sha [] m = Inr m"
| "index_occurrences sha (o' # os) m =
     (if m (o_ID o') \<noteq> None then Inl DuplicateOccurrence
      else if o_ID o' \<noteq> occurrenceID sha o' then Inl OccurrenceIdentityMismatch
      else index_occurrences sha os (m(o_ID o' \<mapsto> o')))"

fun index_receipts :: "Receipt list \<Rightarrow> (string \<rightharpoonup> Receipt) \<Rightarrow> reconstruct_error + (string \<rightharpoonup> Receipt)" where
  "index_receipts [] m = Inr m"
| "index_receipts (r # rs) m = (if m (rc_ID r) \<noteq> None then Inl DuplicateSourceReceipt else index_receipts rs (m(rc_ID r \<mapsto> r)))"

definition ids_of :: "go_strings \<Rightarrow> string list" where
  "ids_of xs = (case xs of None \<Rightarrow> [] | Some ys \<Rightarrow> ys)"

fun index_bindings :: "(string \<rightharpoonup> Receipt) \<Rightarrow> Binding list \<Rightarrow> (string \<rightharpoonup> Binding) \<Rightarrow> reconstruct_error + (string \<rightharpoonup> Binding)" where
  "index_bindings receipts [] m = Inr m"
| "index_bindings receipts (b # bs) m =
     (if b_Attribution b = ''SOURCE'' \<and> ids_of (b_ReceiptIDs b) = [] then Inl MissingReceiptJoin
      else if \<exists>i \<in> set (ids_of (b_ReceiptIDs b)). (case receipts i of None \<Rightarrow> True | Some r \<Rightarrow> rc_URI r \<noteq> b_URI b) then Inl ReceiptURIMismatch
      else if m (b_Pointer b) \<noteq> None then Inl DuplicateBinding
      else index_bindings receipts bs (m(b_Pointer b \<mapsto> b)))"

text \<open>The loop over the occurrences of a group; the arguments are the index, the used identifiers and the sites so far.\<close>

definition zero_binding :: Binding where
  "zero_binding = \<lparr>b_Pointer = '''', b_URI = '''', b_Attribution = '''', b_ReceiptIDs = None\<rparr>"

definition site_pointer :: "string \<Rightarrow> nat \<Rightarrow> string" where
  "site_pointer p j = p @ ''/call_sites/'' @ dec j"

definition joins :: "TableGroup \<Rightarrow> Node \<Rightarrow> Occurrence \<Rightarrow> bool" where
  "joins g caller o' \<longleftrightarrow> o_ContextID o' = t_ContextID g \<and> o_RelationID o' = t_RelationID g \<and> o_CallerNodeID o' = t_CallerNodeID g \<and>
     o_CalleeNodeID o' = t_CalleeNodeID g \<and> o_CallerURI o' = URI caller"

fun join_occurrences :: "(string \<rightharpoonup> Occurrence) \<Rightarrow> (string \<rightharpoonup> Binding) \<Rightarrow> TableGroup \<Rightarrow> Node \<Rightarrow> nat \<Rightarrow> string list \<Rightarrow> string set \<Rightarrow> Range list
    \<Rightarrow> reconstruct_error + (string set \<times> Range list)" where
  "join_occurrences occurrences bindings g caller j [] used sites = Inr (used, sites)"
| "join_occurrences occurrences bindings g caller j (i # is) used sites =
     (case occurrences i of
        None \<Rightarrow> Inl OccurrenceGroupJoin
      | Some o' \<Rightarrow>
          if i \<in> used \<or> o_Range o' \<in> set sites \<or> \<not> joins g caller o' then Inl OccurrenceGroupJoin
          else if b_Pointer (o_Binding o') \<noteq> site_pointer (t_Pointer g) j \<or> b_URI (o_Binding o') \<noteq> URI caller \<or>
              (case bindings (b_Pointer (o_Binding o')) of None \<Rightarrow> zero_binding | Some b \<Rightarrow> b) \<noteq> o_Binding o' then Inl OccurrenceBinding
          else join_occurrences occurrences bindings g caller (Suc j) is (insert i used) (sites @ [o_Range o']))"

record rebuild =
  rb_used :: "string set"
  rb_groups :: "string set"
  rb_edges :: "Call_Graph.Edge list"
  rb_relations :: "EvidenceRelation list"
  rb_support :: "64 word"
  rb_memberships :: "SeedMembership list"

definition membership_ok :: "TableGroup \<Rightarrow> SeedMembership \<Rightarrow> bool" where
  "membership_ok g m \<longleftrightarrow> sm_EndpointID m = t_RelationID g \<and> sm_EvidenceKind m = ''CALL_RELATION'' \<and> sm_ExecutionBundleID m = t_ExecutionBundleID g"

definition rebuild_group :: "string \<Rightarrow> (string \<rightharpoonup> Node) \<Rightarrow> (string \<rightharpoonup> Occurrence) \<Rightarrow> (string \<rightharpoonup> Binding) \<Rightarrow> TableGroup \<Rightarrow> rebuild
    \<Rightarrow> reconstruct_error + rebuild" where
  "rebuild_group context nodes occurrences bindings g s =
     (if t_RelationID g \<in> rb_groups s \<or> t_ContextID g \<noteq> context then Inl DuplicateGroup
      else case (nodes (t_CallerNodeID g), nodes (t_CalleeNodeID g)) of
          (Some caller, Some _) \<Rightarrow>
            if t_OccurrenceIDs g = [] \<and> t_CallsiteState g \<noteq> ''UNREPORTED'' \<or>
               t_OccurrenceIDs g \<noteq> [] \<and> t_CallsiteState g \<noteq> ''RETAINED_DISTINCT_RANGES'' then Inl CallsiteClassification
            else (case join_occurrences occurrences bindings g caller 0 (t_OccurrenceIDs g) (rb_used s) [] of
                Inl err \<Rightarrow> Inl err
              | Inr (used, sites) \<Rightarrow>
                  if r_RelationID (t_Receipt g) \<noteq> t_RelationID g \<or> r_CallerNodeID (t_Receipt g) \<noteq> t_CallerNodeID g \<or>
                     r_CalleeNodeID (t_Receipt g) \<noteq> t_CalleeNodeID g then Inl GroupReceipt
                  else if \<exists>m \<in> set (t_Memberships g). \<not> membership_ok g m then Inl GroupMembership
                  else Inr \<lparr>rb_used = used, rb_groups = insert (t_RelationID g) (rb_groups s),
                    rb_edges = rb_edges s @ [\<lparr>ERelationID = t_RelationID g, EExecutionBundleID = t_ExecutionBundleID g,
                      CallerNodeID = t_CallerNodeID g, CalleeNodeID = t_CalleeNodeID g, CallSites = sort_key range_key sites\<rparr>],
                    rb_relations = rb_relations s @ [t_Receipt g], rb_support = rb_support s + r_SupportContribution (t_Receipt g),
                    rb_memberships = rb_memberships s @ t_Memberships g\<rparr>)
        | _ \<Rightarrow> Inl MissingEndpoint)"

fun rebuild_groups :: "string \<Rightarrow> (string \<rightharpoonup> Node) \<Rightarrow> (string \<rightharpoonup> Occurrence) \<Rightarrow> (string \<rightharpoonup> Binding) \<Rightarrow> TableGroup list \<Rightarrow> rebuild
    \<Rightarrow> reconstruct_error + rebuild" where
  "rebuild_groups context nodes occurrences bindings [] s = Inr s"
| "rebuild_groups context nodes occurrences bindings (g # gs) s =
     (case rebuild_group context nodes occurrences bindings g s of
        Inl err \<Rightarrow> Inl err
      | Inr s' \<Rightarrow> rebuild_groups context nodes occurrences bindings gs s')"

definition finish_projection :: "CallTables \<Rightarrow> rebuild \<Rightarrow> reconstruct_error + Projection" where
  "finish_projection t s =
     (if card (rb_used s) \<noteq> length (ct_Occurrences t) \<or> rb_support s \<noteq> ct_SupportTotal t then Inl UnusedOccurrenceOrSupport
      else Inr \<lparr>p_Endpoints = ct_Endpoints t, p_Edges = rb_edges s,
        p_Receipt = (if rb_relations s = [] then None
          else Some \<lparr>er_SupportTotal = rb_support s, er_Relations = sort_key r_RelationID (rb_relations s)\<rparr>),
        p_Memberships = sort_key sm_MembershipID (rb_memberships s), p_Bindings = ct_Bindings t, p_Supply = ct_Supply t, p_Captures = ct_Captures t\<rparr>)"

definition Reconstruct :: "(string \<Rightarrow> string) \<Rightarrow> CallTables \<Rightarrow> reconstruct_error + Projection" where
  "Reconstruct sha t =
     (if length (ct_Contexts t) \<noteq> 1 \<or> length (ct_Groups t) > MaxRows \<or> length (ct_Occurrences t) > MaxRows \<or> length (ct_Endpoints t) > MaxRows \<or>
         length (ct_Bindings t) > MaxRows \<or> length (ct_Captures t) > MaxRows \<or> length (ct_NodeMemberships t) > MaxRows then Inl ContextOrRowBudget
      else case index_endpoints (ct_Endpoints t) Map.empty of
          Inl err \<Rightarrow> Inl err
        | Inr nodes \<Rightarrow>
      (case index_occurrences sha (ct_Occurrences t) Map.empty of
          Inl err \<Rightarrow> Inl err
        | Inr occurrences \<Rightarrow>
      (case index_receipts (ct_Captures t @ (case ct_Supply t of None \<Rightarrow> [] | Some r \<Rightarrow> [r])) Map.empty of
          Inl err \<Rightarrow> Inl err
        | Inr receipts \<Rightarrow>
      (case index_bindings receipts (ct_Bindings t) Map.empty of
          Inl err \<Rightarrow> Inl err
        | Inr bindings \<Rightarrow>
      (case rebuild_groups (x_ID (hd (ct_Contexts t))) nodes occurrences bindings (ct_Groups t)
            \<lparr>rb_used = {}, rb_groups = {}, rb_edges = [], rb_relations = [], rb_support = 0, rb_memberships = ct_NodeMemberships t\<rparr> of
          Inl err \<Rightarrow> Inl err
        | Inr s \<Rightarrow> finish_projection t s)))))"

section \<open>The receipt of a result\<close>

definition newEvidenceRelation :: "env \<Rightarrow> string \<Rightarrow> string \<Rightarrow> string \<Rightarrow> string \<Rightarrow> string \<Rightarrow> string \<Rightarrow> node_id \<Rightarrow> node_id \<Rightarrow> node_id \<Rightarrow> node_id \<Rightarrow> node_id \<Rightarrow> EvidenceRelation" where
  "newEvidenceRelation E kind direction locator sourceRevision seedURI seedLabel candidateID interfaceID implementationID callerID calleeID =
     \<lparr>r_RelationID = canonicalRelationID E kind direction locator candidateID interfaceID implementationID callerID calleeID,
      r_RelationKind = kind, r_EvidenceClass = evidenceClassForKind kind, r_EvidenceRole = evidenceRoleForKind kind,
      r_Direction = direction, r_Locator = locator, r_SourceRevision = sourceRevision,
      r_SupportContribution = word_of_int (supportForKind kind), r_SeedURI = seedURI, r_SeedLabel = seedLabel,
      r_CandidateNodeID = candidateID, r_InterfaceNodeID = interfaceID, r_ImplementationNodeID = implementationID,
      r_CallerNodeID = callerID, r_CalleeNodeID = calleeID\<rparr>"

definition call_relation :: "env \<Rightarrow> string \<Rightarrow> Call_Graph.Edge \<Rightarrow> EvidenceRelation" where
  "call_relation E revision e =
     (newEvidenceRelation E ''CALL_RELATION'' ''CALLER_TO_CALLEE'' (CallerNodeID e @ ''->'' @ CalleeNodeID e) revision
        '''' '''' '''' '''' '''' (CallerNodeID e) (CalleeNodeID e))\<lparr>r_RelationID := ERelationID e\<rparr>"

definition sibling_relation :: "env \<Rightarrow> string \<Rightarrow> SiblingCandidate \<Rightarrow> EvidenceRelation" where
  "sibling_relation E revision c =
     (newEvidenceRelation E ''SIBLING_CANDIDATE'' (Direction c) (ID (Origin c) @ ''->'' @ ID (Candidate c)) revision
        '''' '''' (ID (Candidate c)) '''' '''' (ID (Origin c)) (ID (Candidate c)))\<lparr>r_RelationID := SRelationID c\<rparr>"

definition dispatch_relation :: "env \<Rightarrow> string \<Rightarrow> DispatchRelationship \<Rightarrow> EvidenceRelation" where
  "dispatch_relation E revision d =
     (newEvidenceRelation E ''DISPATCH_ASSOCIATION'' ''ASSOCIATION'' (ID (Interface d) @ ''->'' @ ID (Implementation d)) revision
        '''' '''' '''' (ID (Interface d)) (ID (Implementation d)) '''' '''')\<lparr>r_RelationID := DRelationID d\<rparr>"

text \<open>The loop over \<open>relations[1:]\<close>; the first argument is the last relation kept.\<close>

fun unique_relations :: "EvidenceRelation \<Rightarrow> EvidenceRelation list \<Rightarrow> EvidenceRelation list" where
  "unique_relations r [] = [r]"
| "unique_relations r (x # xs) = (if r_RelationID x \<noteq> r_RelationID r then r # unique_relations x xs else unique_relations r xs)"

definition evidenceReceipt :: "env \<Rightarrow> string \<Rightarrow> Call_Graph.Result \<Rightarrow> EvidenceReceipt option" where
  "evidenceReceipt E revision r =
     (case sort_key r_RelationID (map (call_relation E revision) (Edges r) @ map (sibling_relation E revision) (SiblingCandidates r) @
             map (dispatch_relation E revision) (DispatchRelationships r)) of
        [] \<Rightarrow> None
      | x # xs \<Rightarrow> (let out = unique_relations x xs in
          Some \<lparr>er_SupportTotal = sum_list (map r_SupportContribution out), er_Relations = out\<rparr>))"

section \<open>Extraction\<close>

record Native =
  n_Nodes :: "Node list"
  n_Edges :: "Call_Graph.Edge list"
  n_Receipt :: "EvidenceReceipt option"
  n_Memberships :: "SeedMembership list"
  n_Slice :: "SliceEvidence option"

record Provenance =
  v_GraphDigest :: string
  v_Bindings :: "Binding list"
  v_Supply :: "Receipt option"
  v_Captures :: "Receipt list"
  v_canonical :: string
  v_envelope :: string
  v_bundle :: string

datatype extract_error = DuplicateHistoricalRelation | NonDistinctSites | RowBudget

definition zero_relation :: EvidenceRelation where
  "zero_relation = \<lparr>r_RelationID = '''', r_RelationKind = '''', r_EvidenceClass = '''', r_EvidenceRole = '''', r_Direction = '''', r_Locator = '''',
     r_SourceRevision = '''', r_SupportContribution = 0, r_SeedURI = '''', r_SeedLabel = '''', r_CandidateNodeID = '''', r_InterfaceNodeID = '''',
     r_ImplementationNodeID = '''', r_CallerNodeID = '''', r_CalleeNodeID = ''''\<rparr>"

text \<open>A map filled by a loop of assignments: the last entry of a key stays.\<close>

definition assign_all :: "('a \<Rightarrow> string) \<Rightarrow> 'a list \<Rightarrow> string \<rightharpoonup> 'a" where
  "assign_all f xs = fold (\<lambda>x m. m(f x \<mapsto> x)) xs Map.empty"

definition contextID :: "(string \<Rightarrow> string) \<Rightarrow> Provenance \<Rightarrow> string" where
  "contextID sha e = ''sha256:'' @ sha (''lsp-trace.retained-calls.v1:context'' @ [CHR 0x00] @ v_canonical e)"

definition edge_pointer :: "nat \<Rightarrow> string" where
  "edge_pointer i = ''/edges/'' @ dec i"

definition receipt_of :: "Native \<Rightarrow> string \<Rightarrow> EvidenceRelation" where
  "receipt_of n i = (case n_Receipt n of None \<Rightarrow> zero_relation
     | Some r \<Rightarrow> (case assign_all r_RelationID (er_Relations r) i of None \<Rightarrow> zero_relation | Some x \<Rightarrow> x))"

definition memberships_of :: "Native \<Rightarrow> string \<Rightarrow> SeedMembership list" where
  "memberships_of n i = filter (\<lambda>m. sm_EvidenceKind m = ''CALL_RELATION'' \<and> sm_EndpointID m = i) (n_Memberships n)"

definition uri_of :: "Native \<Rightarrow> string \<Rightarrow> string" where
  "uri_of n i = (case assign_all ID (n_Nodes n) i of None \<Rightarrow> '''' | Some v \<Rightarrow> URI v)"

definition binding_of :: "Provenance \<Rightarrow> string \<Rightarrow> Binding" where
  "binding_of e p = (case assign_all b_Pointer (v_Bindings e) p of None \<Rightarrow> zero_binding | Some b \<Rightarrow> b)"

definition outgoing_of :: "Native \<Rightarrow> string \<Rightarrow> bool" where
  "outgoing_of n i \<longleftrightarrow> (case n_Slice n of None \<Rightarrow> False | Some s \<Rightarrow> i \<in> set (OutgoingRelationIDs s))"

definition new_occurrence :: "(string \<Rightarrow> string) \<Rightarrow> Provenance \<Rightarrow> Native \<Rightarrow> Call_Graph.Edge \<Rightarrow> nat \<Rightarrow> nat \<Rightarrow> Range \<Rightarrow> Occurrence" where
  "new_occurrence sha e n edge i j site =
     (let o' = \<lparr>o_ID = '''', o_ContextID = contextID sha e, o_RelationID = ERelationID edge, o_CallerNodeID = CallerNodeID edge,
        o_CalleeNodeID = CalleeNodeID edge, o_CallerURI = uri_of n (CallerNodeID edge), o_Range = site,
        o_Binding = binding_of e (site_pointer (edge_pointer i) j)\<rparr>
      in o'\<lparr>o_ID := occurrenceID sha o'\<rparr>)"

fun extract_sites :: "(nat \<Rightarrow> Range \<Rightarrow> Occurrence) \<Rightarrow> nat \<Rightarrow> Range list \<Rightarrow> Range set \<Rightarrow> extract_error + Occurrence list" where
  "extract_sites occ j [] seen = Inr []"
| "extract_sites occ j (site # sites) seen =
     (if site \<in> seen then Inl NonDistinctSites
      else case extract_sites occ (Suc j) sites (insert site seen) of Inl err \<Rightarrow> Inl err | Inr os \<Rightarrow> Inr (occ j site # os))"

definition new_group :: "(string \<Rightarrow> string) \<Rightarrow> Provenance \<Rightarrow> Native \<Rightarrow> Call_Graph.Edge \<Rightarrow> nat \<Rightarrow> Occurrence list \<Rightarrow> TableGroup" where
  "new_group sha e n edge i os =
     \<lparr>t_ContextID = contextID sha e, t_RelationID = ERelationID edge, t_ExecutionBundleID = EExecutionBundleID edge,
      t_CallerNodeID = CallerNodeID edge, t_CalleeNodeID = CalleeNodeID edge, t_Pointer = edge_pointer i,
      t_CallsiteState = (if os = [] then ''UNREPORTED'' else ''RETAINED_DISTINCT_RANGES''), t_OccurrenceIDs = map o_ID os,
      t_Receipt = receipt_of n (ERelationID edge), t_Memberships = memberships_of n (ERelationID edge),
      t_OutgoingParticipation = outgoing_of n (ERelationID edge)\<rparr>"

fun extract_edges :: "(string \<Rightarrow> string) \<Rightarrow> Provenance \<Rightarrow> Native \<Rightarrow> nat \<Rightarrow> Call_Graph.Edge list \<Rightarrow> string set
    \<Rightarrow> extract_error + (TableGroup list \<times> Occurrence list)" where
  "extract_edges sha e n i [] seen = Inr ([], [])"
| "extract_edges sha e n i (edge # edges) seen =
     (if ERelationID edge \<in> seen then Inl DuplicateHistoricalRelation
      else case extract_sites (new_occurrence sha e n edge i) 0 (CallSites edge) {} of
          Inl err \<Rightarrow> Inl err
        | Inr os \<Rightarrow> (case extract_edges sha e n (Suc i) edges (insert (ERelationID edge) seen) of
              Inl err \<Rightarrow> Inl err
            | Inr (gs, os') \<Rightarrow> Inr (new_group sha e n edge i os # gs, os @ os')))"

definition extractTables :: "(string \<Rightarrow> string) \<Rightarrow> Provenance \<Rightarrow> Native \<Rightarrow> extract_error + CallTables" where
  "extractTables sha e n =
     (case extract_edges sha e n 0 (n_Edges n) {} of
        Inl err \<Rightarrow> Inl err
      | Inr (gs, os) \<Rightarrow>
          if length gs > MaxRows \<or> length os > MaxRows \<or> length (n_Nodes n) > MaxRows then Inl RowBudget
          else Inr \<lparr>ct_Contexts = [\<lparr>x_ID = contextID sha e, x_GraphDigest = v_GraphDigest e, x_Envelope = v_envelope e, x_Bundle = v_bundle e\<rparr>],
            ct_Endpoints = n_Nodes n, ct_Groups = gs, ct_Occurrences = os,
            ct_NodeMemberships = filter (\<lambda>m. sm_EvidenceKind m \<noteq> ''CALL_RELATION'') (n_Memberships n),
            ct_Bindings = v_Bindings e, ct_Supply = v_Supply e, ct_Captures = v_Captures e,
            ct_SupportTotal = (case n_Receipt n of None \<Rightarrow> 0 | Some r \<Rightarrow> er_SupportTotal r)\<rparr>)"

text \<open>What \<open>ValidateFor\<close> compares the reconstruction with.\<close>

definition native_projection :: "Provenance \<Rightarrow> Native \<Rightarrow> Projection" where
  "native_projection e n = \<lparr>p_Endpoints = n_Nodes n, p_Edges = n_Edges n, p_Receipt = n_Receipt n, p_Memberships = n_Memberships n,
     p_Bindings = v_Bindings e, p_Supply = v_Supply e, p_Captures = v_Captures e\<rparr>"

section \<open>Admission\<close>

text \<open>The table checks of \<open>AdmitRetained\<close>, and the rows that the analyses read.\<close>

definition admit_tables :: "(string \<Rightarrow> string) \<Rightarrow> CallTables \<Rightarrow> reconstruct_error + Projection" where
  "admit_tables sha t =
     (if length (ct_Endpoints t) > MaxNodesLimit \<or> length (ct_Groups t) > MaxEdgesLimit then Inl NodeGroupLimit else Reconstruct sha t)"

definition row_of :: "TableGroup \<Rightarrow> Group" where
  "row_of g = \<lparr>g_ContextID = t_ContextID g, g_RelationID = t_RelationID g, g_ExecutionBundleID = t_ExecutionBundleID g,
     g_CallerNodeID = t_CallerNodeID g, g_CalleeNodeID = t_CalleeNodeID g, g_CallsiteState = t_CallsiteState g, g_OccurrenceIDs = t_OccurrenceIDs g\<rparr>"

definition rows_of :: "CallTables \<Rightarrow> Tables" where
  "rows_of t = \<lparr>Endpoints = map ID (ct_Endpoints t), Groups = map row_of (ct_Groups t), Occurrences = map o_ID (ct_Occurrences t)\<rparr>"

end
