(* ===== verification/Retained_Tables_Properties.thy ===== *)
theory Retained_Tables_Properties
  imports Retained_Tables Call_Graph_Properties Component_Properties Metrics_Properties
begin

text \<open>
  Properties of \<open>Retained_Tables\<close>. \<open>tables_joined\<close> says in one formula what \<open>Reconstruct\<close> checks row by row, and
  \<open>projection_of\<close> what it then returns; extraction followed by reconstruction gives back the native graph; and
  the tables that are admitted meet what the analyses of \<open>Component_Properties\<close> and \<open>Metrics_Properties\<close> assume.
\<close>

section \<open>The maps\<close>

definition keyed :: "('a \<Rightarrow> string) \<Rightarrow> 'a list \<Rightarrow> string \<rightharpoonup> 'a" where
  "keyed f xs = map_of (map (\<lambda>x. (f x, x)) xs)"

lemma keyed_Nil [simp]: "keyed f [] = Map.empty"
  by (simp add: keyed_def)

lemma dom_keyed [simp]: "dom (keyed f xs) = f ` set xs"
  by (simp add: keyed_def dom_map_of_conv_image_fst image_image)

lemma keyed_None: "keyed f xs k = None \<longleftrightarrow> k \<notin> f ` set xs"
  by (metis dom_keyed domIff)

lemma keyed_Cons: "keyed f (x # xs) = (keyed f xs)(f x \<mapsto> x)"
  by (simp add: keyed_def)

lemma keyed_Some: "distinct (map f xs) \<Longrightarrow> keyed f xs k = Some x \<longleftrightarrow> x \<in> set xs \<and> f x = k"
proof (induction xs)
  case (Cons a xs)
  then show ?case by (cases "k = f a") (auto simp: keyed_Cons, metis imageI)
qed simp

lemma keyed_row: "distinct (map f xs) \<Longrightarrow> x \<in> set xs \<Longrightarrow> keyed f xs (f x) = Some x"
  by (simp add: keyed_Some)

lemma keyed_insert: "f x \<notin> f ` set xs \<Longrightarrow> m(f x \<mapsto> x) ++ keyed f xs = m ++ keyed f (x # xs)"
  by (simp add: keyed_Cons map_add_upd_left)

lemma assign_all_keyed: "distinct (map f xs) \<Longrightarrow> assign_all f xs = keyed f xs"
proof -
  have "distinct (map f xs) \<Longrightarrow> fold (\<lambda>x m. m(f x \<mapsto> x)) xs m = m ++ keyed f xs" for m
    by (induction xs arbitrary: m) (simp_all add: keyed_insert)
  then show "distinct (map f xs) \<Longrightarrow> assign_all f xs = keyed f xs"
    by (simp add: assign_all_def)
qed

definition indexed :: "('a \<Rightarrow> string) \<Rightarrow> 'a list \<Rightarrow> (string \<rightharpoonup> 'a) \<Rightarrow> (string \<rightharpoonup> 'a) \<Rightarrow> bool" where
  "indexed f xs m m' \<longleftrightarrow> distinct (map f xs) \<and> f ` set xs \<inter> dom m = {} \<and> m' = m ++ keyed f xs"

lemma indexed_Nil: "indexed f [] m m' \<longleftrightarrow> m' = m"
  by (simp add: indexed_def)

lemma indexed_empty: "indexed f xs Map.empty m \<longleftrightarrow> distinct (map f xs) \<and> m = keyed f xs"
  by (simp add: indexed_def)

lemma indexed_step: "m (f x) = None \<Longrightarrow> indexed f xs (m(f x \<mapsto> x)) m' \<longleftrightarrow> indexed f (x # xs) m m'"
proof (cases "f x \<in> f ` set xs")
  case False
  then show "m (f x) = None \<Longrightarrow> ?thesis" using keyed_insert [of f x xs m] by (simp add: indexed_def domIff)
qed (auto simp: indexed_def)

lemma indexed_taken: "m (f x) \<noteq> None \<Longrightarrow> \<not> indexed f (x # xs) m m'"
  by (auto simp: indexed_def)

lemmas indexed_loop = indexed_step indexed_taken list.set ball_simps if_True if_False sum.distinct sum.inject simp_thms

lemma index_endpoints_iff: "index_endpoints ns m = Inr m' \<longleftrightarrow> indexed ID ns m m'"
proof (induction ns arbitrary: m)
  case (Cons n ns)
  show ?case
    by (cases "m (ID n) = None") (simp_all only: index_endpoints.simps Cons.IH indexed_loop)
qed (auto simp: indexed_Nil)

definition identified :: "(string \<Rightarrow> string) \<Rightarrow> Occurrence \<Rightarrow> bool" where
  "identified sha o' \<longleftrightarrow> o_ID o' = occurrenceID sha o'"

lemma index_occurrences_iff: "index_occurrences sha os m = Inr m' \<longleftrightarrow> indexed o_ID os m m' \<and> (\<forall>o' \<in> set os. identified sha o')"
proof (induction os arbitrary: m)
  case (Cons o' os)
  show ?case
    by (cases "m (o_ID o') = None"; cases "identified sha o'")
      (simp_all only: index_occurrences.simps identified_def [symmetric] Cons.IH indexed_loop)
qed (auto simp: indexed_Nil)

lemma index_receipts_iff: "index_receipts rs m = Inr m' \<longleftrightarrow> indexed rc_ID rs m m'"
proof (induction rs arbitrary: m)
  case (Cons r rs)
  show ?case
    by (cases "m (rc_ID r) = None") (simp_all only: index_receipts.simps Cons.IH indexed_loop)
qed (auto simp: indexed_Nil)

definition binding_ok :: "(string \<rightharpoonup> Receipt) \<Rightarrow> Binding \<Rightarrow> bool" where
  "binding_ok receipts b \<longleftrightarrow> (b_Attribution b = ''SOURCE'' \<longrightarrow> ids_of (b_ReceiptIDs b) \<noteq> []) \<and>
     (\<forall>i \<in> set (ids_of (b_ReceiptIDs b)). \<exists>r. receipts i = Some r \<and> rc_URI r = b_URI b)"

lemma index_bindings_step:
  "index_bindings receipts (b # bs) m =
     (if \<not> binding_ok receipts b then
        Inl (if b_Attribution b = ''SOURCE'' \<and> ids_of (b_ReceiptIDs b) = [] then MissingReceiptJoin else ReceiptURIMismatch)
      else if m (b_Pointer b) \<noteq> None then Inl DuplicateBinding
      else index_bindings receipts bs (m(b_Pointer b \<mapsto> b)))"
  by (auto simp: binding_ok_def split: option.splits)

lemma index_bindings_iff: "index_bindings receipts bs m = Inr m' \<longleftrightarrow> indexed b_Pointer bs m m' \<and> (\<forall>b \<in> set bs. binding_ok receipts b)"
proof (induction bs arbitrary: m)
  case (Cons b bs)
  show ?case
    by (cases "m (b_Pointer b) = None"; cases "binding_ok receipts b")
      (simp_all only: index_bindings_step Cons.IH indexed_loop)
qed (auto simp: indexed_Nil)

section \<open>Occurrences and groups\<close>

definition bound :: "(string \<rightharpoonup> Binding) \<Rightarrow> TableGroup \<Rightarrow> Node \<Rightarrow> nat \<Rightarrow> Occurrence \<Rightarrow> bool" where
  "bound bindings g caller j o' \<longleftrightarrow> b_Pointer (o_Binding o') = site_pointer (t_Pointer g) j \<and> b_URI (o_Binding o') = URI caller \<and>
     (case bindings (b_Pointer (o_Binding o')) of None \<Rightarrow> zero_binding | Some b \<Rightarrow> b) = o_Binding o'"

definition range_at :: "(string \<rightharpoonup> Occurrence) \<Rightarrow> string \<Rightarrow> Range" where
  "range_at occurrences i = o_Range (the (occurrences i))"

lemma join_occurrences_iff:
  "join_occurrences occurrences bindings g caller j is used ranges = Inr (used', ranges') \<longleftrightarrow>
     (\<forall>k < length is. \<exists>o'. occurrences (is ! k) = Some o' \<and> joins g caller o' \<and> bound bindings g caller (j + k) o') \<and>
     distinct is \<and> set is \<inter> used = {} \<and> distinct (map (range_at occurrences) is) \<and> range_at occurrences ` set is \<inter> set ranges = {} \<and>
     used' = used \<union> set is \<and> ranges' = ranges @ map (range_at occurrences) is"
proof (induction "is" arbitrary: j used ranges)
  case (Cons i "is")
  show ?case
  proof (cases "occurrences i")
    case (Some o')
    then have r: "range_at occurrences i = o_Range o'" by (simp add: range_at_def)
    show ?thesis
      using Some r by (auto simp: All_less_Suc2 Cons.IH bound_def)
  qed (auto simp: All_less_Suc2)
qed auto

definition group_ok :: "string \<Rightarrow> (string \<rightharpoonup> Node) \<Rightarrow> (string \<rightharpoonup> Occurrence) \<Rightarrow> (string \<rightharpoonup> Binding) \<Rightarrow> TableGroup \<Rightarrow> bool" where
  "group_ok ctx nodes occurrences bindings g \<longleftrightarrow> t_ContextID g = ctx \<and> nodes (t_CalleeNodeID g) \<noteq> None \<and>
     t_CallsiteState g = (if t_OccurrenceIDs g = [] then ''UNREPORTED'' else ''RETAINED_DISTINCT_RANGES'') \<and>
     (\<exists>caller. nodes (t_CallerNodeID g) = Some caller \<and> (\<forall>k < length (t_OccurrenceIDs g). \<exists>o'.
        occurrences (t_OccurrenceIDs g ! k) = Some o' \<and> joins g caller o' \<and> bound bindings g caller k o')) \<and>
     distinct (map (range_at occurrences) (t_OccurrenceIDs g)) \<and>
     r_RelationID (t_Receipt g) = t_RelationID g \<and> r_CallerNodeID (t_Receipt g) = t_CallerNodeID g \<and>
     r_CalleeNodeID (t_Receipt g) = t_CalleeNodeID g \<and> (\<forall>m \<in> set (t_Memberships g). membership_ok g m)"

definition group_edge :: "(string \<rightharpoonup> Occurrence) \<Rightarrow> TableGroup \<Rightarrow> Call_Graph.Edge" where
  "group_edge occurrences g = \<lparr>ERelationID = t_RelationID g, EExecutionBundleID = t_ExecutionBundleID g, CallerNodeID = t_CallerNodeID g,
     CalleeNodeID = t_CalleeNodeID g, CallSites = sort_key range_key (map (range_at occurrences) (t_OccurrenceIDs g))\<rparr>"

definition rebuilt :: "(string \<rightharpoonup> Occurrence) \<Rightarrow> TableGroup list \<Rightarrow> rebuild \<Rightarrow> rebuild" where
  "rebuilt occurrences gs s = \<lparr>rb_used = rb_used s \<union> set (concat (map t_OccurrenceIDs gs)), rb_groups = rb_groups s \<union> t_RelationID ` set gs,
     rb_edges = rb_edges s @ map (group_edge occurrences) gs, rb_relations = rb_relations s @ map t_Receipt gs,
     rb_support = rb_support s + sum_list (map (r_SupportContribution \<circ> t_Receipt) gs),
     rb_memberships = rb_memberships s @ concat (map t_Memberships gs)\<rparr>"

lemma rebuild_group_iff:
  "rebuild_group ctx nodes occurrences bindings g s = Inr s' \<longleftrightarrow>
     t_RelationID g \<notin> rb_groups s \<and> group_ok ctx nodes occurrences bindings g \<and> distinct (t_OccurrenceIDs g) \<and>
     set (t_OccurrenceIDs g) \<inter> rb_used s = {} \<and> s' = rebuilt occurrences [g] s"
proof (cases "t_RelationID g \<in> rb_groups s \<or> t_ContextID g \<noteq> ctx \<or> nodes (t_CallerNodeID g) = None \<or> nodes (t_CalleeNodeID g) = None \<or>
    t_CallsiteState g \<noteq> (if t_OccurrenceIDs g = [] then ''UNREPORTED'' else ''RETAINED_DISTINCT_RANGES'')")
  case True
  then show ?thesis
    by (auto simp: rebuild_group_def group_ok_def split: option.splits)
next
  case False
  then obtain caller where caller: "nodes (t_CallerNodeID g) = Some caller" by auto
  show ?thesis
  proof (cases "join_occurrences occurrences bindings g caller 0 (t_OccurrenceIDs g) (rb_used s) []")
    case (Inl err)
    then have "\<not> (\<exists>u. join_occurrences occurrences bindings g caller 0 (t_OccurrenceIDs g) (rb_used s) [] = Inr u)" by simp
    then have no: "\<not> ((\<forall>k < length (t_OccurrenceIDs g). \<exists>o'. occurrences (t_OccurrenceIDs g ! k) = Some o' \<and> joins g caller o' \<and> bound bindings g caller k o') \<and>
        distinct (t_OccurrenceIDs g) \<and> set (t_OccurrenceIDs g) \<inter> rb_used s = {} \<and> distinct (map (range_at occurrences) (t_OccurrenceIDs g)))"
      using join_occurrences_iff [of occurrences bindings g caller 0 "t_OccurrenceIDs g" "rb_used s" "[]"] by auto
    have "rebuild_group ctx nodes occurrences bindings g s \<noteq> Inr s'"
      using False caller Inl by (auto simp: rebuild_group_def split: option.splits if_splits)
    with no caller show ?thesis by (auto simp: group_ok_def)
  next
    case (Inr u)
    obtain used ranges where u: "u = (used, ranges)" by (cases u)
    note j = Inr [unfolded u join_occurrences_iff]
    have "rebuild_group ctx nodes occurrences bindings g s =
        (if r_RelationID (t_Receipt g) \<noteq> t_RelationID g \<or> r_CallerNodeID (t_Receipt g) \<noteq> t_CallerNodeID g \<or> r_CalleeNodeID (t_Receipt g) \<noteq> t_CalleeNodeID g then Inl GroupReceipt
         else if \<exists>m \<in> set (t_Memberships g). \<not> membership_ok g m then Inl GroupMembership else Inr (rebuilt occurrences [g] s))"
      using False caller Inr u j by (auto simp: rebuild_group_def rebuilt_def group_edge_def split: option.splits if_splits)
    then show ?thesis
      using False caller j by (auto simp: group_ok_def)
  qed
qed

lemma rebuilt_Cons: "rebuilt occurrences gs (rebuilt occurrences [g] s) = rebuilt occurrences (g # gs) s"
  by (simp add: rebuilt_def Un_assoc add.assoc)

lemma rebuild_groups_iff:
  "rebuild_groups ctx nodes occurrences bindings gs s = Inr s' \<longleftrightarrow>
     distinct (map t_RelationID gs) \<and> t_RelationID ` set gs \<inter> rb_groups s = {} \<and> (\<forall>g \<in> set gs. group_ok ctx nodes occurrences bindings g) \<and>
     distinct (concat (map t_OccurrenceIDs gs)) \<and> set (concat (map t_OccurrenceIDs gs)) \<inter> rb_used s = {} \<and> s' = rebuilt occurrences gs s"
proof (induction gs arbitrary: s)
  case Nil
  then show ?case by (auto simp: rebuilt_def)
next
  case (Cons g gs)
  show ?case
  proof (cases "rebuild_group ctx nodes occurrences bindings g s")
    case (Inl err)
    then have "rebuild_group ctx nodes occurrences bindings g s \<noteq> Inr (rebuilt occurrences [g] s)" by simp
    then have "\<not> (t_RelationID g \<notin> rb_groups s \<and> group_ok ctx nodes occurrences bindings g \<and> distinct (t_OccurrenceIDs g) \<and>
        set (t_OccurrenceIDs g) \<inter> rb_used s = {})"
      by (simp add: rebuild_group_iff)
    with Inl show ?thesis by auto
  next
    case (Inr s1)
    then have *: "t_RelationID g \<notin> rb_groups s" "group_ok ctx nodes occurrences bindings g" "distinct (t_OccurrenceIDs g)"
      "set (t_OccurrenceIDs g) \<inter> rb_used s = {}" "s1 = rebuilt occurrences [g] s"
      by (simp_all add: rebuild_group_iff)
    have u: "rb_used s1 = rb_used s \<union> set (t_OccurrenceIDs g)" "rb_groups s1 = insert (t_RelationID g) (rb_groups s)"
      by (simp_all add: *(5) rebuilt_def)
    show ?thesis
      using * (1-4) by (simp add: Inr Cons.IH u *(5) rebuilt_Cons) (auto simp: rebuilt_def)
  qed
qed

section \<open>What the tables have to satisfy\<close>

definition source_receipts :: "CallTables \<Rightarrow> Receipt list" where
  "source_receipts t = ct_Captures t @ (case ct_Supply t of None \<Rightarrow> [] | Some r \<Rightarrow> [r])"

definition within_rows :: "CallTables \<Rightarrow> bool" where
  "within_rows t \<longleftrightarrow> length (ct_Contexts t) = 1 \<and> length (ct_Groups t) \<le> MaxRows \<and> length (ct_Occurrences t) \<le> MaxRows \<and>
     length (ct_Endpoints t) \<le> MaxRows \<and> length (ct_Bindings t) \<le> MaxRows \<and> length (ct_Captures t) \<le> MaxRows \<and> length (ct_NodeMemberships t) \<le> MaxRows"

definition binding_joined :: "CallTables \<Rightarrow> Binding \<Rightarrow> bool" where
  "binding_joined t b \<longleftrightarrow> (b_Attribution b = ''SOURCE'' \<longrightarrow> ids_of (b_ReceiptIDs b) \<noteq> []) \<and>
     (\<forall>i \<in> set (ids_of (b_ReceiptIDs b)). \<exists>r \<in> set (source_receipts t). rc_ID r = i \<and> rc_URI r = b_URI b)"

definition site_joined :: "CallTables \<Rightarrow> TableGroup \<Rightarrow> Node \<Rightarrow> nat \<Rightarrow> Occurrence \<Rightarrow> bool" where
  "site_joined t g caller j o' \<longleftrightarrow> joins g caller o' \<and> o_Binding o' \<in> set (ct_Bindings t) \<and>
     b_Pointer (o_Binding o') = site_pointer (t_Pointer g) j \<and> b_URI (o_Binding o') = URI caller"

definition group_ranges :: "CallTables \<Rightarrow> TableGroup \<Rightarrow> Range list" where
  "group_ranges t g = map (range_at (keyed o_ID (ct_Occurrences t))) (t_OccurrenceIDs g)"

definition group_joined :: "CallTables \<Rightarrow> TableGroup \<Rightarrow> bool" where
  "group_joined t g \<longleftrightarrow> t_ContextID g = x_ID (hd (ct_Contexts t)) \<and> t_CalleeNodeID g \<in> ID ` set (ct_Endpoints t) \<and>
     t_CallsiteState g = (if t_OccurrenceIDs g = [] then ''UNREPORTED'' else ''RETAINED_DISTINCT_RANGES'') \<and>
     (\<exists>caller \<in> set (ct_Endpoints t). ID caller = t_CallerNodeID g \<and> (\<forall>j < length (t_OccurrenceIDs g).
        \<exists>o' \<in> set (ct_Occurrences t). o_ID o' = t_OccurrenceIDs g ! j \<and> site_joined t g caller j o')) \<and>
     distinct (group_ranges t g) \<and>
     r_RelationID (t_Receipt g) = t_RelationID g \<and> r_CallerNodeID (t_Receipt g) = t_CallerNodeID g \<and>
     r_CalleeNodeID (t_Receipt g) = t_CalleeNodeID g \<and> (\<forall>m \<in> set (t_Memberships g). membership_ok g m)"

definition tables_joined :: "(string \<Rightarrow> string) \<Rightarrow> CallTables \<Rightarrow> bool" where
  "tables_joined sha t \<longleftrightarrow> within_rows t \<and> distinct (map ID (ct_Endpoints t)) \<and> distinct (map o_ID (ct_Occurrences t)) \<and>
     (\<forall>o' \<in> set (ct_Occurrences t). o_ID o' = occurrenceID sha o') \<and> distinct (map rc_ID (source_receipts t)) \<and>
     distinct (map b_Pointer (ct_Bindings t)) \<and> (\<forall>b \<in> set (ct_Bindings t). binding_joined t b) \<and>
     distinct (map t_RelationID (ct_Groups t)) \<and> (\<forall>g \<in> set (ct_Groups t). group_joined t g) \<and>
     distinct (concat (map t_OccurrenceIDs (ct_Groups t))) \<and>
     set (concat (map t_OccurrenceIDs (ct_Groups t))) = o_ID ` set (ct_Occurrences t) \<and>
     sum_list (map (r_SupportContribution \<circ> t_Receipt) (ct_Groups t)) = ct_SupportTotal t"

definition projection_of :: "CallTables \<Rightarrow> Projection" where
  "projection_of t = \<lparr>p_Endpoints = ct_Endpoints t, p_Edges = map (group_edge (keyed o_ID (ct_Occurrences t))) (ct_Groups t),
     p_Receipt = (if ct_Groups t = [] then None
       else Some \<lparr>er_SupportTotal = ct_SupportTotal t, er_Relations = sort_key r_RelationID (map t_Receipt (ct_Groups t))\<rparr>),
     p_Memberships = sort_key sm_MembershipID (ct_NodeMemberships t @ concat (map t_Memberships (ct_Groups t))),
     p_Bindings = ct_Bindings t, p_Supply = ct_Supply t, p_Captures = ct_Captures t\<rparr>"

lemma site_pointer_Nil: "site_pointer p j \<noteq> []"
  by (simp add: site_pointer_def)

lemma bound_joined:
  assumes "distinct (map b_Pointer (ct_Bindings t))"
  shows "joins g caller o' \<and> bound (keyed b_Pointer (ct_Bindings t)) g caller j o' \<longleftrightarrow> site_joined t g caller j o'"
proof (cases "keyed b_Pointer (ct_Bindings t) (b_Pointer (o_Binding o'))")
  case None
  then have "o_Binding o' \<notin> set (ct_Bindings t)" by (auto simp: keyed_None)
  moreover have "b_Pointer zero_binding = []" by (simp add: zero_binding_def)
  ultimately show ?thesis
    using None site_pointer_Nil [of "t_Pointer g" j] by (auto simp: bound_def site_joined_def)
next
  case (Some b)
  then have "b \<in> set (ct_Bindings t)" "b_Pointer b = b_Pointer (o_Binding o')" using assms by (simp_all add: keyed_Some)
  moreover have "o_Binding o' \<in> set (ct_Bindings t) \<Longrightarrow> b = o_Binding o'"
    using Some assms keyed_Some [of b_Pointer "ct_Bindings t" "b_Pointer (o_Binding o')" "o_Binding o'"] by simp
  ultimately show ?thesis
    using Some by (auto simp: bound_def site_joined_def)
qed

lemma group_ok_joined:
  assumes "distinct (map ID (ct_Endpoints t))" and "distinct (map o_ID (ct_Occurrences t))" and "distinct (map b_Pointer (ct_Bindings t))"
  shows "group_ok (x_ID (hd (ct_Contexts t))) (keyed ID (ct_Endpoints t)) (keyed o_ID (ct_Occurrences t)) (keyed b_Pointer (ct_Bindings t)) g \<longleftrightarrow> group_joined t g"
  unfolding group_ok_def group_joined_def
  by (simp only: keyed_Some assms keyed_None bound_joined group_ranges_def not_not Bex_def conj_assoc)

lemma binding_ok_joined:
  "distinct (map rc_ID (source_receipts t)) \<Longrightarrow> binding_ok (keyed rc_ID (source_receipts t)) b \<longleftrightarrow> binding_joined t b"
  by (simp only: binding_ok_def binding_joined_def keyed_Some Bex_def conj_assoc)

lemma group_ids: "group_joined t g \<Longrightarrow> set (t_OccurrenceIDs g) \<subseteq> o_ID ` set (ct_Occurrences t)"
proof
  fix i
  assume "group_joined t g" "i \<in> set (t_OccurrenceIDs g)"
  then obtain j where "j < length (t_OccurrenceIDs g)" "i = t_OccurrenceIDs g ! j" by (auto simp: in_set_conv_nth)
  with \<open>group_joined t g\<close> obtain o' where "o' \<in> set (ct_Occurrences t)" "o_ID o' = i"
    unfolding group_joined_def by blast
  then show "i \<in> o_ID ` set (ct_Occurrences t)" by blast
qed

lemma all_used:
  assumes "distinct (map o_ID (ct_Occurrences t))" and "\<forall>g \<in> set (ct_Groups t). group_joined t g"
  shows "card (set (concat (map t_OccurrenceIDs (ct_Groups t)))) = length (ct_Occurrences t) \<longleftrightarrow>
    set (concat (map t_OccurrenceIDs (ct_Groups t))) = o_ID ` set (ct_Occurrences t)"
proof -
  let ?used = "set (concat (map t_OccurrenceIDs (ct_Groups t)))"
  have c: "card (o_ID ` set (ct_Occurrences t)) = length (ct_Occurrences t)"
    using distinct_card [OF assms(1)] by simp
  have "?used \<subseteq> o_ID ` set (ct_Occurrences t)"
    unfolding set_concat set_map image_image
    by (rule UN_least, rule group_ids) (use assms(2) in blast)
  then have "card ?used = card (o_ID ` set (ct_Occurrences t)) \<Longrightarrow> ?used = o_ID ` set (ct_Occurrences t)"
    by (rule card_subset_eq [OF finite_imageI [OF List.finite_set]])
  then show ?thesis
    unfolding c [symmetric] by argo
qed

lemma finish_joined:
  assumes "distinct (map o_ID (ct_Occurrences t))" and "\<forall>g \<in> set (ct_Groups t). group_joined t g"
  shows "finish_projection t (rebuilt (keyed o_ID (ct_Occurrences t)) (ct_Groups t)
      \<lparr>rb_used = {}, rb_groups = {}, rb_edges = [], rb_relations = [], rb_support = 0, rb_memberships = ct_NodeMemberships t\<rparr>) = Inr p \<longleftrightarrow>
    set (concat (map t_OccurrenceIDs (ct_Groups t))) = o_ID ` set (ct_Occurrences t) \<and>
    sum_list (map (r_SupportContribution \<circ> t_Receipt) (ct_Groups t)) = ct_SupportTotal t \<and> p = projection_of t"
  unfolding all_used [OF assms, symmetric]
  by (auto simp: finish_projection_def rebuilt_def projection_of_def simp del: set_concat)

lemma Reconstruct_joined:
  "Reconstruct sha t = Inr p \<longleftrightarrow> tables_joined sha t \<and> p = projection_of t"
proof -
  let ?start = "\<lparr>rb_used = {}, rb_groups = {}, rb_edges = [], rb_relations = [], rb_support = 0, rb_memberships = ct_NodeMemberships t\<rparr>"
  let ?nodes = "keyed ID (ct_Endpoints t)" and ?occs = "keyed o_ID (ct_Occurrences t)" and ?bs = "keyed b_Pointer (ct_Bindings t)"
  have "Reconstruct sha t = Inr p \<longleftrightarrow> within_rows t \<and>
      (\<exists>nodes occs rs bs s. index_endpoints (ct_Endpoints t) Map.empty = Inr nodes \<and> index_occurrences sha (ct_Occurrences t) Map.empty = Inr occs \<and>
         index_receipts (source_receipts t) Map.empty = Inr rs \<and> index_bindings rs (ct_Bindings t) Map.empty = Inr bs \<and>
         rebuild_groups (x_ID (hd (ct_Contexts t))) nodes occs bs (ct_Groups t) ?start = Inr s \<and> finish_projection t s = Inr p)"
    by (auto simp: Reconstruct_def within_rows_def source_receipts_def split: sum.splits)
  also have "\<dots> \<longleftrightarrow> within_rows t \<and> distinct (map ID (ct_Endpoints t)) \<and> distinct (map o_ID (ct_Occurrences t)) \<and>
     (\<forall>o' \<in> set (ct_Occurrences t). identified sha o') \<and> distinct (map rc_ID (source_receipts t)) \<and>
     distinct (map b_Pointer (ct_Bindings t)) \<and> (\<forall>b \<in> set (ct_Bindings t). binding_joined t b) \<and>
     distinct (map t_RelationID (ct_Groups t)) \<and> (\<forall>g \<in> set (ct_Groups t). group_joined t g) \<and>
     distinct (concat (map t_OccurrenceIDs (ct_Groups t))) \<and> finish_projection t (rebuilt ?occs (ct_Groups t) ?start) = Inr p"
    by (simp add: index_endpoints_iff index_occurrences_iff index_receipts_iff index_bindings_iff indexed_empty rebuild_groups_iff
        group_ok_joined binding_ok_joined cong: conj_cong)
  also have "\<dots> \<longleftrightarrow> tables_joined sha t \<and> p = projection_of t"
    unfolding tables_joined_def identified_def using finish_joined [of t p] by blast
  finally show ?thesis .
qed


section \<open>Extraction and reconstruction\<close>

definition edge_occurrences :: "(string \<Rightarrow> string) \<Rightarrow> Provenance \<Rightarrow> Native \<Rightarrow> nat \<times> Call_Graph.Edge \<Rightarrow> Occurrence list" where
  "edge_occurrences sha e n = (\<lambda>(i, edge). map (\<lambda>(j, site). new_occurrence sha e n edge i j site) (enumerate 0 (CallSites edge)))"

definition edge_group :: "(string \<Rightarrow> string) \<Rightarrow> Provenance \<Rightarrow> Native \<Rightarrow> nat \<times> Call_Graph.Edge \<Rightarrow> TableGroup" where
  "edge_group sha e n = (\<lambda>(i, edge). new_group sha e n edge i (edge_occurrences sha e n (i, edge)))"

lemma extract_sites_iff:
  "extract_sites occ j rs seen = Inr os \<longleftrightarrow> distinct rs \<and> set rs \<inter> seen = {} \<and> os = map (\<lambda>(j, site). occ j site) (enumerate j rs)"
proof (induction rs arbitrary: j seen os)
  case (Cons r rs)
  have "extract_sites occ j (r # rs) seen = Inr os \<longleftrightarrow>
      r \<notin> seen \<and> (\<exists>os'. extract_sites occ (Suc j) rs (insert r seen) = Inr os' \<and> os = occ j r # os')"
    by (auto split: sum.splits)
  then show ?case by (auto simp: Cons.IH)
qed auto

lemma extract_edges_iff:
  "extract_edges sha e n i es seen = Inr (gs, os) \<longleftrightarrow> distinct (map ERelationID es) \<and> ERelationID ` set es \<inter> seen = {} \<and>
     (\<forall>edge \<in> set es. distinct (CallSites edge)) \<and> gs = map (edge_group sha e n) (enumerate i es) \<and>
     os = concat (map (edge_occurrences sha e n) (enumerate i es))"
proof (induction es arbitrary: i seen gs os)
  case (Cons edge es)
  let ?os = "edge_occurrences sha e n (i, edge)"
  have sites: "extract_sites (new_occurrence sha e n edge i) 0 (CallSites edge) {} = Inr os' \<longleftrightarrow> distinct (CallSites edge) \<and> os' = ?os" for os'
    by (simp add: extract_sites_iff edge_occurrences_def)
  have "extract_edges sha e n i (edge # es) seen = Inr (gs, os) \<longleftrightarrow> ERelationID edge \<notin> seen \<and>
      (\<exists>os1 gs' os'. extract_sites (new_occurrence sha e n edge i) 0 (CallSites edge) {} = Inr os1 \<and>
        extract_edges sha e n (Suc i) es (insert (ERelationID edge) seen) = Inr (gs', os') \<and>
        gs = new_group sha e n edge i os1 # gs' \<and> os = os1 @ os')"
    by (auto split: sum.splits)
  then show ?case
    by (auto simp: sites Cons.IH edge_group_def)
qed auto

definition receipts_joined :: "Provenance \<Rightarrow> bool" where
  "receipts_joined e \<longleftrightarrow> distinct (map rc_ID (v_Captures e @ (case v_Supply e of None \<Rightarrow> [] | Some r \<Rightarrow> [r]))) \<and>
     distinct (map b_Pointer (v_Bindings e)) \<and> length (v_Bindings e) \<le> MaxRows \<and> length (v_Captures e) \<le> MaxRows \<and>
     (\<forall>b \<in> set (v_Bindings e). (b_Attribution b = ''SOURCE'' \<longrightarrow> ids_of (b_ReceiptIDs b) \<noteq> []) \<and>
        (\<forall>i \<in> set (ids_of (b_ReceiptIDs b)). \<exists>r \<in> set (v_Captures e @ (case v_Supply e of None \<Rightarrow> [] | Some r \<Rightarrow> [r])).
           rc_ID r = i \<and> rc_URI r = b_URI b))"

definition sites_bound :: "Provenance \<Rightarrow> Native \<Rightarrow> bool" where
  "sites_bound e n \<longleftrightarrow> (\<forall>i < length (n_Edges n). \<forall>j < length (CallSites (n_Edges n ! i)). \<exists>b \<in> set (v_Bindings e).
     b_Pointer b = site_pointer (edge_pointer i) j \<and> (\<exists>v \<in> set (n_Nodes n). ID v = CallerNodeID (n_Edges n ! i) \<and> b_URI b = URI v))"

definition native_calls :: "Native \<Rightarrow> bool" where
  "native_calls n \<longleftrightarrow> distinct (map ID (n_Nodes n)) \<and>
     (\<forall>edge \<in> set (n_Edges n). CallerNodeID edge \<in> ID ` set (n_Nodes n) \<and> CalleeNodeID edge \<in> ID ` set (n_Nodes n) \<and>
        sorted (map range_key (CallSites edge))) \<and>
     distinct (map sm_MembershipID (n_Memberships n)) \<and> sorted (map sm_MembershipID (n_Memberships n)) \<and> length (n_Memberships n) \<le> MaxRows \<and>
     (\<forall>m \<in> set (n_Memberships n). sm_EvidenceKind m = ''CALL_RELATION'' \<longrightarrow> (\<exists>edge \<in> set (n_Edges n).
        sm_EndpointID m = ERelationID edge)) \<and>
     (\<forall>m \<in> set (n_Memberships n). \<forall>edge \<in> set (n_Edges n). sm_EvidenceKind m = ''CALL_RELATION'' \<and> sm_EndpointID m = ERelationID edge \<longrightarrow>
        sm_ExecutionBundleID m = EExecutionBundleID edge)"

subsection \<open>Receipts\<close>

lemma distinct_sort_map: "distinct (map f (sort_key f xs)) \<longleftrightarrow> distinct (map f xs)"
  by (rule mset_eq_imp_distinct_iff) simp

lemma unique_relations_id: "distinct (map r_RelationID (x # xs)) \<Longrightarrow> unique_relations x xs = x # xs"
  by (induction xs arbitrary: x) auto

lemma call_relation_simps [simp]:
  "r_RelationID (call_relation E sr edge) = ERelationID edge" "r_CallerNodeID (call_relation E sr edge) = CallerNodeID edge"
  "r_CalleeNodeID (call_relation E sr edge) = CalleeNodeID edge"
  by (simp_all add: call_relation_def newEvidenceRelation_def)

lemma evidenceReceipt_calls:
  assumes "SiblingCandidates r = []" and "DispatchRelationships r = []" and d: "distinct (map ERelationID (Edges r))"
  shows "evidenceReceipt E sr r = (if Edges r = [] then None else
    Some \<lparr>er_SupportTotal = sum_list (map (r_SupportContribution \<circ> call_relation E sr) (Edges r)),
      er_Relations = sort_key r_RelationID (map (call_relation E sr) (Edges r))\<rparr>)"
proof (cases "sort_key r_RelationID (map (call_relation E sr) (Edges r))")
  case Nil
  then have "Edges r = []" by (metis length_0_conv length_map length_sort)
  with assms(1,2) show ?thesis by (simp add: evidenceReceipt_def)
next
  case (Cons x xs)
  let ?rs = "map (call_relation E sr) (Edges r)"
  have "distinct (map r_RelationID ?rs)" using d by (simp add: comp_def)
  then have "distinct (map r_RelationID (x # xs))"
    unfolding Cons [symmetric] distinct_sort_map .
  then have u: "unique_relations x xs = x # xs" by (rule unique_relations_id)
  have "mset (map r_SupportContribution (x # xs)) = mset (map r_SupportContribution ?rs)"
    unfolding Cons [symmetric] by (simp add: multiset.map_comp)
  then have s: "sum_list (map r_SupportContribution (x # xs)) = sum_list (map r_SupportContribution ?rs)"
    by (metis sum_mset_sum_list)
  from Cons have "Edges r \<noteq> []" by auto
  then show ?thesis
    using assms(1,2) Cons u s by (simp add: evidenceReceipt_def comp_def)
qed

lemma receipt_of_call:
  assumes "n_Receipt n = evidenceReceipt E sr r" and "SiblingCandidates r = []" and "DispatchRelationships r = []" and "Edges r = n_Edges n"
    and d: "distinct (map ERelationID (n_Edges n))" and edge: "edge \<in> set (n_Edges n)"
  shows "receipt_of n (ERelationID edge) = call_relation E sr edge"
proof -
  let ?rs = "sort_key r_RelationID (map (call_relation E sr) (n_Edges n))"
  have "distinct (map r_RelationID (map (call_relation E sr) (n_Edges n)))" using d by (simp add: comp_def)
  then have ds: "distinct (map r_RelationID ?rs)" unfolding distinct_sort_map .
  have "keyed r_RelationID ?rs (ERelationID edge) = Some (call_relation E sr edge)"
    unfolding keyed_Some [OF ds] using edge by simp
  moreover have "n_Edges n \<noteq> []" using edge by auto
  ultimately show ?thesis
    using assms ds by (simp add: receipt_of_def evidenceReceipt_calls assign_all_keyed)
qed


subsection \<open>Rows\<close>

lemma new_occurrence_simps [simp]:
  "o_ContextID (new_occurrence sha e n edge i j site) = contextID sha e" "o_RelationID (new_occurrence sha e n edge i j site) = ERelationID edge"
  "o_CallerNodeID (new_occurrence sha e n edge i j site) = CallerNodeID edge" "o_CalleeNodeID (new_occurrence sha e n edge i j site) = CalleeNodeID edge"
  "o_CallerURI (new_occurrence sha e n edge i j site) = uri_of n (CallerNodeID edge)" "o_Range (new_occurrence sha e n edge i j site) = site"
  "o_Binding (new_occurrence sha e n edge i j site) = binding_of e (site_pointer (edge_pointer i) j)"
  by (simp_all add: new_occurrence_def Let_def)

lemma new_occurrence_ID: "o_ID (new_occurrence sha e n edge i j site) = occurrenceID sha (new_occurrence sha e n edge i j site)"
  by (simp add: new_occurrence_def Let_def occurrenceID_def)

lemma edge_group_simps [simp]:
  "t_RelationID (edge_group sha e n (i, edge)) = ERelationID edge" "t_ContextID (edge_group sha e n (i, edge)) = contextID sha e"
  "t_ExecutionBundleID (edge_group sha e n (i, edge)) = EExecutionBundleID edge" "t_Pointer (edge_group sha e n (i, edge)) = edge_pointer i"
  "t_CallerNodeID (edge_group sha e n (i, edge)) = CallerNodeID edge" "t_CalleeNodeID (edge_group sha e n (i, edge)) = CalleeNodeID edge"
  "t_Receipt (edge_group sha e n (i, edge)) = receipt_of n (ERelationID edge)" "t_Memberships (edge_group sha e n (i, edge)) = memberships_of n (ERelationID edge)"
  "t_OccurrenceIDs (edge_group sha e n (i, edge)) = map o_ID (edge_occurrences sha e n (i, edge))"
  "t_CallsiteState (edge_group sha e n (i, edge)) = (if edge_occurrences sha e n (i, edge) = [] then ''UNREPORTED'' else ''RETAINED_DISTINCT_RANGES'')"
  by (simp_all add: edge_group_def new_group_def)

lemma length_edge_occurrences [simp]: "length (edge_occurrences sha e n (i, edge)) = length (CallSites edge)"
  by (simp add: edge_occurrences_def)

lemma nth_edge_occurrences:
  "j < length (CallSites edge) \<Longrightarrow> edge_occurrences sha e n (i, edge) ! j = new_occurrence sha e n edge i j (CallSites edge ! j)"
  by (simp add: edge_occurrences_def nth_enumerate_eq)

lemma ranges_edge_occurrences: "map o_Range (edge_occurrences sha e n (i, edge)) = CallSites edge"
  by (rule nth_equalityI) (simp_all add: nth_edge_occurrences)

lemma extracted:
  assumes "extractTables sha e n = Inr t"
  shows "distinct (map ERelationID (n_Edges n))" "\<forall>edge \<in> set (n_Edges n). distinct (CallSites edge)"
    "ct_Groups t = map (edge_group sha e n) (enumerate 0 (n_Edges n))" "ct_Occurrences t = concat (map (edge_occurrences sha e n) (enumerate 0 (n_Edges n)))"
    "ct_Contexts t = [\<lparr>x_ID = contextID sha e, x_GraphDigest = v_GraphDigest e, x_Envelope = v_envelope e, x_Bundle = v_bundle e\<rparr>]"
    "ct_Endpoints t = n_Nodes n" "ct_NodeMemberships t = filter (\<lambda>m. sm_EvidenceKind m \<noteq> ''CALL_RELATION'') (n_Memberships n)"
    "ct_Bindings t = v_Bindings e" "ct_Supply t = v_Supply e" "ct_Captures t = v_Captures e"
    "ct_SupportTotal t = (case n_Receipt n of None \<Rightarrow> 0 | Some r \<Rightarrow> er_SupportTotal r)"
    "length (ct_Groups t) \<le> MaxRows" "length (ct_Occurrences t) \<le> MaxRows" "length (ct_Endpoints t) \<le> MaxRows"
proof -
  obtain gs os where x: "extract_edges sha e n 0 (n_Edges n) {} = Inr (gs, os)"
    using assms by (auto simp: extractTables_def split: sum.splits prod.splits if_splits)
  note y = x [unfolded extract_edges_iff]
  show "distinct (map ERelationID (n_Edges n))" "\<forall>edge \<in> set (n_Edges n). distinct (CallSites edge)" using y by simp_all
  note t = assms [unfolded extractTables_def x, simplified, symmetric]
  show "ct_Groups t = map (edge_group sha e n) (enumerate 0 (n_Edges n))" "ct_Occurrences t = concat (map (edge_occurrences sha e n) (enumerate 0 (n_Edges n)))"
    "ct_Contexts t = [\<lparr>x_ID = contextID sha e, x_GraphDigest = v_GraphDigest e, x_Envelope = v_envelope e, x_Bundle = v_bundle e\<rparr>]"
    "ct_Endpoints t = n_Nodes n" "ct_NodeMemberships t = filter (\<lambda>m. sm_EvidenceKind m \<noteq> ''CALL_RELATION'') (n_Memberships n)"
    "ct_Bindings t = v_Bindings e" "ct_Supply t = v_Supply e" "ct_Captures t = v_Captures e"
    "ct_SupportTotal t = (case n_Receipt n of None \<Rightarrow> 0 | Some r \<Rightarrow> er_SupportTotal r)"
    "length (ct_Groups t) \<le> MaxRows" "length (ct_Occurrences t) \<le> MaxRows" "length (ct_Endpoints t) \<le> MaxRows"
    using t y by (simp_all split: if_splits)
qed

lemma edge_row:
  assumes "ct_Occurrences t = concat (map (edge_occurrences sha e n) (enumerate 0 (n_Edges n)))" and "i < length (n_Edges n)"
    and "distinct (map o_ID (ct_Occurrences t))"
  shows "set (edge_occurrences sha e n (i, n_Edges n ! i)) \<subseteq> set (ct_Occurrences t)"
    and "map (range_at (keyed o_ID (ct_Occurrences t))) (map o_ID (edge_occurrences sha e n (i, n_Edges n ! i))) = CallSites (n_Edges n ! i)"
proof -
  have "(i, n_Edges n ! i) \<in> set (enumerate 0 (n_Edges n))"
    using assms(2) by (simp add: in_set_enumerate_eq)
  then show sub: "set (edge_occurrences sha e n (i, n_Edges n ! i)) \<subseteq> set (ct_Occurrences t)"
    by (auto simp: assms(1))
  have "range_at (keyed o_ID (ct_Occurrences t)) (o_ID o') = o_Range o'" if "o' \<in> set (ct_Occurrences t)" for o'
    using keyed_row [OF assms(3) that] by (simp add: range_at_def)
  then have "map (range_at (keyed o_ID (ct_Occurrences t)) \<circ> o_ID) (edge_occurrences sha e n (i, n_Edges n ! i)) = map o_Range (edge_occurrences sha e n (i, n_Edges n ! i))"
    using sub by (auto intro!: map_cong)
  then show "map (range_at (keyed o_ID (ct_Occurrences t))) (map o_ID (edge_occurrences sha e n (i, n_Edges n ! i))) = CallSites (n_Edges n ! i)"
    by (simp add: ranges_edge_occurrences)
qed


subsection \<open>The round trip\<close>

lemma uri_of_node: "distinct (map ID (n_Nodes n)) \<Longrightarrow> v \<in> set (n_Nodes n) \<Longrightarrow> uri_of n (ID v) = URI v"
  by (simp add: uri_of_def assign_all_keyed keyed_row)

lemma binding_of_row: "distinct (map b_Pointer (v_Bindings e)) \<Longrightarrow> b \<in> set (v_Bindings e) \<Longrightarrow> binding_of e (b_Pointer b) = b"
  by (simp add: binding_of_def assign_all_keyed keyed_row)

lemma site_joined_edge:
  assumes t: "extractTables sha e n = Inr t" and b: "receipts_joined e" "sites_bound e n" and n: "native_calls n"
    and i: "i < length (n_Edges n)" and j: "j < length (CallSites (n_Edges n ! i))"
    and v: "v \<in> set (n_Nodes n)" "ID v = CallerNodeID (n_Edges n ! i)"
  shows "site_joined t (edge_group sha e n (i, n_Edges n ! i)) v j (edge_occurrences sha e n (i, n_Edges n ! i) ! j)"
proof -
  obtain c w where c: "c \<in> set (v_Bindings e)" "b_Pointer c = site_pointer (edge_pointer i) j" "w \<in> set (n_Nodes n)"
      "ID w = CallerNodeID (n_Edges n ! i)" "b_URI c = URI w"
    using b(2) i j unfolding sites_bound_def by blast
  have d: "distinct (map ID (n_Nodes n))" using n by (simp add: native_calls_def)
  have u: "uri_of n (CallerNodeID (n_Edges n ! i)) = URI v" "URI w = URI v"
    using uri_of_node [OF d v(1)] uri_of_node [OF d c(3)] by (simp_all add: v(2) c(4))
  have "binding_of e (site_pointer (edge_pointer i) j) = c"
    using binding_of_row [OF _ c(1)] b(1) by (simp add: c(2) receipts_joined_def)
  then show ?thesis
    using c u by (simp add: site_joined_def joins_def nth_edge_occurrences j extracted [OF t])
qed

lemma group_joined_edge:
  assumes t: "extractTables sha e n = Inr t" and d: "distinct (map o_ID (ct_Occurrences t))"
    and b: "receipts_joined e" "sites_bound e n" and n: "native_calls n"
    and r: "n_Receipt n = evidenceReceipt E sr r" "SiblingCandidates r = []" "DispatchRelationships r = []" "Edges r = n_Edges n"
    and i: "i < length (n_Edges n)"
  shows "group_joined t (edge_group sha e n (i, n_Edges n ! i))"
proof -
  let ?edge = "n_Edges n ! i"
  have edge: "?edge \<in> set (n_Edges n)" using i by simp
  then obtain v where v: "v \<in> set (n_Nodes n)" "ID v = CallerNodeID ?edge" and callee: "CalleeNodeID ?edge \<in> ID ` set (n_Nodes n)"
    using n unfolding native_calls_def by (metis imageE)
  note row = edge_row [OF extracted(4) [OF t] i d]
  have sites: "\<forall>j < length (CallSites ?edge). \<exists>o' \<in> set (ct_Occurrences t). o_ID o' = map o_ID (edge_occurrences sha e n (i, ?edge)) ! j \<and>
      site_joined t (edge_group sha e n (i, ?edge)) v j o'"
    using row(1) site_joined_edge [OF t b n i _ v] by (metis length_edge_occurrences nth_map nth_mem subsetD)
  have ranges: "distinct (group_ranges t (edge_group sha e n (i, ?edge)))"
    using extracted(2) [OF t] edge row(2) by (simp add: group_ranges_def)
  have receipt: "receipt_of n (ERelationID ?edge) = call_relation E sr ?edge"
    by (rule receipt_of_call [OF r extracted(1) [OF t] edge])
  have members: "\<forall>m \<in> set (memberships_of n (ERelationID ?edge)). membership_ok (edge_group sha e n (i, ?edge)) m"
    using n edge by (auto simp: memberships_of_def membership_ok_def native_calls_def)
  show ?thesis
    unfolding group_joined_def
    using v callee sites ranges receipt members by (auto simp: extracted [OF t])
qed

lemma group_edge_restored:
  assumes t: "extractTables sha e n = Inr t" and d: "distinct (map o_ID (ct_Occurrences t))" and n: "native_calls n" and i: "i < length (n_Edges n)"
  shows "group_edge (keyed o_ID (ct_Occurrences t)) (edge_group sha e n (i, n_Edges n ! i)) = n_Edges n ! i"
proof -
  have "sorted (map range_key (CallSites (n_Edges n ! i)))" using n i by (simp add: native_calls_def)
  moreover have "inj_on range_key A" for A by (simp add: inj_on_def range_key_inj)
  ultimately have "sort_key range_key (CallSites (n_Edges n ! i)) = CallSites (n_Edges n ! i)"
    by (intro sort_key_inj_key_eq) auto
  then show ?thesis
    using edge_row(2) [OF extracted(4) [OF t] i d] by (simp add: group_edge_def)
qed

lemma partition_by_key:
  assumes "distinct ks" and "\<forall>x \<in> set xs. f x \<in> set ks"
  shows "mset (concat (map (\<lambda>k. filter (\<lambda>x. f x = k) xs) ks)) = mset xs"
  using assms
proof (induction ks arbitrary: xs)
  case (Cons k ks)
  have "filter (\<lambda>x. f x = k') xs = filter (\<lambda>x. f x = k') (filter (\<lambda>x. f x \<noteq> k) xs)" if "k' \<in> set ks" for k'
    using Cons.prems(1) that by (auto intro: filter_cong)
  then have "concat (map (\<lambda>k. filter (\<lambda>x. f x = k) xs) ks) = concat (map (\<lambda>k'. filter (\<lambda>x. f x = k') (filter (\<lambda>x. f x \<noteq> k) xs)) ks)"
    by (metis (mono_tags, lifting) map_cong)
  moreover have "mset (concat (map (\<lambda>k'. filter (\<lambda>x. f x = k') (filter (\<lambda>x. f x \<noteq> k) xs)) ks)) = mset (filter (\<lambda>x. f x \<noteq> k) xs)"
    by (rule Cons.IH) (use Cons.prems in auto)
  ultimately show ?case
    by (simp only: list.map concat.simps mset_append) (metis mset_filter multiset_partition)
qed simp

lemma memberships_restored:
  assumes n: "native_calls n" and d: "distinct (map ERelationID (n_Edges n))"
  shows "sort_key sm_MembershipID (filter (\<lambda>m. sm_EvidenceKind m \<noteq> ''CALL_RELATION'') (n_Memberships n) @
    concat (map (\<lambda>edge. memberships_of n (ERelationID edge)) (n_Edges n))) = n_Memberships n"
proof (rule sort_key_inj_key_eq)
  let ?calls = "filter (\<lambda>m. sm_EvidenceKind m = ''CALL_RELATION'') (n_Memberships n)"
  have "concat (map (\<lambda>edge. memberships_of n (ERelationID edge)) (n_Edges n)) =
      concat (map (\<lambda>k. filter (\<lambda>m. sm_EndpointID m = k) ?calls) (map ERelationID (n_Edges n)))"
    by (simp add: memberships_of_def comp_def conj_commute)
  moreover have "mset (concat (map (\<lambda>k. filter (\<lambda>m. sm_EndpointID m = k) ?calls) (map ERelationID (n_Edges n)))) = mset ?calls"
    using n by (intro partition_by_key d) (auto simp: native_calls_def)
  ultimately show m: "mset (filter (\<lambda>m. sm_EvidenceKind m \<noteq> ''CALL_RELATION'') (n_Memberships n) @
      concat (map (\<lambda>edge. memberships_of n (ERelationID edge)) (n_Edges n))) = mset (n_Memberships n)"
    by (simp add: union_filter_mset_complement)
  show "inj_on sm_MembershipID (set (filter (\<lambda>m. sm_EvidenceKind m \<noteq> ''CALL_RELATION'') (n_Memberships n) @
      concat (map (\<lambda>edge. memberships_of n (ERelationID edge)) (n_Edges n))))"
    using mset_eq_setD [OF m] n by (simp only:) (simp add: native_calls_def distinct_map)
  show "sorted (map sm_MembershipID (n_Memberships n))" using n by (simp add: native_calls_def)
qed


lemma tables_joined_extracted:
  assumes t: "extractTables sha e n = Inr t" and d: "distinct (map o_ID (ct_Occurrences t))"
    and b: "receipts_joined e" "sites_bound e n" and n: "native_calls n"
    and r: "n_Receipt n = evidenceReceipt E sr r" "SiblingCandidates r = []" "DispatchRelationships r = []" "Edges r = n_Edges n"
  shows "tables_joined sha t"
proof -
  note x = extracted [OF t]
  have groups: "\<forall>g \<in> set (ct_Groups t). group_joined t g"
    using group_joined_edge [OF t d b n r] by (auto simp: x(3) in_set_enumerate_eq)
  have ids: "concat (map t_OccurrenceIDs (ct_Groups t)) = map o_ID (ct_Occurrences t)"
  proof -
    have "(\<lambda>x. t_OccurrenceIDs (edge_group sha e n x)) = (\<lambda>x. map o_ID (edge_occurrences sha e n x))"
      by (simp add: fun_eq_iff)
    then show ?thesis by (simp add: x(3,4) map_concat comp_def)
  qed
  have named: "\<forall>o' \<in> set (ct_Occurrences t). o_ID o' = occurrenceID sha o'"
    by (auto simp: x(4) edge_occurrences_def new_occurrence_ID)
  have "map (r_SupportContribution \<circ> t_Receipt) (ct_Groups t) = map (r_SupportContribution \<circ> call_relation E sr) (n_Edges n)"
    by (rule nth_equalityI) (simp_all add: x(3) nth_enumerate_eq receipt_of_call [OF r x(1)])
  then have support: "sum_list (map (r_SupportContribution \<circ> t_Receipt) (ct_Groups t)) = ct_SupportTotal t"
    using r x(1) by (simp add: x(11) evidenceReceipt_calls)
  have relations: "map t_RelationID (ct_Groups t) = map ERelationID (n_Edges n)"
    by (rule nth_equalityI) (simp_all add: x(3) nth_enumerate_eq)
  have "length (ct_NodeMemberships t) \<le> MaxRows"
    using n by (auto simp: x(7) native_calls_def intro: order_trans [OF length_filter_le])
  then have rows: "within_rows t"
    using b(1) x(12-14) by (simp add: within_rows_def x(5,8,10) receipts_joined_def)
  have bindings: "\<forall>c \<in> set (ct_Bindings t). binding_joined t c" "distinct (map rc_ID (source_receipts t))"
    using b(1) by (simp_all add: receipts_joined_def binding_joined_def source_receipts_def x(8-10))
  show ?thesis
    unfolding tables_joined_def ids relations using rows d named bindings groups x(1) b(1) n support
    by (simp add: x(6,8) receipts_joined_def native_calls_def)
qed

lemma projection_extracted:
  assumes t: "extractTables sha e n = Inr t" and d: "distinct (map o_ID (ct_Occurrences t))" and n: "native_calls n"
    and r: "n_Receipt n = evidenceReceipt E sr r" "SiblingCandidates r = []" "DispatchRelationships r = []" "Edges r = n_Edges n"
  shows "projection_of t = native_projection e n"
proof -
  note x = extracted [OF t]
  have edges: "map (group_edge (keyed o_ID (ct_Occurrences t))) (ct_Groups t) = n_Edges n"
    by (rule nth_equalityI) (simp_all add: x(3) nth_enumerate_eq group_edge_restored [OF t d n, simplified x(3)])
  have relations: "map t_Receipt (ct_Groups t) = map (call_relation E sr) (n_Edges n)"
    by (rule nth_equalityI) (simp_all add: x(3) nth_enumerate_eq receipt_of_call [OF r x(1)])
  have members: "map t_Memberships (ct_Groups t) = map (\<lambda>edge. memberships_of n (ERelationID edge)) (n_Edges n)"
    by (rule nth_equalityI) (simp_all add: x(3) nth_enumerate_eq)
  have "ct_Groups t = [] \<longleftrightarrow> n_Edges n = []" by (simp add: x(3) flip: length_0_conv)
  then have receipt: "(if ct_Groups t = [] then None else Some \<lparr>er_SupportTotal = ct_SupportTotal t, er_Relations = sort_key r_RelationID (map t_Receipt (ct_Groups t))\<rparr>) = n_Receipt n"
    using r x(1) by (simp add: relations x(11) evidenceReceipt_calls)
  show ?thesis
    unfolding projection_of_def native_projection_def edges receipt members x(6-10) memberships_restored [OF n x(1)] ..
qed


lemma group_row:
  assumes "group_joined t g"
  shows "t_CallerNodeID g \<in> ID ` set (ct_Endpoints t) \<and> t_CalleeNodeID g \<in> ID ` set (ct_Endpoints t) \<and>
    (t_CallsiteState g = ''UNREPORTED'' \<longleftrightarrow> t_OccurrenceIDs g = [])"
proof -
  obtain caller where "caller \<in> set (ct_Endpoints t)" "t_CallerNodeID g = ID caller"
    using assms unfolding group_joined_def by metis
  with assms show ?thesis by (simp add: group_joined_def)
qed

lemma admitted_joined:
  assumes "tables_joined sha t"
  shows "admitted_rows (rows_of t)" "distinct (map g_RelationID (Groups (rows_of t)))"
proof -
  have "\<forall>g \<in> set (ct_Groups t). t_CallerNodeID g \<in> ID ` set (ct_Endpoints t) \<and> t_CalleeNodeID g \<in> ID ` set (ct_Endpoints t) \<and>
      (t_CallsiteState g = ''UNREPORTED'' \<longleftrightarrow> t_OccurrenceIDs g = [])"
    using assms group_row unfolding tables_joined_def by blast
  moreover have "length (concat (map t_OccurrenceIDs (ct_Groups t))) = length (ct_Occurrences t)"
    using assms distinct_card [of "concat (map t_OccurrenceIDs (ct_Groups t))"] distinct_card [of "map o_ID (ct_Occurrences t)"]
    unfolding tables_joined_def by simp
  ultimately show "admitted_rows (rows_of t)" "distinct (map g_RelationID (Groups (rows_of t)))"
    using assms by (simp_all add: admitted_rows_def rows_of_def row_of_def tables_joined_def length_concat comp_def)
qed

section \<open>Properties\<close>

text \<open>
  C17: \<open>Reconstruct\<close> accepts tables exactly when they have one context and are within the row limits, endpoints, occurrences,
  receipts, bindings and groups have distinct keys, every binding has its receipts, every group has its endpoints, its
  classification, its receipt and memberships, and its occurrences in order with the call-site pointers and distinct ranges,
  every occurrence is used by exactly one group, and the support adds up modulo the word size; and it then returns
  the edges in the order of the groups with sorted call sites, the receipt sorted by relation and the sorted memberships.
\<close>

theorem Reconstruct_iff:
  "Reconstruct sha t = Inr p \<longleftrightarrow> tables_joined sha t \<and> p = projection_of t"
  by (rule Reconstruct_joined)

text \<open>
  C18: the tables-only round trip. Let the native graph only have calls, with its receipt, with nodes, edges and
  memberships in canonical order, and let every call site have a binding whose receipts are there, as the census of the
  provenance demands. If the tables are extracted and no two occurrences collide under SHA-256, then \<open>Reconstruct\<close>
  accepts them and returns exactly the projection of the native graph that \<open>ValidateFor\<close> compares with.
\<close>

theorem tables_roundtrip:
  assumes "extractTables sha e n = Inr t" and "distinct (map o_ID (ct_Occurrences t))"
    and "receipts_joined e" and "sites_bound e n" and "native_calls n"
    and "n_Receipt n = evidenceReceipt E revision r" and "SiblingCandidates r = []" and "DispatchRelationships r = []" and "Edges r = n_Edges n"
  shows "Reconstruct sha t = Inr (native_projection e n)"
  using tables_joined_extracted [OF assms] projection_extracted [OF assms(1,2,5-9)] by (simp add: Reconstruct_joined)

definition sample_site :: Range where
  "sample_site = \<lparr>Start = \<lparr>Line = 3, Character = 1\<rparr>, End = \<lparr>Line = 3, Character = 4\<rparr>\<rparr>"

definition sample_caller :: Node where
  "sample_caller = \<lparr>Name = ''f'', Kind = 12, Detail = '''', URI = ''file:///a.go'', IRange = sample_site, SelectionRange = sample_site, Data = '''', ID = ''a''\<rparr>"

definition sample_call :: Call_Graph.Edge where
  "sample_call = \<lparr>ERelationID = ''r'', EExecutionBundleID = ''b'', CallerNodeID = ''a'', CalleeNodeID = ''a'', CallSites = [sample_site]\<rparr>"

definition sample_graph :: Call_Graph.Result where
  "sample_graph = (emptyResult SchemaVersionV3)\<lparr>Edges := [sample_call]\<rparr>"

definition sample_env :: env where
  "sample_env = \<lparr>Sha = (\<lambda>_. ''h''), AbsURL = (\<lambda>_. True), LowerURL = (\<lambda>u. u)\<rparr>"

definition sample_native :: Native where
  "sample_native = \<lparr>n_Nodes = [sample_caller], n_Edges = [sample_call], n_Receipt = evidenceReceipt sample_env ''v'' sample_graph,
     n_Memberships = [\<lparr>sm_MembershipID = ''m'', sm_ExecutionBundleID = ''b'', sm_SeedLabel = ''s'', sm_SeedAt = '''', sm_EvidenceKind = ''CALL_RELATION'', sm_EndpointID = ''r''\<rparr>],
     n_Slice = None\<rparr>"

definition sample_provenance :: Provenance where
  "sample_provenance = \<lparr>v_GraphDigest = ''g'', v_Bindings = [\<lparr>b_Pointer = ''/edges/0/call_sites/0'', b_URI = ''file:///a.go'', b_Attribution = ''SOURCE'', b_ReceiptIDs = Some [''c'']\<rparr>],
     v_Supply = None, v_Captures = [\<lparr>rc_ID = ''c'', rc_URI = ''file:///a.go''\<rparr>], v_canonical = '''', v_envelope = '''', v_bundle = ''''\<rparr>"

definition sample_tables :: CallTables where
  "sample_tables = (case extractTables (\<lambda>_. ''h'') sample_provenance sample_native of Inr t \<Rightarrow> t)"

lemma sample_extracted: "extractTables (\<lambda>_. ''h'') sample_provenance sample_native = Inr sample_tables"
proof -
  have "extract_edges (\<lambda>_. ''h'') sample_provenance sample_native 0 (n_Edges sample_native) {} =
      Inr (map (edge_group (\<lambda>_. ''h'') sample_provenance sample_native) (enumerate 0 (n_Edges sample_native)),
        concat (map (edge_occurrences (\<lambda>_. ''h'') sample_provenance sample_native) (enumerate 0 (n_Edges sample_native))))"
    unfolding extract_edges_iff by (simp add: sample_native_def sample_call_def)
  then show ?thesis
    by (simp add: sample_tables_def extractTables_def sample_native_def sample_call_def edge_occurrences_def MaxRows_def)
qed

lemma sample_exportable:
  "receipts_joined sample_provenance" "native_calls sample_native" "sites_bound sample_provenance sample_native"
  "n_Receipt sample_native = evidenceReceipt sample_env ''v'' sample_graph" "SiblingCandidates sample_graph = []"
  "DispatchRelationships sample_graph = []" "Edges sample_graph = n_Edges sample_native"
  "distinct (map o_ID (ct_Occurrences sample_tables))"
proof -
  show "receipts_joined sample_provenance" "native_calls sample_native" "n_Receipt sample_native = evidenceReceipt sample_env ''v'' sample_graph"
    "SiblingCandidates sample_graph = []" "DispatchRelationships sample_graph = []" "Edges sample_graph = n_Edges sample_native"
    by (simp_all add: receipts_joined_def native_calls_def sample_provenance_def sample_native_def sample_call_def sample_caller_def sample_graph_def
        emptyResult_def MaxRows_def ids_of_def)
  show "distinct (map o_ID (ct_Occurrences sample_tables))"
    by (simp add: extracted [OF sample_extracted] sample_native_def sample_call_def edge_occurrences_def)
  have "digit 0 = CHR ''0''" by code_simp
  then have "dec 0 = ''0''" by (simp add: dec.simps)
  then show "sites_bound sample_provenance sample_native"
    by (simp add: sites_bound_def sample_native_def sample_provenance_def sample_call_def sample_caller_def edge_pointer_def site_pointer_def)
qed

theorem tables_roundtrip_witness:
  "Reconstruct (\<lambda>_. ''h'') sample_tables = Inr (native_projection sample_provenance sample_native) \<and>
     ct_Groups sample_tables \<noteq> [] \<and> ct_Occurrences sample_tables \<noteq> []"
  using tables_roundtrip [OF sample_extracted sample_exportable(8,1,3,2,4-7)]
  by (simp add: extracted [OF sample_extracted] sample_native_def sample_call_def edge_occurrences_def)

text \<open>
  C19: tables that pass the limits of \<open>AdmitRetained\<close> and \<open>Reconstruct\<close> are well formed for the analyses: nodes and groups are
  distinct, every edge joins nodes, the numbers are within the bounds that the work budget was chosen for, and the
  metrics are computed without an index out of range.
\<close>

theorem admitted_tables:
  assumes "admit_tables sha t = Inr p"
  shows "admitted (rows_of t) \<and> distinct (map g_RelationID (Groups (rows_of t))) \<and> compute (\<lambda>_. False) (rows_of t) = Inr (metrics_of (rows_of t))"
proof -
  have small: "length (ct_Endpoints t) \<le> MaxNodesLimit" "length (ct_Groups t) \<le> MaxEdgesLimit" and "Reconstruct sha t = Inr p"
    using assms by (auto simp: admit_tables_def split: if_splits)
  then have "tables_joined sha t" by (simp add: Reconstruct_joined)
  note rows = admitted_joined [OF this]
  then have "admitted (rows_of t)"
    using small by (auto simp: admitted_def admitted_rows_def rows_of_def)
  with rows show ?thesis by (simp add: compute_metrics)
qed


theorem admitted_tables_witness:
  "admitted (rows_of sample_tables) \<and> length (Groups (rows_of sample_tables)) = 1 \<and>
     compute (\<lambda>_. False) (rows_of sample_tables) = Inr (metrics_of (rows_of sample_tables))"
proof -
  have "admit_tables (\<lambda>_. ''h'') sample_tables = Inr (projection_of sample_tables)"
    using tables_joined_extracted [OF sample_extracted sample_exportable(8,1,3,2,4-7)]
    by (simp add: admit_tables_def Reconstruct_joined extracted [OF sample_extracted] sample_native_def MaxNodesLimit_def MaxEdgesLimit_def)
  from admitted_tables [OF this] show ?thesis
    by (simp add: rows_of_def extracted [OF sample_extracted] sample_native_def)
qed


end
