(* ===== verification/Json_Rpc.thy ===== *)
theory Json_Rpc
  imports Go_Map Transition_System
begin

text \<open>
  Package \<open>internal/jsonrpc\<close>: messages framed by a \<open>Content-Length\<close> header on a byte stream, and a connection on
  which concurrent calls wait for the response with their identifier.

  The stream that the reader sees is the sequence of bytes the peer sends before it closes. \<open>encode\<close> and
  \<open>decode\<close> stand for \<open>json.Marshal\<close> and \<open>json.Unmarshal\<close> of a message. The sections of a call between two
  synchronisations are steps of the connection, and so is the handling of one message by the reader; the
  steps of the calls and of the reader interleave freely. The reader records a message, looks up its call
  and sends or answers under separate locks, so the Go code has more interleavings of the trace inside that
  one step. A read fails at the end of the stream only: other errors of the reader close the connection the
  same way. A raw JSON field is the empty string when it is absent.
\<close>

definition maxMessageBytes :: int where
  "maxMessageBytes = 16 * 2 ^ 20"

record RpcError =
  e_Code :: int
  e_Message :: string
  e_Data :: string

record message =
  m_JSONRPC :: string
  m_ID :: string
  m_Method :: string
  m_Params :: string
  m_Result :: string
  m_Error :: "RpcError option"

record TraceEvent =
  Sequence :: u64
  Direction :: string
  Payload :: string

datatype rpc_error =
    EndOfInput
  | UnexpectedEOF
  | InvalidHeader string
  | DuplicateContentLength
  | InvalidContentLength
  | MissingContentLength
  | ContentLengthLimit int
  | InvalidMessage
  | UnsupportedVersion string

section \<open>Library functions\<close>

text \<open>\<open>bufio.Reader.ReadString\<close> up to a line feed; without one the reader reports the end of input.\<close>

definition read_string :: "string \<Rightarrow> (string \<times> string) option" where
  "read_string s = (case dropWhile (\<lambda>c. c \<noteq> CHR 0x0A) s of
     [] \<Rightarrow> None
   | c # rest \<Rightarrow> Some (takeWhile (\<lambda>c. c \<noteq> CHR 0x0A) s @ [c], rest))"

definition trim_right :: "char set \<Rightarrow> string \<Rightarrow> string" where
  "trim_right cutset s = rev (dropWhile (\<lambda>c. c \<in> cutset) (rev s))"

text \<open>\<open>strings.Cut(s, ":")\<close>\<close>

definition cut_colon :: "string \<Rightarrow> (string \<times> string) option" where
  "cut_colon s = (case dropWhile (\<lambda>c. c \<noteq> CHR '':'') s of
     [] \<Rightarrow> None
   | c # rest \<Rightarrow> Some (takeWhile (\<lambda>c. c \<noteq> CHR '':'') s, rest))"

text \<open>
  \<open>strings.EqualFold\<close> with \<open>Content-Length\<close>: none of its letters folds with a letter outside ASCII.
\<close>

definition lower_ascii :: "char \<Rightarrow> char" where
  "lower_ascii c = (if 65 \<le> (of_char c :: nat) \<and> (of_char c :: nat) \<le> 90 then char_of (of_char c + 32 :: nat) else c)"

definition equal_fold :: "string \<Rightarrow> string \<Rightarrow> bool" where
  "equal_fold s t \<longleftrightarrow> map lower_ascii s = map lower_ascii t"

text \<open>\<open>strings.TrimSpace\<close>: the encodings of the white space of Unicode, taken off both ends.\<close>

definition spaces :: "string list" where
  "spaces = [
    [CHR 0x09], [CHR 0x0A], [CHR 0x0B], [CHR 0x0C], [CHR 0x0D], [CHR 0x20], [CHR 0xC2, CHR 0x85],
    [CHR 0xC2, CHR 0xA0], [CHR 0xE1, CHR 0x9A, CHR 0x80], [CHR 0xE2, CHR 0x80, CHR 0x80],
    [CHR 0xE2, CHR 0x80, CHR 0x81], [CHR 0xE2, CHR 0x80, CHR 0x82], [CHR 0xE2, CHR 0x80, CHR 0x83],
    [CHR 0xE2, CHR 0x80, CHR 0x84], [CHR 0xE2, CHR 0x80, CHR 0x85], [CHR 0xE2, CHR 0x80, CHR 0x86],
    [CHR 0xE2, CHR 0x80, CHR 0x87], [CHR 0xE2, CHR 0x80, CHR 0x88], [CHR 0xE2, CHR 0x80, CHR 0x89],
    [CHR 0xE2, CHR 0x80, CHR 0x8A], [CHR 0xE2, CHR 0x80, CHR 0xA8], [CHR 0xE2, CHR 0x80, CHR 0xA9],
    [CHR 0xE2, CHR 0x80, CHR 0xAF], [CHR 0xE2, CHR 0x81, CHR 0x9F], [CHR 0xE3, CHR 0x80, CHR 0x80]]"

lemma prefix_shorter: "w \<noteq> [] \<Longrightarrow> take (length w) s = w \<Longrightarrow> length s - length w < length s"
  by (cases s) auto

function trim_prefixes :: "string list \<Rightarrow> string \<Rightarrow> string" where
  "trim_prefixes ws s = (case find (\<lambda>w. w \<noteq> [] \<and> take (length w) s = w) ws of
     None \<Rightarrow> s
   | Some w \<Rightarrow> trim_prefixes ws (drop (length w) s))"
  by pat_completeness auto
termination
  by (relation "measure (\<lambda>(ws, s). length s)") (auto simp: find_Some_iff prefix_shorter)

declare trim_prefixes.simps [simp del]

definition trim_space :: "string \<Rightarrow> string" where
  "trim_space s = rev (trim_prefixes (map rev spaces) (rev (trim_prefixes spaces s)))"

text \<open>\<open>strconv.Atoi\<close>, and \<open>strconv.ParseInt\<close> in base ten, for 64 bits.\<close>

definition digit_value :: "char \<Rightarrow> nat option" where
  "digit_value c = (if 48 \<le> (of_char c :: nat) \<and> (of_char c :: nat) \<le> 57 then Some (of_char c - 48) else None)"

fun digits_value :: "nat \<Rightarrow> string \<Rightarrow> nat option" where
  "digits_value n [] = Some n"
| "digits_value n (c # s) = (case digit_value c of None \<Rightarrow> None | Some d \<Rightarrow> digits_value (10 * n + d) s)"

definition unsigned_value :: "string \<Rightarrow> nat option" where
  "unsigned_value s = (if s = [] then None else digits_value 0 s)"

definition atoi :: "string \<Rightarrow> int option" where
  "atoi s =
     (let negative = (s \<noteq> [] \<and> hd s = CHR ''-'');
          t = (if s \<noteq> [] \<and> (hd s = CHR ''-'' \<or> hd s = CHR ''+'') then tl s else s)
      in case unsigned_value t of
           None \<Rightarrow> None
         | Some n \<Rightarrow>
             if negative then (if n \<le> 2 ^ 63 then Some (- int n) else None)
             else (if n < 2 ^ 63 then Some (int n) else None))"

section \<open>Frames\<close>

definition frame :: "string \<Rightarrow> string" where
  "frame body = ''Content-Length: '' @ dec (length body) @ [CHR 0x0D, CHR 0x0A, CHR 0x0D, CHR 0x0A] @ body"

lemma read_string_length: "read_string s = Some (line, rest) \<Longrightarrow> length rest < length s"
proof -
  assume "read_string s = Some (line, rest)"
  then have "length (dropWhile (\<lambda>c. c \<noteq> CHR 0x0A) s) = Suc (length rest)" by (auto simp: read_string_def split: list.splits)
  with length_dropWhile_le [of "\<lambda>c. c \<noteq> CHR 0x0A" s] show ?thesis by simp
qed

text \<open>The loop over header lines; the arguments are the length so far and whether one was seen.\<close>

function read_headers :: "string \<Rightarrow> int \<Rightarrow> bool \<Rightarrow> rpc_error + (int \<times> string)" where
  "read_headers s len seenLength =
     (case read_string s of
        None \<Rightarrow> Inl EndOfInput
      | Some (raw, rest) \<Rightarrow>
          (let line = trim_right {CHR 0x0D, CHR 0x0A} raw in
           if line = [] then Inr (len, rest)
           else case cut_colon line of
               None \<Rightarrow> Inl (InvalidHeader line)
             | Some (name, val) \<Rightarrow>
                 if equal_fold name ''Content-Length'' then
                   (if seenLength then Inl DuplicateContentLength
                    else case atoi (trim_space val) of
                        None \<Rightarrow> Inl InvalidContentLength
                      | Some n \<Rightarrow> read_headers rest n True)
                 else read_headers rest len seenLength))"
  by pat_completeness auto
termination
  by (relation "measure (\<lambda>(s, len, seen). length s)") (auto dest: read_string_length)

declare read_headers.simps [simp del]

text \<open>\<open>io.ReadFull\<close>\<close>

definition read_full :: "nat \<Rightarrow> string \<Rightarrow> rpc_error + (string \<times> string)" where
  "read_full n s = (if n \<le> length s then Inr (take n s, drop n s) else if s = [] then Inl EndOfInput else Inl UnexpectedEOF)"

definition readMessageBody :: "(string \<Rightarrow> message option) \<Rightarrow> string \<Rightarrow> rpc_error + (message \<times> string \<times> string)" where
  "readMessageBody decode s =
     (case read_headers s (- 1) False of
        Inl err \<Rightarrow> Inl err
      | Inr (len, rest) \<Rightarrow>
          if len < 0 then Inl MissingContentLength
          else if len > maxMessageBytes then Inl (ContentLengthLimit len)
          else case read_full (nat len) rest of
              Inl err \<Rightarrow> Inl err
            | Inr (body, rest') \<Rightarrow>
                (case decode body of
                   None \<Rightarrow> Inl InvalidMessage
                 | Some m \<Rightarrow> if m_JSONRPC m \<noteq> ''2.0'' then Inl (UnsupportedVersion (m_JSONRPC m)) else Inr (m, body, rest')))"

lemma read_headers_consumes: "read_headers s len seen = Inr (len', rest) \<Longrightarrow> \<exists>header. header \<noteq> [] \<and> s = header @ rest"
proof (induction s len seen rule: read_headers.induct)
  case (1 s len seen)
  obtain raw rest1 where r: "read_string s = Some (raw, rest1)" using "1.prems" by (auto simp: read_headers.simps [of s] split: option.splits)
  then have s: "s = raw @ rest1" "raw \<noteq> []"
    unfolding read_string_def by (auto split: list.splits) (metis append.assoc append_Cons append_Nil takeWhile_dropWhile_id)
  have "rest = rest1 \<or> (\<exists>header. header \<noteq> [] \<and> rest1 = header @ rest)"
    using 1 r by (auto simp: read_headers.simps [of s] Let_def split: if_splits option.splits prod.splits)
  with s show ?case by (metis append.assoc append_is_Nil_conv)
qed

lemma readMessageBody_consumes:
  assumes "readMessageBody decode s = Inr (m, body, rest)"
  shows "\<exists>header. header \<noteq> [] \<and> s = header @ body @ rest"
proof -
  obtain len rest1 where h: "read_headers s (- 1) False = Inr (len, rest1)" and "read_full (nat len) rest1 = Inr (body, rest)"
    using assms by (auto simp: readMessageBody_def split: sum.splits prod.splits if_splits option.splits)
  then have "rest1 = body @ rest" by (auto simp: read_full_def split: if_splits)
  with read_headers_consumes [OF h] show ?thesis by blast
qed

text \<open>The messages that the loop of the reader takes from a stream, with their bodies, and the error that ends it.\<close>

function read_messages :: "(string \<Rightarrow> message option) \<Rightarrow> string \<Rightarrow> (message \<times> string) list \<times> rpc_error" where
  "read_messages decode s =
     (case readMessageBody decode s of
        Inl err \<Rightarrow> ([], err)
      | Inr (m, body, rest) \<Rightarrow> (case read_messages decode rest of (ms, err) \<Rightarrow> ((m, body) # ms, err)))"
  by pat_completeness auto
termination
  by (relation "measure (\<lambda>(decode, s). length s)") (auto dest!: readMessageBody_consumes)

declare read_messages.simps [simp del]

section \<open>The connection\<close>

datatype call_result =
    Answered message
  | WriteFailed
  | ContextDone
  | Closed "rpc_error option"

datatype call_state = Writing | Waiting | Returned call_result

record call =
  k_id :: u64
  k_chan :: "message list"
  k_state :: call_state

record Conn =
  c_in :: string
  c_out :: string
  c_next :: u64
  c_pending :: "u64 \<rightharpoonup> nat"
  c_calls :: "call list"
  c_done :: bool
  c_err :: "rpc_error option"
  c_tracing :: bool
  c_trace :: "TraceEvent list"
  c_traceSequence :: u64

definition NewWithTrace :: "string \<Rightarrow> bool \<Rightarrow> Conn" where
  "NewWithTrace input tracing = \<lparr>c_in = input, c_out = [], c_next = 0, c_pending = Map.empty, c_calls = [], c_done = False,
     c_err = None, c_tracing = tracing, c_trace = [], c_traceSequence = 0\<rparr>"

definition record_event :: "string \<Rightarrow> string \<Rightarrow> Conn \<Rightarrow> Conn" where
  "record_event direction body c =
     (if \<not> c_tracing c then c
      else c\<lparr>c_traceSequence := c_traceSequence c + 1,
             c_trace := c_trace c @ [\<lparr>Sequence = c_traceSequence c + 1, Direction = direction, Payload = body\<rparr>]\<rparr>)"

text \<open>A write that succeeds, and one that fails after some prefix of the frame.\<close>

definition write_ok :: "string \<Rightarrow> Conn \<Rightarrow> Conn" where
  "write_ok body c = record_event ''send'' body (c\<lparr>c_out := c_out c @ frame body\<rparr>)"

definition write_torn :: "nat \<Rightarrow> string \<Rightarrow> Conn \<Rightarrow> Conn" where
  "write_torn n body c = c\<lparr>c_out := c_out c @ take n (frame body)\<rparr>"

text \<open>The sections of \<open>Call\<close>.\<close>

definition begin_call :: "Conn \<Rightarrow> Conn" where
  "begin_call c =
     (let i = c_next c + 1 in
      c\<lparr>c_next := i, c_pending := (c_pending c)(i \<mapsto> length (c_calls c)),
        c_calls := c_calls c @ [\<lparr>k_id = i, k_chan = [], k_state = Writing\<rparr>]\<rparr>)"

definition call_message :: "u64 \<Rightarrow> string \<Rightarrow> string \<Rightarrow> message" where
  "call_message i meth params = \<lparr>m_JSONRPC = ''2.0'', m_ID = dec_int (sint i), m_Method = meth, m_Params = params, m_Result = '''', m_Error = None\<rparr>"

definition set_state :: "nat \<Rightarrow> call_state \<Rightarrow> Conn \<Rightarrow> Conn" where
  "set_state k st c = c\<lparr>c_calls := (c_calls c)[k := (c_calls c ! k)\<lparr>k_state := st\<rparr>]\<rparr>"

definition remove_call :: "nat \<Rightarrow> Conn \<Rightarrow> Conn" where
  "remove_call k c = c\<lparr>c_pending := (c_pending c)(k_id (c_calls c ! k) := None)\<rparr>"

definition take_answer :: "nat \<Rightarrow> Conn \<Rightarrow> Conn" where
  "take_answer k c = c\<lparr>c_calls := (c_calls c)[k := (c_calls c ! k)\<lparr>k_chan := tl (k_chan (c_calls c ! k)),
     k_state := Returned (Answered (hd (k_chan (c_calls c ! k))))\<rparr>]\<rparr>"

text \<open>What \<open>Call\<close> makes of the answer: the error, the result to decode, or nothing.\<close>

definition call_answer :: "message \<Rightarrow> RpcError + string option" where
  "call_answer m = (case m_Error m of
     Some e \<Rightarrow> Inl e
   | None \<Rightarrow> Inr (if m_Result m \<noteq> '''' \<and> m_Result m \<noteq> ''null'' then Some (m_Result m) else None))"

definition notify_message :: "string \<Rightarrow> string \<Rightarrow> message" where
  "notify_message meth params = \<lparr>m_JSONRPC = ''2.0'', m_ID = '''', m_Method = meth, m_Params = params, m_Result = '''', m_Error = None\<rparr>"

text \<open>The sections of \<open>readLoop\<close>.\<close>

definition not_found :: "message \<Rightarrow> message" where
  "not_found m = \<lparr>m_JSONRPC = ''2.0'', m_ID = m_ID m, m_Method = '''', m_Params = '''', m_Result = '''',
     m_Error = Some \<lparr>e_Code = - 32601, e_Message = ''method not found'', e_Data = ''''\<rparr>\<rparr>"

definition close_conn :: "rpc_error \<Rightarrow> Conn \<Rightarrow> Conn" where
  "close_conn err c = c\<lparr>c_err := (if err = EndOfInput then c_err c else Some err), c_done := True\<rparr>"

definition receive :: "string \<Rightarrow> string \<Rightarrow> Conn \<Rightarrow> Conn" where
  "receive body rest c = record_event ''receive'' body (c\<lparr>c_in := rest\<rparr>)"

text \<open>The channel that a response goes to.\<close>

definition addressee :: "message \<Rightarrow> Conn \<Rightarrow> nat option" where
  "addressee m c = (case atoi (m_ID m) of None \<Rightarrow> None | Some i \<Rightarrow> c_pending c (word_of_int i))"

definition deliver :: "message \<Rightarrow> Conn \<Rightarrow> Conn" where
  "deliver m c = (case atoi (m_ID m) of
     None \<Rightarrow> c
   | Some i \<Rightarrow>
       (let c' = c\<lparr>c_pending := (c_pending c)(word_of_int i := None)\<rparr> in
        case c_pending c (word_of_int i) of
          None \<Rightarrow> c'
        | Some k \<Rightarrow> c'\<lparr>c_calls := (c_calls c)[k := (c_calls c ! k)\<lparr>k_chan := k_chan (c_calls c ! k) @ [m]\<rparr>]\<rparr>))"

text \<open>
  The steps. A call is its number. The writer may fail when \<open>broken\<close>. A channel holds one message, so that a
  send to a full channel would wait: \<open>respond\<close> needs room.
\<close>

inductive conn_step :: "(message \<Rightarrow> string) \<Rightarrow> (string \<Rightarrow> message option) \<Rightarrow> bool \<Rightarrow> Conn \<Rightarrow> Conn \<Rightarrow> bool"
  for encode :: "message \<Rightarrow> string" and decode :: "string \<Rightarrow> message option" and broken :: bool where
  call: "conn_step encode decode broken c (begin_call c)"
| send: "k < length (c_calls c) \<Longrightarrow> k_state (c_calls c ! k) = Writing \<Longrightarrow>
    conn_step encode decode broken c (set_state k Waiting (write_ok (encode (call_message (k_id (c_calls c ! k)) meth params)) c))"
| send_fails: "broken \<Longrightarrow> k < length (c_calls c) \<Longrightarrow> k_state (c_calls c ! k) = Writing \<Longrightarrow>
    conn_step encode decode broken c (set_state k (Returned WriteFailed) (remove_call k
      (write_torn n (encode (call_message (k_id (c_calls c ! k)) meth params)) c)))"
| answer: "k < length (c_calls c) \<Longrightarrow> k_state (c_calls c ! k) = Waiting \<Longrightarrow> k_chan (c_calls c ! k) \<noteq> [] \<Longrightarrow>
    conn_step encode decode broken c (take_answer k c)"
| cancel: "k < length (c_calls c) \<Longrightarrow> k_state (c_calls c ! k) = Waiting \<Longrightarrow>
    conn_step encode decode broken c (set_state k (Returned ContextDone) (remove_call k c))"
| closed: "k < length (c_calls c) \<Longrightarrow> k_state (c_calls c ! k) = Waiting \<Longrightarrow> c_done c \<Longrightarrow>
    conn_step encode decode broken c (set_state k (Returned (Closed (c_err c))) (remove_call k c))"
| notify: "conn_step encode decode broken c (write_ok (encode (notify_message meth params)) c)"
| notify_fails: "broken \<Longrightarrow> conn_step encode decode broken c (write_torn n (encode (notify_message meth params)) c)"
| read_fails: "\<not> c_done c \<Longrightarrow> readMessageBody decode (c_in c) = Inl err \<Longrightarrow> conn_step encode decode broken c (close_conn err c)"
| request: "\<not> c_done c \<Longrightarrow> readMessageBody decode (c_in c) = Inr (m, body, rest) \<Longrightarrow> m_Method m \<noteq> '''' \<Longrightarrow> m_ID m \<noteq> '''' \<Longrightarrow>
    conn_step encode decode broken c (write_ok (encode (not_found m)) (receive body rest c))"
| request_fails: "broken \<Longrightarrow> \<not> c_done c \<Longrightarrow> readMessageBody decode (c_in c) = Inr (m, body, rest) \<Longrightarrow> m_Method m \<noteq> '''' \<Longrightarrow> m_ID m \<noteq> '''' \<Longrightarrow>
    conn_step encode decode broken c (write_torn n (encode (not_found m)) (receive body rest c))"
| notification: "\<not> c_done c \<Longrightarrow> readMessageBody decode (c_in c) = Inr (m, body, rest) \<Longrightarrow> m_Method m \<noteq> '''' \<Longrightarrow> m_ID m = '''' \<Longrightarrow>
    conn_step encode decode broken c (receive body rest c)"
| respond: "\<not> c_done c \<Longrightarrow> readMessageBody decode (c_in c) = Inr (m, body, rest) \<Longrightarrow> m_Method m = '''' \<Longrightarrow>
    (\<forall>k. addressee m c = Some k \<longrightarrow> k_chan (c_calls c ! k) = []) \<Longrightarrow>
    conn_step encode decode broken c (deliver m (receive body rest c))"

end
