(* ===== verification/Json_Rpc_Properties.thy ===== *)
theory Json_Rpc_Properties
  imports Json_Rpc
begin

text \<open>
  Properties of \<open>internal/jsonrpc\<close>: frames survive a round trip, the reader stays within the message bound and
  takes nothing but whole frames, and a connection gives every call the response with its identifier, at most once.
\<close>

section \<open>Numerals\<close>

lemma digit_value_digit: "n < 10 \<Longrightarrow> digit_value (digit n) = Some n"
  by (simp add: digit_value_def digit_def)

lemma digits_value_append: "digits_value n (s @ t) = (case digits_value n s of None \<Rightarrow> None | Some m \<Rightarrow> digits_value m t)"
  by (induction s arbitrary: n) (auto split: option.splits)

lemma digits_value_dec: "digits_value 0 (dec n) = Some n"
proof (induction n rule: dec.induct)
  case (1 n)
  show ?case
  proof (cases "n < 10")
    case True
    then show ?thesis by (simp add: dec.simps [of n] digit_value_digit)
  next
    case False
    then have "digits_value 0 (dec n) = digits_value (n div 10) [digit (n mod 10)]"
      using 1 by (simp add: dec.simps [of n] digits_value_append)
    then show ?thesis by (simp add: digit_value_digit)
  qed
qed

lemma dec_digit: "c \<in> set (dec n) \<Longrightarrow> digit_value c \<noteq> None"
proof (induction n rule: dec.induct)
  case (1 n)
  then show ?case by (auto simp: dec.simps [of n] digit_value_digit split: if_splits)
qed

lemma dec_ends: "digit_value (hd (dec n)) \<noteq> None" "digit_value (last (dec n)) \<noteq> None"
  using dec_digit [of "hd (dec n)" n] dec_digit [of "last (dec n)" n] by simp_all

lemma dec_avoids: "digit_value c = None \<Longrightarrow> c \<notin> set (dec n)"
  using dec_digit by blast

lemma digit_value_sign: "digit_value (CHR ''-'') = None" "digit_value (CHR ''+'') = None"
  by code_simp+

lemma atoi_dec: "n < 2 ^ 63 \<Longrightarrow> atoi (dec n) = Some (int n)"
proof -
  assume "n < 2 ^ 63"
  moreover have "hd (dec n) \<noteq> CHR ''-''" "hd (dec n) \<noteq> CHR ''+''" using dec_ends(1) [of n] digit_value_sign by auto
  ultimately show ?thesis by (simp add: atoi_def Let_def unsigned_value_def digits_value_dec)
qed

text \<open>The identifier of a call is read back from its decimal form, also after it has wrapped around.\<close>

lemma atoi_dec_int: "- (2 ^ 63) \<le> i \<Longrightarrow> i < 2 ^ 63 \<Longrightarrow> atoi (dec_int i) = Some i"
proof (cases "i < 0")
  case True
  assume "- (2 ^ 63) \<le> i"
  with True have "nat (- i) \<le> 2 ^ 63" by (simp add: nat_le_iff)
  with True show ?thesis by (simp add: dec_int_def atoi_def Let_def unsigned_value_def digits_value_dec)
next
  case False
  assume "i < 2 ^ 63"
  with False have "nat i < 2 ^ 63" by (simp add: nat_less_iff)
  with False show ?thesis by (simp add: dec_int_def atoi_dec)
qed

lemma atoi_range: "atoi s = Some i \<Longrightarrow> - (2 ^ 63) \<le> i \<and> i < 2 ^ 63"
  by (auto simp: atoi_def Let_def split: option.splits if_splits)

lemma atoi_sint: "atoi (dec_int (sint (w :: u64))) = Some (sint w)"
proof (rule atoi_dec_int)
  show "- (2 ^ 63) \<le> sint w" using sint_ge [of w] by simp
  show "sint w < 2 ^ 63" using sint_lt [of w] by simp
qed

section \<open>Frames\<close>

lemma read_string_line:
  assumes "CHR 0x0A \<notin> set line"
  shows "read_string (line @ CHR 0x0A # rest) = Some (line @ [CHR 0x0A], rest)"
proof -
  have "\<forall>c \<in> set line. c \<noteq> CHR 0x0A" using assms by blast
  then show ?thesis by (simp add: read_string_def)
qed

lemma trim_prefixes_stop:
  assumes "s \<noteq> []" and "\<And>w. w \<in> set ws \<Longrightarrow> hd w \<noteq> hd s"
  shows "trim_prefixes ws s = s"
proof -
  have "take (length w) s \<noteq> w" if "w \<in> set ws" "w \<noteq> []" for w
    using assms(1) assms(2) [OF that(1)] that(2) by (cases s; cases w) auto
  then have "find (\<lambda>w. w \<noteq> [] \<and> take (length w) s = w) ws = None" by (auto simp: find_None_iff)
  then show ?thesis by (simp add: trim_prefixes.simps [of ws s])
qed

lemma spaces_not_digits: "\<forall>w \<in> set spaces. digit_value (hd w) = None" "\<forall>w \<in> set (map rev spaces). digit_value (hd w) = None"
  by code_simp+

lemma trim_space_dec: "trim_space (CHR '' '' # dec n) = dec n"
proof -
  have "trim_prefixes spaces (CHR '' '' # dec n) = trim_prefixes spaces (dec n)"
    by (subst trim_prefixes.simps) (simp add: spaces_def)
  also have "\<dots> = dec n" by (rule trim_prefixes_stop) (use dec_ends(1) [of n] spaces_not_digits(1) in auto)
  finally have "trim_prefixes spaces (CHR '' '' # dec n) = dec n" .
  moreover have "trim_prefixes (map rev spaces) (rev (dec n)) = rev (dec n)"
    by (rule trim_prefixes_stop) (use dec_ends(2) [of n] spaces_not_digits(2) in \<open>auto simp: hd_rev\<close>)
  ultimately show ?thesis by (simp add: trim_space_def)
qed

lemma trim_right_line:
  assumes "s \<noteq> []" and "last s \<notin> cutset" and "set t \<subseteq> cutset"
  shows "trim_right cutset (s @ t) = s"
proof -
  have "\<forall>c \<in> set (rev t). c \<in> cutset" using assms(3) by auto
  then have "dropWhile (\<lambda>c. c \<in> cutset) (rev t @ rev s) = dropWhile (\<lambda>c. c \<in> cutset) (rev s)" by (intro dropWhile_append2) blast
  moreover have "dropWhile (\<lambda>c. c \<in> cutset) (rev s) = rev s" using assms(1,2) by (cases s rule: rev_cases) auto
  ultimately show ?thesis by (simp add: trim_right_def)
qed

lemma header_line:
  defines "line \<equiv> \<lambda>n. ''Content-Length: '' @ dec n"
  shows "read_string (line n @ [CHR 0x0D, CHR 0x0A] @ rest) = Some (line n @ [CHR 0x0D, CHR 0x0A], rest)"
    and "trim_right {CHR 0x0D, CHR 0x0A} (line n @ [CHR 0x0D, CHR 0x0A]) = line n"
    and "cut_colon (line n) = Some (''Content-Length'', CHR '' '' # dec n)"
proof -
  have avoid: "CHR 0x0A \<notin> set (dec n)" "last (dec n) \<noteq> CHR 0x0D" "last (dec n) \<noteq> CHR 0x0A"
    using dec_avoids [of "CHR 0x0A" n] dec_ends(2) [of n] by (auto simp: digit_value_def)
  then show "read_string (line n @ [CHR 0x0D, CHR 0x0A] @ rest) = Some (line n @ [CHR 0x0D, CHR 0x0A], rest)"
    using read_string_line [of "line n @ [CHR 0x0D]" rest] by (simp add: line_def)
  show "trim_right {CHR 0x0D, CHR 0x0A} (line n @ [CHR 0x0D, CHR 0x0A]) = line n"
    by (rule trim_right_line) (use avoid in \<open>simp_all add: line_def\<close>)
  show "cut_colon (line n) = Some (''Content-Length'', CHR '' '' # dec n)" by (simp add: cut_colon_def line_def)
qed

lemma read_headers_frame:
  assumes "n < 2 ^ 63"
  shows "read_headers (''Content-Length: '' @ dec n @ [CHR 0x0D, CHR 0x0A, CHR 0x0D, CHR 0x0A] @ rest) (- 1) False = Inr (int n, rest)"
proof -
  let ?s = "(''Content-Length: '' @ dec n) @ [CHR 0x0D, CHR 0x0A] @ [CHR 0x0D, CHR 0x0A] @ rest"
  have "read_headers ?s (- 1) False = read_headers ([CHR 0x0D, CHR 0x0A] @ rest) (int n) True"
    unfolding read_headers.simps [of ?s] header_line(1)
    using header_line(2,3) [of n] atoi_dec [OF assms] by (simp add: Let_def trim_space_dec equal_fold_def)
  also have "\<dots> = Inr (int n, rest)"
    using read_string_line [of "[CHR 0x0D]" rest] by (simp add: read_headers.simps [of "CHR 0x0D # _"] trim_right_def)
  finally show ?thesis by simp
qed

lemma readMessageBody_frame:
  assumes "int (length body) \<le> maxMessageBytes" and "decode body = Some m" and "m_JSONRPC m = ''2.0''"
  shows "readMessageBody decode (frame body @ rest) = Inr (m, body, rest)"
proof -
  have "length body < 2 ^ 63" using assms(1) by (simp add: maxMessageBytes_def)
  from read_headers_frame [OF this, of "body @ rest"] show ?thesis
    using assms by (simp add: readMessageBody_def frame_def read_full_def)
qed

lemma read_messages_frames:
  "(\<And>body. body \<in> set bodies \<Longrightarrow> int (length body) \<le> maxMessageBytes \<and> (\<exists>m. decode body = Some m \<and> m_JSONRPC m = ''2.0'')) \<Longrightarrow>
     read_messages decode (concat (map frame bodies)) = (map (\<lambda>body. (the (decode body), body)) bodies, EndOfInput)"
proof (induction bodies)
  case Nil
  have "readMessageBody decode [] = Inl EndOfInput" by (simp add: readMessageBody_def read_headers.simps [of "[]"] read_string_def)
  then show ?case by (simp add: read_messages.simps [of _ "[]"])
next
  case (Cons body bodies)
  then obtain m where m: "int (length body) \<le> maxMessageBytes" "decode body = Some m" "m_JSONRPC m = ''2.0''" by (meson list.set_intros(1))
  show ?case
    using Cons readMessageBody_frame [where body = body and decode = decode and m = m and rest = "concat (map frame bodies)"] m
    by (simp add: read_messages.simps [of _ "frame body @ _"])
qed

section \<open>The connection\<close>

definition answers :: "message \<Rightarrow> u64 \<Rightarrow> bool" where
  "answers m i \<longleftrightarrow> atoi (m_ID m) = Some (sint i)"

lemma answers_word: "atoi (m_ID m) = Some j \<Longrightarrow> answers m (word_of_int j)"
  using atoi_range [of "m_ID m" j] by (auto simp: answers_def sint_sbintrunc' signed_take_bit_int_eq_self)

definition conn_inv :: "Conn \<Rightarrow> bool" where
  "conn_inv c \<longleftrightarrow>
     (\<forall>i k. c_pending c i = Some k \<longrightarrow> k < length (c_calls c) \<and> k_id (c_calls c ! k) = i \<and> k_chan (c_calls c ! k) = [] \<and>
        k_state (c_calls c ! k) \<in> {Writing, Waiting}) \<and>
     (\<forall>k < length (c_calls c). length (k_chan (c_calls c ! k)) \<le> 1 \<and> (\<forall>m \<in> set (k_chan (c_calls c ! k)). answers m (k_id (c_calls c ! k))) \<and>
        (\<forall>m. k_state (c_calls c ! k) = Returned (Answered m) \<longrightarrow> answers m (k_id (c_calls c ! k)) \<and> k_chan (c_calls c ! k) = []))"

lemma inv_frame: "c_pending c' = c_pending c \<Longrightarrow> c_calls c' = c_calls c \<Longrightarrow> conn_inv c' = conn_inv c"
  by (simp add: conn_inv_def)

lemma write_fields [simp]:
  "c_pending (write_ok body c) = c_pending c" "c_calls (write_ok body c) = c_calls c"
  "c_pending (write_torn n body c) = c_pending c" "c_calls (write_torn n body c) = c_calls c"
  "c_pending (receive body rest c) = c_pending c" "c_calls (receive body rest c) = c_calls c"
  "c_pending (close_conn err c) = c_pending c" "c_calls (close_conn err c) = c_calls c"
  by (simp_all add: write_ok_def write_torn_def receive_def record_event_def close_conn_def)

lemma begin_call_inv: "conn_inv c \<Longrightarrow> conn_inv (begin_call c)"
  unfolding conn_inv_def begin_call_def by (auto simp: Let_def nth_append less_Suc_eq)

lemma waiting_inv:
  assumes "conn_inv c" and "k < length (c_calls c)" and "k_state (c_calls c ! k) = Writing"
  shows "conn_inv (set_state k Waiting c)"
  using assms unfolding conn_inv_def set_state_def by (auto simp: nth_list_update)

lemma leave_inv:
  assumes "conn_inv c" and "k < length (c_calls c)" and "\<And>m. r \<noteq> Answered m"
  shows "conn_inv (set_state k (Returned r) (remove_call k c))"
  using assms unfolding conn_inv_def set_state_def remove_call_def by (auto simp: nth_list_update split: if_splits)

lemma answer_inv:
  assumes "conn_inv c" and "k < length (c_calls c)" and "k_chan (c_calls c ! k) \<noteq> []"
  shows "conn_inv (take_answer k c)"
proof -
  obtain m where m: "k_chan (c_calls c ! k) = [m]" "answers m (k_id (c_calls c ! k))"
    using assms unfolding conn_inv_def by (cases "k_chan (c_calls c ! k)") auto
  then have "c_pending c i \<noteq> Some k" for i using assms(1) unfolding conn_inv_def by fastforce
  with m assms(1,2) show ?thesis unfolding conn_inv_def take_answer_def by (auto simp: nth_list_update)
qed

lemma deliver_inv:
  assumes "conn_inv c"
  shows "conn_inv (deliver m c)"
proof (cases "atoi (m_ID m)")
  case None
  then show ?thesis using assms by (simp add: deliver_def)
next
  case (Some j)
  show ?thesis
  proof (cases "c_pending c (word_of_int j)")
    case None
    with Some assms show ?thesis unfolding conn_inv_def deliver_def by (auto split: if_splits)
  next
    case (Some k)
    then have k: "k < length (c_calls c)" "k_id (c_calls c ! k) = word_of_int j" "k_chan (c_calls c ! k) = []"
      "\<And>r. k_state (c_calls c ! k) \<noteq> Returned r" using assms unfolding conn_inv_def by fastforce+
    then have "c_pending c i \<noteq> Some k" if "i \<noteq> word_of_int j" for i using assms that unfolding conn_inv_def by auto
    with k Some \<open>atoi (m_ID m) = Some j\<close> assms answers_word [of m j] show ?thesis
      unfolding conn_inv_def deliver_def by (auto simp: nth_list_update Let_def split: if_splits)
  qed
qed

lemma conn_step_inv: "conn_step encode decode broken c c' \<Longrightarrow> conn_inv c \<Longrightarrow> conn_inv c'"
proof (induction rule: conn_step.induct)
  case (send k c meth params)
  let ?c = "write_ok (encode (call_message (k_id (c_calls c ! k)) meth params)) c"
  have "conn_inv ?c" using send inv_frame [of ?c c] by simp
  then show ?case using send by (intro waiting_inv) simp_all
next
  case (send_fails k c n meth params)
  let ?c = "write_torn n (encode (call_message (k_id (c_calls c ! k)) meth params)) c"
  have "conn_inv ?c" using send_fails inv_frame [of ?c c] by simp
  then show ?case using send_fails by (intro leave_inv) simp_all
next
  case (respond c m body rest)
  then have "conn_inv (receive body rest c)" using inv_frame [of "receive body rest c" c] by simp
  then show ?case by (rule deliver_inv)
next
  case (call c)
  then show ?case by (rule begin_call_inv)
next
  case (answer k c)
  then show ?case by (intro answer_inv)
next
  case (cancel k c)
  then show ?case by (intro leave_inv) simp_all
next
  case (closed k c)
  then show ?case by (intro leave_inv) simp_all
next
  case (notify c meth params)
  then show ?case by (subst inv_frame [of _ c]) simp_all
next
  case (notify_fails c n meth params)
  then show ?case by (subst inv_frame [of _ c]) simp_all
next
  case (read_fails c err)
  then show ?case by (subst inv_frame [of _ c]) simp_all
next
  case (request c m body rest)
  then show ?case by (subst inv_frame [of _ c]) simp_all
next
  case (request_fails c m body rest n)
  then show ?case by (subst inv_frame [of _ c]) simp_all
next
  case (notification c m body rest)
  then show ?case by (subst inv_frame [of _ c]) simp_all
qed

definition conn_start :: "Conn \<Rightarrow> bool" where
  "conn_start c \<longleftrightarrow> (\<exists>input tracing. c = NewWithTrace input tracing)"

interpretation rpc: invariant_system conn_start "conn_step encode decode broken" conn_inv for encode decode broken
proof unfold_locales
  show "conn_start c \<Longrightarrow> conn_inv c" for c by (auto simp: conn_start_def NewWithTrace_def conn_inv_def)
  show "conn_inv c \<Longrightarrow> conn_step encode decode broken c c' \<Longrightarrow> conn_inv c'" for c c' by (rule conn_step_inv)
qed

text \<open>While no write fails the output is the frames of the sent messages in the order of the trace.\<close>

definition sent :: "Conn \<Rightarrow> string list" where
  "sent c = map Payload (filter (\<lambda>e. Direction e = ''send'') (c_trace c))"

definition traced :: "Conn \<Rightarrow> bool" where
  "traced c \<longleftrightarrow> (c_tracing c \<longrightarrow> c_out c = concat (map frame (sent c)) \<and>
     map Sequence (c_trace c) = map of_nat [1..<Suc (length (c_trace c))] \<and> c_traceSequence c = of_nat (length (c_trace c)))"

lemma receive_traced: "traced c \<Longrightarrow> traced (receive body rest c)"
  by (auto simp: traced_def sent_def receive_def record_event_def)

lemma write_traced: "traced c \<Longrightarrow> traced (write_ok body c)"
  by (auto simp: traced_def sent_def write_ok_def record_event_def)

lemma traced_call [simp]:
  "traced (begin_call c) = traced c" "traced (set_state k st c) = traced c" "traced (remove_call k c) = traced c"
  "traced (take_answer k c) = traced c" "traced (close_conn err c) = traced c"
  by (simp_all add: traced_def sent_def begin_call_def set_state_def remove_call_def take_answer_def close_conn_def Let_def)

lemma traced_deliver [simp]: "traced (deliver m c) = traced c"
  by (auto simp: traced_def sent_def deliver_def Let_def split: option.split)

lemma conn_step_traced: "conn_step encode decode False c c' \<Longrightarrow> traced c \<Longrightarrow> traced c'"
  by (induction rule: conn_step.induct) (simp_all add: write_traced receive_traced)

interpretation out: invariant_system conn_start "conn_step encode decode False" traced for encode decode
proof unfold_locales
  show "conn_start c \<Longrightarrow> traced c" for c by (auto simp: conn_start_def NewWithTrace_def traced_def sent_def)
  show "traced c \<Longrightarrow> conn_step encode decode False c c' \<Longrightarrow> traced c'" for c c' by (rule conn_step_traced)
qed

section \<open>Properties\<close>

text \<open>
  C20: a connection matches responses to calls. In every state that the interleaved steps of the calls and of
  the reader reach, failing writes, cancellations and identifiers that have wrapped around included, a call that
  was answered got a response with its own identifier; its channel never holds more than one message and is
  empty when the reader sends to it, so that the reader never waits for a caller; and a call that has
  returned is no longer pending.
\<close>

theorem Conn_delivers:
  assumes "reachable conn_start (conn_step encode decode broken) c" and "k < length (c_calls c)"
  shows "length (k_chan (c_calls c ! k)) \<le> 1 \<and>
    (\<forall>m. k_state (c_calls c ! k) = Returned (Answered m) \<longrightarrow> atoi (m_ID m) = Some (sint (k_id (c_calls c ! k)))) \<and>
    (\<forall>m. addressee m c = Some k \<longrightarrow> k_chan (c_calls c ! k) = [] \<and> atoi (m_ID m) = Some (sint (k_id (c_calls c ! k)))) \<and>
    (\<forall>r i. k_state (c_calls c ! k) = Returned r \<longrightarrow> c_pending c i \<noteq> Some k)"
proof -
  have i: "conn_inv c" using rpc.reachable_inv [OF assms(1)] .
  have "k_chan (c_calls c ! k) = [] \<and> answers m (k_id (c_calls c ! k))" if a: "addressee m c = Some k" for m
  proof -
    obtain j where j: "atoi (m_ID m) = Some j" "c_pending c (word_of_int j) = Some k" using a by (auto simp: addressee_def split: option.splits)
    then show ?thesis using i answers_word [OF j(1)] by (auto simp: conn_inv_def)
  qed
  moreover have "c_pending c i \<noteq> Some k" if "k_state (c_calls c ! k) = Returned r" for r i using i that unfolding conn_inv_def by fastforce
  ultimately show ?thesis using i assms(2) by (auto simp: conn_inv_def answers_def)
qed

text \<open>One call that is answered, used as the concrete instance of the properties.\<close>

definition sample_message :: message where
  "sample_message = \<lparr>m_JSONRPC = ''2.0'', m_ID = ''1'', m_Method = '''', m_Params = '''', m_Result = ''7'', m_Error = None\<rparr>"

definition sample_called :: Conn where
  "sample_called = set_state 0 Waiting (write_ok ''q'' (begin_call (NewWithTrace (frame ''r'') True)))"

definition sample_answered :: Conn where
  "sample_answered = take_answer 0 (deliver sample_message (receive ''r'' '''' sample_called))"

lemma sample_read: "readMessageBody (\<lambda>_. Some sample_message) (frame ''r'') = Inr (sample_message, ''r'', '''')"
  using readMessageBody_frame [of "''r''" "\<lambda>_. Some sample_message" sample_message "''''"]
  by (simp add: maxMessageBytes_def sample_message_def)

lemma sample_called_fields:
  "c_in sample_called = frame ''r''" "c_done sample_called = False" "c_calls sample_called = [\<lparr>k_id = 1, k_chan = [], k_state = Waiting\<rparr>]"
  "c_pending sample_called = [1 \<mapsto> 0]"
  by (simp_all add: sample_called_def set_state_def write_ok_def record_event_def begin_call_def NewWithTrace_def)

lemma sample_delivered:
  "c_calls (deliver sample_message (receive ''r'' '''' sample_called)) = [\<lparr>k_id = 1, k_chan = [sample_message], k_state = Waiting\<rparr>]"
proof -
  have "digit 1 = CHR ''1''" by code_simp
  then have "dec 1 = ''1''" by (simp add: dec.simps)
  with atoi_dec [of 1] have "atoi (m_ID sample_message) = Some 1" by (simp add: sample_message_def)
  then show ?thesis by (simp add: deliver_def sample_called_fields)
qed

lemma sample_reached: "reachable conn_start (conn_step (\<lambda>_. ''q'') (\<lambda>_. Some sample_message) False) sample_answered"
proof -
  let ?step = "conn_step (\<lambda>_. ''q'') (\<lambda>_. Some sample_message) False" and ?c = "NewWithTrace (frame ''r'') True"
  have "conn_start ?c" by (auto simp: conn_start_def)
  then have "reachable conn_start ?step ?c" by (rule reachable.initial)
  then have "reachable conn_start ?step (begin_call ?c)" by (rule reachable.step) (rule conn_step.call)
  then have "reachable conn_start ?step sample_called"
    unfolding sample_called_def
    by (rule reachable.step) (rule conn_step.send, simp_all add: begin_call_def NewWithTrace_def)
  moreover have "?step sample_called (deliver sample_message (receive ''r'' '''' sample_called))"
  proof (rule conn_step.respond)
    show "\<not> c_done sample_called" by (simp add: sample_called_fields)
    show "readMessageBody (\<lambda>_. Some sample_message) (c_in sample_called) = Inr (sample_message, ''r'', '''')"
      by (simp add: sample_called_fields sample_read)
    show "m_Method sample_message = ''''" by (simp add: sample_message_def)
    show "\<forall>k. addressee sample_message sample_called = Some k \<longrightarrow> k_chan (c_calls sample_called ! k) = []"
      by (auto simp: addressee_def sample_called_fields split: option.splits if_splits)
  qed
  ultimately have "reachable conn_start ?step (deliver sample_message (receive ''r'' '''' sample_called))" by (rule reachable.step)
  then show ?thesis unfolding sample_answered_def
    by (rule reachable.step) (rule conn_step.answer, simp_all add: sample_delivered)
qed

theorem Conn_delivers_witness:
  "k_state (c_calls sample_answered ! 0) = Returned (Answered sample_message) \<and> atoi (m_ID sample_message) = Some (sint (k_id (c_calls sample_answered ! 0)))"
proof -
  have c: "c_calls sample_answered = [\<lparr>k_id = 1, k_chan = [], k_state = Returned (Answered sample_message)\<rparr>]"
    by (simp add: sample_answered_def take_answer_def sample_delivered)
  with Conn_delivers [OF sample_reached, of 0] show ?thesis by simp
qed

text \<open>
  C21: what a connection writes is read back. While no write fails, a reader of the output takes the messages
  of the calls, notifications and replies in the order of the trace, nothing else and nothing between them,
  and then sees the end of the input, provided their bodies decode to version 2.0 and are within the bound;
  and the sequence numbers of the trace count from one.
\<close>

theorem Conn_output:
  assumes "reachable conn_start (conn_step encode decode False) c" and "c_tracing c"
    and "\<forall>body \<in> set (sent c). int (length body) \<le> maxMessageBytes \<and> (\<exists>m. peer body = Some m \<and> m_JSONRPC m = ''2.0'')"
  shows "read_messages peer (c_out c) = (map (\<lambda>body. (the (peer body), body)) (sent c), EndOfInput) \<and>
    map Sequence (c_trace c) = map of_nat [1..<Suc (length (c_trace c))]"
  using out.reachable_inv [OF assms(1)] assms(2,3) read_messages_frames [of "sent c" peer] by (auto simp: traced_def)

theorem Conn_output_witness:
  "read_messages (\<lambda>_. Some sample_message) (c_out sample_answered) = ([(sample_message, ''q'')], EndOfInput)"
proof -
  have s: "c_tracing sample_answered" "sent sample_answered = [''q'']"
    by (simp_all add: sample_answered_def sample_called_def take_answer_def deliver_def receive_def set_state_def write_ok_def record_event_def
      begin_call_def NewWithTrace_def sent_def Let_def split: option.split)
  have "\<forall>body \<in> set (sent sample_answered). int (length body) \<le> maxMessageBytes \<and> (\<exists>m. Some sample_message = Some m \<and> m_JSONRPC m = ''2.0'')"
    by (simp add: s maxMessageBytes_def sample_message_def)
  from Conn_output [OF sample_reached s(1) this] show ?thesis by (simp add: s)
qed

text \<open>
  C22: the reader is bounded and takes whole frames. A body that it hands on is no longer than the bound, decodes to
  a message of version 2.0, and is the part of the stream after a non-empty header, with nothing lost; a
  frame whose body exceeds the bound is refused before a byte of the body is read.
\<close>

theorem readMessageBody_bounds:
  "(\<forall>m body rest. readMessageBody decode s = Inr (m, body, rest) \<longrightarrow> int (length body) \<le> maxMessageBytes \<and> decode body = Some m \<and>
      m_JSONRPC m = ''2.0'' \<and> (\<exists>header. header \<noteq> [] \<and> s = header @ body @ rest)) \<and>
   (\<forall>body rest. maxMessageBytes < int (length body) \<and> length body < 2 ^ 63 \<longrightarrow>
      readMessageBody decode (frame body @ rest) = Inl (ContentLengthLimit (int (length body))))"
proof (intro conjI allI impI)
  fix m body rest assume r: "readMessageBody decode s = Inr (m, body, rest)"
  then show "int (length body) \<le> maxMessageBytes" "decode body = Some m" "m_JSONRPC m = ''2.0''"
    by (auto simp: readMessageBody_def read_full_def split: sum.splits prod.splits if_splits option.splits)
  show "\<exists>header. header \<noteq> [] \<and> s = header @ body @ rest" by (rule readMessageBody_consumes [OF r])
next
  fix body rest :: string assume "maxMessageBytes < int (length body) \<and> length body < 2 ^ 63"
  with read_headers_frame [of "length body" "body @ rest"] show "readMessageBody decode (frame body @ rest) = Inl (ContentLengthLimit (int (length body)))"
    by (simp add: readMessageBody_def frame_def maxMessageBytes_def)
qed

theorem readMessageBody_bounds_witness:
  "readMessageBody (\<lambda>_. Some sample_message) (frame ''r'') = Inr (sample_message, ''r'', '''') \<and>
     int (length ''r'') \<le> maxMessageBytes \<and> (\<exists>header. header \<noteq> [] \<and> frame ''r'' = header @ ''r'')"
  using readMessageBody_bounds [of "\<lambda>_. Some sample_message" "frame ''r''"] sample_read by auto

end
