(* ===== verification/Acquisition.thy ===== *)
theory Acquisition
  imports Traverse Json_Rpc "HOL-Library.Sublist"
begin

text \<open>
  Package \<open>internal/acquisition\<close>: the types of \<open>types.go\<close> and the first half of \<open>coordinator.go\<close>, that is the validation of
  a request, the budgeted request to the server (\<open>invoke\<close>) and the resolution of a target.

  The language server is a parameter: \<open>cl_Prepare k\<close> and its companions are its answers to the \<open>k\<close>-th record, so it may answer
  differently each time. \<open>ctx_Err k\<close> is what \<open>Err\<close> of the overall context returns when it is polled for the \<open>k\<close>-th time,
  \<open>call_Err k\<close> that of the context of the call for record \<open>k\<close>. The JSON codec (an error text or the encoded bytes),
  the URL parser with its printer (\<open>url_Rest\<close> is what else a URL has but the raw path, which the code clears), \<open>path.Clean\<close> and \<open>strings.ToLower\<close> are functions too. \<open>Encoder.Encode\<close> writes once, with a
  final newline. Nil and empty slices are told apart only in the ranges of a call, where the code does. A runner that replays records
  instead of asking a client is not modelled.
\<close>

section \<open>Types\<close>

datatype Mode = SliceMode | IncomingMode | OtherMode
datatype AcqDirection = Outgoing | IncomingDirection

datatype ResolutionStatus =
    NoResolution
  | Resolved
  | Missing
  | Ambiguous
  | ResolutionFailed
  | ResolutionUnsupported
  | ResolutionBlocked

datatype AdmissionStatus = Admitted | AdmissionBlocked | NotApplicable

datatype ExpansionStatus =
    SuccessEmpty
  | SuccessNonempty
  | Partial
  | FrontierStatus
  | Failed
  | Unsupported
  | BudgetBlocked
  | ExpansionNotApplicable

record Locator =
  l_URI :: string
  l_Symbol :: string
  l_Line :: "u32 option"
  l_Character :: "u32 option"
  l_LanguageID :: string

record AcqTarget =
  at_ID :: string
  at_Locator :: Locator
  at_DownDepth :: int
  at_UpDepth :: int

record AcquisitionContext =
  ac_ID :: string
  ac_SessionID :: string
  ac_Generation :: u64
  ac_PositionEncoding :: string

record Limits =
  MaxNodesL :: int
  MaxRequests :: int
  MaxEvidenceBytes :: int
  MaxPathWork :: int
  TimeoutL :: int
  RequestTimeoutL :: int
  MaxResponseBytes :: int
  MaxMessages :: int

record Request =
  r_Mode :: Mode
  r_Context :: AcquisitionContext
  r_Root :: AcqTarget
  r_RequiredTargets :: "AcqTarget list"
  r_Limits :: Limits
  r_TopmostSiblings :: bool

record Supply =
  s_URI :: string
  s_LanguageID :: string
  s_Observation :: string

record Usage =
  u_Nodes :: int
  u_Requests :: int
  u_EvidenceBytes :: int
  u_PathWork :: int
  u_PrepareProbes :: int

datatype Outcome =
    OutcomeBlocked
  | OutcomeSuccess
  | OutcomeFailed
  | OutcomeUnsupported
  | CaptureIncomplete
  | CaptureFailed

record RequestRecord =
  rq_ID :: string
  rq_TargetID :: string
  rq_Method :: string
  rq_NodeID :: string
  rq_Context :: AcquisitionContext
  rq_Before :: Usage
  rq_Attempted :: bool
  rq_Outcome :: Outcome
  rq_Reason :: string
  rq_Params :: string
  rq_Response :: string
  rq_CaptureComplete :: bool
  rq_EvidenceBytes :: int

record Resolution =
  rs_Status :: ResolutionStatus
  rs_Reason :: string
  rs_Identity :: "Node option"
  rs_Prepared :: "CallHierarchyItem option"
  rs_Position :: "Position option"
  rs_RequestIDs :: "string list"

record Expansion =
  ex_NodeID :: string
  ex_Depth :: nat
  ex_Status :: ExpansionStatus
  ex_RequestID :: string
  ex_Cached :: bool
  ex_Reason :: string

record DirectionResult =
  dr_Status :: ExpansionStatus
  dr_Expansions :: "Expansion list"
  dr_Layers :: "SliceLayer list"
  dr_FrontierIDs :: "string list"
  dr_SuccessfulEmptyIDs :: "string list"
  dr_StartIDs :: "string list"

record TargetResult =
  tr_Requested :: AcqTarget
  tr_Resolution :: Resolution
  tr_Admission :: AdmissionStatus
  tr_Outgoing :: DirectionResult
  tr_Incoming :: DirectionResult

record EdgeObservation =
  eo_RequestID :: string
  eo_RelationID :: string
  eo_CallSites :: "Range list"

text \<open>A reported call: the item at its other end, and the ranges, \<^const>\<open>None\<close> for the nil slice.\<close>

record AcqCall =
  call_Item :: CallHierarchyItem
  call_FromRanges :: "Range list option"

record neighbor =
  nb_item :: CallHierarchyItem
  nb_edge :: Edge

record queryResult =
  qr_status :: ExpansionStatus
  qr_reason :: string
  qr_requestID :: string
  qr_neighbors :: "neighbor list"

record url =
  url_Scheme :: string
  url_Host :: string
  url_Path :: string
  url_Opaque :: string
  url_RawQuery :: string
  url_Fragment :: string
  url_Rest :: string

type_synonym encoded = "string + string"

record acq_env =
  ae_env :: env
  url_Parse :: "string \<Rightarrow> url option"
  url_String :: "url \<Rightarrow> string"
  path_Clean :: "string \<Rightarrow> string"
  to_Lower :: "string \<Rightarrow> string"
  ctx_Err :: "nat \<Rightarrow> string option"
  call_Err :: "nat \<Rightarrow> string option"
  cl_Supply :: "(nat \<Rightarrow> Locator \<Rightarrow> string + Supply) option"
  cl_Symbols :: "nat \<Rightarrow> string \<Rightarrow> string + DocumentSymbol list"
  cl_Prepare :: "nat \<Rightarrow> string \<Rightarrow> Position \<Rightarrow> string + CallHierarchyItem list"
  cl_Calls :: "AcqDirection \<Rightarrow> nat \<Rightarrow> CallHierarchyItem \<Rightarrow> string + AcqCall list \<times> bool"
  en_Locator :: "Locator \<Rightarrow> encoded"
  en_SymbolParams :: "string \<Rightarrow> encoded"
  en_PrepareParams :: "string \<Rightarrow> Position \<Rightarrow> encoded"
  en_ItemParams :: "CallHierarchyItem \<Rightarrow> encoded"
  en_Supply :: "Supply \<Rightarrow> encoded"
  en_Symbols :: "DocumentSymbol list \<Rightarrow> encoded"
  en_Items :: "CallHierarchyItem list \<Rightarrow> encoded"
  en_Calls :: "AcqDirection \<Rightarrow> AcqCall list \<Rightarrow> encoded"
  en_Error :: "string \<Rightarrow> encoded"

record runner =
  a_Request :: Request
  a_Graph :: Result
  a_Targets :: "TargetResult list"
  a_Requests :: "RequestRecord list"
  a_Supplies :: "Supply list"
  a_EdgeObservations :: "EdgeObservation list"
  a_Usage :: Usage
  a_Complete :: bool
  a_items :: "(string, CallHierarchyItem) go_map"
  a_nodes :: "(string, Node) go_map"
  a_resolutions :: "string \<rightharpoonup> Resolution"
  a_queries :: "AcqDirection \<times> string \<rightharpoonup> queryResult"
  a_members :: "string set list"
  a_relations :: "string set list"
  a_polls :: nat

section \<open>Validation of a request\<close>

definition MaxPrepareProbes :: nat where "MaxPrepareProbes = 65"

definition has_prefix :: "string \<Rightarrow> string \<Rightarrow> bool" where
  "has_prefix p s \<longleftrightarrow> take (length p) s = p"

definition canonical_uri :: "acq_env \<Rightarrow> string \<Rightarrow> bool" where
  "canonical_uri A raw =
     (case url_Parse A raw of
        None \<Rightarrow> False
      | Some u \<Rightarrow>
          if url_Scheme u = '''' \<or> url_Fragment u \<noteq> '''' \<or> url_RawQuery u \<noteq> '''' \<or> url_Opaque u \<noteq> '''' then False
          else if \<not> has_prefix ''/'' (url_Path u) then False
          else url_String A (u\<lparr>url_Scheme := to_Lower A (url_Scheme u), url_Host := to_Lower A (url_Host u), url_Path := path_Clean A (url_Path u)\<rparr>) = raw)"

datatype request_error =
    BadMode
  | BadContext
  | BadEncoding
  | BadLimits
  | BadRootID
  | TooManyTargets
  | BadTargetID
  | NoncanonicalURI string
  | BadSelector
  | BadDepth

fun validate_targets :: "acq_env \<Rightarrow> AcqTarget list \<Rightarrow> string set \<Rightarrow> request_error option" where
  "validate_targets A [] known = None"
| "validate_targets A (t # ts) known =
     (if trim_space (at_ID t) = '''' \<or> at_ID t \<in> known then Some BadTargetID
      else if \<not> canonical_uri A (l_URI (at_Locator t)) then Some (NoncanonicalURI (l_URI (at_Locator t)))
      else if (l_Line (at_Locator t) = None) \<noteq> (l_Character (at_Locator t) = None) \<or>
              (l_Line (at_Locator t) \<noteq> None) = (l_Symbol (at_Locator t) \<noteq> '''') then Some BadSelector
      else if at_DownDepth t < 0 \<or> at_DownDepth t > 64 \<or> at_UpDepth t < 0 \<or> at_UpDepth t > 64 then Some BadDepth
      else validate_targets A ts (insert (at_ID t) known))"

definition ValidateRequest :: "acq_env \<Rightarrow> Request \<Rightarrow> request_error option" where
  "ValidateRequest A r =
     (let l = r_Limits r; c = r_Context r in
      if r_Mode r \<noteq> SliceMode \<and> r_Mode r \<noteq> IncomingMode then Some BadMode
      else if ac_ID c = '''' \<or> ac_SessionID c = '''' \<or> ac_Generation c = 0 then Some BadContext
      else if ac_PositionEncoding c \<notin> {''utf-8'', ''utf-16'', ''utf-32''} then Some BadEncoding
      else if MaxNodesL l < 0 \<or> MaxNodesL l > 10000 \<or> MaxRequests l < 0 \<or> MaxRequests l > 100000 \<or> MaxEvidenceBytes l < 0 \<or>
              MaxEvidenceBytes l > 67108864 \<or> MaxPathWork l < 0 \<or> MaxPathWork l > 100000000 \<or> TimeoutL l \<le> 0 \<or> RequestTimeoutL l \<le> 0 \<or>
              MaxResponseBytes l < 1 \<or> MaxResponseBytes l > 16777216 \<or> MaxMessages l < 1 \<or> MaxMessages l > 4096 then Some BadLimits
      else if at_ID (r_Root r) \<noteq> ''root'' then Some BadRootID
      else if length (r_RequiredTargets r) > 63 then Some TooManyTargets
      else validate_targets A (r_Root r # r_RequiredTargets r) {})"

section \<open>Requests\<close>

datatype json_result = Encoded string | Capture | Malformed string

definition boundedJSON :: "encoded \<Rightarrow> int \<Rightarrow> json_result \<times> int" where
  "boundedJSON v limit =
     (case v of
        Inl err \<Rightarrow> (Malformed err, 0)
      | Inr raw \<Rightarrow> if int (length raw) + 1 > limit then (Capture, limit) else (Encoded raw, int (length raw) + 1))"

definition request_id :: "nat \<Rightarrow> string" where
  "request_id n = ''request-'' @ replicate (6 - length (dec n)) (CHR ''0'') @ dec n"

definition blocked_reason :: "acq_env \<Rightarrow> string \<Rightarrow> runner \<Rightarrow> string option" where
  "blocked_reason A meth st =
     (let l = r_Limits (a_Request st); u = a_Usage st in
      case ctx_Err A (a_polls st) of
        Some err \<Rightarrow> Some err
      | None \<Rightarrow>
          if u_Requests u \<ge> MaxRequests l then Some ''MAX_REQUESTS''
          else if u_EvidenceBytes u \<ge> MaxEvidenceBytes l then Some ''EVIDENCE_BYTES''
          else if meth = prepareMethod \<and> u_PrepareProbes u \<ge> int MaxPrepareProbes then Some ''MAX_PREPARE_PROBES''
          else None)"

text \<open>The parameters of the request: the reason the request is blocked, the captured bytes and their number.\<close>

definition capture_params :: "acq_env \<Rightarrow> string \<Rightarrow> encoded \<Rightarrow> runner \<Rightarrow> string option \<times> string \<times> int" where
  "capture_params A meth params st =
     (let l = r_Limits (a_Request st); bytes = u_EvidenceBytes (a_Usage st) in
      case blocked_reason A meth st of
        Some reason \<Rightarrow> (Some reason, '''', 0)
      | None \<Rightarrow>
          (case boundedJSON params (MaxEvidenceBytes l - bytes) of
             (Encoded raw, n) \<Rightarrow> (if bytes + n \<ge> MaxEvidenceBytes l then Some ''EVIDENCE_BYTES'' else None, raw, n)
           | (_, n) \<Rightarrow> (Some ''EVIDENCE_BYTES'', '''', n)))"

definition new_record :: "string \<Rightarrow> string \<Rightarrow> string \<Rightarrow> runner \<Rightarrow> RequestRecord" where
  "new_record target meth nid st =
     \<lparr>rq_ID = request_id (Suc (length (a_Requests st))), rq_TargetID = target, rq_Method = meth, rq_NodeID = nid,
      rq_Context = r_Context (a_Request st), rq_Before = a_Usage st, rq_Attempted = False, rq_Outcome = OutcomeBlocked,
      rq_Reason = '''', rq_Params = '''', rq_Response = '''', rq_CaptureComplete = False, rq_EvidenceBytes = 0\<rparr>"

definition spend :: "int \<Rightarrow> runner \<Rightarrow> runner" where
  "spend n st = st\<lparr>a_Usage := (a_Usage st)\<lparr>u_EvidenceBytes := u_EvidenceBytes (a_Usage st) + n\<rparr>\<rparr>"

definition attempt :: "string \<Rightarrow> runner \<Rightarrow> runner" where
  "attempt meth st = st\<lparr>a_Usage := (a_Usage st)\<lparr>u_Requests := u_Requests (a_Usage st) + 1,
     u_PrepareProbes := u_PrepareProbes (a_Usage st) + (if meth = prepareMethod then 1 else 0)\<rparr>\<rparr>"

text \<open>The outcome of the call before its capture, and the record after it.\<close>

definition call_outcome :: "string option \<Rightarrow> Outcome \<times> string" where
  "call_outcome err =
     (case err of None \<Rightarrow> (OutcomeSuccess, '''')
      | Some e \<Rightarrow> (if sublist ''-32601'' e then OutcomeUnsupported else OutcomeFailed, e))"

definition capture_reply :: "json_result \<Rightarrow> Outcome \<times> string \<Rightarrow> RequestRecord \<Rightarrow> RequestRecord" where
  "capture_reply c o' rec =
     (case c of
        Encoded raw \<Rightarrow> rec\<lparr>rq_Outcome := fst o', rq_Reason := snd o', rq_Response := raw, rq_CaptureComplete := True\<rparr>
      | Capture \<Rightarrow> rec\<lparr>rq_Outcome := CaptureIncomplete, rq_Reason := ''EVIDENCE_BYTES''\<rparr>
      | Malformed e \<Rightarrow> rec\<lparr>rq_Outcome := CaptureFailed, rq_Reason := ''MALFORMED_EVIDENCE: '' @ e\<rparr>)"

definition log_request :: "RequestRecord \<Rightarrow> runner \<Rightarrow> runner" where
  "log_request rec st = st\<lparr>a_Requests := a_Requests st @ [rec]\<rparr>"

definition invoke :: "acq_env \<Rightarrow> string \<Rightarrow> string \<Rightarrow> string \<Rightarrow> encoded \<Rightarrow> (nat \<Rightarrow> string + 'v) \<Rightarrow> ('v \<Rightarrow> encoded) \<Rightarrow> runner
    \<Rightarrow> 'v option \<times> RequestRecord \<times> runner" where
  "invoke A target meth nid params answer enc st =
     (let rec = new_record target meth nid st; k = length (a_Requests st); l = r_Limits (a_Request st) in
      case capture_params A meth params st of
        (Some reason, raw, n) \<Rightarrow>
          (let rec' = rec\<lparr>rq_Reason := reason, rq_Params := raw, rq_EvidenceBytes := n\<rparr>
           in (None, rec', log_request rec' (spend n (st\<lparr>a_polls := Suc (a_polls st)\<rparr>))))
      | (None, raw, n) \<Rightarrow>
          (let reply = answer k;
               err = (case reply of Inl e \<Rightarrow> Some e | Inr _ \<Rightarrow> call_Err A k);
               body = (case (err, reply) of (None, Inr v) \<Rightarrow> enc v | (Some e, _) \<Rightarrow> en_Error A e | (None, Inl e) \<Rightarrow> en_Error A e);
               c = boundedJSON body (min (MaxEvidenceBytes l - (u_EvidenceBytes (a_Usage st) + n)) (MaxResponseBytes l));
               rec' = (capture_reply (fst c) (call_outcome err) rec)\<lparr>rq_Attempted := True, rq_Params := raw, rq_EvidenceBytes := n + snd c\<rparr>;
               v = (case (err, reply, fst c) of (None, Inr v, Encoded _) \<Rightarrow> Some v | _ \<Rightarrow> None)
           in (v, rec', log_request rec' (spend (n + snd c) (attempt meth (st\<lparr>a_polls := Suc (a_polls st)\<rparr>))))))"

section \<open>Admission\<close>

definition acq_node :: "acq_env \<Rightarrow> CallHierarchyItem \<Rightarrow> Node" where
  "acq_node A i = node i (NewNode (ae_env A))"

definition admit :: "acq_env \<Rightarrow> CallHierarchyItem \<Rightarrow> runner \<Rightarrow> bool \<times> runner" where
  "admit A i st =
     (let n = acq_node A i in
      if map_of (a_nodes st) (ID n) \<noteq> None then (True, st)
      else if int (length (a_nodes st)) \<ge> MaxNodesL (r_Limits (a_Request st)) then (False, st)
      else (True, st\<lparr>a_nodes := AList.update (ID n) n (a_nodes st), a_items := AList.update (ID n) i (a_items st),
                     a_Usage := (a_Usage st)\<lparr>u_Nodes := u_Nodes (a_Usage st) + 1\<rparr>\<rparr>))"

section \<open>Resolution\<close>

definition locator_json :: "Locator \<Rightarrow> string" where
  "locator_json l = json_object ([json_field ''uri'' (json_string (l_URI l))] @
     (if l_Symbol l = '''' then [] else [json_field ''symbol'' (json_string (l_Symbol l))]) @
     (case l_Line l of None \<Rightarrow> [] | Some n \<Rightarrow> [json_field ''line'' (dec (unat n))]) @
     (case l_Character l of None \<Rightarrow> [] | Some n \<Rightarrow> [json_field ''character'' (dec (unat n))]) @
     (if l_LanguageID l = '''' then [] else [json_field ''language_id'' (json_string (l_LanguageID l))]))"

definition recordResolution :: "RequestRecord \<Rightarrow> Resolution" where
  "recordResolution rec =
     \<lparr>rs_Status = (if rq_Outcome rec = OutcomeUnsupported then ResolutionUnsupported
        else if rq_Outcome rec = OutcomeBlocked \<or> rq_Outcome rec = CaptureIncomplete then ResolutionBlocked else ResolutionFailed),
      rs_Reason = rq_Reason rec, rs_Identity = None, rs_Prepared = None, rs_Position = None, rs_RequestIDs = []\<rparr>"

definition failure :: "RequestRecord \<Rightarrow> Resolution \<Rightarrow> Resolution" where
  "failure rec r = (recordResolution rec)\<lparr>rs_RequestIDs := rs_RequestIDs r\<rparr>"

definition add_request :: "RequestRecord \<Rightarrow> Resolution \<Rightarrow> Resolution" where
  "add_request rec r = r\<lparr>rs_RequestIDs := rs_RequestIDs r @ [rq_ID rec]\<rparr>"

definition refuse :: "ResolutionStatus \<Rightarrow> string \<Rightarrow> Resolution \<Rightarrow> Resolution" where
  "refuse s reason r = r\<lparr>rs_Status := s, rs_Reason := reason\<rparr>"

definition contains :: "Range \<Rightarrow> Position \<Rightarrow> bool" where
  "contains r p \<longleftrightarrow> \<not> lessPosition p (Start r) \<and> (lessPosition p (End r) \<or> Start r = End r \<and> p = Start r)"

text \<open>The document is supplied first, where the client can; \<^const>\<open>Inl\<close> is a resolution that is returned at once.\<close>

definition supply_document :: "acq_env \<Rightarrow> AcqTarget \<Rightarrow> Resolution \<Rightarrow> runner \<Rightarrow> (Resolution + Resolution) \<times> runner" where
  "supply_document A t r st =
     (case cl_Supply A of
        None \<Rightarrow> (Inr r, st)
      | Some supplier \<Rightarrow>
          (case invoke A (at_ID t) ''source/prepareDocument'' '''' (en_Locator A (at_Locator t))
                 (\<lambda>k. supplier k (at_Locator t)) (en_Supply A) st of
             (None, rec, st') \<Rightarrow> (Inl (failure rec (add_request rec r)), st')
           | (Some supply, rec, st') \<Rightarrow>
               if s_URI supply \<noteq> l_URI (at_Locator t) then (Inl (refuse ResolutionFailed ''SUPPLY_URI_MISMATCH'' (add_request rec r)), st')
               else (Inr (add_request rec r), st'\<lparr>a_Supplies := a_Supplies st' @ [supply]\<rparr>)))"

text \<open>The scan of the forest; the head of the list is the top of the stack.\<close>

function scan_symbols :: "string \<Rightarrow> DocumentSymbol list \<Rightarrow> DocumentSymbol list \<Rightarrow> DocumentSymbol list" where
  "scan_symbols name [] matches = matches"
| "scan_symbols name (s # ss) matches =
     scan_symbols name (rev (sym_Children s) @ ss) (if sym_Name s = name then matches @ [s] else matches)"
  by pat_completeness auto

lemma size_children: "size_list size (sym_Children s) < size s"
  by (cases s) simp

lemma size_list_rev: "size_list f (rev xs) = size_list f xs"
  by (induction xs) (simp_all add: size_list_append)

termination scan_symbols
  by (relation "measure (\<lambda>(name, ss, matches). size_list size ss)")
     (simp_all add: size_list_append size_list_rev less_SucI [OF size_children])

definition symbol_item :: "string \<Rightarrow> DocumentSymbol \<Rightarrow> CallHierarchyItem" where
  "symbol_item uri s = \<lparr>c_Name = sym_Name s, c_Kind = 0, c_Tags = [], c_Detail = '''', c_URI = uri,
     c_Range = sym_Range s, c_SelectionRange = sym_SelectionRange s, c_Data = ''''\<rparr>"

definition find_symbol :: "acq_env \<Rightarrow> AcqTarget \<Rightarrow> Resolution \<Rightarrow> runner \<Rightarrow> (Resolution + Resolution \<times> DocumentSymbol) \<times> runner" where
  "find_symbol A t r st =
     (let uri = l_URI (at_Locator t) in
      case invoke A (at_ID t) documentSymbolMethod '''' (en_SymbolParams A uri) (\<lambda>k. cl_Symbols A k uri) (en_Symbols A) st of
        (None, rec, st') \<Rightarrow> (Inl (failure rec (add_request rec r)), st')
      | (Some symbols, rec, st') \<Rightarrow>
          (let r' = add_request rec r in
           case scan_symbols (l_Symbol (at_Locator t)) (rev symbols) [] of
             [] \<Rightarrow> (Inl (r'\<lparr>rs_Reason := ''DOCUMENT_SYMBOL_ABSENT''\<rparr>), st')
           | [s] \<Rightarrow>
               if ValidateItem (ae_env A) (acq_node A (symbol_item uri s)) \<noteq> None
               then (Inl (refuse ResolutionFailed ''DOCUMENT_SYMBOL_MALFORMED_RANGE'' r'), st')
               else (Inr (r', s), st')
           | _ \<Rightarrow> (Inl (refuse Ambiguous ''DOCUMENT_SYMBOL_AMBIGUOUS'' r'), st')))"

text \<open>The loop over the prepared items: the first reason to refuse them, or the distinct ones by identifier.\<close>

definition identity_mismatch :: "acq_env \<Rightarrow> AcqTarget \<Rightarrow> Position \<Rightarrow> CallHierarchyItem \<Rightarrow> bool" where
  "identity_mismatch A t p i \<longleftrightarrow> ValidateItem (ae_env A) (acq_node A i) \<noteq> None \<or> c_Kind i < 1 \<or> c_Kind i > 26 \<or>
     \<not> canonical_uri A (c_URI i) \<or> c_URI i \<noteq> l_URI (at_Locator t) \<or> \<not> contains (c_Range i) p"

definition symbol_mismatch :: "DocumentSymbol option \<Rightarrow> CallHierarchyItem \<Rightarrow> bool" where
  "symbol_mismatch symbol i \<longleftrightarrow> (case symbol of None \<Rightarrow> False
     | Some s \<Rightarrow> c_Name i \<noteq> sym_Name s \<or> c_Kind i \<noteq> sym_Kind s \<or> \<not> sym_Flat s \<and> c_SelectionRange i \<noteq> sym_SelectionRange s \<or>
         \<not> RangeContains (rng (sym_Range s)) (rng (c_Range i)))"

fun prepared_items :: "acq_env \<Rightarrow> AcqTarget \<Rightarrow> DocumentSymbol option \<Rightarrow> Position \<Rightarrow> CallHierarchyItem list \<Rightarrow> (string, CallHierarchyItem) go_map
    \<Rightarrow> string + (string, CallHierarchyItem) go_map" where
  "prepared_items A t symbol p [] valid = Inr valid"
| "prepared_items A t symbol p (i # is) valid =
     (if identity_mismatch A t p i then Inl ''PREPARED_IDENTITY_MISMATCH''
      else if symbol_mismatch symbol i then Inl ''PREPARED_SYMBOL_MISMATCH''
      else prepared_items A t symbol p is
        (if map_of valid (ID (acq_node A i)) = None then AList.update (ID (acq_node A i)) i valid else valid))"

definition resolved :: "acq_env \<Rightarrow> CallHierarchyItem \<Rightarrow> Position \<Rightarrow> Resolution \<Rightarrow> Resolution" where
  "resolved A i p r = r\<lparr>rs_Status := Resolved, rs_Identity := Some (acq_node A i), rs_Prepared := Some i, rs_Position := Some p\<rparr>"

definition identifier_miss :: "RequestRecord \<Rightarrow> bool" where
  "identifier_miss rec \<longleftrightarrow> rq_CaptureComplete rec \<and> sublist ''json-rpc error 0: identifier not found'' (rq_Reason rec)"

definition max_character :: u32 where "max_character = - 1"

text \<open>
  The probes, with the number of iterations left; \<open>started\<close> is \<open>delta > 0\<close>. \<^const>\<open>Inl\<close> is a resolution that is returned
  from within the loop, \<^const>\<open>Inr\<close> the position and the resolution after it.
\<close>

fun probe_loop :: "acq_env \<Rightarrow> AcqTarget \<Rightarrow> DocumentSymbol option \<Rightarrow> nat \<Rightarrow> bool \<Rightarrow> Position \<Rightarrow> Resolution \<Rightarrow> runner
    \<Rightarrow> (Resolution + Position \<times> Resolution) \<times> runner" where
  "probe_loop A t symbol 0 started p r st = (Inr (p, r), st)"
| "probe_loop A t symbol (Suc n) started p r st =
     (if started \<and> (symbol = None \<or> Character p = max_character) then (Inr (p, r), st)
      else
        (let q = (if started then p\<lparr>Character := Character p + 1\<rparr> else p) in
         if (case symbol of None \<Rightarrow> False | Some s \<Rightarrow> \<not> contains (sym_Range s) q) then (Inr (q, r), st)
         else
           (let uri = l_URI (at_Locator t) in
            case invoke A (at_ID t) prepareMethod '''' (en_PrepareParams A uri q) (\<lambda>k. cl_Prepare A k uri q) (en_Items A) st of
              (None, rec, st') \<Rightarrow>
                if identifier_miss rec \<and> symbol \<noteq> None then probe_loop A t symbol n True q (add_request rec r) st'
                else (Inl (failure rec (add_request rec r)), st')
            | (Some items, rec, st') \<Rightarrow>
                (let r' = add_request rec r in
                 case prepared_items A t symbol q items [] of
                   Inl reason \<Rightarrow> (Inl (refuse ResolutionFailed reason r'), st')
                 | Inr [] \<Rightarrow> if symbol = None then (Inr (q, r'), st') else probe_loop A t symbol n True q r' st'
                 | Inr [(_, i)] \<Rightarrow> (Inl (resolved A i q r'), st')
                 | Inr _ \<Rightarrow> (Inl (refuse Ambiguous ''MULTIPLE_PREPARED_IDENTITIES'' r'), st')))))"

definition probe :: "acq_env \<Rightarrow> AcqTarget \<Rightarrow> DocumentSymbol option \<Rightarrow> Position \<Rightarrow> Resolution \<Rightarrow> runner \<Rightarrow> Resolution \<times> runner" where
  "probe A t symbol p r st =
     (case probe_loop A t symbol MaxPrepareProbes False p r st of
        (Inl r', st') \<Rightarrow> (r', st')
      | (Inr (q, r'), st') \<Rightarrow>
          (if (case symbol of None \<Rightarrow> False
               | Some s \<Rightarrow> u_PrepareProbes (a_Usage st') \<ge> int MaxPrepareProbes \<and> Character q < max_character \<and>
                   contains (sym_Range s) (q\<lparr>Character := Character q + 1\<rparr>))
           then (refuse ResolutionBlocked ''MAX_PREPARE_PROBES'' r', st')
           else (r'\<lparr>rs_Reason := ''PREPARE_RETURNED_NO_ITEM''\<rparr>, st')))"

definition start_resolution :: Resolution where
  "start_resolution = \<lparr>rs_Status = Missing, rs_Reason = '''', rs_Identity = None, rs_Prepared = None, rs_Position = None, rs_RequestIDs = []\<rparr>"

text \<open>Where the locator has no symbol it has a position, by the validation of the request.\<close>

definition locator_position :: "Locator \<Rightarrow> Position" where
  "locator_position l = \<lparr>Line = (case l_Line l of None \<Rightarrow> 0 | Some n \<Rightarrow> n), Character = (case l_Character l of None \<Rightarrow> 0 | Some n \<Rightarrow> n)\<rparr>"

definition resolve_new :: "acq_env \<Rightarrow> AcqTarget \<Rightarrow> runner \<Rightarrow> Resolution \<times> runner" where
  "resolve_new A t st =
     (case supply_document A t start_resolution st of
        (Inl r, st1) \<Rightarrow> (r, st1)
      | (Inr r, st1) \<Rightarrow>
          if l_Symbol (at_Locator t) = '''' then probe A t None (locator_position (at_Locator t)) r st1
          else (case find_symbol A t r st1 of
              (Inl r', st2) \<Rightarrow> (r', st2)
            | (Inr (r', s), st2) \<Rightarrow> probe A t (Some s) (Start (sym_SelectionRange s)) r' st2))"

definition resolve :: "acq_env \<Rightarrow> AcqTarget \<Rightarrow> runner \<Rightarrow> Resolution \<times> runner" where
  "resolve A t st =
     (let k = locator_json (at_Locator t) in
      case a_resolutions st k of
        Some r \<Rightarrow> (r, st)
      | None \<Rightarrow> (case resolve_new A t st of (r, st') \<Rightarrow> (r, st'\<lparr>a_resolutions := (a_resolutions st')(k \<mapsto> r)\<rparr>)))"

end
