(* ===== verification/Coordinator.thy ===== *)
theory Coordinator
  imports Acquisition Retained_Path
begin

text \<open>
  The second half of \<open>internal/acquisition/coordinator.go\<close>: the discovery of siblings, the cached requests for neighbours, the
  round-robin traversal in one direction, the final graph, and the connections between the root and the other targets. \<open>observe\<close>
  is from \<open>evidence.go\<close>.

  The queue of a target is a list, its depths an association list. The round-robin loop ends when all queues are empty; it is a
  \<open>partial_function\<close>, and \<^const>\<open>None\<close> stands for not returning. A map that is only read and extended by keys is a set.
  The checks that come last are arguments, a function to the error each returns: that of the canonical graph and its encoding
  (\<open>ValidateReferences\<close> and \<open>ValidateSemanticBundle\<close>), and \<open>ValidateResult\<close>, which replays the records. The invocation that the graph carries
  is \<open>invocation_of\<close>; the constant policy and projection of the result are left out.
\<close>

section \<open>Siblings\<close>

function flatten_forest :: "DocumentSymbol list \<Rightarrow> DocumentSymbol list" where
  "flatten_forest [] = []"
| "flatten_forest (s # ss) = s # flatten_forest (ss @ sym_Children s)"
  by pat_completeness auto

termination flatten_forest
  by (relation "measure (size_list size)") (simp_all add: size_list_append less_SucI [OF size_children])

definition compatibleCallableKinds :: "int \<Rightarrow> int \<Rightarrow> bool" where
  "compatibleCallableKinds a b \<longleftrightarrow> callableKind a \<and> callableKind b"

definition sameDocumentSymbol :: "DocumentSymbol \<Rightarrow> DocumentSymbol \<Rightarrow> bool" where
  "sameDocumentSymbol a b \<longleftrightarrow> sym_Name a = sym_Name b \<and> sym_Kind a = sym_Kind b \<and> sym_Range a = sym_Range b \<and> sym_SelectionRange a = sym_SelectionRange b"

definition strictly_contains :: "DocumentSymbol \<Rightarrow> DocumentSymbol \<Rightarrow> bool" where
  "strictly_contains a b \<longleftrightarrow> sym_Range a \<noteq> sym_Range b \<and> RangeContains (rng (sym_Range a)) (rng (sym_Range b))"

definition nearestStrictContainer :: "DocumentSymbol list \<Rightarrow> DocumentSymbol \<Rightarrow> DocumentSymbol option" where
  "nearestStrictContainer symbols child =
     (let containers = filter (\<lambda>s. strictly_contains s child) symbols;
          nearest = filter (\<lambda>c. \<not> (\<exists>x \<in> set containers. strictly_contains c x)) containers
      in case nearest of [c] \<Rightarrow> Some c | _ \<Rightarrow> None)"

definition seed_declaration :: "CallHierarchyItem \<Rightarrow> DocumentSymbol \<Rightarrow> bool" where
  "seed_declaration seed s \<longleftrightarrow> callableKind (sym_Kind s) \<and>
     (if sym_Flat s then compatibleCallableKinds (sym_Kind s) (c_Kind seed) \<and> RangeContains (rng (sym_Range s)) (rng (c_SelectionRange seed))
      else sym_Kind s = c_Kind seed \<and> sym_SelectionRange s = c_SelectionRange seed \<and> RangeContains (rng (sym_Range s)) (rng (c_Range seed)))"

definition childlessTopmostSiblings :: "CallHierarchyItem \<Rightarrow> DocumentSymbol list \<Rightarrow> DocumentSymbol list option" where
  "childlessTopmostSiblings seed symbols =
     (case filter (seed_declaration seed) symbols of
        [d] \<Rightarrow>
          if sym_Flat d
          then Some (filter (\<lambda>s. sym_Flat s \<and> callableKind (sym_Kind s) \<and> \<not> sameDocumentSymbol s d \<and> sym_ContainerName s = sym_ContainerName d) symbols)
          else (case nearestStrictContainer symbols d of
              None \<Rightarrow> None
            | Some c \<Rightarrow> Some (filter (\<lambda>s. callableKind (sym_Kind s) \<and> \<not> sameDocumentSymbol s d \<and>
                (case nearestStrictContainer symbols s of None \<Rightarrow> False | Some c' \<Rightarrow> sameDocumentSymbol c' c)) symbols))
      | _ \<Rightarrow> None)"

fun outermost :: "Range \<Rightarrow> DocumentSymbol list \<Rightarrow> DocumentSymbol option \<Rightarrow> DocumentSymbol option" where
  "outermost r [] best = best"
| "outermost r (s # ss) best =
     outermost r ss
       (if RangeContains (rng (sym_Range s)) (rng r) \<and> sym_Children s \<noteq> [] \<and>
           (case best of None \<Rightarrow> True | Some c \<Rightarrow> RangeContains (rng (sym_Range c)) (rng (sym_Range s)))
        then Some s else best)"

definition sibling_key :: "DocumentSymbol \<Rightarrow> (u32 \<times> u32) \<times> string" where
  "sibling_key s = ((Line (Start (sym_SelectionRange s)), Character (Start (sym_SelectionRange s))), sym_Name s)"

definition sibling_match :: "acq_env \<Rightarrow> string \<Rightarrow> DocumentSymbol \<Rightarrow> CallHierarchyItem \<Rightarrow> bool" where
  "sibling_match A uri s i \<longleftrightarrow> canonical_uri A (c_URI i) \<and> c_URI i = uri \<and> ValidateItem (ae_env A) (acq_node A i) = None \<and>
     (if sym_Flat s then compatibleCallableKinds (c_Kind i) (sym_Kind s) \<and> RangeContains (rng (sym_Range s)) (rng (c_SelectionRange i))
      else c_Kind i = sym_Kind s \<and> c_SelectionRange i = sym_SelectionRange s)"

definition partial_acquisition :: "runner \<Rightarrow> runner" where
  "partial_acquisition st = st\<lparr>a_Complete := False\<rparr>"

text \<open>The probes of one sibling, with the number left; the matches of the last successful probe.\<close>

fun probe_sibling :: "acq_env \<Rightarrow> string \<Rightarrow> string \<Rightarrow> string \<Rightarrow> DocumentSymbol \<Rightarrow> nat \<Rightarrow> bool \<Rightarrow> Position \<Rightarrow> runner \<Rightarrow> CallHierarchyItem list \<times> runner" where
  "probe_sibling A target nid uri s 0 started p st = ([], st)"
| "probe_sibling A target nid uri s (Suc n) started p st =
     (if started \<and> Character p = max_character then ([], st)
      else
        (let q = (if started then p\<lparr>Character := Character p + 1\<rparr> else p) in
         if \<not> contains (sym_Range s) q then ([], st)
         else case invoke A target prepareMethod nid (en_PrepareParams A uri q) (\<lambda>k. cl_Prepare A k uri q) (en_Items A) st of
             (None, rec, st') \<Rightarrow>
               if sym_Flat s \<and> identifier_miss rec then probe_sibling A target nid uri s n True q (partial_acquisition st')
               else ([], st')
           | (Some items, rec, st') \<Rightarrow>
               (let matches = filter (sibling_match A uri s) items in
                if matches \<noteq> [] \<or> \<not> sym_Flat s then (matches, st') else probe_sibling A target nid uri s n True q st')))"

definition sibling_of :: "acq_env \<Rightarrow> string \<Rightarrow> string \<Rightarrow> Node \<Rightarrow> Node \<Rightarrow> CallHierarchyItem \<Rightarrow> SiblingCandidate" where
  "sibling_of A uri label origin declaration item =
     \<lparr>SRelationID = '''', SExecutionBundleID = '''', SeedURI = uri, SeedLabel = label, SeedLabels = [], Origin = origin,
      Declaration = Some declaration, Candidate = acq_node A item, Direction = ''SIBLING'', SKind = ''TOPMOST_SIBLING'', SeedIdentity = '''',
      ProviderEvidence = None, LSPEvidence = Some [documentSymbolMethod, prepareMethod], SourceDigests = None,
      Custody = \<lparr>Class = '''', SourceContentSHA256 = '''', HostReceiptID = '''', AuthenticatedAnalyzedSourceIdentity = False, ClaimCeilingText = ''''\<rparr>\<rparr>"

definition declaration_item :: "string \<Rightarrow> DocumentSymbol \<Rightarrow> CallHierarchyItem \<Rightarrow> CallHierarchyItem" where
  "declaration_item uri s i = \<lparr>c_Name = sym_Name s, c_Kind = sym_Kind s, c_Tags = [], c_Detail = '''', c_URI = uri, c_Range = sym_Range s,
     c_SelectionRange = (if sym_Flat s then c_SelectionRange i else sym_SelectionRange s), c_Data = ''''\<rparr>"

definition add_sibling :: "acq_env \<Rightarrow> string \<Rightarrow> CallHierarchyItem \<Rightarrow> Node \<Rightarrow> DocumentSymbol \<Rightarrow> runner \<Rightarrow> runner" where
  "add_sibling A target seed origin s st =
     (if sym_SelectionRange s = c_SelectionRange seed then st
      else case probe_sibling A target (ID origin) (c_URI seed) s MaxPrepareProbes False (Start (sym_SelectionRange s)) st of
          ([i], st') \<Rightarrow>
            (case admit A i st' of
               (False, st'') \<Rightarrow> partial_acquisition st''
             | (True, st'') \<Rightarrow>
                 (let d = acq_node A (declaration_item (c_URI seed) s i) in
                  if ValidateItem (ae_env A) d \<noteq> None then partial_acquisition st''
                  else st''\<lparr>a_Graph := (a_Graph st'')\<lparr>SiblingCandidates := SiblingCandidates (a_Graph st'') @
                    [sibling_of A (c_URI seed) target origin d i]\<rparr>\<rparr>))
        | (_, st') \<Rightarrow> partial_acquisition st')"

definition expand_siblings :: "acq_env \<Rightarrow> string \<Rightarrow> CallHierarchyItem \<Rightarrow> Node \<Rightarrow> runner \<Rightarrow> runner" where
  "expand_siblings A target seed origin st =
     (case invoke A target documentSymbolMethod (ID origin) (en_SymbolParams A (c_URI seed)) (\<lambda>k. cl_Symbols A k (c_URI seed)) (en_Symbols A) st of
        (None, rec, st') \<Rightarrow> partial_acquisition st'
      | (Some symbols, rec, st') \<Rightarrow>
          (let all = flatten_forest symbols in
           case (case outermost (c_Range seed) all None of
                   Some c \<Rightarrow> Some (sym_Children c)
                 | None \<Rightarrow> childlessTopmostSiblings seed all) of
             None \<Rightarrow> st'
           | Some children \<Rightarrow> fold (add_sibling A target seed origin) (sort_key sibling_key children) st'))"

fun sibling_targets :: "acq_env \<Rightarrow> TargetResult list \<Rightarrow> string set \<Rightarrow> runner \<Rightarrow> runner" where
  "sibling_targets A [] known st = st"
| "sibling_targets A (t # ts) known st =
     (case (tr_Admission t, rs_Prepared (tr_Resolution t), rs_Identity (tr_Resolution t)) of
        (Admitted, Some seed, Some origin) \<Rightarrow>
          if ID origin \<in> known then sibling_targets A ts known st
          else sibling_targets A ts (insert (ID origin) known) (expand_siblings A (at_ID (tr_Requested t)) seed origin st)
      | _ \<Rightarrow> sibling_targets A ts known st)"

definition expandTopmostSiblings :: "acq_env \<Rightarrow> runner \<Rightarrow> runner" where
  "expandTopmostSiblings A st = sibling_targets A (a_Targets st) {} st"

section \<open>Neighbours\<close>

fun observe :: "env \<Rightarrow> string \<Rightarrow> Call_Graph.Edge \<Rightarrow> EdgeObservation list \<Rightarrow> EdgeObservation list" where
  "observe E rid e [] = [\<lparr>eo_RequestID = rid, eo_RelationID = ERelationID e, eo_CallSites = CallSites e\<rparr>]"
| "observe E rid e (o' # os) =
     (if eo_RequestID o' = rid \<and> eo_RelationID o' = ERelationID e
      then o'\<lparr>eo_CallSites := CallSites (hd (MergeEdge E [e\<lparr>CallSites := eo_CallSites o'\<rparr>] e))\<rparr> # os
      else o' # observe E rid e os)"

definition call_edge :: "acq_env \<Rightarrow> AcqDirection \<Rightarrow> string \<Rightarrow> AcqCall \<Rightarrow> Call_Graph.Edge" where
  "call_edge A d nid c =
     \<lparr>ERelationID = '''', EExecutionBundleID = '''',
      CallerNodeID = (if d = Outgoing then nid else ID (acq_node A (call_Item c))),
      CalleeNodeID = (if d = Outgoing then ID (acq_node A (call_Item c)) else nid),
      CallSites = (case call_FromRanges c of None \<Rightarrow> [] | Some rs \<Rightarrow> map rng rs)\<rparr>"

definition bad_call :: "acq_env \<Rightarrow> AcqCall \<Rightarrow> bool" where
  "bad_call A c \<longleftrightarrow> call_FromRanges c = None \<or> ValidateItem (ae_env A) (acq_node A (call_Item c)) \<noteq> None \<or>
     \<not> canonical_uri A (c_URI (call_Item c)) \<or> c_Kind (call_Item c) < 1 \<or> c_Kind (call_Item c) > 26 \<or>
     (\<exists>r \<in> set (case call_FromRanges c of None \<Rightarrow> [] | Some rs \<Rightarrow> map rng rs). ValidateRange r \<noteq> None)"

text \<open>The body of the loop over the sorted candidates.\<close>

definition add_neighbor :: "acq_env \<Rightarrow> AcqDirection \<Rightarrow> string \<Rightarrow> string \<Rightarrow> AcqCall \<Rightarrow> queryResult \<times> runner \<Rightarrow> queryResult \<times> runner" where
  "add_neighbor A d nid rid c s =
     (case s of (q, st) \<Rightarrow>
        if bad_call A c then (q\<lparr>qr_status := Partial, qr_reason := ''INVALID_SERVER_RESPONSE''\<rparr>, st)
        else case admit A (call_Item c) st of
            (False, st') \<Rightarrow> (q\<lparr>qr_status := Partial, qr_reason := ''MAX_NODES''\<rparr>, st')
          | (True, st') \<Rightarrow>
              (let e = call_edge A d nid c; one = hd (MergeEdge (ae_env A) [] e) in
               (q\<lparr>qr_neighbors := qr_neighbors q @ [\<lparr>nb_item = call_Item c, nb_edge = one\<rparr>]\<rparr>,
                st'\<lparr>a_Graph := (a_Graph st')\<lparr>Edges := MergeEdge (ae_env A) (Edges (a_Graph st')) e\<rparr>,
                    a_EdgeObservations := observe (ae_env A) rid one (a_EdgeObservations st')\<rparr>)))"

definition query_status :: "Outcome \<Rightarrow> ExpansionStatus" where
  "query_status o' =
     (if o' = OutcomeBlocked \<or> o' = CaptureIncomplete then BudgetBlocked
      else if o' = OutcomeUnsupported then Unsupported
      else if o' = OutcomeFailed \<or> o' = CaptureFailed then Failed
      else SuccessEmpty)"

definition call_method :: "AcqDirection \<Rightarrow> string" where
  "call_method d = (if d = Outgoing then ''callHierarchy/outgoingCalls'' else incomingMethod)"

definition zero_item :: CallHierarchyItem where
  "zero_item = (let p = \<lparr>Line = 0, Character = 0\<rparr>; r = \<lparr>Start = p, End = p\<rparr> in
     \<lparr>c_Name = '''', c_Kind = 0, c_Tags = [], c_Detail = '''', c_URI = '''', c_Range = r, c_SelectionRange = r, c_Data = ''''\<rparr>)"

text \<open>The answer of the client: a null response without an error has no calls.\<close>

definition reported :: "acq_env \<Rightarrow> AcqDirection \<Rightarrow> CallHierarchyItem \<Rightarrow> nat \<Rightarrow> string + AcqCall list" where
  "reported A d i k = (case cl_Calls A d k i of Inl e \<Rightarrow> Inl e | Inr (calls, null) \<Rightarrow> Inr (if null then [] else calls))"

definition ask_neighbors :: "acq_env \<Rightarrow> string \<Rightarrow> string \<Rightarrow> AcqDirection \<Rightarrow> runner \<Rightarrow> queryResult \<times> runner" where
  "ask_neighbors A target nid d st =
     (let item = (case map_of (a_items st) nid of None \<Rightarrow> zero_item | Some i \<Rightarrow> i) in
      case invoke A target (call_method d) nid (en_ItemParams A item) (reported A d item) (en_Calls A d) st of
        (v, rec, st') \<Rightarrow>
          (let q = \<lparr>qr_status = query_status (rq_Outcome rec), qr_reason = rq_Reason rec, qr_requestID = rq_ID rec, qr_neighbors = []\<rparr> in
           case v of
             None \<Rightarrow> (q, st')
           | Some calls \<Rightarrow>
               fold (add_neighbor A d nid (rq_ID rec)) (sort_key (\<lambda>c. ID (acq_node A (call_Item c))) calls)
                 (if calls = [] then q else q\<lparr>qr_status := SuccessNonempty\<rparr>, st')))"

definition query :: "acq_env \<Rightarrow> string \<Rightarrow> string \<Rightarrow> AcqDirection \<Rightarrow> runner \<Rightarrow> (queryResult \<times> bool) \<times> runner" where
  "query A target nid d st =
     (case a_queries st (d, nid) of
        Some q \<Rightarrow>
          (case ctx_Err A (a_polls st) of
             Some err \<Rightarrow> ((\<lparr>qr_status = BudgetBlocked, qr_reason = err, qr_requestID = qr_requestID q, qr_neighbors = []\<rparr>, True), st\<lparr>a_polls := Suc (a_polls st)\<rparr>)
           | None \<Rightarrow> ((q, True), st\<lparr>a_polls := Suc (a_polls st)\<rparr>))
      | None \<Rightarrow>
          (case ask_neighbors A target nid d st of (q, st') \<Rightarrow> ((q, False), st'\<lparr>a_queries := (a_queries st')((d, nid) \<mapsto> q)\<rparr>)))"

section \<open>Traversal\<close>

definition direction_of :: "AcqDirection \<Rightarrow> TargetResult \<Rightarrow> DirectionResult" where
  "direction_of d t = (if d = Outgoing then tr_Outgoing t else tr_Incoming t)"

definition set_direction :: "AcqDirection \<Rightarrow> DirectionResult \<Rightarrow> TargetResult \<Rightarrow> TargetResult" where
  "set_direction d r t = (if d = Outgoing then t\<lparr>tr_Outgoing := r\<rparr> else t\<lparr>tr_Incoming := r\<rparr>)"

definition depth_limit :: "AcqDirection \<Rightarrow> TargetResult \<Rightarrow> int" where
  "depth_limit d t = (if d = Outgoing then at_DownDepth (tr_Requested t) else at_UpDepth (tr_Requested t))"

record walk =
  w_queue :: "(string \<times> nat) list"
  w_depths :: "(string, nat) go_map"

definition start_ids :: "Mode \<Rightarrow> AcqDirection \<Rightarrow> TargetResult \<Rightarrow> string list" where
  "start_ids mode d t =
     (case rs_Identity (tr_Resolution t) of
        None \<Rightarrow> []
      | Some n \<Rightarrow> sortedUnique (if d = IncomingDirection \<and> mode = SliceMode
          then dr_FrontierIDs (tr_Outgoing t) @ dr_SuccessfulEmptyIDs (tr_Outgoing t) else [ID n]))"

definition start_walk :: "Mode \<Rightarrow> AcqDirection \<Rightarrow> TargetResult \<Rightarrow> TargetResult \<times> walk" where
  "start_walk mode d t =
     (if tr_Admission t \<noteq> Admitted then
        ((if tr_Admission t = AdmissionBlocked \<or> rs_Status (tr_Resolution t) = ResolutionBlocked
          then set_direction d ((direction_of d t)\<lparr>dr_Status := BudgetBlocked\<rparr>) t else t), \<lparr>w_queue = [], w_depths = []\<rparr>)
      else (set_direction d ((direction_of d t)\<lparr>dr_StartIDs := start_ids mode d t\<rparr>) t,
            \<lparr>w_queue = map (\<lambda>i. (i, 0)) (start_ids mode d t), w_depths = map (\<lambda>i. (i, 0)) (start_ids mode d t)\<rparr>))"

definition queue_order :: "string \<times> nat \<Rightarrow> nat \<times> string" where
  "queue_order q = (snd q, fst q)"

text \<open>The loop over the neighbours of a visited node: membership, and the queue of unseen nodes.\<close>

fun reach_all :: "acq_env \<Rightarrow> nat \<Rightarrow> string \<Rightarrow> nat \<Rightarrow> neighbor list \<Rightarrow> walk \<times> runner \<Rightarrow> walk \<times> runner" where
  "reach_all A i nid depth [] s = s"
| "reach_all A i nid depth (n # ns) (w, st) =
     (let next = ID (acq_node A (nb_item n));
          st' = st\<lparr>a_members := (a_members st)[i := insert nid (insert next (a_members st ! i))],
                   a_relations := (a_relations st)[i := insert (ERelationID (nb_edge n)) (a_relations st ! i)]\<rparr>;
          w' = (if map_of (w_depths w) next = None
                then w\<lparr>w_depths := AList.update next (Suc depth) (w_depths w), w_queue := w_queue w @ [(next, Suc depth)]\<rparr> else w)
      in reach_all A i nid depth ns (w', st'))"

definition note_expansion :: "AcqDirection \<Rightarrow> nat \<Rightarrow> (DirectionResult \<Rightarrow> DirectionResult) \<Rightarrow> runner \<Rightarrow> runner" where
  "note_expansion d i f st = st\<lparr>a_Targets := (a_Targets st)[i := set_direction d (f (direction_of d (a_Targets st ! i))) (a_Targets st ! i)]\<rparr>"

text \<open>One visit of the target \<open>i\<close>: the next node of its queue.\<close>

definition visit :: "acq_env \<Rightarrow> AcqDirection \<Rightarrow> nat \<Rightarrow> walk \<times> runner \<Rightarrow> walk \<times> runner" where
  "visit A d i s =
     (case s of (w, st) \<Rightarrow>
        (case sort_key queue_order (w_queue w) of
           [] \<Rightarrow> (w, st)
         | (nid, depth) # rest \<Rightarrow>
             (let t = a_Targets st ! i; w1 = w\<lparr>w_queue := rest\<rparr> in
              if int depth \<ge> depth_limit d t then
                (w1, note_expansion d i (\<lambda>r. r\<lparr>dr_FrontierIDs := dr_FrontierIDs r @ [nid],
                   dr_Expansions := dr_Expansions r @ [\<lparr>ex_NodeID = nid, ex_Depth = depth, ex_Status = FrontierStatus, ex_RequestID = '''', ex_Cached = False, ex_Reason = ''''\<rparr>]\<rparr>) st)
              else case query A (at_ID (tr_Requested t)) nid d st of
                  ((q, cached), st1) \<Rightarrow>
                    (case reach_all A i nid depth (qr_neighbors q) (w1, st1) of
                       (w2, st2) \<Rightarrow>
                         (w2, note_expansion d i (\<lambda>r. r\<lparr>
                            dr_SuccessfulEmptyIDs := dr_SuccessfulEmptyIDs r @ (if qr_status q = SuccessEmpty then [nid] else []),
                            dr_Expansions := dr_Expansions r @ [\<lparr>ex_NodeID = nid, ex_Depth = depth, ex_Status = qr_status q,
                              ex_RequestID = qr_requestID q, ex_Cached = cached, ex_Reason = qr_reason q\<rparr>]\<rparr>) st2)))))"

fun visit_round :: "acq_env \<Rightarrow> AcqDirection \<Rightarrow> nat \<Rightarrow> walk list \<Rightarrow> runner \<Rightarrow> walk list \<times> runner" where
  "visit_round A d i [] st = ([], st)"
| "visit_round A d i (w # ws) st =
     (case (if w_queue w = [] then (w, st) else visit A d i (w, st)) of
        (w', st') \<Rightarrow> (case visit_round A d (Suc i) ws st' of (ws', st'') \<Rightarrow> (w' # ws', st'')))"

partial_function (option) visit_rounds :: "acq_env \<Rightarrow> AcqDirection \<Rightarrow> walk list \<Rightarrow> runner \<Rightarrow> (walk list \<times> runner) option" where
  "visit_rounds A d ws st =
     (if \<forall>w \<in> set ws. w_queue w = [] then Some (ws, st)
      else visit_rounds A d (fst (visit_round A d 0 ws st)) (snd (visit_round A d 0 ws st)))"

definition aggregate :: "Expansion list \<Rightarrow> ExpansionStatus" where
  "aggregate es =
     (let ss = map ex_Status es in
      if \<forall>s \<in> set ss. s = hd ss then hd ss
      else if \<forall>s \<in> set ss. s = SuccessEmpty \<or> s = SuccessNonempty
        then (if SuccessNonempty \<in> set ss then SuccessNonempty else SuccessEmpty)
      else Partial)"

definition depth_layers :: "(string, nat) go_map \<Rightarrow> SliceLayer list" where
  "depth_layers m = map (\<lambda>k. \<lparr>Depth = int k, NodeIDs = sort (map fst (filter (\<lambda>x. snd x = k) m))\<rparr>)
     [0..<(if m = [] then 0 else Suc (Max (snd ` set m)))]"

definition settled_status :: "ExpansionStatus \<Rightarrow> bool" where
  "settled_status s \<longleftrightarrow> s = SuccessEmpty \<or> s = SuccessNonempty \<or> s = ExpansionNotApplicable"

definition finish_direction :: "walk \<Rightarrow> DirectionResult \<Rightarrow> DirectionResult" where
  "finish_direction w r =
     r\<lparr>dr_Layers := depth_layers (w_depths w), dr_FrontierIDs := sort (dr_FrontierIDs r), dr_SuccessfulEmptyIDs := sort (dr_SuccessfulEmptyIDs r),
       dr_Status := (if dr_Expansions r = [] then dr_Status r else aggregate (dr_Expansions r))\<rparr>"

definition finish_walks :: "AcqDirection \<Rightarrow> walk list \<Rightarrow> runner \<Rightarrow> runner" where
  "finish_walks d ws st =
     (let ts = map2 (\<lambda>w t. set_direction d (finish_direction w (direction_of d t)) t) ws (a_Targets st) in
      st\<lparr>a_Targets := ts, a_Complete := a_Complete st \<and> (\<forall>t \<in> set ts. settled_status (dr_Status (direction_of d t)))\<rparr>)"

definition traverse :: "acq_env \<Rightarrow> AcqDirection \<Rightarrow> runner \<Rightarrow> runner option" where
  "traverse A d st =
     (let starts = map (start_walk (r_Mode (a_Request st)) d) (a_Targets st) in
      map_option (\<lambda>(ws, st'). finish_walks d ws st') (visit_rounds A d (map snd starts) (st\<lparr>a_Targets := map fst starts\<rparr>)))"

section \<open>Evidence\<close>

definition zero_direction :: DirectionResult where
  "zero_direction = \<lparr>dr_Status = ExpansionNotApplicable, dr_Expansions = [], dr_Layers = [], dr_FrontierIDs = [], dr_SuccessfulEmptyIDs = [], dr_StartIDs = []\<rparr>"

definition new_target :: "AcqTarget \<Rightarrow> TargetResult" where
  "new_target t = \<lparr>tr_Requested = t, tr_Resolution = start_resolution\<lparr>rs_Status := NoResolution\<rparr>, tr_Admission = NotApplicable,
     tr_Outgoing = zero_direction, tr_Incoming = zero_direction\<rparr>"

fun resolve_all :: "acq_env \<Rightarrow> TargetResult list \<Rightarrow> runner \<Rightarrow> TargetResult list \<times> runner" where
  "resolve_all A [] st = ([], st)"
| "resolve_all A (t # ts) st =
     (case resolve A (tr_Requested t) st of (r, st1) \<Rightarrow>
        (case resolve_all A ts st1 of (ts', st2) \<Rightarrow> (t\<lparr>tr_Resolution := r\<rparr> # ts', st2)))"

definition resolutionID :: "Resolution \<Rightarrow> string" where
  "resolutionID r = (case rs_Identity r of None \<Rightarrow> '''' | Some n \<Rightarrow> ID n)"

text \<open>The root comes first, then the others in the stable order of their identities.\<close>

definition admission_order :: "TargetResult list \<Rightarrow> nat list" where
  "admission_order ts = (if ts = [] then [] else 0 # sort_key (\<lambda>i. resolutionID (tr_Resolution (ts ! i))) [1..<length ts])"

definition admit_target :: "acq_env \<Rightarrow> nat \<Rightarrow> runner \<Rightarrow> runner" where
  "admit_target A i st =
     (let t = a_Targets st ! i in
      case (rs_Status (tr_Resolution t), rs_Prepared (tr_Resolution t)) of
        (Resolved, Some item) \<Rightarrow>
          (case admit A item st of
             (True, st') \<Rightarrow> st'\<lparr>a_Targets := (a_Targets st')[i := t\<lparr>tr_Admission := Admitted\<rparr>],
                             a_members := (a_members st')[i := insert (resolutionID (tr_Resolution t)) (a_members st' ! i)]\<rparr>
           | (False, st') \<Rightarrow> st'\<lparr>a_Targets := (a_Targets st')[i := t\<lparr>tr_Admission := AdmissionBlocked\<rparr>], a_Complete := False\<rparr>)
      | _ \<Rightarrow> partial_acquisition st)"

definition resolve_targets :: "acq_env \<Rightarrow> runner \<Rightarrow> runner" where
  "resolve_targets A st =
     (let ts = map new_target (r_Root (a_Request st) # r_RequiredTargets (a_Request st)) in
      case resolve_all A ts st of
        (ts', st') \<Rightarrow> st'\<lparr>a_Targets := ts', a_members := map (\<lambda>_. {}) ts, a_relations := map (\<lambda>_. {}) ts\<rparr>)"

definition admit_targets :: "acq_env \<Rightarrow> runner \<Rightarrow> runner" where
  "admit_targets A st = fold (admit_target A) (admission_order (a_Targets st)) st"

definition seed_phase :: "acq_env \<Rightarrow> runner \<Rightarrow> runner" where
  "seed_phase A st =
     (let st1 = admit_targets A (resolve_targets A st) in
      if r_TopmostSiblings (a_Request st1) then expandTopmostSiblings A st1 else st1)"

definition collect :: "acq_env \<Rightarrow> runner \<Rightarrow> runner option" where
  "collect A st =
     (let st1 = seed_phase A st in
      Option.bind (if r_Mode (a_Request st1) = SliceMode then traverse A Outgoing st1 else Some st1) (traverse A IncomingDirection))"

section \<open>The graph\<close>

fun resolution_text :: "ResolutionStatus \<Rightarrow> string" where
  "resolution_text NoResolution = ''''"
| "resolution_text Resolved = ''RESOLVED''"
| "resolution_text Missing = ''MISSING''"
| "resolution_text Ambiguous = ''AMBIGUOUS''"
| "resolution_text ResolutionFailed = ''FAILED''"
| "resolution_text ResolutionUnsupported = ''UNSUPPORTED''"
| "resolution_text ResolutionBlocked = ''BUDGET_BLOCKED''"

fun admission_text :: "AdmissionStatus \<Rightarrow> string" where
  "admission_text Admitted = ''ADMITTED''"
| "admission_text AdmissionBlocked = ''BUDGET_BLOCKED''"
| "admission_text NotApplicable = ''NOT_APPLICABLE''"

record InvocationSeed =
  is_Label :: string
  is_At :: string
  is_LanguageID :: string
  is_ResolvedURI :: string

record Invocation =
  inv_MaxDepth :: int
  inv_MaxNodes :: int
  inv_TimeoutMS :: int
  inv_RequestTimeoutMS :: int
  inv_Concurrency :: int
  inv_InvocationID :: string
  inv_Seeds :: "InvocationSeed list"
  inv_Target :: Target
  inv_LanguageID :: string

definition requested_target :: "TargetResult \<Rightarrow> Target" where
  "requested_target t =
     (let l = at_Locator (tr_Requested t) in
      case rs_Position (tr_Resolution t) of
        Some p \<Rightarrow> \<lparr>TURI = l_URI l, TLine = uint (Line p), TColumn = uint (Character p)\<rparr>
      | None \<Rightarrow>
          (case (l_Line l, l_Character l) of
             (Some line, Some char) \<Rightarrow> \<lparr>TURI = l_URI l, TLine = uint line, TColumn = uint char\<rparr>
           | _ \<Rightarrow> \<lparr>TURI = l_URI l, TLine = 0, TColumn = 0\<rparr>))"

definition keys_of :: "string set \<Rightarrow> string list" where
  "keys_of s = sorted_list_of_set s"

definition seed_result :: "TargetResult \<Rightarrow> string set \<Rightarrow> string set \<Rightarrow> SeedResult" where
  "seed_result t members relations =
     \<lparr>Label = at_ID (tr_Requested t), Requested = requested_target t,
      PreparedTargetIDs = (if tr_Admission t = Admitted then [resolutionID (tr_Resolution t)] else []),
      ReachedNodeIDs = keys_of members, ReachedRelationIDs = keys_of relations, ReachedEdges = [],
      SFailure = (if tr_Admission t = Admitted then None
        else Some \<lparr>FPhase = ''prepare'', FMessage = resolution_text (rs_Status (tr_Resolution t)) @ '':'' @ rs_Reason (tr_Resolution t) @ '':'' @
          admission_text (tr_Admission t)\<rparr>)\<rparr>"

definition invocation_seed :: "TargetResult \<Rightarrow> InvocationSeed" where
  "invocation_seed t =
     \<lparr>is_Label = at_ID (tr_Requested t), is_At = locator_json (at_Locator (tr_Requested t)), is_LanguageID = l_LanguageID (at_Locator (tr_Requested t)),
      is_ResolvedURI = (case rs_Identity (tr_Resolution t) of Some n \<Rightarrow> if tr_Admission t = Admitted then URI n else '''' | None \<Rightarrow> '''')\<rparr>"

definition invocation_of :: "runner \<Rightarrow> Invocation" where
  "invocation_of st =
     (let r = a_Request st; root = hd (a_Targets st) in
      \<lparr>inv_MaxDepth = at_UpDepth (r_Root r), inv_MaxNodes = MaxNodesL (r_Limits r), inv_TimeoutMS = TimeoutL (r_Limits r) div 1000000,
       inv_RequestTimeoutMS = RequestTimeoutL (r_Limits r) div 1000000, inv_Concurrency = 1, inv_InvocationID = ac_ID (r_Context r),
       inv_Seeds = map invocation_seed (a_Targets st), inv_Target = requested_target root, inv_LanguageID = l_LanguageID (at_Locator (tr_Requested root))\<rparr>)"

definition partiality_diagnostic :: Diagnostic where
  "partiality_diagnostic = \<lparr>Phase = ''prepare'', Method = '''', DNodeID = '''', Category = NoCategory,
     DMessage = ''MULTI_TARGET_ACQUISITION_PARTIAL: consult coordinator accounting''\<rparr>"

definition raw_graph :: "runner \<Rightarrow> Call_Graph.Result" where
  "raw_graph st =
     (let g = a_Graph st; admitted_targets = filter (\<lambda>t. tr_Admission t = Admitted) (a_Targets st) in
      g\<lparr>SchemaVersion := SchemaVersionV3, Result.Nodes := map snd (a_nodes st),
        Targets := Targets g @ map (resolutionID \<circ> tr_Resolution) admitted_targets,
        Seeds := Seeds g @ map (\<lambda>(t, m, r). seed_result t m r) (zip (a_Targets st) (zip (a_members st) (a_relations st))),
        Diagnostics := Diagnostics g @ (if a_Complete st then [] else [partiality_diagnostic])\<rparr>)"

definition finishGraph :: "acq_env \<Rightarrow> (Call_Graph.Result \<Rightarrow> string option) \<Rightarrow> runner \<Rightarrow> string + runner" where
  "finishGraph A check st =
     (let g = Canonicalize (ae_env A) (raw_graph st) in
      case check g of Some err \<Rightarrow> Inl err | None \<Rightarrow> Inr (st\<lparr>a_Graph := g\<rparr>))"

section \<open>Connections\<close>

record Connection =
  cn_From :: string
  cn_To :: string
  cn_Direction :: string
  cn_Status :: string
  cn_Reason :: string
  cn_Path :: Path
  cn_Work :: int

definition no_connection :: Connection where
  "no_connection = \<lparr>cn_From = '''', cn_To = '''', cn_Direction = ''CALLER_TO_CALLEE'', cn_Status = ''NOT_EVALUABLE'',
     cn_Reason = ''endpoint unresolved or not admitted'', cn_Path = emptyPath, cn_Work = 0\<rparr>"

definition path_edge :: "string \<Rightarrow> nat \<times> Call_Graph.Edge \<Rightarrow> Retained_Path.Edge" where
  "path_edge ctx x =
     (case x of (i, e) \<Rightarrow>
       (let occ = map (\<lambda>j. ''/edges/'' @ dec i @ ''/call_sites/'' @ dec j) [0..<length (CallSites e)] in
        \<lparr>GroupID = ERelationID e, ContextID = ctx, ExecutionBundleID = EExecutionBundleID e, Caller = CallerNodeID e, Callee = CalleeNodeID e,
         Weight = 1, CallsiteState = (if occ = [] then ''EMPTY'' else ''PRESENT''), EdgeOccurrenceIDs = Some occ\<rparr>))"

definition PathInput :: "Call_Graph.Result \<Rightarrow> string \<Rightarrow> string list \<times> Retained_Path.Edge list" where
  "PathInput g ctx = (sort (map ID (Result.Nodes g)), map (path_edge ctx) (enumerate 0 (Edges g)))"

datatype connect_error = MissingNode string | NotProved prove_error

text \<open>
  The loop over the targets after the root, with the shared budget; \<open>cancelled\<close> is the context as the path search polls it. The outer
  \<^const>\<open>None\<close> stands for a search that does not return.
\<close>

definition connect_one :: "go_context \<Rightarrow> string list \<Rightarrow> Retained_Path.Edge list \<Rightarrow> string \<Rightarrow> string \<Rightarrow> Budget
    \<Rightarrow> (connect_error + Connection \<times> Budget) option" where
  "connect_one cancelled nodes edges from to b =
     (case Search cancelled nodes edges from to b of
        None \<Rightarrow> None
      | Some (Inl n) \<Rightarrow> Some (Inl (MissingNode n))
      | Some (Inr (r, b')) \<Rightarrow>
          (case (if Status r = ''INCOMPLETE'' then Inr () else Prove edges from to (Status r) (ResultPath r)) of
             Inl err \<Rightarrow> Some (Inl (NotProved err))
           | Inr _ \<Rightarrow> Some (Inr (\<lparr>cn_From = from, cn_To = to, cn_Direction = ''CALLER_TO_CALLEE'', cn_Status = Status r, cn_Reason = Reason r,
               cn_Path = ResultPath r, cn_Work = Left b - Left b'\<rparr>, b'))))"

fun connect_targets :: "go_context \<Rightarrow> Mode \<Rightarrow> string list \<Rightarrow> Retained_Path.Edge list \<Rightarrow> TargetResult \<Rightarrow> TargetResult list \<Rightarrow> Budget
    \<Rightarrow> (connect_error + Connection list \<times> Budget) option" where
  "connect_targets cancelled mode nodes edges root [] b = Some (Inr ([], b))"
| "connect_targets cancelled mode nodes edges root (t # ts) b =
     (let a = resolutionID (tr_Resolution root); z = resolutionID (tr_Resolution t) in
      case (if tr_Admission root \<noteq> Admitted \<or> tr_Admission t \<noteq> Admitted then Some (Inr (no_connection, b))
            else if mode = IncomingMode then connect_one cancelled nodes edges z a b
            else connect_one cancelled nodes edges a z b) of
        None \<Rightarrow> None
      | Some (Inl err) \<Rightarrow> Some (Inl err)
      | Some (Inr (c, b1)) \<Rightarrow>
          (case connect_targets cancelled mode nodes edges root ts b1 of
             None \<Rightarrow> None
           | Some (Inl err) \<Rightarrow> Some (Inl err)
           | Some (Inr (cs, b2)) \<Rightarrow> Some (Inr (c # cs, b2))))"

text \<open>The connections of all targets, the root's first, which has none.\<close>

definition connect :: "go_context \<Rightarrow> runner \<Rightarrow> (connect_error + Connection list \<times> runner) option" where
  "connect cancelled st =
     (case PathInput (a_Graph st) (ac_ID (r_Context (a_Request st))) of (nodes, edges) \<Rightarrow>
        (case connect_targets cancelled (r_Mode (a_Request st)) nodes edges (hd (a_Targets st)) (tl (a_Targets st))
                \<lparr>Polls = 0, Left = MaxPathWork (r_Limits (a_Request st)), BudgetReason = ''''\<rparr> of
           None \<Rightarrow> None
         | Some (Inl err) \<Rightarrow> Some (Inl err)
         | Some (Inr (cs, b)) \<Rightarrow>
             Some (Inr (no_connection # cs, st\<lparr>a_Usage := (a_Usage st)\<lparr>u_PathWork := MaxPathWork (r_Limits (a_Request st)) - Left b\<rparr>\<rparr>))))"

section \<open>Acquisition\<close>

definition zero_graph :: Call_Graph.Result where
  "zero_graph = (emptyResult '''')\<lparr>RSummary := zeroSummary, Quality := zeroQuality\<rparr>"

definition start_runner :: "Request \<Rightarrow> runner" where
  "start_runner r =
     \<lparr>a_Request = r, a_Graph = zero_graph, a_Targets = [], a_Requests = [], a_Supplies = [], a_EdgeObservations = [],
      a_Usage = \<lparr>u_Nodes = 0, u_Requests = 0, u_EvidenceBytes = 0, u_PathWork = 0, u_PrepareProbes = 0\<rparr>, a_Complete = True,
      a_items = [], a_nodes = [], a_resolutions = Map.empty, a_queries = Map.empty, a_members = [], a_relations = [], a_polls = 0\<rparr>"

datatype acquire_error =
    RequestError request_error
  | GraphError string
  | ConnectError connect_error
  | ResultError string

definition acquireEvidence :: "acq_env \<Rightarrow> (Call_Graph.Result \<Rightarrow> string option) \<Rightarrow> runner \<Rightarrow> (string + runner) option" where
  "acquireEvidence A check st = map_option (finishGraph A check) (collect A st)"

definition Acquire :: "acq_env \<Rightarrow> go_context \<Rightarrow> (Call_Graph.Result \<Rightarrow> string option) \<Rightarrow> (Connection list \<times> runner \<Rightarrow> string option) \<Rightarrow> Request
    \<Rightarrow> (acquire_error + Connection list \<times> runner) option" where
  "Acquire A cancelled check_graph check_result r =
     (case ValidateRequest A r of
        Some err \<Rightarrow> Some (Inl (RequestError err))
      | None \<Rightarrow>
          (case acquireEvidence A check_graph (start_runner r) of
             None \<Rightarrow> None
           | Some (Inl err) \<Rightarrow> Some (Inl (GraphError err))
           | Some (Inr st) \<Rightarrow>
               (case connect cancelled st of
                  None \<Rightarrow> None
                | Some (Inl err) \<Rightarrow> Some (Inl (ConnectError err))
                | Some (Inr x) \<Rightarrow> (case check_result x of Some err \<Rightarrow> Some (Inl (ResultError err)) | None \<Rightarrow> Some (Inr x)))))"


end
