(* ===== verification/Coordinator_Steps.thy ===== *)
theory Coordinator_Steps
  imports Coordinator Transition_System Call_Graph_Properties
begin

text \<open>
  The coordinator as a transition system. Every operation is a sequence of steps of \<open>acq_step\<close>: a request that is blocked or
  attempted, a node that is admitted, a call that is merged into the edges, or bookkeeping that leaves all of these alone. What holds
  of each step holds of a whole acquisition.
\<close>

definition core :: "runner \<Rightarrow> Request \<times> RequestRecord list \<times> Usage \<times> (string, Node) go_map \<times> (string, CallHierarchyItem) go_map \<times>
    Call_Graph.Edge list \<times> EdgeObservation list" where
  "core st = (a_Request st, a_Requests st, a_Usage st, a_nodes st, a_items st, Edges (a_Graph st), a_EdgeObservations st)"

definition node_ids :: "runner \<Rightarrow> string set" where
  "node_ids st = fst ` set (a_nodes st)"

definition poll :: "runner \<Rightarrow> runner" where
  "poll st = st\<lparr>a_polls := Suc (a_polls st)\<rparr>"

definition reply_room :: "int \<Rightarrow> runner \<Rightarrow> int" where
  "reply_room n st = min (MaxEvidenceBytes (r_Limits (a_Request st)) - (u_EvidenceBytes (a_Usage st) + n)) (MaxResponseBytes (r_Limits (a_Request st)))"

definition blocked_record :: "string \<Rightarrow> string \<Rightarrow> string \<Rightarrow> string \<Rightarrow> string \<Rightarrow> int \<Rightarrow> runner \<Rightarrow> RequestRecord" where
  "blocked_record target meth nid reason raw n st = (new_record target meth nid st)\<lparr>rq_Reason := reason, rq_Params := raw, rq_EvidenceBytes := n\<rparr>"

definition attempted_record :: "string \<Rightarrow> string \<Rightarrow> string \<Rightarrow> string \<Rightarrow> int \<Rightarrow> json_result \<times> int \<Rightarrow> Outcome \<times> string \<Rightarrow> runner \<Rightarrow> RequestRecord" where
  "attempted_record target meth nid raw n c o' st =
     (capture_reply (fst c) o' (new_record target meth nid st))\<lparr>rq_Attempted := True, rq_Params := raw, rq_EvidenceBytes := n + snd c\<rparr>"

definition keep_edge :: "acq_env \<Rightarrow> AcqDirection \<Rightarrow> string \<Rightarrow> string \<Rightarrow> AcqCall \<Rightarrow> runner \<Rightarrow> runner" where
  "keep_edge A d nid rid c st =
     st\<lparr>a_Graph := (a_Graph st)\<lparr>Edges := MergeEdge (ae_env A) (Edges (a_Graph st)) (call_edge A d nid c)\<rparr>,
        a_EdgeObservations := observe (ae_env A) rid (hd (MergeEdge (ae_env A) [] (call_edge A d nid c))) (a_EdgeObservations st)\<rparr>"

text \<open>The server answered the request \<open>rid\<close> for the calls of a node, successfully and within the budget, with these calls.\<close>

definition answered :: "acq_env \<Rightarrow> runner \<Rightarrow> AcqDirection \<Rightarrow> string \<Rightarrow> string \<Rightarrow> AcqCall list \<Rightarrow> bool" where
  "answered A st d nid rid calls \<longleftrightarrow> (\<exists>k i. k < length (a_Requests st) \<and> rid = request_id (Suc k) \<and>
     rq_Outcome (a_Requests st ! k) = OutcomeSuccess \<and> rq_Method (a_Requests st ! k) = call_method d \<and> rq_NodeID (a_Requests st ! k) = nid \<and>
     map_of (a_items st) nid = Some i \<and> reported A d i k = Inr calls)"

inductive acq_step :: "acq_env \<Rightarrow> runner \<Rightarrow> runner \<Rightarrow> bool" for A where
  blocked: "capture_params A meth params st = (Some reason, raw, n) \<Longrightarrow>
    acq_step A st (log_request (blocked_record target meth nid reason raw n st) (spend n (poll st)))"
| attempted: "capture_params A meth params st = (None, raw, n) \<Longrightarrow> c = boundedJSON body (reply_room n st) \<Longrightarrow>
    acq_step A st (log_request (attempted_record target meth nid raw n c (call_outcome err) st) (spend (n + snd c) (attempt meth (poll st))))"
| admitted: "acq_step A st (snd (admit A i st))"
| merged: "nid \<in> node_ids st \<Longrightarrow> ID (acq_node A (call_Item c)) \<in> node_ids st \<Longrightarrow> answered A st d nid rid calls \<Longrightarrow> c \<in> set calls \<Longrightarrow>
    acq_step A st (keep_edge A d nid rid c st)"
| bookkeeping: "core st' = core st \<Longrightarrow> acq_step A st st'"

abbreviation acq_steps :: "acq_env \<Rightarrow> runner \<Rightarrow> runner \<Rightarrow> bool" where
  "acq_steps A \<equiv> (acq_step A)\<^sup>*\<^sup>*"

section \<open>Requests\<close>

lemma invoke_cases:
  assumes "invoke A target meth nid params answer enc st = (v, rec, st')"
  obtains (blocked) reason raw n where "capture_params A meth params st = (Some reason, raw, n)" "v = None"
      "rec = blocked_record target meth nid reason raw n st" "st' = log_request rec (spend n (poll st))"
    | (attempted) raw n err body c where "capture_params A meth params st = (None, raw, n)" "c = boundedJSON body (reply_room n st)"
      "rec = attempted_record target meth nid raw n c (call_outcome err) st" "st' = log_request rec (spend (n + snd c) (attempt meth (poll st)))"
      "v = (case (err, answer (length (a_Requests st)), fst c) of (None, Inr x, Encoded _) \<Rightarrow> Some x | _ \<Rightarrow> None)"
      "err = (case answer (length (a_Requests st)) of Inl e \<Rightarrow> Some e | Inr _ \<Rightarrow> call_Err A (length (a_Requests st)))"
proof (cases "capture_params A meth params st")
  case (fields b raw n)
  show thesis
  proof (cases b)
    case (Some reason)
    with assms fields show thesis
      by (intro blocked) (auto simp: invoke_def Let_def blocked_record_def poll_def)
  next
    case None
    let ?reply = "answer (length (a_Requests st))"
    let ?err = "case ?reply of Inl e \<Rightarrow> Some e | Inr _ \<Rightarrow> call_Err A (length (a_Requests st))"
    let ?body = "case (?err, ?reply) of (None, Inr v) \<Rightarrow> enc v | (Some e, _) \<Rightarrow> en_Error A e | (None, Inl e) \<Rightarrow> en_Error A e"
    from assms fields None show thesis
      by (intro attempted [of raw n "boundedJSON ?body (reply_room n st)" ?body ?err])
         (auto simp: invoke_def Let_def attempted_record_def poll_def reply_room_def)
  qed
qed

lemma invoke_frame:
  assumes "invoke A target meth nid params answer enc st = (v, rec, st')"
  shows "a_nodes st' = a_nodes st" "a_items st' = a_items st" "a_Graph st' = a_Graph st" "a_Targets st' = a_Targets st" "a_queries st' = a_queries st"
    "a_members st' = a_members st" "a_relations st' = a_relations st" "a_Complete st' = a_Complete st" "a_Request st' = a_Request st"
    "a_EdgeObservations st' = a_EdgeObservations st" "a_Requests st' = a_Requests st @ [rec]" "a_resolutions st' = a_resolutions st"
  using assms by (elim invoke_cases; simp add: log_request_def spend_def attempt_def poll_def)+

lemma new_record_simps [simp]:
  "rq_ID (new_record target meth nid st) = request_id (Suc (length (a_Requests st)))" "rq_Method (new_record target meth nid st) = meth"
  "rq_NodeID (new_record target meth nid st) = nid" "rq_TargetID (new_record target meth nid st) = target" "rq_Before (new_record target meth nid st) = a_Usage st"
  "rq_Outcome (new_record target meth nid st) = OutcomeBlocked" "rq_Attempted (new_record target meth nid st) = False"
  by (simp_all add: new_record_def)

lemma capture_reply_simps [simp]:
  "rq_ID (capture_reply c o' rec) = rq_ID rec" "rq_Method (capture_reply c o' rec) = rq_Method rec" "rq_NodeID (capture_reply c o' rec) = rq_NodeID rec"
  "rq_TargetID (capture_reply c o' rec) = rq_TargetID rec" "rq_Before (capture_reply c o' rec) = rq_Before rec"
  by (simp_all add: capture_reply_def split: json_result.splits)

lemma invoke_value:
  assumes "invoke A target meth nid params answer enc st = (Some x, rec, st')"
  shows "answer (length (a_Requests st)) = Inr x" "rq_Outcome rec = OutcomeSuccess" "rq_Attempted rec" "rq_Method rec = meth" "rq_NodeID rec = nid"
    "rq_ID rec = request_id (Suc (length (a_Requests st)))"
  using assms
  by (elim invoke_cases; auto simp: attempted_record_def call_outcome_def capture_reply_def split: option.splits sum.splits json_result.splits)+

lemma invoke_record: "invoke A target meth nid params answer enc st = (v, rec, st') \<Longrightarrow> rq_Method rec = meth \<and> rq_NodeID rec = nid"
  by (elim invoke_cases) (simp_all add: blocked_record_def attempted_record_def)

lemma invoke_no_value:
  assumes "invoke A target meth nid params answer enc st = (None, rec, st')"
  shows "rq_Outcome rec \<noteq> OutcomeSuccess"
  using assms
  by (elim invoke_cases) (auto simp: blocked_record_def attempted_record_def call_outcome_def capture_reply_def split: option.splits sum.splits json_result.splits)

section \<open>Operations as steps\<close>

lemma invoke_steps: "invoke A target meth nid params answer enc st = (v, rec, st') \<Longrightarrow> acq_steps A st st'"
  by (elim invoke_cases) (auto intro!: r_into_rtranclp acq_step.blocked acq_step.attempted)

lemma steps_book: "acq_steps A st st1 \<Longrightarrow> core st2 = core st1 \<Longrightarrow> acq_steps A st st2"
  by (rule rtranclp.rtrancl_into_rtrancl) (auto intro: acq_step.bookkeeping)

lemma steps_core: "core st2 = core st1 \<Longrightarrow> acq_steps A st1 st2"
  by (rule steps_book [OF rtranclp.rtrancl_refl])

lemma steps_admit: "acq_steps A st st1 \<Longrightarrow> admit A i st1 = (ok, st2) \<Longrightarrow> acq_steps A st st2"
  by (metis acq_step.admitted rtranclp.rtrancl_into_rtrancl snd_conv)

text \<open>
  What a resolution does to the runner: requests, and the documents that are supplied. A relation between states that is reflexive and
  transitive and holds across these holds across a resolution.
\<close>

definition seed_methods :: "string set" where
  "seed_methods = {''source/prepareDocument'', documentSymbolMethod, prepareMethod}"

lemma seed_methods [simp]:
  "''source/prepareDocument'' \<in> seed_methods" "documentSymbolMethod \<in> seed_methods" "prepareMethod \<in> seed_methods"
  by (simp_all add: seed_methods_def)

locale resolution_relation =
  fixes A :: acq_env and R :: "runner \<Rightarrow> runner \<Rightarrow> bool"
  assumes refl: "R st st"
    and trans: "R st st1 \<Longrightarrow> R st1 st2 \<Longrightarrow> R st st2"
    and request_blocked: "meth \<in> seed_methods \<Longrightarrow> capture_params A meth params st = (Some reason, raw, n) \<Longrightarrow>
      R st (log_request (blocked_record target meth nid reason raw n st) (spend n (poll st)))"
    and request_attempted: "meth \<in> seed_methods \<Longrightarrow> capture_params A meth params st = (None, raw, n) \<Longrightarrow> c = boundedJSON body (reply_room n st) \<Longrightarrow>
      R st (log_request (attempted_record target meth nid raw n c (call_outcome err) st) (spend (n + snd c) (attempt meth (poll st))))"
    and supplied: "R st (st\<lparr>a_Supplies := x\<rparr>)"
begin

lemma invoke_rel: "invoke A target meth nid params answer enc st = (v, rec, st') \<Longrightarrow> meth \<in> seed_methods \<Longrightarrow> R st st'"
  by (elim invoke_cases) (auto intro!: request_blocked request_attempted)

lemma supply_document_rel: "supply_document A t r st = (x, st') \<Longrightarrow> R st st'"
proof (cases "cl_Supply A")
  case (Some supplier)
  obtain v rec st1 where i: "invoke A (at_ID t) ''source/prepareDocument'' '''' (en_Locator A (at_Locator t)) (\<lambda>k. supplier k (at_Locator t)) (en_Supply A) st = (v, rec, st1)"
    by (metis prod_cases3)
  note s = invoke_rel [OF i, simplified]
  have "R st (st1\<lparr>a_Supplies := x\<rparr>)" for x by (rule trans [OF s supplied])
  with i s Some show "supply_document A t r st = (x, st') \<Longrightarrow> R st st'"
    by (auto simp: supply_document_def split: option.splits if_splits)
qed (simp add: supply_document_def refl)

lemma find_symbol_rel: "find_symbol A t r st = (x, st') \<Longrightarrow> R st st'"
  by (auto simp: find_symbol_def Let_def split: option.splits prod.splits if_splits list.splits dest: invoke_rel)

lemma probe_loop_rel: "probe_loop A t symbol n started p r st = (x, st') \<Longrightarrow> R st st'"
proof (induction n arbitrary: started p r st)
  case (Suc n)
  let ?q = "if started then p\<lparr>Character := Character p + 1\<rparr> else p" and ?uri = "l_URI (at_Locator t)"
  obtain v rec st1 where i: "invoke A (at_ID t) prepareMethod '''' (en_PrepareParams A ?uri ?q) (\<lambda>k. cl_Prepare A k ?uri ?q) (en_Items A) st = (v, rec, st1)"
    by (metis prod_cases3)
  note s = invoke_rel [OF i, simplified]
  have rest: "probe_loop A t symbol n True ?q r' st1 = (x, st') \<Longrightarrow> R st st'" for r'
    using trans [OF s] Suc.IH by blast
  from Suc.prems i s rest refl show ?case
    by (auto simp: Let_def split: if_splits option.splits sum.splits list.splits prod.splits)
qed (simp add: refl)

lemma probe_rel: "probe A t symbol p r st = (x, st') \<Longrightarrow> R st st'"
  by (cases "probe_loop A t symbol MaxPrepareProbes False p r st")
     (auto simp: probe_def dest!: probe_loop_rel split: sum.splits prod.splits if_splits)

lemma resolve_new_rel: "resolve_new A t st = (x, st') \<Longrightarrow> R st st'"
proof (cases "supply_document A t start_resolution st")
  case (Pair y st1)
  note s = supply_document_rel [OF Pair]
  assume r: "resolve_new A t st = (x, st')"
  show "R st st'"
  proof (cases y)
    case (Inl r1)
    with r Pair s show ?thesis by (simp add: resolve_new_def)
  next
    case (Inr r1)
    show ?thesis
    proof (cases "l_Symbol (at_Locator t) = ''''")
      case True
      with r Pair Inr have "probe A t None (locator_position (at_Locator t)) r1 st1 = (x, st')" by (simp add: resolve_new_def)
      from trans [OF s probe_rel [OF this]] show ?thesis .
    next
      case False
      obtain z st2 where f: "find_symbol A t r1 st1 = (z, st2)" by (meson surj_pair)
      note s2 = trans [OF s find_symbol_rel [OF f]]
      with r Pair Inr False f show ?thesis
        by (auto simp: resolve_new_def split: sum.splits prod.splits dest: probe_rel intro: trans)
    qed
  qed
qed

end

text \<open>The rest of the first phase also caches resolutions, admits nodes, marks the acquisition as partial and notes siblings.\<close>

locale seed_relation = resolution_relation +
  assumes cached: "R st (st\<lparr>a_resolutions := m\<rparr>)"
    and admission: "R st (snd (admit A i st))"
    and partiality: "R st (partial_acquisition st)"
    and sibling: "R st (st\<lparr>a_Graph := (a_Graph st)\<lparr>SiblingCandidates := cs\<rparr>\<rparr>)"
begin

lemma resolve_rel: "resolve A t st = (x, st') \<Longrightarrow> R st st'"
proof (cases "a_resolutions st (locator_json (at_Locator t))")
  case None
  obtain r st1 where n: "resolve_new A t st = (r, st1)" by (meson surj_pair)
  have "R st (st1\<lparr>a_resolutions := m\<rparr>)" for m by (rule trans [OF resolve_new_rel [OF n] cached])
  with None n show "resolve A t st = (x, st') \<Longrightarrow> R st st'"
    by (auto simp: resolve_def Let_def)
qed (auto simp: resolve_def Let_def refl)

lemma resolve_all_rel: "resolve_all A ts st = (ts', st') \<Longrightarrow> R st st'"
proof (induction ts arbitrary: ts' st st')
  case (Cons t ts)
  obtain r st1 where r: "resolve A (tr_Requested t) st = (r, st1)" by (meson surj_pair)
  obtain ts1 st2 where a: "resolve_all A ts st1 = (ts1, st2)" by (meson surj_pair)
  have "R st st2" by (rule trans [OF resolve_rel [OF r] Cons.IH [OF a]])
  with Cons.prems r a show ?case by simp
qed (simp add: refl)

lemma fold_rel: "(\<And>x st. R st (f x st)) \<Longrightarrow> R st (fold f xs st)"
  by (induction xs arbitrary: st) (auto intro: trans refl)

lemma probe_sibling_rel: "probe_sibling A target nid uri s n started p st = (x, st') \<Longrightarrow> R st st'"
proof (induction n arbitrary: started p st)
  case (Suc n)
  let ?q = "if started then p\<lparr>Character := Character p + 1\<rparr> else p"
  obtain v rec st1 where i: "invoke A target prepareMethod nid (en_PrepareParams A uri ?q) (\<lambda>k. cl_Prepare A k uri ?q) (en_Items A) st = (v, rec, st1)"
    by (metis prod_cases3)
  note s = invoke_rel [OF i, simplified]
  have rest: "probe_sibling A target nid uri s n True ?q st1 = (x, st') \<Longrightarrow> R st st'"
    "probe_sibling A target nid uri s n True ?q (partial_acquisition st1) = (x, st') \<Longrightarrow> R st st'"
    using trans [OF s] trans [OF s partiality] trans Suc.IH by blast+
  from Suc.prems i s rest refl show ?case
    by (auto simp: Let_def split: if_splits option.splits)
qed (simp add: refl)

lemma add_sibling_rel: "R st (add_sibling A target seed origin s st)"
proof -
  obtain items st1 where p: "probe_sibling A target (ID origin) (c_URI seed) s MaxPrepareProbes False (Start (sym_SelectionRange s)) st = (items, st1)"
    by (meson surj_pair)
  note s1 = probe_sibling_rel [OF p]
  have s1': "R st (partial_acquisition st1)" by (rule trans [OF s1 partiality])
  have one: "R st (add_sibling A target seed origin s st)" if i: "items = [i]" "sym_SelectionRange s \<noteq> c_SelectionRange seed" for i
  proof -
    obtain ok st2 where a: "admit A i st1 = (ok, st2)" by (meson surj_pair)
    have s2: "R st st2" using trans [OF s1 admission [of st1 i]] a by simp
    have "R st (st2\<lparr>a_Graph := (a_Graph st2)\<lparr>SiblingCandidates := x\<rparr>\<rparr>)" "R st (partial_acquisition st2)" for x
      by (rule trans [OF s2 sibling], rule trans [OF s2 partiality])
    with p a i show ?thesis by (cases ok) (simp_all add: add_sibling_def Let_def)
  qed
  show ?thesis
  proof (cases items)
    case Nil
    with p s1' refl show ?thesis by (simp add: add_sibling_def)
  next
    case (Cons i js)
    with p s1' one refl show ?thesis by (cases js; cases "sym_SelectionRange s = c_SelectionRange seed") (simp_all add: add_sibling_def)
  qed
qed

lemma expand_siblings_rel: "R st (expand_siblings A target seed origin st)"
proof -
  obtain v rec st1 where i: "invoke A target documentSymbolMethod (ID origin) (en_SymbolParams A (c_URI seed)) (\<lambda>k. cl_Symbols A k (c_URI seed)) (en_Symbols A) st = (v, rec, st1)"
    by (metis prod_cases3)
  note s = invoke_rel [OF i, simplified]
  have "R st (partial_acquisition st1)" by (rule trans [OF s partiality])
  moreover have "R st (fold (add_sibling A target seed origin) xs st1)" for xs
    by (rule trans [OF s fold_rel]) (rule add_sibling_rel)
  ultimately show ?thesis
    using i s by (auto simp: expand_siblings_def Let_def split: option.splits)
qed

lemma sibling_targets_rel: "R st (sibling_targets A ts known st)"
proof (induction ts arbitrary: known st)
  case (Cons t ts)
  then show ?case
    by (auto split: AdmissionStatus.splits option.splits intro: trans [OF expand_siblings_rel])
qed (simp add: refl)

end

lemma partial_core [simp]: "core (partial_acquisition st) = core st"
  by (simp add: core_def partial_acquisition_def)

interpretation steps: seed_relation A "acq_steps A" for A
proof
  fix st st1 st2 :: runner
  show "acq_steps A st st" by simp
  show "acq_steps A st st1 \<Longrightarrow> acq_steps A st1 st2 \<Longrightarrow> acq_steps A st st2" by (rule rtranclp_trans)
  show "acq_steps A st (st\<lparr>a_Supplies := x\<rparr>)" "acq_steps A st (st\<lparr>a_resolutions := m\<rparr>)" "acq_steps A st (partial_acquisition st)"
      "acq_steps A st (st\<lparr>a_Graph := (a_Graph st)\<lparr>SiblingCandidates := cs\<rparr>\<rparr>)" for x m cs
    by (rule steps_core, simp add: core_def partial_acquisition_def)+
qed (intro r_into_rtranclp acq_step.blocked acq_step.attempted acq_step.admitted; assumption)+

lemma resolve_targets_steps: "acq_steps A st (resolve_targets A st)"
proof -
  let ?ts = "map new_target (r_Root (a_Request st) # r_RequiredTargets (a_Request st))"
  obtain ts st1 where a: "resolve_all A ?ts st = (ts, st1)" by (meson surj_pair)
  show ?thesis
    by (rule steps_book [OF steps.resolve_all_rel [OF a]]) (use a in \<open>simp add: resolve_targets_def core_def del: list.map resolve_all.simps\<close>)
qed

lemma admit_target_steps: "acq_steps A st (admit_target A i st)"
proof -
  let ?t = "a_Targets st ! i"
  have "acq_steps A st (admit_target A i st)" if prepared: "rs_Prepared (tr_Resolution ?t) = Some item" "rs_Status (tr_Resolution ?t) = Resolved" for item
  proof -
    obtain ok st1 where a: "admit A item st = (ok, st1)" by (meson surj_pair)
    note s = steps_admit [OF rtranclp.rtrancl_refl a]
    have "acq_steps A st (st1\<lparr>a_Targets := x, a_members := y\<rparr>)" "acq_steps A st (st1\<lparr>a_Targets := x, a_Complete := c\<rparr>)" for x y c
      by (rule steps_book [OF s], simp add: core_def)+
    with a prepared show ?thesis by (cases ok) (simp_all add: admit_target_def Let_def)
  qed
  with steps.partiality show ?thesis
    by (cases "rs_Status (tr_Resolution ?t)"; cases "rs_Prepared (tr_Resolution ?t)") (auto simp: admit_target_def Let_def)
qed

lemma admit_targets_steps: "acq_steps A st (admit_targets A st)"
  unfolding admit_targets_def by (rule steps.fold_rel) (rule admit_target_steps)

lemma seed_phase_steps: "acq_steps A st (seed_phase A st)"
  using rtranclp_trans [OF resolve_targets_steps admit_targets_steps]
  by (auto simp: seed_phase_def Let_def expandTopmostSiblings_def intro: rtranclp_trans [OF _ steps.sibling_targets_rel])

section \<open>The ledger\<close>

definition totals :: "RequestRecord list \<Rightarrow> Usage \<Rightarrow> bool" where
  "totals rs u \<longleftrightarrow> u_Requests u = int (length (filter rq_Attempted rs)) \<and> u_EvidenceBytes u = sum_list (map rq_EvidenceBytes rs) \<and>
     u_PrepareProbes u = int (length (filter (\<lambda>r. rq_Attempted r \<and> rq_Method r = prepareMethod) rs))"

definition limits_ok :: "Limits \<Rightarrow> bool" where
  "limits_ok l \<longleftrightarrow> 0 \<le> MaxNodesL l \<and> 0 \<le> MaxRequests l \<and> 0 \<le> MaxEvidenceBytes l \<and> 1 \<le> MaxResponseBytes l"

definition within_limits :: "Limits \<Rightarrow> Usage \<Rightarrow> bool" where
  "within_limits l u \<longleftrightarrow> u_Nodes u \<le> MaxNodesL l \<and> u_Requests u \<le> MaxRequests l \<and> u_EvidenceBytes u \<le> MaxEvidenceBytes l \<and>
     u_PrepareProbes u \<le> int MaxPrepareProbes"

definition records_ok :: "RequestRecord list \<Rightarrow> bool" where
  "records_ok rs \<longleftrightarrow> (\<forall>k < length rs. rq_ID (rs ! k) = request_id (Suc k) \<and> totals (take k rs) (rq_Before (rs ! k)) \<and>
     0 \<le> rq_EvidenceBytes (rs ! k) \<and> (rq_Attempted (rs ! k) \<longleftrightarrow> rq_Outcome (rs ! k) \<noteq> OutcomeBlocked))"

definition ledger :: "runner \<Rightarrow> bool" where
  "ledger st \<longleftrightarrow> limits_ok (r_Limits (a_Request st)) \<and> within_limits (r_Limits (a_Request st)) (a_Usage st) \<and>
     totals (a_Requests st) (a_Usage st) \<and> records_ok (a_Requests st) \<and> u_Nodes (a_Usage st) = int (length (a_nodes st))"

lemma records_ok_snoc:
  assumes "records_ok rs" and "rq_ID r = request_id (Suc (length rs))" and "totals rs (rq_Before r)" and "0 \<le> rq_EvidenceBytes r"
    and "rq_Attempted r \<longleftrightarrow> rq_Outcome r \<noteq> OutcomeBlocked"
  shows "records_ok (rs @ [r])"
  using assms by (auto simp: records_ok_def nth_append less_Suc_eq)

lemma boundedJSON_bounds: "0 \<le> limit \<Longrightarrow> 0 \<le> snd (boundedJSON v limit) \<and> snd (boundedJSON v limit) \<le> limit"
  by (auto simp: boundedJSON_def split: sum.splits)

lemma capture_params_bounds:
  assumes "capture_params A meth params st = (b, raw, n)" and "u_EvidenceBytes (a_Usage st) \<le> MaxEvidenceBytes (r_Limits (a_Request st))"
  shows "0 \<le> n" "u_EvidenceBytes (a_Usage st) + n \<le> MaxEvidenceBytes (r_Limits (a_Request st))"
    "b = None \<Longrightarrow> u_EvidenceBytes (a_Usage st) + n < MaxEvidenceBytes (r_Limits (a_Request st)) \<and> u_Requests (a_Usage st) < MaxRequests (r_Limits (a_Request st)) \<and>
       (meth = prepareMethod \<longrightarrow> u_PrepareProbes (a_Usage st) < int MaxPrepareProbes)"
proof -
  let ?room = "MaxEvidenceBytes (r_Limits (a_Request st)) - u_EvidenceBytes (a_Usage st)"
  note bj = boundedJSON_bounds [of ?room params]
  show "0 \<le> n" "u_EvidenceBytes (a_Usage st) + n \<le> MaxEvidenceBytes (r_Limits (a_Request st))"
    using assms bj by (auto simp: capture_params_def Let_def split: option.splits prod.splits json_result.splits)
  show "b = None \<Longrightarrow> u_EvidenceBytes (a_Usage st) + n < MaxEvidenceBytes (r_Limits (a_Request st)) \<and> u_Requests (a_Usage st) < MaxRequests (r_Limits (a_Request st)) \<and>
       (meth = prepareMethod \<longrightarrow> u_PrepareProbes (a_Usage st) < int MaxPrepareProbes)"
    using assms(1) by (auto simp: capture_params_def blocked_reason_def Let_def split: option.splits prod.splits json_result.splits if_splits)
qed

lemma capture_reply_outcome: "o' \<noteq> OutcomeBlocked \<Longrightarrow> rq_Outcome (capture_reply c (o', x) rec) \<noteq> OutcomeBlocked"
  by (simp add: capture_reply_def split: json_result.splits)

lemma ledger_step:
  assumes "ledger st" and "acq_step A st st'"
  shows "ledger st'"
  using assms(2)
proof (cases rule: acq_step.cases)
  case (blocked meth params reason raw n target nid)
  have "u_EvidenceBytes (a_Usage st) \<le> MaxEvidenceBytes (r_Limits (a_Request st))" using assms(1) by (simp add: ledger_def within_limits_def)
  note b = capture_params_bounds [OF blocked(2) this]
  have "records_ok (a_Requests st @ [blocked_record target meth nid reason raw n st])"
    by (rule records_ok_snoc) (use assms(1) b in \<open>simp_all add: ledger_def blocked_record_def\<close>)
  then show ?thesis
    using assms(1) b unfolding blocked(1)
    by (simp add: ledger_def within_limits_def totals_def log_request_def spend_def poll_def) (simp add: blocked_record_def)
next
  case (attempted meth params raw n c body target nid err)
  have "u_EvidenceBytes (a_Usage st) \<le> MaxEvidenceBytes (r_Limits (a_Request st))" using assms(1) by (simp add: ledger_def within_limits_def)
  note b = capture_params_bounds [OF attempted(2) this]
  have "0 \<le> reply_room n st" using assms(1) b by (auto simp: ledger_def limits_ok_def reply_room_def)
  then have c: "0 \<le> snd c" "snd c \<le> reply_room n st" using boundedJSON_bounds attempted(3) by auto
  have "rq_Outcome (attempted_record target meth nid raw n c (call_outcome err) st) \<noteq> OutcomeBlocked"
    by (cases err) (auto simp: attempted_record_def call_outcome_def intro!: capture_reply_outcome)
  then have "records_ok (a_Requests st @ [attempted_record target meth nid raw n c (call_outcome err) st])"
    by (intro records_ok_snoc) (use assms(1) b c in \<open>simp_all add: ledger_def attempted_record_def\<close>)
  then show ?thesis
    using assms(1) b c unfolding attempted(1)
    by (simp add: ledger_def within_limits_def totals_def log_request_def spend_def poll_def attempt_def reply_room_def) (auto simp: attempted_record_def)
next
  case (admitted i)
  then show ?thesis
    using assms(1) by (auto simp: ledger_def admit_def Let_def within_limits_def totals_def length_update_new split: if_splits)
next
  case (merged nid c d rid calls)
  then show ?thesis using assms(1) by (simp add: ledger_def keep_edge_def)
next
  case bookkeeping
  then show ?thesis using assms(1) by (simp add: ledger_def core_def)
qed


end
