(* ===== verification/Coordinator_Evidence.thy ===== *)
theory Coordinator_Evidence
  imports Coordinator_Steps
begin

text \<open>
  What the coordinator keeps is what the server answered: nodes and items belong together, edges join admitted nodes, and every call and
  every call site stands in an answer. All of it only grows.
\<close>

definition nodes_ok :: "acq_env \<Rightarrow> runner \<Rightarrow> bool" where
  "nodes_ok A st \<longleftrightarrow> distinct (map fst (a_nodes st)) \<and> (\<forall>k. map_of (a_nodes st) k = map_option (acq_node A) (map_of (a_items st) k)) \<and>
     (\<forall>k i. map_of (a_items st) k = Some i \<longrightarrow> ID (acq_node A i) = k)"

definition grows :: "runner \<Rightarrow> runner \<Rightarrow> bool" where
  "grows st st' \<longleftrightarrow> map_of (a_items st) \<subseteq>\<^sub>m map_of (a_items st') \<and> node_ids st \<subseteq> node_ids st' \<and> prefix (a_Requests st) (a_Requests st') \<and>
     edge_key ` set (Edges (a_Graph st)) \<subseteq> edge_key ` set (Edges (a_Graph st')) \<and>
     (\<forall>k. sites (Edges (a_Graph st)) k \<subseteq> sites (Edges (a_Graph st')) k) \<and> a_Request st' = a_Request st"

lemma acq_grows_refl: "grows st st"
  by (simp add: grows_def)

lemma acq_grows_trans:
  assumes "grows st1 st2" and "grows st2 st3"
  shows "grows st1 st3"
proof -
  have "map_of (a_items st1) \<subseteq>\<^sub>m map_of (a_items st3)" by (rule map_le_trans [of _ "map_of (a_items st2)"]) (use assms in \<open>simp_all add: grows_def\<close>)
  moreover have "prefix (a_Requests st1) (a_Requests st3)" by (rule prefix_order.trans [of _ "a_Requests st2"]) (use assms in \<open>simp_all add: grows_def\<close>)
  moreover have "sites (Edges (a_Graph st1)) k \<subseteq> sites (Edges (a_Graph st3)) k" for k
    using assms unfolding grows_def by (meson subset_trans)
  moreover have "edge_key ` set (Edges (a_Graph st1)) \<subseteq> edge_key ` set (Edges (a_Graph st3))" "node_ids st1 \<subseteq> node_ids st3"
    using assms unfolding grows_def by (meson subset_trans)+
  ultimately show ?thesis using assms by (simp add: grows_def)
qed

lemma node_ids_map: "nid \<in> node_ids st \<longleftrightarrow> map_of (a_nodes st) nid \<noteq> None"
  by (simp add: node_ids_def map_of_eq_None_iff)

lemma admit_cases:
  assumes "admit A i st = (ok, st')"
  obtains (known) "ok" "st' = st" "map_of (a_nodes st) (ID (acq_node A i)) \<noteq> None"
    | (full) "\<not> ok" "st' = st"
    | (fresh) "ok" "map_of (a_nodes st) (ID (acq_node A i)) = None"
        "st' = st\<lparr>a_nodes := AList.update (ID (acq_node A i)) (acq_node A i) (a_nodes st), a_items := AList.update (ID (acq_node A i)) i (a_items st),
           a_Usage := (a_Usage st)\<lparr>u_Nodes := u_Nodes (a_Usage st) + 1\<rparr>\<rparr>"
  using assms by (auto simp: admit_def Let_def split: if_splits)

lemma admit_node_ids: "admit A i st = (True, st') \<Longrightarrow> ID (acq_node A i) \<in> node_ids st'"
  by (elim admit_cases) (auto simp: node_ids_map)

lemma nodes_ok_admit:
  assumes "nodes_ok A st" and "admit A i st = (ok, st')"
  shows "nodes_ok A st' \<and> grows st st'"
  using assms(2)
proof (cases rule: admit_cases)
  case fresh
  let ?k = "ID (acq_node A i)"
  have none: "map_of (a_items st) ?k = None" using assms(1) fresh(2) by (auto simp: nodes_ok_def)
  have "nodes_ok A st'"
    using assms(1) unfolding nodes_ok_def fresh(3) by (auto simp: distinct_update)
  moreover have "grows st st'"
    using none unfolding grows_def fresh(3) by (auto simp: map_le_def node_ids_map)
  ultimately show ?thesis ..
qed (use assms(1) acq_grows_refl in auto)

lemma keep_edge_simps [simp]:
  "a_items (keep_edge A d nid rid c st) = a_items st" "a_nodes (keep_edge A d nid rid c st) = a_nodes st" "a_Requests (keep_edge A d nid rid c st) = a_Requests st"
  "a_Request (keep_edge A d nid rid c st) = a_Request st" "node_ids (keep_edge A d nid rid c st) = node_ids st"
  "Edges (a_Graph (keep_edge A d nid rid c st)) = MergeEdge (ae_env A) (Edges (a_Graph st)) (call_edge A d nid c)"
  by (simp_all add: keep_edge_def node_ids_def)

lemma MergeEdge_keys: "edge_key ` set (MergeEdge E es e) = insert (edge_key e) (edge_key ` set es)"
  by (simp add: MergeEdge_def merge_into_keys) (simp add: edge_key_def)

lemma MergeEdge_sites: "sites (MergeEdge E es e) k = sites es k \<union> (if edge_key e = k then set (CallSites e) else {})"
  by (simp add: MergeEdge_def merge_into_sites) (simp add: edge_key_def)

lemma step_grows:
  assumes "nodes_ok A st" and "acq_step A st st'"
  shows "nodes_ok A st' \<and> grows st st'"
  using assms(2)
proof (cases rule: acq_step.cases)
  case (admitted i)
  then show ?thesis using nodes_ok_admit [OF assms(1)] by (metis surjective_pairing)
next
  case (merged nid c d rid calls)
  then show ?thesis
    using assms(1) by (auto simp: nodes_ok_def grows_def MergeEdge_keys MergeEdge_sites)
next
  case bookkeeping
  then show ?thesis using assms(1) by (simp add: nodes_ok_def grows_def core_def node_ids_def)
qed (use assms(1) in \<open>simp_all add: nodes_ok_def grows_def node_ids_def log_request_def spend_def attempt_def poll_def\<close>)

lemma steps_grow:
  assumes "nodes_ok A st" and "acq_steps A st st'"
  shows "nodes_ok A st' \<and> grows st st'"
  using assms(2,1)
proof (induction rule: rtranclp_induct)
  case base
  then show ?case by (simp add: acq_grows_refl)
next
  case (step st1 st2)
  then show ?case using step_grows acq_grows_trans by blast
qed

section \<open>Answers\<close>

lemma answered_grows:
  assumes "answered A st d nid rid calls" and "grows st st'"
  shows "answered A st' d nid rid calls"
proof -
  obtain k i where k: "k < length (a_Requests st)" "rid = request_id (Suc k)" "rq_Outcome (a_Requests st ! k) = OutcomeSuccess"
      "rq_Method (a_Requests st ! k) = call_method d" "rq_NodeID (a_Requests st ! k) = nid" "map_of (a_items st) nid = Some i" "reported A d i k = Inr calls"
    using assms(1) unfolding answered_def by blast
  obtain rs where "a_Requests st' = a_Requests st @ rs" using assms(2) by (auto simp: grows_def prefix_def)
  with k(1) have "k < length (a_Requests st')" "a_Requests st' ! k = a_Requests st ! k" by (simp_all add: nth_append)
  moreover have "map_of (a_items st') nid = Some i"
    using assms(2) k(6) unfolding grows_def map_le_def by (metis domI)
  ultimately show ?thesis using k unfolding answered_def by metis
qed

definition call_reported :: "acq_env \<Rightarrow> runner \<Rightarrow> string \<times> string \<Rightarrow> bool" where
  "call_reported A st k \<longleftrightarrow> (\<exists>d nid rid calls c. answered A st d nid rid calls \<and> c \<in> set calls \<and> edge_key (call_edge A d nid c) = k)"

definition site_reported :: "acq_env \<Rightarrow> runner \<Rightarrow> string \<times> string \<Rightarrow> Range \<Rightarrow> bool" where
  "site_reported A st k s \<longleftrightarrow> (\<exists>d nid rid calls c. answered A st d nid rid calls \<and> c \<in> set calls \<and> edge_key (call_edge A d nid c) = k \<and>
     s \<in> set (CallSites (call_edge A d nid c)))"

lemma reported_grows:
  "call_reported A st k \<Longrightarrow> grows st st' \<Longrightarrow> call_reported A st' k" "site_reported A st k s \<Longrightarrow> grows st st' \<Longrightarrow> site_reported A st' k s"
  unfolding call_reported_def site_reported_def using answered_grows by blast+

definition edges_ok :: "acq_env \<Rightarrow> runner \<Rightarrow> bool" where
  "edges_ok A st \<longleftrightarrow> distinct (map edge_key (Edges (a_Graph st))) \<and>
     (\<forall>k \<in> edge_key ` set (Edges (a_Graph st)). fst k \<in> node_ids st \<and> snd k \<in> node_ids st \<and> call_reported A st k) \<and>
     (\<forall>k s. s \<in> sites (Edges (a_Graph st)) k \<longrightarrow> site_reported A st k s)"

lemma edges_ok_frame:
  assumes "edges_ok A st" and "grows st st'" and "Edges (a_Graph st') = Edges (a_Graph st)"
  shows "edges_ok A st'"
  using assms reported_grows [OF _ assms(2)] unfolding edges_ok_def grows_def by auto

lemma edge_key_call [simp]:
  "edge_key (call_edge A d nid c) = (if d = Outgoing then (nid, ID (acq_node A (call_Item c))) else (ID (acq_node A (call_Item c)), nid))"
  by (simp add: edge_key_def call_edge_def)

lemma evidence_step:
  assumes "nodes_ok A st \<and> edges_ok A st" and "acq_step A st st'"
  shows "nodes_ok A st' \<and> edges_ok A st'"
proof -
  note g = step_grows [OF conjunct1 [OF assms(1)] assms(2)]
  have "edges_ok A st'"
    using assms(2)
  proof (cases rule: acq_step.cases)
    case (merged nid c d rid calls)
    note r = reported_grows [OF _ conjunct2 [OF g]] and a = answered_grows [OF merged(4) conjunct2 [OF g]]
    have new: "call_reported A st' (edge_key (call_edge A d nid c))"
      unfolding call_reported_def using a merged(5) by blast
    have "\<forall>s \<in> set (CallSites (call_edge A d nid c)). site_reported A st' (edge_key (call_edge A d nid c)) s"
      unfolding site_reported_def using a merged(5) by blast
    moreover have "distinct (map edge_key (MergeEdge (ae_env A) (Edges (a_Graph st)) (call_edge A d nid c)))"
      using assms(1) by (simp add: MergeEdge_def merge_into_distinct edges_ok_def)
    ultimately show ?thesis
      using assms(1) new merged(2,3) r unfolding edges_ok_def merged(1)
      by (simp add: MergeEdge_keys MergeEdge_sites split: if_splits)
  next
    case (admitted i)
    then show ?thesis
      by (intro edges_ok_frame [OF conjunct2 [OF assms(1)] conjunct2 [OF g]]) (auto simp: admit_def Let_def)
  next
    case bookkeeping
    then show ?thesis
      by (intro edges_ok_frame [OF conjunct2 [OF assms(1)] conjunct2 [OF g]]) (simp add: core_def)
  qed (rule edges_ok_frame [OF conjunct2 [OF assms(1)] conjunct2 [OF g]],
      simp add: log_request_def spend_def attempt_def poll_def)+
  with g show ?thesis by blast
qed

section \<open>Queries\<close>

definition call_kept :: "acq_env \<Rightarrow> runner \<Rightarrow> AcqDirection \<Rightarrow> string \<Rightarrow> AcqCall \<Rightarrow> bool" where
  "call_kept A st d nid c \<longleftrightarrow> ID (acq_node A (call_Item c)) \<in> node_ids st \<and> edge_key (call_edge A d nid c) \<in> edge_key ` set (Edges (a_Graph st)) \<and>
     set (CallSites (call_edge A d nid c)) \<subseteq> sites (Edges (a_Graph st)) (edge_key (call_edge A d nid c))"

text \<open>
  The neighbours of an answer come from its calls, which are kept; when the status is a success they are all of its calls.
\<close>

definition neighbors_ok :: "acq_env \<Rightarrow> runner \<Rightarrow> AcqDirection \<Rightarrow> string \<Rightarrow> AcqCall set \<Rightarrow> neighbor list \<Rightarrow> bool" where
  "neighbors_ok A st d nid calls ns \<longleftrightarrow> (\<forall>n \<in> set ns. \<exists>c \<in> calls. nb_item n = call_Item c \<and> call_kept A st d nid c)"

definition all_neighbors :: "acq_env \<Rightarrow> runner \<Rightarrow> AcqDirection \<Rightarrow> string \<Rightarrow> AcqCall set \<Rightarrow> neighbor list \<Rightarrow> bool" where
  "all_neighbors A st d nid calls ns \<longleftrightarrow> (\<forall>c \<in> calls. call_kept A st d nid c \<and> (\<exists>n \<in> set ns. nb_item n = call_Item c))"

definition success :: "ExpansionStatus \<Rightarrow> bool" where
  "success s \<longleftrightarrow> s = SuccessEmpty \<or> s = SuccessNonempty"

definition query_ok :: "acq_env \<Rightarrow> runner \<Rightarrow> AcqDirection \<Rightarrow> string \<Rightarrow> queryResult \<Rightarrow> bool" where
  "query_ok A st d nid q \<longleftrightarrow> qr_status q \<noteq> ExpansionNotApplicable \<and> (qr_neighbors q = [] \<and> \<not> success (qr_status q) \<or>
     (\<exists>rid calls. answered A st d nid rid calls \<and> neighbors_ok A st d nid (set calls) (qr_neighbors q) \<and>
        (success (qr_status q) \<longrightarrow> all_neighbors A st d nid (set calls) (qr_neighbors q))))"

text \<open>A node is asked for its calls in a direction at most once: the answer is cached.\<close>

definition asks :: "runner \<Rightarrow> AcqDirection \<Rightarrow> string \<Rightarrow> RequestRecord list" where
  "asks st d nid = filter (\<lambda>r. rq_Method r = call_method d \<and> rq_NodeID r = nid) (a_Requests st)"

definition asked_once :: "runner \<Rightarrow> bool" where
  "asked_once st \<longleftrightarrow> (\<forall>d nid. length (asks st d nid) \<le> (if a_queries st (d, nid) = None then 0 else 1))"

definition queries_ok :: "acq_env \<Rightarrow> runner \<Rightarrow> bool" where
  "queries_ok A st \<longleftrightarrow> (\<forall>d nid q. a_queries st (d, nid) = Some q \<longrightarrow> query_ok A st d nid q) \<and> asked_once st"

lemma call_kept_grows: "call_kept A st d nid c \<Longrightarrow> grows st st' \<Longrightarrow> call_kept A st' d nid c"
  unfolding call_kept_def grows_def by (meson subsetD subset_trans)

lemma neighbors_ok_grows:
  "neighbors_ok A st d nid calls ns \<Longrightarrow> grows st st' \<Longrightarrow> neighbors_ok A st' d nid calls ns"
  "all_neighbors A st d nid calls ns \<Longrightarrow> grows st st' \<Longrightarrow> all_neighbors A st' d nid calls ns"
  unfolding neighbors_ok_def all_neighbors_def using call_kept_grows by blast+

lemma query_ok_grows: "query_ok A st d nid q \<Longrightarrow> grows st st' \<Longrightarrow> query_ok A st' d nid q"
  unfolding query_ok_def using answered_grows neighbors_ok_grows by meson

lemma queries_ok_grows:
  assumes "queries_ok A st" and "grows st st'" and "a_queries st' = a_queries st" and "a_Requests st' = a_Requests st"
  shows "queries_ok A st'"
  using assms query_ok_grows [OF _ assms(2)] by (simp add: queries_ok_def asked_once_def asks_def)

lemma call_method_eq [simp]: "call_method d = call_method d' \<longleftrightarrow> d = d'"
  by (cases d; cases d') (simp_all add: call_method_def incomingMethod_def)

lemma asked_onceD: "asked_once st \<Longrightarrow> length (asks st d nid) \<le> (if a_queries st (d, nid) = None then 0 else 1)"
  by (simp only: asked_once_def)

lemma answered_unique:
  assumes "asked_once st" and "answered A st d nid rid calls" and "answered A st d nid rid' calls'"
  shows "calls' = calls"
proof -
  let ?P = "\<lambda>r. rq_Method r = call_method d \<and> rq_NodeID r = nid"
  obtain k i where k: "k < length (a_Requests st)" "?P (a_Requests st ! k)" "map_of (a_items st) nid = Some i" "reported A d i k = Inr calls"
    using assms(2) unfolding answered_def by blast
  obtain k' i' where k': "k' < length (a_Requests st)" "?P (a_Requests st ! k')" "map_of (a_items st) nid = Some i'" "reported A d i' k' = Inr calls'"
    using assms(3) unfolding answered_def by blast
  have "length (asks st d nid) \<le> 1" by (rule le_trans [OF asked_onceD [OF assms(1)]]) simp
  then have "card {j. j < length (a_Requests st) \<and> ?P (a_Requests st ! j)} \<le> Suc 0" by (simp add: asks_def length_filter_conv_card)
  then have "k' = k" using k(1,2) k'(1,2) by (subst (asm) card_le_Suc0_iff_eq) auto
  with k k' show ?thesis by simp
qed

definition same_targets :: "runner \<Rightarrow> runner \<Rightarrow> bool" where
  "same_targets st st' \<longleftrightarrow> a_Targets st' = a_Targets st \<and> a_members st' = a_members st \<and> a_relations st' = a_relations st \<and> a_Complete st' = a_Complete st"

lemma same_targets_trans: "same_targets st1 st2 \<Longrightarrow> same_targets st2 st3 \<Longrightarrow> same_targets st1 st3"
  by (simp add: same_targets_def)

lemma admit_frame: "admit A i st = (ok, st') \<Longrightarrow> same_targets st st' \<and> a_queries st' = a_queries st"
  by (elim admit_cases) (simp_all add: same_targets_def)

lemma add_neighbor_requests: "add_neighbor A d nid rid c (q, st) = (q', st') \<Longrightarrow> a_Requests st' = a_Requests st"
  by (auto simp: add_neighbor_def Let_def admit_def split: if_splits)

lemma add_neighbors_requests: "fold (add_neighbor A d nid rid) cs (q, st) = (q', st') \<Longrightarrow> a_Requests st' = a_Requests st"
proof (induction cs arbitrary: q st)
  case (Cons c cs)
  obtain q1 st1 where one: "add_neighbor A d nid rid c (q, st) = (q1, st1)" by (meson surj_pair)
  with Cons add_neighbor_requests [OF one] show ?case by simp
qed simp

lemma add_neighbor_step:
  assumes n: "nodes_ok A st" "nid \<in> node_ids st" and a: "answered A st d nid rid calls" "c \<in> set calls"
    and s: "add_neighbor A d nid rid c (q, st) = (q', st')"
  shows "acq_steps A st st' \<and> same_targets st st' \<and> a_queries st' = a_queries st \<and> qr_requestID q' = qr_requestID q \<and>
    ((\<exists>reason. q' = q\<lparr>qr_status := Partial, qr_reason := reason\<rparr>) \<or>
     (\<exists>n. q' = q\<lparr>qr_neighbors := qr_neighbors q @ [n]\<rparr> \<and> nb_item n = call_Item c \<and> call_kept A st' d nid c))"
proof (cases "bad_call A c")
  case True
  with s show ?thesis by (auto simp: add_neighbor_def same_targets_def)
next
  case False
  obtain ok st1 where ad: "admit A (call_Item c) st = (ok, st1)" by (meson surj_pair)
  note steps = steps_admit [OF rtranclp.rtrancl_refl ad] and frame = admit_frame [OF ad]
  show ?thesis
  proof (cases ok)
    case False
    with \<open>\<not> bad_call A c\<close> s ad steps frame show ?thesis by (auto simp: add_neighbor_def)
  next
    case True
    note g = conjunct2 [OF steps_grow [OF n(1) steps]]
    let ?one = "hd (MergeEdge (ae_env A) [] (call_edge A d nid c))"
    have q': "q' = q\<lparr>qr_neighbors := qr_neighbors q @ [\<lparr>nb_item = call_Item c, nb_edge = ?one\<rparr>]\<rparr>" "st' = keep_edge A d nid rid c st1"
      using s ad True \<open>\<not> bad_call A c\<close> by (simp_all add: add_neighbor_def Let_def keep_edge_def)
    have new: "ID (acq_node A (call_Item c)) \<in> node_ids st1" using ad True admit_node_ids by simp
    have "nid \<in> node_ids st1" using n(2) g by (auto simp: grows_def)
    then have "acq_step A st1 st'"
      unfolding q'(2) by (rule acq_step.merged [OF _ new answered_grows [OF a(1) g] a(2)])
    then have "acq_steps A st st'" using steps by simp
    moreover have "call_kept A st' d nid c"
      unfolding call_kept_def q'(2) using new by (simp add: MergeEdge_keys MergeEdge_sites del: edge_key_call)
    moreover have "same_targets st1 st'" "a_queries st' = a_queries st1"
      by (simp_all add: q'(2) keep_edge_def same_targets_def)
    ultimately show ?thesis
      using frame q'(1) same_targets_trans by auto
  qed
qed

lemma add_neighbors:
  assumes "nodes_ok A st" and "nid \<in> node_ids st" and "answered A st d nid rid calls" and "set cs \<subseteq> set calls"
    and "fold (add_neighbor A d nid rid) cs (q, st) = (q', st')" and "neighbors_ok A st d nid (set calls) (qr_neighbors q)"
  shows "acq_steps A st st' \<and> same_targets st st' \<and> a_queries st' = a_queries st \<and> qr_requestID q' = qr_requestID q \<and>
    neighbors_ok A st' d nid (set calls) (qr_neighbors q') \<and> set (qr_neighbors q) \<subseteq> set (qr_neighbors q') \<and>
    (qr_status q' = Partial \<or> qr_status q' = qr_status q \<and> all_neighbors A st' d nid (set cs) (qr_neighbors q'))"
  using assms
proof (induction cs arbitrary: q st)
  case Nil
  then show ?case by (auto simp: same_targets_def all_neighbors_def)
next
  case (Cons c cs)
  obtain q1 st1 where one: "add_neighbor A d nid rid c (q, st) = (q1, st1)" by (meson surj_pair)
  have c: "c \<in> set calls" using Cons.prems(4) by simp
  note s = add_neighbor_step [OF Cons.prems(1-3) c one]
  note g = steps_grow [OF Cons.prems(1) conjunct1 [OF s]]
  have nid: "nid \<in> node_ids st1" using Cons.prems(2) g by (auto simp: grows_def)
  have ns: "neighbors_ok A st1 d nid (set calls) (qr_neighbors q1)"
    using s neighbors_ok_grows(1) [OF Cons.prems(6) conjunct2 [OF g]] c unfolding neighbors_ok_def by auto
  have rest: "fold (add_neighbor A d nid rid) cs (q1, st1) = (q', st')" using Cons.prems(5) one by simp
  have cs: "set cs \<subseteq> set calls" using Cons.prems(4) by simp
  note ih = Cons.IH [OF conjunct1 [OF g] nid answered_grows [OF Cons.prems(3) conjunct2 [OF g]] cs rest ns]
  have g2: "grows st1 st'" using steps_grow [OF conjunct1 [OF g]] ih by blast
  show ?case
  proof (cases "qr_status q' = Partial \<or> qr_status q1 = Partial")
    case True
    with s ih show ?thesis by (auto intro: rtranclp_trans same_targets_trans)
  next
    case False
    with s obtain n where n: "q1 = q\<lparr>qr_neighbors := qr_neighbors q @ [n]\<rparr>" "nb_item n = call_Item c" "call_kept A st1 d nid c" by auto
    from n False ih call_kept_grows [OF n(3) g2] have "all_neighbors A st' d nid (set (c # cs)) (qr_neighbors q')"
      by (auto simp: all_neighbors_def)
    with s ih n False show ?thesis by (auto intro: rtranclp_trans same_targets_trans)
  qed
qed

lemma ask_neighbors_ok:
  assumes n: "nodes_ok A st" "nid \<in> node_ids st" and r: "ask_neighbors A target nid d st = (q, st')"
  shows "acq_steps A st st' \<and> same_targets st st' \<and> a_queries st' = a_queries st \<and> query_ok A st' d nid q \<and> (\<exists>rec. a_Requests st' = a_Requests st @ [rec] \<and>
    rq_Method rec = call_method d \<and> rq_NodeID rec = nid)"
proof -
  obtain item where item: "map_of (a_items st) nid = Some item"
    using n by (auto simp: nodes_ok_def node_ids_map)
  obtain v rec st1 where i: "invoke A target (call_method d) nid (en_ItemParams A item) (reported A d item) (en_Calls A d) st = (v, rec, st1)"
    by (metis prod_cases3)
  note s = invoke_steps [OF i] and f = invoke_frame [OF i]
  have frame: "same_targets st st1 \<and> a_queries st1 = a_queries st" using f by (simp add: same_targets_def)
  have rec: "a_Requests st1 = a_Requests st @ [rec]" "rq_Method rec = call_method d" "rq_NodeID rec = nid" using f invoke_record [OF i] by simp_all
  let ?q = "\<lparr>qr_status = query_status (rq_Outcome rec), qr_reason = rq_Reason rec, qr_requestID = rq_ID rec, qr_neighbors = []\<rparr>"
  show ?thesis
  proof (cases v)
    case None
    have "\<not> success (query_status (rq_Outcome rec)) \<and> query_status (rq_Outcome rec) \<noteq> ExpansionNotApplicable"
      using invoke_no_value [OF i [unfolded None]] by (cases "rq_Outcome rec") (simp_all add: query_status_def success_def)
    with r i item None s frame rec show ?thesis by (auto simp: ask_neighbors_def Let_def query_ok_def)
  next
    case (Some calls)
    note val = invoke_value [OF i [unfolded Some]]
    have ans: "answered A st1 d nid (rq_ID rec) calls"
      unfolding answered_def by (intro exI [of _ "length (a_Requests st)"] exI [of _ item]) (use val f item in \<open>simp add: nth_append\<close>)
    let ?cs = "sort_key (\<lambda>c. ID (acq_node A (call_Item c))) calls"
    let ?q1 = "if calls = [] then ?q else ?q\<lparr>qr_status := SuccessNonempty\<rparr>"
    have fold: "fold (add_neighbor A d nid (rq_ID rec)) ?cs (?q1, st1) = (q, st')"
      using r i item Some by (auto simp: ask_neighbors_def Let_def split: if_splits)
    have "nodes_ok A st1" "nid \<in> node_ids st1" using n f by (simp_all add: nodes_ok_def node_ids_def)
    note an = add_neighbors [OF this ans _ fold]
    have q1: "success (qr_status ?q1)" "qr_neighbors ?q1 = []" using val(2) by (simp_all add: query_status_def success_def)
    have "neighbors_ok A st1 d nid (set calls) (qr_neighbors ?q1)" unfolding q1(2) by (simp add: neighbors_ok_def)
    note a = an [OF _ this]
    have a': "acq_steps A st1 st' \<and> same_targets st1 st' \<and> a_queries st' = a_queries st1 \<and> neighbors_ok A st' d nid (set calls) (qr_neighbors q) \<and>
        (qr_status q = Partial \<or> success (qr_status q) \<and> all_neighbors A st' d nid (set calls) (qr_neighbors q))"
      using a q1(1) by auto
    have "grows st1 st'" using steps_grow [OF \<open>nodes_ok A st1\<close>] a' by blast
    note answered_grows [OF ans this]
    then have "query_ok A st' d nid q" using a' unfolding query_ok_def by (auto simp: success_def)
    with a' s frame rec add_neighbors_requests [OF fold] show ?thesis by (auto intro: rtranclp_trans same_targets_trans)
  qed
qed

lemma query_evidence:
  assumes n: "nodes_ok A st" "nid \<in> node_ids st" and k: "queries_ok A st" and r: "query A target nid d st = ((q, cached), st')"
  shows "acq_steps A st st' \<and> same_targets st st' \<and> queries_ok A st' \<and> query_ok A st' d nid q"
proof (cases "a_queries st (d, nid)")
  case (Some q0)
  have st': "st' = st\<lparr>a_polls := Suc (a_polls st)\<rparr>"
    using r Some by (auto simp: query_def split: option.splits)
  have s: "acq_steps A st st'" unfolding st' by (rule steps_core) (simp add: core_def)
  note g = conjunct2 [OF steps_grow [OF n(1) s]]
  have "query_ok A st' d nid q0" using k Some query_ok_grows [OF _ g] by (auto simp: queries_ok_def)
  moreover have "q = q0 \<or> qr_neighbors q = [] \<and> \<not> success (qr_status q) \<and> qr_status q \<noteq> ExpansionNotApplicable"
    using r Some by (auto simp: query_def success_def split: option.splits)
  moreover have "queries_ok A st'" by (rule queries_ok_grows [OF k g]) (simp_all add: st')
  ultimately show ?thesis using s by (auto simp: st' same_targets_def query_ok_def)
next
  case None
  obtain q1 st1 where a: "ask_neighbors A target nid d st = (q1, st1)" by (meson surj_pair)
  note o = ask_neighbors_ok [OF n a]
  have st': "q = q1" "st' = st1\<lparr>a_queries := (a_queries st1)((d, nid) \<mapsto> q1)\<rparr>" using r None a by (auto simp: query_def)
  have s: "acq_steps A st st'" unfolding st' by (rule steps_book [OF conjunct1 [OF o]]) (simp add: core_def)
  have g1: "grows st1 st'" unfolding st' by (simp add: grows_def node_ids_def)
  have g: "grows st st1" using steps_grow [OF n(1)] o by blast
  have "query_ok A st' d' nid' q'" if "a_queries st' (d', nid') = Some q'" for d' nid' q'
  proof (cases "(d', nid') = (d, nid)")
    case True
    with that o query_ok_grows [OF _ g1] show ?thesis by (simp add: st'(2))
  next
    case False
    then have "a_queries st (d', nid') = Some q'" using that o by (auto simp: st'(2))
    then show ?thesis using k query_ok_grows [OF query_ok_grows [OF _ g] g1] by (auto simp: queries_ok_def)
  qed
  moreover obtain rec where rec: "a_Requests st1 = a_Requests st @ [rec]" "rq_Method rec = call_method d" "rq_NodeID rec = nid" using o by blast
  have "length (asks st' d' nid') \<le> (if a_queries st' (d', nid') = None then 0 else 1)" for d' nid'
  proof -
    have "asked_once st" using k by (simp add: queries_ok_def)
    note once = asked_onceD [OF this, of d' nid']
    have "asks st' d' nid' = asks st d' nid' @ (if (d', nid') = (d, nid) then [rec] else [])" using rec by (auto simp: asks_def st'(2))
    with once None o show ?thesis by (auto simp: st'(2) split: if_splits)
  qed
  then have "asked_once st'" unfolding asked_once_def by blast
  ultimately have "queries_ok A st'" by (simp add: queries_ok_def)
  with s o query_ok_grows [OF _ g1] show ?thesis by (auto simp: st' same_targets_def)
qed


end
