(* ===== verification/Coordinator_Walk.thy ===== *)
theory Coordinator_Walk
  imports Coordinator_Evidence
begin

text \<open>
  The round-robin traversal. The walk of a target has a queue and the depths of the nodes it has met; nodes are met along answered
  calls, one layer after the other, and the calls of a node whose expansion is a success are all followed. The traversal ends because
  every visit takes a node from a queue and a node is queued once.
\<close>

definition depth_of :: "walk \<Rightarrow> (string \<times> nat) set" where
  "depth_of w = set (w_depths w)"

text \<open>A call of \<open>x\<close> that the server reported and the graph keeps leads to \<open>y\<close>.\<close>

definition neighbor_call :: "acq_env \<Rightarrow> runner \<Rightarrow> AcqDirection \<Rightarrow> string \<Rightarrow> string \<Rightarrow> bool" where
  "neighbor_call A st d x y \<longleftrightarrow> (\<exists>rid calls c. answered A st d x rid calls \<and> c \<in> set calls \<and> call_kept A st d x c \<and> y = ID (acq_node A (call_Item c)))"

text \<open>An answer for \<open>x\<close> of which every call is kept and leads to a node no deeper than \<open>k\<close>.\<close>

definition closed_answer :: "acq_env \<Rightarrow> runner \<Rightarrow> AcqDirection \<Rightarrow> walk \<Rightarrow> nat \<Rightarrow> string \<Rightarrow> bool" where
  "closed_answer A st d w k x \<longleftrightarrow> (\<exists>rid calls. answered A st d x rid calls \<and>
     (\<forall>c \<in> set calls. call_kept A st d x c \<and> (\<exists>j \<le> k. (ID (acq_node A (call_Item c)), j) \<in> depth_of w)))"

definition walk_shape :: "runner \<Rightarrow> walk \<Rightarrow> bool" where
  "walk_shape st w \<longleftrightarrow> distinct (map fst (w_depths w)) \<and> distinct (map fst (w_queue w)) \<and> set (w_queue w) \<subseteq> depth_of w \<and>
     fst ` depth_of w \<subseteq> node_ids st \<and> (\<forall>x \<in> depth_of w. \<forall>y \<in> set (w_queue w). snd x \<le> Suc (snd y))"

definition walk_sound :: "acq_env \<Rightarrow> AcqDirection \<Rightarrow> runner \<Rightarrow> string set \<Rightarrow> walk \<Rightarrow> bool" where
  "walk_sound A d st starts w \<longleftrightarrow> (\<forall>x \<in> starts. (x, 0) \<in> depth_of w) \<and>
     (\<forall>(x, k) \<in> depth_of w. k = 0 \<and> x \<in> starts \<or> (\<exists>y j. k = Suc j \<and> (y, j) \<in> depth_of w \<and> neighbor_call A st d y x))"

definition walk_expanded :: "acq_env \<Rightarrow> AcqDirection \<Rightarrow> runner \<Rightarrow> DirectionResult \<Rightarrow> walk \<Rightarrow> bool" where
  "walk_expanded A d st r w \<longleftrightarrow>
     fst ` depth_of w = ex_NodeID ` set (dr_Expansions r) \<union> fst ` set (w_queue w) \<and>
     (\<forall>e \<in> set (dr_Expansions r). ex_Status e \<noteq> ExpansionNotApplicable \<and> (ex_NodeID e, ex_Depth e) \<in> depth_of w \<and>
        (success (ex_Status e) \<longrightarrow> closed_answer A st d w (Suc (ex_Depth e)) (ex_NodeID e))) \<and>
     set (dr_FrontierIDs r) \<subseteq> fst ` depth_of w \<and> set (dr_SuccessfulEmptyIDs r) \<subseteq> fst ` depth_of w"

definition walk_ok :: "acq_env \<Rightarrow> AcqDirection \<Rightarrow> runner \<Rightarrow> TargetResult \<Rightarrow> walk \<Rightarrow> bool" where
  "walk_ok A d st t w \<longleftrightarrow> walk_shape st w \<and> walk_sound A d st (set (dr_StartIDs (direction_of d t))) w \<and> walk_expanded A d st (direction_of d t) w"

lemma neighbor_call_grows: "neighbor_call A st d x y \<Longrightarrow> grows st st' \<Longrightarrow> neighbor_call A st' d x y"
  unfolding neighbor_call_def using answered_grows call_kept_grows by blast

lemma closed_answer_grows:
  assumes "closed_answer A st d w k x" and "grows st st'" and "depth_of w \<subseteq> depth_of w'"
  shows "closed_answer A st' d w' k x"
proof -
  obtain rid calls where c: "answered A st d x rid calls" "\<forall>c \<in> set calls. call_kept A st d x c \<and> (\<exists>j \<le> k. (ID (acq_node A (call_Item c)), j) \<in> depth_of w)"
    using assms(1) unfolding closed_answer_def by blast
  then have "\<forall>c \<in> set calls. call_kept A st' d x c \<and> (\<exists>j \<le> k. (ID (acq_node A (call_Item c)), j) \<in> depth_of w')"
    using call_kept_grows [OF _ assms(2)] assms(3) by blast
  with answered_grows [OF c(1) assms(2)] show ?thesis unfolding closed_answer_def by blast
qed

lemma walk_ok_grows:
  assumes "walk_ok A d st t w" and "grows st st'"
  shows "walk_ok A d st' t w"
proof -
  have "walk_shape st' w" using assms by (auto simp: walk_ok_def walk_shape_def grows_def)
  moreover have "walk_sound A d st' (set (dr_StartIDs (direction_of d t))) w"
    using assms(1) neighbor_call_grows [OF _ assms(2)] unfolding walk_ok_def walk_sound_def by fast
  moreover have "walk_expanded A d st' (direction_of d t) w"
    using assms(1) closed_answer_grows [OF _ assms(2) subset_refl] unfolding walk_ok_def walk_expanded_def by blast
  ultimately show ?thesis by (simp add: walk_ok_def)
qed

section \<open>One visit\<close>

definition reach :: "nat \<Rightarrow> string list \<Rightarrow> walk \<Rightarrow> walk" where
  "reach depth new w = w\<lparr>w_depths := w_depths w @ map (\<lambda>x. (x, Suc depth)) new, w_queue := w_queue w @ map (\<lambda>x. (x, Suc depth)) new\<rparr>"

lemma reach_Nil [simp]: "reach depth [] w = w"
  by (simp add: reach_def)

lemma reach_append: "reach depth ys (reach depth xs w) = reach depth (xs @ ys) w"
  by (simp add: reach_def)

lemma update_new: "map_of m k = None \<Longrightarrow> AList.update k v m = m @ [(k, v)]"
  by (induction m) (auto split: if_splits)

lemma reach_all_reach:
  "reach_all A i nid depth ns (w, st) = (w', st') \<Longrightarrow>
     core st' = core st \<and> a_Targets st' = a_Targets st \<and> a_queries st' = a_queries st \<and> a_Complete st' = a_Complete st \<and>
     length (a_members st') = length (a_members st) \<and> length (a_relations st') = length (a_relations st) \<and>
     (\<exists>new. w' = reach depth new w \<and> distinct new \<and> set new = (\<lambda>n. ID (acq_node A (nb_item n))) ` set ns - fst ` depth_of w)"
proof (induction ns arbitrary: w st)
  case Nil
  then show ?case by (auto intro!: exI [of _ "[]"])
next
  case (Cons n ns)
  let ?next = "ID (acq_node A (nb_item n))"
  let ?st = "st\<lparr>a_members := (a_members st)[i := insert nid (insert ?next (a_members st ! i))],
                   a_relations := (a_relations st)[i := insert (ERelationID (nb_edge n)) (a_relations st ! i)]\<rparr>"
  let ?xs = "if map_of (w_depths w) ?next = None then [?next] else []"
  have dom: "map_of (w_depths w) ?next = None \<longleftrightarrow> ?next \<notin> fst ` depth_of w" by (simp add: depth_of_def map_of_eq_None_iff)
  have "reach_all A i nid depth ns (reach depth ?xs w, ?st) = (w', st')"
    using Cons.prems by (auto simp: Let_def reach_def update_new split: if_splits)
  from Cons.IH [OF this] obtain new where ih: "core st' = core ?st" "a_Targets st' = a_Targets st" "a_queries st' = a_queries st" "a_Complete st' = a_Complete st"
      "length (a_members st') = length (a_members st)" "length (a_relations st') = length (a_relations st)"
      "w' = reach depth new (reach depth ?xs w)" "distinct new"
      "set new = (\<lambda>n. ID (acq_node A (nb_item n))) ` set ns - fst ` depth_of (reach depth ?xs w)"
    by auto
  have "fst ` depth_of (reach depth ?xs w) = fst ` depth_of w \<union> set ?xs"
    by (auto simp: depth_of_def reach_def image_Un image_image)
  then have "distinct (?xs @ new)" "set (?xs @ new) = (\<lambda>n. ID (acq_node A (nb_item n))) ` set (n # ns) - fst ` depth_of w"
    using ih(8,9) dom by (auto split: if_splits)
  with ih show ?case
    by (intro conjI exI [of _ "?xs @ new"]) (simp_all add: core_def reach_append)
qed

lemma note_expansion_core [simp]: "core (note_expansion d i f st) = core st"
  by (simp add: note_expansion_def core_def)

lemma depth_of_reach [simp]: "depth_of (reach k new w) = depth_of w \<union> (\<lambda>x. (x, Suc k)) ` set new"
  by (auto simp: depth_of_def reach_def)

lemma depth_of_queue [simp]: "depth_of (w\<lparr>w_queue := q\<rparr>) = depth_of w"
  by (simp add: depth_of_def)

lemma queue_least:
  assumes "sort_key queue_order q = (nid, k) # rest"
  shows "(nid, k) \<in> set q" "set rest \<subseteq> set q" "\<forall>y \<in> set q. k \<le> snd y" "mset q = add_mset (nid, k) (mset rest)"
proof -
  have m: "mset q = mset ((nid, k) # rest)" using assms by (metis mset_sort)
  then show "mset q = add_mset (nid, k) (mset rest)" by simp
  from m have s: "set q = insert (nid, k) (set rest)" by (metis list.set(2) mset_eq_setD)
  then show "(nid, k) \<in> set q" "set rest \<subseteq> set q" by auto
  have "sorted (map queue_order ((nid, k) # rest))" by (metis assms sorted_sort_key)
  then have "\<forall>y \<in> set rest. k \<le> snd y" by (auto simp: queue_order_def less_eq_prod_def)
  with s show "\<forall>y \<in> set q. k \<le> snd y" by auto
qed

lemma mset_fst_distinct:
  assumes "mset q = add_mset (nid, k) (mset rest)" and "distinct (map fst q)"
  shows "distinct (map fst rest)" "nid \<notin> fst ` set rest" "length q = Suc (length rest)"
proof -
  have "mset (map fst q) = mset (map fst ((nid, k) # rest))" using assms(1) by simp
  from mset_eq_imp_distinct_iff [OF this] assms(2) show "distinct (map fst rest)" "nid \<notin> fst ` set rest" by auto
  show "length q = Suc (length rest)" using assms(1) by (metis size_add_mset size_mset)
qed

text \<open>The node that is taken from the queue and the nodes its answer adds.\<close>

lemma walk_shape_visit:
  assumes w: "walk_shape st w" and q: "sort_key queue_order (w_queue w) = (nid, k) # rest" and g: "grows st st'"
    and new: "distinct new" "set new \<inter> fst ` depth_of w = {}" "set new \<subseteq> node_ids st'"
  shows "walk_shape st' (reach k new (w\<lparr>w_queue := rest\<rparr>))"
proof -
  note l = queue_least [OF q]
  have dq: "distinct (map fst (w_queue w))" and sub: "set (w_queue w) \<subseteq> depth_of w" using w by (simp_all add: walk_shape_def)
  note m = mset_fst_distinct [OF l(4) dq]
  have disjoint: "fst ` set rest \<inter> set new = {}" using l(2) sub new(2) by blast
  have deep: "snd x \<le> Suc k" if "x \<in> depth_of w" for x using w l(1) that by (fastforce simp: walk_shape_def)
  have d: "depth_of (reach k new (w\<lparr>w_queue := rest\<rparr>)) = depth_of w \<union> (\<lambda>x. (x, Suc k)) ` set new" by simp
  have queue: "w_queue (reach k new (w\<lparr>w_queue := rest\<rparr>)) = rest @ map (\<lambda>x. (x, Suc k)) new" by (simp add: reach_def)
  show ?thesis
    unfolding walk_shape_def d queue
  proof (intro conjI)
    show "distinct (map fst (w_depths (reach k new (w\<lparr>w_queue := rest\<rparr>))))"
      using w new(1,2) by (auto simp: reach_def walk_shape_def depth_of_def comp_def)
    show "distinct (map fst (rest @ map (\<lambda>x. (x, Suc k)) new))" using m(1) new(1) disjoint by (simp add: comp_def)
    show "set (rest @ map (\<lambda>x. (x, Suc k)) new) \<subseteq> depth_of w \<union> (\<lambda>x. (x, Suc k)) ` set new" using l(2) sub by auto
    show "fst ` (depth_of w \<union> (\<lambda>x. (x, Suc k)) ` set new) \<subseteq> node_ids st'"
      using w g new(3) by (auto simp: walk_shape_def grows_def image_Un image_image)
    show "\<forall>x \<in> depth_of w \<union> (\<lambda>x. (x, Suc k)) ` set new. \<forall>y \<in> set (rest @ map (\<lambda>x. (x, Suc k)) new). snd x \<le> Suc (snd y)"
      using w l(2,3) deep by (fastforce simp: walk_shape_def)
  qed
qed

lemma walk_sound_visit:
  assumes "walk_sound A d st starts w" and "grows st st'" and "(nid, k) \<in> depth_of w" and "\<forall>x \<in> set new. neighbor_call A st' d nid x"
  shows "walk_sound A d st' starts (reach k new (w\<lparr>w_queue := rest\<rparr>))"
proof -
  have d: "depth_of (reach k new (w\<lparr>w_queue := rest\<rparr>)) = depth_of w \<union> (\<lambda>x. (x, Suc k)) ` set new" by simp
  have old: "\<forall>(x, k) \<in> depth_of w. k = 0 \<and> x \<in> starts \<or> (\<exists>y j. k = Suc j \<and> (y, j) \<in> depth_of w \<and> neighbor_call A st' d y x)"
    using assms(1) neighbor_call_grows [OF _ assms(2)] unfolding walk_sound_def by fast
  show ?thesis
    unfolding walk_sound_def d
  proof (intro conjI ballI)
    show "\<And>x. x \<in> starts \<Longrightarrow> (x, 0) \<in> depth_of w \<union> (\<lambda>x. (x, Suc k)) ` set new" using assms(1) by (simp add: walk_sound_def)
    fix x
    assume "x \<in> depth_of w \<union> (\<lambda>x. (x, Suc k)) ` set new"
    then show "case x of (x, k') \<Rightarrow> k' = 0 \<and> x \<in> starts \<or> (\<exists>y j. k' = Suc j \<and> (y, j) \<in> depth_of w \<union> (\<lambda>x. (x, Suc k)) ` set new \<and> neighbor_call A st' d y x)"
    proof
      assume "x \<in> depth_of w"
      then show ?thesis using old by fastforce
    next
      assume "x \<in> (\<lambda>x. (x, Suc k)) ` set new"
      then show ?thesis using assms(3,4) by auto
    qed
  qed
qed

lemma walk_expanded_visit:
  assumes w: "walk_expanded A d st r w" and g: "grows st st'" and q: "sort_key queue_order (w_queue w) = (nid, k) # rest"
    and e: "ex_NodeID e = nid" "ex_Depth e = k" "(nid, k) \<in> depth_of w" "ex_Status e \<noteq> ExpansionNotApplicable"
    and c: "success (ex_Status e) \<longrightarrow> closed_answer A st' d (reach k new (w\<lparr>w_queue := rest\<rparr>)) (Suc k) nid"
    and r': "dr_Expansions r' = dr_Expansions r @ [e]" "set (dr_FrontierIDs r') \<subseteq> insert nid (set (dr_FrontierIDs r))"
      "set (dr_SuccessfulEmptyIDs r') \<subseteq> insert nid (set (dr_SuccessfulEmptyIDs r))"
  shows "walk_expanded A d st' r' (reach k new (w\<lparr>w_queue := rest\<rparr>))"
proof -
  let ?w = "reach k new (w\<lparr>w_queue := rest\<rparr>)"
  have d: "depth_of ?w = depth_of w \<union> (\<lambda>x. (x, Suc k)) ` set new" by simp
  have queue: "set (w_queue ?w) = set rest \<union> (\<lambda>x. (x, Suc k)) ` set new" by (auto simp: reach_def)
  have sq: "set (w_queue w) = insert (nid, k) (set rest)" using queue_least(4) [OF q] by (metis mset_eq_setD set_mset_add_mset_insert set_mset_mset)
  have keys: "fst ` depth_of ?w = ex_NodeID ` set (dr_Expansions r') \<union> fst ` set (w_queue ?w)"
    using w unfolding walk_expanded_def d queue r'(1) sq by (auto simp: e image_Un image_image)
  have old: "\<forall>x \<in> set (dr_Expansions r). ex_Status x \<noteq> ExpansionNotApplicable \<and> (ex_NodeID x, ex_Depth x) \<in> depth_of ?w \<and>
      (success (ex_Status x) \<longrightarrow> closed_answer A st' d ?w (Suc (ex_Depth x)) (ex_NodeID x))"
    using w closed_answer_grows [OF _ g, of A d w _ _ ?w] unfolding walk_expanded_def d by blast
  have new: "ex_Status e \<noteq> ExpansionNotApplicable \<and> (ex_NodeID e, ex_Depth e) \<in> depth_of ?w \<and> (success (ex_Status e) \<longrightarrow> closed_answer A st' d ?w (Suc (ex_Depth e)) (ex_NodeID e))"
    using c e unfolding d by simp
  have "nid \<in> fst ` depth_of ?w" "fst ` depth_of w \<subseteq> fst ` depth_of ?w" using e(3) unfolding d by (force, blast)
  then have ids: "set (dr_FrontierIDs r') \<subseteq> fst ` depth_of ?w" "set (dr_SuccessfulEmptyIDs r') \<subseteq> fst ` depth_of ?w"
    using w r'(2,3) unfolding walk_expanded_def by blast+
  have "\<forall>x \<in> set (dr_Expansions r'). ex_Status x \<noteq> ExpansionNotApplicable \<and> (ex_NodeID x, ex_Depth x) \<in> depth_of ?w \<and>
      (success (ex_Status x) \<longrightarrow> closed_answer A st' d ?w (Suc (ex_Depth x)) (ex_NodeID x))"
    unfolding r'(1) set_append list.set using old new by blast
  with keys ids show ?thesis unfolding walk_expanded_def by (intro conjI)
qed

definition acq_start :: "runner \<Rightarrow> bool" where
  "acq_start st \<longleftrightarrow> (\<exists>r. limits_ok (r_Limits r) \<and> st = start_runner r)"

definition evidence_ok :: "acq_env \<Rightarrow> runner \<Rightarrow> bool" where
  "evidence_ok A st \<longleftrightarrow> ledger st \<and> nodes_ok A st \<and> edges_ok A st"

lemma evidence_start: "acq_start st \<Longrightarrow> evidence_ok A st"
  by (auto simp: acq_start_def evidence_ok_def start_runner_def ledger_def limits_ok_def within_limits_def totals_def records_ok_def MaxPrepareProbes_def
      nodes_ok_def edges_ok_def zero_graph_def emptyResult_def sites_def)

interpretation acquisition: invariant_system acq_start "acq_step A" "evidence_ok A" for A
proof
  show "\<And>st. acq_start st \<Longrightarrow> evidence_ok A st" by (rule evidence_start)
  show "\<And>st st'. evidence_ok A st \<Longrightarrow> acq_step A st st' \<Longrightarrow> evidence_ok A st'"
    unfolding evidence_ok_def using ledger_step evidence_step by blast
qed

definition run_ok :: "acq_env \<Rightarrow> runner \<Rightarrow> bool" where
  "run_ok A st \<longleftrightarrow> evidence_ok A st \<and> queries_ok A st"

lemma run_ok_nodes: "run_ok A st \<Longrightarrow> nodes_ok A st" and run_ok_queries: "run_ok A st \<Longrightarrow> queries_ok A st"
  by (simp_all add: run_ok_def evidence_ok_def)

lemma run_ok_steps: "run_ok A st \<Longrightarrow> acq_steps A st st' \<Longrightarrow> queries_ok A st' \<Longrightarrow> run_ok A st'"
  unfolding run_ok_def using acquisition.star_inv by blast

definition visited :: "AcqDirection \<Rightarrow> nat \<Rightarrow> runner \<Rightarrow> runner \<Rightarrow> bool" where
  "visited d i st st' \<longleftrightarrow> (\<exists>r. a_Targets st' = (a_Targets st)[i := set_direction d r (a_Targets st ! i)] \<and>
     dr_StartIDs r = dr_StartIDs (direction_of d (a_Targets st ! i)) \<and> dr_Layers r = dr_Layers (direction_of d (a_Targets st ! i)) \<and>
     dr_Status r = dr_Status (direction_of d (a_Targets st ! i))) \<and>
     length (a_members st') = length (a_members st) \<and> length (a_relations st') = length (a_relations st) \<and> a_Complete st' = a_Complete st"

lemma direction_set [simp]: "direction_of d (set_direction d r t) = r"
  by (simp add: direction_of_def set_direction_def)

lemma visit_ok:
  assumes ok: "run_ok A st" and i: "i < length (a_Targets st)" and w: "walk_ok A d st (a_Targets st ! i) w" and q: "w_queue w \<noteq> []"
    and v: "visit A d i (w, st) = (w', st')"
  shows "acq_steps A st st' \<and> queries_ok A st' \<and> visited d i st st' \<and> walk_ok A d st' (a_Targets st' ! i) w' \<and>
    length (w_queue w') + length (w_depths w) < length (w_queue w) + length (w_depths w')"
proof -
  let ?t = "a_Targets st ! i"
  let ?r = "direction_of d ?t"
  have "sort_key queue_order (w_queue w) \<noteq> []" using q by (metis length_0_conv length_sort)
  then obtain nid k rest where so: "sort_key queue_order (w_queue w) = (nid, k) # rest" by (metis list.exhaust surj_pair)
  note l = queue_least [OF so]
  have shape: "walk_shape st w" and sound: "walk_sound A d st (set (dr_StartIDs ?r)) w" and ex: "walk_expanded A d st ?r w"
    using w by (simp_all add: walk_ok_def)
  have nk: "(nid, k) \<in> depth_of w" using l(1) shape by (auto simp: walk_shape_def)
  then have nid: "nid \<in> node_ids st" using shape by (auto simp: walk_shape_def)
  have len: "length (w_queue w) = Suc (length rest)" using mset_fst_distinct [OF l(4)] shape by (simp add: walk_shape_def)
  show ?thesis
  proof (cases "int k \<ge> depth_limit d ?t")
    case True
    let ?e = "\<lparr>ex_NodeID = nid, ex_Depth = k, ex_Status = FrontierStatus, ex_RequestID = '''', ex_Cached = False, ex_Reason = ''''\<rparr>"
    let ?r' = "?r\<lparr>dr_FrontierIDs := dr_FrontierIDs ?r @ [nid], dr_Expansions := dr_Expansions ?r @ [?e]\<rparr>"
    have w': "w' = reach k [] (w\<lparr>w_queue := rest\<rparr>)" "st' = st\<lparr>a_Targets := (a_Targets st)[i := set_direction d ?r' ?t]\<rparr>"
      using v so True by (auto simp: visit_def Let_def note_expansion_def)
    have s: "acq_steps A st st'" by (rule steps_core) (simp add: w'(2) core_def)
    note g = conjunct2 [OF steps_grow [OF _ s]]
    have g: "grows st st'" using g run_ok_nodes [OF ok] by blast
    have "walk_shape st' w'" unfolding w'(1) by (rule walk_shape_visit [OF shape so g]) simp_all
    moreover have "walk_sound A d st' (set (dr_StartIDs ?r)) w'" unfolding w'(1) by (rule walk_sound_visit [OF sound g nk]) simp
    moreover have "walk_expanded A d st' ?r' w'"
      unfolding w'(1) by (rule walk_expanded_visit [OF ex g so, of ?e]) (use nk in \<open>auto simp: success_def\<close>)
    moreover have "queries_ok A st'" by (rule queries_ok_grows [OF _ g]) (use run_ok_queries [OF ok] in \<open>simp_all add: w'(2)\<close>)
    ultimately show ?thesis
      using s i len by (auto simp: walk_ok_def w' visited_def intro!: exI [of _ ?r'])
  next
    case False
    obtain qr cached st1 where qu: "query A (at_ID (tr_Requested ?t)) nid d st = ((qr, cached), st1)" by (metis surj_pair)
    obtain w2 st2 where re: "reach_all A i nid k (qr_neighbors qr) (w\<lparr>w_queue := rest\<rparr>, st1) = (w2, st2)" by (meson surj_pair)
    let ?e = "\<lparr>ex_NodeID = nid, ex_Depth = k, ex_Status = qr_status qr, ex_RequestID = qr_requestID qr, ex_Cached = cached, ex_Reason = qr_reason qr\<rparr>"
    let ?r' = "?r\<lparr>dr_SuccessfulEmptyIDs := dr_SuccessfulEmptyIDs ?r @ (if qr_status qr = SuccessEmpty then [nid] else []), dr_Expansions := dr_Expansions ?r @ [?e]\<rparr>"
    have ev: "acq_steps A st st1 \<and> same_targets st st1 \<and> queries_ok A st1 \<and> query_ok A st1 d nid qr"
      by (rule query_evidence [OF run_ok_nodes [OF ok] nid run_ok_queries [OF ok] qu])
    note rr = reach_all_reach [OF re]
    then obtain new where new: "w2 = reach k new (w\<lparr>w_queue := rest\<rparr>)" "distinct new"
        "set new = (\<lambda>n. ID (acq_node A (nb_item n))) ` set (qr_neighbors qr) - fst ` depth_of w"
      by auto
    have w': "w' = w2" "st' = st2\<lparr>a_Targets := (a_Targets st)[i := set_direction d ?r' ?t]\<rparr>"
      using v so False qu re rr ev by (auto simp: visit_def Let_def note_expansion_def same_targets_def)
    have s1: "acq_steps A st1 st'" by (rule steps_core) (use rr in \<open>simp add: w'(2) core_def\<close>)
    have s: "acq_steps A st st'" using ev s1 by (meson rtranclp_trans)
    have n1: "nodes_ok A st1" using steps_grow [OF run_ok_nodes [OF ok]] ev by blast
    have g1: "grows st1 st'" using steps_grow [OF n1 s1] by blast
    have g: "grows st st'" using steps_grow [OF run_ok_nodes [OF ok] s] by blast
    have qok: "query_ok A st' d nid qr" using ev query_ok_grows [OF _ g1] by blast
    have nbr: "neighbor_call A st' d nid x \<and> x \<in> node_ids st'" if x: "x \<in> set new" for x
    proof -
      obtain n where n: "n \<in> set (qr_neighbors qr)" "x = ID (acq_node A (nb_item n))" using x new(3) by auto
      then obtain rid calls where a: "answered A st' d nid rid calls" "neighbors_ok A st' d nid (set calls) (qr_neighbors qr)"
        using qok unfolding query_ok_def by fastforce
      then obtain c where c: "c \<in> set calls" "nb_item n = call_Item c" "call_kept A st' d nid c" using n(1) unfolding neighbors_ok_def by blast
      have x': "x = ID (acq_node A (call_Item c))" using n(2) c(2) by simp
      have "neighbor_call A st' d nid x" unfolding neighbor_call_def using a(1) c(1,3) x' by blast
      moreover have "x \<in> node_ids st'" using c(3) unfolding x' call_kept_def by (rule conjunct1)
      ultimately show ?thesis ..
    qed
    have closed: "closed_answer A st' d w2 (Suc k) nid" if su: "success (qr_status qr)"
    proof -
      obtain rid calls where a: "answered A st' d nid rid calls" "all_neighbors A st' d nid (set calls) (qr_neighbors qr)"
        using qok su unfolding query_ok_def by blast
      have "\<exists>j \<le> Suc k. (ID (acq_node A (call_Item c)), j) \<in> depth_of w2" if c: "c \<in> set calls" for c
      proof -
        obtain n where n: "n \<in> set (qr_neighbors qr)" "nb_item n = call_Item c" using a(2) c unfolding all_neighbors_def by blast
        show ?thesis
        proof (cases "ID (acq_node A (call_Item c)) \<in> fst ` depth_of w")
          case True
          then obtain j where j: "(ID (acq_node A (call_Item c)), j) \<in> depth_of w" by force
          then have "j \<le> Suc k" using shape l(1) by (fastforce simp: walk_shape_def)
          with j show ?thesis by (auto simp: new(1))
        next
          case False
          then have "ID (acq_node A (call_Item c)) \<in> set new" using n new(3) by force
          then show ?thesis by (auto simp: new(1))
        qed
      qed
      with a show ?thesis unfolding closed_answer_def all_neighbors_def by blast
    qed
    have "walk_shape st' w'" unfolding w'(1) new(1) by (rule walk_shape_visit [OF shape so g new(2)]) (use new(3) nbr in auto)
    moreover have "walk_sound A d st' (set (dr_StartIDs ?r)) w'" unfolding w'(1) new(1) by (rule walk_sound_visit [OF sound g nk]) (use nbr in blast)
    moreover have "walk_expanded A d st' ?r' w'"
      unfolding w'(1) new(1) by (rule walk_expanded_visit [OF ex g so, of ?e]) (use nk closed new(1) qok in \<open>auto simp: query_ok_def\<close>)
    moreover have "queries_ok A st'" by (rule queries_ok_grows [OF _ g1]) (use ev rr in \<open>simp_all add: w'(2) core_def\<close>)
    moreover have "length (w_queue w') + length (w_depths w) < length (w_queue w) + length (w_depths w')"
      by (simp add: w'(1) new(1) reach_def len)
    moreover have "visited d i st st'"
      unfolding visited_def using ev rr by (auto simp: w'(2) same_targets_def intro!: exI [of _ ?r'])
    ultimately show ?thesis
      using s i by (simp add: walk_ok_def w'(2))
  qed
qed


end
