(* ===== verification/Coordinator_Rounds.thy ===== *)
theory Coordinator_Rounds
  imports Coordinator_Walk
begin

text \<open>
  The rounds of the traversal end, and what a walk keeps it still has at the end.
\<close>

section \<open>Rounds\<close>

text \<open>The targets of the later state differ from those before only in what the direction has gathered.\<close>

definition turned :: "AcqDirection \<Rightarrow> runner \<Rightarrow> runner \<Rightarrow> bool" where
  "turned d st st' \<longleftrightarrow> length (a_Targets st') = length (a_Targets st) \<and>
     (\<forall>i < length (a_Targets st). \<exists>r. a_Targets st' ! i = set_direction d r (a_Targets st ! i) \<and>
        dr_StartIDs r = dr_StartIDs (direction_of d (a_Targets st ! i)) \<and> dr_Status r = dr_Status (direction_of d (a_Targets st ! i))) \<and>
     length (a_members st') = length (a_members st) \<and> length (a_relations st') = length (a_relations st) \<and> a_Complete st' = a_Complete st"

lemma set_direction_set [simp]: "set_direction d r (set_direction d r' t) = set_direction d r t"
  by (simp add: set_direction_def)

lemma set_direction_self [simp]: "set_direction d (direction_of d t) t = t"
  by (simp add: set_direction_def direction_of_def)

lemma turned_refl: "turned d st st"
  unfolding turned_def by (auto intro!: exI [of _ "direction_of d (a_Targets st ! _)"])

lemma turned_trans:
  assumes "turned d st1 st2" and "turned d st2 st3"
  shows "turned d st1 st3"
proof -
  have "\<exists>r. a_Targets st3 ! i = set_direction d r (a_Targets st1 ! i) \<and> dr_StartIDs r = dr_StartIDs (direction_of d (a_Targets st1 ! i)) \<and>
      dr_Status r = dr_Status (direction_of d (a_Targets st1 ! i))" if i: "i < length (a_Targets st1)" for i
  proof -
    obtain r where r: "a_Targets st2 ! i = set_direction d r (a_Targets st1 ! i)" "dr_StartIDs r = dr_StartIDs (direction_of d (a_Targets st1 ! i))"
        "dr_Status r = dr_Status (direction_of d (a_Targets st1 ! i))"
      using assms(1) i unfolding turned_def by blast
    moreover obtain s where "a_Targets st3 ! i = set_direction d s (a_Targets st2 ! i)" "dr_StartIDs s = dr_StartIDs (direction_of d (a_Targets st2 ! i))"
        "dr_Status s = dr_Status (direction_of d (a_Targets st2 ! i))"
      using assms i unfolding turned_def by metis
    ultimately show ?thesis by auto
  qed
  with assms show ?thesis by (simp add: turned_def)
qed

lemma visited_turned: "visited d i st st' \<Longrightarrow> turned d st st'"
proof -
  let ?t = "a_Targets st ! i"
  assume "visited d i st st'"
  then obtain r where r: "a_Targets st' = (a_Targets st)[i := set_direction d r ?t]" "dr_StartIDs r = dr_StartIDs (direction_of d ?t)"
      "dr_Status r = dr_Status (direction_of d ?t)"
      "length (a_members st') = length (a_members st)" "length (a_relations st') = length (a_relations st)" "a_Complete st' = a_Complete st"
    unfolding visited_def by blast
  have "\<exists>r. a_Targets st' ! j = set_direction d r (a_Targets st ! j) \<and> dr_StartIDs r = dr_StartIDs (direction_of d (a_Targets st ! j)) \<and>
      dr_Status r = dr_Status (direction_of d (a_Targets st ! j))" if "j < length (a_Targets st)" for j
    using that r(2,3) unfolding r(1)
    by (intro exI [of _ "if j = i then r else direction_of d (a_Targets st ! j)"]) auto
  with r show "turned d st st'" by (simp add: turned_def)
qed

lemma visited_other: "visited d i st st' \<Longrightarrow> j \<noteq> i \<Longrightarrow> a_Targets st' ! j = a_Targets st ! j"
  unfolding visited_def by auto

text \<open>The walks \<open>ws\<close> are those of the targets from \<open>i\<close> on.\<close>

definition walks_ok :: "acq_env \<Rightarrow> AcqDirection \<Rightarrow> runner \<Rightarrow> nat \<Rightarrow> walk list \<Rightarrow> bool" where
  "walks_ok A d st i ws \<longleftrightarrow> (\<forall>j < length ws. walk_ok A d st (a_Targets st ! (i + j)) (ws ! j))"

lemma walks_ok_Cons: "walks_ok A d st i (w # ws) \<longleftrightarrow> walk_ok A d st (a_Targets st ! i) w \<and> walks_ok A d st (Suc i) ws"
  by (auto simp: walks_ok_def less_Suc_eq_0_disj)

lemma walks_ok_frame:
  assumes "walks_ok A d st i ws" and "grows st st'" and "\<forall>j < length ws. a_Targets st' ! (i + j) = a_Targets st ! (i + j)"
  shows "walks_ok A d st' i ws"
  using assms(1,3) walk_ok_grows [OF _ assms(2)] by (simp add: walks_ok_def)

definition slack :: "walk \<Rightarrow> int" where
  "slack w = int (length (w_queue w)) - int (length (w_depths w))"

definition waiting :: "walk list \<Rightarrow> bool" where
  "waiting ws \<longleftrightarrow> (\<exists>w \<in> set ws. w_queue w \<noteq> [])"

lemma visit_round_ok:
  assumes "run_ok A st" and "i + length ws = length (a_Targets st)" and "walks_ok A d st i ws" and "visit_round A d i ws st = (ws', st')"
  shows "run_ok A st' \<and> acq_steps A st st' \<and> turned d st st' \<and> (\<forall>j < i. a_Targets st' ! j = a_Targets st ! j) \<and>
    length ws' = length ws \<and> walks_ok A d st' i ws' \<and>
    sum_list (map slack ws') \<le> sum_list (map slack ws) \<and> (waiting ws \<longrightarrow> sum_list (map slack ws') < sum_list (map slack ws))"
  using assms
proof (induction ws arbitrary: i st ws' st')
  case Nil
  then show ?case by (simp add: turned_refl waiting_def)
next
  case (Cons w ws)
  let ?one = "if w_queue w = [] then (w, st) else visit A d i (w, st)"
  obtain w1 st1 where one: "?one = (w1, st1)" by (metis surj_pair)
  have i: "i < length (a_Targets st)" using Cons.prems(2) by simp
  have w: "walk_ok A d st (a_Targets st ! i) w" and ws: "walks_ok A d st (Suc i) ws" using Cons.prems(3) by (simp_all add: walks_ok_Cons)
  have v: "acq_steps A st st1 \<and> run_ok A st1 \<and> turned d st st1 \<and> (\<forall>j. j \<noteq> i \<longrightarrow> a_Targets st1 ! j = a_Targets st ! j) \<and>
      walk_ok A d st1 (a_Targets st1 ! i) w1 \<and> slack w1 \<le> slack w \<and> (w_queue w \<noteq> [] \<longrightarrow> slack w1 < slack w)"
  proof (cases "w_queue w = []")
    case True
    with one w Cons.prems(1) show ?thesis by (simp add: turned_refl)
  next
    case False
    with one have "visit A d i (w, st) = (w1, st1)" by simp
    note o = visit_ok [OF Cons.prems(1) i w False this]
    then have "run_ok A st1" using run_ok_steps [OF Cons.prems(1)] by blast
    with o show ?thesis using visited_turned visited_other by (auto simp: slack_def)
  qed
  obtain ws1 st2 where rest: "visit_round A d (Suc i) ws st1 = (ws1, st2)" by (metis surj_pair)
  have r: "ws' = w1 # ws1" "st' = st2" using Cons.prems(4) one rest by auto
  have l: "Suc i + length ws = length (a_Targets st1)" using Cons.prems(2) v by (simp add: turned_def)
  have g1: "grows st st1" using steps_grow [OF run_ok_nodes [OF Cons.prems(1)]] v by blast
  have "walks_ok A d st1 (Suc i) ws" by (rule walks_ok_frame [OF ws g1]) (use v in simp)
  note ih = Cons.IH [OF _ l this rest]
  have run: "run_ok A st1" using v by blast
  have g2: "grows st1 st2" using steps_grow [OF run_ok_nodes [OF run]] ih [OF run] by blast
  have "walk_ok A d st2 (a_Targets st2 ! i) w1" using v ih [OF run] walk_ok_grows [OF _ g2] by simp
  moreover have "turned d st st2" using v ih [OF run] turned_trans by blast
  moreover have "acq_steps A st st2" using v ih [OF run] by (meson rtranclp_trans)
  ultimately show ?case
    unfolding r using v ih [OF run] by (auto simp: walks_ok_Cons waiting_def)
qed

lemma depths_bounded:
  assumes "run_ok A st" and "walk_ok A d st t w"
  shows "int (length (w_depths w)) \<le> MaxNodesL (r_Limits (a_Request st))"
proof -
  have "distinct (map fst (w_depths w))" "fst ` set (w_depths w) \<subseteq> fst ` set (a_nodes st)"
    using assms(2) by (auto simp: walk_ok_def walk_shape_def depth_of_def node_ids_def)
  then have "length (w_depths w) \<le> length (a_nodes st)"
    by (metis card_length card_mono distinct_card finite_imageI finite_set image_set le_trans length_map)
  then show ?thesis using assms(1) by (simp add: run_ok_def evidence_ok_def ledger_def within_limits_def)
qed

lemma slack_bounded:
  assumes "run_ok A st" and "walks_ok A d st i ws"
  shows "- MaxNodesL (r_Limits (a_Request st)) * int (length ws) \<le> sum_list (map slack ws)"
proof -
  have "\<forall>w \<in> set ws. - MaxNodesL (r_Limits (a_Request st)) \<le> slack w"
    using depths_bounded [OF assms(1)] assms(2) by (fastforce simp: walks_ok_def slack_def in_set_conv_nth)
  then have "(\<Sum>w\<leftarrow>ws. - MaxNodesL (r_Limits (a_Request st))) \<le> sum_list (map slack ws)" by (intro sum_list_mono) auto
  then show ?thesis by (simp add: sum_list_triv mult.commute)
qed

lemma visit_rounds_ok:
  assumes "run_ok A st" and "length ws = length (a_Targets st)" and "walks_ok A d st 0 ws"
  shows "\<exists>ws' st'. visit_rounds A d ws st = Some (ws', st') \<and> \<not> waiting ws' \<and> length ws' = length ws \<and> run_ok A st' \<and> acq_steps A st st' \<and>
    turned d st st' \<and> walks_ok A d st' 0 ws'"
  using assms
proof (induction "nat (sum_list (map slack ws) + MaxNodesL (r_Limits (a_Request st)) * int (length ws))" arbitrary: ws st rule: less_induct)
  case less
  show ?case
  proof (cases "waiting ws")
    case False
    then have "visit_rounds A d ws st = Some (ws, st)" by (subst visit_rounds.simps) (auto simp: waiting_def)
    with False less.prems turned_refl show ?thesis by auto
  next
    case True
    obtain ws1 st1 where v: "visit_round A d 0 ws st = (ws1, st1)" by (metis surj_pair)
    have "0 + length ws = length (a_Targets st)" using less.prems(2) by simp
    note r = visit_round_ok [OF less.prems(1) this less.prems(3) v]
    have "grows st st1" using steps_grow [OF run_ok_nodes [OF less.prems(1)]] r by blast
    then have req: "a_Request st1 = a_Request st" by (simp add: grows_def)
    have "0 \<le> sum_list (map slack ws1) + MaxNodesL (r_Limits (a_Request st)) * int (length ws1)"
      using slack_bounded [of A st1 d 0 ws1] r req by simp
    then have "nat (sum_list (map slack ws1) + MaxNodesL (r_Limits (a_Request st1)) * int (length ws1)) <
        nat (sum_list (map slack ws) + MaxNodesL (r_Limits (a_Request st)) * int (length ws))"
      using r True req by simp
    from less.hyps [OF this] r less.prems(2) obtain ws' st' where ih: "visit_rounds A d ws1 st1 = Some (ws', st')" "\<not> waiting ws'" "length ws' = length ws1"
        "run_ok A st'" "acq_steps A st1 st'" "turned d st1 st'" "walks_ok A d st' 0 ws'"
      by (auto simp: turned_def)
    have "visit_rounds A d ws st = Some (ws', st')" using True v ih(1) by (subst visit_rounds.simps) (auto simp: waiting_def)
    moreover have "acq_steps A st st'" "turned d st st'" using r ih by (meson rtranclp_trans, meson turned_trans)
    ultimately show ?thesis using ih r by auto
  qed
qed
end
