(* ===== verification/Coordinator_Seeds.thy ===== *)
theory Coordinator_Seeds
  imports Coordinator_Walk
begin

text \<open>
  The first phase: a target that is resolved carries the item the server prepared, a target that is admitted has its node in the graph,
  and the acquisition stays complete only when every target is admitted.
\<close>

definition kept :: "runner \<Rightarrow> runner \<Rightarrow> bool" where
  "kept st st' \<longleftrightarrow> a_Targets st' = a_Targets st \<and> a_members st' = a_members st \<and> a_relations st' = a_relations st \<and>
     a_queries st' = a_queries st \<and> (a_Complete st' \<longrightarrow> a_Complete st)"

lemmas request_defs = log_request_def spend_def attempt_def poll_def

interpretation kept: seed_relation A kept for A
proof
  fix i st
  show "kept st (snd (admit A i st))" using admit_frame [of A i st] by (cases "admit A i st") (simp add: kept_def same_targets_def)
qed (simp_all add: kept_def request_defs partial_acquisition_def)

lemma seed_not_calls: "call_method d \<noteq> ''source/prepareDocument''" "call_method d \<noteq> documentSymbolMethod" "call_method d \<noteq> prepareMethod"
  by (simp_all add: call_method_def documentSymbolMethod_def prepareMethod_def incomingMethod_def)

interpretation cache: resolution_relation A "\<lambda>st st'. a_resolutions st' = a_resolutions st" for A
  by unfold_locales (simp_all add: request_defs)

interpretation unasked: seed_relation A "\<lambda>st st'. asks st' = asks st" for A
proof
  fix i st
  show "asks (snd (admit A i st)) = asks st" by (simp add: asks_def fun_eq_iff admit_def Let_def)
qed (auto simp: fun_eq_iff asks_def request_defs partial_acquisition_def blocked_record_def attempted_record_def seed_methods_def seed_not_calls seed_not_calls [symmetric])

section \<open>Resolution\<close>

definition resolution_ok :: "acq_env \<Rightarrow> Resolution \<Rightarrow> bool" where
  "resolution_ok A r \<longleftrightarrow> (rs_Status r = Resolved \<longrightarrow> (\<exists>i p. rs_Prepared r = Some i \<and> rs_Identity r = Some (acq_node A i) \<and> rs_Position r = Some p \<and>
     ValidateItem (ae_env A) (acq_node A i) = None \<and> 1 \<le> c_Kind i \<and> c_Kind i \<le> 26 \<and> canonical_uri A (c_URI i) \<and> contains (c_Range i) p))"

lemma unresolved_ok: "rs_Status r \<noteq> Resolved \<Longrightarrow> resolution_ok A r"
  by (simp add: resolution_ok_def)

lemma failure_ok [simp]: "resolution_ok A (failure rec r)"
  by (rule unresolved_ok) (simp add: failure_def recordResolution_def)

lemma refuse_status [simp]: "rs_Status (refuse s reason r) = s"
  by (simp add: refuse_def)

lemma add_request_status [simp]: "rs_Status (add_request rec r) = rs_Status r"
  by (simp add: add_request_def)

lemma prepared_items_valid:
  "prepared_items A t symbol p items valid = Inr valid' \<Longrightarrow> \<forall>i \<in> snd ` set valid. \<not> identity_mismatch A t p i \<Longrightarrow>
     \<forall>i \<in> snd ` set valid'. \<not> identity_mismatch A t p i"
proof (induction items arbitrary: valid)
  case (Cons i js)
  let ?k = "ID (acq_node A i)"
  let ?valid = "if map_of valid ?k = None then AList.update ?k i valid else valid"
  have ok: "\<not> identity_mismatch A t p i" "prepared_items A t symbol p js ?valid = Inr valid'" using Cons.prems(1) by (auto split: if_splits)
  have "set ?valid \<subseteq> insert (?k, i) (set valid)" by (auto simp: update_new)
  then have "snd ` set ?valid \<subseteq> insert i (snd ` set valid)" by force
  then have "\<forall>i \<in> snd ` set ?valid. \<not> identity_mismatch A t p i" using ok(1) Cons.prems(2) by blast
  then show ?case by (rule Cons.IH [OF ok(2)])
qed simp

lemma resolved_ok: "\<not> identity_mismatch A t p i \<Longrightarrow> resolution_ok A (resolved A i p r)"
  by (auto simp: resolution_ok_def resolved_def identity_mismatch_def)

lemma probe_loop_resolution:
  "probe_loop A t symbol n started p r st = (x, st') \<Longrightarrow> rs_Status r \<noteq> Resolved \<Longrightarrow>
     (case x of Inl r' \<Rightarrow> resolution_ok A r' | Inr (q, r') \<Rightarrow> rs_Status r' \<noteq> Resolved)"
proof (induction n arbitrary: started p r st)
  case (Suc n)
  let ?q = "if started then p\<lparr>Character := Character p + 1\<rparr> else p" and ?uri = "l_URI (at_Locator t)"
  obtain v rec st1 where i: "invoke A (at_ID t) prepareMethod '''' (en_PrepareParams A ?uri ?q) (\<lambda>k. cl_Prepare A k ?uri ?q) (en_Items A) st = (v, rec, st1)"
    by (metis prod_cases3)
  have rest: "probe_loop A t symbol n True ?q (add_request rec r) st1 = (x, st') \<Longrightarrow> ?case"
    by (rule Suc.IH) (use Suc.prems(2) in simp)+
  show ?case
  proof (cases v)
    case None
    with Suc.prems i rest show ?thesis by (auto simp: Let_def split: if_splits)
  next
    case (Some items)
    let ?valid = "prepared_items A t symbol ?q items []"
    have one: "resolution_ok A (resolved A j ?q (add_request rec r))" if "?valid = Inr [(k, j)]" for k j
      using prepared_items_valid [OF that] by (intro resolved_ok [of A t]) simp
    show ?thesis
    proof (cases ?valid)
      case (Inl reason)
      with Suc.prems i Some show ?thesis by (auto simp: Let_def unresolved_ok split: if_splits)
    next
      case (Inr valid)
      with Suc.prems i Some rest one show ?thesis by (auto simp: Let_def unresolved_ok split: if_splits list.splits)
    qed
  qed
qed auto

lemma probe_resolution: "probe A t symbol p r st = (r', st') \<Longrightarrow> rs_Status r \<noteq> Resolved \<Longrightarrow> resolution_ok A r'"
  using probe_loop_resolution [of A t symbol MaxPrepareProbes False p r st]
  by (auto simp: probe_def unresolved_ok split: prod.splits sum.splits if_splits)

lemma supply_resolution:
  "supply_document A t r st = (x, st') \<Longrightarrow> rs_Status r \<noteq> Resolved \<Longrightarrow> (case x of Inl r' \<Rightarrow> resolution_ok A r' | Inr r' \<Rightarrow> rs_Status r' \<noteq> Resolved)"
  by (auto simp: supply_document_def unresolved_ok split: option.splits prod.splits if_splits)

lemma find_resolution:
  "find_symbol A t r st = (x, st') \<Longrightarrow> rs_Status r \<noteq> Resolved \<Longrightarrow> (case x of Inl r' \<Rightarrow> resolution_ok A r' | Inr (r', s) \<Rightarrow> rs_Status r' \<noteq> Resolved)"
  by (auto simp: find_symbol_def Let_def unresolved_ok split: option.splits prod.splits if_splits list.splits)

lemma resolve_new_resolution:
  assumes "resolve_new A t st = (r, st')"
  shows "resolution_ok A r"
proof -
  obtain x st1 where s: "supply_document A t start_resolution st = (x, st1)" by (meson surj_pair)
  note sr = supply_resolution [OF s]
  show ?thesis
  proof (cases x)
    case (Inl r1)
    with assms s sr show ?thesis by (simp add: resolve_new_def start_resolution_def)
  next
    case (Inr r1)
    then have r1: "rs_Status r1 \<noteq> Resolved" using sr by (simp add: start_resolution_def)
    obtain y st2 where f: "find_symbol A t r1 st1 = (y, st2)" by (meson surj_pair)
    note find_resolution [OF f r1]
    with assms s Inr f r1 show ?thesis
      by (auto simp: resolve_new_def split: if_splits sum.splits prod.splits dest: probe_resolution)
  qed
qed

definition cache_ok :: "acq_env \<Rightarrow> runner \<Rightarrow> bool" where
  "cache_ok A st \<longleftrightarrow> (\<forall>k r. a_resolutions st k = Some r \<longrightarrow> resolution_ok A r)"

lemma resolve_resolution:
  assumes "resolve A t st = (r, st')" and "cache_ok A st"
  shows "resolution_ok A r \<and> cache_ok A st'"
proof (cases "a_resolutions st (locator_json (at_Locator t))")
  case None
  obtain r1 st1 where n: "resolve_new A t st = (r1, st1)" by (meson surj_pair)
  have "a_resolutions st1 = a_resolutions st" by (rule cache.resolve_new_rel [OF n])
  with assms None n resolve_new_resolution [OF n] show ?thesis
    by (auto simp: resolve_def cache_ok_def split: if_splits)
next
  case (Some r1)
  with assms show ?thesis by (auto simp: resolve_def cache_ok_def)
qed

lemma resolve_all_resolution:
  "resolve_all A ts st = (ts', st') \<Longrightarrow> cache_ok A st \<Longrightarrow>
     length ts' = length ts \<and> (\<forall>i < length ts. \<exists>r. ts' ! i = (ts ! i)\<lparr>tr_Resolution := r\<rparr> \<and> resolution_ok A r)"
proof (induction ts arbitrary: ts' st st')
  case (Cons t ts)
  obtain r st1 where r: "resolve A (tr_Requested t) st = (r, st1)" by (meson surj_pair)
  obtain ts1 st2 where a: "resolve_all A ts st1 = (ts1, st2)" by (meson surj_pair)
  note ok = resolve_resolution [OF r Cons.prems(2)]
  note ih = Cons.IH [OF a conjunct2 [OF ok]]
  have "ts' = t\<lparr>tr_Resolution := r\<rparr> # ts1" using Cons.prems(1) r a by simp
  with ok ih show ?case by (auto simp: less_Suc_eq_0_disj)
qed simp

section \<open>Admission\<close>

text \<open>What the first phase makes of a requested target.\<close>

definition seeded :: "acq_env \<Rightarrow> runner \<Rightarrow> AcqTarget \<Rightarrow> TargetResult \<Rightarrow> bool" where
  "seeded A st q t \<longleftrightarrow> tr_Requested t = q \<and> tr_Outgoing t = zero_direction \<and> tr_Incoming t = zero_direction \<and> resolution_ok A (tr_Resolution t) \<and>
     (tr_Admission t = Admitted \<longrightarrow> rs_Status (tr_Resolution t) = Resolved \<and> resolutionID (tr_Resolution t) \<in> node_ids st)"

definition requested :: "runner \<Rightarrow> AcqTarget list" where
  "requested st = r_Root (a_Request st) # r_RequiredTargets (a_Request st)"

definition seeds_ok :: "acq_env \<Rightarrow> runner \<Rightarrow> bool" where
  "seeds_ok A st \<longleftrightarrow> list_all2 (seeded A st) (requested st) (a_Targets st) \<and>
     length (a_members st) = length (a_Targets st) \<and> length (a_relations st) = length (a_Targets st) \<and> a_queries st = Map.empty"

lemma seeded_grows: "seeded A st q t \<Longrightarrow> grows st st' \<Longrightarrow> seeded A st' q t"
  by (auto simp: seeded_def grows_def)

lemma seeds_ok_kept:
  assumes "seeds_ok A st" and "grows st st'" and "kept st st'"
  shows "seeds_ok A st'"
proof -
  have "requested st' = requested st" "a_Targets st' = a_Targets st" using assms(2,3) by (simp_all add: requested_def grows_def kept_def)
  moreover have "list_all2 (seeded A st') (requested st) (a_Targets st)"
    using assms(1) seeded_grows [OF _ assms(2)] by (auto simp: seeds_ok_def intro: list_all2_mono)
  ultimately show ?thesis using assms(1,3) by (simp add: seeds_ok_def kept_def)
qed

lemma resolve_targets_seeds:
  assumes "nodes_ok A st" and "a_queries st = Map.empty" and "cache_ok A st"
  shows "seeds_ok A (resolve_targets A st) \<and> (\<forall>t \<in> set (a_Targets (resolve_targets A st)). tr_Admission t = NotApplicable)"
proof -
  let ?ts = "map new_target (requested st)"
  obtain ts st1 where a: "resolve_all A ?ts st = (ts, st1)" by (meson surj_pair)
  have res: "resolve_targets A st = st1\<lparr>a_Targets := ts, a_members := map (\<lambda>_. {}) ?ts, a_relations := map (\<lambda>_. {}) ?ts\<rparr>"
    using a by (simp add: resolve_targets_def requested_def del: list.map resolve_all.simps)
  have k: "kept st st1" by (rule kept.resolve_all_rel [OF a])
  have g: "grows st st1" using steps_grow [OF assms(1) steps.resolve_all_rel [OF a]] by blast
  note r = resolve_all_resolution [OF a assms(3)]
  have each: "\<exists>r. ts ! i = (new_target (requested st ! i))\<lparr>tr_Resolution := r\<rparr> \<and> resolution_ok A r" if "i < length (requested st)" for i
    using r that by auto
  have "requested (resolve_targets A st) = requested st" using g by (simp add: res requested_def grows_def)
  moreover have "list_all2 (seeded A (resolve_targets A st)) (requested st) ts"
    unfolding list_all2_conv_all_nth using r each by (fastforce simp: seeded_def new_target_def)
  moreover have "\<forall>t \<in> set ts. tr_Admission t = NotApplicable"
    using r each by (fastforce simp: in_set_conv_nth new_target_def)
  ultimately show ?thesis using k assms(2) r by (simp add: seeds_ok_def res kept_def)
qed

lemma admit_target_seeds:
  assumes n: "nodes_ok A st" and s: "seeds_ok A st" and i: "i < length (a_Targets st)"
  shows "seeds_ok A (admit_target A i st) \<and> length (a_Targets (admit_target A i st)) = length (a_Targets st) \<and>
    (\<forall>j. j \<noteq> i \<longrightarrow> a_Targets (admit_target A i st) ! j = a_Targets st ! j) \<and>
    (a_Complete (admit_target A i st) \<longrightarrow> a_Complete st \<and> tr_Admission (a_Targets (admit_target A i st) ! i) = Admitted)"
proof -
  let ?t = "a_Targets st ! i" and ?q = "requested st ! i"
  have t: "seeded A st ?q ?t" using s i by (auto simp: seeds_ok_def dest: list_all2_nthD2)
  have update: "seeds_ok A (st1\<lparr>a_Targets := (a_Targets st1)[i := t'], a_members := m, a_Complete := c\<rparr>)"
    if "seeds_ok A st1" "seeded A st1 (requested st1 ! i) t'" "length m = length (a_members st1)" for st1 t' m c
  proof -
    let ?st = "st1\<lparr>a_Targets := (a_Targets st1)[i := t'], a_members := m, a_Complete := c\<rparr>"
    have "seeded A ?st = seeded A st1" by (simp add: seeded_def fun_eq_iff node_ids_def)
    moreover have "list_all2 (seeded A st1) ((requested st1)[i := requested st1 ! i]) ((a_Targets st1)[i := t'])"
      using that by (intro list_all2_update_cong) (simp_all add: seeds_ok_def)
    ultimately show ?thesis using that by (simp add: seeds_ok_def requested_def)
  qed
  have "seeds_ok A (partial_acquisition st)" by (rule seeds_ok_kept [OF s _ kept.partiality]) (simp add: grows_def partial_acquisition_def node_ids_def)
  moreover have ?thesis if p: "rs_Status (tr_Resolution ?t) = Resolved" "rs_Prepared (tr_Resolution ?t) = Some item" for item
  proof -
    obtain ok st1 where a: "admit A item st = (ok, st1)" by (meson surj_pair)
    note g = nodes_ok_admit [OF n a]
    have k: "kept st st1" using kept.admission [of st A item] a by simp
    have s1: "seeds_ok A st1" by (rule seeds_ok_kept [OF s conjunct2 [OF g] k])
    have rid: "resolutionID (tr_Resolution ?t) = ID (acq_node A item)" using t p by (auto simp: seeded_def resolution_ok_def resolutionID_def)
    have req: "requested st1 ! i = ?q" using g by (simp add: requested_def grows_def)
    have t1: "seeded A st1 ?q ?t" by (rule seeded_grows [OF t conjunct2 [OF g]])
    have same: "a_Targets st1 = a_Targets st" "a_Complete st1 \<longrightarrow> a_Complete st" using k by (simp_all add: kept_def)
    show ?thesis
    proof (cases ok)
      case True
      let ?st = "st1\<lparr>a_Targets := (a_Targets st1)[i := ?t\<lparr>tr_Admission := Admitted\<rparr>],
          a_members := (a_members st1)[i := insert (resolutionID (tr_Resolution ?t)) (a_members st1 ! i)]\<rparr>"
      have st: "admit_target A i st = ?st" using a p True by (simp add: admit_target_def Let_def)
      have "seeded A st1 (requested st1 ! i) (?t\<lparr>tr_Admission := Admitted\<rparr>)"
        using t1 p(1) admit_node_ids [of A item st st1] a True unfolding rid req seeded_def by (simp add: rid)
      from update [OF s1 this, of "a_members ?st" "a_Complete st1"] have "seeds_ok A ?st" by simp
      then show ?thesis using i same unfolding st by simp
    next
      case False
      let ?st = "st1\<lparr>a_Targets := (a_Targets st1)[i := ?t\<lparr>tr_Admission := AdmissionBlocked\<rparr>], a_Complete := False\<rparr>"
      have st: "admit_target A i st = ?st" using a p False by (simp add: admit_target_def Let_def)
      have "seeded A st1 (requested st1 ! i) (?t\<lparr>tr_Admission := AdmissionBlocked\<rparr>)" using t1 unfolding req by (simp add: seeded_def)
      from update [OF s1 this, of "a_members st1" False] have "seeds_ok A ?st" by simp
      then show ?thesis using i same unfolding st by simp
    qed
  qed
  moreover have "admit_target A i st = partial_acquisition st \<or> (\<exists>item. rs_Status (tr_Resolution ?t) = Resolved \<and> rs_Prepared (tr_Resolution ?t) = Some item)"
    by (cases "rs_Status (tr_Resolution ?t)"; cases "rs_Prepared (tr_Resolution ?t)") (simp_all add: admit_target_def Let_def)
  ultimately show ?thesis by (auto simp: partial_acquisition_def)
qed

lemma admit_fold_seeds:
  "nodes_ok A st \<Longrightarrow> seeds_ok A st \<Longrightarrow> distinct is \<Longrightarrow> \<forall>i \<in> set is. i < length (a_Targets st) \<Longrightarrow> st' = fold (admit_target A) is st \<Longrightarrow>
     seeds_ok A st' \<and> length (a_Targets st') = length (a_Targets st) \<and> (\<forall>j. j \<notin> set is \<longrightarrow> a_Targets st' ! j = a_Targets st ! j) \<and>
     (a_Complete st' \<longrightarrow> a_Complete st \<and> (\<forall>i \<in> set is. tr_Admission (a_Targets st' ! i) = Admitted))"
proof (induction "is" arbitrary: st)
  case (Cons i js)
  let ?st = "admit_target A i st"
  have i: "i < length (a_Targets st)" using Cons.prems(4) by simp
  note one = admit_target_seeds [OF Cons.prems(1,2) i]
  have "nodes_ok A ?st" using steps_grow [OF Cons.prems(1) admit_target_steps] by blast
  with one Cons.prems have ih: "seeds_ok A st' \<and> length (a_Targets st') = length (a_Targets ?st) \<and> (\<forall>j. j \<notin> set js \<longrightarrow> a_Targets st' ! j = a_Targets ?st ! j) \<and>
     (a_Complete st' \<longrightarrow> a_Complete ?st \<and> (\<forall>i \<in> set js. tr_Admission (a_Targets st' ! i) = Admitted))"
    by (intro Cons.IH) auto
  have "a_Targets st' ! i = a_Targets ?st ! i" using ih Cons.prems(3) by simp
  with one ih show ?case by auto
qed simp

lemma set_admission_order: "set (admission_order ts) = {0..<length ts}" "distinct (admission_order ts)"
  by (cases ts; auto simp: admission_order_def)+

lemma admit_target_asks: "asks (admit_target A i st) = asks st"
proof -
  have "asks st' = asks st" if "admit A item st = (ok, st')" for item ok st'
    using that by (auto simp: admit_def Let_def asks_def fun_eq_iff split: if_splits)
  then show ?thesis
    by (auto simp: admit_target_def Let_def asks_def fun_eq_iff partial_acquisition_def split: ResolutionStatus.splits option.splits prod.splits bool.splits)
qed

lemma seed_phase_asks: "asks (seed_phase A st) = asks st"
proof -
  let ?ts = "map new_target (requested st)"
  obtain ts st1 where a: "resolve_all A ?ts st = (ts, st1)" by (meson surj_pair)
  have "asks st1 = asks st" by (rule unasked.resolve_all_rel [OF a])
  then have "asks (resolve_targets A st) = asks st"
    using a by (simp add: resolve_targets_def requested_def asks_def fun_eq_iff del: list.map resolve_all.simps)
  moreover have "asks (admit_targets A st') = asks st'" for st'
    unfolding admit_targets_def by (rule unasked.fold_rel) (rule admit_target_asks)
  ultimately show ?thesis
    by (simp add: seed_phase_def Let_def expandTopmostSiblings_def unasked.sibling_targets_rel)
qed

definition all_admitted :: "runner \<Rightarrow> bool" where
  "all_admitted st \<longleftrightarrow> (\<forall>t \<in> set (a_Targets st). tr_Admission t = Admitted)"

lemma seed_phase_ok:
  assumes "acq_start st"
  shows "run_ok A (seed_phase A st) \<and> acq_steps A st (seed_phase A st) \<and> seeds_ok A (seed_phase A st) \<and>
    (a_Complete (seed_phase A st) \<longrightarrow> all_admitted (seed_phase A st))"
proof -
  have n: "nodes_ok A st" "evidence_ok A st" using evidence_start [OF assms, of A] by (simp_all add: evidence_ok_def)
  have start: "a_queries st = Map.empty" "cache_ok A st" using assms by (auto simp: acq_start_def start_runner_def cache_ok_def)
  let ?r = "resolve_targets A st" and ?a = "admit_targets A (resolve_targets A st)"
  note rs = resolve_targets_seeds [OF n(1) start]
  have nr: "nodes_ok A ?r" using steps_grow [OF n(1) resolve_targets_steps] by blast
  have na: "nodes_ok A ?a" using steps_grow [OF nr admit_targets_steps] by blast
  have ad: "seeds_ok A ?a \<and> length (a_Targets ?a) = length (a_Targets ?r) \<and> (a_Complete ?a \<longrightarrow> all_admitted ?a)"
    using admit_fold_seeds [OF nr conjunct1 [OF rs], of "admission_order (a_Targets ?r)"] set_admission_order [of "a_Targets ?r"]
    by (auto simp: admit_targets_def all_admitted_def in_set_conv_nth)
  have k: "kept ?a (seed_phase A st)" "acq_steps A ?a (seed_phase A st)"
    by (simp_all add: seed_phase_def Let_def expandTopmostSiblings_def kept.sibling_targets_rel kept.refl steps.sibling_targets_rel)
  have g: "grows ?a (seed_phase A st)" using steps_grow [OF na k(2)] by blast
  have s: "seeds_ok A (seed_phase A st)" by (rule seeds_ok_kept [OF conjunct1 [OF ad] g k(1)])
  have "asks (seed_phase A st) = asks st" by (rule seed_phase_asks)
  then have "asked_once (seed_phase A st)" using assms by (auto simp: asked_once_def fun_eq_iff acq_start_def start_runner_def asks_def)
  then have "queries_ok A (seed_phase A st)" using s by (simp add: seeds_ok_def queries_ok_def)
  moreover have "evidence_ok A (seed_phase A st)" using acquisition.star_inv [OF seed_phase_steps n(2)] .
  moreover have "a_Complete (seed_phase A st) \<longrightarrow> all_admitted (seed_phase A st)" using ad k(1) by (simp add: kept_def all_admitted_def)
  ultimately show ?thesis using s seed_phase_steps by (simp add: run_ok_def)
qed

end
