(* ===== verification/Coordinator_Traversal.thy ===== *)
theory Coordinator_Traversal
  imports Coordinator_Rounds Coordinator_Seeds
begin

text \<open>
  The traversal in one direction and the whole collection: what the expansions of a target show of its calls.
\<close>

definition reached :: "DirectionResult \<Rightarrow> string set" where
  "reached r = ex_NodeID ` set (dr_Expansions r)"

definition visits :: "DirectionResult \<Rightarrow> (string \<times> nat) set" where
  "visits r = (\<lambda>e. (ex_NodeID e, ex_Depth e)) ` set (dr_Expansions r)"

lemma reached_visits: "reached r = fst ` visits r"
  by (simp add: reached_def visits_def image_image)

text \<open>
  The nodes a target reaches, by depth: the starts have depth zero, a deeper node is called (or calls) from the depth above, and where an
  expansion is a success, all calls of the answer are kept and lead to nodes that are reached at most one deeper.
\<close>

definition followed :: "acq_env \<Rightarrow> runner \<Rightarrow> AcqDirection \<Rightarrow> DirectionResult \<Rightarrow> Expansion \<Rightarrow> bool" where
  "followed A st d r e \<longleftrightarrow> (\<exists>rid calls. answered A st d (ex_NodeID e) rid calls \<and>
     (\<forall>c \<in> set calls. call_kept A st d (ex_NodeID e) c \<and> (\<exists>j \<le> Suc (ex_Depth e). (ID (acq_node A (call_Item c)), j) \<in> visits r)))"

definition direction_ok :: "acq_env \<Rightarrow> runner \<Rightarrow> AcqDirection \<Rightarrow> DirectionResult \<Rightarrow> bool" where
  "direction_ok A st d r \<longleftrightarrow> inj_on fst (visits r) \<and> reached r \<subseteq> node_ids st \<and> (\<forall>x \<in> set (dr_StartIDs r). (x, 0) \<in> visits r) \<and>
     (\<forall>x k. (x, k) \<in> visits r \<longrightarrow> k = 0 \<and> x \<in> set (dr_StartIDs r) \<or> (\<exists>y j. k = Suc j \<and> (y, j) \<in> visits r \<and> neighbor_call A st d y x)) \<and>
     (\<forall>e \<in> set (dr_Expansions r). success (ex_Status e) \<longrightarrow> followed A st d r e) \<and>
     set (dr_FrontierIDs r) \<subseteq> reached r \<and> set (dr_SuccessfulEmptyIDs r) \<subseteq> reached r"

lemma followed_grows: "followed A st d r e \<Longrightarrow> grows st st' \<Longrightarrow> followed A st' d r e"
  unfolding followed_def using answered_grows call_kept_grows by blast

lemma direction_ok_grows:
  assumes "direction_ok A st d r" and "grows st st'"
  shows "direction_ok A st' d r"
proof -
  have "reached r \<subseteq> node_ids st" "node_ids st \<subseteq> node_ids st'" using assms by (simp_all add: direction_ok_def grows_def)
  then have "reached r \<subseteq> node_ids st'" by (rule subset_trans)
  moreover have "\<forall>e \<in> set (dr_Expansions r). success (ex_Status e) \<longrightarrow> followed A st' d r e"
    using assms(1) followed_grows [OF _ assms(2)] unfolding direction_ok_def by simp
  moreover have "k = 0 \<and> x \<in> set (dr_StartIDs r) \<or> (\<exists>y j. k = Suc j \<and> (y, j) \<in> visits r \<and> neighbor_call A st' d y x)" if "(x, k) \<in> visits r" for x k
  proof -
    have "k = 0 \<and> x \<in> set (dr_StartIDs r) \<or> (\<exists>y j. k = Suc j \<and> (y, j) \<in> visits r \<and> neighbor_call A st d y x)"
      using assms(1) that unfolding direction_ok_def by simp
    then show ?thesis using neighbor_call_grows [OF _ assms(2)] by blast
  qed
  ultimately show ?thesis using assms(1) unfolding direction_ok_def by simp
qed

section \<open>A finished walk\<close>

lemma finished_visits:
  assumes "walk_ok A d st t w" and "w_queue w = []"
  shows "visits (direction_of d t) = depth_of w"
proof -
  let ?r = "direction_of d t"
  have ex: "walk_expanded A d st ?r w" and sh: "distinct (map fst (w_depths w))" using assms(1) by (simp_all add: walk_ok_def walk_shape_def)
  have sub: "visits ?r \<subseteq> depth_of w" using ex by (auto simp: walk_expanded_def visits_def)
  have keys: "fst ` visits ?r = fst ` depth_of w" using ex assms(2) by (simp add: walk_expanded_def visits_def image_image)
  have "inj_on fst (depth_of w)" using sh by (simp add: depth_of_def distinct_map)
  with sub keys show ?thesis by (metis inj_on_image_eq_iff subset_refl)
qed

lemma finished_direction:
  assumes w: "walk_ok A d st t w" and q: "w_queue w = []"
  shows "direction_ok A st d (direction_of d t)"
proof -
  let ?r = "direction_of d t"
  note v = finished_visits [OF w q]
  have r: "reached ?r = fst ` depth_of w" by (simp add: reached_visits v)
  have "inj_on fst (depth_of w)" using w by (simp add: walk_ok_def walk_shape_def depth_of_def distinct_map)
  moreover have "\<forall>e \<in> set (dr_Expansions ?r). success (ex_Status e) \<longrightarrow> followed A st d ?r e"
    using w unfolding walk_ok_def walk_expanded_def followed_def closed_answer_def v by blast
  moreover have "\<forall>x k. (x, k) \<in> visits ?r \<longrightarrow> k = 0 \<and> x \<in> set (dr_StartIDs ?r) \<or> (\<exists>y j. k = Suc j \<and> (y, j) \<in> visits ?r \<and> neighbor_call A st d y x)"
    using w unfolding walk_ok_def walk_sound_def v by fast
  ultimately show ?thesis
    using w unfolding direction_ok_def r v walk_ok_def walk_shape_def walk_expanded_def walk_sound_def by blast
qed

definition layers_ok :: "DirectionResult \<Rightarrow> bool" where
  "layers_ok r \<longleftrightarrow> (\<forall>k < length (dr_Layers r). Depth (dr_Layers r ! k) = int k \<and> sorted (NodeIDs (dr_Layers r ! k)) \<and>
     set (NodeIDs (dr_Layers r ! k)) = {x. (x, k) \<in> visits r}) \<and> (\<forall>x k. (x, k) \<in> visits r \<longrightarrow> k < length (dr_Layers r))"

lemma length_depth_layers: "length (depth_layers m) = (if m = [] then 0 else Suc (Max (snd ` set m)))"
  by (simp add: depth_layers_def)

lemma nth_depth_layers: "k < length (depth_layers m) \<Longrightarrow>
    depth_layers m ! k = \<lparr>Depth = int k, NodeIDs = sort (map fst (filter (\<lambda>x. snd x = k) m))\<rparr>"
  by (simp add: depth_layers_def del: upt_Suc)

lemma finish_direction_simps [simp]:
  "dr_Expansions (finish_direction w r) = dr_Expansions r" "dr_StartIDs (finish_direction w r) = dr_StartIDs r"
  "set (dr_FrontierIDs (finish_direction w r)) = set (dr_FrontierIDs r)" "set (dr_SuccessfulEmptyIDs (finish_direction w r)) = set (dr_SuccessfulEmptyIDs r)"
  "reached (finish_direction w r) = reached r" "visits (finish_direction w r) = visits r"
  by (simp_all add: finish_direction_def reached_def visits_def)

lemma finish_direction_ok: "direction_ok A st d (finish_direction w r) = direction_ok A st d r"
  by (simp add: direction_ok_def followed_def)

lemma finished_layers:
  assumes "walk_ok A d st t w" and "w_queue w = []"
  shows "layers_ok (finish_direction w (direction_of d t))"
proof -
  have v: "visits (direction_of d t) = set (w_depths w)" using finished_visits [OF assms] by (simp add: depth_of_def)
  have bound: "k < length (depth_layers (w_depths w))" if "(x, k) \<in> set (w_depths w)" for x k
  proof -
    have "k \<le> Max (snd ` set (w_depths w))" using that by (intro Max_ge) force+
    with that show ?thesis by (auto simp: length_depth_layers)
  qed
  have "dr_Layers (finish_direction w (direction_of d t)) = depth_layers (w_depths w)" by (simp add: finish_direction_def)
  with v bound show ?thesis by (force simp: layers_ok_def nth_depth_layers)
qed

lemma aggregate_settled: "es \<noteq> [] \<Longrightarrow> success (aggregate es) \<longleftrightarrow> (\<forall>e \<in> set es. success (ex_Status e))"
  by (cases es) (auto simp: aggregate_def Let_def success_def)

lemma aggregate_applicable: "es \<noteq> [] \<Longrightarrow> \<forall>e \<in> set es. ex_Status e \<noteq> ExpansionNotApplicable \<Longrightarrow> aggregate es \<noteq> ExpansionNotApplicable"
  by (cases es) (simp_all add: aggregate_def Let_def)

text \<open>What the traversal makes of a target.\<close>

definition traversed :: "acq_env \<Rightarrow> runner \<Rightarrow> Mode \<Rightarrow> AcqDirection \<Rightarrow> TargetResult \<Rightarrow> TargetResult \<Rightarrow> bool" where
  "traversed A st mode d t t' \<longleftrightarrow> (\<exists>r. t' = set_direction d r t \<and> direction_ok A st d r \<and> layers_ok r \<and>
     dr_StartIDs r = (if tr_Admission t = Admitted then start_ids mode d t else []) \<and>
     (settled_status (dr_Status r) \<longrightarrow> (\<forall>e \<in> set (dr_Expansions r). success (ex_Status e))))"

lemma traversed_grows: "traversed A st mode d t t' \<Longrightarrow> grows st st' \<Longrightarrow> traversed A st' mode d t t'"
  unfolding traversed_def using direction_ok_grows by blast

section \<open>The traversal\<close>

definition ready_target :: "runner \<Rightarrow> AcqDirection \<Rightarrow> TargetResult \<Rightarrow> bool" where
  "ready_target st d t \<longleftrightarrow> direction_of d t = zero_direction \<and> (tr_Admission t = Admitted \<longrightarrow> resolutionID (tr_Resolution t) \<in> node_ids st) \<and>
     set (dr_FrontierIDs (tr_Outgoing t)) \<subseteq> node_ids st \<and> set (dr_SuccessfulEmptyIDs (tr_Outgoing t)) \<subseteq> node_ids st"

lemma distinct_remdups_adj: "sorted xs \<Longrightarrow> distinct (remdups_adj xs)" for xs :: "string list"
  by (induction xs rule: remdups_adj.induct) auto

lemma sortedUnique_props: "set (sortedUnique xs) = set xs" "distinct (sortedUnique xs)"
  by (simp_all add: sortedUnique_def uniqueStrings_def distinct_remdups_adj)

lemma start_ids_ok:
  assumes "ready_target st d t" and "tr_Admission t = Admitted"
  shows "set (start_ids mode d t) \<subseteq> node_ids st" "distinct (start_ids mode d t)"
  using assms by (auto simp: start_ids_def ready_target_def sortedUnique_props resolutionID_def split: option.splits)

lemma start_walk_ok:
  assumes "ready_target st d t" and "start_walk mode d t = (t', w)"
  shows "walk_ok A d st t' w \<and> (\<exists>r. t' = set_direction d r t \<and> dr_StartIDs r = (if tr_Admission t = Admitted then start_ids mode d t else []) \<and>
    (dr_Status r = ExpansionNotApplicable \<or> dr_Status r = BudgetBlocked) \<and> r = zero_direction\<lparr>dr_StartIDs := dr_StartIDs r, dr_Status := dr_Status r\<rparr>)"
proof (cases "tr_Admission t = Admitted")
  case True
  let ?xs = "start_ids mode d t" and ?r = "zero_direction\<lparr>dr_StartIDs := start_ids mode d t\<rparr>"
  have t': "t' = set_direction d ?r t" "w = \<lparr>w_queue = map (\<lambda>i. (i, 0)) ?xs, w_depths = map (\<lambda>i. (i, 0)) ?xs\<rparr>"
    using assms True by (simp_all add: start_walk_def ready_target_def)
  note s = start_ids_ok [OF assms(1) True, of mode]
  have d: "depth_of w = (\<lambda>i. (i, 0)) ` set ?xs" by (simp add: t'(2) depth_of_def)
  have "walk_shape st w" unfolding walk_shape_def d using s by (auto simp: t'(2) comp_def)
  moreover have "walk_sound A d st (set ?xs) w" unfolding walk_sound_def d by auto
  moreover have "walk_expanded A d st ?r w" unfolding walk_expanded_def d by (simp add: t'(2) zero_direction_def image_image)
  ultimately have "walk_ok A d st t' w" by (simp add: walk_ok_def t'(1))
  then show ?thesis using t'(1) True by (auto intro!: exI [of _ ?r] simp: zero_direction_def)
next
  case False
  have "\<exists>r. t' = set_direction d r t \<and> r = zero_direction\<lparr>dr_Status := dr_Status r\<rparr> \<and> (dr_Status r = ExpansionNotApplicable \<or> dr_Status r = BudgetBlocked)"
  proof (cases "tr_Admission t = AdmissionBlocked \<or> rs_Status (tr_Resolution t) = ResolutionBlocked")
    case True
    with assms \<open>tr_Admission t \<noteq> Admitted\<close> show ?thesis
      by (intro exI [of _ "zero_direction\<lparr>dr_Status := BudgetBlocked\<rparr>"]) (auto simp: start_walk_def ready_target_def)
  next
    case False
    with assms \<open>tr_Admission t \<noteq> Admitted\<close> show ?thesis
      by (intro exI [of _ zero_direction]) (auto simp: start_walk_def ready_target_def zero_direction_def [symmetric], (metis ready_target_def set_direction_self)?, simp add: zero_direction_def)
  qed
  then obtain r where r: "t' = set_direction d r t" "r = zero_direction\<lparr>dr_Status := dr_Status r\<rparr>" "dr_Status r = ExpansionNotApplicable \<or> dr_Status r = BudgetBlocked"
    by blast
  have z: "dr_StartIDs r = []" "dr_Expansions r = []" "dr_FrontierIDs r = []" "dr_SuccessfulEmptyIDs r = []"
    by (subst r(2), simp add: zero_direction_def)+
  have w: "w_queue w = []" "depth_of w = {}" "w_depths w = []" using assms(2) False by (auto simp: start_walk_def depth_of_def)
  have "walk_ok A d st t' w" by (simp add: walk_ok_def walk_shape_def walk_sound_def walk_expanded_def w z r(1))
  then show ?thesis using r z False by (auto intro!: exI [of _ r])
qed

lemma traverse_ok:
  assumes ok: "run_ok A st" and ready: "\<forall>t \<in> set (a_Targets st). ready_target st d t"
  shows "\<exists>st'. traverse A d st = Some st' \<and> run_ok A st' \<and> acq_steps A st st' \<and>
    list_all2 (traversed A st' (r_Mode (a_Request st)) d) (a_Targets st) (a_Targets st') \<and>
    length (a_members st') = length (a_members st) \<and> length (a_relations st') = length (a_relations st) \<and>
    a_Complete st' = (a_Complete st \<and> (\<forall>t \<in> set (a_Targets st'). settled_status (dr_Status (direction_of d t))))"
proof -
  let ?mode = "r_Mode (a_Request st)" and ?ts = "a_Targets st"
  let ?starts = "map (start_walk ?mode d) ?ts"
  let ?st = "st\<lparr>a_Targets := map fst ?starts\<rparr>" and ?ws = "map snd ?starts"
  have s0: "acq_steps A st ?st" by (rule steps_core) (simp add: core_def)
  have g0: "grows st ?st" using steps_grow [OF run_ok_nodes [OF ok] s0] by blast
  have q0: "queries_ok A ?st" by (rule queries_ok_grows [OF run_ok_queries [OF ok] g0]) simp_all
  have run0: "run_ok A ?st" by (rule run_ok_steps [OF ok s0 q0])
  have sw: "walk_ok A d st (fst (start_walk ?mode d (?ts ! i))) (snd (start_walk ?mode d (?ts ! i))) \<and>
      (\<exists>r. fst (start_walk ?mode d (?ts ! i)) = set_direction d r (?ts ! i) \<and> dr_StartIDs r = (if tr_Admission (?ts ! i) = Admitted then start_ids ?mode d (?ts ! i) else []) \<and>
        (dr_Status r = ExpansionNotApplicable \<or> dr_Status r = BudgetBlocked))" if "i < length ?ts" for i
    using start_walk_ok [of st d "?ts ! i" ?mode] ready that by (metis nth_mem prod.collapse)
  have "walks_ok A d ?st 0 ?ws" unfolding walks_ok_def using sw walk_ok_grows [OF _ g0] by simp
  from visit_rounds_ok [OF run0 _ this] obtain ws st1 where v: "visit_rounds A d ?ws ?st = Some (ws, st1)" "\<not> waiting ws" "length ws = length ?ts"
      "run_ok A st1" "acq_steps A ?st st1" "turned d ?st st1" "walks_ok A d st1 0 ws"
    by auto
  let ?st' = "finish_walks d ws st1"
  have tr: "traverse A d st = Some ?st'" using v(1) by (simp add: traverse_def Let_def)
  have s1: "acq_steps A st1 ?st'" by (rule steps_core) (simp add: finish_walks_def Let_def core_def)
  have g1: "grows st1 ?st'" using steps_grow [OF run_ok_nodes [OF v(4)] s1] by blast
  have "queries_ok A ?st'" by (rule queries_ok_grows [OF run_ok_queries [OF v(4)] g1]) (simp_all add: finish_walks_def Let_def)
  from run_ok_steps [OF v(4) s1 this] have run: "run_ok A ?st'" .
  have steps: "acq_steps A st ?st'" using s0 v(5) s1 by (meson rtranclp_trans)
  have len: "length (a_Targets st1) = length ?ts" using v(6) by (simp add: turned_def)
  have ts': "length (a_Targets ?st') = length ?ts"
    "i < length ?ts \<Longrightarrow> a_Targets ?st' ! i = set_direction d (finish_direction (ws ! i) (direction_of d (a_Targets st1 ! i))) (a_Targets st1 ! i)" for i
    using len v(3) by (simp_all add: finish_walks_def Let_def)
  have "traversed A ?st' ?mode d (?ts ! i) (a_Targets ?st' ! i)" if i: "i < length ?ts" for i
  proof -
    let ?t = "?ts ! i" and ?w = "ws ! i"
    have w: "walk_ok A d st1 (a_Targets st1 ! i) ?w" "w_queue ?w = []" using v(2,3,7) i by (auto simp: walks_ok_def waiting_def)
    obtain r0 where r0: "fst (start_walk ?mode d ?t) = set_direction d r0 ?t" "dr_StartIDs r0 = (if tr_Admission ?t = Admitted then start_ids ?mode d ?t else [])"
        "dr_Status r0 = ExpansionNotApplicable \<or> dr_Status r0 = BudgetBlocked"
      using sw [OF i] by blast
    obtain r1 where r1: "a_Targets st1 ! i = set_direction d r1 (fst (start_walk ?mode d ?t))" "dr_StartIDs r1 = dr_StartIDs (direction_of d (fst (start_walk ?mode d ?t)))"
      using v(6) i by (fastforce simp: turned_def)
    let ?r = "finish_direction ?w r1"
    have t1: "a_Targets st1 ! i = set_direction d r1 ?t" "a_Targets ?st' ! i = set_direction d ?r ?t" using r0(1) r1(1) ts'(2) [OF i] by simp_all
    have "direction_ok A st1 d r1" "layers_ok ?r" using finished_direction [OF w] finished_layers [OF w] by (simp_all add: t1(1))
    moreover have "dr_StartIDs ?r = (if tr_Admission ?t = Admitted then start_ids ?mode d ?t else [])" using r0 r1(2) by simp
    moreover have "\<forall>e \<in> set (dr_Expansions ?r). success (ex_Status e)" if "settled_status (dr_Status ?r)"
    proof (cases "dr_Expansions r1 = []")
      case False
      then have "dr_Status ?r = aggregate (dr_Expansions r1)" by (simp add: finish_direction_def)
      moreover have "aggregate (dr_Expansions r1) \<noteq> ExpansionNotApplicable"
        by (rule aggregate_applicable [OF False]) (use w(1) in \<open>simp add: t1(1) walk_ok_def walk_expanded_def\<close>)
      ultimately show ?thesis using that aggregate_settled [OF False] by (auto simp: settled_status_def success_def)
    qed simp
    ultimately show ?thesis
      unfolding traversed_def t1(2) using direction_ok_grows [OF _ g1] by (auto simp: finish_direction_ok intro!: exI [of _ ?r])
  qed
  then have "list_all2 (traversed A ?st' ?mode d) ?ts (a_Targets ?st')" using ts'(1) by (simp add: list_all2_conv_all_nth)
  moreover have "length (a_members ?st') = length (a_members st)" "length (a_relations ?st') = length (a_relations st)"
    using v(6) by (simp_all add: turned_def finish_walks_def Let_def)
  moreover have "a_Complete ?st' = (a_Complete st \<and> (\<forall>t \<in> set (a_Targets ?st'). settled_status (dr_Status (direction_of d t))))"
    using v(6) by (simp add: turned_def finish_walks_def Let_def)
  ultimately show ?thesis using tr run steps by blast
qed

section \<open>The collection\<close>

lemma list_all2_source: "list_all2 P xs ys \<Longrightarrow> y \<in> set ys \<Longrightarrow> \<exists>x \<in> set xs. P x y"
  by (induction rule: list_all2_induct) auto

definition resolved_target :: "acq_env \<Rightarrow> runner \<Rightarrow> AcqTarget \<Rightarrow> TargetResult \<Rightarrow> bool" where
  "resolved_target A st q t \<longleftrightarrow> tr_Requested t = q \<and> resolution_ok A (tr_Resolution t) \<and>
     (tr_Admission t = Admitted \<longrightarrow> rs_Status (tr_Resolution t) = Resolved \<and> resolutionID (tr_Resolution t) \<in> node_ids st)"

definition outgoing_ok :: "acq_env \<Rightarrow> runner \<Rightarrow> Mode \<Rightarrow> TargetResult \<Rightarrow> bool" where
  "outgoing_ok A st mode t \<longleftrightarrow> direction_ok A st Outgoing (tr_Outgoing t) \<and> layers_ok (tr_Outgoing t) \<and>
     dr_StartIDs (tr_Outgoing t) = (if tr_Admission t = Admitted \<and> mode = SliceMode then [resolutionID (tr_Resolution t)] else [])"

definition incoming_ok :: "acq_env \<Rightarrow> runner \<Rightarrow> Mode \<Rightarrow> TargetResult \<Rightarrow> bool" where
  "incoming_ok A st mode t \<longleftrightarrow> direction_ok A st IncomingDirection (tr_Incoming t) \<and> layers_ok (tr_Incoming t) \<and>
     set (dr_StartIDs (tr_Incoming t)) = (if tr_Admission t \<noteq> Admitted then {} else if mode = SliceMode
        then set (dr_FrontierIDs (tr_Outgoing t)) \<union> set (dr_SuccessfulEmptyIDs (tr_Outgoing t)) else {resolutionID (tr_Resolution t)})"

definition successes :: "DirectionResult \<Rightarrow> bool" where
  "successes r \<longleftrightarrow> (\<forall>e \<in> set (dr_Expansions r). success (ex_Status e))"

lemma resolved_identity:
  assumes "resolved_target A st q t" and "tr_Admission t = Admitted"
  shows "\<exists>n. rs_Identity (tr_Resolution t) = Some n \<and> resolutionID (tr_Resolution t) = ID n"
  using assms by (auto simp: resolved_target_def resolution_ok_def resolutionID_def)

lemma zero_direction_ok [simp]: "direction_ok A st d zero_direction" "layers_ok zero_direction" "successes zero_direction" "dr_StartIDs zero_direction = []"
  by (simp_all add: direction_ok_def layers_ok_def successes_def zero_direction_def reached_def visits_def)

lemma set_direction_simps [simp]:
  "tr_Requested (set_direction d r t) = tr_Requested t" "tr_Resolution (set_direction d r t) = tr_Resolution t" "tr_Admission (set_direction d r t) = tr_Admission t"
  "tr_Outgoing (set_direction d r t) = (if d = Outgoing then r else tr_Outgoing t)" "tr_Incoming (set_direction d r t) = (if d = Outgoing then tr_Incoming t else r)"
  by (simp_all add: set_direction_def)

lemma resolved_target_traversed:
  "resolved_target A st q t \<Longrightarrow> traversed A st' mode d t t' \<Longrightarrow> grows st st' \<Longrightarrow> resolved_target A st' q t'"
  by (auto simp: resolved_target_def traversed_def grows_def)

lemma outgoing_traversed:
  assumes "resolved_target A st q t" and "traversed A st' SliceMode Outgoing t t'"
  shows "outgoing_ok A st' SliceMode t'" "settled_status (dr_Status (tr_Outgoing t')) \<longrightarrow> successes (tr_Outgoing t')"
  using assms(2) resolved_identity [OF assms(1)]
  by (auto simp: traversed_def outgoing_ok_def start_ids_def sortedUnique_def uniqueStrings_def successes_def split: if_splits)

lemma incoming_traversed:
  assumes "resolved_target A st q t" and "traversed A st' mode IncomingDirection t t'"
  shows "incoming_ok A st' mode t'" "settled_status (dr_Status (tr_Incoming t')) \<longrightarrow> successes (tr_Incoming t')" "tr_Outgoing t' = tr_Outgoing t"
  using assms(2) resolved_identity [OF assms(1)]
  by (auto simp: traversed_def incoming_ok_def start_ids_def sortedUnique_props successes_def split: if_splits)

text \<open>The state between the two directions, and the state at the end.\<close>

definition halfway :: "acq_env \<Rightarrow> runner \<Rightarrow> AcqTarget \<Rightarrow> TargetResult \<Rightarrow> bool" where
  "halfway A st q t \<longleftrightarrow> resolved_target A st q t \<and> outgoing_ok A st (r_Mode (a_Request st)) t \<and> tr_Incoming t = zero_direction"

definition collected :: "acq_env \<Rightarrow> runner \<Rightarrow> AcqTarget \<Rightarrow> TargetResult \<Rightarrow> bool" where
  "collected A st q t \<longleftrightarrow> resolved_target A st q t \<and> outgoing_ok A st (r_Mode (a_Request st)) t \<and> incoming_ok A st (r_Mode (a_Request st)) t"

definition outgoing_done :: "acq_env \<Rightarrow> runner \<Rightarrow> bool" where
  "outgoing_done A st \<longleftrightarrow> run_ok A st \<and> list_all2 (halfway A st) (requested st) (a_Targets st) \<and>
     (a_Complete st \<longrightarrow> (\<forall>t \<in> set (a_Targets st). tr_Admission t = Admitted \<and> successes (tr_Outgoing t)))"

definition collection_done :: "acq_env \<Rightarrow> runner \<Rightarrow> bool" where
  "collection_done A st \<longleftrightarrow> run_ok A st \<and> list_all2 (collected A st) (requested st) (a_Targets st) \<and>
     (a_Complete st \<longrightarrow> (\<forall>t \<in> set (a_Targets st). tr_Admission t = Admitted \<and> successes (tr_Outgoing t) \<and> successes (tr_Incoming t)))"

lemma outgoing_phase:
  assumes "acq_start st"
  shows "\<exists>st'. (if r_Mode (a_Request (seed_phase A st)) = SliceMode then traverse A Outgoing (seed_phase A st) else Some (seed_phase A st)) = Some st' \<and>
    acq_steps A st st' \<and> outgoing_done A st'"
proof -
  let ?s = "seed_phase A st"
  note s = seed_phase_ok [OF assms, of A]
  have all: "list_all2 (seeded A ?s) (requested ?s) (a_Targets ?s)" using s by (simp add: seeds_ok_def)
  have targets: "\<forall>t \<in> set (a_Targets ?s). \<exists>q. seeded A ?s q t" using list_all2_source [OF all] by blast
  show ?thesis
  proof (cases "r_Mode (a_Request ?s) = SliceMode")
    case False
    have "list_all2 (halfway A ?s) (requested ?s) (a_Targets ?s)"
      using all by (rule list_all2_mono) (use False in \<open>auto simp: halfway_def seeded_def resolved_target_def outgoing_ok_def\<close>)
    moreover have "a_Complete ?s \<longrightarrow> (\<forall>t \<in> set (a_Targets ?s). tr_Admission t = Admitted \<and> successes (tr_Outgoing t))"
      using s targets by (fastforce simp: all_admitted_def seeded_def)
    ultimately show ?thesis using s False by (simp add: outgoing_done_def)
  next
    case True
    have "\<forall>t \<in> set (a_Targets ?s). ready_target ?s Outgoing t"
      using targets by (fastforce simp: ready_target_def seeded_def direction_of_def zero_direction_def)
    from traverse_ok [OF conjunct1 [OF s] this] True obtain st' where t: "traverse A Outgoing ?s = Some st'" "run_ok A st'" "acq_steps A ?s st'"
        "list_all2 (traversed A st' SliceMode Outgoing) (a_Targets ?s) (a_Targets st')"
        "a_Complete st' = (a_Complete ?s \<and> (\<forall>t \<in> set (a_Targets st'). settled_status (dr_Status (direction_of Outgoing t))))"
      by auto
    have g: "grows ?s st'" using steps_grow [OF run_ok_nodes [OF conjunct1 [OF s]] t(3)] by blast
    have eq: "requested st' = requested ?s" "r_Mode (a_Request st') = SliceMode" using g True by (simp_all add: requested_def grows_def)
    have each: "halfway A st' q t' \<and> (settled_status (dr_Status (tr_Outgoing t')) \<longrightarrow> successes (tr_Outgoing t')) \<and> tr_Admission t' = tr_Admission t"
      if "seeded A ?s q t" "traversed A st' SliceMode Outgoing t t'" for q t t'
    proof -
      have r: "resolved_target A ?s q t" using that(1) by (simp add: seeded_def resolved_target_def)
      from that resolved_target_traversed [OF r that(2) g] outgoing_traversed [OF r that(2)] show ?thesis
        by (auto simp: halfway_def eq seeded_def traversed_def)
    qed
    have "list_all2 (halfway A st') (requested ?s) (a_Targets st')"
      by (rule list_all2_trans [OF _ all t(4)]) (use each in blast)
    moreover have "a_Complete st' \<longrightarrow> (\<forall>t \<in> set (a_Targets st'). tr_Admission t = Admitted \<and> successes (tr_Outgoing t))"
    proof (intro impI ballI)
      fix t'
      assume c: "a_Complete st'" "t' \<in> set (a_Targets st')"
      then obtain t where t': "t \<in> set (a_Targets ?s)" "traversed A st' SliceMode Outgoing t t'" using list_all2_source [OF t(4)] by blast
      obtain q where q: "seeded A ?s q t" using targets t'(1) by blast
      from each [OF q t'(2)] c t(5) t'(1) s show "tr_Admission t' = Admitted \<and> successes (tr_Outgoing t')"
        by (auto simp: direction_of_def all_admitted_def)
    qed
    ultimately show ?thesis using t s True eq by (auto simp: outgoing_done_def intro: rtranclp_trans)
  qed
qed

lemma incoming_phase:
  assumes half: "outgoing_done A st"
  shows "\<exists>st'. traverse A IncomingDirection st = Some st' \<and> acq_steps A st st' \<and> collection_done A st'"
proof -
  let ?mode = "r_Mode (a_Request st)"
  have ok: "run_ok A st" and all: "list_all2 (halfway A st) (requested st) (a_Targets st)" using half by (simp_all add: outgoing_done_def)
  have targets: "\<forall>t \<in> set (a_Targets st). \<exists>q. halfway A st q t" using list_all2_source [OF all] by blast
  have "ready_target st IncomingDirection t" if "halfway A st q t" for q t
  proof -
    have "direction_ok A st Outgoing (tr_Outgoing t)" using that by (simp add: halfway_def outgoing_ok_def)
    then have "reached (tr_Outgoing t) \<subseteq> node_ids st" "set (dr_FrontierIDs (tr_Outgoing t)) \<subseteq> reached (tr_Outgoing t)"
        "set (dr_SuccessfulEmptyIDs (tr_Outgoing t)) \<subseteq> reached (tr_Outgoing t)"
      by (simp_all add: direction_ok_def)
    then have "set (dr_FrontierIDs (tr_Outgoing t)) \<subseteq> node_ids st" "set (dr_SuccessfulEmptyIDs (tr_Outgoing t)) \<subseteq> node_ids st" by auto
    with that show ?thesis by (simp add: ready_target_def halfway_def resolved_target_def direction_of_def)
  qed
  with targets have "\<forall>t \<in> set (a_Targets st). ready_target st IncomingDirection t" by blast
  from traverse_ok [OF ok this] obtain st' where t: "traverse A IncomingDirection st = Some st'" "run_ok A st'" "acq_steps A st st'"
      "list_all2 (traversed A st' ?mode IncomingDirection) (a_Targets st) (a_Targets st')"
      "a_Complete st' = (a_Complete st \<and> (\<forall>t \<in> set (a_Targets st'). settled_status (dr_Status (direction_of IncomingDirection t))))"
    by auto
  have g: "grows st st'" using steps_grow [OF run_ok_nodes [OF ok] t(3)] by blast
  have eq: "requested st' = requested st" "r_Mode (a_Request st') = ?mode" using g by (simp_all add: requested_def grows_def)
  have each: "collected A st' q t' \<and> (settled_status (dr_Status (tr_Incoming t')) \<longrightarrow> successes (tr_Incoming t')) \<and> tr_Admission t' = tr_Admission t \<and>
      tr_Outgoing t' = tr_Outgoing t"
    if "halfway A st q t" "traversed A st' ?mode IncomingDirection t t'" for q t t'
  proof -
    have r: "resolved_target A st q t" and o: "outgoing_ok A st ?mode t" using that(1) by (simp_all add: halfway_def)
    have "tr_Admission t' = tr_Admission t" "tr_Resolution t' = tr_Resolution t" using that(2) by (auto simp: traversed_def)
    moreover have "outgoing_ok A st' ?mode t'"
      using o direction_ok_grows [OF _ g] incoming_traversed(3) [OF r that(2)] calculation by (simp add: outgoing_ok_def)
    ultimately show ?thesis
      using resolved_target_traversed [OF r that(2) g] incoming_traversed [OF r that(2)] by (simp add: collected_def eq)
  qed
  have "list_all2 (collected A st') (requested st) (a_Targets st')"
    by (rule list_all2_trans [OF _ all t(4)]) (use each in blast)
  moreover have "a_Complete st' \<longrightarrow> (\<forall>t \<in> set (a_Targets st'). tr_Admission t = Admitted \<and> successes (tr_Outgoing t) \<and> successes (tr_Incoming t))"
  proof (intro impI ballI)
    fix t'
    assume c: "a_Complete st'" "t' \<in> set (a_Targets st')"
    then obtain t where t': "t \<in> set (a_Targets st)" "traversed A st' ?mode IncomingDirection t t'" using list_all2_source [OF t(4)] by blast
    obtain q where q: "halfway A st q t" using targets t'(1) by blast
    from each [OF q t'(2)] c t(5) t'(1) half show "tr_Admission t' = Admitted \<and> successes (tr_Outgoing t') \<and> successes (tr_Incoming t')"
      by (auto simp: direction_of_def outgoing_done_def)
  qed
  ultimately show ?thesis using t eq by (auto simp: collection_done_def)
qed

lemma collect_ok:
  assumes "acq_start st"
  shows "\<exists>st'. collect A st = Some st' \<and> acq_steps A st st' \<and> collection_done A st'"
proof -
  obtain st1 where o: "(if r_Mode (a_Request (seed_phase A st)) = SliceMode then traverse A Outgoing (seed_phase A st) else Some (seed_phase A st)) = Some st1"
      "acq_steps A st st1" "outgoing_done A st1"
    using outgoing_phase [OF assms] by blast
  obtain st2 where i: "traverse A IncomingDirection st1 = Some st2" "acq_steps A st1 st2" "collection_done A st2" using incoming_phase [OF o(3)] by blast
  have "collect A st = Some st2" using o(1) i(1) by (simp add: collect_def Let_def)
  with o(2) i show ?thesis by (auto intro: rtranclp_trans)
qed

end
