(* ===== verification/Coordinator_Connections.thy ===== *)
theory Coordinator_Connections
  imports Coordinator_Traversal
begin

text \<open>
  The end of an acquisition: the canonical graph has the calls that were collected, every search for a connection returns, its answer
  passes the check, and the work of all searches stays within the limit.
\<close>

section \<open>The graph\<close>

lemma edge_key_canonical [simp]: "edge_key (canonical_edge E e) = edge_key e"
  by (simp add: edge_key_def canonical_edge_def)

lemma canonical_sites: "sites (Edges (Canonicalize E g)) k = sites (Edges g) k"
  by (simp add: Canonicalize_fields sites_def image_iff Bex_def) (auto simp: canonical_edge_def edge_key_def)

lemma canonical_keys:
  "edge_key ` set (Edges (Canonicalize E g)) = edge_key ` set (Edges g)"
  "distinct (map edge_key (Edges g)) \<Longrightarrow> distinct (map edge_key (Edges (Canonicalize E g)))"
proof -
  show "edge_key ` set (Edges (Canonicalize E g)) = edge_key ` set (Edges g)" by (simp add: Canonicalize_fields image_image)
  have "mset (map edge_key (Edges (Canonicalize E g))) = mset (map edge_key (Edges g))" by (simp add: Canonicalize_fields image_mset.compositionality comp_def)
  then show "distinct (map edge_key (Edges g)) \<Longrightarrow> distinct (map edge_key (Edges (Canonicalize E g)))" by (metis mset_eq_imp_distinct_iff)
qed

lemma raw_graph_fields: "Edges (raw_graph st) = Edges (a_Graph st)" "Result.Nodes (raw_graph st) = map snd (a_nodes st)"
  by (simp_all add: raw_graph_def Let_def)

text \<open>The states before and after the graph is finished hold the same evidence.\<close>

definition same_evidence :: "runner \<Rightarrow> runner \<Rightarrow> bool" where
  "same_evidence st st' \<longleftrightarrow> a_Request st' = a_Request st \<and> a_items st' = a_items st \<and> a_nodes st' = a_nodes st \<and> a_Requests st' = a_Requests st \<and>
     a_queries st' = a_queries st \<and>
     a_Targets st' = a_Targets st \<and> a_Complete st' = a_Complete st \<and> u_Nodes (a_Usage st') = u_Nodes (a_Usage st) \<and>
     u_Requests (a_Usage st') = u_Requests (a_Usage st) \<and> u_EvidenceBytes (a_Usage st') = u_EvidenceBytes (a_Usage st) \<and>
     u_PrepareProbes (a_Usage st') = u_PrepareProbes (a_Usage st) \<and>
     edge_key ` set (Edges (a_Graph st')) = edge_key ` set (Edges (a_Graph st)) \<and>
     (distinct (map edge_key (Edges (a_Graph st))) \<longrightarrow> distinct (map edge_key (Edges (a_Graph st')))) \<and>
     (\<forall>k. sites (Edges (a_Graph st')) k = sites (Edges (a_Graph st)) k)"

lemma same_evidence_grows: "same_evidence st st' \<Longrightarrow> grows st st'"
  by (simp add: same_evidence_def grows_def node_ids_def)

lemma same_evidence_ok:
  assumes "same_evidence st st'" and "evidence_ok A st"
  shows "evidence_ok A st'"
proof -
  note g = same_evidence_grows [OF assms(1)]
  have "ledger st'" using assms by (simp add: same_evidence_def evidence_ok_def ledger_def within_limits_def totals_def)
  moreover have "nodes_ok A st'" using assms by (simp add: same_evidence_def evidence_ok_def nodes_ok_def)
  moreover have "edges_ok A st'"
    using assms reported_grows [OF _ g] by (simp add: same_evidence_def evidence_ok_def edges_ok_def node_ids_def)
  ultimately show ?thesis by (simp add: evidence_ok_def)
qed

lemma collected_same:
  assumes "same_evidence st st'" and "collected A st q t"
  shows "collected A st' q t"
proof -
  note g = same_evidence_grows [OF assms(1)]
  have "a_Request st' = a_Request st" "node_ids st' = node_ids st" using assms(1) by (simp_all add: same_evidence_def node_ids_def)
  then show ?thesis
    using assms(2) direction_ok_grows [OF _ g] by (simp add: collected_def resolved_target_def outgoing_ok_def incoming_ok_def)
qed

lemma finishGraph_same:
  assumes "finishGraph A check st = Inr st'"
  shows "same_evidence st st'" "a_Graph st' = Canonicalize (ae_env A) (raw_graph st)"
proof -
  have st': "st' = st\<lparr>a_Graph := Canonicalize (ae_env A) (raw_graph st)\<rparr>" using assms by (simp add: finishGraph_def Let_def split: option.splits)
  then show "same_evidence st st'"
    using canonical_keys [where g = "raw_graph st"] by (simp add: same_evidence_def canonical_sites raw_graph_fields)
  show "a_Graph st' = Canonicalize (ae_env A) (raw_graph st)" by (simp add: st')
qed

lemma finished_nodes:
  assumes "finishGraph A check st = Inr st'" and "nodes_ok A st"
  shows "ID ` set (Result.Nodes (a_Graph st')) = node_ids st'"
proof -
  have n: "set (Result.Nodes (a_Graph st')) = snd ` set (a_nodes st)" unfolding finishGraph_same(2) [OF assms(1)] by (simp add: Canonicalize_fields raw_graph_fields)
  have "ID n = k" if "(k, n) \<in> set (a_nodes st)" for k n
  proof -
    have "map_of (a_nodes st) k = Some n" by (rule map_of_is_SomeI) (use that assms(2) in \<open>simp_all add: nodes_ok_def\<close>)
    then have "map_option (acq_node A) (map_of (a_items st) k) = Some n" using assms(2) unfolding nodes_ok_def by metis
    then obtain i where "map_of (a_items st) k = Some i" "n = acq_node A i" by auto
    with assms(2) show ?thesis by (simp add: nodes_ok_def)
  qed
  then have "ID ` snd ` set (a_nodes st) = fst ` set (a_nodes st)" by (force simp: image_iff)
  moreover have "a_nodes st' = a_nodes st" using finishGraph_same(1) [OF assms(1)] by (simp add: same_evidence_def)
  ultimately show ?thesis by (simp add: n node_ids_def)
qed

section \<open>Searches\<close>

definition spent :: "Budget \<Rightarrow> Budget \<Rightarrow> bool" where
  "spent b b' \<longleftrightarrow> Left b' \<le> Left b \<and> (0 \<le> Left b \<longrightarrow> 0 \<le> Left b')"

lemma spent_trans: "spent b b1 \<Longrightarrow> spent b1 b2 \<Longrightarrow> spent b b2"
  by (auto simp: spent_def)

lemma Tick_spent: "Tick cancelled b = (ok, b') \<Longrightarrow> spent b b'"
  by (auto simp: Tick_def Let_def spent_def split: if_splits)

lemma bfs_edges_spent: "bfs_edges cancelled es vs prev new b = (ok, vs', prev', new', b') \<Longrightarrow> spent b b'"
proof (induction es arbitrary: vs prev new b)
  case (Cons e es)
  obtain ok1 b1 where t: "Tick cancelled b = (ok1, b1)" by fastforce
  have "b1 = b' \<or> spent b1 b'" using Cons.prems Cons.IH t by (cases ok1; cases "vs (Callee e)") auto
  with Tick_spent [OF t] show ?case by (auto intro: spent_trans)
qed (simp add: spent_def)

lemma bfs_loop_spent: "bfs_loop cancelled out fin q vs prev b = (ex, prev', b') \<Longrightarrow> spent b b'"
proof (induction cancelled out fin q vs prev b rule: bfs_loop.induct)
  case (2 cancelled out fin v q vs prev b)
  obtain ok1 b1 where t: "Tick cancelled b = (ok1, b1)" by fastforce
  obtain ok2 vs' prev'' new b2 where e: "bfs_edges cancelled (out v) vs prev [] b1 = (ok2, vs', prev'', new, b2)" by (metis prod_cases5)
  note s = Tick_spent [OF t] spent_trans [OF Tick_spent [OF t] bfs_edges_spent [OF e]]
  show ?case
  proof (cases "ok1 \<and> v \<noteq> fin \<and> ok2")
    case True
    then have "bfs_loop cancelled out fin (q @ new) vs' prev'' b2 = (ex, prev', b')" using "2.prems" t e by (simp add: bfs_loop.simps(2))
    then have "spent b2 b'" using "2.IH" [OF t [symmetric] _ _ e [symmetric] refl refl refl] True by simp
    with s(2) show ?thesis by (rule spent_trans)
  next
    case False
    with "2.prems" t e s show ?thesis by (auto simp: bfs_loop.simps(2) split: if_splits)
  qed
qed (simp add: spent_def)

lemma Search_spent:
  assumes "Search cancelled nodes edges u v b = Some (Inr (r, b'))"
  shows "spent b b'"
proof -
  define b1 where "b1 = b\<lparr>Polls := Suc (Polls b), BudgetReason := (if cancelled (Polls b) then ''CANCELLED'' else BudgetReason b)\<rparr>"
  have b1: "spent b b1" by (simp add: b1_def spent_def)
  obtain ex prev b2 where run: "bfs_loop cancelled (fst (Indexes edges)) v [u] ((\<lambda>_. False)(u := True)) Map.empty b1 = (ex, prev, b2)"
    by (metis prod_cases3)
  have "b' = b1 \<or> b' = b2"
    using assms shortest_budget [OF run] by (auto simp: Search_def Let_def b1_def [symmetric] split: if_splits option.splits prod.splits)
  with b1 spent_trans [OF b1 bfs_loop_spent [OF run]] show ?thesis by blast
qed

section \<open>Connections\<close>

text \<open>A connection that is true of the edges: the best path, or there is none, or the search was cut short.\<close>

definition connected_by :: "Retained_Path.Edge list \<Rightarrow> string \<Rightarrow> string \<Rightarrow> Connection \<Rightarrow> bool" where
  "connected_by edges u v c \<longleftrightarrow> cn_From c = u \<and> cn_To c = v \<and> cn_Direction c = ''CALLER_TO_CALLEE'' \<and>
     (cn_Status c = ''FOUND'' \<and> cn_Reason c = '''' \<and> (\<exists>es. best_path edges u es v \<and> cn_Path c = path_of u es)
      \<or> cn_Status c = ''NOT_FOUND_IN_RETAINED_GRAPH'' \<and> cn_Reason c = '''' \<and> cn_Path c = emptyPath \<and> (\<nexists>es. edge_path edges u es v)
      \<or> cn_Status c = ''INCOMPLETE'' \<and> cn_Reason c \<noteq> '''' \<and> cn_Path c = emptyPath)"

definition connection_of :: "Mode \<Rightarrow> Retained_Path.Edge list \<Rightarrow> TargetResult \<Rightarrow> TargetResult \<Rightarrow> Connection \<Rightarrow> bool" where
  "connection_of mode edges root t c =
     (if tr_Admission root = Admitted \<and> tr_Admission t = Admitted
      then (if mode = IncomingMode then connected_by edges (resolutionID (tr_Resolution t)) (resolutionID (tr_Resolution root)) c
            else connected_by edges (resolutionID (tr_Resolution root)) (resolutionID (tr_Resolution t)) c)
      else c = no_connection)"

lemma connect_one_ok:
  assumes "u \<in> set nodes" and "v \<in> set nodes"
  shows "\<exists>c b'. connect_one cancelled nodes edges u v b = Some (Inr (c, b')) \<and> connected_by edges u v c \<and> spent b b' \<and> cn_Work c = Left b - Left b'"
proof -
  obtain r b' where s: "Search cancelled nodes edges u v b = Some (Inr (r, b'))" and a: "search_answer edges u v r"
    using Search_answer [OF assms] by blast
  let ?c = "\<lparr>cn_From = u, cn_To = v, cn_Direction = ''CALLER_TO_CALLEE'', cn_Status = Status r, cn_Reason = Reason r, cn_Path = ResultPath r, cn_Work = Left b - Left b'\<rparr>"
  have "Status r \<noteq> ''INCOMPLETE'' \<Longrightarrow> Prove edges u v (Status r) (ResultPath r) = Inr ()" by (rule search_answer_accepted [OF a])
  then have "connect_one cancelled nodes edges u v b = Some (Inr (?c, b'))" using s by (simp add: connect_one_def)
  moreover have "(\<nexists>is. fwd.wend edges u is = Some v) \<Longrightarrow> (\<nexists>es. edge_path edges u es v)" using edge_path_fwd by blast
  then have "connected_by edges u v ?c"
    using a least_best [of edges u _ v] unfolding search_answer_def connected_by_def by (elim disjE) auto
  ultimately show ?thesis using Search_spent [OF s] by auto
qed

lemma no_connection_work [simp]: "cn_Work no_connection = 0"
  by (simp add: no_connection_def)

lemma connect_targets_ok:
  "(tr_Admission root = Admitted \<Longrightarrow> resolutionID (tr_Resolution root) \<in> set nodes) \<Longrightarrow>
   \<forall>t \<in> set ts. tr_Admission t = Admitted \<longrightarrow> resolutionID (tr_Resolution t) \<in> set nodes \<Longrightarrow>
   \<exists>cs b'. connect_targets cancelled mode nodes edges root ts b = Some (Inr (cs, b')) \<and> list_all2 (connection_of mode edges root) ts cs \<and>
     spent b b' \<and> sum_list (map cn_Work cs) = Left b - Left b'"
proof (induction ts arbitrary: b)
  case Nil
  show ?case by (simp add: spent_def)
next
  case (Cons t ts)
  let ?a = "resolutionID (tr_Resolution root)" and ?z = "resolutionID (tr_Resolution t)"
  let ?one = "if tr_Admission root \<noteq> Admitted \<or> tr_Admission t \<noteq> Admitted then Some (Inr (no_connection, b))
    else if mode = IncomingMode then connect_one cancelled nodes edges ?z ?a b else connect_one cancelled nodes edges ?a ?z b"
  have "\<exists>c b1. ?one = Some (Inr (c, b1)) \<and> connection_of mode edges root t c \<and> spent b b1 \<and> cn_Work c = Left b - Left b1"
  proof (cases "tr_Admission root = Admitted \<and> tr_Admission t = Admitted")
    case True
    then have "?a \<in> set nodes" "?z \<in> set nodes" using Cons.prems by simp_all
    with True show ?thesis using connect_one_ok [of ?a nodes ?z] connect_one_ok [of ?z nodes ?a] by (simp add: connection_of_def)
  next
    case False
    then show ?thesis by (auto simp: connection_of_def spent_def)
  qed
  then obtain c b1 where one: "?one = Some (Inr (c, b1))" "connection_of mode edges root t c" "spent b b1" "cn_Work c = Left b - Left b1" by blast
  have "\<forall>t \<in> set ts. tr_Admission t = Admitted \<longrightarrow> resolutionID (tr_Resolution t) \<in> set nodes" using Cons.prems(2) by simp
  from Cons.IH [OF Cons.prems(1) this, of b1] obtain cs b' where rest: "connect_targets cancelled mode nodes edges root ts b1 = Some (Inr (cs, b'))"
      "list_all2 (connection_of mode edges root) ts cs" "spent b1 b'" "sum_list (map cn_Work cs) = Left b1 - Left b'"
    by blast
  have "connect_targets cancelled mode nodes edges root (t # ts) b = Some (Inr (c # cs, b'))" using one(1) rest(1) by (simp add: Let_def)
  with one rest show ?case by (auto intro: spent_trans)
qed

definition path_edges :: "runner \<Rightarrow> Retained_Path.Edge list" where
  "path_edges st = snd (PathInput (a_Graph st) (ac_ID (r_Context (a_Request st))))"

lemma connect_ok:
  assumes "a_Targets st \<noteq> []" and "0 \<le> MaxPathWork (r_Limits (a_Request st))"
    and "\<forall>t \<in> set (a_Targets st). tr_Admission t = Admitted \<longrightarrow> resolutionID (tr_Resolution t) \<in> ID ` set (Result.Nodes (a_Graph st))"
  shows "\<exists>cs st'. connect cancelled st = Some (Inr (cs, st')) \<and> same_evidence st st' \<and> a_Graph st' = a_Graph st \<and> hd cs = no_connection \<and>
    list_all2 (connection_of (r_Mode (a_Request st)) (path_edges st) (hd (a_Targets st))) (tl (a_Targets st)) (tl cs) \<and> cs \<noteq> [] \<and>
    0 \<le> u_PathWork (a_Usage st') \<and> u_PathWork (a_Usage st') \<le> MaxPathWork (r_Limits (a_Request st)) \<and> u_PathWork (a_Usage st') = sum_list (map cn_Work cs)"
proof -
  let ?b = "\<lparr>Polls = 0, Left = MaxPathWork (r_Limits (a_Request st)), BudgetReason = ''''\<rparr>"
  let ?nodes = "fst (PathInput (a_Graph st) (ac_ID (r_Context (a_Request st))))"
  have n: "set ?nodes = ID ` set (Result.Nodes (a_Graph st))" by (simp add: PathInput_def)
  have t: "hd (a_Targets st) \<in> set (a_Targets st)" "set (tl (a_Targets st)) \<subseteq> set (a_Targets st)" using assms(1) by (cases "a_Targets st"; simp add: subset_insertI)+
  obtain cs b' where c: "connect_targets cancelled (r_Mode (a_Request st)) ?nodes (path_edges st) (hd (a_Targets st)) (tl (a_Targets st)) ?b = Some (Inr (cs, b'))"
      "list_all2 (connection_of (r_Mode (a_Request st)) (path_edges st) (hd (a_Targets st))) (tl (a_Targets st)) cs" "spent ?b b'"
      "sum_list (map cn_Work cs) = Left ?b - Left b'"
    using connect_targets_ok [of "hd (a_Targets st)" ?nodes "tl (a_Targets st)"] assms(3) t unfolding n by blast
  let ?st = "st\<lparr>a_Usage := (a_Usage st)\<lparr>u_PathWork := MaxPathWork (r_Limits (a_Request st)) - Left b'\<rparr>\<rparr>"
  have "connect cancelled st = Some (Inr (no_connection # cs, ?st))"
    using c(1) unfolding connect_def path_edges_def by (simp add: case_prod_beta)
  moreover have "same_evidence st ?st" by (simp add: same_evidence_def)
  ultimately show ?thesis using c assms(2) by (auto simp: spent_def)
qed

section \<open>A whole acquisition\<close>

lemma valid_limits: "ValidateRequest A r = None \<Longrightarrow> limits_ok (r_Limits r) \<and> 0 \<le> MaxPathWork (r_Limits r) \<and> r_Mode r \<noteq> OtherMode"
  by (cases "r_Mode r") (auto simp: ValidateRequest_def Let_def limits_ok_def split: if_splits)

text \<open>What an acquisition that returns a result has gone through.\<close>

definition acquired :: "acq_env \<Rightarrow> Request \<Rightarrow> Connection list \<times> runner \<Rightarrow> bool" where
  "acquired A r x \<longleftrightarrow> (case x of (cs, st) \<Rightarrow> a_Request st = r \<and> evidence_ok A st \<and> asked_once st \<and> list_all2 (collected A st) (r_Root r # r_RequiredTargets r) (a_Targets st) \<and>
     (a_Complete st \<longrightarrow> (\<forall>t \<in> set (a_Targets st). tr_Admission t = Admitted \<and> successes (tr_Outgoing t) \<and> successes (tr_Incoming t))) \<and>
     ID ` set (Result.Nodes (a_Graph st)) = node_ids st \<and> cs \<noteq> [] \<and> hd cs = no_connection \<and>
     list_all2 (connection_of (r_Mode r) (path_edges st) (hd (a_Targets st))) (tl (a_Targets st)) (tl cs) \<and>
     0 \<le> u_PathWork (a_Usage st) \<and> u_PathWork (a_Usage st) \<le> MaxPathWork (r_Limits r) \<and> u_PathWork (a_Usage st) = sum_list (map cn_Work cs))"

lemma evidence_acquired:
  assumes "ValidateRequest A r = None"
  shows "\<exists>out. acquireEvidence A check (start_runner r) = Some out \<and>
    (case out of Inl e \<Rightarrow> \<exists>g. check g = Some e | Inr st \<Rightarrow> \<exists>x. connect cancelled st = Some (Inr x) \<and> acquired A r x)"
proof -
  note v = valid_limits [OF assms]
  have start: "acq_start (start_runner r)" using v by (auto simp: acq_start_def)
  obtain st0 where c: "collect A (start_runner r) = Some st0" "acq_steps A (start_runner r) st0" "collection_done A st0" using collect_ok [OF start] by blast
  have "nodes_ok A (start_runner r)" using evidence_start [OF start] by (simp add: evidence_ok_def)
  then have "grows (start_runner r) st0" using steps_grow c(2) by blast
  then have req: "a_Request st0 = r" by (simp add: grows_def start_runner_def)
  have ev: "evidence_ok A st0" and all: "list_all2 (collected A st0) (r_Root r # r_RequiredTargets r) (a_Targets st0)"
    using c(3) req by (simp_all add: collection_done_def run_ok_def requested_def)
  show ?thesis
  proof (cases "finishGraph A check st0")
    case (Inl e)
    then have "\<exists>g. check g = Some e" by (auto simp: finishGraph_def Let_def split: option.splits)
    with c(1) Inl show ?thesis by (simp add: acquireEvidence_def)
  next
    case (Inr st)
    note s = finishGraph_same [OF Inr]
    have nodes: "ID ` set (Result.Nodes (a_Graph st)) = node_ids st" by (rule finished_nodes [OF Inr]) (use ev in \<open>simp add: evidence_ok_def\<close>)
    have all': "list_all2 (collected A st) (r_Root r # r_RequiredTargets r) (a_Targets st)"
      using all s(1) collected_same [OF s(1)] by (auto simp: same_evidence_def intro: list_all2_mono)
    have in_graph: "\<forall>t \<in> set (a_Targets st). tr_Admission t = Admitted \<longrightarrow> resolutionID (tr_Resolution t) \<in> ID ` set (Result.Nodes (a_Graph st))"
      unfolding nodes using list_all2_source [OF all'] by (fastforce simp: collected_def resolved_target_def)
    have req': "a_Request st = r" using s(1) req by (simp add: same_evidence_def)
    have "a_Targets st \<noteq> []" using all' by auto
    from connect_ok [OF this _ in_graph, of cancelled] v req' obtain cs st' where k: "connect cancelled st = Some (Inr (cs, st'))" "same_evidence st st'" "a_Graph st' = a_Graph st"
        "hd cs = no_connection" "list_all2 (connection_of (r_Mode r) (path_edges st) (hd (a_Targets st))) (tl (a_Targets st)) (tl cs)" "cs \<noteq> []"
        "0 \<le> u_PathWork (a_Usage st')" "u_PathWork (a_Usage st') \<le> MaxPathWork (r_Limits r)" "u_PathWork (a_Usage st') = sum_list (map cn_Work cs)"
      by auto
    have same: "a_Targets st' = a_Targets st" "a_Request st' = r" "a_Complete st' = a_Complete st0" "a_Targets st' = a_Targets st0" "node_ids st' = node_ids st"
      using s(1) k(2) req' by (simp_all add: same_evidence_def node_ids_def)
    have "list_all2 (collected A st') (r_Root r # r_RequiredTargets r) (a_Targets st')"
      unfolding same(1) using all' collected_same [OF k(2)] by (auto intro: list_all2_mono)
    moreover have "path_edges st' = path_edges st" using k(3) same(2) req' by (simp add: path_edges_def)
    moreover have "evidence_ok A st'" by (rule same_evidence_ok [OF k(2) same_evidence_ok [OF s(1) ev]])
    moreover have "asked_once st'"
      using c(3) s(1) k(2) by (simp add: collection_done_def run_ok_def queries_ok_def same_evidence_def asked_once_def asks_def)
    ultimately have "acquired A r (cs, st')"
      using k same nodes c(3) unfolding acquired_def by (simp add: collection_done_def)
    with c(1) Inr k(1) show ?thesis by (auto simp: acquireEvidence_def)
  qed
qed

lemma Acquire_acquired:
  assumes "Acquire A cancelled check_graph check_result r = Some (Inr x)"
  shows "acquired A r x"
proof -
  have v: "ValidateRequest A r = None" using assms by (auto simp: Acquire_def split: option.splits)
  obtain out where o: "acquireEvidence A check_graph (start_runner r) = Some out"
      "case out of Inl e \<Rightarrow> \<exists>g. check_graph g = Some e | Inr st \<Rightarrow> \<exists>x. connect cancelled st = Some (Inr x) \<and> acquired A r x"
    using evidence_acquired [OF v, of check_graph cancelled] by blast
  show ?thesis using o assms v by (cases out) (auto simp: Acquire_def split: option.splits)
qed

end
