(* ===== verification/Coordinator_Properties.thy ===== *)
theory Coordinator_Properties
  imports Coordinator_Connections
begin

text \<open>
  What an acquisition promises: it returns, within its budgets; what it keeps was reported; what it calls complete is; layers are
  distances; and connections are true of the graph.
\<close>

section \<open>Distances\<close>

lemma visits_sound:
  assumes "direction_ok A st d r"
  shows "(x, k) \<in> visits r \<Longrightarrow> \<exists>s \<in> set (dr_StartIDs r). (neighbor_call A st d ^^ k) s x"
proof (induction k arbitrary: x)
  case 0
  then show ?case using assms unfolding direction_ok_def by (metis nat.distinct(1) relpowp_0_I)
next
  case (Suc k)
  then obtain y where y: "(y, k) \<in> visits r" "neighbor_call A st d y x" using assms unfolding direction_ok_def by (metis nat.distinct(1) nat.inject)
  then show ?case using Suc.IH relpowp_Suc_I by metis
qed

lemma visits_closed:
  assumes ok: "direction_ok A st d r" and su: "successes r" and once: "asked_once st" and s: "s \<in> set (dr_StartIDs r)"
  shows "(neighbor_call A st d ^^ n) s x \<Longrightarrow> \<exists>k \<le> n. (x, k) \<in> visits r"
proof (induction n arbitrary: x)
  case 0
  then show ?case using ok s by (auto simp: direction_ok_def)
next
  case (Suc n)
  then obtain y where y: "(neighbor_call A st d ^^ n) s y" "neighbor_call A st d y x" by auto
  obtain k where k: "k \<le> n" "(y, k) \<in> visits r" using Suc.IH [OF y(1)] by blast
  then obtain e where e: "e \<in> set (dr_Expansions r)" "ex_NodeID e = y" "ex_Depth e = k" by (auto simp: visits_def)
  have "followed A st d r e" using ok su e(1) by (simp add: direction_ok_def successes_def)
  then obtain rid calls where f: "answered A st d y rid calls" "\<forall>c \<in> set calls. \<exists>j \<le> Suc k. (ID (acq_node A (call_Item c)), j) \<in> visits r"
    unfolding followed_def e by blast
  obtain rid' calls' c where c: "answered A st d y rid' calls'" "c \<in> set calls'" "x = ID (acq_node A (call_Item c))" using y(2) unfolding neighbor_call_def by blast
  have "calls' = calls" by (rule answered_unique [OF once f(1) c(1)])
  then show ?case using f(2) c(2,3) k(1) by (meson Suc_le_mono le_trans)
qed

lemma visits_distance:
  assumes "direction_ok A st d r" and "successes r" and "asked_once st"
  shows "(x, k) \<in> visits r \<longleftrightarrow> (\<exists>s \<in> set (dr_StartIDs r). (neighbor_call A st d ^^ k) s x) \<and> (\<forall>j < k. \<forall>s \<in> set (dr_StartIDs r). \<not> (neighbor_call A st d ^^ j) s x)"
proof
  assume v: "(x, k) \<in> visits r"
  have "\<not> (neighbor_call A st d ^^ j) s x" if js: "j < k" "s \<in> set (dr_StartIDs r)" for j s
  proof
    assume "(neighbor_call A st d ^^ j) s x"
    then obtain i where "i \<le> j" "(x, i) \<in> visits r" using visits_closed [OF assms js(2)] by blast
    moreover have "inj_on fst (visits r)" using assms(1) by (simp add: direction_ok_def)
    ultimately have "(x, i) = (x, k)" using v by (metis fst_conv inj_onD)
    with \<open>i \<le> j\<close> js(1) show False by simp
  qed
  with visits_sound [OF assms(1) v] show "(\<exists>s \<in> set (dr_StartIDs r). (neighbor_call A st d ^^ k) s x) \<and> (\<forall>j < k. \<forall>s \<in> set (dr_StartIDs r). \<not> (neighbor_call A st d ^^ j) s x)"
    by blast
next
  assume n: "(\<exists>s \<in> set (dr_StartIDs r). (neighbor_call A st d ^^ k) s x) \<and> (\<forall>j < k. \<forall>s \<in> set (dr_StartIDs r). \<not> (neighbor_call A st d ^^ j) s x)"
  then obtain i where i: "i \<le> k" "(x, i) \<in> visits r" using visits_closed [OF assms] by blast
  then have "\<not> i < k" using visits_sound [OF assms(1) i(2)] n by blast
  with i show "(x, k) \<in> visits r" by simp
qed

section \<open>Properties\<close>

definition direction_complete :: "acq_env \<Rightarrow> runner \<Rightarrow> AcqDirection \<Rightarrow> DirectionResult \<Rightarrow> bool" where
  "direction_complete A st d r \<longleftrightarrow> (\<forall>x \<in> reached r. \<exists>rid calls. answered A st d x rid calls \<and>
     (\<forall>c \<in> set calls. call_kept A st d x c \<and> ID (acq_node A (call_Item c)) \<in> reached r))"

lemma direction_completeI: "direction_ok A st d r \<Longrightarrow> successes r \<Longrightarrow> direction_complete A st d r"
proof -
  assume ok: "direction_ok A st d r" "successes r"
  have "\<exists>rid calls. answered A st d x rid calls \<and> (\<forall>c \<in> set calls. call_kept A st d x c \<and> ID (acq_node A (call_Item c)) \<in> reached r)"
    if x: "x \<in> reached r" for x
  proof -
    obtain e where e: "e \<in> set (dr_Expansions r)" "ex_NodeID e = x" using x by (auto simp: reached_def)
    have "followed A st d r e" using ok e(1) by (simp add: direction_ok_def successes_def)
    then obtain rid calls where f: "answered A st d x rid calls"
        "\<forall>c \<in> set calls. call_kept A st d x c \<and> (\<exists>j \<le> Suc (ex_Depth e). (ID (acq_node A (call_Item c)), j) \<in> visits r)"
      unfolding followed_def e(2) by blast
    have "ID (acq_node A (call_Item c)) \<in> reached r" if c: "c \<in> set calls" for c
    proof -
      obtain j where "(ID (acq_node A (call_Item c)), j) \<in> visits r" using f(2) c by blast
      then show ?thesis unfolding reached_visits by (rule image_eqI [rotated]) simp
    qed
    with f show ?thesis by blast
  qed
  then show "direction_complete A st d r" unfolding direction_complete_def by blast
qed

lemma starts_reached: "direction_ok A st d r \<Longrightarrow> set (dr_StartIDs r) \<subseteq> reached r"
proof
  fix x
  assume "direction_ok A st d r" "x \<in> set (dr_StartIDs r)"
  then have "(x, 0) \<in> visits r" by (simp add: direction_ok_def)
  then show "x \<in> reached r" unfolding reached_visits by (rule image_eqI [rotated]) simp
qed

lemma acquired_target:
  assumes "acquired A r (cs, st)" and "t \<in> set (a_Targets st)"
  shows "\<exists>q \<in> set (r_Root r # r_RequiredTargets r). collected A st q t"
proof -
  have "list_all2 (collected A st) (r_Root r # r_RequiredTargets r) (a_Targets st)" using assms(1) by (simp add: acquired_def)
  from list_all2_source [OF this assms(2)] show ?thesis .
qed

lemma acquired_directions:
  assumes "acquired A r (cs, st)" and "t \<in> set (a_Targets st)"
  shows "direction_ok A st d (direction_of d t)" "layers_ok (direction_of d t)" "a_Complete st \<Longrightarrow> successes (direction_of d t)"
proof -
  obtain q where q: "collected A st q t" using acquired_target [OF assms] by blast
  show "direction_ok A st d (direction_of d t)" "layers_ok (direction_of d t)"
    using q by (cases d; simp add: collected_def outgoing_ok_def incoming_ok_def direction_of_def)+
  show "a_Complete st \<Longrightarrow> successes (direction_of d t)"
    using assms by (cases d; simp add: acquired_def direction_of_def)
qed

lemma acquire_ends:
  "\<exists>out. Acquire A cancelled check_graph check_result r = Some out \<and>
     (case out of
        Inl (RequestError e) \<Rightarrow> ValidateRequest A r = Some e
      | Inl (GraphError e) \<Rightarrow> \<exists>g. check_graph g = Some e
      | Inl (ConnectError e) \<Rightarrow> False
      | Inl (ResultError e) \<Rightarrow> \<exists>x. check_result x = Some e
      | Inr x \<Rightarrow> ValidateRequest A r = None)"
proof (cases "ValidateRequest A r")
  case None
  obtain out where o: "acquireEvidence A check_graph (start_runner r) = Some out"
      "case out of Inl e \<Rightarrow> \<exists>g. check_graph g = Some e | Inr st \<Rightarrow> \<exists>x. connect cancelled st = Some (Inr x) \<and> acquired A r x"
    using evidence_acquired [OF None, of check_graph cancelled] by blast
  show ?thesis
  proof (cases out)
    case (Inl e)
    with o None show ?thesis by (simp add: Acquire_def)
  next
    case (Inr st)
    then obtain x where x: "connect cancelled st = Some (Inr x)" using o(2) by auto
    show ?thesis using o(1) Inr None x by (cases x; cases "check_result x") (auto simp: Acquire_def)
  qed
qed (simp add: Acquire_def)

text \<open>
  C11. \<open>Acquire\<close> always returns: the rounds of the traversal end. An error is a refused request or one that the final checks report;
  the search for connections never fails.
\<close>

theorem Acquire_returns:
  "\<exists>out. Acquire A cancelled check_graph check_result r = Some out \<and>
     (case out of
        Inl (RequestError e) \<Rightarrow> ValidateRequest A r = Some e
      | Inl (GraphError e) \<Rightarrow> \<exists>g. check_graph g = Some e
      | Inl (ConnectError e) \<Rightarrow> False
      | Inl (ResultError e) \<Rightarrow> \<exists>x. check_result x = Some e
      | Inr x \<Rightarrow> ValidateRequest A r = None)"
  by (rule acquire_ends)

text \<open>
  C10. The budget of an acquisition holds and its account is right: the numbers of nodes, of requests, of bytes of evidence, of probes
  and of steps of path search are within the limits and are those of the graph, the records and the connections, and every record has
  the usage before it.
\<close>

theorem Acquire_budget:
  assumes "Acquire A cancelled check_graph check_result r = Some (Inr (cs, st))"
  shows "int (card (ID ` set (Result.Nodes (a_Graph st)))) = u_Nodes (a_Usage st) \<and> within_limits (r_Limits r) (a_Usage st) \<and> totals (a_Requests st) (a_Usage st) \<and>
    u_PathWork (a_Usage st) = sum_list (map cn_Work cs) \<and> 0 \<le> u_PathWork (a_Usage st) \<and> u_PathWork (a_Usage st) \<le> MaxPathWork (r_Limits r) \<and>
    (\<forall>k < length (a_Requests st). rq_ID (a_Requests st ! k) = request_id (Suc k) \<and> totals (take k (a_Requests st)) (rq_Before (a_Requests st ! k)) \<and>
      (rq_Attempted (a_Requests st ! k) \<longleftrightarrow> rq_Outcome (a_Requests st ! k) \<noteq> OutcomeBlocked)) \<and>
    (\<forall>d nid. length (asks st d nid) \<le> 1)"
proof -
  have a: "acquired A r (cs, st)" by (rule Acquire_acquired [OF assms])
  then have l: "ledger st" "nodes_ok A st" "a_Request st = r" by (simp_all add: acquired_def evidence_ok_def)
  have "card (node_ids st) = length (a_nodes st)" using l(2) unfolding nodes_ok_def node_ids_def by (metis distinct_card image_set length_map)
  then have n: "int (card (ID ` set (Result.Nodes (a_Graph st)))) = u_Nodes (a_Usage st)" using a l(1) by (simp add: acquired_def ledger_def)
  have once: "length (asks st d nid) \<le> 1" for d nid
    by (rule le_trans [OF asked_onceD]) (use a in \<open>simp_all add: acquired_def\<close>)
  show ?thesis
    using n once a l by (simp add: acquired_def ledger_def records_ok_def)
qed

text \<open>
  C9. Every edge of the graph joins two of its nodes and is a call that the server reported for one of them, every call site is one
  of those reported for the call, and no two edges have the same caller and callee.
\<close>

theorem Acquire_evidence:
  assumes "Acquire A cancelled check_graph check_result r = Some (Inr (cs, st))"
  shows "distinct (map edge_key (Edges (a_Graph st))) \<and>
    (\<forall>e \<in> set (Edges (a_Graph st)). {CallerNodeID e, CalleeNodeID e} \<subseteq> ID ` set (Result.Nodes (a_Graph st)) \<and> call_reported A st (edge_key e) \<and>
      (\<forall>s \<in> set (CallSites e). site_reported A st (edge_key e) s))"
proof -
  have a: "acquired A r (cs, st)" by (rule Acquire_acquired [OF assms])
  then have ok: "edges_ok A st" and n: "ID ` set (Result.Nodes (a_Graph st)) = node_ids st" by (simp_all add: acquired_def evidence_ok_def)
  have "{CallerNodeID e, CalleeNodeID e} \<subseteq> node_ids st \<and> call_reported A st (edge_key e) \<and> (\<forall>s \<in> set (CallSites e). site_reported A st (edge_key e) s)"
    if e: "e \<in> set (Edges (a_Graph st))" for e
  proof -
    have "edge_key e \<in> edge_key ` set (Edges (a_Graph st))" using e by simp
    then have "fst (edge_key e) \<in> node_ids st \<and> snd (edge_key e) \<in> node_ids st \<and> call_reported A st (edge_key e)" using ok unfolding edges_ok_def by blast
    moreover have "set (CallSites e) \<subseteq> sites (Edges (a_Graph st)) (edge_key e)" using e by (auto simp: sites_def)
    then have "\<forall>s \<in> set (CallSites e). site_reported A st (edge_key e) s" using ok unfolding edges_ok_def by blast
    ultimately show ?thesis by (simp add: edge_key_def)
  qed
  with ok show ?thesis unfolding n by (simp add: edges_ok_def)
qed

text \<open>
  C7. A complete acquisition has left nothing out: every target is resolved and its node is in the graph; the traversal has asked for
  the calls of every node it reached, in each direction it went, and every call of the answers is an edge of the graph with all its
  call sites and leads to a node that was reached as well. In slice mode the callees are followed from the target and the callers from
  the nodes without callees, otherwise the callers are followed from the target.
\<close>

theorem Acquire_complete:
  assumes "Acquire A cancelled check_graph check_result r = Some (Inr (cs, st))" and "a_Complete st" and "t \<in> set (a_Targets st)"
  shows "rs_Status (tr_Resolution t) = Resolved \<and> resolutionID (tr_Resolution t) \<in> ID ` set (Result.Nodes (a_Graph st)) \<and>
    direction_complete A st Outgoing (tr_Outgoing t) \<and> direction_complete A st IncomingDirection (tr_Incoming t) \<and>
    (if r_Mode r = SliceMode then resolutionID (tr_Resolution t) \<in> reached (tr_Outgoing t) \<and> set (dr_SuccessfulEmptyIDs (tr_Outgoing t)) \<subseteq> reached (tr_Incoming t)
     else resolutionID (tr_Resolution t) \<in> reached (tr_Incoming t))"
proof -
  have a: "acquired A r (cs, st)" by (rule Acquire_acquired [OF assms(1)])
  note d = acquired_directions [OF a assms(3)]
  obtain q where q: "collected A st q t" using acquired_target [OF a assms(3)] by blast
  have ad: "tr_Admission t = Admitted" "ID ` set (Result.Nodes (a_Graph st)) = node_ids st" "a_Request st = r"
    using a assms(2,3) by (simp_all add: acquired_def)
  have "direction_complete A st Outgoing (tr_Outgoing t) \<and> direction_complete A st IncomingDirection (tr_Incoming t)"
    using direction_completeI [OF d(1) d(3) [OF assms(2)], of Outgoing] direction_completeI [OF d(1) d(3) [OF assms(2)], of IncomingDirection]
    by (simp add: direction_of_def)
  moreover have "set (dr_StartIDs (tr_Outgoing t)) \<subseteq> reached (tr_Outgoing t)" "set (dr_StartIDs (tr_Incoming t)) \<subseteq> reached (tr_Incoming t)"
    using starts_reached [OF d(1), of Outgoing] starts_reached [OF d(1), of IncomingDirection] by (simp_all add: direction_of_def)
  ultimately show ?thesis
    using q ad by (auto simp: collected_def outgoing_ok_def incoming_ok_def resolved_target_def)
qed

text \<open>
  C8. The layers of a complete acquisition are distances: layer \<open>k\<close> of a target, in either direction, holds the nodes that are
  \<open>k\<close> reported calls away from the nodes the traversal starts at, and no fewer; no reported call leads out of the layers.
\<close>

theorem Acquire_layers:
  assumes "Acquire A cancelled check_graph check_result r = Some (Inr (cs, st))" and "a_Complete st" and "t \<in> set (a_Targets st)" and "D = direction_of d t"
  shows "(\<forall>k < length (dr_Layers D). Depth (dr_Layers D ! k) = int k \<and>
      set (NodeIDs (dr_Layers D ! k)) = {x. (\<exists>s \<in> set (dr_StartIDs D). (neighbor_call A st d ^^ k) s x) \<and>
        (\<forall>j < k. \<forall>s \<in> set (dr_StartIDs D). \<not> (neighbor_call A st d ^^ j) s x)}) \<and>
    (\<forall>s \<in> set (dr_StartIDs D). \<forall>x. (neighbor_call A st d)\<^sup>*\<^sup>* s x \<longrightarrow> (\<exists>k < length (dr_Layers D). x \<in> set (NodeIDs (dr_Layers D ! k))))"
proof -
  have a: "acquired A r (cs, st)" by (rule Acquire_acquired [OF assms(1)])
  note d = acquired_directions [OF a assms(3), of d, folded assms(4)]
  have once: "asked_once st" using a by (simp add: acquired_def)
  note v = visits_distance [OF d(1) d(3) [OF assms(2)] once]
  have "\<exists>k < length (dr_Layers D). x \<in> set (NodeIDs (dr_Layers D ! k))" if s: "s \<in> set (dr_StartIDs D)" "(neighbor_call A st d)\<^sup>*\<^sup>* s x" for s x
  proof -
    obtain n where "(neighbor_call A st d ^^ n) s x" using s(2) by (auto simp: rtranclp_is_Sup_relpowp)
    then obtain k where "(x, k) \<in> visits D" using visits_closed [OF d(1) d(3) [OF assms(2)] once s(1)] by blast
    then show ?thesis using d(2) unfolding layers_ok_def by blast
  qed
  then show ?thesis using d(2) unfolding layers_ok_def v by blast
qed

text \<open>
  A connection is true of the graph that is returned: for a target that is admitted, as the root is, \<open>FOUND\<close> comes with the
  best path between the two (from the target to the root in incoming mode), \<open>NOT_FOUND_IN_RETAINED_GRAPH\<close> means that there is none,
  and a search that is cut short gives its reason; other targets have no connection.
\<close>

theorem Acquire_connections:
  assumes "Acquire A cancelled check_graph check_result r = Some (Inr (cs, st))"
  shows "length cs = length (a_Targets st) \<and> cs ! 0 = no_connection \<and>
    (\<forall>i \<in> {1..<length cs}. connection_of (r_Mode r) (path_edges st) (a_Targets st ! 0) (a_Targets st ! i) (cs ! i))"
proof -
  have a: "acquired A r (cs, st)" by (rule Acquire_acquired [OF assms])
  then obtain c cs' t ts where l: "cs = c # cs'" "a_Targets st = t # ts" by (cases cs; cases "a_Targets st") (auto simp: acquired_def)
  have c: "c = no_connection" "list_all2 (connection_of (r_Mode r) (path_edges st) t) ts cs'" using a l by (simp_all add: acquired_def)
  have "connection_of (r_Mode r) (path_edges st) t ((t # ts) ! i) ((c # cs') ! i)" if "i \<in> {1..<length (c # cs')}" for i
    using that c(2) by (cases i) (auto dest: list_all2_nthD2)
  with c show ?thesis by (simp add: l list_all2_lengthD)
qed

section \<open>A run\<close>

text \<open>A server with one function, which calls itself, and a request for its callers.\<close>

definition acq_item :: CallHierarchyItem where
  "acq_item = \<lparr>c_Name = ''f'', c_Kind = 12, c_Tags = [], c_Detail = '''', c_URI = ''file:///a'', c_Range = sample_range,
     c_SelectionRange = sample_range, c_Data = ''''\<rparr>"

definition sample_server :: acq_env where
  "sample_server = \<lparr>ae_env = sample_env,
     url_Parse = (\<lambda>u. Some \<lparr>url_Scheme = ''file'', url_Host = '''', url_Path = ''/a'', url_Opaque = '''', url_RawQuery = '''', url_Fragment = '''', url_Rest = ''''\<rparr>),
     url_String = (\<lambda>u. ''file:///a''), path_Clean = (\<lambda>p. p), to_Lower = (\<lambda>s. s), ctx_Err = (\<lambda>k. None), call_Err = (\<lambda>k. None), cl_Supply = None,
     cl_Symbols = (\<lambda>k u. Inr []), cl_Prepare = (\<lambda>k u p. Inr [acq_item]),
     cl_Calls = (\<lambda>d k i. Inr ([\<lparr>call_Item = acq_item, call_FromRanges = Some [sample_range]\<rparr>], False)),
     en_Locator = (\<lambda>x. Inr ''{}''), en_SymbolParams = (\<lambda>x. Inr ''{}''), en_PrepareParams = (\<lambda>x y. Inr ''{}''), en_ItemParams = (\<lambda>x. Inr ''{}''),
     en_Supply = (\<lambda>x. Inr ''{}''), en_Symbols = (\<lambda>x. Inr ''{}''), en_Items = (\<lambda>x. Inr ''{}''), en_Calls = (\<lambda>d x. Inr ''{}''), en_Error = (\<lambda>x. Inr ''{}'')\<rparr>"

definition sample_target :: AcqTarget where
  "sample_target = \<lparr>at_ID = ''root'', at_Locator = \<lparr>l_URI = ''file:///a'', l_Symbol = '''', l_Line = Some 0, l_Character = Some 0, l_LanguageID = ''go''\<rparr>,
     at_DownDepth = 1, at_UpDepth = 1\<rparr>"

definition sample_acquisition :: Request where
  "sample_acquisition = \<lparr>r_Mode = IncomingMode, r_Context = \<lparr>ac_ID = ''c'', ac_SessionID = ''s'', ac_Generation = 1, ac_PositionEncoding = ''utf-16''\<rparr>,
     r_Root = sample_target, r_RequiredTargets = [],
     r_Limits = \<lparr>MaxNodesL = 2, MaxRequests = 3, MaxEvidenceBytes = 100, MaxPathWork = 10, TimeoutL = 1, RequestTimeoutL = 1, MaxResponseBytes = 10, MaxMessages = 1\<rparr>,
     r_TopmostSiblings = False\<rparr>"

lemma trim_root: "trim_space ''root'' \<noteq> []"
  by code_simp

lemma sample_accepted: "ValidateRequest sample_server sample_acquisition = None"
  by (simp add: trim_root ValidateRequest_def sample_acquisition_def sample_target_def sample_server_def canonical_uri_def has_prefix_def)

lemma acq_item_valid: "ValidateItem sample_env (acq_node sample_server acq_item) = None" "ID (acq_node sample_server acq_item) = ''0''"
  by (simp_all add: ValidateItem_def acq_node_def node_def NewNode_def acq_item_def sample_env_def sample_range_def rng_def lessPosition_def Item.defs sample_server_def)

lemma acquired_collect:
  assumes "Acquire A cancelled check_graph check_result r = Some (Inr (cs, st))"
  shows "\<exists>st0. collect A (start_runner r) = Some st0 \<and> a_Complete st = a_Complete st0 \<and> a_Targets st = a_Targets st0"
  using assms by (auto simp: Acquire_def acquireEvidence_def finishGraph_def connect_def Let_def split: option.splits sum.splits prod.splits if_splits)

lemma sample_invoke:
  assumes "a_Request st = sample_acquisition" "u_Requests (a_Usage st) < 3" "u_EvidenceBytes (a_Usage st) < 50" "u_PrepareProbes (a_Usage st) < 3"
    and "answer (length (a_Requests st)) = Inr v" "enc v = Inr x" "length x < 9" "params = Inr y" "length y < 9"
  shows "\<exists>rec st'. invoke sample_server target meth nid params answer enc st = (Some v, rec, st') \<and> rq_Outcome rec = OutcomeSuccess \<and> st' = st\<lparr>a_Requests := a_Requests st', a_Usage := a_Usage st', a_polls := Suc (a_polls st)\<rparr> \<and>
    u_Requests (a_Usage st') = u_Requests (a_Usage st) + 1 \<and> u_EvidenceBytes (a_Usage st') < u_EvidenceBytes (a_Usage st) + 20 \<and>
    u_PrepareProbes (a_Usage st') \<le> u_PrepareProbes (a_Usage st) + 1 \<and> u_Nodes (a_Usage st') = u_Nodes (a_Usage st)"
  using assms
  by (simp add: invoke_def capture_params_def blocked_reason_def boundedJSON_def new_record_def spend_def attempt_def call_outcome_def capture_reply_def
    log_request_def sample_server_def sample_acquisition_def MaxPrepareProbes_def Let_def)

lemma sample_uri: "canonical_uri sample_server ''file:///a''"
  by (simp add: canonical_uri_def sample_server_def has_prefix_def)

lemma sample_call_ok: "\<not> bad_call sample_server \<lparr>call_Item = acq_item, call_FromRanges = Some [sample_range]\<rparr>"
  using sample_uri acq_item_valid(1) by (simp add: bad_call_def acq_item_def sample_range_def rng_def ValidateRange_def lessPosition_def) (simp add: sample_server_def)

lemma sample_identity: "\<not> identity_mismatch sample_server sample_target \<lparr>Line = 0, Character = 0\<rparr> acq_item"
  using sample_uri acq_item_valid(1) by (simp add: identity_mismatch_def contains_def lessPosition_def sample_target_def acq_item_def sample_range_def) (simp add: sample_server_def)

definition sample_ready :: "runner \<Rightarrow> bool" where
  "sample_ready st \<longleftrightarrow> a_Request st = sample_acquisition \<and> u_Requests (a_Usage st) < 3 \<and> u_EvidenceBytes (a_Usage st) < 50 \<and> u_PrepareProbes (a_Usage st) < 3 \<and>
     a_Complete st \<and> a_queries st = Map.empty"

lemma sample_resolved:
  "\<exists>r st. resolve sample_server sample_target (start_runner sample_acquisition) = (r, st) \<and> rs_Status r = Resolved \<and> rs_Prepared r = Some acq_item \<and>
     rs_Identity r = Some (acq_node sample_server acq_item) \<and> sample_ready st \<and> a_nodes st = []"
proof -
  let ?st = "start_runner sample_acquisition" and ?p = "\<lparr>Line = 0, Character = 0\<rparr>"
  obtain rec st' where i: "invoke sample_server (at_ID sample_target) prepareMethod '''' (en_PrepareParams sample_server (l_URI (at_Locator sample_target)) ?p)
      (\<lambda>k. cl_Prepare sample_server k (l_URI (at_Locator sample_target)) ?p) (en_Items sample_server) ?st = (Some [acq_item], rec, st')"
    "st' = ?st\<lparr>a_Requests := a_Requests st', a_Usage := a_Usage st', a_polls := Suc (a_polls ?st)\<rparr>"
    "u_Requests (a_Usage st') = 1" "u_EvidenceBytes (a_Usage st') < 20" "u_PrepareProbes (a_Usage st') \<le> 1"
    using sample_invoke [of ?st "\<lambda>k. cl_Prepare sample_server k (l_URI (at_Locator sample_target)) ?p" "[acq_item]" "en_Items sample_server" "''{}''"
        "en_PrepareParams sample_server (l_URI (at_Locator sample_target)) ?p" "''{}''" "at_ID sample_target" prepareMethod "''''"]
    by (auto simp: start_runner_def sample_server_def)
  have s: "cl_Supply sample_server = None" "l_Symbol (at_Locator sample_target) = ''''" "locator_position (at_Locator sample_target) = ?p"
    by (simp_all add: sample_server_def sample_target_def locator_position_def)
  have f: "a_Request st' = sample_acquisition" "a_Complete st'" "a_queries st' = Map.empty" "a_nodes st' = []"
    by (subst i(2), simp add: start_runner_def)+
  have "a_resolutions ?st = Map.empty" by (simp add: start_runner_def)
  then show ?thesis
    using i(1,3-5) s f sample_identity sample_uri
    by (simp add: resolve_def resolve_new_def supply_document_def probe_def MaxPrepareProbes_def symbol_mismatch_def resolved_def sample_ready_def
        eval_nat_numeral)
qed

lemma sample_seeded:
  "\<exists>t. a_Targets (seed_phase sample_server (start_runner sample_acquisition)) = [t] \<and> tr_Requested t = sample_target \<and> tr_Admission t = Admitted \<and>
     rs_Identity (tr_Resolution t) = Some (acq_node sample_server acq_item) \<and> tr_Incoming t = zero_direction \<and>
     sample_ready (seed_phase sample_server (start_runner sample_acquisition)) \<and>
     map_of (a_nodes (seed_phase sample_server (start_runner sample_acquisition))) (ID (acq_node sample_server acq_item)) \<noteq> None"
proof -
  obtain r st where r: "resolve sample_server sample_target (start_runner sample_acquisition) = (r, st)" "rs_Status r = Resolved" "rs_Prepared r = Some acq_item"
      "rs_Identity r = Some (acq_node sample_server acq_item)" "sample_ready st" "a_nodes st = []"
    using sample_resolved by blast
  have q: "r_Root (a_Request (start_runner sample_acquisition)) = sample_target" "r_RequiredTargets (a_Request (start_runner sample_acquisition)) = []"
    by (simp_all add: start_runner_def sample_acquisition_def)
  have l: "a_Request st = sample_acquisition" "MaxNodesL (r_Limits sample_acquisition) = 2" "\<not> r_TopmostSiblings sample_acquisition"
    using r(5) by (simp_all add: sample_ready_def sample_acquisition_def)
  show ?thesis
    using r q l unfolding sample_ready_def
    by (simp add: seed_phase_def resolve_targets_def admit_targets_def admission_order_def admit_target_def admit_def new_target_def resolutionID_def Let_def)
qed

lemma sample_asked:
  assumes "sample_ready st" and "map_of (a_nodes st) (ID (acq_node sample_server acq_item)) \<noteq> None"
  shows "\<exists>q st'. query sample_server target nid IncomingDirection st = ((q, False), st') \<and> qr_status q = SuccessNonempty \<and>
    map nb_item (qr_neighbors q) = [acq_item] \<and> a_Complete st' \<and> a_Targets st' = a_Targets st"
proof -
  let ?c = "\<lparr>call_Item = acq_item, call_FromRanges = Some [sample_range]\<rparr>"
  let ?item = "case map_of (a_items st) nid of None \<Rightarrow> zero_item | Some i \<Rightarrow> i"
  have st: "a_Request st = sample_acquisition" "u_Requests (a_Usage st) < 3" "u_EvidenceBytes (a_Usage st) < 50" "u_PrepareProbes (a_Usage st) < 3"
    "a_Complete st" "a_queries st = Map.empty" using assms(1) by (simp_all add: sample_ready_def)
  have a: "reported sample_server IncomingDirection ?item (length (a_Requests st)) = Inr [?c]" "en_Calls sample_server IncomingDirection [?c] = Inr ''{}''"
    "en_ItemParams sample_server ?item = Inr ''{}''"
    by (simp_all add: reported_def sample_server_def)
  obtain rec st' where i: "invoke sample_server target (call_method IncomingDirection) nid (en_ItemParams sample_server ?item)
      (reported sample_server IncomingDirection ?item) (en_Calls sample_server IncomingDirection) st = (Some [?c], rec, st')" "rq_Outcome rec = OutcomeSuccess"
    "st' = st\<lparr>a_Requests := a_Requests st', a_Usage := a_Usage st', a_polls := Suc (a_polls st)\<rparr>"
    using sample_invoke [OF st(1-4), of "reported sample_server IncomingDirection ?item" "[?c]" "en_Calls sample_server IncomingDirection" "''{}''"
        "en_ItemParams sample_server ?item" "''{}''" target "call_method IncomingDirection" nid] a by auto
  have f: "a_nodes st' = a_nodes st" "a_Complete st' = a_Complete st" "a_Targets st' = a_Targets st" by (subst i(3), simp)+
  show ?thesis
    using st i(1,2) f assms(2) sample_call_ok
    by (simp add: query_def ask_neighbors_def Let_def query_status_def add_neighbor_def admit_def)
qed

lemma sample_visited:
  assumes "sample_ready st" and "map_of (a_nodes st) (ID (acq_node sample_server acq_item)) \<noteq> None" and "a_Targets st = [t]" and "tr_Requested t = sample_target"
    and "tr_Incoming t = zero_direction\<lparr>dr_StartIDs := [ID (acq_node sample_server acq_item)]\<rparr>"
  defines "w \<equiv> \<lparr>w_queue = [(ID (acq_node sample_server acq_item), 0)], w_depths = [(ID (acq_node sample_server acq_item), 0)]\<rparr>"
  shows "\<exists>w' st'. visit sample_server IncomingDirection 0 (w, st) = (w', st') \<and> w_queue w' = [] \<and> a_Complete st' \<and>
    (\<exists>t'. a_Targets st' = [t'] \<and> map ex_Status (dr_Expansions (tr_Incoming t')) = [SuccessNonempty])"
proof -
  let ?n = "ID (acq_node sample_server acq_item)"
  obtain q st' where q: "query sample_server (at_ID sample_target) ?n IncomingDirection st = ((q, False), st')" "qr_status q = SuccessNonempty"
    "map nb_item (qr_neighbors q) = [acq_item]" "a_Complete st'" "a_Targets st' = [t]"
    using sample_asked [OF assms(1,2)] assms(3) by fastforce
  then obtain n where n: "qr_neighbors q = [n]" "nb_item n = acq_item" by auto
  have "\<not> depth_limit IncomingDirection t \<le> 0" using assms(4) by (simp add: depth_limit_def sample_target_def)
  then show ?thesis
    using q n assms(3-5) by (simp add: visit_def w_def Let_def note_expansion_def set_direction_def direction_of_def zero_direction_def)
qed

lemma sample_collected: "\<exists>st. collect sample_server (start_runner sample_acquisition) = Some st \<and> a_Complete st \<and> a_Targets st \<noteq> []"
proof -
  let ?st = "seed_phase sample_server (start_runner sample_acquisition)" and ?n = "ID (acq_node sample_server acq_item)"
  obtain t where t: "a_Targets ?st = [t]" "tr_Requested t = sample_target" "tr_Admission t = Admitted"
      "rs_Identity (tr_Resolution t) = Some (acq_node sample_server acq_item)" "tr_Incoming t = zero_direction" "sample_ready ?st" "map_of (a_nodes ?st) ?n \<noteq> None"
    using sample_seeded by blast
  let ?t = "t\<lparr>tr_Incoming := zero_direction\<lparr>dr_StartIDs := [?n]\<rparr>\<rparr>" and ?w = "\<lparr>w_queue = [(?n, 0)], w_depths = [(?n, 0)]\<rparr>"
  let ?s = "?st\<lparr>a_Targets := [?t]\<rparr>"
  have m: "r_Mode (a_Request ?st) = IncomingMode" using t(6) by (simp add: sample_ready_def sample_acquisition_def)
  have w: "start_walk IncomingMode IncomingDirection t = (?t, ?w)"
    using t(3-5) by (simp add: start_walk_def start_ids_def sortedUnique_def uniqueStrings_def set_direction_def direction_of_def)
  have "sample_ready ?s" using t(6) by (simp add: sample_ready_def)
  then obtain w' st' t' where v: "visit sample_server IncomingDirection 0 (?w, ?s) = (w', st')" "w_queue w' = []" "a_Complete st'" "a_Targets st' = [t']"
      "map ex_Status (dr_Expansions (tr_Incoming t')) = [SuccessNonempty]"
    using sample_visited [of ?s ?t] t(2,7) by auto
  have "visit_rounds sample_server IncomingDirection [?w] ?s = visit_rounds sample_server IncomingDirection [w'] st'"
    using v(1) by (subst visit_rounds.simps) simp
  also have "\<dots> = Some ([w'], st')" using v(2) by (subst visit_rounds.simps) simp
  finally have r: "visit_rounds sample_server IncomingDirection [?w] ?s = Some ([w'], st')" .
  have "dr_Expansions (tr_Incoming t') \<noteq> []" "aggregate (dr_Expansions (tr_Incoming t')) = SuccessNonempty" using v(5) by (auto simp: aggregate_def Let_def)
  then have "a_Complete (finish_walks IncomingDirection [w'] st')" "a_Targets (finish_walks IncomingDirection [w'] st') \<noteq> []"
    using v(3,4) by (simp_all add: finish_walks_def Let_def finish_direction_def direction_of_def set_direction_def settled_status_def)
  moreover have "collect sample_server (start_runner sample_acquisition) = Some (finish_walks IncomingDirection [w'] st')"
    using m w t(1) r by (simp add: collect_def Let_def traverse_def)
  ultimately show ?thesis by blast
qed

abbreviation sample_acquire :: "(acquire_error + Connection list \<times> runner) option" where
  "sample_acquire \<equiv> Acquire sample_server (\<lambda>_. False) (\<lambda>_. None) (\<lambda>_. None) sample_acquisition"

lemma sample_acquired: "\<exists>cs st. sample_acquire = Some (Inr (cs, st)) \<and> a_Complete st \<and> a_Targets st \<noteq> []"
proof -
  obtain out where o: "sample_acquire = Some out"
      "case out of Inl (RequestError e) \<Rightarrow> ValidateRequest sample_server sample_acquisition = Some e
      | Inl (GraphError e) \<Rightarrow> \<exists>g. (\<lambda>_. None) (g :: Call_Graph.Result) = Some e
      | Inl (ConnectError e) \<Rightarrow> False
      | Inl (ResultError e) \<Rightarrow> \<exists>x. (\<lambda>_. None) (x :: Connection list \<times> runner) = Some e
      | Inr x \<Rightarrow> ValidateRequest sample_server sample_acquisition = None"
    using acquire_ends [of sample_server "\<lambda>_. False" "\<lambda>_. None" "\<lambda>_. None" sample_acquisition] by blast
  then obtain cs st where s: "out = Inr (cs, st)" using sample_accepted by (auto split: sum.splits acquire_error.splits)
  with o(1) acquired_collect [of sample_server "\<lambda>_. False" "\<lambda>_. None" "\<lambda>_. None" sample_acquisition cs st] sample_collected show ?thesis by auto
qed

lemma Acquire_budget_witness: "\<exists>cs st. sample_acquire = Some (Inr (cs, st)) \<and> within_limits (r_Limits sample_acquisition) (a_Usage st)"
proof -
  obtain cs st where s: "sample_acquire = Some (Inr (cs, st))" using sample_acquired by blast
  with Acquire_budget [OF s] show ?thesis by blast
qed

lemma Acquire_evidence_witness: "\<exists>cs st. sample_acquire = Some (Inr (cs, st)) \<and> distinct (map edge_key (Edges (a_Graph st)))"
proof -
  obtain cs st where s: "sample_acquire = Some (Inr (cs, st))" using sample_acquired by blast
  with Acquire_evidence [OF s] show ?thesis by blast
qed

lemma Acquire_complete_witness:
  "\<exists>cs st t. sample_acquire = Some (Inr (cs, st)) \<and> a_Complete st \<and> t \<in> set (a_Targets st) \<and>
     resolutionID (tr_Resolution t) \<in> ID ` set (Result.Nodes (a_Graph st)) \<and> direction_complete sample_server st IncomingDirection (tr_Incoming t)"
proof -
  obtain cs st where s: "sample_acquire = Some (Inr (cs, st))" "a_Complete st" "a_Targets st \<noteq> []" using sample_acquired by blast
  then have t: "hd (a_Targets st) \<in> set (a_Targets st)" by simp
  from Acquire_complete [OF s(1,2) t] s t show ?thesis by blast
qed

lemma Acquire_layers_witness:
  "\<exists>cs st t. sample_acquire = Some (Inr (cs, st)) \<and> a_Complete st \<and> t \<in> set (a_Targets st) \<and>
     (\<forall>k < length (dr_Layers (direction_of IncomingDirection t)). Depth (dr_Layers (direction_of IncomingDirection t) ! k) = int k)"
proof -
  obtain cs st where s: "sample_acquire = Some (Inr (cs, st))" "a_Complete st" "a_Targets st \<noteq> []" using sample_acquired by blast
  then have t: "hd (a_Targets st) \<in> set (a_Targets st)" by simp
  from Acquire_layers [OF s(1,2) t refl, of IncomingDirection] s t show ?thesis by blast
qed

end
