(* ===== verification/Spec2Isabelle.thy ===== *)
theory Spec2Isabelle
  imports Source_Position Utf16_Position Retained_Path Session_Properties Request_Lifecycle
    Dependence_Classes Observation_Properties Cycle_Count Call_Graph_Properties Traverse_Properties Slicer_Properties Reconcile
    Component_Properties Metrics_Properties Retained_Tables_Properties Json_Rpc_Properties Coordinator_Properties
begin

text \<open>
  Verification of the core of \<open>lsp-trace\<close>, a Go program that asks language servers for call hierarchies and
  keeps what they answer as evidence: traces of incoming calls, slices of outgoing calls, sessions of servers,
  and analyses of retained calls. File names are relative to \<open>src/\<close>.

  \<^bold>\<open>The program and the theories.\<close>

  \<^item> A client talks to a language server over \<open>internal/jsonrpc\<close>. Theory \<open>Json_Rpc\<close> models \<open>conn.go\<close>: the framing by
    \<open>Content-Length\<close> (\<open>readMessageBody\<close>, \<open>write\<close>), and \<open>Call\<close>, \<open>Notify\<close> and \<open>readLoop\<close> as steps that interleave freely;
    the state \<open>Conn\<close> has the table of pending calls, the channels, the streams and the trace.
    \<open>Json_Rpc_Properties\<close> shows that every call gets its own response and the reader never waits, that the output
    is read back in order, and the message bound.
  \<^item> \<open>internal/traverse\<close> walks callers breadth first within bounds on depth and nodes (\<open>Incoming\<close>). Theory
    \<open>Traverse\<close> models \<open>traverse.go\<close>; \<open>Traverse_Properties\<close> shows soundness, completeness of a trace that says it
    is complete, in terms of the requests that were made, and that the walk ends. \<open>internal/slicer\<close> discovers callees from the symbols of a document
    (\<open>Discover\<close>): theories \<open>Slicer\<close> and \<open>Slicer_Properties\<close>.
  \<^item> \<open>internal/acquisition\<close> acquires the callers and callees of several targets with one budget. Theory \<open>Acquisition\<close> models
    the types, the validation of a request, the budgeted request (\<open>invoke\<close>) and the resolution of a target, theory \<open>Coordinator\<close> the
    siblings, the cached queries, the round-robin traversal, the final graph and the connections of \<open>coordinator.go\<close>. \<open>Coordinator_Steps\<close>
    gives the operations as steps that keep the account of the budget, \<open>Coordinator_Evidence\<close> what the edges and the query cache hold,
    \<open>Coordinator_Walk\<close> and \<open>Coordinator_Rounds\<close> the visits of a target and the end of the rounds, \<open>Coordinator_Seeds\<close>
    resolution and admission, \<open>Coordinator_Traversal\<close> and \<open>Coordinator_Connections\<close> the whole of a run, and \<open>Coordinator_Properties\<close>
    shows that an acquisition returns, its budget, soundness, completeness and distances.
  \<^item> All three produce the nodes, edges and results of \<open>internal/graph\<close>: theory \<open>Call_Graph\<close> models \<open>graph.go\<close> and the
    canonical form, merging and cycle count of \<open>result.go\<close>; \<open>Call_Graph_Properties\<close> and \<open>Cycle_Count\<close> prove
    them; \<open>Reconcile\<close> models and proves \<open>reconcile.go\<close>, which identifies aliases between an incoming trace and a slice.
  \<^item> Retained calls are analysed offline. \<open>internal/retainedpath\<close> searches shortest paths within a budget and checks them
    by reverse distances: theory \<open>Retained_Path\<close>, over the breadth-first search of \<open>Shortlex_Bfs\<close>.
    \<open>internal/boundedanalysis\<close> projects admitted tables, runs one of three operations and checks the result in another
    way: theory \<open>Bounded_Analysis\<close>. \<open>Component_Search\<close> proves Kosaraju's algorithm and the weak sweep,
    \<open>Component_Work\<close> their cost, \<open>Partition_Check\<close> the check by connectivity and Kahn's algorithm, and
    \<open>Component_Properties\<close> puts producer, check and budget together. \<open>internal/boundedmetrics\<close> counts
    degrees, neighbours and pairs and checks them against sorted lists: theories \<open>Bounded_Metrics\<close> and
    \<open>Metrics_Properties\<close>. Their input is the tables of \<open>internal/retainedcalls\<close>, extracted from a native graph and joined again:
    theory \<open>Retained_Tables\<close>. \<open>Retained_Tables_Properties\<close> shows what the reconstruction accepts, the round trip, and
    that admitted tables meet what the analyses assume.
  \<^item> \<open>internal/session\<close> keeps the sessions of servers: \<open>Session_Lifecycle\<close> models the vocabularies and the transition table
    of \<open>lifecycle.go\<close> and \<open>vocabulary.go\<close>, \<open>Session_Manager\<close> every operation of \<open>manager.go\<close>, each of which
    holds the one lock and so is one step; \<open>Session_Invariants\<close> and \<open>Session_Properties\<close> prove bounds, delivery,
    eviction and agreement with the table.
  \<^item> \<open>internal/requestlifecycle\<close> validates documents that tell the story of requests: theory \<open>Request_Lifecycle\<close>.
    \<open>internal/relations\<close> groups dependent observations and validates them: \<open>Relations\<close>, with
    \<open>Dependence_Classes\<close> over the union-find interface of \<open>Disjoint_Classes\<close>, and \<open>Observation_Properties\<close>.
  \<^item> \<open>internal/sourceposition\<close> and \<open>internal/utf16position\<close> convert between byte offsets and positions of a source:
    theories \<open>Source_Position\<close> and \<open>Utf16_Position\<close>, over the decoder of \<open>Utf8\<close>.
  \<^item> \<open>Prelude\<close>, \<open>Go_Map\<close> and \<open>Go_Json\<close> hold what the models share of Go: slices, words, maps, decimal
    numerals, JSON strings. \<open>Transition_System\<close> has reachable states and the interface of invariants.

  \<^bold>\<open>Conventions.\<close> A struct is a record, an error result a sum with the error on the left, a fixed-width integer a
  word. Strings are bytes in their order. A map is a partial function, or an association list where the code
  takes its size or ranges over it. \<open>sort.Slice\<close> is a stable sort; where keys can be equal the order of equal
  elements does not show in the result, or the keys are distinct by admission. A loop that may not
  end returns an option or carries fuel, and a property says that it returns: the cycle count has fuel for every
  node of the graph, the dependence search one more than the number of observations. The loops of the bounded
  analysis and of the path search end because their budget falls; those of the checks because the unseen nodes or the
  degrees do.

  \<^bold>\<open>Parameters.\<close> The language server, contexts and clocks are functions of how often they were asked, so that
  they may answer differently each time. SHA-256, the URL parser, the codec of list cursors and the JSON codec of a
  message are functions; a property that needs something of them has it as a hypothesis.

  \<^bold>\<open>Interfaces.\<close> The locale \<open>invariant_system\<close> (start states, steps, a kept predicate) is interpreted for the session
  manager, the acquisition and twice for the connection; \<open>ordered_graph\<close> (adjacency in order) for forward and backward search;
  \<open>disjoint_sets\<close> for the union-find of the dependence classes; \<open>resolution_relation\<close> and \<open>seed_relation\<close> (a relation on states
  that every request and admission keeps, and so every resolution and the whole seed phase) for the steps of an acquisition, for
  what it keeps, for the cache of resolutions and for the requests about calls.

  \<^bold>\<open>Not modelled.\<close> The programs under \<open>cmd\<close>, the MCP transport and the session runtime are files, processes,
  goroutines and timers around the modelled packages. The retained, hydrated and projected documents are admitted by
  JSON schemas of a third-party compiler and by digests of stored files; of them the models take what their users
  read. The graph analytics use floating-point routines of a library. Of the modelled packages, the
  JSON encoders (\<open>MarshalJSON\<close>, the version 3 document, the seals) and the strict decoders are left out.
\<close>

end
